(* ===== verification/Prelude.thy ===== *)
theory Prelude
  imports Main "HOL-Library.Word" "HOL-Library.Multiset"
begin

text \<open>
  Shared vocabulary of the development: the fact collections the component proofs are
  driven by, aligned power-of-two blocks of page numbers or addresses, the alignment
  macros of \<^verbatim>\<open>include/align.h\<close>, and the error codes of
  \<^verbatim>\<open>include/lightcore/errno.h\<close> that the modelled operations return.
\<close>

unbundle bit_operations_syntax

named_theorems blk_simps \<open>facts about aligned power-of-two blocks\<close>
named_theorems align_simps \<open>facts about the alignment macros\<close>

text \<open>The C integer types of a 64-bit port.\<close>

type_synonym byte = "8 word"
type_synonym u32 = "32 word"
type_synonym u64 = "64 word"
type_synonym ulong = "64 word"

section \<open>Error codes\<close>

text \<open>The \<^verbatim>\<open>state\<close> results of the modelled operations: \<open>ENOERR\<close> is success.\<close>

datatype errno = ENOERR | EINVAL | ENOMEM | ENOENT | ENOSPC | EBUSY | ETIME | EFAULT
  | EADDRNOTAVAIL

section \<open>Aligned blocks\<close>

definition block :: "nat \<Rightarrow> nat \<Rightarrow> nat set" where
  "block p k = {p ..< p + 2 ^ k}"

lemma mem_block [blk_simps]: "q \<in> block p k \<longleftrightarrow> p \<le> q \<and> q < p + 2 ^ k"
  by (auto simp: block_def)

lemma head_in_block [simp, intro]: "p \<in> block p k"
  by (simp add: block_def)

lemma finite_block [simp]: "finite (block p k)"
  by (simp add: block_def)

lemma card_block [simp]: "card (block p k) = 2 ^ k"
  by (simp add: block_def)

lemma block_split: "block p (Suc k) = block p k \<union> block (p + 2 ^ k) k"
  by (auto simp: block_def)

lemma block_split_disjoint: "block p k \<inter> block (p + 2 ^ k) k = {}"
  by (auto simp: block_def)

lemma aligned_le_next:
  assumes "(2::nat) ^ k dvd p" "2 ^ k dvd q" "p < q"
  shows "p + 2 ^ k \<le> q"
proof -
  from assms obtain a b where ab: "p = 2 ^ k * a" "q = 2 ^ k * b" by (auto elim!: dvdE)
  with assms(3) have "a < b" by simp
  then have "2 ^ k * Suc a \<le> 2 ^ k * b" by (intro mult_le_mono2) simp
  with ab show ?thesis by simp
qed

lemma aligned_in_block:
  assumes "(2::nat) ^ j dvd p" "2 ^ k dvd q" "j \<le> k" "q \<in> block p j"
  shows "q = p"
proof (rule ccontr)
  assume "q \<noteq> p"
  with assms(4) have "p < q" by (simp add: mem_block)
  moreover have "2 ^ j dvd q" using assms(2,3) by (meson dvd_trans le_imp_power_dvd)
  ultimately have "p + 2 ^ j \<le> q" using assms(1) aligned_le_next by blast
  with assms(4) show False by (simp add: mem_block)
qed

text \<open>
  The buddy of an aligned block differs from it in one address bit.
\<close>

lemma dvd_imp_even_quotient:
  assumes "(2::nat) ^ k dvd p"
  shows "2 ^ Suc k dvd p \<or> (2 ^ Suc k dvd p - 2 ^ k \<and> 2 ^ k \<le> p)"
proof -
  from assms obtain a where a: "p = 2 ^ k * a" by (elim dvdE)
  show ?thesis
  proof (cases "even a")
    case True
    then show ?thesis using a by (auto elim!: evenE)
  next
    case False
    then obtain b where b: "a = Suc (2 * b)" by (auto elim!: oddE)
    then have "p - 2 ^ k = 2 ^ Suc k * b" and "2 ^ k \<le> p" using a by simp_all
    then show ?thesis by (metis dvd_triv_left)
  qed
qed

lemma bit_aligned: "(2::nat) ^ Suc k dvd p \<Longrightarrow> \<not> bit p k"
  by (auto simp: bit_iff_odd elim!: dvdE)

lemma bit_aligned_upper:
  assumes "(2::nat) ^ Suc k dvd p - 2 ^ k" "2 ^ k \<le> p"
  shows "bit p k"
proof -
  from assms(1) obtain b where b: "p - 2 ^ k = 2 ^ Suc k * b" by (elim dvdE)
  then have "p = 2 ^ k * Suc (2 * b)" using assms(2) by (simp add: algebra_simps)
  then show ?thesis by (simp add: bit_iff_odd)
qed

lemma xor_buddy_lower:
  assumes "(2::nat) ^ Suc k dvd p"
  shows "p XOR 2 ^ k = p + 2 ^ k" and "(p XOR 2 ^ k) AND p = p"
proof -
  from assms have nb: "\<not> bit p k" by (rule bit_aligned)
  have "p XOR 2 ^ k = p OR 2 ^ k"
    by (rule bit_eqI) (use nb in \<open>auto simp: bit_simps\<close>)
  also have "\<dots> = p + 2 ^ k"
    by (rule disjunctive_add [symmetric]) (use nb in \<open>auto simp: bit_simps\<close>)
  finally show "p XOR 2 ^ k = p + 2 ^ k" .
  show "(p XOR 2 ^ k) AND p = p"
    by (rule bit_eqI) (use nb in \<open>auto simp: bit_simps\<close>)
qed

lemma xor_buddy_upper:
  assumes "(2::nat) ^ Suc k dvd p - 2 ^ k" "2 ^ k \<le> p"
  shows "p XOR 2 ^ k = p - 2 ^ k" and "(p XOR 2 ^ k) AND p = p - 2 ^ k"
proof -
  let ?q = "p - 2 ^ k"
  from xor_buddy_lower [OF assms(1)] assms(2) have q: "?q XOR 2 ^ k = p" "p AND ?q = ?q"
    by simp_all
  have "p XOR 2 ^ k = (?q XOR 2 ^ k) XOR 2 ^ k" using q(1) by simp
  also have "\<dots> = ?q" by (simp add: xor.assoc)
  finally show eq: "p XOR 2 ^ k = ?q" .
  show "(p XOR 2 ^ k) AND p = ?q"
    unfolding eq using q(2) by (simp add: and.commute)
qed

text \<open>
  The two halves of a merge: the buddy is aligned, disjoint from the block, and the two
  together are the aligned block of the next order at the smaller of the two addresses.
\<close>

lemma buddy_merge_block:
  fixes p :: nat
  assumes "2 ^ k dvd p"
  defines "b \<equiv> p XOR 2 ^ k"
  shows "2 ^ k dvd b" and "b \<noteq> p" and "block p k \<inter> block b k = {}"
    and "block p k \<union> block b k = block (b AND p) (Suc k)" and "2 ^ Suc k dvd b AND p"
    and "b AND p = min p b"
proof -
  have "2 ^ k dvd b \<and> b \<noteq> p \<and> block p k \<inter> block b k = {}
    \<and> block p k \<union> block b k = block (b AND p) (Suc k) \<and> 2 ^ Suc k dvd b AND p
    \<and> b AND p = min p b"
    using dvd_imp_even_quotient [OF assms(1)]
  proof
    assume d: "2 ^ Suc k dvd p"
    note x = xor_buddy_lower [OF d]
    from assms(1) have "2 ^ k dvd p + 2 ^ k" by simp
    then show ?thesis
      using x d block_split [of p k] block_split_disjoint [of p k] by (simp add: b_def)
  next
    assume d: "2 ^ Suc k dvd p - 2 ^ k \<and> 2 ^ k \<le> p"
    note x = xor_buddy_upper [OF d [THEN conjunct1] d [THEN conjunct2]]
    have "2 ^ k dvd p - 2 ^ k" using assms(1) by (simp add: dvd_diff_nat)
    moreover have "0 < (2::nat) ^ k" by simp
    then have "p - 2 ^ k \<noteq> p" using d by linarith
    ultimately show ?thesis
      using x d block_split [of "p - 2 ^ k" k] block_split_disjoint [of "p - 2 ^ k" k]
      by (auto simp: b_def)
  qed
  then show "2 ^ k dvd b" and "b \<noteq> p" and "block p k \<inter> block b k = {}"
    and "block p k \<union> block b k = block (b AND p) (Suc k)" and "2 ^ Suc k dvd b AND p"
    and "b AND p = min p b"
    by blast+
qed

text \<open>Two aligned blocks that meet are nested.\<close>

lemma aligned_nest:
  fixes m h :: nat
  assumes "2 ^ i dvd m" "2 ^ j dvd h" "i \<le> j" "b \<in> block m i" "b \<in> block h j"
  shows "block m i \<subseteq> block h j"
proof -
  have h: "2 ^ i dvd h" and e: "2 ^ i dvd h + 2 ^ j"
    using assms(2,3) by (meson dvd_add dvd_trans dvd_refl le_imp_power_dvd)+
  have "h \<le> m"
  proof (rule ccontr)
    assume "\<not> h \<le> m"
    then have "m + 2 ^ i \<le> h" using aligned_le_next [OF assms(1) h] by simp
    then show False using assms(4,5) by (simp add: mem_block)
  qed
  moreover have "m < h + 2 ^ j" using assms(4,5) by (simp add: mem_block)
  then have "m + 2 ^ i \<le> h + 2 ^ j" by (rule aligned_le_next [OF assms(1) e])
  ultimately show ?thesis by (auto simp: mem_block)
qed

section \<open>Alignment\<close>

text \<open>
  The macros of \<^verbatim>\<open>include/align.h\<close> on machine words, and the same masks on the \<open>nat\<close>
  addresses of the models: \<open>x & ~m\<close> is \<open>x - (x & m)\<close>. The two agree for every alignment but 0, as
  long as the sum does not wrap.
\<close>

definition align_low_word :: "64 word \<Rightarrow> 64 word \<Rightarrow> 64 word" where
  "align_low_word x a = x AND NOT (a - 1)"

definition align_high_word :: "64 word \<Rightarrow> 64 word \<Rightarrow> 64 word" where
  "align_high_word x a = (x + (a - 1)) AND NOT (a - 1)"

definition align_low :: "nat \<Rightarrow> nat \<Rightarrow> nat" where
  "align_low x a = x - (x AND (a - 1))"

definition align_high :: "nat \<Rightarrow> nat \<Rightarrow> nat" where
  "align_high x a = (x + (a - 1)) - ((x + (a - 1)) AND (a - 1))"

lemma align_high_low: "align_high x a = align_low (x + (a - 1)) a"
  by (simp add: align_high_def align_low_def)

lemma and_le_nat: "(x :: nat) AND y \<le> y" "x AND y \<le> x"
proof -
  have "int (x AND y) \<le> int y" "int (x AND y) \<le> int x"
    by (simp_all add: of_nat_and_eq AND_upper1 AND_upper2)
  then show "x AND y \<le> y" "x AND y \<le> x" by simp_all
qed

lemma align_low_word_nat:
  assumes "a \<noteq> 0"
  shows "unat (align_low_word x a) = align_low (unat x) (unat a)"
proof -
  let ?m = "a - 1"
  have m: "unat ?m = unat a - 1" using assms by (simp add: unat_minus_one)
  have "(x AND NOT ?m) + (x AND ?m) = (x AND NOT ?m) OR (x AND ?m)"
    by (rule disjunctive_add) (auto simp: bit_simps)
  also have "\<dots> = x" by (rule bit_word_eqI) (auto simp: bit_simps)
  finally have "x AND NOT ?m = x - (x AND ?m)" by (simp add: eq_diff_eq)
  moreover have u: "unat (x AND ?m) = unat x AND (unat a - 1)" by (simp only: unsigned_and_eq m)
  then have "x AND ?m \<le> x" using and_le_nat(2) [of "unat x" "unat a - 1"] by (simp only: word_le_nat_alt)
  ultimately show ?thesis by (simp only: align_low_word_def align_low_def unat_sub u)
qed

lemma align_high_word_nat:
  assumes "a \<noteq> 0" "unat x + (unat a - 1) < 2 ^ 64"
  shows "unat (align_high_word x a) = align_high (unat x) (unat a)"
proof -
  have m: "unat (a - 1) = unat a - 1" using assms(1) by (simp add: unat_minus_one)
  have "unat x + (unat a - 1) < 2 ^ LENGTH(64)" using assms(2) by simp
  then have "unat (x + (a - 1)) = unat x + (unat a - 1)"
    by (simp only: unat_word_ariths(1) m mod_less)
  then show ?thesis
    using align_low_word_nat [OF assms(1), of "x + (a - 1)"]
    by (simp add: align_high_word_def align_low_word_def align_high_low)
qed

lemma align_low_power: "align_low x (2 ^ k) = x - x mod 2 ^ k"
  unfolding align_low_def
  by (simp only: mask_eq_exp_minus_1 [symmetric] take_bit_eq_mask [symmetric] take_bit_eq_mod)

lemma align_low_le [align_simps, simp]: "align_low x a \<le> x"
  by (simp add: align_low_def)

lemma align_low_dvd [align_simps, simp]: "2 ^ k dvd align_low x (2 ^ k)"
  by (simp add: align_low_power minus_mod_eq_div_mult)

lemma align_high_dvd [align_simps, simp]: "2 ^ k dvd align_high x (2 ^ k)"
  by (simp add: align_high_low)

lemma align_high_ge [align_simps]: "x \<le> align_high x a"
  using and_le_nat(1) [of "x + (a - 1)" "a - 1"] by (simp add: align_high_def)

lemma align_high_less [align_simps]: "0 < a \<Longrightarrow> align_high x a < x + a"
  using align_low_le [of "x + (a - 1)" a] unfolding align_high_low by linarith

lemma align_high_id [align_simps]: "2 ^ k dvd x \<Longrightarrow> align_high x (2 ^ k) = x"
proof -
  assume "2 ^ k dvd x"
  then obtain m where "x = 2 ^ k * m" by (elim dvdE)
  moreover have "(2 ^ k * m + (2 ^ k - 1)) mod 2 ^ k = (2 ^ k - 1 :: nat)"
    unfolding mod_mult_self4 by simp
  ultimately show ?thesis by (simp add: align_high_low align_low_power)
qed

end
