(* ===== verification/List_Head.thy ===== *)
theory List_Head
  imports Prelude
begin

text \<open>
  The intrusive doubly linked lists of \<^verbatim>\<open>include/list.h\<close> and
  \<^verbatim>\<open>lib/list-debug.c\<close>, at the level of pointers: a store gives every address its
  \<open>next\<close> and \<open>prev\<close> field and each operation is the sequence of field writes of the C
  code. \<open>dlist s h xs\<close> says that the store holds a circular list with head \<open>h\<close> and the
  elements \<open>xs\<close>; the lemmas show what every operation does to \<open>xs\<close>. The other components
  use these results: where they keep a \<open>struct list_head\<close>, their state has the HOL list.
\<close>

section \<open>The store and the operations\<close>

record list_store =
  nxt :: "nat \<Rightarrow> nat"
  prv :: "nat \<Rightarrow> nat"

definition set_nxt :: "nat \<Rightarrow> nat \<Rightarrow> list_store \<Rightarrow> list_store" where
  "set_nxt a v s = s\<lparr>nxt := (nxt s)(a := v)\<rparr>"

definition set_prv :: "nat \<Rightarrow> nat \<Rightarrow> list_store \<Rightarrow> list_store" where
  "set_prv a v s = s\<lparr>prv := (prv s)(a := v)\<rparr>"

text \<open>\<open>POISON_LIST1\<close> and \<open>POISON_LIST2\<close> with a poison offset of 0.\<close>

definition POISON_LIST1 :: nat where
  "POISON_LIST1 = 0x100"

definition POISON_LIST2 :: nat where
  "POISON_LIST2 = 0x110"

definition list_debug_add_check :: "nat \<Rightarrow> nat \<Rightarrow> nat \<Rightarrow> list_store \<Rightarrow> bool" where
  "list_debug_add_check p n x s =
     (if nxt s p \<noteq> n then False
      else if prv s n \<noteq> p then False
      else if x = p \<or> x = n then False
      else True)"

definition list_debug_del_check :: "nat \<Rightarrow> list_store \<Rightarrow> bool" where
  "list_debug_del_check x s =
     (if nxt s x = POISON_LIST1 then False
      else if prv s x = POISON_LIST2 then False
      else True)"

text \<open>\<open>dbg\<close> is \<open>DEBUG_LIST\<close>: the checks are compiled in or not.\<close>

definition list_insert :: "bool \<Rightarrow> nat \<Rightarrow> nat \<Rightarrow> nat \<Rightarrow> list_store \<Rightarrow> list_store" where
  "list_insert dbg p n x s =
     (if dbg \<and> \<not> list_debug_add_check p n x s then s
      else set_nxt x n (set_prv x p (set_prv n x (set_nxt p x s))))"

definition list_head_init :: "nat \<Rightarrow> list_store \<Rightarrow> list_store" where
  "list_head_init h s = set_nxt h h (set_prv h h s)"

definition list_add :: "bool \<Rightarrow> nat \<Rightarrow> nat \<Rightarrow> list_store \<Rightarrow> list_store" where
  "list_add dbg a x s = list_insert dbg a (nxt s a) x s"

definition list_add_prev :: "bool \<Rightarrow> nat \<Rightarrow> nat \<Rightarrow> list_store \<Rightarrow> list_store" where
  "list_add_prev dbg a x s = list_insert dbg (prv s a) a x s"

definition list_deluf :: "nat \<Rightarrow> list_store \<Rightarrow> list_store" where
  "list_deluf x s =
     (let s1 = set_nxt (prv s x) (nxt s x) s
      in set_prv (nxt s1 x) (prv s1 x) s1)"

definition list_del :: "bool \<Rightarrow> nat \<Rightarrow> list_store \<Rightarrow> list_store" where
  "list_del dbg x s =
     (if dbg \<and> \<not> list_debug_del_check x s then s
      else set_prv x POISON_LIST2 (set_nxt x POISON_LIST1 (list_deluf x s)))"

definition list_check_empty :: "nat \<Rightarrow> list_store \<Rightarrow> bool" where
  "list_check_empty h s = (nxt s h = h)"

definition list_check_first :: "nat \<Rightarrow> nat \<Rightarrow> list_store \<Rightarrow> bool" where
  "list_check_first h x s = (prv s x = h)"

definition list_check_end :: "nat \<Rightarrow> nat \<Rightarrow> list_store \<Rightarrow> bool" where
  "list_check_end h x s = (nxt s x = h)"

definition list_check_another :: "nat \<Rightarrow> nat \<Rightarrow> list_store \<Rightarrow> bool" where
  "list_check_another h x s = (nxt s h = x \<and> prv s h = x)"

definition list_check_outsize :: "nat \<Rightarrow> list_store \<Rightarrow> bool" where
  "list_check_outsize x s = (nxt s x = POISON_LIST1)"

definition list_replace :: "nat \<Rightarrow> nat \<Rightarrow> list_store \<Rightarrow> list_store" where
  "list_replace old new s =
     (let s1 = set_prv new (prv s old) s;
          s2 = set_nxt new (nxt s1 old) s1;
          s3 = set_nxt (prv s2 new) new s2
      in set_prv (nxt s3 new) new s3)"

definition list_relocate :: "nat \<Rightarrow> nat \<Rightarrow> nat \<Rightarrow> list_store \<Rightarrow> list_store" where
  "list_relocate p n l s =
     (let first = nxt s l; last = prv s l
      in set_prv n last (set_nxt last n (set_nxt p first (set_prv first p s))))"

definition list_splice :: "nat \<Rightarrow> nat \<Rightarrow> list_store \<Rightarrow> list_store" where
  "list_splice h l s =
     (if \<not> list_check_empty l s then list_relocate h (nxt s h) l s else s)"

definition list_splice_prev :: "nat \<Rightarrow> nat \<Rightarrow> list_store \<Rightarrow> list_store" where
  "list_splice_prev h l s =
     (if \<not> list_check_empty l s then list_relocate (prv s h) h l s else s)"

definition list_move :: "bool \<Rightarrow> nat \<Rightarrow> nat \<Rightarrow> list_store \<Rightarrow> list_store" where
  "list_move dbg h x s = list_add dbg h x (list_del dbg x s)"

definition list_move_prev :: "bool \<Rightarrow> nat \<Rightarrow> nat \<Rightarrow> list_store \<Rightarrow> list_store" where
  "list_move_prev dbg h x s = list_add_prev dbg h x (list_del dbg x s)"

definition list_swap :: "bool \<Rightarrow> nat \<Rightarrow> nat \<Rightarrow> list_store \<Rightarrow> list_store" where
  "list_swap dbg a b s =
     (let p = prv s b;
          s1 = list_del dbg b s;
          s2 = list_replace a b s1;
          p' = (if p = a then b else p)
      in list_add dbg p' a s2)"

definition list_del_init :: "bool \<Rightarrow> nat \<Rightarrow> list_store \<Rightarrow> list_store" where
  "list_del_init dbg x s = list_head_init x (list_del dbg x s)"

definition list_replace_init :: "nat \<Rightarrow> nat \<Rightarrow> list_store \<Rightarrow> list_store" where
  "list_replace_init old new s = list_head_init old (list_replace old new s)"

definition list_splice_init :: "nat \<Rightarrow> nat \<Rightarrow> list_store \<Rightarrow> list_store" where
  "list_splice_init h l s =
     (if \<not> list_check_empty l s then list_head_init l (list_splice h l s) else s)"

definition list_splice_tail_init :: "nat \<Rightarrow> nat \<Rightarrow> list_store \<Rightarrow> list_store" where
  "list_splice_tail_init h l s =
     (if \<not> list_check_empty l s then list_head_init l (list_splice_prev h l s) else s)"

lemma set_fields [simp]:
  "nxt (set_nxt a v s) = (nxt s)(a := v)" "prv (set_nxt a v s) = prv s"
  "prv (set_prv a v s) = (prv s)(a := v)" "nxt (set_prv a v s) = nxt s"
  by (simp_all add: set_nxt_def set_prv_def)

section \<open>Linked chains and circular lists\<close>

fun linked :: "list_store \<Rightarrow> nat list \<Rightarrow> bool" where
  "linked s (a # b # cs) = (nxt s a = b \<and> prv s b = a \<and> linked s (b # cs))"
| "linked s cs = True"

definition dlist :: "list_store \<Rightarrow> nat \<Rightarrow> nat list \<Rightarrow> bool" where
  "dlist s h xs \<longleftrightarrow> linked s (h # xs @ [h]) \<and> distinct (h # xs)"

lemma linked_append:
  "linked s (as @ b # bs) \<longleftrightarrow> linked s (as @ [b]) \<and> linked s (b # bs)"
proof (induction as)
  case Nil
  then show ?case by simp
next
  case (Cons a as)
  then show ?case by (cases as) auto
qed

lemma linked_frame:
  assumes "linked s cs"
    and "\<And>x. x \<in> set (butlast cs) \<Longrightarrow> nxt t x = nxt s x"
    and "\<And>x. x \<in> set (tl cs) \<Longrightarrow> prv t x = prv s x"
  shows "linked t cs"
  using assms
proof (induction s cs rule: linked.induct)
  case (1 s a b cs)
  have "linked t (b # cs)"
  proof (rule "1.IH")
    show "linked s (b # cs)" using "1.prems"(1) by simp
    show "\<And>x. x \<in> set (butlast (b # cs)) \<Longrightarrow> nxt t x = nxt s x"
      using "1.prems"(2) by simp
    show "\<And>x. x \<in> set (tl (b # cs)) \<Longrightarrow> prv t x = prv s x"
      using "1.prems"(3) by simp
  qed
  moreover have "nxt t a = nxt s a" "prv t b = prv s b"
    using "1.prems"(2,3) by auto
  ultimately show ?case using "1.prems"(1) by simp
qed simp_all

text \<open>
  A circular list cut at a position: the part up to the node before the position, the part
  from the node after it, and the link between the two. Every operation below rewrites the
  cut and frames the two parts.
\<close>

abbreviation node_before :: "nat \<Rightarrow> nat list \<Rightarrow> nat" where
  "node_before h xs \<equiv> last (h # xs)"

abbreviation node_after :: "nat \<Rightarrow> nat list \<Rightarrow> nat" where
  "node_after h ys \<equiv> hd (ys @ [h])"

lemma linked_join:
  assumes "as \<noteq> []" "bs \<noteq> []"
  shows "linked s (as @ bs) \<longleftrightarrow>
    linked s as \<and> nxt s (last as) = hd bs \<and> prv s (hd bs) = last as \<and> linked s bs"
proof -
  obtain as' a where as: "as = as' @ [a]" using assms(1) by (cases as rule: rev_cases) auto
  obtain b bs' where bs: "bs = b # bs'" using assms(2) by (cases bs) auto
  have "linked s (as @ bs) \<longleftrightarrow> linked s (as' @ [a]) \<and> linked s (a # b # bs')"
    unfolding as bs using linked_append [of s as' a "b # bs'"] by simp
  then show ?thesis by (auto simp: as bs)
qed

lemma dlist_cut:
  "dlist s h (xs @ ys) \<longleftrightarrow>
     linked s (h # xs) \<and> nxt s (node_before h xs) = node_after h ys \<and>
     prv s (node_after h ys) = node_before h xs \<and> linked s (ys @ [h]) \<and>
     distinct (h # xs @ ys)"
  using linked_join [of "h # xs" "ys @ [h]" s] by (auto simp: dlist_def)

lemma linked_frame_front:
  assumes "linked s (h # xs)"
    and "\<And>x. x \<in> set (butlast (h # xs)) \<Longrightarrow> nxt t x = nxt s x"
    and "\<And>x. x \<in> set xs \<Longrightarrow> prv t x = prv s x"
  shows "linked t (h # xs)"
  using linked_frame [of s "h # xs" t] assms by simp

lemma linked_frame_back:
  assumes "linked s (ys @ [h])"
    and "\<And>x. x \<in> set ys \<Longrightarrow> nxt t x = nxt s x"
    and "\<And>x. x \<in> set (tl (ys @ [h])) \<Longrightarrow> prv t x = prv s x"
  shows "linked t (ys @ [h])"
  using linked_frame [of s "ys @ [h]" t] assms by simp

lemma distinct_butlast_last:
  "distinct (h # xs) \<Longrightarrow> last (h # xs) \<notin> set (butlast (h # xs))"
  by (metis append_butlast_last_id distinct_append disjoint_iff in_set_conv_decomp
      last.simps list.distinct(1) list.set_intros(1))

lemma node_after_cases: "node_after h ys = h \<or> node_after h ys \<in> set ys"
  by (cases ys) auto

lemma node_before_cases: "node_before h xs = h \<or> node_before h xs \<in> set xs"
  by (cases xs rule: rev_cases) auto

lemma tl_back: "distinct (ys @ [h]) \<Longrightarrow> node_after h ys \<notin> set (tl (ys @ [h]))"
  by (cases ys) auto

lemma set_tl_back: "x \<in> set (tl (ys @ [h])) \<Longrightarrow> x = h \<or> x \<in> set ys"
  by (cases ys) auto

lemma set_butlast_front: "x \<in> set (butlast (h # xs)) \<Longrightarrow> x = h \<or> x \<in> set xs"
  by (meson in_set_butlastD set_ConsD)

text \<open>
  The one frame argument: a store that differs from a circular list's store only at the
  two fields of the cut keeps the two parts.
\<close>

lemma dlist_parts_frame:
  assumes d: "dlist s h (xs @ ys)"
    and n: "\<And>x. x \<in> set (h # xs @ ys) \<Longrightarrow> x \<noteq> node_before h xs \<Longrightarrow> nxt t x = nxt s x"
    and p: "\<And>x. x \<in> set (h # xs @ ys) \<Longrightarrow> x \<noteq> node_after h ys \<Longrightarrow> prv t x = prv s x"
  shows "linked t (h # xs)" and "linked t (ys @ [h])"
proof -
  have dist: "distinct (h # xs @ ys)" and lf: "linked s (h # xs)" and lb: "linked s (ys @ [h])"
    using d by (auto simp: dlist_cut)
  show "linked t (h # xs)"
  proof (rule linked_frame_front [OF lf])
    fix x assume x: "x \<in> set (butlast (h # xs))"
    then have "x \<in> set (h # xs @ ys)" using set_butlast_front [of x h xs] by auto
    moreover have "distinct (h # xs)" using dist by auto
    then have "x \<noteq> node_before h xs" using x distinct_butlast_last [of h xs] by blast
    ultimately show "nxt t x = nxt s x" by (rule n)
  next
    fix x assume "x \<in> set xs"
    moreover from this have "x \<noteq> node_after h ys" using node_after_cases [of ys h] dist by auto
    ultimately show "prv t x = prv s x" using p by auto
  qed
  show "linked t (ys @ [h])"
  proof (rule linked_frame_back [OF lb])
    fix x assume "x \<in> set ys"
    moreover from this have "x \<noteq> node_before h xs" using node_before_cases [of h xs] dist by auto
    ultimately show "nxt t x = nxt s x" using n by auto
  next
    fix x assume x: "x \<in> set (tl (ys @ [h]))"
    have "x \<noteq> node_after h ys" using x tl_back [of ys h] dist by auto
    then show "prv t x = prv s x" using p set_tl_back [OF x] by auto
  qed
qed


section \<open>What the operations do to the list\<close>

lemma dlist_ends:
  assumes "dlist s h (xs @ ys)"
  shows "nxt s (node_before h xs) = node_after h ys"
    and "prv s (node_after h ys) = node_before h xs"
    and "distinct (h # xs @ ys)"
  using assms by (auto simp: dlist_cut)

lemma dlist_empty: "dlist s h [] \<longleftrightarrow> nxt s h = h \<and> prv s h = h"
  by (auto simp: dlist_def)

lemma list_head_init_dlist: "dlist (list_head_init h s) h []"
  by (simp add: dlist_empty list_head_init_def)

lemma dlist_check_empty: "dlist s h xs \<Longrightarrow> list_check_empty h s \<longleftrightarrow> xs = []"
  using dlist_ends(1) [of s h "[]" xs] dlist_ends(3) [of s h "[]" xs]
  by (cases xs) (auto simp: list_check_empty_def)

lemma dlist_insert:
  assumes d: "dlist s h (xs @ ys)" and x: "x \<notin> set (h # xs @ ys)"
  shows "dlist (list_insert dbg (node_before h xs) (node_after h ys) x s) h (xs @ x # ys)"
proof -
  let ?p = "node_before h xs" and ?n = "node_after h ys"
  let ?t = "list_insert dbg ?p ?n x s"
  have "?p \<noteq> x" "?n \<noteq> x"
    using x node_before_cases [of h xs] node_after_cases [of ys h] by auto
  then have t: "?t = set_nxt x ?n (set_prv x ?p (set_prv ?n x (set_nxt ?p x s)))"
    using dlist_ends(1,2) [OF d] by (simp add: list_insert_def list_debug_add_check_def)
  have front: "linked ?t (h # xs)" and rear: "linked ?t (ys @ [h])"
    unfolding t by (rule dlist_parts_frame [OF d]; use x in auto)+
  have fields: "nxt ?t x = ?n" "prv ?t ?n = x" "nxt ?t ?p = x" "prv ?t x = ?p"
    unfolding t using \<open>?p \<noteq> x\<close> \<open>?n \<noteq> x\<close> by simp_all
  have "linked ?t ([x] @ ys @ [h])"
    by (subst linked_join) (use rear fields in simp_all)
  then have "linked ?t (x # ys @ [h])" by simp
  moreover note fields(3,4)
  ultimately show ?thesis
    using front dlist_ends(3) [OF d] x by (auto simp: dlist_cut)
qed

lemma dlist_add_after:
  assumes "dlist s h (xs @ ys)" "x \<notin> set (h # xs @ ys)"
  shows "dlist (list_add dbg (node_before h xs) x s) h (xs @ x # ys)"
  using dlist_insert [OF assms] dlist_ends(1) [OF assms(1)] by (simp add: list_add_def)

lemma dlist_add_before:
  assumes "dlist s h (xs @ ys)" "x \<notin> set (h # xs @ ys)"
  shows "dlist (list_add_prev dbg (node_after h ys) x s) h (xs @ x # ys)"
  using dlist_insert [OF assms] dlist_ends(2) [OF assms(1)] by (simp add: list_add_prev_def)

lemma dlist_list_add:
  "dlist s h xs \<Longrightarrow> x \<notin> set (h # xs) \<Longrightarrow> dlist (list_add dbg h x s) h (x # xs)"
  using dlist_add_after [of s h "[]" xs x dbg] by simp

lemma dlist_list_add_prev:
  "dlist s h xs \<Longrightarrow> x \<notin> set (h # xs) \<Longrightarrow> dlist (list_add_prev dbg h x s) h (xs @ [x])"
  using dlist_add_before [of s h xs "[]" x dbg] by simp

text \<open>Neither field of a node of a list holds a poison value, when the poison addresses are
  no nodes.\<close>

abbreviation no_poison :: "nat \<Rightarrow> nat list \<Rightarrow> bool" where
  "no_poison h xs \<equiv> POISON_LIST1 \<notin> set (h # xs) \<and> POISON_LIST2 \<notin> set (h # xs)"

lemma dlist_node:
  assumes "dlist s h (xs @ x # ys)"
  shows "prv s x = node_before h xs" and "nxt s x = node_after h ys"
    and "x \<notin> set (h # xs @ ys)"
  using dlist_ends [of s h xs "x # ys"] dlist_ends [of s h "xs @ [x]" ys] assms by auto

lemma dlist_deluf:
  assumes d: "dlist s h (xs @ x # ys)"
    and t: "nxt t = (nxt s)(node_before h xs := node_after h ys, x := v)"
      "prv t = (prv s)(node_after h ys := node_before h xs, x := w)"
  shows "dlist t h (xs @ ys)"
proof -
  note node = dlist_node [OF d]
  have d1: "dlist s h ((xs @ [x]) @ ys)" using d by simp
  have front: "linked t (h # xs)"
  proof (rule linked_frame_front)
    show "linked s (h # xs)" using d by (auto simp: dlist_cut)
    have dist: "distinct (h # xs)" using dlist_ends(3) [OF d] by auto
    fix z
    { assume z: "z \<in> set (butlast (h # xs))"
      then have "z \<noteq> node_before h xs" using distinct_butlast_last [OF dist] by blast
      moreover have "z \<noteq> x" using node(3) set_butlast_front [OF z] by auto
      ultimately show "nxt t z = nxt s z" by (simp add: t) }
    { assume z: "z \<in> set xs"
      then have "z \<noteq> node_after h ys" "z \<noteq> x"
        using node_after_cases [of ys h] dlist_ends(3) [OF d] node(3) by auto
      then show "prv t z = prv s z" by (simp add: t) }
  qed
  have rear: "linked t (ys @ [h])"
  proof (rule linked_frame_back)
    show "linked s (ys @ [h])" using d1 unfolding dlist_cut by blast
    fix z
    { assume z: "z \<in> set ys"
      then have "z \<noteq> node_before h xs" "z \<noteq> x"
        using node_before_cases [of h xs] dlist_ends(3) [OF d] node(3) by auto
      then show "nxt t z = nxt s z" by (simp add: t) }
    { assume z: "z \<in> set (tl (ys @ [h]))"
      then have "z \<noteq> node_after h ys" "z \<noteq> x"
        using tl_back [of ys h] dlist_ends(3) [OF d] set_tl_back [OF z] node(3) by auto
      then show "prv t z = prv s z" by (simp add: t) }
  qed
  have ne: "node_before h xs \<noteq> x" "node_after h ys \<noteq> x"
    using node(3) node_before_cases [of h xs] node_after_cases [of ys h] by auto
  then have "nxt t (node_before h xs) = node_after h ys"
    "prv t (node_after h ys) = node_before h xs"
    by (simp_all add: t)
  then show ?thesis
    using front rear dlist_ends(3) [OF d] by (auto simp: dlist_cut)
qed

lemma list_del_fields:
  assumes d: "dlist s h (xs @ x # ys)" and np: "no_poison h (xs @ x # ys)"
  shows "nxt (list_del dbg x s) = (nxt s)(node_before h xs := node_after h ys, x := POISON_LIST1)"
    and "prv (list_del dbg x s) = (prv s)(node_after h ys := node_before h xs, x := POISON_LIST2)"
proof -
  note node = dlist_node [OF d]
  have ne: "node_before h xs \<noteq> x" "node_after h ys \<noteq> x"
    using node(3) node_before_cases [of h xs] node_after_cases [of ys h] by auto
  have "node_after h ys \<noteq> POISON_LIST1" "node_before h xs \<noteq> POISON_LIST2"
    using np node_after_cases [of ys h] node_before_cases [of h xs] by auto
  then have "list_debug_del_check x s"
    using node by (simp add: list_debug_del_check_def)
  then show "nxt (list_del dbg x s) = (nxt s)(node_before h xs := node_after h ys, x := POISON_LIST1)"
    and "prv (list_del dbg x s) = (prv s)(node_after h ys := node_before h xs, x := POISON_LIST2)"
    using node(1,2) ne by (simp_all add: list_del_def list_deluf_def Let_def)
qed

lemma dlist_del:
  assumes "dlist s h (xs @ x # ys)" "no_poison h (xs @ x # ys)"
  shows "dlist (list_del dbg x s) h (xs @ ys)" and "list_check_outsize x (list_del dbg x s)"
  using dlist_deluf [OF assms(1) list_del_fields [OF assms]] list_del_fields(1) [OF assms, of dbg]
  by (simp_all add: list_check_outsize_def)

lemma dlist_parts:
  assumes "dlist s h (xs @ zs @ ys)"
  shows "linked s (h # xs)" and "linked s (ys @ [h])"
proof -
  have "dlist s h ((xs @ zs) @ ys)" using assms by simp
  then show "linked s (ys @ [h])" unfolding dlist_cut by blast
  show "linked s (h # xs)" using assms unfolding dlist_cut by blast
qed

lemma dlist_fill:
  assumes parts: "linked s (h # xs)" "linked s (ys @ [h])"
    and dist: "distinct (h # xs @ ms @ ys)" and ms: "ms \<noteq> []" "linked t ms"
    and n: "\<And>x. x \<in> set (h # xs @ ys) \<Longrightarrow> x \<noteq> node_before h xs \<Longrightarrow> nxt t x = nxt s x"
    and p: "\<And>x. x \<in> set (h # xs @ ys) \<Longrightarrow> x \<noteq> node_after h ys \<Longrightarrow> prv t x = prv s x"
    and cut: "nxt t (node_before h xs) = hd ms" "prv t (hd ms) = node_before h xs"
      "nxt t (last ms) = node_after h ys" "prv t (node_after h ys) = last ms"
  shows "dlist t h (xs @ ms @ ys)"
proof -
  have front: "linked t (h # xs)"
  proof (rule linked_frame_front [OF parts(1)])
    have d: "distinct (h # xs)" using dist by auto
    fix z
    { assume z: "z \<in> set (butlast (h # xs))"
      then have "z \<in> set (h # xs @ ys)" using set_butlast_front [of z h xs] by auto
      moreover have "z \<noteq> node_before h xs" using z distinct_butlast_last [OF d] by blast
      ultimately show "nxt t z = nxt s z" by (rule n) }
    { assume z: "z \<in> set xs"
      then have "z \<noteq> node_after h ys" using node_after_cases [of ys h] dist by auto
      then show "prv t z = prv s z" using z p by auto }
  qed
  have rear: "linked t (ys @ [h])"
  proof (rule linked_frame_back [OF parts(2)])
    fix z
    { assume z: "z \<in> set ys"
      then have "z \<noteq> node_before h xs" using node_before_cases [of h xs] dist by auto
      then show "nxt t z = nxt s z" using z n by auto }
    { assume z: "z \<in> set (tl (ys @ [h]))"
      then have "z \<noteq> node_after h ys" using tl_back [of ys h] dist by auto
      then show "prv t z = prv s z" using p set_tl_back [OF z] by auto }
  qed
  have "linked t (ms @ ys @ [h])"
    by (subst linked_join) (use rear ms cut in simp_all)
  then have "linked t ((h # xs) @ ms @ ys @ [h])"
    by (subst linked_join) (use front ms cut in simp_all)
  then show ?thesis using dist by (simp add: dlist_def)
qed

lemma dlist_replace:
  assumes d: "dlist s h (xs @ old # ys)" and new: "new \<notin> set (h # xs @ old # ys)"
  shows "dlist (list_replace old new s) h (xs @ new # ys)"
proof -
  let ?p = "node_before h xs" and ?n = "node_after h ys" and ?t = "list_replace old new s"
  note node = dlist_node [OF d]
  have ne: "?p \<noteq> new" "?n \<noteq> new" "?p \<noteq> old" "?n \<noteq> old" "new \<noteq> old"
    using new node(3) node_before_cases [of h xs] node_after_cases [of ys h] by auto
  have t: "nxt ?t = (nxt s)(new := ?n, ?p := new)" "prv ?t = (prv s)(new := ?p, ?n := new)"
    using node(1,2) ne by (simp_all add: list_replace_def Let_def)
  have d': "dlist s h (xs @ [old] @ ys)" using d by simp
  have "dlist ?t h (xs @ [new] @ ys)"
  proof (rule dlist_fill [OF dlist_parts [OF d']])
    show "distinct (h # xs @ [new] @ ys)" using dlist_ends(3) [OF d] new by auto
  qed (use ne new in \<open>auto simp: t\<close>)
  then show ?thesis by simp
qed

lemma dlist_nth_ends:
  assumes "dlist s l zs" "zs \<noteq> []"
  shows "nxt s l = hd zs" and "prv s l = last zs" and "linked s zs"
proof -
  show "nxt s l = hd zs" using dlist_ends(1) [of s l "[]" zs] assms by simp
  show "prv s l = last zs" using dlist_ends(2) [of s l zs "[]"] assms by simp
  have "linked s (l # zs)" using dlist_parts(1) [of s l zs "[]" "[]"] assms by simp
  then show "linked s zs" using assms(2) by (cases zs) auto
qed

lemma dlist_relocate:
  assumes d: "dlist s h (xs @ ys)" and l: "dlist s l zs" and zs: "zs \<noteq> []"
    and disj: "set (h # xs @ ys) \<inter> set (l # zs) = {}"
  shows "dlist (list_relocate (node_before h xs) (node_after h ys) l s) h (xs @ zs @ ys)"
proof -
  let ?p = "node_before h xs" and ?n = "node_after h ys"
  let ?t = "list_relocate ?p ?n l s"
  note ends = dlist_nth_ends [OF l zs]
  have mem: "?p \<in> set (h # xs @ ys)" "?n \<in> set (h # xs @ ys)"
    using node_before_cases [of h xs] node_after_cases [of ys h] by auto
  have z: "hd zs \<in> set zs" "last zs \<in> set zs" using zs by auto
  have ne: "?n \<noteq> hd zs" "?p \<noteq> last zs" using mem z disj by auto
  have t: "nxt ?t = (nxt s)(?p := hd zs, last zs := ?n)" "prv ?t = (prv s)(hd zs := ?p, ?n := last zs)"
    by (simp_all only: list_relocate_def Let_def set_fields ends(1,2))
  have dz: "distinct zs" using l by (simp add: dlist_def)
  have lz: "linked ?t zs"
  proof (rule linked_frame [OF ends(3)])
    fix x
    { assume x: "x \<in> set (butlast zs)"
      have "last zs \<notin> set (butlast zs)"
        using dz zs by (metis append_butlast_last_id distinct_append disjoint_iff list.set_intros(1))
      then have "x \<noteq> last zs" using x by auto
      moreover have "x \<noteq> ?p" using in_set_butlastD [OF x] mem(1) disj by auto
      ultimately show "nxt ?t x = nxt s x" by (simp only: t fun_upd_other not_False_eq_True) }
    { assume x: "x \<in> set (tl zs)"
      then have "x \<noteq> hd zs" using dz zs by (cases zs) auto
      moreover have "x \<noteq> ?n" using x mem(2) disj list.set_sel(2) [OF zs] by auto
      ultimately show "prv ?t x = prv s x" by (simp only: t fun_upd_other not_False_eq_True) }
  qed
  have d': "dlist s h (xs @ [] @ ys)" using d by simp
  show ?thesis
  proof (rule dlist_fill [OF dlist_parts [OF d'] _ zs lz])
    show "distinct (h # xs @ zs @ ys)"
      using dlist_ends(3) [OF d] dz disj by auto
    fix x assume x: "x \<in> set (h # xs @ ys)"
    then have xz: "x \<notin> set zs" using disj by auto
    { assume "x \<noteq> ?p"
      moreover have "x \<noteq> last zs" using xz z by auto
      ultimately show "nxt ?t x = nxt s x" by (simp only: t fun_upd_other not_False_eq_True) }
    { assume "x \<noteq> ?n"
      moreover have "x \<noteq> hd zs" using xz z by auto
      ultimately show "prv ?t x = prv s x" by (simp only: t fun_upd_other not_False_eq_True) }
  next
    show "nxt ?t ?p = hd zs" using ne(2) by (simp only: t fun_upd_other fun_upd_same not_False_eq_True)
    show "prv ?t (hd zs) = ?p" using ne(1) by (simp only: t fun_upd_other fun_upd_same not_False_eq_True)
    show "nxt ?t (last zs) = ?n" "prv ?t ?n = last zs" by (simp_all only: t fun_upd_same)
  qed
qed

lemma dlist_frame_field:
  assumes "dlist s h xs" "y \<notin> set (h # xs)"
    "nxt t = (nxt s)(y := v)" "prv t = (prv s)(y := w)"
  shows "dlist t h xs"
proof -
  have "linked t (h # xs @ [h])"
  proof (rule linked_frame)
    show "linked s (h # xs @ [h])" using assms(1) by (simp add: dlist_def)
  qed (use assms in \<open>auto dest!: in_set_butlastD\<close>)
  then show ?thesis using assms(1) by (simp add: dlist_def)
qed

lemma dlist_head_init_other:
  "dlist s h xs \<Longrightarrow> y \<notin> set (h # xs) \<Longrightarrow> dlist (list_head_init y s) h xs"
  by (rule dlist_frame_field) (simp_all add: list_head_init_def)

lemma dlist_splice:
  assumes "dlist s h xs" "dlist s l zs" "set (h # xs) \<inter> set (l # zs) = {}"
  shows "dlist (list_splice h l s) h (zs @ xs)" and "dlist (list_splice_prev h l s) h (xs @ zs)"
proof -
  have e: "list_check_empty l s \<longleftrightarrow> zs = []" using assms(2) by (rule dlist_check_empty)
  have n: "nxt s h = node_after h xs" and p: "prv s h = node_before h xs"
    using dlist_ends(1) [of s h "[]" xs] dlist_ends(2) [of s h xs "[]"] assms(1) by simp_all
  show "dlist (list_splice h l s) h (zs @ xs)"
    using dlist_relocate [of s h "[]" xs l zs] assms e n by (simp add: list_splice_def)
  show "dlist (list_splice_prev h l s) h (xs @ zs)"
    using dlist_relocate [of s h xs "[]" l zs] assms e p by (simp add: list_splice_prev_def)
qed

lemma dlist_splice_init:
  assumes "dlist s h xs" "dlist s l zs" "set (h # xs) \<inter> set (l # zs) = {}"
  shows "dlist (list_splice_init h l s) h (zs @ xs)" "dlist (list_splice_init h l s) l []"
    and "dlist (list_splice_tail_init h l s) h (xs @ zs)" "dlist (list_splice_tail_init h l s) l []"
proof -
  have e: "list_check_empty l s \<longleftrightarrow> zs = []" using assms(2) by (rule dlist_check_empty)
  have l: "l \<notin> set (h # zs @ xs)" "l \<notin> set (h # xs @ zs)"
    using assms(2,3) by (auto simp: dlist_def)
  show "dlist (list_splice_init h l s) h (zs @ xs)" "dlist (list_splice_init h l s) l []"
    using dlist_splice(1) [OF assms] e assms(1,2) l
    by (auto simp: list_splice_init_def list_head_init_dlist intro!: dlist_head_init_other)
  show "dlist (list_splice_tail_init h l s) h (xs @ zs)" "dlist (list_splice_tail_init h l s) l []"
    using dlist_splice(2) [OF assms] e assms(1,2) l
    by (auto simp: list_splice_tail_init_def list_head_init_dlist intro!: dlist_head_init_other)
qed

lemma dlist_del_init:
  assumes "dlist s h (xs @ x # ys)" "no_poison h (xs @ x # ys)"
  shows "dlist (list_del_init dbg x s) h (xs @ ys)" and "dlist (list_del_init dbg x s) x []"
  using dlist_del(1) [OF assms, of dbg] dlist_node(3) [OF assms(1)]
  by (auto simp: list_del_init_def list_head_init_dlist intro!: dlist_head_init_other)

lemma dlist_replace_init:
  assumes "dlist s h (xs @ old # ys)" "new \<notin> set (h # xs @ old # ys)"
  shows "dlist (list_replace_init old new s) h (xs @ new # ys)"
    and "dlist (list_replace_init old new s) old []"
  using dlist_replace [OF assms] dlist_node(3) [OF assms(1)] assms(2)
  by (auto simp: list_replace_init_def list_head_init_dlist intro!: dlist_head_init_other)

lemma dlist_move:
  assumes "dlist s h (xs @ x # ys)" "no_poison h (xs @ x # ys)"
  shows "dlist (list_move dbg h x s) h (x # xs @ ys)"
    and "dlist (list_move_prev dbg h x s) h (xs @ ys @ [x])"
  using dlist_list_add [OF dlist_del(1) [OF assms, of dbg], of x dbg]
    dlist_list_add_prev [OF dlist_del(1) [OF assms, of dbg], of x dbg] dlist_node(3) [OF assms(1)]
  by (auto simp: list_move_def list_move_prev_def)

definition exchange :: "nat \<Rightarrow> nat \<Rightarrow> nat \<Rightarrow> nat" where
  "exchange a b x = (if x = a then b else if x = b then a else x)"

lemma map_exchange_other: "a \<notin> set xs \<Longrightarrow> b \<notin> set xs \<Longrightarrow> map (exchange a b) xs = xs"
  by (induction xs) (auto simp: exchange_def)

lemma dlist_swap_forward:
  assumes d: "dlist s h (xs @ a # us @ b # ys)" and np: "no_poison h (xs @ a # us @ b # ys)"
  shows "dlist (list_swap dbg a b s) h (xs @ b # us @ a # ys)"
proof -
  have d0: "dlist s h ((xs @ a # us) @ b # ys)" and np0: "no_poison h ((xs @ a # us) @ b # ys)"
    using d np by simp_all
  have dist: "distinct (h # xs @ a # us @ b # ys)" using d by (simp add: dlist_def)
  have d1: "dlist (list_del dbg b s) h (xs @ a # us @ ys)"
    using dlist_del(1) [OF d0 np0, of dbg] by simp
  have "dlist (list_replace a b (list_del dbg b s)) h (xs @ b # us @ ys)"
    by (rule dlist_replace [OF d1]) (use dist in auto)
  then have d2: "dlist (list_replace a b (list_del dbg b s)) h ((xs @ b # us) @ ys)" by simp
  have "(if prv s b = a then b else prv s b) = node_before h (xs @ b # us)"
    using dlist_node(1) [OF d0] dist by (cases us rule: rev_cases) auto
  then have "list_swap dbg a b s
      = list_add dbg (node_before h (xs @ b # us)) a (list_replace a b (list_del dbg b s))"
    by (simp only: list_swap_def Let_def)
  moreover have "dlist \<dots> h ((xs @ b # us) @ a # ys)"
    by (rule dlist_add_after [OF d2]) (use dist in auto)
  ultimately show ?thesis by simp
qed

lemma dlist_swap_backward:
  assumes d: "dlist s h (xs @ b # us @ a # ys)" and np: "no_poison h (xs @ b # us @ a # ys)"
  shows "dlist (list_swap dbg a b s) h (xs @ a # us @ b # ys)"
proof -
  have dist: "distinct (h # xs @ b # us @ a # ys)" using d by (simp add: dlist_def)
  have "dlist (list_del dbg b s) h (xs @ us @ a # ys)"
    using dlist_del(1) [OF d np, of dbg] .
  then have d1: "dlist (list_del dbg b s) h ((xs @ us) @ a # ys)" by simp
  have "dlist (list_replace a b (list_del dbg b s)) h ((xs @ us) @ b # ys)"
    by (rule dlist_replace [OF d1]) (use dist in auto)
  then have d2: "dlist (list_replace a b (list_del dbg b s)) h (xs @ us @ b # ys)" by simp
  have "(if prv s b = a then b else prv s b) = node_before h xs"
    using dlist_node(1) [OF d] dist node_before_cases [of h xs] by auto
  then have "list_swap dbg a b s
      = list_add dbg (node_before h xs) a (list_replace a b (list_del dbg b s))"
    by (simp only: list_swap_def Let_def)
  moreover have "dlist \<dots> h (xs @ a # us @ b # ys)"
    by (rule dlist_add_after [OF d2]) (use dist in auto)
  ultimately show ?thesis by simp
qed

lemma two_in_list:
  assumes "a \<in> set zs" "b \<in> set zs" "a \<noteq> b"
  obtains xs us ys where "zs = xs @ a # us @ b # ys"
  | xs us ys where "zs = xs @ b # us @ a # ys"
proof -
  from assms(1) obtain ps qs where zs: "zs = ps @ a # qs" by (auto dest: split_list)
  with assms(2,3) have "b \<in> set ps \<or> b \<in> set qs" by auto
  then show thesis
  proof
    assume "b \<in> set ps"
    then obtain xs us where "ps = xs @ b # us" by (auto dest: split_list)
    then show thesis using that(2) zs by simp
  next
    assume "b \<in> set qs"
    then obtain us ys where "qs = us @ b # ys" by (auto dest: split_list)
    then show thesis using that(1) zs by simp
  qed
qed

lemma dlist_swap:
  assumes d: "dlist s h zs" and mem: "a \<in> set zs" "b \<in> set zs" "a \<noteq> b" and np: "no_poison h zs"
  shows "dlist (list_swap dbg a b s) h (map (exchange a b) zs)"
proof -
  have dist: "distinct zs" using d by (simp add: dlist_def)
  from mem show ?thesis
  proof (cases rule: two_in_list)
    case (1 xs us ys)
    then show ?thesis
      using dlist_swap_forward [of s h xs a us b ys dbg] d np dist
      by (simp add: map_exchange_other) (simp add: exchange_def)
  next
    case (2 xs us ys)
    then show ?thesis
      using dlist_swap_backward [of s h xs b us a ys dbg] d np dist
      by (simp add: map_exchange_other) (simp add: exchange_def)
  qed
qed

section \<open>Properties\<close>

definition store0 :: list_store where
  "store0 = \<lparr>nxt = (\<lambda>_. 0), prv = (\<lambda>_. 0)\<rparr>"

definition demo_list :: list_store where
  "demo_list = list_add_prev True 1 4 (list_add_prev True 1 3 (list_add_prev True 1 2 (list_head_init 1 store0)))"

lemma demo_list_dlist: "dlist demo_list 1 [2, 3, 4]"
proof -
  have "dlist (list_head_init 1 store0) 1 []" by (rule list_head_init_dlist)
  from dlist_list_add_prev [OF this, of 2 True]
  have "dlist (list_add_prev True 1 2 (list_head_init 1 store0)) 1 [2]" by simp
  from dlist_list_add_prev [OF this, of 3 True]
  have "dlist (list_add_prev True 1 3 (list_add_prev True 1 2 (list_head_init 1 store0))) 1 [2, 3]" by simp
  from dlist_list_add_prev [OF this, of 4 True] show ?thesis by (simp add: demo_list_def)
qed

text \<open>
  C35: the pointer operations refine the list operations, with or without the debugging checks:
  \<open>list_add\<close> and \<open>list_add_prev\<close> put a new node at the front and at the end, \<open>list_del\<close> removes a
  node wherever it is and poisons it, \<open>list_move\<close> and \<open>list_move_prev\<close> take it to an end, and
  \<open>list_replace\<close> puts a new node in its place.
\<close>

theorem list_edit_refines:
  assumes "dlist s h (xs @ x # ys)" "no_poison h (xs @ x # ys)" "y \<notin> set (h # xs @ x # ys)"
  shows "dlist (list_add dbg h y s) h (y # xs @ x # ys) \<and>
    dlist (list_add_prev dbg h y s) h (xs @ x # ys @ [y]) \<and>
    dlist (list_del dbg x s) h (xs @ ys) \<and> list_check_outsize x (list_del dbg x s) \<and>
    dlist (list_move dbg h x s) h (x # xs @ ys) \<and>
    dlist (list_move_prev dbg h x s) h (xs @ ys @ [x]) \<and>
    dlist (list_replace x y s) h (xs @ y # ys)"
  using dlist_list_add [OF assms(1,3), of dbg] dlist_list_add_prev [OF assms(1,3), of dbg]
    dlist_del [OF assms(1,2), of dbg] dlist_move [OF assms(1,2), of dbg] dlist_replace [OF assms(1,3)]
  by simp

theorem list_edit_refines_witness:
  "dlist (list_del True 3 demo_list) 1 [2, 4] \<and> dlist (list_move True 1 3 demo_list) 1 [3, 2, 4]"
  using list_edit_refines [of demo_list 1 "[2]" 3 "[4]" 5 True] demo_list_dlist
  by (simp add: POISON_LIST1_def POISON_LIST2_def)

text \<open>
  \<open>list_swap\<close> exchanges two nodes of a list, wherever they are and also when they are
  neighbours in either order, and leaves every other node at its place.
\<close>

theorem list_swap_exchanges:
  assumes "dlist s h zs" "a \<in> set zs" "b \<in> set zs" "a \<noteq> b" "no_poison h zs"
  shows "dlist (list_swap dbg a b s) h (map (exchange a b) zs)"
  by (rule dlist_swap [OF assms])

theorem list_swap_exchanges_witness:
  "dlist (list_swap True 2 3 demo_list) 1 [3, 2, 4] \<and> dlist (list_swap True 3 2 demo_list) 1 [3, 2, 4]"
  using list_swap_exchanges [OF demo_list_dlist, of 2 3 True] list_swap_exchanges [OF demo_list_dlist, of 3 2 True]
  by (simp add: POISON_LIST1_def POISON_LIST2_def exchange_def)

text \<open>
  splicing one list into another moves all of its nodes, in order, to the front or the end of
  the other and leaves the emptied list initialised, an empty list included.
\<close>

theorem list_splice_init_refines:
  assumes "dlist s h xs" "dlist s l zs" "set (h # xs) \<inter> set (l # zs) = {}"
  shows "dlist (list_splice_init h l s) h (zs @ xs) \<and> dlist (list_splice_init h l s) l [] \<and>
    dlist (list_splice_tail_init h l s) h (xs @ zs) \<and> dlist (list_splice_tail_init h l s) l []"
  using dlist_splice_init [OF assms] by simp

theorem list_splice_init_refines_witness:
  "dlist (list_splice_init 5 1 (list_head_init 5 demo_list)) 5 [2, 3, 4] \<and>
   dlist (list_splice_init 5 1 (list_head_init 5 demo_list)) 1 []"
proof -
  have "dlist (list_head_init 5 demo_list) 1 [2, 3, 4]"
    by (rule dlist_head_init_other [OF demo_list_dlist]) simp
  from list_splice_init_refines [OF list_head_init_dlist this] show ?thesis by simp
qed

end
