(* ===== verification/Page_Alloc.thy ===== *)
theory Page_Alloc
  imports List_Head
begin

text \<open>
  The physical page allocator: \<^verbatim>\<open>mm/page.c\<close> (buddy system) with the region selection
  of \<^verbatim>\<open>mm/region.c\<close> and the data of \<^verbatim>\<open>include/mm/types.h\<close> and
  \<^verbatim>\<open>include/mm/region.h\<close>.

  A page is its page number (\<open>page_to_nr\<close>), the page map is a function from page numbers
  to \<open>struct page\<close>, and a free list is the list of the page numbers of its block heads, the
  first entry first. The spin locks are not modelled: every operation here is the critical
  section of one lock. The proofs hold for every assignment of pages to regions.
\<close>

section \<open>Data\<close>

datatype page_type = PAGE_UNINIT | PAGE_FREE | PAGE_USED | PAGE_SLOB

record page =
  pg_type :: page_type
  pg_order :: nat

record free_area =
  fl_list :: "nat list"
  free_nr :: nat

datatype region_type = REGION_DMA | REGION_NORMAL | REGION_HIMEM

text \<open>\<open>CONFIG_PAGE_ORDER_MAX\<close> has its Kconfig default; \<open>PAGE_SHIFT\<close> is that of every port.\<close>

definition PAGE_ORDER_MAX :: nat where
  "PAGE_ORDER_MAX = 11"

definition PAGE_SHIFT :: nat where
  "PAGE_SHIFT = 12"

definition PAGE_SIZE :: nat where
  "PAGE_SIZE = 2 ^ PAGE_SHIFT"

lemma PAGE_SIZE_pos [simp]: "0 < PAGE_SIZE"
  by (simp add: PAGE_SIZE_def)

text \<open>
  The \<open>#ifdef\<close>s of the region code, as a record: a region that is not configured is
  \<open>None\<close>. (\<open>CONFIG_REGION_DMA32\<close> is left out: its branch of \<open>pa_to_region\<close> has an
  unbalanced parenthesis and does not compile.) The memory model of
  \<^verbatim>\<open>include/mm/memmodel.h\<close> is one array of descriptors, or sections of \<open>2 ^ shift\<close> pages of
  which some are present.
\<close>

datatype memmodel = Flatmem | Sparcemem nat "nat \<Rightarrow> bool"

record region_config =
  ram_base :: "64 word"
  dma_size :: "64 word option"
  highmem_offset :: "64 word option"
  mem_model :: memmodel

definition pa_to_region :: "region_config \<Rightarrow> 64 word \<Rightarrow> region_type" where
  "pa_to_region c phys =
     (if (case dma_size c of None \<Rightarrow> False | Some n \<Rightarrow> phys - ram_base c < n) then REGION_DMA
      else if (case highmem_offset c of None \<Rightarrow> False | Some n \<Rightarrow> ram_base c + n \<le> phys)
        then REGION_HIMEM
      else REGION_NORMAL)"

definition page_to_pa :: "nat \<Rightarrow> 64 word" where
  "page_to_pa nr = push_bit PAGE_SHIFT (of_nat nr)"

definition page_to_region :: "region_config \<Rightarrow> nat \<Rightarrow> region_type" where
  "page_to_region c nr = pa_to_region c (page_to_pa nr)"

text \<open>
  The descriptor of a page, or \<open>NULL\<close>: the macro of the sparse model keeps the page number in an
  \<open>unsigned int\<close>.
\<close>

definition nr_to_page :: "region_config \<Rightarrow> nat \<Rightarrow> nat option" where
  "nr_to_page c pnr =
     (case mem_model c of
        Flatmem \<Rightarrow> Some pnr
      | Sparcemem shift present \<Rightarrow>
          let page_nr = pnr mod 2 ^ 32
          in if present (page_nr div 2 ^ shift) then Some page_nr else None)"

type_synonym gfp = "32 word"

definition GFP_DMA :: gfp where "GFP_DMA = 0x1"
definition GFP_HIGHMEM :: gfp where "GFP_HIGHMEM = 0x4"
definition GFP_REGION_MASK :: gfp where "GFP_REGION_MASK = 0xf"
definition GFP_ZERO :: gfp where "GFP_ZERO = 0x40"

definition gfp_to_region :: "region_config \<Rightarrow> gfp \<Rightarrow> region_type" where
  "gfp_to_region c g =
     (let m = g AND GFP_REGION_MASK
      in if dma_size c \<noteq> None \<and> m = GFP_DMA then REGION_DMA
         else if highmem_offset c \<noteq> None \<and> m = GFP_HIGHMEM then REGION_HIMEM
         else REGION_NORMAL)"

text \<open>The allocator's state; \<open>bytes\<close> is the physical memory that \<open>GFP_ZERO\<close> clears.\<close>

record mm_state =
  page_map :: "nat \<Rightarrow> page"
  region_map :: "region_type \<Rightarrow> nat \<Rightarrow> free_area"
  bytes :: "nat \<Rightarrow> 8 word"

definition set_order :: "nat \<Rightarrow> nat \<Rightarrow> mm_state \<Rightarrow> mm_state" where
  "set_order p k s = s\<lparr>page_map := (page_map s)(p := (page_map s p)\<lparr>pg_order := k\<rparr>)\<rparr>"

definition set_type :: "nat \<Rightarrow> page_type \<Rightarrow> mm_state \<Rightarrow> mm_state" where
  "set_type p t s = s\<lparr>page_map := (page_map s)(p := (page_map s p)\<lparr>pg_type := t\<rparr>)\<rparr>"

definition set_free :: "region_type \<Rightarrow> nat \<Rightarrow> free_area \<Rightarrow> mm_state \<Rightarrow> mm_state" where
  "set_free r k f s = s\<lparr>region_map := (region_map s)(r := (region_map s r)(k := f))\<rparr>"

section \<open>Operations\<close>

definition free_list_add :: "region_type \<Rightarrow> nat \<Rightarrow> nat \<Rightarrow> mm_state \<Rightarrow> mm_state" where
  "free_list_add r k p s =
     (let f = region_map s r k
      in set_free r k (f\<lparr>fl_list := fl_list f @ [p], free_nr := free_nr f + 1\<rparr>) s)"

definition free_list_del :: "region_type \<Rightarrow> nat \<Rightarrow> nat \<Rightarrow> mm_state \<Rightarrow> mm_state" where
  "free_list_del r k p s =
     (let f = region_map s r k
      in set_free r k (f\<lparr>fl_list := remove1 p (fl_list f), free_nr := free_nr f - 1\<rparr>) s)"

definition free_list_get_page :: "region_type \<Rightarrow> nat \<Rightarrow> mm_state \<Rightarrow> nat option" where
  "free_list_get_page r k s =
     (case fl_list (region_map s r k) of [] \<Rightarrow> None | p # _ \<Rightarrow> Some p)"

definition find_buddy :: "nat \<Rightarrow> nat \<Rightarrow> nat" where
  "find_buddy pnr k = pnr XOR 2 ^ k"

fun buddy_division_loop ::
  "region_type \<Rightarrow> nat \<Rightarrow> nat \<Rightarrow> nat \<Rightarrow> nat \<Rightarrow> mm_state \<Rightarrow> mm_state" where
  "buddy_division_loop r p need alloc sz s =
     (if need < alloc then
        let alloc' = alloc - 1;
            sz' = sz div 2;
            s1 = free_list_add r alloc' (p + sz') s;
            s2 = set_order (p + sz') alloc' s1
        in buddy_division_loop r p need alloc' sz' s2
      else s)"

declare buddy_division_loop.simps [simp del]

definition buddy_division :: "region_type \<Rightarrow> nat \<Rightarrow> nat \<Rightarrow> nat \<Rightarrow> mm_state \<Rightarrow> mm_state" where
  "buddy_division r p need alloc s = buddy_division_loop r p need alloc (2 ^ alloc) s"

function buddy_smallest_loop ::
  "region_type \<Rightarrow> nat \<Rightarrow> nat \<Rightarrow> mm_state \<Rightarrow> nat option \<times> mm_state" where
  "buddy_smallest_loop r k nd s =
     (if nd \<le> PAGE_ORDER_MAX then
        case free_list_get_page r nd s of
          None \<Rightarrow> buddy_smallest_loop r k (Suc nd) s
        | Some p \<Rightarrow>
            let s1 = free_list_del r nd p s;
                s2 = buddy_division r p k nd s1
            in (Some p, set_order p k s2)
      else (None, s))"
  by pat_completeness auto
termination
  by (relation "measure (\<lambda>(r, k, nd, s). Suc PAGE_ORDER_MAX - nd)") auto

declare buddy_smallest_loop.simps [simp del]

definition buddy_smallest :: "region_type \<Rightarrow> nat \<Rightarrow> mm_state \<Rightarrow> nat option \<times> mm_state" where
  "buddy_smallest r k s = buddy_smallest_loop r k k s"

definition buddy_alloc :: "region_type \<Rightarrow> nat \<Rightarrow> mm_state \<Rightarrow> nat option \<times> mm_state" where
  "buddy_alloc r k s = buddy_smallest r k s"

definition check_buddy :: "region_config \<Rightarrow> mm_state \<Rightarrow> nat \<Rightarrow> nat \<Rightarrow> nat \<Rightarrow> bool" where
  "check_buddy c s p b k =
     (if pg_type (page_map s b) \<noteq> PAGE_FREE then False
      else if k \<noteq> pg_order (page_map s b) then False
      else if page_to_region c p \<noteq> page_to_region c b then False
      else True)"

definition buddy_finish :: "region_type \<Rightarrow> nat \<Rightarrow> nat \<Rightarrow> mm_state \<Rightarrow> mm_state" where
  "buddy_finish r p k s = free_list_add r k p (set_order p k (set_type p PAGE_FREE s))"

function buddy_merge ::
  "region_config \<Rightarrow> region_type \<Rightarrow> nat \<Rightarrow> nat \<Rightarrow> mm_state \<Rightarrow> mm_state" where
  "buddy_merge c r p k s =
     (if k < PAGE_ORDER_MAX then
        let b = find_buddy p k
        in if \<not> check_buddy c s p b k then buddy_finish r p k s
           else buddy_merge c r (b AND p) (Suc k) (free_list_del r k b s)
      else buddy_finish r p k s)"
  by pat_completeness auto
termination
  by (relation "measure (\<lambda>(c, r, p, k, s). PAGE_ORDER_MAX - k)") auto

declare buddy_merge.simps [simp del]

definition buddy_free :: "region_config \<Rightarrow> region_type \<Rightarrow> nat \<Rightarrow> nat \<Rightarrow> mm_state \<Rightarrow> mm_state" where
  "buddy_free c r p k s = buddy_merge c r p k s"

definition page_alloc :: "region_config \<Rightarrow> nat \<Rightarrow> gfp \<Rightarrow> mm_state \<Rightarrow> nat option \<times> mm_state" where
  "page_alloc c k g s =
     (if k > PAGE_ORDER_MAX then (None, s)
      else case buddy_alloc (gfp_to_region c g) k s of
        (None, s1) \<Rightarrow> (None, s1)
      | (Some p, s1) \<Rightarrow>
          let s2 = (if g AND GFP_ZERO \<noteq> 0
                    then s1\<lparr>bytes := (\<lambda>a. if p * PAGE_SIZE \<le> a
                                          \<and> a < p * PAGE_SIZE + PAGE_SIZE * 2 ^ k
                                        then 0 else bytes s1 a)\<rparr>
                    else s1)
          in (Some p, set_type p PAGE_USED s2))"

definition page_free :: "region_config \<Rightarrow> nat \<Rightarrow> mm_state \<Rightarrow> mm_state" where
  "page_free c p s = buddy_free c (page_to_region c p) p (pg_order (page_map s p)) s"

text \<open>The page allocator's part of \<open>region_init\<close>.\<close>

fun page_add :: "region_config \<Rightarrow> region_type \<Rightarrow> nat option \<Rightarrow> nat \<Rightarrow> nat \<Rightarrow> mm_state \<Rightarrow> mm_state" where
  "page_add c r None k nr s = s"
| "page_add c r (Some p) k 0 s = s"
| "page_add c r (Some p) k (Suc nr) s = page_add c r (Some (p + 2 ^ k)) k nr (buddy_free c r p k s)"

function region_add_loop :: "region_config \<Rightarrow> nat \<Rightarrow> nat \<Rightarrow> mm_state \<Rightarrow> mm_state" where
  "region_add_loop c addr end_addr s =
     (if addr < end_addr then
        region_add_loop c (addr + PAGE_SIZE) end_addr
          (page_add c (pa_to_region c (of_nat addr)) (nr_to_page c (addr div PAGE_SIZE)) 0 1 s)
      else s)"
  by pat_completeness auto
termination
  by (relation "measure (\<lambda>(c, addr, end_addr, s). end_addr - addr)")
     (auto intro: diff_less_mono2)

declare region_add_loop.simps [simp del]

text \<open>\<open>end - addr\<close> is an unsigned subtraction: it wraps when the block holds no page.\<close>

definition region_block_add :: "region_config \<Rightarrow> nat \<Rightarrow> nat \<Rightarrow> mm_state \<Rightarrow> bool \<times> mm_state" where
  "region_block_add c start len s =
     (let addr = align_high start PAGE_SIZE;
          end_addr = align_low (start + len) PAGE_SIZE
      in if (end_addr + 2 ^ 64 - addr) mod 2 ^ 64 < PAGE_SIZE then (False, s)
         else (True, region_add_loop c addr end_addr s))"

definition region_free_list_init :: "mm_state \<Rightarrow> mm_state" where
  "region_free_list_init s =
     s\<lparr>region_map := (\<lambda>r k. if k \<le> PAGE_ORDER_MAX then (region_map s r k)\<lparr>fl_list := []\<rparr>
                             else region_map s r k)\<rparr>"

section \<open>The allocator invariant\<close>

text \<open>
  \<open>A\<close> is the set of heads of the blocks handed out, \<open>X\<close> the pages of a block that an
  operation holds and that is in no list (empty between operations). Free blocks are aligned,
  lie in one region, and their head records their order; allocated heads are not marked
  \<open>PAGE_FREE\<close>; blocks are disjoint; and a page is marked \<open>PAGE_FREE\<close> only inside a block
  (an interior page may keep a stale mark).
\<close>

definition free_heads :: "mm_state \<Rightarrow> nat set" where
  "free_heads s = {p. \<exists>r k. p \<in> set (fl_list (region_map s r k))}"

definition blk :: "mm_state \<Rightarrow> nat \<Rightarrow> nat set" where
  "blk s p = block p (pg_order (page_map s p))"

definition uniform :: "region_config \<Rightarrow> nat set \<Rightarrow> region_type \<Rightarrow> bool" where
  "uniform c B r \<longleftrightarrow> (\<forall>q \<in> B. page_to_region c q = r)"

definition free_list_ok :: "region_config \<Rightarrow> mm_state \<Rightarrow> region_type \<Rightarrow> nat \<Rightarrow> bool" where
  "free_list_ok c s r k \<longleftrightarrow>
     distinct (fl_list (region_map s r k)) \<and>
     free_nr (region_map s r k) = length (fl_list (region_map s r k)) \<and>
     (\<forall>p \<in> set (fl_list (region_map s r k)).
        k \<le> PAGE_ORDER_MAX \<and> 2 ^ k dvd p \<and> pg_order (page_map s p) = k \<and>
        uniform c (block p k) r)"

definition alloc_ok :: "region_config \<Rightarrow> mm_state \<Rightarrow> nat \<Rightarrow> bool" where
  "alloc_ok c s p \<longleftrightarrow>
     pg_order (page_map s p) \<le> PAGE_ORDER_MAX \<and> 2 ^ pg_order (page_map s p) dvd p \<and>
     pg_type (page_map s p) \<noteq> PAGE_FREE \<and> uniform c (blk s p) (page_to_region c p)"

definition buddy_inv :: "region_config \<Rightarrow> mm_state \<Rightarrow> nat set \<Rightarrow> nat set \<Rightarrow> bool" where
  "buddy_inv c s A X \<longleftrightarrow>
     (\<forall>r k. free_list_ok c s r k) \<and> (\<forall>p \<in> A. alloc_ok c s p) \<and>
     A \<inter> free_heads s = {} \<and>
     (\<forall>p \<in> A \<union> free_heads s. \<forall>q \<in> A \<union> free_heads s. p \<noteq> q \<longrightarrow> blk s p \<inter> blk s q = {}) \<and>
     (\<forall>p \<in> A \<union> free_heads s. blk s p \<inter> X = {}) \<and>
     (\<forall>q. pg_type (page_map s q) = PAGE_FREE \<longrightarrow> q \<in> X \<union> (\<Union>p \<in> A \<union> free_heads s. blk s p))"

text \<open>The pages an allocation can be served from, per region.\<close>

definition free_pages :: "mm_state \<Rightarrow> region_type \<Rightarrow> nat set" where
  "free_pages s r = (\<Union>k. \<Union>p \<in> set (fl_list (region_map s r k)). block p k)"

lemma buddy_invD:
  assumes "buddy_inv c s A X"
  shows "free_list_ok c s r k" and "p \<in> A \<Longrightarrow> alloc_ok c s p" and "A \<inter> free_heads s = {}"
    and "p \<in> A \<union> free_heads s \<Longrightarrow> q \<in> A \<union> free_heads s \<Longrightarrow> p \<noteq> q \<Longrightarrow> blk s p \<inter> blk s q = {}"
    and "p \<in> A \<union> free_heads s \<Longrightarrow> blk s p \<inter> X = {}"
    and "pg_type (page_map s q) = PAGE_FREE \<Longrightarrow> q \<in> X \<union> (\<Union>p \<in> A \<union> free_heads s. blk s p)"
  using assms unfolding buddy_inv_def by blast+

lemma buddy_invI:
  assumes "\<And>r k. free_list_ok c s r k" "\<And>p. p \<in> A \<Longrightarrow> alloc_ok c s p" "A \<inter> free_heads s = {}"
    "\<And>p q. p \<in> A \<union> free_heads s \<Longrightarrow> q \<in> A \<union> free_heads s \<Longrightarrow> p \<noteq> q \<Longrightarrow> blk s p \<inter> blk s q = {}"
    "\<And>p. p \<in> A \<union> free_heads s \<Longrightarrow> blk s p \<inter> X = {}"
    "\<And>q. pg_type (page_map s q) = PAGE_FREE \<Longrightarrow> q \<in> X \<union> (\<Union>p \<in> A \<union> free_heads s. blk s p)"
  shows "buddy_inv c s A X"
  using assms unfolding buddy_inv_def by blast

lemma page_fields [simp]:
  "page_map (set_free r k f s) = page_map s"
  "region_map (set_order p j s) = region_map s" "region_map (set_type p t s) = region_map s"
  "page_map (set_order p j s) q = (if q = p then (page_map s p)\<lparr>pg_order := j\<rparr> else page_map s q)"
  "page_map (set_type p t s) q = (if q = p then (page_map s p)\<lparr>pg_type := t\<rparr> else page_map s q)"
  "region_map (set_free r k f s) r' k' = (if r' = r \<and> k' = k then f else region_map s r' k')"
  by (simp_all add: set_free_def set_order_def set_type_def)

lemma free_list_page_map [simp]:
  "page_map (free_list_add r k p s) = page_map s" "page_map (free_list_del r k p s) = page_map s"
  by (simp_all add: free_list_add_def free_list_del_def Let_def)

lemma free_list_region_map:
  "region_map (free_list_add r k p s) r' k' =
     (if r' = r \<and> k' = k
      then (region_map s r k)\<lparr>fl_list := fl_list (region_map s r k) @ [p],
                              free_nr := free_nr (region_map s r k) + 1\<rparr>
      else region_map s r' k')"
  "region_map (free_list_del r k p s) r' k' =
     (if r' = r \<and> k' = k
      then (region_map s r k)\<lparr>fl_list := remove1 p (fl_list (region_map s r k)),
                              free_nr := free_nr (region_map s r k) - 1\<rparr>
      else region_map s r' k')"
  by (simp_all add: free_list_add_def free_list_del_def Let_def)

lemma buddy_inv_head:
  assumes "buddy_inv c s A X" "p \<in> set (fl_list (region_map s r k))"
  shows "k \<le> PAGE_ORDER_MAX" "2 ^ k dvd p" "pg_order (page_map s p) = k"
    "uniform c (block p k) r" "page_to_region c p = r" "blk s p = block p k" "p \<in> free_heads s"
    "p \<notin> A"
proof -
  have "free_list_ok c s r k" using assms(1) by (simp add: buddy_inv_def)
  then show *: "k \<le> PAGE_ORDER_MAX" "2 ^ k dvd p" "pg_order (page_map s p) = k"
    "uniform c (block p k) r"
    using assms(2) by (auto simp: free_list_ok_def)
  then show "page_to_region c p = r" "blk s p = block p k"
    by (auto simp: uniform_def blk_def)
  show "p \<in> free_heads s" using assms(2) by (auto simp: free_heads_def)
  then show "p \<notin> A" using assms(1) by (auto simp: buddy_inv_def)
qed

lemma free_heads_del:
  assumes "buddy_inv c s A X" "p \<in> set (fl_list (region_map s r k))"
  shows "free_heads (free_list_del r k p s) = free_heads s - {p}"
proof -
  have d: "distinct (fl_list (region_map s r k))"
    using assms(1) by (simp add: buddy_inv_def free_list_ok_def)
  have u: "r' = r \<and> k' = k" if "p \<in> set (fl_list (region_map s r' k'))" for r' k'
    using buddy_inv_head [OF assms(1) that] buddy_inv_head [OF assms] by simp
  show ?thesis
    unfolding free_heads_def free_list_region_map
    using d u by (auto split: if_splits) (metis set_remove1_eq Diff_iff singletonD)+
qed

lemma free_heads_add:
  "free_heads (free_list_add r k p s) = insert p (free_heads s)"
  unfolding free_heads_def free_list_region_map by (auto split: if_splits)

text \<open>Taking a block out of its list: its pages are held.\<close>

lemma buddy_inv_take:
  assumes inv: "buddy_inv c s A X" and p: "p \<in> set (fl_list (region_map s r k))"
  shows "buddy_inv c (free_list_del r k p s) A (X \<union> block p k)"
    and "free_pages (free_list_del r k p s) r = free_pages s r - block p k"
    and "r' \<noteq> r \<Longrightarrow> free_pages (free_list_del r k p s) r' = free_pages s r'"
    and "block p k \<subseteq> free_pages s r"
    and "block p k \<inter> X = {}"
proof -
  let ?t = "free_list_del r k p s"
  note h = buddy_inv_head [OF inv p]
  have fh: "free_heads ?t = free_heads s - {p}" by (rule free_heads_del [OF inv p])
  have blk: "blk ?t q = blk s q" for q by (simp add: blk_def)
  have ok: "free_list_ok c ?t r' k'" for r' k'
  proof -
    have "free_list_ok c s r' k'" using inv by (simp add: buddy_inv_def)
    moreover have "length (remove1 p (fl_list (region_map s r k)))
        = length (fl_list (region_map s r k)) - 1"
      using p by (simp add: length_remove1)
    ultimately show ?thesis
      using notin_set_remove1 [of _ "fl_list (region_map s r k)" p]
      by (auto simp: free_list_ok_def free_list_region_map)
  qed
  have disj: "blk s q \<inter> block p k = {}" if "q \<in> A \<union> (free_heads s - {p})" for q
    using inv that h(6,7,8) unfolding buddy_inv_def by (metis DiffE Un_iff singleton_iff)
  have cover: "q \<in> X \<union> block p k \<union> (\<Union>p' \<in> A \<union> (free_heads s - {p}). blk s p')"
    if "pg_type (page_map s q) = PAGE_FREE" for q
  proof -
    have "q \<in> X \<union> (\<Union>p' \<in> A \<union> free_heads s. blk s p')"
      using inv that by (simp add: buddy_inv_def)
    then show ?thesis using h(6) by auto
  qed
  show "buddy_inv c ?t A (X \<union> block p k)"
  proof (rule buddy_invI)
    show "alloc_ok c ?t q" if "q \<in> A" for q
      using buddy_invD(2) [OF inv that] by (simp add: alloc_ok_def blk)
    show "A \<inter> free_heads ?t = {}" using buddy_invD(3) [OF inv] by (auto simp: fh)
    show "blk ?t q \<inter> blk ?t q' = {}"
      if "q \<in> A \<union> free_heads ?t" "q' \<in> A \<union> free_heads ?t" "q \<noteq> q'" for q q'
      using buddy_invD(4) [OF inv, of q q'] that unfolding blk fh by blast
    show "blk ?t q \<inter> (X \<union> block p k) = {}" if "q \<in> A \<union> free_heads ?t" for q
      using buddy_invD(5) [OF inv, of q] disj [of q] that unfolding blk fh by blast
  qed (use ok cover in \<open>simp_all only: fh blk free_list_page_map\<close>)
  have other: "block q j \<inter> block p k = {}"
    if "q \<in> set (fl_list (region_map s r j))" "q \<noteq> p" for q j
    using disj [of q] buddy_inv_head [OF inv that(1)] that(2) by auto
  have d: "distinct (fl_list (region_map s r k))"
    using inv by (simp add: buddy_inv_def free_list_ok_def)
  have same: "j = k" if "p \<in> set (fl_list (region_map s r j))" for j
    using buddy_inv_head(3) [OF inv that] h(3) by simp
  show "free_pages ?t r = free_pages s r - block p k"
  proof (intro subset_antisym subsetI)
    fix x assume "x \<in> free_pages ?t r"
    then obtain j q where q: "q \<in> set (fl_list (region_map ?t r j))" "x \<in> block q j"
      by (auto simp: free_pages_def)
    then have "q \<in> set (fl_list (region_map s r j))" "q \<noteq> p"
      using d same by (auto simp: free_list_region_map split: if_splits)
    then show "x \<in> free_pages s r - block p k"
      using other q(2) by (auto simp: free_pages_def)
  next
    fix x assume x: "x \<in> free_pages s r - block p k"
    then obtain j q where q: "q \<in> set (fl_list (region_map s r j))" "x \<in> block q j"
      by (auto simp: free_pages_def)
    then have "q \<noteq> p \<or> j \<noteq> k" using x by auto
    then have "q \<noteq> p" using same q(1) by auto
    then have "q \<in> set (fl_list (region_map ?t r j))"
      using q(1) by (auto simp: free_list_region_map)
    then show "x \<in> free_pages ?t r" using q(2) by (auto simp: free_pages_def)
  qed
  show "r' \<noteq> r \<Longrightarrow> free_pages ?t r' = free_pages s r'"
    by (simp add: free_pages_def free_list_region_map)
  show "block p k \<subseteq> free_pages s r" using p by (auto simp: free_pages_def)
  have "p \<in> A \<union> free_heads s" using h(7) by simp
  then have "blk s p \<inter> X = {}" using inv unfolding buddy_inv_def by blast
  then show "block p k \<inter> X = {}" using h(6) by simp
qed

text \<open>Giving a held block to a list.\<close>

lemma buddy_inv_put:
  assumes inv: "buddy_inv c s A X" and sub: "block p j \<subseteq> X"
    and j: "j \<le> PAGE_ORDER_MAX" "2 ^ j dvd p" "uniform c (block p j) r"
    and pm: "\<And>q. q \<noteq> p \<Longrightarrow> page_map t q = page_map s q" "pg_order (page_map t p) = j"
    and rm: "region_map t = region_map (free_list_add r j p s)"
  shows "buddy_inv c t A (X - block p j)"
    and "free_pages t r = free_pages s r \<union> block p j"
    and "r' \<noteq> r \<Longrightarrow> free_pages t r' = free_pages s r'"
proof -
  have nh: "p \<notin> A \<union> free_heads s"
    using buddy_invD(5) [OF inv, of p] sub by (auto simp: blk_def)
  have fh: "free_heads t = insert p (free_heads s)"
    using free_heads_add [of r j p s] by (simp add: free_heads_def rm)
  have bp: "blk t p = block p j" by (simp add: blk_def pm(2))
  have bq: "blk t q = blk s q" if "q \<noteq> p" for q using that by (simp add: blk_def pm(1))
  have bH: "blk t q = blk s q" if "q \<in> A \<union> free_heads s" for q using that nh bq by metis
  have ok: "free_list_ok c t r' k'" for r' k'
  proof -
    have old: "free_list_ok c s r' k'" by (rule buddy_invD(1) [OF inv])
    have "pg_order (page_map t q) = pg_order (page_map s q)"
      if "q \<in> set (fl_list (region_map s r' k'))" for q
    proof -
      have "q \<noteq> p" using that nh by (auto simp: free_heads_def)
      then show ?thesis by (simp add: pm(1))
    qed
    moreover have "p \<notin> set (fl_list (region_map s r' k'))" using nh by (auto simp: free_heads_def)
    ultimately show ?thesis
      using old j pm(2) by (auto simp: free_list_ok_def rm free_list_region_map)
  qed
  show "buddy_inv c t A (X - block p j)"
  proof (rule buddy_invI)
    show "alloc_ok c t q" if "q \<in> A" for q
    proof -
      have "q \<noteq> p" using that nh by auto
      then show ?thesis using buddy_invD(2) [OF inv that] by (simp add: alloc_ok_def bq pm(1))
    qed
    show "A \<inter> free_heads t = {}" using buddy_invD(3) [OF inv] nh by (auto simp: fh)
    show "blk t q \<inter> blk t q' = {}"
      if "q \<in> A \<union> free_heads t" "q' \<in> A \<union> free_heads t" "q \<noteq> q'" for q q'
    proof -
      have X: "blk t h \<inter> block p j = {}" if "h \<in> A \<union> free_heads s" for h
        using buddy_invD(5) [OF inv that] bH [OF that] sub by blast
      consider "q = p" "q' \<in> A \<union> free_heads s" | "q' = p" "q \<in> A \<union> free_heads s"
        | "q \<in> A \<union> free_heads s" "q' \<in> A \<union> free_heads s"
        using \<open>q \<in> A \<union> free_heads t\<close> \<open>q' \<in> A \<union> free_heads t\<close> \<open>q \<noteq> q'\<close> unfolding fh by blast
      then show ?thesis
      proof cases
        case 1
        then show ?thesis using X [of q'] bp by auto
      next
        case 2
        then show ?thesis using X [of q] bp by auto
      next
        case 3
        then show ?thesis using buddy_invD(4) [OF inv 3 \<open>q \<noteq> q'\<close>] bH by simp
      qed
    qed
    show "blk t q \<inter> (X - block p j) = {}" if "q \<in> A \<union> free_heads t" for q
      using buddy_invD(5) [OF inv, of q] bH [of q] bp that unfolding fh by blast
    show "q \<in> X - block p j \<union> (\<Union>h \<in> A \<union> free_heads t. blk t h)"
      if "pg_type (page_map t q) = PAGE_FREE" for q
    proof (cases "q \<in> block p j")
      case True
      then show ?thesis using bp by (auto simp: fh)
    next
      case False
      then have "q \<noteq> p" by auto
      then have "q \<in> X \<union> (\<Union>h \<in> A \<union> free_heads s. blk s h)"
        using that buddy_invD(6) [OF inv, of q] pm(1) by simp
      then show ?thesis using False bH unfolding fh by blast
    qed
  qed (rule ok)
  have "set (fl_list (region_map t r k)) = set (fl_list (region_map s r k)) \<union> (if k = j then {p} else {})" for k
    by (simp add: rm free_list_region_map)
  then show "free_pages t r = free_pages s r \<union> block p j"
    unfolding free_pages_def by (auto split: if_splits)
  show "r' \<noteq> r \<Longrightarrow> free_pages t r' = free_pages s r'"
    by (simp add: free_pages_def rm free_list_region_map)
qed

lemma uniform_subset: "uniform c B r \<Longrightarrow> B' \<subseteq> B \<Longrightarrow> uniform c B' r"
  by (auto simp: uniform_def)

lemma block_mono: "j \<le> k \<Longrightarrow> block p j \<subseteq> block p k"
proof
  fix q assume "j \<le> k" "q \<in> block p j"
  moreover from \<open>j \<le> k\<close> have "(2::nat) ^ j \<le> 2 ^ k" by (rule power_increasing) simp
  ultimately show "q \<in> block p k" unfolding mem_block by linarith
qed

text \<open>
  \<open>buddy_division\<close> gives the upper halves back and keeps the block of the order asked for.
\<close>

lemma buddy_division_loop_inv:
  assumes "buddy_inv c s A (block p a)" "need \<le> a" "a \<le> PAGE_ORDER_MAX" "2 ^ a dvd p"
    "uniform c (block p a) r"
  defines "t \<equiv> buddy_division_loop r p need a (2 ^ a) s"
  shows "buddy_inv c t A (block p need)
    \<and> free_pages t r = free_pages s r \<union> (block p a - block p need)
    \<and> (\<forall>r'. r' \<noteq> r \<longrightarrow> free_pages t r' = free_pages s r')
    \<and> (\<forall>q. q \<notin> block p a - {p} \<longrightarrow> page_map t q = page_map s q) \<and> bytes t = bytes s"
  using assms(1-5) unfolding t_def
proof (induction a arbitrary: s)
  case 0
  then show ?case by (simp add: buddy_division_loop.simps)
next
  case (Suc a)
  show ?case
  proof (cases "need < Suc a")
    case False
    then have "need = Suc a" using Suc.prems(2) by simp
    then show ?thesis using Suc.prems(1) by (simp add: buddy_division_loop.simps)
  next
    case True
    let ?q = "p + 2 ^ a"
    let ?s = "set_order ?q a (free_list_add r a ?q s)"
    have al: "2 ^ a dvd p" using Suc.prems(4) by (meson dvd_trans le_imp_power_dvd le_SucI order_refl)
    then have alq: "2 ^ a dvd ?q" by simp
    have sub: "block ?q a \<subseteq> block p (Suc a)" "block p a \<subseteq> block p (Suc a)"
      using block_split [of p a] by auto
    have rest: "block p (Suc a) - block ?q a = block p a"
      using block_split [of p a] block_split_disjoint [of p a] by auto
    note put = buddy_inv_put [OF Suc.prems(1) sub(1) _ alq uniform_subset [OF Suc.prems(5) sub(1)],
        of ?s, unfolded rest]
    have inv: "buddy_inv c ?s A (block p a)"
      and fp: "free_pages ?s r = free_pages s r \<union> block ?q a"
      and fo: "\<And>r'. r' \<noteq> r \<Longrightarrow> free_pages ?s r' = free_pages s r'"
      by (rule put(1) put(2) put(3); use Suc.prems(3) in simp)+
    have loop: "buddy_division_loop r p need (Suc a) (2 ^ Suc a) s
        = buddy_division_loop r p need a (2 ^ a) ?s"
      using True by (subst buddy_division_loop.simps) (simp add: Let_def)
    have IH: "buddy_inv c (buddy_division_loop r p need a (2 ^ a) ?s) A (block p need)
      \<and> free_pages (buddy_division_loop r p need a (2 ^ a) ?s) r
          = free_pages ?s r \<union> (block p a - block p need)
      \<and> (\<forall>r'. r' \<noteq> r \<longrightarrow>
            free_pages (buddy_division_loop r p need a (2 ^ a) ?s) r' = free_pages ?s r')
      \<and> (\<forall>q. q \<notin> block p a - {p} \<longrightarrow>
            page_map (buddy_division_loop r p need a (2 ^ a) ?s) q = page_map ?s q)
      \<and> bytes (buddy_division_loop r p need a (2 ^ a) ?s) = bytes ?s"
      by (rule Suc.IH [OF inv _ _ al uniform_subset [OF Suc.prems(5) sub(2)]])
        (use True Suc.prems(3) in simp_all)
    have "block p need \<subseteq> block p a" using True by (simp add: block_mono)
    then have "block ?q a \<union> (block p a - block p need) = block p (Suc a) - block p need"
      using block_split [of p a] block_split_disjoint [of p a] by blast
    then have F: "free_pages (buddy_division_loop r p need a (2 ^ a) ?s) r
        = free_pages s r \<union> (block p (Suc a) - block p need)"
      using IH fp by (simp add: Un_assoc)
    have P: "page_map (buddy_division_loop r p need a (2 ^ a) ?s) q = page_map s q"
      if "q \<notin> block p (Suc a) - {p}" for q
    proof -
      have "q \<noteq> ?q" using that head_in_block [of ?q a] sub(1) by auto
      moreover have "q \<notin> block p a - {p}" using that sub(2) by auto
      ultimately show ?thesis using IH by simp
    qed
    have B: "bytes ?s = bytes s"
      by (simp add: set_order_def free_list_add_def set_free_def Let_def)
    show ?thesis unfolding loop using IH F P fo B by simp
  qed
qed

section \<open>Allocation\<close>

lemma buddy_inv_set_order_held:
  assumes inv: "buddy_inv c s A X" and p: "p \<in> X"
  shows "buddy_inv c (set_order p k s) A X" "free_pages (set_order p k s) r = free_pages s r"
proof -
  have nh: "p \<notin> A \<union> free_heads s"
    using buddy_invD(5) [OF inv, of p] p by (auto simp: blk_def)
  let ?t = "set_order p k s"
  have fh: "free_heads ?t = free_heads s" by (simp add: free_heads_def)
  have b: "blk ?t q = blk s q" if "q \<in> A \<union> free_heads s" for q
    using that nh by (auto simp: blk_def)
  show "buddy_inv c ?t A X"
  proof (rule buddy_invI)
    show "free_list_ok c ?t r' k'" for r' k'
      using buddy_invD(1) [OF inv, of r' k'] nh by (auto simp: free_list_ok_def free_heads_def)
    show "alloc_ok c ?t q" if "q \<in> A" for q
      using buddy_invD(2) [OF inv that] that nh by (auto simp: alloc_ok_def blk_def)
    show "A \<inter> free_heads ?t = {}" using buddy_invD(3) [OF inv] by (simp add: fh)
    show "blk ?t q \<inter> blk ?t q' = {}"
      if "q \<in> A \<union> free_heads ?t" "q' \<in> A \<union> free_heads ?t" "q \<noteq> q'" for q q'
      using buddy_invD(4) [OF inv, of q q'] that b by (simp add: fh)
    show "blk ?t q \<inter> X = {}" if "q \<in> A \<union> free_heads ?t" for q
      using buddy_invD(5) [OF inv, of q] that b by (simp add: fh)
    show "q \<in> X \<union> (\<Union>h \<in> A \<union> free_heads ?t. blk ?t h)"
      if "pg_type (page_map ?t q) = PAGE_FREE" for q
      using buddy_invD(6) [OF inv, of q] that b p by (auto simp: fh split: if_splits)
  qed
  show "free_pages ?t r = free_pages s r" by (simp add: free_pages_def)
qed

text \<open>Marking the head of a held block as used makes it an allocated block.\<close>

lemma buddy_inv_hand_out:
  assumes inv: "buddy_inv c s A (block p k)" and k: "pg_order (page_map s p) = k"
    "k \<le> PAGE_ORDER_MAX" "2 ^ k dvd p" "uniform c (block p k) (page_to_region c p)"
    and ty: "ty \<noteq> PAGE_FREE"
  shows "buddy_inv c (set_type p ty s) (insert p A) {}"
    and "free_pages (set_type p ty s) r = free_pages s r"
proof -
  have nh: "p \<notin> A \<union> free_heads s"
    using buddy_invD(5) [OF inv, of p] by (auto simp: blk_def)
  let ?t = "set_type p ty s"
  have fh: "free_heads ?t = free_heads s" by (simp add: free_heads_def)
  have b: "blk ?t q = blk s q" for q by (simp add: blk_def)
  have bp: "blk s p = block p k" using k by (simp add: blk_def)
  show "buddy_inv c ?t (insert p A) {}"
  proof (rule buddy_invI)
    show "free_list_ok c ?t r' k'" for r' k'
      using buddy_invD(1) [OF inv, of r' k'] nh by (auto simp: free_list_ok_def free_heads_def)
    show "alloc_ok c ?t q" if "q \<in> insert p A" for q
    proof (cases "q = p")
      case True
      then show ?thesis using k ty by (simp add: alloc_ok_def b bp)
    next
      case False
      then show ?thesis using buddy_invD(2) [OF inv, of q] that by (simp add: alloc_ok_def b)
    qed
    show "insert p A \<inter> free_heads ?t = {}" using buddy_invD(3) [OF inv] nh by (simp add: fh)
    show "blk ?t q \<inter> blk ?t q' = {}"
      if "q \<in> insert p A \<union> free_heads ?t" "q' \<in> insert p A \<union> free_heads ?t" "q \<noteq> q'" for q q'
    proof -
      have "blk s h \<inter> blk s p = {}" if "h \<in> A \<union> free_heads s" for h
        using buddy_invD(5) [OF inv that] by (simp add: bp)
      then show ?thesis
        using buddy_invD(4) [OF inv, of q q'] that unfolding b fh by blast
    qed
    show "blk ?t q \<inter> {} = {}" for q by simp
    show "q \<in> {} \<union> (\<Union>h \<in> insert p A \<union> free_heads ?t. blk ?t h)"
      if "pg_type (page_map ?t q) = PAGE_FREE" for q
    proof -
      have "pg_type (page_map s q) = PAGE_FREE" using that ty by (auto split: if_splits)
      then show ?thesis using buddy_invD(6) [OF inv, of q] unfolding b fh bp [symmetric] by blast
    qed
  qed
  show "free_pages ?t r = free_pages s r" by (simp add: free_pages_def)
qed

lemma free_list_get_page_SomeD:
  "free_list_get_page r k s = Some p \<Longrightarrow> p \<in> set (fl_list (region_map s r k))"
  by (auto simp: free_list_get_page_def split: list.splits)

lemma free_list_get_page_None:
  "free_list_get_page r k s = None \<longleftrightarrow> fl_list (region_map s r k) = []"
  by (auto simp: free_list_get_page_def split: list.splits)

text \<open>
  The specification of the search: a block is found exactly when a list of a large enough
  order is not empty; it is cut out of the free pages, and nothing else changes.
\<close>

definition alloc_spec ::
  "region_config \<Rightarrow> region_type \<Rightarrow> nat \<Rightarrow> nat set \<Rightarrow> mm_state \<Rightarrow> nat option \<times> mm_state \<Rightarrow> bool" where
  "alloc_spec c r k A s res \<longleftrightarrow>
     (case res of
        (None, t) \<Rightarrow> t = s
      | (Some p, t) \<Rightarrow>
          buddy_inv c t A (block p k) \<and> pg_order (page_map t p) = k \<and> 2 ^ k dvd p \<and>
          uniform c (block p k) r \<and> block p k \<subseteq> free_pages s r \<and>
          free_pages t r = free_pages s r - block p k \<and>
          (\<forall>r'. r' \<noteq> r \<longrightarrow> free_pages t r' = free_pages s r') \<and>
          (\<forall>q \<in> A. page_map t q = page_map s q) \<and> bytes t = bytes s)"

lemma buddy_split_spec:
  assumes inv: "buddy_inv c s A {}" and p: "p \<in> set (fl_list (region_map s r nd))" and "k \<le> nd"
  shows "alloc_spec c r k A s
    (Some p, set_order p k (buddy_division r p k nd (free_list_del r nd p s)))"
proof -
  let ?s = "free_list_del r nd p s"
  let ?t = "buddy_division r p k nd ?s"
  note h = buddy_inv_head [OF inv p]
  note take = buddy_inv_take [OF inv p, simplified]
  have t: "?t = buddy_division_loop r p k nd (2 ^ nd) ?s" by (simp add: buddy_division_def)
  have inv': "buddy_inv c ?s A (block p nd)" using take(1) by simp
  note div = buddy_division_loop_inv [OF inv' assms(3) h(1,2,4), folded t]
  have sub: "block p k \<subseteq> block p nd" using assms(3) by (rule block_mono)
  have fin: "buddy_inv c (set_order p k ?t) A (block p k)"
    "free_pages (set_order p k ?t) r' = free_pages ?t r'" for r'
    using buddy_inv_set_order_held [OF div [THEN conjunct1], of p] by simp_all
  have F: "free_pages ?t r = free_pages s r - block p k"
    using div take(2,4) sub by auto
  have "page_map ?t q = page_map s q \<and> q \<noteq> p" if "q \<in> A" for q
  proof -
    have "q \<in> blk s q" by (simp add: blk_def)
    moreover have "p \<noteq> q" using h(8) that by auto
    ultimately have "q \<notin> block p nd"
      using buddy_invD(4) [OF inv, of p q] h(6,7) that by auto
    then show ?thesis using div \<open>p \<noteq> q\<close> by simp
  qed
  moreover have "bytes (set_order p k ?t) = bytes s"
    using div by (simp add: set_order_def free_list_del_def set_free_def Let_def)
  moreover have "2 ^ k dvd p" using h(2) assms(3) by (meson dvd_trans le_imp_power_dvd)
  ultimately show ?thesis
    using fin F div take(3,4) sub uniform_subset [OF h(4) sub]
    by (auto simp: alloc_spec_def)
qed

lemma buddy_smallest_loop_spec:
  assumes "buddy_inv c s A {}" "k \<le> nd"
  shows "alloc_spec c r k A s (buddy_smallest_loop r k nd s)
    \<and> (fst (buddy_smallest_loop r k nd s) = None \<longleftrightarrow>
        (\<forall>j. nd \<le> j \<and> j \<le> PAGE_ORDER_MAX \<longrightarrow> fl_list (region_map s r j) = []))"
  using assms
proof (induction r k nd s rule: buddy_smallest_loop.induct)
  case (1 r k nd s)
  note unf = buddy_smallest_loop.simps [of r k nd s]
  show ?case
  proof (cases "nd \<le> PAGE_ORDER_MAX")
    case False
    then show ?thesis by (auto simp: unf alloc_spec_def)
  next
    case le: True
    show ?thesis
    proof (cases "free_list_get_page r nd s")
      case None
      then have "fl_list (region_map s r nd) = []" by (simp add: free_list_get_page_None)
      moreover have "(nd \<le> j) = (nd = j \<or> Suc nd \<le> j)" for j by auto
      ultimately show ?thesis
        using "1.IH" [OF le None "1.prems"(1)] "1.prems"(2) le None unfolding unf by auto
    next
      case (Some p)
      then have p: "p \<in> set (fl_list (region_map s r nd))" by (rule free_list_get_page_SomeD)
      then show ?thesis
        using buddy_split_spec [OF "1.prems"(1) p "1.prems"(2)] le Some
        unfolding unf by (auto simp: Let_def)
    qed
  qed
qed

section \<open>Release\<close>

lemma check_buddy_in_list:
  assumes inv: "buddy_inv c s A (block p k)" and al: "2 ^ k dvd p"
    and chk: "check_buddy c s p (find_buddy p k) k" and r: "page_to_region c p = r"
  shows "find_buddy p k \<in> set (fl_list (region_map s r k))"
proof -
  let ?b = "find_buddy p k"
  note m = buddy_merge_block [OF al, folded find_buddy_def]
  have ty: "pg_type (page_map s ?b) = PAGE_FREE" and od: "pg_order (page_map s ?b) = k"
    and rb: "page_to_region c ?b = r"
    using chk r by (auto simp: check_buddy_def split: if_splits)
  have "?b \<notin> block p k" using m(3) by auto
  then obtain h where h: "h \<in> A \<union> free_heads s" "?b \<in> blk s h"
    using buddy_invD(6) [OF inv ty] by auto
  define j where "j = pg_order (page_map s h)"
  have hal: "2 ^ j dvd h"
    using h(1) buddy_invD(2) [OF inv, of h] buddy_inv_head [OF inv]
    by (auto simp: j_def alloc_ok_def free_heads_def)
  have bj: "?b \<in> block h j" using h(2) by (simp add: blk_def j_def)
  have "j \<le> k"
  proof (rule ccontr)
    assume "\<not> j \<le> k"
    then have "Suc k \<le> j" by simp
    then have "block (?b AND p) (Suc k) \<subseteq> block h j"
      by (rule aligned_nest [OF m(5) hal _ _ bj]) (use m(4) in auto)
    then have "p \<in> blk s h" using m(4) by (auto simp: blk_def j_def)
    then show False using buddy_invD(5) [OF inv h(1)] by auto
  qed
  then have "?b = h" using aligned_in_block [OF hal m(1) _ bj] by simp
  moreover have "h \<notin> A" using buddy_invD(2) [OF inv, of h] ty \<open>?b = h\<close> by (auto simp: alloc_ok_def)
  ultimately have "?b \<in> free_heads s" using h(1) by simp
  then obtain r' k' where l: "?b \<in> set (fl_list (region_map s r' k'))"
    by (auto simp: free_heads_def)
  then show ?thesis using buddy_inv_head(3,5) [OF inv l] od rb by simp
qed

lemma bytes_simps [simp]:
  "bytes (free_list_add r k p s) = bytes s" "bytes (free_list_del r k p s) = bytes s"
  "bytes (set_order p k s) = bytes s" "bytes (set_type p ty s) = bytes s"
  by (simp_all add: free_list_add_def free_list_del_def set_free_def set_order_def set_type_def
      Let_def)

definition free_spec ::
  "region_config \<Rightarrow> region_type \<Rightarrow> nat set \<Rightarrow> nat set \<Rightarrow> mm_state \<Rightarrow> mm_state \<Rightarrow> bool" where
  "free_spec c r A B s t \<longleftrightarrow>
     buddy_inv c t A {} \<and> free_pages t r = free_pages s r \<union> B \<and>
     (\<forall>r'. r' \<noteq> r \<longrightarrow> free_pages t r' = free_pages s r') \<and>
     (\<forall>q \<in> A. page_map t q = page_map s q) \<and> bytes t = bytes s"

lemma buddy_finish_spec:
  assumes "buddy_inv c s A (block p k)" "2 ^ k dvd p" "k \<le> PAGE_ORDER_MAX" "uniform c (block p k) r"
  shows "free_spec c r A (block p k) s (buddy_finish r p k s)"
proof -
  let ?t = "buddy_finish r p k s"
  have "p \<notin> A" using buddy_invD(5) [OF assms(1), of p] by (auto simp: blk_def)
  then have "page_map ?t q = page_map s q" if "q \<in> A" for q
    using that by (auto simp: buddy_finish_def)
  moreover have pm: "page_map ?t q = page_map s q" if "q \<noteq> p" for q
    using that by (simp add: buddy_finish_def)
  moreover have po: "pg_order (page_map ?t p) = k" by (simp add: buddy_finish_def)
  moreover have rm: "region_map ?t = region_map (free_list_add r k p s)"
    by (simp add: buddy_finish_def free_list_add_def set_free_def Let_def)
  ultimately show ?thesis
    using buddy_inv_put [OF assms(1) subset_refl assms(3,2,4) pm po rm]
    by (simp add: free_spec_def buddy_finish_def)
qed

lemma buddy_merge_spec:
  assumes "buddy_inv c s A (block p k)" "2 ^ k dvd p" "k \<le> PAGE_ORDER_MAX" "uniform c (block p k) r"
  shows "free_spec c r A (block p k) s (buddy_merge c r p k s)"
  using assms
proof (induction c r p k s rule: buddy_merge.induct)
  case (1 c r p k s)
  let ?b = "find_buddy p k"
  note fin = buddy_finish_spec [OF "1.prems"]
  show ?case
  proof (cases "k < PAGE_ORDER_MAX \<and> check_buddy c s p ?b k")
    case False
    then show ?thesis
      using fin by (subst buddy_merge.simps) (auto simp: Let_def)
  next
    case True
    note m = buddy_merge_block [OF "1.prems"(2), folded find_buddy_def]
    have r: "page_to_region c p = r" using "1.prems"(4) by (auto simp: uniform_def)
    have bl: "?b \<in> set (fl_list (region_map s r k))"
      using check_buddy_in_list [OF "1.prems"(1,2) _ r] True by simp
    let ?s = "free_list_del r k ?b s"
    note take = buddy_inv_take [OF "1.prems"(1) bl]
    have inv: "buddy_inv c ?s A (block (?b AND p) (Suc k))" using take(1) by (simp add: m(4))
    have un: "uniform c (block (?b AND p) (Suc k)) r"
      using "1.prems"(4) buddy_inv_head(4) [OF "1.prems"(1) bl]
      by (auto simp: m(4) [symmetric] uniform_def)
    have IH: "free_spec c r A (block (?b AND p) (Suc k)) ?s (buddy_merge c r (?b AND p) (Suc k) ?s)"
      by (rule "1.IH") (use True inv un m(5) in simp_all)
    have "buddy_merge c r p k s = buddy_merge c r (?b AND p) (Suc k) ?s"
      using True by (subst buddy_merge.simps) (simp add: Let_def)
    moreover have "free_pages ?s r \<union> block (?b AND p) (Suc k) = free_pages s r \<union> block p k"
      using take(2,4) by (auto simp: m(4) [symmetric])
    ultimately show ?thesis using IH take(3) by (simp add: free_spec_def)
  qed
qed

lemma buddy_inv_release:
  assumes inv: "buddy_inv c s A {}" and p: "p \<in> A"
  shows "buddy_inv c s (A - {p}) (blk s p)"
proof (rule buddy_invI)
  have nf: "p \<notin> free_heads s" using buddy_invD(3) [OF inv] p by auto
  show "free_list_ok c s r k" for r k by (rule buddy_invD(1) [OF inv])
  show "alloc_ok c s q" if "q \<in> A - {p}" for q using buddy_invD(2) [OF inv] that by simp
  show "(A - {p}) \<inter> free_heads s = {}" using buddy_invD(3) [OF inv] by auto
  show "blk s q \<inter> blk s q' = {}"
    if "q \<in> A - {p} \<union> free_heads s" "q' \<in> A - {p} \<union> free_heads s" "q \<noteq> q'" for q q'
    using buddy_invD(4) [OF inv, of q q'] that by blast
  show "blk s q \<inter> blk s p = {}" if "q \<in> A - {p} \<union> free_heads s" for q
    using buddy_invD(4) [OF inv, of q p] that p nf by blast
  show "q \<in> blk s p \<union> (\<Union>h \<in> A - {p} \<union> free_heads s. blk s h)"
    if "pg_type (page_map s q) = PAGE_FREE" for q
    using buddy_invD(6) [OF inv that] p by blast
qed

section \<open>The interface of the page allocator\<close>

text \<open>
  What a client of a page source relies on: blocks handed out are aligned, are not among the
  blocks handed out before, and the blocks handed out at any time are pairwise disjoint.
  \<open>extent s p\<close> are the pages of the block with head \<open>p\<close>.
\<close>

locale page_source =
  fixes palloc :: "nat \<Rightarrow> gfp \<Rightarrow> 's \<Rightarrow> nat option \<times> 's"
    and pfree :: "nat \<Rightarrow> 's \<Rightarrow> 's"
    and inv :: "'s \<Rightarrow> nat set \<Rightarrow> bool"
    and extent :: "'s \<Rightarrow> nat \<Rightarrow> nat set"
  assumes alloc_some: "inv s A \<Longrightarrow> palloc k g s = (Some p, t) \<Longrightarrow>
      p \<notin> A \<and> inv t (insert p A) \<and> extent t p = block p k \<and> 2 ^ k dvd p \<and>
      (\<forall>q \<in> A. extent t q = extent s q)"
    and alloc_none: "inv s A \<Longrightarrow> palloc k g s = (None, t) \<Longrightarrow> t = s"
    and free_inv: "inv s A \<Longrightarrow> p \<in> A \<Longrightarrow>
      inv (pfree p s) (A - {p}) \<and> (\<forall>q \<in> A - {p}. extent (pfree p s) q = extent s q)"
    and owned_disjoint: "inv s A \<Longrightarrow> p \<in> A \<Longrightarrow> q \<in> A \<Longrightarrow> p \<noteq> q \<Longrightarrow> extent s p \<inter> extent s q = {}"
begin

lemma alloc_fresh:
  assumes "inv s A" "palloc k g s = (Some p, t)" "q \<in> A"
  shows "block p k \<inter> extent s q = {}"
proof -
  note a = alloc_some [OF assms(1,2)]
  then have "p \<noteq> q" using assms(3) by auto
  then have "extent t p \<inter> extent t q = {}"
    using owned_disjoint [of t "insert p A" p q] a assms(3) by blast
  then show ?thesis using a assms(3) by simp
qed

lemma alloc_free_inv:
  assumes "inv s A" "palloc k g s = (Some p, t)"
  shows "inv (pfree p t) A"
proof -
  note a = alloc_some [OF assms]
  then have "insert p A - {p} = A" by auto
  then show ?thesis using free_inv [of t "insert p A" p] a by simp
qed

end

lemma page_alloc_spec:
  assumes inv: "buddy_inv c s A {}" and res: "page_alloc c k g s = (Some p, t)"
  shows "k \<le> PAGE_ORDER_MAX \<and> p \<notin> A \<and> buddy_inv c t (insert p A) {} \<and> blk t p = block p k \<and>
    2 ^ k dvd p \<and> block p k \<subseteq> free_pages s (gfp_to_region c g) \<and>
    free_pages t (gfp_to_region c g) = free_pages s (gfp_to_region c g) - block p k \<and>
    (\<forall>r. r \<noteq> gfp_to_region c g \<longrightarrow> free_pages t r = free_pages s r) \<and>
    (\<forall>q \<in> A. page_map t q = page_map s q) \<and> pg_type (page_map t p) = PAGE_USED \<and>
    (\<forall>a. bytes t a = (if g AND GFP_ZERO \<noteq> 0 \<and> p * PAGE_SIZE \<le> a \<and>
                         a < p * PAGE_SIZE + PAGE_SIZE * 2 ^ k then 0 else bytes s a))"
proof -
  let ?r = "gfp_to_region c g"
  have k: "k \<le> PAGE_ORDER_MAX" using res by (auto simp: page_alloc_def split: if_splits)
  obtain s1 where s1: "buddy_smallest_loop ?r k k s = (Some p, s1)"
    using res k by (auto simp: page_alloc_def buddy_alloc_def buddy_smallest_def Let_def
        split: prod.splits option.splits)
  let ?b = "\<lambda>a. if g AND GFP_ZERO \<noteq> 0 \<and> p * PAGE_SIZE \<le> a \<and> a < p * PAGE_SIZE + PAGE_SIZE * 2 ^ k
    then 0 else bytes s1 a"
  have t: "t = (set_type p PAGE_USED s1)\<lparr>bytes := ?b\<rparr>"
    using res k s1
    by (auto simp: page_alloc_def buddy_alloc_def buddy_smallest_def Let_def set_type_def)
  have "alloc_spec c ?r k A s (Some p, s1)"
    using buddy_smallest_loop_spec [OF inv le_refl [of k], where r = ?r] s1 by simp
  then have sp: "buddy_inv c s1 A (block p k)" "pg_order (page_map s1 p) = k" "2 ^ k dvd p"
    "uniform c (block p k) ?r" "block p k \<subseteq> free_pages s ?r"
    "free_pages s1 ?r = free_pages s ?r - block p k"
    "\<forall>r'. r' \<noteq> ?r \<longrightarrow> free_pages s1 r' = free_pages s r'"
    "\<forall>q \<in> A. page_map s1 q = page_map s q" "bytes s1 = bytes s"
    by (simp_all add: alloc_spec_def)
  have "uniform c (block p k) (page_to_region c p)" using sp(4) by (auto simp: uniform_def)
  note ho = buddy_inv_hand_out [OF sp(1,2) k sp(3) this, of PAGE_USED]
  have nA: "p \<notin> A" using buddy_invD(5) [OF sp(1), of p] by (auto simp: blk_def)
  have irr: "buddy_inv c (u\<lparr>bytes := b\<rparr>) A' X = buddy_inv c u A' X"
    "free_pages (u\<lparr>bytes := b\<rparr>) r = free_pages u r" for u b A' X r
    by (simp_all add: buddy_inv_def free_list_ok_def alloc_ok_def blk_def free_heads_def
        free_pages_def)
  show ?thesis
    unfolding t irr using ho sp k nA by (auto simp: blk_def)
qed

lemma page_alloc_none_spec:
  assumes inv: "buddy_inv c s A {}"
  shows "fst (page_alloc c k g s) = None \<longleftrightarrow>
      PAGE_ORDER_MAX < k \<or>
      (\<forall>j. k \<le> j \<and> j \<le> PAGE_ORDER_MAX \<longrightarrow> fl_list (region_map s (gfp_to_region c g) j) = [])"
    and "page_alloc c k g s = (None, t) \<Longrightarrow> t = s"
proof -
  let ?r = "gfp_to_region c g"
  note sp = buddy_smallest_loop_spec [OF inv le_refl [of k], where r = ?r]
  show "fst (page_alloc c k g s) = None \<longleftrightarrow> PAGE_ORDER_MAX < k \<or>
      (\<forall>j. k \<le> j \<and> j \<le> PAGE_ORDER_MAX \<longrightarrow> fl_list (region_map s ?r j) = [])"
    using sp [THEN conjunct2]
    by (auto simp: page_alloc_def buddy_alloc_def buddy_smallest_def Let_def
        split: prod.splits option.splits)
  show "page_alloc c k g s = (None, t) \<Longrightarrow> t = s"
    using sp [THEN conjunct1]
    by (auto simp: page_alloc_def buddy_alloc_def buddy_smallest_def Let_def alloc_spec_def
        split: prod.splits option.splits if_splits)
qed

lemma page_free_spec:
  assumes inv: "buddy_inv c s A {}" and p: "p \<in> A"
  shows "free_spec c (page_to_region c p) (A - {p}) (blk s p) s (page_free c p s)"
proof -
  have ok: "alloc_ok c s p" by (rule buddy_invD(2) [OF inv p])
  show ?thesis
    unfolding page_free_def buddy_free_def blk_def
    by (rule buddy_merge_spec [OF buddy_inv_release [OF inv p, unfolded blk_def]])
      (use ok in \<open>simp_all add: alloc_ok_def blk_def\<close>)
qed

interpretation buddy: page_source "page_alloc c" "page_free c" "\<lambda>s A. buddy_inv c s A {}" blk
  for c
proof unfold_locales
  fix s A k g p t
  assume inv: "buddy_inv c s A {}"
  { assume "page_alloc c k g s = (Some p, t)"
    from page_alloc_spec [OF inv this]
    show "p \<notin> A \<and> buddy_inv c t (insert p A) {} \<and> blk t p = block p k \<and> 2 ^ k dvd p \<and>
        (\<forall>q \<in> A. blk t q = blk s q)"
      by (auto simp: blk_def) }
  { assume "page_alloc c k g s = (None, t)"
    then show "t = s" by (rule page_alloc_none_spec(2) [OF inv]) }
  { assume "p \<in> A"
    from page_free_spec [OF inv this]
    show "buddy_inv c (page_free c p s) (A - {p}) {} \<and>
        (\<forall>q \<in> A - {p}. blk (page_free c p s) q = blk s q)"
      by (auto simp: free_spec_def blk_def) }
next
  fix s A p q
  assume "buddy_inv c s A {}" "p \<in> A" "q \<in> A" "p \<noteq> q"
  then show "blk s p \<inter> blk s q = {}" by (auto dest: buddy_invD(4) [of c s A "{}" p q])
qed

section \<open>Boot: filling the free lists\<close>

definition all_free :: "mm_state \<Rightarrow> nat set" where
  "all_free s = (\<Union>r. free_pages s r)"

definition owned_pages :: "mm_state \<Rightarrow> nat set \<Rightarrow> nat set" where
  "owned_pages s A = (\<Union>p \<in> A. blk s p)"

lemma all_free_heads:
  assumes "buddy_inv c s A X"
  shows "all_free s = (\<Union>p \<in> free_heads s. blk s p)"
  using buddy_inv_head(6,7) [OF assms]
  by (fastforce simp: all_free_def free_pages_def free_heads_def)

lemma buddy_inv_hold:
  assumes inv: "buddy_inv c s A {}" and X: "X \<inter> all_free s = {}" "X \<inter> owned_pages s A = {}"
  shows "buddy_inv c s A X"
proof (rule buddy_invI)
  show "blk s h \<inter> X = {}" if "h \<in> A \<union> free_heads s" for h
    using that X unfolding all_free_heads [OF inv] owned_pages_def by blast
  show "q \<in> X \<union> (\<Union>h \<in> A \<union> free_heads s. blk s h)"
    if "pg_type (page_map s q) = PAGE_FREE" for q
    using buddy_invD(6) [OF inv that] by blast
qed (use buddy_invD [OF inv] in simp_all)

lemma free_spec_all_free:
  assumes "free_spec c r A B s t"
  shows "all_free t = all_free s \<union> B"
proof -
  have f: "free_pages t r' = (if r' = r then free_pages s r \<union> B else free_pages s r')" for r'
    using assms by (auto simp: free_spec_def)
  show ?thesis unfolding all_free_def f by (auto split: if_splits)
qed

lemma block_0 [simp]: "block p 0 = {p}"
  by (auto simp: mem_block)

lemma page_add_one_spec:
  assumes "buddy_inv c s A {}" "p \<notin> all_free s" "p \<notin> owned_pages s A"
  shows "free_spec c (page_to_region c p) A {p} s (page_add c (page_to_region c p) (Some p) 0 1 s)"
proof -
  have "buddy_inv c s A (block p 0)"
    using buddy_inv_hold [OF assms(1), of "{p}"] assms(2,3) by simp
  from buddy_merge_spec [OF this, of "page_to_region c p"] show ?thesis
    by (simp add: buddy_free_def uniform_def)
qed

lemma pa_to_region_page:
  "pa_to_region c (of_nat (n * PAGE_SIZE)) = page_to_region c n"
  by (simp add: page_to_region_def page_to_pa_def PAGE_SIZE_def push_bit_eq_mult)

text \<open>The page numbers for which the macro of the memory model does not wrap.\<close>

definition page_limit :: "region_config \<Rightarrow> nat \<Rightarrow> bool" where
  "page_limit c m \<longleftrightarrow> mem_model c = Flatmem \<or> m \<le> 2 ^ 32"

definition page_present :: "region_config \<Rightarrow> nat \<Rightarrow> bool" where
  "page_present c n \<longleftrightarrow>
     (case mem_model c of Flatmem \<Rightarrow> True | Sparcemem shift present \<Rightarrow> present (n div 2 ^ shift))"

lemma nr_to_page_present:
  "page_limit c m \<Longrightarrow> n < m \<Longrightarrow> nr_to_page c n = (if page_present c n then Some n else None)"
  by (auto simp: page_limit_def nr_to_page_def page_present_def Let_def split: memmodel.splits)

lemma region_add_loop_spec:
  assumes "buddy_inv c s {} {}" "{n ..< m} \<inter> all_free s = {}" "page_limit c m"
  shows "buddy_inv c (region_add_loop c (n * PAGE_SIZE) (m * PAGE_SIZE) s) {} {}
    \<and> all_free (region_add_loop c (n * PAGE_SIZE) (m * PAGE_SIZE) s)
        = all_free s \<union> {i \<in> {n ..< m}. page_present c i}"
  using assms
proof (induction "m - n" arbitrary: n s)
  case 0
  then have "\<not> n * PAGE_SIZE < m * PAGE_SIZE" by simp
  then show ?case using 0 by (subst (1 2) region_add_loop.simps) simp
next
  case (Suc d)
  then have less: "n < m" by simp
  let ?s = "page_add c (page_to_region c n) (nr_to_page c n) 0 1 s"
  let ?new = "{i \<in> {n}. page_present c i}"
  have added: "buddy_inv c ?s {} {} \<and> all_free ?s = all_free s \<union> ?new"
  proof (cases "page_present c n")
    case True
    have "free_spec c (page_to_region c n) {} {n} s (page_add c (page_to_region c n) (Some n) 0 1 s)"
    proof (rule page_add_one_spec [OF Suc.prems(1)])
      have "n \<in> {n ..< m}" using less by simp
      then show "n \<notin> all_free s" using Suc.prems(2) by blast
      show "n \<notin> owned_pages s {}" by (simp add: owned_pages_def)
    qed
    then have "free_spec c (page_to_region c n) {} {n} s ?s"
      using nr_to_page_present [OF Suc.prems(3) less] True by simp
    moreover have "?new = {n}" using True by auto
    ultimately show ?thesis using free_spec_all_free [of c "page_to_region c n" "{}" "{n}" s ?s]
      by (simp add: free_spec_def)
  next
    case False
    then have same: "?s = s" and none: "?new = {}" using nr_to_page_present [OF Suc.prems(3) less] by auto
    show ?thesis unfolding same none using Suc.prems(1) by simp
  qed
  have "n * PAGE_SIZE < m * PAGE_SIZE" using less by simp
  moreover have "n * PAGE_SIZE + PAGE_SIZE = Suc n * PAGE_SIZE" by simp
  moreover have "n * PAGE_SIZE div PAGE_SIZE = n" by simp
  ultimately have step: "region_add_loop c (n * PAGE_SIZE) (m * PAGE_SIZE) s
      = region_add_loop c (Suc n * PAGE_SIZE) (m * PAGE_SIZE) ?s"
    by (subst region_add_loop.simps)
      (simp only: pa_to_region_page if_True)
  have sub: "{Suc n ..< m} \<subseteq> {n ..< m}" "n \<notin> {Suc n ..< m}" by auto
  then have "{Suc n ..< m} \<inter> all_free ?s = {}" using Suc.prems(2) added by blast
  then have "buddy_inv c (region_add_loop c (Suc n * PAGE_SIZE) (m * PAGE_SIZE) ?s) {} {}
    \<and> all_free (region_add_loop c (Suc n * PAGE_SIZE) (m * PAGE_SIZE) ?s)
        = all_free ?s \<union> {i \<in> {Suc n ..< m}. page_present c i}"
    using Suc.hyps(1) [of "Suc n" ?s] Suc.hyps(2) added Suc.prems(3) by simp
  moreover have "{n} \<union> {Suc n ..< m} = {n ..< m}" using less by auto
  then have "?new \<union> {i \<in> {Suc n ..< m}. page_present c i} = {i \<in> {n ..< m}. page_present c i}" by blast
  ultimately show ?case unfolding step using added by (simp add: Un_assoc)
qed

lemma region_block_add_spec:
  assumes inv: "buddy_inv c s {} {}"
    and fresh: "\<forall>n. start \<le> n * PAGE_SIZE \<and> (n + 1) * PAGE_SIZE \<le> start + len \<longrightarrow> n \<notin> all_free s"
    and bound: "start + len \<le> 2 ^ 64 - PAGE_SIZE"
    and limit: "page_limit c ((start + len) div PAGE_SIZE)"
  shows "buddy_inv c (snd (region_block_add c start len s)) {} {}
    \<and> all_free (snd (region_block_add c start len s)) = all_free s \<union>
        {n. start \<le> n * PAGE_SIZE \<and> (n + 1) * PAGE_SIZE \<le> start + len \<and> page_present c n}"
proof -
  define a where "a = align_high start PAGE_SIZE div PAGE_SIZE"
  define b where "b = align_low (start + len) PAGE_SIZE div PAGE_SIZE"
  have power: "PAGE_SIZE = 2 ^ 12" by (simp add: PAGE_SIZE_def PAGE_SHIFT_def)
  have low: "align_low x PAGE_SIZE = x div PAGE_SIZE * PAGE_SIZE" for x
    by (simp only: power align_low_power minus_mod_eq_div_mult)
  have a: "align_high start PAGE_SIZE = a * PAGE_SIZE"
    and b: "align_low (start + len) PAGE_SIZE = b * PAGE_SIZE"
    by (simp_all add: a_def b_def align_high_low low)
  have pages: "{n. start \<le> n * PAGE_SIZE \<and> (n + 1) * PAGE_SIZE \<le> start + len} = {a ..< b}"
  proof (rule set_eqI)
    fix n
    have "start \<le> n * PAGE_SIZE \<longleftrightarrow> a * PAGE_SIZE \<le> n * PAGE_SIZE"
    proof
      assume "start \<le> n * PAGE_SIZE"
      then have "a * PAGE_SIZE < (n + 1) * PAGE_SIZE"
        using align_high_less [OF PAGE_SIZE_pos, of start] a by simp
      then have "a < n + 1" using mult_less_cancel2 by blast
      then show "a * PAGE_SIZE \<le> n * PAGE_SIZE" by simp
    next
      assume "a * PAGE_SIZE \<le> n * PAGE_SIZE"
      then show "start \<le> n * PAGE_SIZE"
        using align_high_ge [of start PAGE_SIZE] unfolding a by (rule le_trans [rotated])
    qed
    moreover have "(n + 1) * PAGE_SIZE \<le> start + len \<longleftrightarrow> (n + 1) * PAGE_SIZE \<le> b * PAGE_SIZE"
    proof
      assume "(n + 1) * PAGE_SIZE \<le> start + len"
      then have "n + 1 \<le> b" unfolding b_def low
        by (simp add: less_eq_div_iff_mult_less_eq)
      then show "(n + 1) * PAGE_SIZE \<le> b * PAGE_SIZE" by (rule mult_le_mono1)
    next
      assume "(n + 1) * PAGE_SIZE \<le> b * PAGE_SIZE"
      then show "(n + 1) * PAGE_SIZE \<le> start + len"
        using align_low_le [of "start + len" PAGE_SIZE] unfolding b by (rule le_trans)
    qed
    moreover have "(n + 1) * PAGE_SIZE \<le> b * PAGE_SIZE \<longleftrightarrow> n < b"
      using mult_le_cancel2 [of "n + 1" PAGE_SIZE b] by (simp only: Suc_eq_plus1 [symmetric] Suc_le_eq PAGE_SIZE_pos simp_thms)
    moreover have "a * PAGE_SIZE \<le> n * PAGE_SIZE \<longleftrightarrow> a \<le> n" by simp
    ultimately show "n \<in> {n. start \<le> n * PAGE_SIZE \<and> (n + 1) * PAGE_SIZE \<le> start + len}
        \<longleftrightarrow> n \<in> {a ..< b}"
      by (simp only: mem_Collect_eq atLeastLessThan_iff)
  qed
  have loop: "buddy_inv c (region_add_loop c (a * PAGE_SIZE) (b * PAGE_SIZE) s) {} {}
    \<and> all_free (region_add_loop c (a * PAGE_SIZE) (b * PAGE_SIZE) s)
        = all_free s \<union> {i \<in> {a ..< b}. page_present c i}"
  proof (rule region_add_loop_spec [OF inv])
    show "{a ..< b} \<inter> all_free s = {}" using fresh pages by blast
    have "b = (start + len) div PAGE_SIZE"
      unfolding b_def low by simp
    then show "page_limit c b" using limit by simp
  qed
  have present: "{n. start \<le> n * PAGE_SIZE \<and> (n + 1) * PAGE_SIZE \<le> start + len \<and> page_present c n}
      = {i \<in> {a ..< b}. page_present c i}"
    using pages by blast
  show ?thesis
  proof (cases "(b * PAGE_SIZE + 2 ^ 64 - a * PAGE_SIZE) mod 2 ^ 64 < PAGE_SIZE")
    case False
    then show ?thesis using loop unfolding present by (simp add: region_block_add_def Let_def a b)
  next
    case True
    have "b \<le> a"
    proof (rule ccontr)
      assume "\<not> b \<le> a"
      then have "(a + 1) * PAGE_SIZE \<le> b * PAGE_SIZE" by (intro mult_le_mono1) simp
      moreover have "b * PAGE_SIZE < 2 ^ 64"
      proof -
        have "start + len < 2 ^ 64" using bound by (simp add: PAGE_SIZE_def PAGE_SHIFT_def)
        then show ?thesis using align_low_le [of "start + len" PAGE_SIZE] unfolding b by simp
      qed
      moreover from calculation have "b * PAGE_SIZE + 2 ^ 64 - a * PAGE_SIZE
          = (b * PAGE_SIZE - a * PAGE_SIZE) + 2 ^ 64" by simp
      ultimately show False using True by simp
    qed
    then have "{a ..< b} = {}" by simp
    then show ?thesis
      unfolding present using True inv by (simp add: region_block_add_def Let_def a b)
  qed
qed

lemma region_free_list_init_inv:
  assumes "\<forall>p. pg_type (page_map s p) \<noteq> PAGE_FREE"
    "\<forall>r k. k \<le> PAGE_ORDER_MAX \<longrightarrow> free_nr (region_map s r k) = 0"
    "\<forall>r k. \<not> k \<le> PAGE_ORDER_MAX \<longrightarrow> region_map s r k = \<lparr>fl_list = [], free_nr = 0\<rparr>"
  shows "buddy_inv c (region_free_list_init s) {} {}" and "all_free (region_free_list_init s) = {}"
proof -
  have l: "fl_list (region_map (region_free_list_init s) r k) = []" for r k
    using assms(3) by (simp add: region_free_list_init_def)
  then show "all_free (region_free_list_init s) = {}"
    by (simp add: all_free_def free_pages_def)
  have "free_nr (region_map (region_free_list_init s) r k) = 0" for r k
    using assms(2,3) by (simp add: region_free_list_init_def)
  moreover have "page_map (region_free_list_init s) = page_map s"
    by (simp add: region_free_list_init_def)
  ultimately show "buddy_inv c (region_free_list_init s) {} {}"
    using assms(1) l by (auto simp: buddy_inv_def free_list_ok_def free_heads_def)
qed

section \<open>Every history of allocations and releases\<close>

text \<open>
  The reachable states of the allocator from a boot state \<open>s0\<close>: the client allocates, releases
  blocks it owns, and may set the type of a page it owns (the slab allocator marks its pages
  \<open>PAGE_SLOB\<close>).
\<close>

inductive page_reach :: "region_config \<Rightarrow> mm_state \<Rightarrow> mm_state \<Rightarrow> nat set \<Rightarrow> bool" for c s0 where
  boot: "page_reach c s0 s0 {}"
| alloc: "page_reach c s0 s A \<Longrightarrow> page_alloc c k g s = (Some p, t) \<Longrightarrow> page_reach c s0 t (insert p A)"
| alloc_fail: "page_reach c s0 s A \<Longrightarrow> page_alloc c k g s = (None, t) \<Longrightarrow> page_reach c s0 t A"
| free: "page_reach c s0 s A \<Longrightarrow> p \<in> A \<Longrightarrow> page_reach c s0 (page_free c p s) (A - {p})"
| mark: "page_reach c s0 s A \<Longrightarrow> p \<in> A \<Longrightarrow> ty \<noteq> PAGE_FREE \<Longrightarrow> page_reach c s0 (set_type p ty s) A"

lemma free_pages_region:
  "buddy_inv c s A X \<Longrightarrow> x \<in> free_pages s r \<Longrightarrow> page_to_region c x = r"
  using buddy_inv_head(4) by (fastforce simp: free_pages_def uniform_def)

lemma buddy_inv_mark:
  assumes inv: "buddy_inv c s A X" and p: "p \<in> A" and ty: "ty \<noteq> PAGE_FREE"
  shows "buddy_inv c (set_type p ty s) A X"
proof -
  let ?t = "set_type p ty s"
  have b: "blk ?t = blk s" and fh: "free_heads ?t = free_heads s"
    by (simp_all add: blk_def free_heads_def fun_eq_iff)
  have nf: "p \<notin> free_heads s" using buddy_invD(3) [OF inv] p by auto
  show ?thesis
  proof (rule buddy_invI)
    show "free_list_ok c ?t r k" for r k
      using buddy_invD(1) [OF inv, of r k] by (auto simp: free_list_ok_def)
    show "alloc_ok c ?t q" if "q \<in> A" for q
      using buddy_invD(2) [OF inv that] ty by (cases "q = p") (simp_all add: alloc_ok_def b)
    show "q \<in> X \<union> (\<Union>h \<in> A \<union> free_heads ?t. blk ?t h)"
      if "pg_type (page_map ?t q) = PAGE_FREE" for q
    proof -
      have "pg_type (page_map s q) = PAGE_FREE" using that ty by (simp split: if_splits)
      then show ?thesis using buddy_invD(6) [OF inv, of q] unfolding b fh by simp
    qed
  qed (use buddy_invD(3,4,5) [OF inv] in \<open>simp_all only: b fh\<close>)
qed

lemma all_free_alloc:
  assumes inv: "buddy_inv c s A {}" and res: "page_alloc c k g s = (Some p, t)"
  shows "all_free t = all_free s - block p k" and "block p k \<subseteq> all_free s"
proof -
  note sp = page_alloc_spec [OF inv res]
  let ?r = "gfp_to_region c g"
  have in_r: "block p k \<subseteq> free_pages s ?r" using sp by simp
  then show "block p k \<subseteq> all_free s" by (auto simp: all_free_def)
  have f: "free_pages t r = free_pages s r - block p k" for r
  proof (cases "r = ?r")
    case False
    have "free_pages s r \<inter> block p k = {}"
      using in_r free_pages_region [OF inv] False by blast
    moreover have "free_pages t r = free_pages s r" using sp False by simp
    ultimately show ?thesis by blast
  qed (use sp in simp)
  show "all_free t = all_free s - block p k" by (auto simp: all_free_def f)
qed

lemma owned_cong: "(\<And>q. q \<in> A \<Longrightarrow> page_map t q = page_map s q) \<Longrightarrow> owned_pages t A = owned_pages s A"
  by (simp add: owned_pages_def blk_def)

lemma page_reach_conserve:
  assumes "page_reach c s0 s A" "buddy_inv c s0 {} {}"
  shows "buddy_inv c s A {} \<and> all_free s \<union> owned_pages s A = all_free s0"
  using assms
proof (induction rule: page_reach.induct)
  case boot
  then show ?case by (simp add: owned_pages_def)
next
  case (alloc s A k g p t)
  then have inv: "buddy_inv c s A {}" and tot: "all_free s \<union> owned_pages s A = all_free s0"
    by simp_all
  note sp = page_alloc_spec [OF inv alloc.hyps(2)]
  note af = all_free_alloc [OF inv alloc.hyps(2)]
  have "owned_pages t (insert p A) = block p k \<union> owned_pages s A"
    using sp owned_cong [of A t s] by (simp add: owned_pages_def)
  then have "all_free t \<union> owned_pages t (insert p A) = all_free s0"
    using af tot by blast
  then show ?case using sp by simp
next
  case (alloc_fail s A k g t)
  then show ?case using page_alloc_none_spec(2) by blast
next
  case (free s A p)
  then have inv: "buddy_inv c s A {}" and tot: "all_free s \<union> owned_pages s A = all_free s0"
    by simp_all
  note sp = page_free_spec [OF inv free.hyps(2)]
  have "owned_pages (page_free c p s) (A - {p}) = owned_pages s (A - {p})"
    using sp by (intro owned_cong) (simp add: free_spec_def)
  moreover have "owned_pages s A = owned_pages s (A - {p}) \<union> blk s p"
    using free.hyps(2) by (auto simp: owned_pages_def)
  ultimately show ?case
    using free_spec_all_free [OF sp] tot sp by (auto simp: free_spec_def)
next
  case (mark s A p ty)
  then have inv: "buddy_inv c s A {}" and tot: "all_free s \<union> owned_pages s A = all_free s0"
    by simp_all
  have "blk (set_type p ty s) = blk s" by (simp add: blk_def fun_eq_iff)
  then have "owned_pages (set_type p ty s) A = owned_pages s A" "all_free (set_type p ty s) = all_free s"
    by (simp_all add: owned_pages_def all_free_def free_pages_def)
  then show ?case using buddy_inv_mark [OF inv mark.hyps(2,3)] tot by simp
qed

lemma free_owned_disjoint:
  assumes "buddy_inv c s A {}"
  shows "all_free s \<inter> owned_pages s A = {}"
proof -
  have "blk s p \<inter> blk s q = {}" if "p \<in> free_heads s" "q \<in> A" for p q
    using buddy_invD(3) [OF assms] buddy_invD(4) [OF assms, of p q] that by blast
  then show ?thesis unfolding all_free_heads [OF assms] owned_pages_def by blast
qed

text \<open>A small machine for the witnesses: one region and the two pages of the first 8 KiB.\<close>

definition cfg0 :: region_config where
  "cfg0 = \<lparr>ram_base = 0, dma_size = None, highmem_offset = None, mem_model = Flatmem\<rparr>"

text \<open>The same machine with sections of two pages, of which all but the first are present.\<close>

definition cfg1 :: region_config where
  "cfg1 = cfg0\<lparr>mem_model := Sparcemem 1 (\<lambda>section. 0 < section)\<rparr>"

definition bss0 :: mm_state where
  "bss0 = \<lparr>page_map = (\<lambda>_. \<lparr>pg_type = PAGE_UNINIT, pg_order = 0\<rparr>),
          region_map = (\<lambda>_ _. \<lparr>fl_list = [], free_nr = 0\<rparr>), bytes = (\<lambda>_. 1)\<rparr>"

definition boot2 :: mm_state where
  "boot2 = page_add cfg0 REGION_NORMAL (Some 0) 0 2 bss0"

lemma region_cfg0 [simp]: "page_to_region cfg0 p = REGION_NORMAL"
  by (simp add: page_to_region_def pa_to_region_def cfg0_def)

lemma gfp_cfg0 [simp]: "gfp_to_region cfg0 g = REGION_NORMAL"
  by (simp add: gfp_to_region_def cfg0_def Let_def)

lemmas eval_state = set_order_def set_type_def set_free_def free_list_add_def free_list_del_def
  Let_def

lemmas eval_free = page_free_def buddy_free_def buddy_merge.simps buddy_finish_def check_buddy_def find_buddy_def
  PAGE_ORDER_MAX_def

lemmas eval_alloc = page_alloc_def buddy_alloc_def buddy_smallest_def buddy_smallest_loop.simps
  buddy_division_def buddy_division_loop.simps free_list_get_page_def PAGE_ORDER_MAX_def

lemma bss0_inv: "buddy_inv c bss0 {} {}" "all_free bss0 = {}"
  by (simp_all add: buddy_inv_def free_list_ok_def free_heads_def bss0_def all_free_def free_pages_def)

lemma boot2_steps: "boot2 = page_add cfg0 REGION_NORMAL (Some 1) 0 1 (page_add cfg0 REGION_NORMAL (Some 0) 0 1 bss0)"
  by (simp add: boot2_def numeral_2_eq_2)

lemma boot2_inv: "buddy_inv cfg0 boot2 {} {}" "all_free boot2 = {0, 1}"
proof -
  let ?s = "page_add cfg0 REGION_NORMAL (Some 0) 0 1 bss0"
  have 1: "free_spec cfg0 REGION_NORMAL {} {0} bss0 ?s"
    using page_add_one_spec [of cfg0 bss0 "{}" 0] bss0_inv by (simp add: owned_pages_def)
  note af = free_spec_all_free [OF 1]
  have 2: "free_spec cfg0 REGION_NORMAL {} {1} ?s boot2"
    using page_add_one_spec [of cfg0 ?s "{}" 1] 1 af bss0_inv
    by (simp add: owned_pages_def free_spec_def boot2_steps)
  show "buddy_inv cfg0 boot2 {} {}" using 2 by (simp add: free_spec_def)
  show "all_free boot2 = {0, 1}" using free_spec_all_free [OF 2] af bss0_inv by auto
qed

lemma boot2_eval:
  "boot2 = \<lparr>page_map = (\<lambda>_. \<lparr>pg_type = PAGE_UNINIT, pg_order = 0\<rparr>)(0 := \<lparr>pg_type = PAGE_FREE, pg_order = 1\<rparr>),
     region_map = (\<lambda>_ _. \<lparr>fl_list = [], free_nr = 0\<rparr>)
       (REGION_NORMAL := (\<lambda>_. \<lparr>fl_list = [], free_nr = 0\<rparr>)(1 := \<lparr>fl_list = [0], free_nr = 1\<rparr>)),
     bytes = (\<lambda>_. 1)\<rparr>"
  by (simp add: boot2_steps bss0_def eval_state eval_free fun_eq_iff)

definition used2 :: mm_state where
  "used2 = \<lparr>page_map = (\<lambda>_. \<lparr>pg_type = PAGE_UNINIT, pg_order = 0\<rparr>)(0 := \<lparr>pg_type = PAGE_USED, pg_order = 0\<rparr>),
     region_map = (\<lambda>_ _. \<lparr>fl_list = [], free_nr = 0\<rparr>)
       (REGION_NORMAL := (\<lambda>_. \<lparr>fl_list = [], free_nr = 0\<rparr>)(0 := \<lparr>fl_list = [1], free_nr = 1\<rparr>)),
     bytes = (\<lambda>_. 1)\<rparr>"

lemma boot2_alloc: "page_alloc cfg0 0 0 boot2 = (Some 0, used2)"
  by (simp add: boot2_eval eval_state eval_alloc used2_def) (auto simp: fun_eq_iff)

section \<open>Properties\<close>

text \<open>
  C1: a successful \<open>page_alloc\<close> hands out an aligned block of the requested order, taken from
  the free pages of the region the flags select and from nothing else, disjoint from every block
  handed out before; it marks the block used, clears exactly its bytes under \<open>GFP_ZERO\<close>, leaves
  every other allocated block's descriptor alone and preserves the allocator invariant.
\<close>

theorem page_alloc_sound:
  assumes "buddy_inv c s A {}" "page_alloc c k g s = (Some p, t)"
  shows "buddy_inv c t (insert p A) {} \<and> 2 ^ k dvd p \<and> blk t p = block p k \<and>
    pg_type (page_map t p) = PAGE_USED \<and>
    block p k \<subseteq> free_pages s (gfp_to_region c g) \<and>
    (\<forall>r. free_pages t r = free_pages s r - block p k) \<and>
    (\<forall>q \<in> A. page_map t q = page_map s q \<and> block p k \<inter> blk s q = {}) \<and>
    (\<forall>a. bytes t a = (if g AND GFP_ZERO \<noteq> 0 \<and> a div PAGE_SIZE \<in> block p k then 0 else bytes s a))"
proof -
  note sp = page_alloc_spec [OF assms]
  have in_r: "block p k \<subseteq> free_pages s (gfp_to_region c g)" using sp by simp
  have f: "free_pages t r = free_pages s r - block p k" for r
  proof (cases "r = gfp_to_region c g")
    case False
    have "free_pages s r \<inter> block p k = {}"
      using in_r free_pages_region [OF assms(1)] False by blast
    then show ?thesis using sp False by auto
  qed (use sp in simp)
  have z: "a div PAGE_SIZE \<in> block p k \<longleftrightarrow>
      p * PAGE_SIZE \<le> a \<and> a < p * PAGE_SIZE + PAGE_SIZE * 2 ^ k" for a
    by (auto simp: mem_block less_eq_div_iff_mult_less_eq div_less_iff_less_mult algebra_simps)
  show ?thesis
    using sp f buddy.alloc_fresh [OF assms] by (simp add: z conj_assoc)
qed

theorem page_alloc_sound_witness:
  "buddy_inv cfg0 used2 {0} {} \<and> free_pages used2 REGION_NORMAL = free_pages boot2 REGION_NORMAL - {0}"
  using page_alloc_sound [OF boot2_inv(1) boot2_alloc] by simp

text \<open>
  C4: \<open>page_alloc\<close> fails exactly when the order is above \<open>PAGE_ORDER_MAX\<close> or the selected region has
  no free block of a sufficient order, and then it changes nothing.
\<close>

theorem page_alloc_complete:
  assumes "buddy_inv c s A {}"
  shows "(fst (page_alloc c k g s) = None \<longleftrightarrow>
      PAGE_ORDER_MAX < k \<or>
      (\<forall>j. k \<le> j \<and> j \<le> PAGE_ORDER_MAX \<longrightarrow> fl_list (region_map s (gfp_to_region c g) j) = [])) \<and>
    (fst (page_alloc c k g s) = None \<longrightarrow> snd (page_alloc c k g s) = s)"
  using page_alloc_none_spec [OF assms] by (metis prod.collapse)

theorem page_alloc_complete_witness: "fst (page_alloc cfg0 2 0 boot2) = None \<and> snd (page_alloc cfg0 2 0 boot2) = boot2"
proof -
  have "fl_list (region_map boot2 REGION_NORMAL j) = []" if "2 \<le> j" for j
    using that by (simp add: boot2_eval)
  then show ?thesis using page_alloc_complete [OF boot2_inv(1), of 2 0] by simp
qed

text \<open>
  C2: \<open>page_free\<close> of an allocated block gives exactly the block's pages back to the free pages of
  its region (whatever merging takes place), touches no byte of memory and no other allocated
  block, and preserves the invariant.
\<close>

theorem page_free_sound:
  assumes "buddy_inv c s A {}" "p \<in> A"
  shows "buddy_inv c (page_free c p s) (A - {p}) {} \<and>
    free_pages (page_free c p s) (page_to_region c p) = free_pages s (page_to_region c p) \<union> blk s p \<and>
    (\<forall>r. r \<noteq> page_to_region c p \<longrightarrow> free_pages (page_free c p s) r = free_pages s r) \<and>
    (\<forall>q \<in> A - {p}. page_map (page_free c p s) q = page_map s q) \<and>
    bytes (page_free c p s) = bytes s"
  using page_free_spec [OF assms] by (simp add: free_spec_def)

theorem page_free_sound_witness:
  "buddy_inv cfg0 (page_free cfg0 0 used2) {} {} \<and>
   free_pages (page_free cfg0 0 used2) REGION_NORMAL = free_pages used2 REGION_NORMAL \<union> {0}"
  using page_free_sound [OF page_alloc_spec [OF boot2_inv(1) boot2_alloc, THEN conjunct2, THEN conjunct2, THEN conjunct1], of 0]
  by (simp add: blk_def used2_def)

text \<open>
  C3: in every history of allocations, failed allocations and releases from a booted allocator,
  no page is lost or duplicated: the free pages and the pages of the blocks handed out are
  disjoint and together are the pages of the boot, and the blocks handed out are pairwise
  disjoint.
\<close>

theorem page_history_conserves:
  assumes "page_reach c s0 s A" "buddy_inv c s0 {} {}"
  shows "all_free s \<union> owned_pages s A = all_free s0 \<and> all_free s \<inter> owned_pages s A = {} \<and>
    (\<forall>p \<in> A. \<forall>q \<in> A. p \<noteq> q \<longrightarrow> blk s p \<inter> blk s q = {})"
  using page_reach_conserve [OF assms] free_owned_disjoint [of c s A] buddy.owned_disjoint [of c s A]
  by blast

theorem page_history_conserves_witness: "all_free used2 \<union> owned_pages used2 {0} = {0, 1}"
  using page_history_conserves [OF page_reach.alloc [OF page_reach.boot boot2_alloc] boot2_inv(1)] boot2_inv(2)
  by simp

text \<open>
  \<open>region_block_add\<close> adds to the free pages exactly the whole pages inside the byte range that
  have a descriptor, and skips those for which \<open>nr_to_page\<close> is \<open>NULL\<close> (the sections that are not present
  in the sparse memory model); for a range with new pages that ends a page below the address limit,
  and below page \<open>2 ^ 32\<close> in the sparse model, whose macro keeps an \<open>unsigned int\<close>.
\<close>

theorem region_block_add_pages:
  assumes "buddy_inv c s {} {}"
    "\<forall>n. start \<le> n * PAGE_SIZE \<and> (n + 1) * PAGE_SIZE \<le> start + len \<longrightarrow> n \<notin> all_free s"
    "start + len \<le> 2 ^ 64 - PAGE_SIZE" "page_limit c ((start + len) div PAGE_SIZE)"
  shows "buddy_inv c (snd (region_block_add c start len s)) {} {} \<and>
    all_free (snd (region_block_add c start len s)) = all_free s \<union>
      {n. start \<le> n * PAGE_SIZE \<and> (n + 1) * PAGE_SIZE \<le> start + len \<and> nr_to_page c n \<noteq> None}"
proof -
  have "nr_to_page c n \<noteq> None \<longleftrightarrow> page_present c n" if "(n + 1) * PAGE_SIZE \<le> start + len" for n
  proof -
    have "n + 1 \<le> (start + len) div PAGE_SIZE" using that by (simp add: less_eq_div_iff_mult_less_eq)
    then show ?thesis using nr_to_page_present [OF assms(4), of n] by simp
  qed
  then have "{n. start \<le> n * PAGE_SIZE \<and> (n + 1) * PAGE_SIZE \<le> start + len \<and> nr_to_page c n \<noteq> None}
      = {n. start \<le> n * PAGE_SIZE \<and> (n + 1) * PAGE_SIZE \<le> start + len \<and> page_present c n}" by blast
  then show ?thesis using region_block_add_spec [OF assms] by simp
qed

theorem region_block_add_pages_witness:
  "all_free (snd (region_block_add cfg0 100 20000 bss0)) = {1, 2, 3} \<and>
   all_free (snd (region_block_add cfg1 100 20000 bss0)) = {2, 3}"
proof
  have "{n. 100 \<le> n * PAGE_SIZE \<and> (n + 1) * PAGE_SIZE \<le> 100 + 20000 \<and> nr_to_page cfg0 n \<noteq> None} = {1, 2, 3}"
    by (auto simp: PAGE_SIZE_def PAGE_SHIFT_def nr_to_page_def cfg0_def)
  then show "all_free (snd (region_block_add cfg0 100 20000 bss0)) = {1, 2, 3}"
    using region_block_add_pages [OF bss0_inv(1), of 100 20000 cfg0] bss0_inv(2)
    by (simp add: PAGE_SIZE_def PAGE_SHIFT_def page_limit_def cfg0_def)
  have i: "100 \<le> n * PAGE_SIZE \<and> (n + 1) * PAGE_SIZE \<le> 100 + 20000 \<longleftrightarrow> n = 1 \<or> n = 2 \<or> n = 3" for n
    by (auto simp: PAGE_SIZE_def PAGE_SHIFT_def)
  have "nr_to_page cfg1 1 = None" "nr_to_page cfg1 2 = Some 2" "nr_to_page cfg1 3 = Some 3"
    by (simp_all add: nr_to_page_def cfg1_def)
  then have "{n. 100 \<le> n * PAGE_SIZE \<and> (n + 1) * PAGE_SIZE \<le> 100 + 20000 \<and> nr_to_page cfg1 n \<noteq> None} = {2, 3}"
    unfolding conj_assoc [symmetric] i by auto
  then show "all_free (snd (region_block_add cfg1 100 20000 bss0)) = {2, 3}"
    using region_block_add_pages [OF bss0_inv(1), of 100 20000 cfg1] bss0_inv(2)
    by (simp add: PAGE_SIZE_def PAGE_SHIFT_def page_limit_def)
qed

text \<open>
  the upper half of a split block keeps the type it had (\<open>buddy_division\<close> sets its order only),
  so that it is not recognised as a free buddy: after one allocation and its release both pages
  of a two-page machine are free, but the block of order 1 that could be allocated before cannot
  be allocated any more.
\<close>

theorem split_block_is_not_merged:
  "fst (page_alloc cfg0 1 0 boot2) = Some 0 \<and>
   (let s = page_free cfg0 0 (snd (page_alloc cfg0 0 0 boot2))
    in all_free s = all_free boot2 \<and> fst (page_alloc cfg0 1 0 s) = None)"
proof -
  note a = page_alloc_spec [OF boot2_inv(1) boot2_alloc]
  have "all_free (page_free cfg0 0 used2) = all_free used2 \<union> blk used2 0"
    by (rule free_spec_all_free [OF page_free_spec [of cfg0 used2 "{0}"]]) (use a in simp_all)
  moreover have "all_free used2 \<union> blk used2 0 = all_free boot2"
    using all_free_alloc [OF boot2_inv(1) boot2_alloc] boot2_inv(2) by (auto simp: blk_def used2_def)
  moreover have "fl_list (region_map (page_free cfg0 0 used2) REGION_NORMAL j) = []" if "1 \<le> j" for j
    using that by (simp add: used2_def eval_state eval_free)
  then have "fst (page_alloc cfg0 1 0 (page_free cfg0 0 used2)) = None"
    using page_alloc_none_spec(1) [of cfg0 "page_free cfg0 0 used2" "{}" 1 0] a page_free_spec [of cfg0 used2 "{0}" 0]
    by (simp add: free_spec_def)
  moreover have "fst (page_alloc cfg0 1 0 boot2) = Some 0"
    by (simp add: boot2_eval eval_state eval_alloc)
  ultimately show ?thesis by (simp add: boot2_alloc)
qed

end
