(* ===== verification/Slob.thy ===== *)
theory Slob
  imports Page_Alloc
begin

text \<open>
  The small-object allocator \<^verbatim>\<open>mm/kmalloc/slob.c\<close> on top of the page allocator, with
  \<^verbatim>\<open>krealloc\<close> of \<^verbatim>\<open>mm/kmalloc/kmem.c\<close>.

  An address is a number; the direct mapping is the identity, so the page of an address is its
  quotient by the page size, and a null pointer is \<open>None\<close>. The chunk headers inside the pages
  are a function from addresses to \<open>struct slob_node\<close>, \<open>struct slob_page\<close> a function from page
  numbers. The loops over the chunks of a page do not end when a chunk has size 0, so they are
  partial: \<open>None\<close> is a loop that does not return or an access through a null pointer.
\<close>

section \<open>Data\<close>

text \<open>The list a page is on; \<open>Slob_cache i\<close> is the list \<open>free\<close> of the \<open>i\<close>-th \<open>struct kcache\<close>.\<close>

datatype slob_list = Slob_small | Slob_medium | Slob_large | Slob_cache nat

record slob_node =
  nd_size :: nat
  nd_using :: bool

record slob_page =
  sp_head :: slob_list
  sp_node :: "nat option"
  sp_avail :: nat

record slob_state =
  mm :: mm_state
  sl_nodes :: "nat \<Rightarrow> slob_node"
  sl_pages :: "nat \<Rightarrow> slob_page"
  sl_lists :: "slob_list \<Rightarrow> nat list"

text \<open>A cache line of 64 bytes; the Kconfig defaults of the size classes.\<close>

definition SLOB_ALIGN :: nat where "SLOB_ALIGN = 64"
definition SLOB_OFFSET :: nat where "SLOB_OFFSET = max SLOB_ALIGN 8"
definition SLOB_MEDIUM_LINE :: nat where "SLOB_MEDIUM_LINE = 256"
definition SLOB_HUGE_LINE :: nat where "SLOB_HUGE_LINE = 512"

section \<open>Chunks of a page\<close>

definition slob_node_next :: "(nat \<Rightarrow> slob_node) \<Rightarrow> nat \<Rightarrow> nat" where
  "slob_node_next h n = n + nd_size (h n)"

definition slob_node_last :: "(nat \<Rightarrow> slob_node) \<Rightarrow> nat \<Rightarrow> bool" where
  "slob_node_last h n \<longleftrightarrow> slob_node_next h n mod PAGE_SIZE = 0"

partial_function (option) slob_node_find ::
  "(nat \<Rightarrow> slob_node) \<Rightarrow> nat \<Rightarrow> nat \<Rightarrow> nat \<Rightarrow> nat option \<Rightarrow> (nat \<times> nat \<times> nat option) option option"
where
  "slob_node_find h addr offset node prev =
     (let nextn = slob_node_next h node
      in if node + offset = addr then Some (Some (node, nextn, prev))
         else if addr < node + offset then Some None
         else if slob_node_last h node then Some None
         else slob_node_find h addr offset nextn (Some node))"

text \<open>
  The search loop of \<open>slob_page_alloc\<close>: the chunk, the chunk before it and the padding, which is kept
  in the 16 bits of \<open>slobidx_t\<close>. The chunk is taken at \<open>node + delta\<close>; the code keeps the aligned
  address itself, which is the same for alignments up to \<open>2 ^ 16\<close>, where the padding does not wrap. The
  sizes are at most a page and fit.
\<close>

partial_function (option) slob_fit ::
  "(nat \<Rightarrow> slob_node) \<Rightarrow> nat \<Rightarrow> nat \<Rightarrow> nat \<Rightarrow> nat \<Rightarrow> nat option \<Rightarrow> (nat \<times> nat option \<times> nat) option option"
where
  "slob_fit h sz align offset node prev =
     (let avail = nd_size (h node);
          delta = (if align \<noteq> 0 then (align_high (node + offset) align - offset - node) mod 2 ^ 16 else 0)
      in if \<not> nd_using (h node) \<and> delta + offset + sz \<le> avail then Some (Some (node, prev, delta))
         else if slob_node_last h node then Some None
         else slob_fit h sz align offset (slob_node_next h node) (Some node))"

text \<open>What \<open>slob_page_alloc\<close> does with the chunk found: first the padding, then the tail.\<close>

definition slob_pad ::
  "(nat \<Rightarrow> slob_node) \<Rightarrow> slob_page \<Rightarrow> nat \<Rightarrow> nat option \<Rightarrow> nat \<Rightarrow> nat \<Rightarrow> nat \<Rightarrow> (nat \<Rightarrow> slob_node) \<times> slob_page"
where
  "slob_pad h sp node prev delta offset bsize =
     (if delta \<noteq> 0 then
        let avail = nd_size (h node);
            aligned = node + delta;
            (h1, sp1) =
              (if offset + bsize < delta
               then (h(node := \<lparr>nd_size = delta, nd_using = False\<rparr>), sp)
               else ((case prev of
                        Some q \<Rightarrow> h(q := (h q)\<lparr>nd_size := nd_size (h q) + delta\<rparr>)
                      | None \<Rightarrow> h),
                     sp\<lparr>sp_node := (case prev of Some q \<Rightarrow> sp_node sp | None \<Rightarrow> Some aligned),
                        sp_avail := sp_avail sp - delta\<rparr>))
        in (h1(aligned := (h1 aligned)\<lparr>nd_size := avail - delta\<rparr>), sp1)
      else (h, sp))"

definition slob_take ::
  "(nat \<Rightarrow> slob_node) \<Rightarrow> slob_page \<Rightarrow> nat \<Rightarrow> nat \<Rightarrow> nat \<Rightarrow> nat \<Rightarrow> (nat \<Rightarrow> slob_node) \<times> slob_page"
where
  "slob_take h sp node sz offset bsize =
     (let avail = nd_size (h node);
          used = offset + sz;
          rest = avail - used;
          sp1 = sp\<lparr>sp_avail := sp_avail sp - avail\<rparr>;
          (h1, sp2) =
            (if offset + bsize \<le> rest
             then (h(node := (h node)\<lparr>nd_size := used\<rparr>,
                     node + used := \<lparr>nd_size = rest, nd_using = False\<rparr>),
                   sp1\<lparr>sp_avail := sp_avail sp1 + rest\<rparr>)
             else (h, sp1))
      in (h1(node := (h1 node)\<lparr>nd_using := True\<rparr>), sp2))"

definition slob_page_alloc ::
  "(nat \<Rightarrow> slob_node) \<Rightarrow> slob_page \<Rightarrow> nat \<Rightarrow> nat \<Rightarrow> nat \<Rightarrow> nat \<Rightarrow>
   (nat option \<times> (nat \<Rightarrow> slob_node) \<times> slob_page) option"
where
  "slob_page_alloc h sp sz align offset bsize =
     (case sp_node sp of
        None \<Rightarrow> None
      | Some first \<Rightarrow>
          (case slob_fit h sz align offset first None of
             None \<Rightarrow> None
           | Some None \<Rightarrow> Some (None, h, sp)
           | Some (Some (node, prev, delta)) \<Rightarrow>
               let (h1, sp1) = slob_pad h sp node prev delta offset bsize;
                   (h2, sp2) = slob_take h1 sp1 (node + delta) sz offset bsize
               in Some (Some (node + delta + offset), h2, sp2)))"

text \<open>
  The second half of \<open>slob_page_free\<close> of page \<open>p\<close>: the chunk \<open>node\<close> is merged with the free
  chunks around it, and the first chunk with the padding before it.
\<close>

definition slob_release ::
  "nat \<Rightarrow> (nat \<Rightarrow> slob_node) \<Rightarrow> slob_page \<Rightarrow> nat \<Rightarrow> nat \<Rightarrow> nat \<Rightarrow> nat option \<Rightarrow>
   int \<times> (nat \<Rightarrow> slob_node) \<times> slob_page"
where
  "slob_release p h sp first node nextn prev =
     (let freed = nd_size (h node);
          h1 = (if \<not> slob_node_last h node \<and> \<not> nd_using (h nextn)
                then h(node := (h node)\<lparr>nd_size := nd_size (h node) + nd_size (h nextn)\<rparr>)
                else h);
          h2 = (case prev of
                  Some q \<Rightarrow>
                    if \<not> nd_using (h1 q)
                    then h1(q := (h1 q)\<lparr>nd_size := nd_size (h1 q) + nd_size (h1 node)\<rparr>)
                    else h1
                | None \<Rightarrow> h1);
          pad = (prev = None \<and> first mod PAGE_SIZE \<noteq> 0);
          base = p * PAGE_SIZE;
          node' = (if pad then base else node);
          h3 = (if pad
                then h2(base := (h2 base)\<lparr>nd_size := (first - base) + nd_size (h2 first)\<rparr>)
                else h2);
          freed' = (if pad then freed + (first - base) else freed);
          first' = (if pad then base else first);
          h4 = h3(node' := (h3 node')\<lparr>nd_using := False\<rparr>);
          sp' = sp\<lparr>sp_node := Some first', sp_avail := sp_avail sp + freed'\<rparr>
      in (if slob_node_last h4 first' then 1 else 0, h4, sp'))"

text \<open>
  \<open>dbg\<close> is \<open>CONFIG_DEBUG_SLOB\<close>, without which the result of the search is dereferenced
  unchecked.
\<close>

definition slob_page_free ::
  "bool \<Rightarrow> nat \<Rightarrow> (nat \<Rightarrow> slob_node) \<Rightarrow> slob_page \<Rightarrow> nat \<Rightarrow> nat \<Rightarrow>
   (int \<times> (nat \<Rightarrow> slob_node) \<times> slob_page) option"
where
  "slob_page_free dbg p h sp addr offset =
     (case sp_node sp of
        None \<Rightarrow> None
      | Some first \<Rightarrow>
     (case slob_node_find h addr offset first None of
        None \<Rightarrow> None
      | Some None \<Rightarrow> if dbg then Some (- 1, h, sp) else None
      | Some (Some (node, nextn, prev)) \<Rightarrow>
          if dbg \<and> \<not> nd_using (h node) then Some (- 1, h, sp)
          else Some (slob_release p h sp first node nextn prev)))"

section \<open>Pages\<close>

definition slob_get_page :: "region_config \<Rightarrow> nat \<Rightarrow> gfp \<Rightarrow> slob_state \<Rightarrow> nat option \<times> slob_state" where
  "slob_get_page c k g s =
     (case page_alloc c k g (mm s) of
        (None, m) \<Rightarrow> (None, s\<lparr>mm := m\<rparr>)
      | (Some p, m) \<Rightarrow> (Some p, s\<lparr>mm := set_type p PAGE_SLOB m\<rparr>))"

definition set_list :: "slob_list \<Rightarrow> nat list \<Rightarrow> slob_state \<Rightarrow> slob_state" where
  "set_list l ps s = s\<lparr>sl_lists := (sl_lists s)(l := ps)\<rparr>"

definition set_page :: "nat \<Rightarrow> (nat \<Rightarrow> slob_node) \<Rightarrow> slob_page \<Rightarrow> slob_state \<Rightarrow> slob_state" where
  "set_page p h sp s = s\<lparr>sl_nodes := h, sl_pages := (sl_pages s)(p := sp)\<rparr>"

text \<open>The loop of \<open>slob_alloc_node\<close> over the pages \<open>ps\<close> of list \<open>l\<close>.\<close>

fun slob_try ::
  "slob_list \<Rightarrow> nat \<Rightarrow> nat \<Rightarrow> nat \<Rightarrow> nat \<Rightarrow> nat list \<Rightarrow> slob_state \<Rightarrow> (nat option \<times> slob_state) option"
where
  "slob_try l sz offset align bsize [] s = Some (None, s)"
| "slob_try l sz offset align bsize (p # ps) s =
     (if sp_avail (sl_pages s p) < offset + sz then slob_try l sz offset align bsize ps s
      else case slob_page_alloc (sl_nodes s) (sl_pages s p) sz align offset bsize of
        None \<Rightarrow> None
      | Some (None, h, sp) \<Rightarrow> slob_try l sz offset align bsize ps (set_page p h sp s)
      | Some (Some b, h, sp) \<Rightarrow>
          let s1 = set_page p h sp s
          in Some (Some b,
               if sp_avail sp = 0 then set_list l (remove1 p (sl_lists s1 l)) s1
               else if hd (sl_lists s1 l) \<noteq> p
               then set_list l (p # remove1 p (sl_lists s1 l)) s1
               else s1))"

definition mem_zero :: "nat \<Rightarrow> nat \<Rightarrow> mm_state \<Rightarrow> mm_state" where
  "mem_zero a n m = m\<lparr>bytes := (\<lambda>x. if a \<le> x \<and> x < a + n then 0 else bytes m x)\<rparr>"

text \<open>The end of \<open>slob_alloc_node\<close>: \<open>memset\<close> of a null block is a fault.\<close>

definition slob_zero :: "gfp \<Rightarrow> nat \<Rightarrow> nat option \<times> slob_state \<Rightarrow> (nat option \<times> slob_state) option" where
  "slob_zero g sz r =
     (if g AND GFP_ZERO \<noteq> 0 then
        (case r of (None, s) \<Rightarrow> None | (Some b, s) \<Rightarrow> Some (Some b, s\<lparr>mm := mem_zero b sz (mm s)\<rparr>))
      else Some r)"

definition slob_alloc_node ::
  "region_config \<Rightarrow> slob_list \<Rightarrow> nat \<Rightarrow> nat \<Rightarrow> nat \<Rightarrow> nat \<Rightarrow> gfp \<Rightarrow> slob_state \<Rightarrow>
   (nat option \<times> slob_state) option"
where
  "slob_alloc_node c l sz offset align bsize g s =
     (case slob_try l sz offset align bsize (sl_lists s l) s of
        None \<Rightarrow> None
      | Some (Some b, s1) \<Rightarrow> slob_zero g sz (Some b, s1)
      | Some (None, s1) \<Rightarrow>
          (case slob_get_page c 0 (g AND NOT GFP_ZERO) s1 of
             (None, s2) \<Rightarrow> Some (None, s2)
           | (Some p, s2) \<Rightarrow>
               let first = p * PAGE_SIZE;
                   sp = \<lparr>sp_head = l, sp_node = Some first, sp_avail = PAGE_SIZE\<rparr>;
                   h = (sl_nodes s2)(first := \<lparr>nd_size = PAGE_SIZE, nd_using = False\<rparr>);
                   s3 = set_list l (p # sl_lists s2 l) (set_page p h sp s2)
               in case slob_page_alloc h sp sz align offset bsize of
                    None \<Rightarrow> None
                  | Some (r, h', sp') \<Rightarrow> slob_zero g sz (r, set_page p h' sp' s3)))"

definition slob_alloc ::
  "region_config \<Rightarrow> nat \<Rightarrow> gfp \<Rightarrow> nat \<Rightarrow> slob_state \<Rightarrow> (nat option \<times> slob_state) option"
where
  "slob_alloc c sz g align s =
     (if sz = 0 then Some (None, s)
      else
        let align' = max (align_high align SLOB_ALIGN) SLOB_ALIGN;
            sz' = align_high sz align';
            (l, bsize) = (if sz' < SLOB_MEDIUM_LINE then (Slob_small, SLOB_ALIGN)
                          else if sz' < SLOB_HUGE_LINE then (Slob_medium, SLOB_MEDIUM_LINE)
                          else (Slob_large, SLOB_HUGE_LINE))
        in slob_alloc_node c l sz' SLOB_OFFSET align' bsize g s)"

definition slob_free :: "region_config \<Rightarrow> bool \<Rightarrow> nat \<Rightarrow> slob_state \<Rightarrow> slob_state option" where
  "slob_free c dbg addr s =
     (let p = addr div PAGE_SIZE; sp = sl_pages s p
      in if pg_type (page_map (mm s) p) \<noteq> PAGE_SLOB then Some s
         else if sp_node sp = None then Some (s\<lparr>mm := page_free c p (mm s)\<rparr>)
         else case slob_page_free dbg p (sl_nodes s) sp addr SLOB_ALIGN of
           None \<Rightarrow> None
         | Some (ret, h, sp') \<Rightarrow>
             let s1 = set_page p h sp' s; l = sp_head sp'; on = (p \<in> set (sl_lists s1 l))
             in if ret < 0 then Some s1
                else if ret \<noteq> 0 then
                  (if dbg \<and> sp_avail sp' \<noteq> PAGE_SIZE then Some s1
                   else let s2 = (if on then set_list l (remove1 p (sl_lists s1 l)) s1 else s1)
                        in Some (s2\<lparr>mm := page_free c p (mm s2)\<rparr>))
                else Some (if \<not> on then set_list l (p # sl_lists s1 l) s1 else s1))"

section \<open>The front end\<close>

fun order_of_pages :: "nat \<Rightarrow> nat" where
  "order_of_pages n = (if n = 0 then 0 else Suc (order_of_pages (n div 2)))"

declare order_of_pages.simps [simp del]

text \<open>\<open>fls\<close> of the page number of the last byte, 0 for a size up to a page.\<close>

definition size_to_order :: "nat \<Rightarrow> nat" where
  "size_to_order n = order_of_pages ((n - 1) div PAGE_SIZE)"

definition kmalloc_large ::
  "region_config \<Rightarrow> nat \<Rightarrow> gfp \<Rightarrow> nat \<Rightarrow> slob_state \<Rightarrow> nat option \<times> slob_state"
where
  "kmalloc_large c sz g align s =
     (case slob_get_page c (size_to_order (max sz align)) g s of
        (None, s1) \<Rightarrow> (None, s1)
      | (Some p, s1) \<Rightarrow>
          (Some p, s1\<lparr>sl_pages := (sl_pages s1)(p := (sl_pages s1 p)\<lparr>sp_node := None\<rparr>)\<rparr>))"

definition kmalloc_align ::
  "region_config \<Rightarrow> nat \<Rightarrow> gfp \<Rightarrow> nat \<Rightarrow> slob_state \<Rightarrow> (nat option \<times> slob_state) option"
where
  "kmalloc_align c sz g align s =
     (if sz \<le> PAGE_SIZE - SLOB_ALIGN \<and> align \<le> PAGE_SIZE div 2 then slob_alloc c sz g align s
      else case kmalloc_large c sz g align s of
             (None, s1) \<Rightarrow> Some (None, s1)
           | (Some p, s1) \<Rightarrow> Some (Some (p * PAGE_SIZE), s1))"

definition kmalloc :: "region_config \<Rightarrow> nat \<Rightarrow> gfp \<Rightarrow> slob_state \<Rightarrow> (nat option \<times> slob_state) option" where
  "kmalloc c sz g s = kmalloc_align c sz g 0 s"

definition kfree :: "region_config \<Rightarrow> bool \<Rightarrow> nat option \<Rightarrow> slob_state \<Rightarrow> slob_state option" where
  "kfree c dbg b s = (case b of None \<Rightarrow> Some s | Some addr \<Rightarrow> slob_free c dbg addr s)"

definition ksize :: "nat option \<Rightarrow> slob_state \<Rightarrow> nat option" where
  "ksize b s =
     (case b of
        None \<Rightarrow> Some 0
      | Some addr \<Rightarrow>
          let p = addr div PAGE_SIZE; pg = page_map (mm s) p
          in if pg_type pg \<noteq> PAGE_SLOB then Some 0
             else case sp_node (sl_pages s p) of
                None \<Rightarrow> Some (PAGE_SIZE * 2 ^ pg_order pg)
              | Some first \<Rightarrow>
                  (case slob_node_find (sl_nodes s) addr SLOB_OFFSET first None of
                     None \<Rightarrow> None
                   | Some None \<Rightarrow> Some 0
                   | Some (Some (node, _)) \<Rightarrow> Some (nd_size (sl_nodes s node) - SLOB_OFFSET)))"

text \<open>\<open>memcpy\<close> of \<open>n\<close> bytes.\<close>

definition mem_copy :: "nat \<Rightarrow> nat \<Rightarrow> nat \<Rightarrow> mm_state \<Rightarrow> mm_state" where
  "mem_copy dst src n m =
     m\<lparr>bytes := (\<lambda>x. if dst \<le> x \<and> x < dst + n then bytes m (src + (x - dst)) else bytes m x)\<rparr>"

definition krealloc ::
  "region_config \<Rightarrow> bool \<Rightarrow> nat option \<Rightarrow> nat \<Rightarrow> gfp \<Rightarrow> slob_state \<Rightarrow> (nat option \<times> slob_state) option"
where
  "krealloc c dbg b resize g s =
     (if resize = 0 then map_option (Pair None) (kfree c dbg b s)
      else case ksize b s of
        None \<Rightarrow> None
      | Some origin \<Rightarrow>
          if resize \<le> origin then Some (b, s)
          else case kmalloc c resize g s of
            None \<Rightarrow> None
          | Some (None, s1) \<Rightarrow> Some (None, s1)
          | Some (Some nb, s1) \<Rightarrow>
              (case b of
                 None \<Rightarrow> Some (Some nb, s1)
               | Some addr \<Rightarrow>
                   map_option (Pair (Some nb))
                     (kfree c dbg b (s1\<lparr>mm := mem_copy nb addr origin (mm s1)\<rparr>))))"

text \<open>Caches: \<open>i\<close> is the cache, with its \<open>objsize\<close> and \<open>align\<close>.\<close>

definition kcache_alloc ::
  "region_config \<Rightarrow> nat \<Rightarrow> nat \<Rightarrow> nat \<Rightarrow> gfp \<Rightarrow> slob_state \<Rightarrow> (nat option \<times> slob_state) option"
where
  "kcache_alloc c i objsize align g s =
     (if PAGE_SIZE \<le> objsize then
        (case kmalloc_large c objsize g align s of
           (None, s1) \<Rightarrow> None
         | (Some p, s1) \<Rightarrow>
             Some (Some (p * PAGE_SIZE), set_list (Slob_cache i) (sl_lists s1 (Slob_cache i) @ [p]) s1))
      else slob_alloc_node c (Slob_cache i) objsize SLOB_ALIGN align objsize g s)"

fun kcache_release_loop :: "region_config \<Rightarrow> nat list \<Rightarrow> mm_state \<Rightarrow> mm_state" where
  "kcache_release_loop c [] m = m"
| "kcache_release_loop c (p # ps) m = kcache_release_loop c ps (page_free c p m)"

definition kcache_release :: "region_config \<Rightarrow> nat \<Rightarrow> slob_state \<Rightarrow> slob_state" where
  "kcache_release c i s =
     set_list (Slob_cache i) []
       (s\<lparr>mm := kcache_release_loop c (sl_lists s (Slob_cache i)) (mm s)\<rparr>)"

section \<open>The chunks of a page as a list\<close>

fun segs :: "(nat \<Rightarrow> slob_node) \<Rightarrow> nat \<Rightarrow> (nat \<times> bool) list \<Rightarrow> bool" where
  "segs h p [] \<longleftrightarrow> True"
| "segs h p ((n, u) # xs) \<longleftrightarrow> h p = \<lparr>nd_size = n, nd_using = u\<rparr> \<and> segs h (p + n) xs"

fun seg_sum :: "(nat \<times> bool) list \<Rightarrow> nat" where
  "seg_sum [] = 0"
| "seg_sum (x # xs) = fst x + seg_sum xs"

fun seg_free :: "(nat \<times> bool) list \<Rightarrow> nat" where
  "seg_free [] = 0"
| "seg_free (x # xs) = (if snd x then 0 else fst x) + seg_free xs"

text \<open>The chunks in use: their addresses and sizes.\<close>

fun seg_live :: "nat \<Rightarrow> (nat \<times> bool) list \<Rightarrow> nat \<rightharpoonup> nat" where
  "seg_live p [] = Map.empty"
| "seg_live p ((n, u) # xs) = (if u then (seg_live (p + n) xs)(p \<mapsto> n) else seg_live (p + n) xs)"

abbreviation seg_pos :: "(nat \<times> bool) list \<Rightarrow> bool" where
  "seg_pos xs \<equiv> \<forall>x \<in> set xs. 0 < fst x"

abbreviation no_adj :: "(nat \<times> bool) list \<Rightarrow> bool" where
  "no_adj \<equiv> successively (\<lambda>x y. snd x \<or> snd y)"

definition before :: "nat \<Rightarrow> (nat \<times> bool) list \<Rightarrow> nat option \<Rightarrow> nat option" where
  "before p as prev = (if as = [] then prev else Some (p + seg_sum (butlast as)))"

lemma slob_node_fields [simp]:
  "(r :: slob_node)\<lparr>nd_size := n, nd_using := u\<rparr> = \<lparr>nd_size = n, nd_using = u\<rparr>"
  by (cases r) simp

lemma seg_sum_append [simp]: "seg_sum (xs @ ys) = seg_sum xs + seg_sum ys"
  by (induction xs) simp_all

lemma seg_free_append [simp]: "seg_free (xs @ ys) = seg_free xs + seg_free ys"
  by (induction xs) simp_all

lemma segs_append [simp]: "segs h p (xs @ ys) \<longleftrightarrow> segs h p xs \<and> segs h (p + seg_sum xs) ys"
  by (induction xs arbitrary: p) (auto simp: add.assoc)

lemma seg_live_append: "seg_live p (xs @ ys) = seg_live (p + seg_sum xs) ys ++ seg_live p xs"
  by (induction xs arbitrary: p) (auto simp: add.assoc)

lemma segs_frame:
  "segs h p xs \<Longrightarrow> seg_pos xs \<Longrightarrow> (\<And>q. p \<le> q \<Longrightarrow> q < p + seg_sum xs \<Longrightarrow> h' q = h q) \<Longrightarrow> segs h' p xs"
proof (induction xs arbitrary: p)
  case (Cons x xs)
  obtain n u where x: "x = (n, u)" by fastforce
  have n: "0 < n" using Cons.prems(2) x by simp
  then have "h' p = h p" by (intro Cons.prems(3)) (simp_all add: x)
  moreover have "segs h' (p + n) xs"
    by (rule Cons.IH) (use Cons.prems x in auto)
  ultimately show ?case using Cons.prems(1) x by simp
qed simp

lemma seg_live_bounds:
  "seg_live p xs q = Some n \<Longrightarrow> p \<le> q \<and> q + n \<le> p + seg_sum xs \<and> (seg_pos xs \<longrightarrow> 0 < n)"
proof (induction xs arbitrary: p)
  case (Cons x xs)
  then show ?case by (cases x) (fastforce split: if_splits)
qed simp

lemma seg_live_disjoint:
  "seg_live p xs q = Some n \<Longrightarrow> seg_live p xs r = Some m \<Longrightarrow> q \<noteq> r \<Longrightarrow> q + n \<le> r \<or> r + m \<le> q"
proof (induction xs arbitrary: p)
  case (Cons x xs)
  obtain k u where x: "x = (k, u)" by fastforce
  show ?case
    using Cons seg_live_bounds [of "p + k" xs q n] seg_live_bounds [of "p + k" xs r m]
    by (fastforce simp: x split: if_splits)
qed simp

lemma seg_live_same_dom:
  "seg_pos xs \<Longrightarrow> seg_pos ys \<Longrightarrow> p + seg_sum xs \<le> q \<Longrightarrow>
   dom (seg_live p xs) \<inter> dom (seg_live q ys) = {}"
  using seg_live_bounds [of p xs] seg_live_bounds [of q ys] by (fastforce simp: dom_def)

lemma seg_free_le: "seg_free xs \<le> seg_sum xs"
  by (induction xs) auto

lemma segs_split:
  "segs h p xs \<Longrightarrow> seg_live p xs q = Some n \<Longrightarrow>
   \<exists>as bs. xs = as @ (n, True) # bs \<and> q = p + seg_sum as"
proof (induction xs arbitrary: p)
  case (Cons x xs)
  obtain k u where x: "x = (k, u)" by fastforce
  show ?case
  proof (cases "u \<and> q = p")
    case True
    then have "x # xs = [] @ (n, True) # xs \<and> q = p + seg_sum []" using Cons.prems x by simp
    then show ?thesis by blast
  next
    case False
    then have "seg_live (p + k) xs q = Some n" using Cons.prems x by (auto split: if_splits)
    then obtain as bs where "xs = as @ (n, True) # bs \<and> q = p + k + seg_sum as"
      using Cons x by fastforce
    then have "x # xs = (x # as) @ (n, True) # bs \<and> q = p + seg_sum (x # as)" using x by simp
    then show ?thesis by blast
  qed
qed simp

section \<open>The loops over the chunks\<close>

definition slob_delta :: "nat \<Rightarrow> nat \<Rightarrow> nat \<Rightarrow> nat" where
  "slob_delta align offset node =
     (if align \<noteq> 0 then (align_high (node + offset) align - offset - node) mod 2 ^ 16 else 0)"

lemma slob_last_iff:
  assumes "segs h p ((n, u) # xs)" "seg_pos ((n, u) # xs)" "p + seg_sum ((n, u) # xs) = Suc pg * PAGE_SIZE"
    "pg * PAGE_SIZE \<le> p"
  shows "slob_node_last h p \<longleftrightarrow> xs = []"
proof -
  have nx: "slob_node_next h p = p + n" using assms(1) by (simp add: slob_node_next_def)
  show ?thesis
  proof (cases xs)
    case Nil
    then show ?thesis using assms(3) nx by (simp add: slob_node_last_def)
  next
    case (Cons y ys)
    then have "0 < fst y" using assms(2) by simp
    then have lt: "p + n < Suc pg * PAGE_SIZE" "pg * PAGE_SIZE < p + n"
      using assms(2,3,4) Cons by auto
    then obtain d where d: "p + n = d + pg * PAGE_SIZE" by (metis add.commute less_imp_add_positive)
    with lt have "0 < d" "d < PAGE_SIZE" by simp_all
    then have "(d + pg * PAGE_SIZE) mod PAGE_SIZE \<noteq> 0" by simp
    then show ?thesis using Cons by (simp add: slob_node_last_def nx d)
  qed
qed

lemma slob_fit_segs:
  assumes "segs h p xs" "xs \<noteq> []" "seg_pos xs" "p + seg_sum xs = Suc pg * PAGE_SIZE" "pg * PAGE_SIZE \<le> p"
  shows "\<exists>r. slob_fit h sz align offset p prev = Some r \<and>
    (case r of
       None \<Rightarrow> \<forall>as n bs. xs = as @ (n, False) # bs \<longrightarrow>
                 n < slob_delta align offset (p + seg_sum as) + offset + sz
     | Some (node, q, delta) \<Rightarrow>
         \<exists>as n bs. xs = as @ (n, False) # bs \<and> node = p + seg_sum as \<and> q = before p as prev \<and>
           delta = slob_delta align offset node \<and> delta + offset + sz \<le> n)"
  using assms
proof (induction xs arbitrary: p prev)
  case (Cons x xs)
  obtain n u where x: "x = (n, u)" by fastforce
  have hp: "nd_size (h p) = n" "nd_using (h p) = u" using Cons.prems(1) x by simp_all
  have last: "slob_node_last h p \<longleftrightarrow> xs = []"
    using slob_last_iff [of h p n u xs pg] Cons.prems x by simp
  let ?d = "slob_delta align offset p"
  have unf: "slob_fit h sz align offset p prev =
     (if \<not> u \<and> ?d + offset + sz \<le> n then Some (Some (p, prev, ?d))
      else if xs = [] then Some None else slob_fit h sz align offset (p + n) (Some p))"
    by (subst slob_fit.simps) (simp add: hp last slob_delta_def slob_node_next_def)
  show ?case
  proof (cases "\<not> u \<and> ?d + offset + sz \<le> n")
    case True
    then have "x # xs = [] @ (n, False) # xs" using x by simp
    then show ?thesis unfolding unf using True by (fastforce simp: before_def)
  next
    case no: False
    show ?thesis
    proof (cases "xs = []")
      case True
      then show ?thesis unfolding unf using no x by (auto simp: Cons_eq_append_conv)
    next
      case False
      obtain r where r: "slob_fit h sz align offset (p + n) (Some p) = Some r"
        and sp: "case r of
       None \<Rightarrow> \<forall>as n' bs. xs = as @ (n', False) # bs \<longrightarrow>
                 n' < slob_delta align offset (p + n + seg_sum as) + offset + sz
     | Some (node, q, delta) \<Rightarrow>
         \<exists>as n' bs. xs = as @ (n', False) # bs \<and> node = p + n + seg_sum as \<and>
           q = before (p + n) as (Some p) \<and>
           delta = slob_delta align offset node \<and> delta + offset + sz \<le> n'"
        using Cons.IH [of "p + n" "Some p"] Cons.prems x False by auto
      show ?thesis
      proof (cases r)
        case None
        then have "\<forall>as n' bs. x # xs = as @ (n', False) # bs \<longrightarrow>
                 n' < slob_delta align offset (p + seg_sum as) + offset + sz"
          using sp no x by (auto simp: Cons_eq_append_conv add.assoc)
        then show ?thesis unfolding unf if_not_P [OF no] if_not_P [OF False] using r None by simp
      next
        case (Some t)
        obtain node q delta where t: "t = (node, q, delta)" by (cases t) auto
        obtain as n' bs where "xs = as @ (n', False) # bs" "node = p + n + seg_sum as"
          "q = before (p + n) as (Some p)" "delta = slob_delta align offset node"
          "delta + offset + sz \<le> n'"
          using sp Some t by auto
        then have "x # xs = (x # as) @ (n', False) # bs \<and> node = p + seg_sum (x # as) \<and>
          q = before p (x # as) prev \<and> delta = slob_delta align offset node \<and> delta + offset + sz \<le> n'"
          using x by (auto simp: before_def)
        then have "\<exists>as n' bs. x # xs = as @ (n', False) # bs \<and> node = p + seg_sum as \<and>
          q = before p as prev \<and> delta = slob_delta align offset node \<and> delta + offset + sz \<le> n'"
          by blast
        then show ?thesis unfolding unf if_not_P [OF no] if_not_P [OF False] using r Some t by simp
      qed
    qed
  qed
qed simp

lemma slob_find_segs:
  assumes "segs h p (as @ (n, u) # bs)" "seg_pos (as @ (n, u) # bs)"
    "p + seg_sum (as @ (n, u) # bs) = Suc pg * PAGE_SIZE" "pg * PAGE_SIZE \<le> p"
  shows "slob_node_find h (p + seg_sum as + offset) offset p prev =
    Some (Some (p + seg_sum as, p + seg_sum as + n, before p as prev))"
  using assms
proof (induction as arbitrary: p prev)
  case Nil
  then show ?case by (subst slob_node_find.simps) (simp add: before_def slob_node_next_def)
next
  case (Cons x as)
  obtain k v where x: "x = (k, v)" by fastforce
  have "slob_node_last h p \<longleftrightarrow> as @ (n, u) # bs = []"
    using slob_last_iff [of h p k v "as @ (n, u) # bs" pg] Cons.prems x by simp
  then have nl: "\<not> slob_node_last h p" by simp
  have k: "0 < k" using Cons.prems(2) x by simp
  have nx: "slob_node_next h p = p + k" using Cons.prems(1) x by (simp add: slob_node_next_def)
  have "slob_node_find h (p + k + seg_sum as + offset) offset (p + k) (Some p) =
    Some (Some (p + k + seg_sum as, p + k + seg_sum as + n, before (p + k) as (Some p)))"
    by (rule Cons.IH) (use Cons.prems x in auto)
  then show ?case
    by (subst slob_node_find.simps) (use nl k in \<open>auto simp: nx x before_def add.assoc\<close>)
qed

section \<open>The invariant of a page\<close>

definition chunks :: "nat \<Rightarrow> (nat \<Rightarrow> slob_node) \<Rightarrow> slob_page \<Rightarrow> nat \<Rightarrow> (nat \<times> bool) list \<Rightarrow> bool" where
  "chunks pg h sp first xs \<longleftrightarrow>
     sp_node sp = Some first \<and> pg * PAGE_SIZE \<le> first \<and> first + seg_sum xs = Suc pg * PAGE_SIZE \<and>
     segs h first xs \<and> seg_pos xs \<and> sp_avail sp = seg_free xs"

definition page_ok :: "nat \<Rightarrow> (nat \<Rightarrow> slob_node) \<Rightarrow> slob_page \<Rightarrow> (nat \<rightharpoonup> nat) \<Rightarrow> bool" where
  "page_ok pg h sp L \<longleftrightarrow>
     (\<exists>first xs. chunks pg h sp first xs \<and> xs \<noteq> [] \<and> no_adj xs \<and>
        (first \<noteq> pg * PAGE_SIZE \<longrightarrow> snd (hd xs)) \<and> L = seg_live first xs)"

text \<open>
  Between padding and taking, the header of the chunk being allocated has its size only.
\<close>

definition hole ::
  "nat \<Rightarrow> (nat \<Rightarrow> slob_node) \<Rightarrow> slob_page \<Rightarrow> nat \<Rightarrow> (nat \<times> bool) list \<Rightarrow> nat \<Rightarrow> (nat \<times> bool) list \<Rightarrow> bool"
where
  "hole pg h sp first as n bs \<longleftrightarrow>
     sp_node sp = Some first \<and> pg * PAGE_SIZE \<le> first \<and>
     first + seg_sum as + n + seg_sum bs = Suc pg * PAGE_SIZE \<and>
     segs h first as \<and> nd_size (h (first + seg_sum as)) = n \<and> segs h (first + seg_sum as + n) bs \<and>
     seg_pos as \<and> seg_pos bs \<and> 0 < n \<and> sp_avail sp = seg_free as + n + seg_free bs"

lemma chunks_hole: "chunks pg h sp first (as @ (n, False) # bs) \<Longrightarrow> hole pg h sp first as n bs"
  by (auto simp: chunks_def hole_def)

lemma holeI:
  assumes "hole pg h sp first as n bs" "sp_node sp' = Some first'" "pg * PAGE_SIZE \<le> first'"
    "first' + seg_sum as' = first + seg_sum as + d" "d < n" "segs h' first' as'" "seg_pos as'"
    "nd_size (h' (first' + seg_sum as')) = n - d" "sp_avail sp' = seg_free as' + (n - d) + seg_free bs"
    "\<forall>q \<ge> first + seg_sum as + n. h' q = h q"
  shows "hole pg h' sp' first' as' (n - d) bs"
proof -
  have "segs h' (first + seg_sum as + n) bs"
    by (rule segs_frame [of h]) (use assms(1,10) in \<open>auto simp: hole_def\<close>)
  moreover have "first' + seg_sum as' + (n - d) = first + seg_sum as + n" using assms(4,5) by simp
  ultimately show ?thesis using assms by (simp add: hole_def add.assoc)
qed

lemma slob_take_hole:
  assumes c: "hole pg h sp first as n bs" and node: "node = first + seg_sum as"
    and n: "offset + sz \<le> n" and pos: "0 < offset"
    and res: "slob_take h sp node sz offset bsize = (h', sp')"
  shows "\<exists>post m. chunks pg h' sp' first (as @ post @ bs) \<and>
     post = (m, True) # (if m = n then [] else [(n - m, False)]) \<and> offset + sz \<le> m \<and> m \<le> n \<and>
     sp_head sp' = sp_head sp \<and>
     (\<forall>q. q < node \<or> node + n \<le> q \<longrightarrow> h' q = h q)"
proof -
  note c = c [unfolded hole_def]
  have hn: "nd_size (h node) = n" and n0: "0 < n" using c node by auto
  have av: "sp_avail sp = seg_free as + n + seg_free bs" using c by simp
  have sa: "segs h first as" "segs h (node + n) bs" and sp: "seg_pos as" "seg_pos bs" using c node by auto
  let ?used = "offset + sz"
  have frame: "chunks pg h' sp' first (as @ post @ bs)"
    if "segs h' node post" "seg_pos post" "seg_sum post = n" "sp_node sp' = sp_node sp"
      "sp_avail sp' = seg_free (as @ post @ bs)"
      "\<forall>q. q < node \<or> node + n \<le> q \<longrightarrow> h' q = h q" for post
  proof -
    have "segs h' first as"
      by (rule segs_frame [OF sa(1) sp(1)]) (use that node in simp)
    moreover have "segs h' (node + n) bs"
      by (rule segs_frame [OF sa(2) sp(2)]) (use that in simp)
    ultimately show ?thesis
      using that c sp node unfolding chunks_def by (auto simp: add.assoc)
  qed
  show ?thesis
  proof (cases "offset + bsize \<le> n - ?used")
    case True
    then have lt: "?used < n" using pos by simp
    have h': "h' = (h(node := \<lparr>nd_size = ?used, nd_using = True\<rparr>, node + ?used := \<lparr>nd_size = n - ?used, nd_using = False\<rparr>))"
      and sp': "sp' = sp\<lparr>sp_avail := sp_avail sp - n + (n - ?used)\<rparr>"
      using res True hn pos by (auto simp: slob_take_def Let_def)
    let ?post = "[(?used, True), (n - ?used, False)]"
    have "chunks pg h' sp' first (as @ ?post @ bs)"
      by (rule frame) (use lt pos av in \<open>auto simp: h' sp'\<close>)
    moreover have "\<forall>q. q < node \<or> node + n \<le> q \<longrightarrow> h' q = h q" using lt pos by (auto simp: h')
    ultimately show ?thesis
      using lt by (intro exI [of _ ?post] exI [of _ ?used]) (simp add: sp')
  next
    case False
    have h': "h' = h(node := \<lparr>nd_size = n, nd_using = True\<rparr>)"
      and sp': "sp' = sp\<lparr>sp_avail := sp_avail sp - n\<rparr>"
      using res False hn by (auto simp: slob_take_def Let_def)
    have "chunks pg h' sp' first (as @ [(n, True)] @ bs)"
      by (rule frame) (use n0 av in \<open>auto simp: h' sp'\<close>)
    moreover have "\<forall>q. q < node \<or> node + n \<le> q \<longrightarrow> h' q = h q" using n0 by (auto simp: h')
    ultimately show ?thesis
      using n by (intro exI [of _ "[(n, True)]"] exI [of _ n]) (simp add: sp')
  qed
qed

definition live_extends :: "(nat \<rightharpoonup> nat) \<Rightarrow> (nat \<rightharpoonup> nat) \<Rightarrow> bool" where
  "live_extends L L' \<longleftrightarrow> dom L \<subseteq> dom L' \<and> (\<forall>q m m'. L q = Some m \<longrightarrow> L' q = Some m' \<longrightarrow> m \<le> m')"

lemma slob_pad_hole:
  assumes c: "hole pg h sp first as n bs" and node: "node = first + seg_sum as"
    and adj: "no_adj as" "as \<noteq> [] \<longrightarrow> snd (last as)" and d: "delta < n"
    and fst: "first \<noteq> pg * PAGE_SIZE \<longrightarrow> as \<noteq> [] \<and> snd (hd as)"
    and res: "slob_pad h sp node (before first as None) delta offset bsize = (h', sp')"
  shows "\<exists>first' as'. hole pg h' sp' first' as' (n - delta) bs \<and>
     node + delta = first' + seg_sum as' \<and> no_adj as' \<and>
     (first' \<noteq> pg * PAGE_SIZE \<longrightarrow> as' = [] \<or> snd (hd as')) \<and>
     sp_head sp' = sp_head sp \<and> dom (seg_live first' as') = dom (seg_live first as) \<and>
     live_extends (seg_live first as) (seg_live first' as') \<and>
     (\<forall>q. q < pg * PAGE_SIZE \<or> Suc pg * PAGE_SIZE \<le> q \<longrightarrow> h' q = h q)"
proof -
  note cd = c [unfolded hole_def]
  have hn: "nd_size (h node) = n" using cd node by auto
  have inpg: "pg * PAGE_SIZE \<le> node" "node + n \<le> Suc pg * PAGE_SIZE" using cd node by auto
  have pos: "seg_pos as" and sas: "segs h first as" using cd node by auto
  have av: "sp_avail sp = seg_free as + n + seg_free bs" using cd by simp
  consider "delta = 0" | "delta \<noteq> 0" "offset + bsize < delta"
    | "delta \<noteq> 0" "\<not> offset + bsize < delta" "as = []"
    | "delta \<noteq> 0" "\<not> offset + bsize < delta" "as \<noteq> []" by blast
  then show ?thesis
  proof cases
    case 1
    then have "h' = h" "sp' = sp" using res by (simp_all add: slob_pad_def)
    then show ?thesis using 1 c adj node fst
      by (intro exI [of _ first] exI [of _ as]) (simp add: live_extends_def)
  next
    case 2
    have h': "h' = h(node := \<lparr>nd_size = delta, nd_using = False\<rparr>,
        node + delta := (h (node + delta))\<lparr>nd_size := n - delta\<rparr>)" and sp': "sp' = sp"
      using res 2 hn by (auto simp: slob_pad_def Let_def)
    have sa: "segs h' first as"
      by (rule segs_frame [OF sas pos]) (use node in \<open>auto simp: h'\<close>)
    have "hole pg h' sp' first (as @ [(delta, False)]) (n - delta) bs"
      by (rule holeI [OF c]) (use cd 2 d pos sa node in \<open>auto simp: sp' h'\<close>)
    moreover have "no_adj (as @ [(delta, False)])"
      using adj by (auto simp: successively_append_iff)
    ultimately show ?thesis
      using 2 d node fst inpg
      by (intro exI [of _ first] exI [of _ "as @ [(delta, False)]"])
        (auto simp: sp' h' seg_live_append live_extends_def)
  next
    case 3
    have h': "h' = h(node + delta := (h (node + delta))\<lparr>nd_size := n - delta\<rparr>)"
      and sp': "sp' = sp\<lparr>sp_node := Some (node + delta), sp_avail := sp_avail sp - delta\<rparr>"
      using res 3 hn by (auto simp: slob_pad_def Let_def before_def)
    have "hole pg h' sp' (node + delta) [] (n - delta) bs"
      by (rule holeI [OF c]) (use cd 3 d node in \<open>auto simp: sp' h'\<close>)
    then show ?thesis
      using 3 d node inpg
      by (intro exI [of _ "node + delta"] exI [of _ "[]"]) (auto simp: sp' h' live_extends_def)
  next
    case 4
    obtain cs m where as: "as = cs @ [(m, True)]"
      using adj(2) 4(3) by (metis append_butlast_last_id prod.collapse)
    let ?q = "first + seg_sum cs" and ?as = "cs @ [(m + delta, True)]"
    have hq: "h ?q = \<lparr>nd_size = m, nd_using = True\<rparr>" and m: "0 < m" using sas pos as by auto
    have ne: "?q \<noteq> node" "?q < node" using node as m by auto
    have h': "h' = h(?q := \<lparr>nd_size = m + delta, nd_using = True\<rparr>,
        node + delta := (h (node + delta))\<lparr>nd_size := n - delta\<rparr>)"
      and sp': "sp' = sp\<lparr>sp_avail := sp_avail sp - delta\<rparr>"
      using res 4 hn ne hq as d cd by (auto simp: slob_pad_def Let_def before_def)
    have "segs h' first cs"
      by (rule segs_frame [of h]) (use sas pos as node in \<open>auto simp: h'\<close>)
    then have sa: "segs h' first ?as" using ne by (auto simp: h')
    have "hole pg h' sp' first ?as (n - delta) bs"
      by (rule holeI [OF c]) (use cd 4 d pos sa node as in \<open>auto simp: sp' h'\<close>)
    moreover have "no_adj ?as" using adj(1) as by (auto simp: successively_append_iff)
    moreover have "dom (seg_live first ?as) = dom (seg_live first as)"
      by (simp add: as seg_live_append)
    moreover have "live_extends (seg_live first as) (seg_live first ?as)"
      by (auto simp: as seg_live_append live_extends_def map_add_def split: option.splits if_splits)
    moreover have "first \<noteq> pg * PAGE_SIZE \<longrightarrow> snd (hd ?as)" using fst as by (cases cs) auto
    ultimately show ?thesis
      using 4 d node inpg as ne cd
      by (intro exI [of _ first] exI [of _ ?as]) (auto simp: sp' h')
  qed
qed


lemma successively_mid:
  "no_adj (as @ x # bs) \<Longrightarrow> no_adj as \<and> no_adj bs \<and> (as \<noteq> [] \<longrightarrow> snd (last as) \<or> snd x) \<and>
     (bs \<noteq> [] \<longrightarrow> snd x \<or> snd (hd bs))"
  by (auto simp: successively_append_iff successively_Cons)

text \<open>The alignment that the masks and the 16 bits of the padding meet, or 0.\<close>

definition slob_keeps :: "nat \<Rightarrow> nat" where
  "slob_keeps align = (if \<exists>k \<le> 16. align = 2 ^ k then align else 0)"

text \<open>
  What \<open>slob_page_alloc\<close> does to a page: it fails when no free chunk is large enough, and
  otherwise takes a chunk that was free; no other chunk in use moves or shrinks.
\<close>

definition page_alloc_post ::
  "nat \<Rightarrow> (nat \<Rightarrow> slob_node) \<Rightarrow> slob_page \<Rightarrow> (nat \<rightharpoonup> nat) \<Rightarrow> nat \<Rightarrow> nat \<Rightarrow> nat \<Rightarrow> nat \<Rightarrow>
   (nat \<Rightarrow> slob_node) \<Rightarrow> slob_page \<Rightarrow> bool"
where
  "page_alloc_post pg h sp L node sz align offset h' sp' \<longleftrightarrow>
     (\<exists>L' n. page_ok pg h' sp' L' \<and> L' node = Some n \<and> L node = None \<and> offset + sz \<le> n \<and>
        dom L' = insert node (dom L) \<and> live_extends L L' \<and> sp_head sp' = sp_head sp \<and>
        (slob_keeps align \<noteq> 0 \<longrightarrow> slob_keeps align dvd node + offset) \<and>
        (\<forall>q. q < pg * PAGE_SIZE \<or> Suc pg * PAGE_SIZE \<le> q \<longrightarrow> h' q = h q))"

lemma slob_delta_small:
  assumes "0 < align" "align \<le> 2 ^ 16"
  shows "node + slob_delta align offset node + offset = align_high (node + offset) align"
proof -
  have "node + offset \<le> align_high (node + offset) align" by (rule align_high_ge)
  moreover have "align_high (node + offset) align < node + offset + align"
    using assms(1) by (rule align_high_less)
  ultimately have "align_high (node + offset) align - offset - node < 2 ^ 16"
    "node + (align_high (node + offset) align - offset - node) + offset = align_high (node + offset) align"
    using assms(2) by linarith+
  then show ?thesis using assms(1) by (simp add: slob_delta_def)
qed

lemma slob_delta_aligned:
  assumes "slob_keeps align \<noteq> 0"
  shows "slob_keeps align dvd node + slob_delta align offset node + offset"
proof -
  obtain k where k: "align = 2 ^ k" "k \<le> 16" "slob_keeps align = align"
    using assms by (auto simp: slob_keeps_def split: if_splits)
  have "align \<le> 2 ^ 16" unfolding k(1) using k(2) by (rule power_increasing) simp
  then show ?thesis using slob_delta_small [of align node offset] k by simp
qed

lemma slob_page_alloc_spec:
  assumes ok: "page_ok pg h sp L" and pos: "0 < offset"
  shows "\<exists>r h' sp'. slob_page_alloc h sp sz align offset bsize = Some (r, h', sp') \<and>
    (case r of
       None \<Rightarrow> h' = h \<and> sp' = sp
     | Some b \<Rightarrow> \<exists>node. b = node + offset \<and> page_alloc_post pg h sp L node sz align offset h' sp')"
proof -
  obtain first xs where ch: "chunks pg h sp first xs" and ne: "xs \<noteq> []" and adj: "no_adj xs"
    and fst: "first \<noteq> pg * PAGE_SIZE \<longrightarrow> snd (hd xs)" and L: "L = seg_live first xs"
    using ok by (auto simp: page_ok_def)
  have nf: "sp_node sp = Some first" using ch by (simp add: chunks_def)
  obtain r where r: "slob_fit h sz align offset first None = Some r"
    and sp: "case r of
       None \<Rightarrow> \<forall>as n bs. xs = as @ (n, False) # bs \<longrightarrow>
                 n < slob_delta align offset (first + seg_sum as) + offset + sz
     | Some (node, q, delta) \<Rightarrow>
         \<exists>as n bs. xs = as @ (n, False) # bs \<and> node = first + seg_sum as \<and> q = before first as None \<and>
           delta = slob_delta align offset node \<and> delta + offset + sz \<le> n"
    using slob_fit_segs [of h first xs pg sz align offset None] ch ne unfolding chunks_def by blast
  show ?thesis
  proof (cases r)
    case None
    then show ?thesis using r nf by (simp add: slob_page_alloc_def)
  next
    case (Some t)
    obtain node q delta where t: "t = (node, q, delta)" by (cases t) auto
    obtain as n bs where x: "xs = as @ (n, False) # bs" "node = first + seg_sum as"
      "q = before first as None" "delta = slob_delta align offset node" "delta + offset + sz \<le> n"
      using sp Some t by auto
    note mid = successively_mid [OF adj [unfolded x(1)]]
    obtain h1 sp1 where p1: "slob_pad h sp node q delta offset bsize = (h1, sp1)" by fastforce
    obtain h2 sp2 where p2: "slob_take h1 sp1 (node + delta) sz offset bsize = (h2, sp2)" by fastforce
    have res: "slob_page_alloc h sp sz align offset bsize = Some (Some (node + delta + offset), h2, sp2)"
      using nf r Some t p1 p2 by (simp add: slob_page_alloc_def)
    have hole: "hole pg h sp first as n bs" using ch x(1) by (simp add: chunks_hole)
    have "first \<noteq> pg * PAGE_SIZE \<longrightarrow> as \<noteq> [] \<and> snd (hd as)"
      using fst x(1) by (cases as) auto
    then obtain first' as' where pd: "hole pg h1 sp1 first' as' (n - delta) bs"
      "node + delta = first' + seg_sum as'" "no_adj as'"
      "first' \<noteq> pg * PAGE_SIZE \<longrightarrow> as' = [] \<or> snd (hd as')" "sp_head sp1 = sp_head sp"
      "dom (seg_live first' as') = dom (seg_live first as)"
      "live_extends (seg_live first as) (seg_live first' as')"
      "\<forall>q. q < pg * PAGE_SIZE \<or> Suc pg * PAGE_SIZE \<le> q \<longrightarrow> h1 q = h q"
      using slob_pad_hole [OF hole x(2), of delta offset bsize h1 sp1] mid p1 x(3,5) pos by auto
    obtain post m where tk: "chunks pg h2 sp2 first' (as' @ post @ bs)"
      "post = (m, True) # (if m = n - delta then [] else [(n - delta - m, False)])" "offset + sz \<le> m"
      "m \<le> n - delta" "sp_head sp2 = sp_head sp1"
      "\<forall>q. q < node + delta \<or> node + delta + (n - delta) \<le> q \<longrightarrow> h2 q = h1 q"
      using slob_take_hole [OF pd(1,2) _ pos p2] x(5) by (auto simp: le_diff_conv2)
    let ?xs = "as' @ post @ bs"
    have adj': "no_adj ?xs"
      using pd(3) mid tk(2) by (auto simp: successively_append_iff successively_Cons)
    have hd': "first' \<noteq> pg * PAGE_SIZE \<longrightarrow> snd (hd ?xs)"
      using pd(4) tk(2) by (cases as') auto
    have ok': "page_ok pg h2 sp2 (seg_live first' ?xs)"
      unfolding page_ok_def
      using tk(1,2) adj' hd' by (intro exI [of _ first'] exI [of _ ?xs]) simp
    let ?N = "node + delta" and ?B = "seg_live (node + n) bs"
    have pos': "seg_pos as" "seg_pos as'" "seg_pos bs"
      using hole pd(1) by (simp_all add: hole_def)
    have dn: "delta < n" using x(5) pos by simp
    have L_eq: "L = ?B ++ seg_live first as"
      using L x(1,2) by (simp add: seg_live_append)
    have L'_eq: "seg_live first' ?xs = (?B ++ [?N \<mapsto> m]) ++ seg_live first' as'"
    proof -
      have "seg_live ?N (post @ bs) = ?B ++ [?N \<mapsto> m]"
        using tk(2,4) dn by (simp add: seg_live_append)
      then show ?thesis using pd(2) by (simp add: seg_live_append)
    qed
    have A': "seg_live first' as' q = None" if "?N \<le> q" for q
      using seg_live_bounds [of first' as' q] pos'(2) pd(2) that by (cases "seg_live first' as' q") auto
    have A: "seg_live first as ?N = None" using pd(6) A' [of ?N] by (metis domIff le_refl)
    have B: "?B q = None" if "q < node + n" for q
      using seg_live_bounds [of "node + n" bs q] that by (cases "?B q") auto
    have lv: "seg_live first' ?xs ?N = Some m" using A' [of ?N] by (simp add: L'_eq map_add_def)
    have dis: "L ?N = None" using A B [of ?N] dn by (simp add: L_eq map_add_def)
    have dom: "dom (seg_live first' ?xs) = insert ?N (dom L)"
      unfolding L'_eq L_eq using pd(6) by auto
    have ext: "live_extends L (seg_live first' ?xs)"
      unfolding live_extends_def
    proof (intro conjI allI impI)
      fix q k k' assume q: "L q = Some k" "seg_live first' ?xs q = Some k'"
      then have "q \<noteq> ?N" using dis by auto
      moreover have "seg_live first' as' q = None \<longleftrightarrow> seg_live first as q = None"
        using pd(6) by (metis domIff)
      ultimately show "k \<le> k'"
        using q pd(7) by (auto simp: L_eq L'_eq map_add_def live_extends_def split: option.splits)
    qed (use dom in blast)
    have "page_alloc_post pg h sp L (node + delta) sz align offset h2 sp2"
      unfolding page_alloc_post_def
      using ok' lv dis dom ext tk(3,5) pd(5,8) tk(6) slob_delta_aligned [of align node offset] x(4,5) ch L
      by (intro exI [of _ "seg_live first' ?xs"] exI [of _ m]) (auto simp: chunks_def x)
    then show ?thesis using res by auto
  qed
qed


text \<open>A chunk given back takes in the free chunk after it, the one before it and the padding.\<close>

definition page_free_post ::
  "nat \<Rightarrow> (nat \<Rightarrow> slob_node) \<Rightarrow> slob_page \<Rightarrow> (nat \<rightharpoonup> nat) \<Rightarrow> int \<Rightarrow> (nat \<Rightarrow> slob_node) \<Rightarrow> slob_page \<Rightarrow> bool"
where
  "page_free_post pg h sp L' ret h' sp' \<longleftrightarrow>
     page_ok pg h' sp' L' \<and> ret = (if L' = Map.empty then 1 else 0) \<and> 0 < sp_avail sp' \<and>
     (L' = Map.empty \<longrightarrow> sp_avail sp' = PAGE_SIZE) \<and> sp_head sp' = sp_head sp \<and>
     (\<forall>q. q < pg * PAGE_SIZE \<or> Suc pg * PAGE_SIZE \<le> q \<longrightarrow> h' q = h q)"

lemma all_free_single:
  assumes "no_adj xs" "seg_live p xs = Map.empty"
  shows "xs = [] \<or> (\<exists>n. xs = [(n, False)])"
proof (cases xs rule: remdups_adj.cases)
  case (3 x y ys)
  obtain n u where x: "x = (n, u)" by fastforce
  obtain m v where y: "y = (m, v)" by fastforce
  have "\<not> u \<and> \<not> v" using assms(2) by (auto simp: 3 x y split: if_splits)
  then show ?thesis using assms(1) by (simp add: 3 x y)
qed (use assms in \<open>auto split: if_splits\<close>)

lemma free_single:
  assumes ch: "chunks pg h sp first xs" and x: "xs = cs @ (N, False) # ds" and adj: "no_adj xs"
    and fst: "first \<noteq> pg * PAGE_SIZE \<longrightarrow> snd (hd xs)"
  shows "slob_node_last h first \<longleftrightarrow> seg_live first xs = Map.empty"
    and "seg_live first xs = Map.empty \<Longrightarrow> sp_avail sp = PAGE_SIZE"
proof -
  note c = ch [unfolded chunks_def]
  have "xs \<noteq> []" using x by simp
  then obtain k v ys where xs: "xs = (k, v) # ys" by (metis list.exhaust surj_pair)
  have last: "slob_node_last h first \<longleftrightarrow> ys = []"
    using slob_last_iff [of h first k v ys pg] c xs by simp
  have single: "seg_live first xs = Map.empty \<longleftrightarrow> ys = []"
  proof
    assume "ys = []"
    then have "cs = []" "ds = []" using x xs by (cases cs; simp)+
    then show "seg_live first xs = Map.empty" using x by simp
  qed (use all_free_single [OF adj, of first] x xs in auto)
  show "slob_node_last h first \<longleftrightarrow> seg_live first xs = Map.empty" using last single by simp
  assume "seg_live first xs = Map.empty"
  then have "xs = [(k, False)]" using single xs all_free_single [OF adj, of first] by auto
  then show "sp_avail sp = PAGE_SIZE" using c fst by auto
qed

lemma slob_page_free_spec:
  assumes ok: "page_ok pg h sp L" and n: "L node = Some n"
  shows "\<exists>ret h' sp'. slob_page_free dbg pg h sp (node + offset) offset = Some (ret, h', sp') \<and>
    page_free_post pg h sp (L(node := None)) ret h' sp'"
proof -
  obtain first xs where ch: "chunks pg h sp first xs" and ne: "xs \<noteq> []" and adj: "no_adj xs"
    and fst: "first \<noteq> pg * PAGE_SIZE \<longrightarrow> snd (hd xs)" and L: "L = seg_live first xs"
    using ok by (auto simp: page_ok_def)
  note c = ch [unfolded chunks_def]
  obtain as bs where x: "xs = as @ (n, True) # bs" "node = first + seg_sum as"
    using segs_split [of h first xs node n] c n L by auto
  note mid = successively_mid [OF adj [unfolded x(1)]]
  have find: "slob_node_find h (node + offset) offset first None =
      Some (Some (node, node + n, before first as None))"
    using slob_find_segs [of h first as n True bs pg offset None] c x by simp
  have hn: "h node = \<lparr>nd_size = n, nd_using = True\<rparr>" and n0: "0 < n" using c x by auto
  have last: "slob_node_last h node \<longleftrightarrow> bs = []"
    using slob_last_iff [of h node n True bs pg] c x by (auto simp: add.assoc)
  have sas: "segs h first as" and sbs: "segs h (node + n) bs" and pos: "seg_pos as" "seg_pos bs"
    using c x by auto
  text \<open>The chunk after it.\<close>
  define N1 where "N1 = (case bs of (m, False) # _ \<Rightarrow> n + m | _ \<Rightarrow> n)"
  define bs1 where "bs1 = (case bs of (m, False) # ys \<Rightarrow> ys | _ \<Rightarrow> bs)"
  define h1 where "h1 = (if \<not> slob_node_last h node \<and> \<not> nd_using (h (node + n))
    then h(node := (h node)\<lparr>nd_size := nd_size (h node) + nd_size (h (node + n))\<rparr>) else h)"
  have h1: "h1 = h(node := \<lparr>nd_size = N1, nd_using = True\<rparr>)"
    and b1: "segs h (node + N1) bs1" "seg_pos bs1" "N1 + seg_sum bs1 = n + seg_sum bs" "n \<le> N1"
    "N1 + seg_free bs1 = n + seg_free bs" "bs1 \<noteq> [] \<longrightarrow> snd (hd bs1)" "no_adj bs1"
    "seg_live (node + N1) bs1 = seg_live (node + n) bs"
  proof -
    consider "bs = []" | m ys where "bs = (m, True) # ys" | m ys where "bs = (m, False) # ys"
      by (metis (full_types) list.exhaust surj_pair)
    then have "h1 = h(node := \<lparr>nd_size = N1, nd_using = True\<rparr>) \<and> segs h (node + N1) bs1 \<and> seg_pos bs1 \<and>
      N1 + seg_sum bs1 = n + seg_sum bs \<and> n \<le> N1 \<and> N1 + seg_free bs1 = n + seg_free bs \<and>
      (bs1 \<noteq> [] \<longrightarrow> snd (hd bs1)) \<and> no_adj bs1 \<and> seg_live (node + N1) bs1 = seg_live (node + n) bs"
      by cases (use sbs pos(2) mid hn last in \<open>auto simp: h1_def N1_def bs1_def add.assoc successively_Cons fun_upd_idem\<close>)
    then show "h1 = h(node := \<lparr>nd_size = N1, nd_using = True\<rparr>)" "segs h (node + N1) bs1" "seg_pos bs1"
      "N1 + seg_sum bs1 = n + seg_sum bs" "n \<le> N1" "N1 + seg_free bs1 = n + seg_free bs"
      "bs1 \<noteq> [] \<longrightarrow> snd (hd bs1)" "no_adj bs1" "seg_live (node + N1) bs1 = seg_live (node + n) bs"
      by blast+
  qed
  have bs': "segs g (node + N1) bs1" if "\<forall>q \<ge> node + N1. g q = h q" for g
    by (rule segs_frame [OF b1(1,2)]) (use that in simp)
  text \<open>The result, whatever comes before it.\<close>
  have fin: ?thesis
    if r: "slob_page_free dbg pg h sp (node + offset) offset =
        Some (if slob_node_last g first' then 1 else 0, g, sp')"
      and g: "segs g first' (cs @ [(N, False)])" "\<forall>q. q < pg * PAGE_SIZE \<or> node + N1 \<le> q \<longrightarrow> g q = h q"
      and f: "sp_node sp' = Some first'" "sp_head sp' = sp_head sp" "sp_avail sp' = sp_avail sp + n + (first - first')"
        "pg * PAGE_SIZE \<le> first'" "first' \<le> first" "first' + seg_sum cs + N = node + N1" "0 < N"
      and cs: "seg_pos cs" "no_adj cs" "cs \<noteq> [] \<longrightarrow> snd (last cs)" "seg_live first' cs = seg_live first as"
        "seg_free cs + N = seg_free as + N1 + (first - first')"
        "first' \<noteq> pg * PAGE_SIZE \<longrightarrow> cs \<noteq> [] \<and> snd (hd cs)" for g sp' first' cs N
  proof -
    let ?xs = "cs @ (N, False) # bs1"
    have "segs g (node + N1) bs1" by (rule bs') (use g(2) in simp)
    then have ch': "chunks pg g sp' first' ?xs"
      unfolding chunks_def using f cs b1 g(1) c x by (auto simp: add.assoc)
    have adj': "no_adj ?xs"
      using cs b1 by (auto simp: successively_append_iff successively_Cons)
    have hd': "first' \<noteq> pg * PAGE_SIZE \<longrightarrow> snd (hd ?xs)" using cs by (cases cs) auto
    have asb: "seg_live first as q = None" if "node \<le> q" for q
      using seg_live_bounds [of first as q] pos x(2) that by (cases "seg_live first as q") auto
    have bsb: "seg_live (node + n) bs node = None"
      using seg_live_bounds [of "node + n" bs node] n0 by (cases "seg_live (node + n) bs node") auto
    have "seg_live first' ?xs = seg_live (node + n) bs ++ seg_live first as"
      using b1(8) cs(4) f(6) by (simp add: seg_live_append)
    also have "\<dots> = L(node := None)"
      using asb [of node] bsb x by (auto simp: L seg_live_append map_add_def fun_eq_iff split: option.splits)
    finally have lv: "seg_live first' ?xs = L(node := None)" .
    note fs = free_single [OF ch' refl adj' hd', unfolded lv]
    have ok': "page_ok pg g sp' (L(node := None))"
      unfolding page_ok_def using ch' adj' hd' lv
      by (intro exI [of _ first'] exI [of _ ?xs]) simp
    have "0 < sp_avail sp'" using f n0 by simp
    moreover have "node + N1 \<le> Suc pg * PAGE_SIZE" using c x b1(3) by simp
    ultimately have "page_free_post pg h sp (L(node := None)) (if slob_node_last g first' then 1 else 0) g sp'"
      unfolding page_free_post_def using ok' fs f(2) g(2) by auto
    then show ?thesis using r by blast
  qed
  let ?h = "h1(node := \<lparr>nd_size = N1, nd_using = False\<rparr>)"
  let ?sp = "\<lambda>p a. sp\<lparr>sp_node := Some p, sp_avail := sp_avail sp + a\<rparr>"
  have nf: "sp_node sp = Some first" using c by simp
  have low: "pg * PAGE_SIZE \<le> first" "first < Suc pg * PAGE_SIZE" "N1 > 0" using c x n0 b1(4) by auto
  have aligned: "first mod PAGE_SIZE = 0 \<longleftrightarrow> first = pg * PAGE_SIZE"
  proof -
    obtain e where e: "first = e + pg * PAGE_SIZE" using low(1) by (metis add.commute le_Suc_ex)
    with low have "e < PAGE_SIZE" by simp
    then show ?thesis by (simp add: e)
  qed
  let ?r = "slob_release pg h sp first node (node + n) (before first as None)"
  have r: "slob_page_free dbg pg h sp (node + offset) offset = Some ?r"
    using hn by (simp add: slob_page_free_def nf find)
  note rel = slob_release_def [of pg h sp first node "node + n" "before first as None", folded h1_def]
  consider "as = []" "first = pg * PAGE_SIZE" | "as = []" "first \<noteq> pg * PAGE_SIZE"
    | cs k where "as = cs @ [(k, False)]" | "as \<noteq> []" "snd (last as)"
    by (metis (full_types) append_butlast_last_id prod.collapse)
  then show ?thesis
  proof cases
    case 1
    have "?r = (if slob_node_last ?h first then 1 else 0, ?h, ?sp first n)"
      unfolding rel using 1 hn x(2) by (simp add: Let_def before_def h1)
    then show ?thesis
      by (intro fin [where g = ?h and sp' = "?sp first n" and first' = first and cs = "[]" and N = N1]) (use r 1 x b1(4) n0 low in \<open>auto simp: h1\<close>)
  next
    case 2
    let ?b = "pg * PAGE_SIZE"
    let ?g = "h1(?b := \<lparr>nd_size = first - ?b + N1, nd_using = False\<rparr>)"
    have "?r = (if slob_node_last ?g ?b then 1 else 0, ?g, ?sp ?b (n + (first - ?b)))"
      unfolding rel using 2 hn x(2) aligned by (simp add: Let_def before_def h1)
    then show ?thesis
      by (intro fin [where g = ?g and sp' = "?sp ?b (n + (first - ?b))" and first' = ?b and cs = "[]"
            and N = "first - ?b + N1"])
        (use r 2 x b1(4) n0 low in \<open>auto simp: h1\<close>)
  next
    case 3
    let ?q = "first + seg_sum cs"
    let ?g = "h1(?q := \<lparr>nd_size = k + N1, nd_using = False\<rparr>, node := \<lparr>nd_size = N1, nd_using = False\<rparr>)"
    have hq: "h ?q = \<lparr>nd_size = k, nd_using = False\<rparr>" "0 < k" "?q < node" "segs h first cs" "seg_pos cs"
      using sas pos(1) 3 x(2) by auto
    have "?r = (if slob_node_last ?g first then 1 else 0, ?g, ?sp first n)"
      unfolding rel using 3 hn hq x(2) by (simp add: Let_def before_def h1)
    moreover have "segs ?g first cs"
      by (rule segs_frame [OF hq(4,5)]) (use hq(3) in \<open>auto simp: h1\<close>)
    moreover have "no_adj cs" "cs \<noteq> [] \<longrightarrow> snd (last cs)"
      using mid 3 by (auto simp: successively_append_iff)
    moreover have "first \<noteq> pg * PAGE_SIZE \<longrightarrow> cs \<noteq> [] \<and> snd (hd cs)"
      using fst 3 x(1) by (cases cs) auto
    ultimately show ?thesis
      by (intro fin [where g = ?g and sp' = "?sp first n" and first' = first and cs = cs and N = "k + N1"])
        (use r 3 x b1(4) n0 low hq in \<open>auto simp: h1 seg_live_append\<close>)
  next
    case 4
    obtain cs k where as: "as = cs @ [(k, True)]"
      using 4 by (metis append_butlast_last_id prod.collapse)
    let ?q = "first + seg_sum cs"
    have hq: "h ?q = \<lparr>nd_size = k, nd_using = True\<rparr>" "0 < k" "?q < node"
      using sas pos(1) as x(2) by auto
    have "?r = (if slob_node_last ?h first then 1 else 0, ?h, ?sp first n)"
      unfolding rel using 4 hn hq as x(2) by (simp add: Let_def before_def h1)
    moreover have "segs ?h first as"
      by (rule segs_frame [OF sas pos(1)]) (use x(2) in \<open>auto simp: h1\<close>)
    moreover have "first \<noteq> pg * PAGE_SIZE \<longrightarrow> snd (hd as)"
      using fst 4 x(1) by (cases as) auto
    ultimately show ?thesis
      by (intro fin [where g = ?h and sp' = "?sp first n" and first' = first and cs = as and N = N1])
        (use r 4 x b1(4) n0 low mid pos in \<open>auto simp: h1\<close>)
  qed
qed

end
