(* ===== verification/Kmalloc.thy ===== *)
theory Kmalloc
  imports Slob
begin

text \<open>
  The allocator of \<^verbatim>\<open>mm/kmalloc/slob.c\<close> as its clients see it: the invariant of
  the pages, the lists and the blocks handed out, its preservation by every operation, and the
  properties of all histories of allocations and releases. The facts about single pages are those
  of theory Slob; the page allocator is used through its interface.
\<close>

section \<open>The invariant of the allocator\<close>

text \<open>
  \<open>A\<close> are the page blocks other clients of the page allocator hold, \<open>P\<close> the pages divided into
  chunks, \<open>Q\<close> the blocks of whole pages; \<open>lv\<close> are the chunks in use of each page and \<open>B\<close> the
  blocks handed out, with the sizes asked for.
\<close>

definition block_rel ::
  "mm_state \<Rightarrow> nat set \<Rightarrow> nat set \<Rightarrow> (nat \<Rightarrow> nat \<rightharpoonup> nat) \<Rightarrow> (nat \<rightharpoonup> nat) \<Rightarrow> bool"
where
  "block_rel m P Q lv B \<longleftrightarrow>
     (\<forall>p \<in> P. \<forall>node n. lv p node = Some n \<longrightarrow>
        (\<exists>sz. B (node + SLOB_OFFSET) = Some sz \<and> 0 < sz \<and> SLOB_OFFSET + sz \<le> n)) \<and>
     (\<forall>q \<in> Q. \<exists>sz. B (q * PAGE_SIZE) = Some sz \<and> sz \<le> PAGE_SIZE * card (blk m q)) \<and>
     (\<forall>b sz. B b = Some sz \<longrightarrow>
        (\<exists>q \<in> Q. b = q * PAGE_SIZE) \<or> (\<exists>p \<in> P. \<exists>node n. lv p node = Some n \<and> b = node + SLOB_OFFSET))"

definition pages_inv ::
  "region_config \<Rightarrow> slob_state \<Rightarrow> nat set \<Rightarrow> nat set \<Rightarrow> nat set \<Rightarrow> (nat \<Rightarrow> nat \<rightharpoonup> nat) \<Rightarrow> (nat \<rightharpoonup> nat) \<Rightarrow> bool"
where
  "pages_inv c s A P Q lv B \<longleftrightarrow>
     buddy_inv c (mm s) (A \<union> P \<union> Q) {} \<and> A \<inter> P = {} \<and> A \<inter> Q = {} \<and> P \<inter> Q = {} \<and>
     (\<forall>p \<in> P. pg_type (page_map (mm s) p) = PAGE_SLOB \<and> blk (mm s) p = {p} \<and>
        page_ok p (sl_nodes s) (sl_pages s p) (lv p)) \<and>
     (\<forall>q \<in> Q. pg_type (page_map (mm s) q) = PAGE_SLOB \<and> sp_node (sl_pages s q) = None) \<and>
     block_rel (mm s) P Q lv B"

definition lists_ok :: "slob_state \<Rightarrow> nat set \<Rightarrow> bool" where
  "lists_ok s P \<longleftrightarrow>
     (\<forall>l. distinct (sl_lists s l) \<and> set (sl_lists s l) \<subseteq> {p \<in> P. sp_head (sl_pages s p) = l}) \<and>
     (\<forall>p \<in> P. sp_avail (sl_pages s p) \<noteq> 0 \<longrightarrow> p \<in> set (sl_lists s (sp_head (sl_pages s p))))"

definition slob_inv ::
  "region_config \<Rightarrow> nat set \<Rightarrow> slob_state \<Rightarrow> (nat \<rightharpoonup> nat) \<Rightarrow> bool"
where
  "slob_inv c A s B \<longleftrightarrow> (\<exists>P Q lv. pages_inv c s A P Q lv B \<and> lists_ok s P)"

lemma slob_invI: "pages_inv c s A P Q lv B \<Longrightarrow> lists_ok s P \<Longrightarrow> slob_inv c A s B"
  unfolding slob_inv_def by blast

lemma PAGE_SIZE_nz [simp]: "PAGE_SIZE \<noteq> 0"
  by (simp add: PAGE_SIZE_def)

lemma SLOB_OFFSET_eq: "SLOB_OFFSET = 64" "SLOB_ALIGN = 64"
  by (simp_all add: SLOB_OFFSET_def SLOB_ALIGN_def)

lemma SLOB_OFFSET_pos [simp]: "0 < SLOB_OFFSET"
  by (simp add: SLOB_OFFSET_eq)

lemma page_ok_live:
  assumes "page_ok p h sp L" "L node = Some n"
  shows "p * PAGE_SIZE \<le> node" "node + n \<le> Suc p * PAGE_SIZE" "0 < n"
proof -
  obtain first xs where "chunks p h sp first xs" "L = seg_live first xs"
    using assms(1) by (auto simp: page_ok_def)
  then show "p * PAGE_SIZE \<le> node" "node + n \<le> Suc p * PAGE_SIZE" "0 < n"
    using seg_live_bounds [of first xs node n] assms(2) by (auto simp: chunks_def)
qed

lemma page_ok_disjoint:
  assumes "page_ok p h sp L" "L node = Some n" "L node' = Some n'" "node \<noteq> node'"
  shows "node + n \<le> node' \<or> node' + n' \<le> node"
proof -
  obtain first xs where "L = seg_live first xs" using assms(1) by (auto simp: page_ok_def)
  then show ?thesis using seg_live_disjoint assms(2-4) by blast
qed

lemma page_ok_frame:
  assumes "page_ok p h sp L" "\<And>q. p * PAGE_SIZE \<le> q \<Longrightarrow> q < Suc p * PAGE_SIZE \<Longrightarrow> h' q = h q"
  shows "page_ok p h' sp L"
proof -
  obtain first xs where x: "chunks p h sp first xs" "xs \<noteq> []" "no_adj xs"
    "first \<noteq> p * PAGE_SIZE \<longrightarrow> snd (hd xs)" "L = seg_live first xs"
    using assms(1) by (auto simp: page_ok_def)
  have "segs h' first xs"
    by (rule segs_frame [of h]) (use x(1) assms(2) in \<open>auto simp: chunks_def\<close>)
  then have "chunks p h' sp first xs" using x(1) by (simp add: chunks_def)
  then show ?thesis using x unfolding page_ok_def by blast
qed

lemma other_page:
  fixes p :: nat
  assumes "p \<noteq> p'" "p' * PAGE_SIZE \<le> q" "q < Suc p' * PAGE_SIZE"
  shows "q < p * PAGE_SIZE \<or> Suc p * PAGE_SIZE \<le> q"
proof (cases "p < p'")
  case True
  then have "Suc p * PAGE_SIZE \<le> p' * PAGE_SIZE" by (intro mult_le_mono1) simp
  then show ?thesis using assms by linarith
next
  case False
  then have "Suc p' * PAGE_SIZE \<le> p * PAGE_SIZE" using assms(1) by (intro mult_le_mono1) simp
  then show ?thesis using assms by linarith
qed

lemma pages_inv_page:
  assumes "pages_inv c s A P Q lv B" "p \<in> P"
  shows "page_ok p (sl_nodes s) (sl_pages s p) (lv p)"
  using assms by (simp add: pages_inv_def)

text \<open>The page of a block and its chunk.\<close>

lemma block_page:
  assumes inv: "pages_inv c s A P Q lv B" and p: "p \<in> P" "lv p node = Some n"
  shows "(node + SLOB_OFFSET) div PAGE_SIZE = p" "SLOB_OFFSET < n"
proof -
  have n: "SLOB_OFFSET < n"
    using inv p unfolding pages_inv_def block_rel_def by fastforce
  then show "SLOB_OFFSET < n" .
  note b = page_ok_live [OF pages_inv_page [OF inv p(1)] p(2)]
  then have "p * PAGE_SIZE \<le> node + SLOB_OFFSET" "node + SLOB_OFFSET < Suc p * PAGE_SIZE" using n by auto
  then show "(node + SLOB_OFFSET) div PAGE_SIZE = p"
    by (metis div_nat_eqI mult.commute)
qed

lemma block_cases:
  assumes inv: "pages_inv c s A P Q lv B" and b: "B b = Some sz"
  obtains (large) q where "q \<in> Q" "b = q * PAGE_SIZE" "b div PAGE_SIZE = q" "sz \<le> PAGE_SIZE * card (blk (mm s) q)"
  | (small) p node n where "p \<in> P" "lv p node = Some n" "b = node + SLOB_OFFSET" "b div PAGE_SIZE = p"
      "SLOB_OFFSET + sz \<le> n" "0 < sz"
proof -
  have br: "block_rel (mm s) P Q lv B" using inv by (simp add: pages_inv_def)
  with b have "(\<exists>q \<in> Q. b = q * PAGE_SIZE) \<or>
      (\<exists>p \<in> P. \<exists>node n. lv p node = Some n \<and> b = node + SLOB_OFFSET)"
    unfolding block_rel_def by blast
  then show ?thesis
  proof
    assume "\<exists>q \<in> Q. b = q * PAGE_SIZE"
    then obtain q where "q \<in> Q" "b = q * PAGE_SIZE" by blast
    moreover from this have "sz \<le> PAGE_SIZE * card (blk (mm s) q)"
      using br b unfolding block_rel_def by fastforce
    ultimately show ?thesis using large by simp
  next
    assume "\<exists>p \<in> P. \<exists>node n. lv p node = Some n \<and> b = node + SLOB_OFFSET"
    then obtain p node n where x: "p \<in> P" "lv p node = Some n" "b = node + SLOB_OFFSET" by blast
    moreover from this have "SLOB_OFFSET + sz \<le> n" "0 < sz"
      using br b unfolding block_rel_def by fastforce+
    ultimately show ?thesis using small block_page [OF inv x(1,2)] by simp
  qed
qed

text \<open>Where the bytes of a block are.\<close>

lemma block_range_large:
  assumes inv: "pages_inv c s A P Q lv B" and q: "q \<in> Q" and x: "q * PAGE_SIZE \<le> x"
    "x < q * PAGE_SIZE + PAGE_SIZE * card (blk (mm s) q)"
  shows "x div PAGE_SIZE \<in> blk (mm s) q"
proof -
  let ?k = "pg_order (page_map (mm s) q)"
  have c: "card (blk (mm s) q) = 2 ^ ?k" by (simp add: blk_def)
  have "q \<le> x div PAGE_SIZE" using x(1) by (simp add: less_eq_div_iff_mult_less_eq)
  moreover have "x < (q + 2 ^ ?k) * PAGE_SIZE" using x(2) c by (simp add: algebra_simps)
  then have "x div PAGE_SIZE < q + 2 ^ ?k" by (simp add: less_mult_imp_div_less)
  ultimately show ?thesis by (simp add: blk_def mem_block)
qed

lemma blocks_disjoint:
  assumes inv: "pages_inv c s A P Q lv B" and b: "B b = Some n" "B b' = Some n'" "b \<noteq> b'"
    and x: "x \<in> {b ..< b + n}" "x \<in> {b' ..< b' + n'}"
  shows False
proof -
  have own: "\<exists>q \<in> P \<union> Q. q = b div PAGE_SIZE \<and> x div PAGE_SIZE \<in> blk (mm s) q"
    if b: "B b = Some n" "x \<in> {b ..< b + n}" for b n
  proof (rule block_cases [OF inv b(1)])
    fix q assume "q \<in> Q" "b = q * PAGE_SIZE" "b div PAGE_SIZE = q" "n \<le> PAGE_SIZE * card (blk (mm s) q)"
    then show ?thesis using block_range_large [OF inv, of q x] b(2) by auto
  next
    fix p node m assume p: "p \<in> P" "lv p node = Some m" "b = node + SLOB_OFFSET" "b div PAGE_SIZE = p"
      "SLOB_OFFSET + n \<le> m" "0 < n"
    then have "p * PAGE_SIZE \<le> x" "x < Suc p * PAGE_SIZE"
      using page_ok_live [OF pages_inv_page [OF inv p(1)] p(2)] b(2) by auto
    then have "x div PAGE_SIZE = p" by (metis div_nat_eqI mult.commute)
    then show ?thesis using p inv by (auto simp: pages_inv_def)
  qed
  obtain q where q: "q \<in> P \<union> Q" "q = b div PAGE_SIZE" "x div PAGE_SIZE \<in> blk (mm s) q"
    using own [OF b(1) x(1)] by blast
  obtain q' where q': "q' \<in> P \<union> Q" "q' = b' div PAGE_SIZE" "x div PAGE_SIZE \<in> blk (mm s) q'"
    using own [OF b(2) x(2)] by blast
  have bi: "buddy_inv c (mm s) (A \<union> P \<union> Q) {}" using inv by (simp add: pages_inv_def)
  have eq: "q = q'"
    using buddy.owned_disjoint [OF bi, of q q'] q q' by blast
  have PQ: "P \<inter> Q = {}" using inv by (simp add: pages_inv_def)
  show False
  proof (rule block_cases [OF inv b(1)])
    fix r assume r: "r \<in> Q" "b = r * PAGE_SIZE" "b div PAGE_SIZE = r"
    show False
      by (rule block_cases [OF inv b(2)]) (use r PQ q q' eq b(3) in auto)
  next
    fix p node m assume p: "p \<in> P" "lv p node = Some m" "b = node + SLOB_OFFSET" "b div PAGE_SIZE = p"
      "SLOB_OFFSET + n \<le> m" "0 < n"
    show False
    proof (rule block_cases [OF inv b(2)])
      fix p' node' m' assume p': "p' \<in> P" "lv p' node' = Some m'" "b' = node' + SLOB_OFFSET"
        "b' div PAGE_SIZE = p'" "SLOB_OFFSET + n' \<le> m'" "0 < n'"
      then have "p' = p" using q q' eq p by simp
      then have "node + m \<le> node' \<or> node' + m' \<le> node"
        using page_ok_disjoint [OF pages_inv_page [OF inv p(1)] p(2), of node' m'] p p' b(3) by auto
      then show False using p p' x by auto
    qed (use p PQ q q' eq in auto)
  qed
qed

section \<open>Allocation\<close>

lemma slob_state_fields [simp]:
  "mm (set_page p h sp s) = mm s" "sl_nodes (set_page p h sp s) = h"
  "sl_pages (set_page p h sp s) = (sl_pages s)(p := sp)" "sl_lists (set_page p h sp s) = sl_lists s"
  "mm (set_list l ps s) = mm s" "sl_nodes (set_list l ps s) = sl_nodes s"
  "sl_pages (set_list l ps s) = sl_pages s" "sl_lists (set_list l ps s) = (sl_lists s)(l := ps)"
  by (simp_all add: set_page_def set_list_def)

lemma pages_inv_lists [simp]: "pages_inv c (set_list l ps s) A P Q lv B = pages_inv c s A P Q lv B"
  by (simp add: pages_inv_def)

lemma set_page_id [simp]: "set_page p (sl_nodes s) (sl_pages s p) s = s"
  by (simp add: set_page_def)

text \<open>A chunk of page \<open>p\<close> is taken.\<close>

lemma pages_inv_take:
  assumes inv: "pages_inv c s A P Q lv B" and p: "p \<in> P"
    and post: "page_alloc_post p (sl_nodes s) (sl_pages s p) (lv p) node sz' align SLOB_OFFSET h sp"
    and sz: "0 < sz" "sz \<le> sz'"
  shows "\<exists>L'. pages_inv c (set_page p h sp s) A P Q (lv(p := L')) (B(node + SLOB_OFFSET \<mapsto> sz))"
    and "B (node + SLOB_OFFSET) = None" "sp_head sp = sp_head (sl_pages s p)"
    and "slob_keeps align \<noteq> 0 \<longrightarrow> slob_keeps align dvd node + SLOB_OFFSET"
    and "p * PAGE_SIZE \<le> node" "node + SLOB_OFFSET + sz' \<le> Suc p * PAGE_SIZE"
proof -
  obtain L' n where po: "page_ok p h sp L'" "L' node = Some n" "lv p node = None" "SLOB_OFFSET + sz' \<le> n"
    "dom L' = insert node (dom (lv p))" "live_extends (lv p) L'"
    and hd: "sp_head sp = sp_head (sl_pages s p)" and al: "slob_keeps align \<noteq> 0 \<longrightarrow> slob_keeps align dvd node + SLOB_OFFSET"
    and fr: "\<forall>q. q < p * PAGE_SIZE \<or> Suc p * PAGE_SIZE \<le> q \<longrightarrow> h q = sl_nodes s q"
    using post by (auto simp: page_alloc_post_def)
  show "sp_head sp = sp_head (sl_pages s p)" by (fact hd)
  show "slob_keeps align \<noteq> 0 \<longrightarrow> slob_keeps align dvd node + SLOB_OFFSET" by (rule al)
  let ?b = "node + SLOB_OFFSET"
  note lim = page_ok_live [OF po(1,2)]
  show "p * PAGE_SIZE \<le> node" "?b + sz' \<le> Suc p * PAGE_SIZE" using lim po(4) by auto
  have "p * PAGE_SIZE \<le> ?b" "?b < Suc p * PAGE_SIZE" using lim po(4) sz by auto
  then have bp: "?b div PAGE_SIZE = p" by (metis div_nat_eqI mult.commute)
  have PQ: "P \<inter> Q = {}" using inv by (simp add: pages_inv_def)
  show fresh: "B ?b = None"
  proof (cases "B ?b")
    case (Some k)
    then show ?thesis
      by (rule block_cases [OF inv]) (use PQ p bp po(3) in auto)
  qed
  have br: "block_rel (mm s) P Q lv B" using inv by (simp add: pages_inv_def)
  have keep: "B a \<noteq> None \<Longrightarrow> (B(?b \<mapsto> sz)) a = B a" for a using fresh by auto
  have "block_rel (mm s) P Q (lv(p := L')) (B(?b \<mapsto> sz))"
    unfolding block_rel_def
  proof (intro conjI ballI allI impI)
    fix p' node' n' assume a: "p' \<in> P" "(lv(p := L')) p' node' = Some n'"
    show "\<exists>k. (B(?b \<mapsto> sz)) (node' + SLOB_OFFSET) = Some k \<and> 0 < k \<and> SLOB_OFFSET + k \<le> n'"
    proof (cases "p' = p \<and> node' = node")
      case True
      then show ?thesis using a po(2,4) sz by auto
    next
      case False
      obtain m where m: "lv p' node' = Some m" "m \<le> n'"
      proof (cases "p' = p")
        case True
        then have "node' \<in> dom (lv p)" using a False po(5) by auto
        then obtain m where "lv p node' = Some m" by blast
        then show ?thesis using that True a po(6) by (auto simp: live_extends_def)
      qed (use a that in auto)
      then obtain k where "B (node' + SLOB_OFFSET) = Some k" "0 < k" "SLOB_OFFSET + k \<le> m"
        using br a(1) unfolding block_rel_def by blast
      then show ?thesis using m(2) keep by (metis le_trans option.distinct(1))
    qed
  next
    fix q assume "q \<in> Q"
    then obtain k where "B (q * PAGE_SIZE) = Some k" "k \<le> PAGE_SIZE * card (blk (mm s) q)"
      using br unfolding block_rel_def by blast
    then show "\<exists>k. (B(?b \<mapsto> sz)) (q * PAGE_SIZE) = Some k \<and> k \<le> PAGE_SIZE * card (blk (mm s) q)"
      using keep by (metis option.distinct(1))
  next
    fix a k assume a: "(B(?b \<mapsto> sz)) a = Some k"
    show "(\<exists>q \<in> Q. a = q * PAGE_SIZE) \<or>
      (\<exists>p' \<in> P. \<exists>node' n'. (lv(p := L')) p' node' = Some n' \<and> a = node' + SLOB_OFFSET)"
    proof (cases "a = ?b")
      case True
      then show ?thesis using p po(2) by auto
    next
      case False
      then have "B a = Some k" using a by simp
      then show ?thesis
      proof (rule block_cases [OF inv])
        fix p' node' n' assume x: "p' \<in> P" "lv p' node' = Some n'" "a = node' + SLOB_OFFSET"
        have "\<exists>n'. (lv(p := L')) p' node' = Some n'" using x(2) po(5) by auto
        then show ?thesis using x by blast
      qed blast
    qed
  qed
  moreover have "page_ok p' h (((sl_pages s)(p := sp)) p') ((lv(p := L')) p')" if "p' \<in> P" for p'
  proof (cases "p' = p")
    case False
    have "page_ok p' h (sl_pages s p') (lv p')"
      by (rule page_ok_frame [OF pages_inv_page [OF inv that]])
        (use fr other_page [OF False [symmetric]] in blast)
    then show ?thesis using False by simp
  qed (use po(1) in simp)
  moreover have "((sl_pages s)(p := sp)) q = sl_pages s q" if "q \<in> Q" for q
    using that p PQ by auto
  ultimately have "pages_inv c (set_page p h sp s) A P Q (lv(p := L')) (B(?b \<mapsto> sz))"
    using inv unfolding pages_inv_def by simp
  then show "\<exists>L'. pages_inv c (set_page p h sp s) A P Q (lv(p := L')) (B(?b \<mapsto> sz))" by blast
qed

text \<open>What an allocation is to do.\<close>

definition alloc_done ::
  "region_config \<Rightarrow> nat set \<Rightarrow> slob_state \<Rightarrow> (nat \<rightharpoonup> nat) \<Rightarrow> nat \<Rightarrow> nat \<Rightarrow> nat \<Rightarrow> nat \<Rightarrow> slob_state \<Rightarrow> bool"
where
  "alloc_done c A s B sz len align b t \<longleftrightarrow>
     slob_inv c A t (B(b \<mapsto> sz)) \<and> B b = None \<and> (align \<noteq> 0 \<longrightarrow> align dvd b) \<and> sz \<le> len \<and>
     (\<forall>x. x < b \<or> b + len \<le> x \<longrightarrow> bytes (mm t) x = bytes (mm s) x)"

definition in_page :: "nat \<Rightarrow> nat \<Rightarrow> bool" where
  "in_page b len \<longleftrightarrow> (\<exists>p. p * PAGE_SIZE + SLOB_OFFSET \<le> b \<and> b + len \<le> Suc p * PAGE_SIZE)"

lemma lists_ok_take:
  fixes h :: "nat \<Rightarrow> slob_node"
  assumes "lists_ok s P" "p \<in> P" "p \<in> set (sl_lists s l)" "sp_head sp = sp_head (sl_pages s p)"
  defines "s1 \<equiv> set_page p h sp s"
  shows "lists_ok (if sp_avail sp = 0 then set_list l (remove1 p (sl_lists s1 l)) s1
               else if hd (sl_lists s1 l) \<noteq> p
               then set_list l (p # remove1 p (sl_lists s1 l)) s1
               else s1) P"
proof -
  have hl: "sp_head (sl_pages s p) = l" using assms(1,3) unfolding lists_ok_def by blast
  have only: "la = l" if "p \<in> set (sl_lists s la)" for la
    using assms(1) hl that unfolding lists_ok_def by blast
  have d: "distinct (sl_lists s l)" using assms(1) by (simp add: lists_ok_def)
  have 1: "lists_ok (set_list l ps s1) P"
    if "distinct ps" "set ps \<subseteq> set (sl_lists s l)" "set (sl_lists s l) - {p} \<subseteq> set ps"
      "sp_avail sp \<noteq> 0 \<longrightarrow> p \<in> set ps" for ps
    unfolding lists_ok_def
  proof (intro conjI allI ballI impI)
    show "distinct (sl_lists (set_list l ps s1) la)" for la
      using assms(1) that(1) by (simp add: s1_def lists_ok_def)
    show "set (sl_lists (set_list l ps s1) la) \<subseteq> {q \<in> P. sp_head (sl_pages (set_list l ps s1) q) = la}" for la
    proof (cases "la = l")
      case True
      then show ?thesis using assms(1,4) hl that(2) unfolding lists_ok_def s1_def by auto
    next
      case False
      then have "p \<notin> set (sl_lists s la)" using only by blast
      then show ?thesis using assms(1) False unfolding lists_ok_def s1_def by auto
    qed
    fix q assume q: "q \<in> P" "sp_avail (sl_pages (set_list l ps s1) q) \<noteq> 0"
    show "q \<in> set (sl_lists (set_list l ps s1) (sp_head (sl_pages (set_list l ps s1) q)))"
    proof (cases "q = p")
      case True
      then show ?thesis using q that(4) assms(4) hl by (simp add: s1_def)
    next
      case False
      then have "q \<in> set (sl_lists s (sp_head (sl_pages s q)))"
        using q assms(1) by (simp add: s1_def lists_ok_def)
      then show ?thesis using False that(3) by (auto simp: s1_def)
    qed
  qed
  have "set_list l (sl_lists s l) s1 = s1" by (simp add: set_list_def s1_def set_page_def)
  then have 2: "lists_ok s1 P"
    using 1 [of "sl_lists s l"] d assms(3) by simp
  show ?thesis
    using 1 [of "remove1 p (sl_lists s l)"] 1 [of "p # remove1 p (sl_lists s l)"] 2 d assms(3)
    by (auto simp: s1_def)
qed

lemma lists_ok_page:
  assumes "lists_ok s P" "p \<in> set (sl_lists s (sp_head sp))" "sp_head sp = sp_head (sl_pages s p)"
  shows "lists_ok (set_page p h sp s) P"
  using assms unfolding lists_ok_def by (auto split: if_splits)

lemma lists_ok_return:
  assumes "lists_ok s P" "p \<in> P" "p \<notin> set (sl_lists s (sp_head sp))" "sp_head sp = sp_head (sl_pages s p)"
  shows "lists_ok (set_list (sp_head sp) (p # sl_lists s (sp_head sp)) (set_page p h sp s)) P"
  using assms unfolding lists_ok_def by (auto split: if_splits)

lemma lists_ok_drop:
  fixes h :: "nat \<Rightarrow> slob_node"
  assumes ok: "lists_ok s P" and hd: "sp_head sp = sp_head (sl_pages s p)"
  defines "l \<equiv> sp_head sp" and "s1 \<equiv> set_page p h sp s"
  defines "u \<equiv> if p \<in> set (sl_lists s l) then set_list l (remove1 p (sl_lists s l)) s1 else s1"
  shows "lists_ok (u\<lparr>mm := m\<rparr>) (P - {p})"
proof -
  have d: "distinct (sl_lists s la)" and sub: "set (sl_lists s la) \<subseteq> {q \<in> P. sp_head (sl_pages s q) = la}" for la
    using ok by (simp_all add: lists_ok_def)
  have "p \<notin> set (sl_lists s la)" if "la \<noteq> l" for la
    using sub [of la] that hd l_def by auto
  then have ul: "sl_lists u la = remove1 p (sl_lists s la)" for la
    by (cases "la = l") (auto simp: u_def s1_def remove1_idem)
  have up: "sl_pages u q = sl_pages s q" if "q \<noteq> p" for q
    using that by (simp add: u_def s1_def)
  have us: "set (sl_lists u la) = set (sl_lists s la) - {p}" for la
    using d by (simp add: ul)
  show ?thesis
    unfolding lists_ok_def
  proof (intro conjI allI ballI impI)
    show "distinct (sl_lists (u\<lparr>mm := m\<rparr>) la)" for la using d ul by simp
    show "set (sl_lists (u\<lparr>mm := m\<rparr>) la) \<subseteq> {q \<in> P - {p}. sp_head (sl_pages (u\<lparr>mm := m\<rparr>) q) = la}" for la
      using sub [of la] us up by auto
    fix q assume q: "q \<in> P - {p}" "sp_avail (sl_pages (u\<lparr>mm := m\<rparr>) q) \<noteq> 0"
    then have "sl_pages u q = sl_pages s q" using up by simp
    then show "q \<in> set (sl_lists (u\<lparr>mm := m\<rparr>) (sp_head (sl_pages (u\<lparr>mm := m\<rparr>) q)))"
      using q ok us by (simp add: lists_ok_def)
  qed
qed

lemma slob_try_spec:
  assumes inv: "pages_inv c s A P Q lv B" "lists_ok s P" and ps: "set ps \<subseteq> set (sl_lists s l)"
    and sz: "0 < sz" "sz \<le> sz'"
  shows "slob_try l sz' SLOB_OFFSET align bsize ps s = Some (None, s) \<or>
    (\<exists>b t. slob_try l sz' SLOB_OFFSET align bsize ps s = Some (Some b, t) \<and>
       alloc_done c A s B sz sz' (slob_keeps align) b t \<and> in_page b sz' \<and> mm t = mm s)"
  using ps
proof (induction ps)
  case (Cons p ps)
  then have "p \<in> set (sl_lists s l)" and ps: "set ps \<subseteq> set (sl_lists s l)" by auto
  then have p: "p \<in> P" using inv(2) unfolding lists_ok_def by blast
  note IH = Cons.IH [OF ps]
  show ?case
  proof (cases "sp_avail (sl_pages s p) < SLOB_OFFSET + sz'")
    case True
    then show ?thesis using IH by simp
  next
    case False
    obtain r h sp where res: "slob_page_alloc (sl_nodes s) (sl_pages s p) sz' align SLOB_OFFSET bsize = Some (r, h, sp)"
      and r: "case r of None \<Rightarrow> h = sl_nodes s \<and> sp = sl_pages s p
        | Some b \<Rightarrow> \<exists>node. b = node + SLOB_OFFSET \<and>
            page_alloc_post p (sl_nodes s) (sl_pages s p) (lv p) node sz' align SLOB_OFFSET h sp"
      using slob_page_alloc_spec [OF pages_inv_page [OF inv(1) p] SLOB_OFFSET_pos] by blast
    show ?thesis
    proof (cases r)
      case None
      then show ?thesis using False res r IH by simp
    next
      case (Some b)
      then obtain node where b: "b = node + SLOB_OFFSET"
        and post: "page_alloc_post p (sl_nodes s) (sl_pages s p) (lv p) node sz' align SLOB_OFFSET h sp"
        using r by auto
      note tk = pages_inv_take [OF inv(1) p post sz]
      let ?s1 = "set_page p h sp s"
      let ?t = "if sp_avail sp = 0 then set_list l (remove1 p (sl_lists ?s1 l)) ?s1
               else if hd (sl_lists ?s1 l) \<noteq> p
               then set_list l (p # remove1 p (sl_lists ?s1 l)) ?s1
               else ?s1"
      have lo: "lists_ok ?t P"
        by (rule lists_ok_take [OF inv(2) p \<open>p \<in> set (sl_lists s l)\<close> tk(3)])
      obtain L' where "pages_inv c ?s1 A P Q (lv(p := L')) (B(b \<mapsto> sz))" using tk(1) b by blast
      then have "pages_inv c ?t A P Q (lv(p := L')) (B(b \<mapsto> sz))" by simp
      then have "slob_inv c A ?t (B(b \<mapsto> sz))" using lo unfolding slob_inv_def by blast
      moreover have mt: "mm ?t = mm s" by simp
      ultimately have "alloc_done c A s B sz sz' (slob_keeps align) b ?t"
        unfolding alloc_done_def mt using tk(2,4) b sz(2) by blast
      moreover have "slob_try l sz' SLOB_OFFSET align bsize (p # ps) s = Some (Some b, ?t)"
        using False res Some by simp
      moreover have "in_page b sz'"
        unfolding in_page_def b by (intro exI [of _ p]) (use tk(5,6) in simp)
      ultimately show ?thesis using mt by blast
    qed
  qed
qed simp

text \<open>A block of whole pages is obtained from the page allocator.\<close>

lemma slob_get_page_spec:
  assumes inv: "pages_inv c s A P Q lv B" and res: "slob_get_page c k g s = (Some p, t)"
  shows "p \<notin> A \<union> P \<union> Q" "buddy_inv c (mm t) (insert p (A \<union> P \<union> Q)) {}"
    "pg_type (page_map (mm t) p) = PAGE_SLOB" "blk (mm t) p = block p k" "2 ^ k dvd p"
    "q \<in> A \<union> P \<union> Q \<Longrightarrow> page_map (mm t) q = page_map (mm s) q"
    "t = s\<lparr>mm := mm t\<rparr>"
    "bytes (mm t) x = (if g AND GFP_ZERO \<noteq> 0 \<and> p * PAGE_SIZE \<le> x \<and>
        x < p * PAGE_SIZE + PAGE_SIZE * 2 ^ k then 0 else bytes (mm s) x)"
proof -
  have bi: "buddy_inv c (mm s) (A \<union> P \<union> Q) {}" using inv by (simp add: pages_inv_def)
  obtain m where pa: "page_alloc c k g (mm s) = (Some p, m)" and t: "t = s\<lparr>mm := set_type p PAGE_SLOB m\<rparr>"
    using res by (auto simp: slob_get_page_def split: prod.splits option.splits)
  note sp = page_alloc_spec [OF bi pa]
  show fresh: "p \<notin> A \<union> P \<union> Q" using sp by blast
  have "buddy_inv c m (insert p (A \<union> P \<union> Q)) {}" using sp by blast
  then show "buddy_inv c (mm t) (insert p (A \<union> P \<union> Q)) {}"
    unfolding t using buddy_inv_mark [of c m "insert p (A \<union> P \<union> Q)" "{}" p PAGE_SLOB] by simp
  show "pg_type (page_map (mm t) p) = PAGE_SLOB" by (simp add: t)
  show "blk (mm t) p = block p k" using sp by (simp add: t blk_def)
  show "2 ^ k dvd p" using sp by blast
  show "page_map (mm t) q = page_map (mm s) q" if "q \<in> A \<union> P \<union> Q"
  proof -
    have "q \<noteq> p" using that fresh by blast
    moreover have "page_map m q = page_map (mm s) q" using sp that by blast
    ultimately show ?thesis by (simp add: t)
  qed
  show "t = s\<lparr>mm := mm t\<rparr>" by (simp add: t)
  show "bytes (mm t) x = (if g AND GFP_ZERO \<noteq> 0 \<and> p * PAGE_SIZE \<le> x \<and>
        x < p * PAGE_SIZE + PAGE_SIZE * 2 ^ k then 0 else bytes (mm s) x)"
    using sp by (simp add: t)
qed

lemma slob_get_page_none:
  assumes inv: "pages_inv c s A P Q lv B" and res: "slob_get_page c k g s = (None, t)"
  shows "t = s" "fst (page_alloc c k g (mm s)) = None"
proof -
  have bi: "buddy_inv c (mm s) (A \<union> P \<union> Q) {}" using inv by (simp add: pages_inv_def)
  obtain m where pa: "page_alloc c k g (mm s) = (None, m)" and t: "t = s\<lparr>mm := m\<rparr>"
    using res by (auto simp: slob_get_page_def split: prod.splits option.splits)
  show "t = s" using buddy.alloc_none [OF bi pa] t by simp
  show "fst (page_alloc c k g (mm s)) = None" using pa by simp
qed

text \<open>The page is divided into chunks: it starts with a single free one.\<close>

lemma pages_inv_new_page:
  fixes l :: slob_list
  assumes inv: "pages_inv c s A P Q lv B" "lists_ok s P" and res: "slob_get_page c 0 g s = (Some p, t)"
  defines "sp \<equiv> \<lparr>sp_head = l, sp_node = Some (p * PAGE_SIZE), sp_avail = PAGE_SIZE\<rparr>"
    and "h \<equiv> (sl_nodes t)(p * PAGE_SIZE := \<lparr>nd_size = PAGE_SIZE, nd_using = False\<rparr>)"
  defines "u \<equiv> set_list l (p # sl_lists t l) (set_page p h sp t)"
  shows "pages_inv c u A (insert p P) Q (lv(p := Map.empty)) B" "lists_ok u (insert p P)"
    "page_ok p h sp Map.empty"
proof -
  note gp = slob_get_page_spec [OF inv(1) res]
  have ts: "sl_nodes t = sl_nodes s" "sl_pages t = sl_pages s" "sl_lists t = sl_lists s"
    by (subst gp(7), simp)+
  have chunk: "chunks p h sp (p * PAGE_SIZE) [(PAGE_SIZE, False)]"
    by (simp add: chunks_def sp_def h_def)
  show ok: "page_ok p h sp Map.empty"
    unfolding page_ok_def using chunk
    by (intro exI [of _ "p * PAGE_SIZE"] exI [of _ "[(PAGE_SIZE, False)]"]) simp
  have others: "page_ok p' h (sl_pages s p') (lv p')" if "p' \<in> P" for p'
  proof (rule page_ok_frame [OF pages_inv_page [OF inv(1) that]])
    fix q assume q: "p' * PAGE_SIZE \<le> q" "q < Suc p' * PAGE_SIZE"
    have "p' \<noteq> p" using that gp(1) by auto
    then have "q \<noteq> p * PAGE_SIZE" using other_page [of p p' q] q by auto
    then show "h q = sl_nodes s q" by (simp add: h_def ts)
  qed
  have blk: "blk (mm t) q = blk (mm s) q" if "q \<in> P \<union> Q" for q
    using gp(6) [of q] that by (simp add: blk_def)
  have br: "block_rel (mm s) P Q lv B" using inv(1) by (simp add: pages_inv_def)
  have "block_rel (mm t) (insert p P) Q (lv(p := Map.empty)) B"
    unfolding block_rel_def
  proof (intro conjI ballI allI impI)
    fix p' node n assume "p' \<in> insert p P" "(lv(p := Map.empty)) p' node = Some n"
    then have "p' \<in> P" "lv p' node = Some n" by (auto split: if_splits)
    then show "\<exists>sz. B (node + SLOB_OFFSET) = Some sz \<and> 0 < sz \<and> SLOB_OFFSET + sz \<le> n"
      using br unfolding block_rel_def by blast
  next
    fix q assume "q \<in> Q"
    then show "\<exists>sz. B (q * PAGE_SIZE) = Some sz \<and> sz \<le> PAGE_SIZE * card (blk (mm t) q)"
      using br blk unfolding block_rel_def by simp
  next
    fix b sz assume "B b = Some sz"
    then show "(\<exists>q \<in> Q. b = q * PAGE_SIZE) \<or>
      (\<exists>p' \<in> insert p P. \<exists>node n. (lv(p := Map.empty)) p' node = Some n \<and> b = node + SLOB_OFFSET)"
    proof (rule block_cases [OF inv(1)])
      fix p' node n assume x: "p' \<in> P" "lv p' node = Some n" "b = node + SLOB_OFFSET"
      moreover from x have "p' \<noteq> p" using gp(1) by auto
      ultimately show ?thesis by auto
    qed blast
  qed
  moreover have "A \<union> insert p P \<union> Q = insert p (A \<union> P \<union> Q)" by auto
  moreover have "p \<notin> A" "p \<notin> Q" "p \<notin> P" using gp(1) by auto
  moreover have "((sl_pages t)(p := sp)) q = sl_pages s q" if "q \<in> P \<union> Q" for q
    using that gp(1) by (auto simp: ts)
  ultimately show "pages_inv c u A (insert p P) Q (lv(p := Map.empty)) B"
    using inv(1) gp(2,3,4,6) ok others blk unfolding pages_inv_def u_def by auto
  have "p \<notin> set (sl_lists s l')" for l'
    using inv(2) gp(1) unfolding lists_ok_def by blast
  then show "lists_ok u (insert p P)"
    using inv(2) gp(1) unfolding lists_ok_def u_def by (auto simp: ts sp_def split: if_splits)
qed

lemma slob_zero_spec:
  assumes d: "alloc_done c A s B sz len align b t"
  shows "\<exists>t'. slob_zero g len (Some b, t) = Some (Some b, t') \<and> alloc_done c A s B sz len align b t' \<and>
    (g AND GFP_ZERO \<noteq> 0 \<longrightarrow> (\<forall>x. b \<le> x \<and> x < b + len \<longrightarrow> bytes (mm t') x = 0))"
proof -
  let ?u = "\<lambda>f. t\<lparr>mm := (mm t)\<lparr>bytes := f\<rparr>\<rparr>"
  have irr: "buddy_inv c (m\<lparr>bytes := f\<rparr>) X Y = buddy_inv c m X Y" for m f X Y
    by (simp add: buddy_inv_def free_list_ok_def alloc_ok_def blk_def free_heads_def)
  have "slob_inv c A (?u f) B' = slob_inv c A t B'" for f B'
    unfolding slob_inv_def pages_inv_def lists_ok_def block_rel_def by (simp add: irr blk_def)
  then show ?thesis using d
    by (auto simp: slob_zero_def alloc_done_def mem_zero_def)
qed

lemma slob_fit_fresh:
  assumes "h node = \<lparr>nd_size = PAGE_SIZE, nd_using = False\<rparr>" "node mod PAGE_SIZE = 0"
  shows "slob_fit h sz align offset node None =
    (if slob_delta align offset node + offset + sz \<le> PAGE_SIZE
     then Some (Some (node, None, slob_delta align offset node)) else Some None)"
  by (subst slob_fit.simps) (use assms in \<open>simp add: slob_delta_def slob_node_last_def slob_node_next_def\<close>)

definition too_big :: "nat \<Rightarrow> nat \<Rightarrow> bool" where
  "too_big align len \<longleftrightarrow> (\<exists>p. PAGE_SIZE < slob_delta align SLOB_OFFSET (p * PAGE_SIZE) + SLOB_OFFSET + len)"

lemma slob_alloc_node_spec:
  assumes inv: "slob_inv c A s B" and sz: "0 < sz" "sz \<le> sz'"
  shows "(case slob_alloc_node c l sz' SLOB_OFFSET align bsize g s of
      None \<Rightarrow> g AND GFP_ZERO \<noteq> 0 \<and> too_big align sz'
    | Some (None, t) \<Rightarrow> slob_inv c A t B \<and> bytes (mm t) = bytes (mm s) \<and>
        (fst (page_alloc c 0 (g AND NOT GFP_ZERO) (mm s)) = None \<or> too_big align sz')
    | Some (Some b, t) \<Rightarrow> alloc_done c A s B sz sz' (slob_keeps align) b t \<and> in_page b sz' \<and>
        (g AND GFP_ZERO \<noteq> 0 \<longrightarrow> (\<forall>x. b \<le> x \<and> x < b + sz' \<longrightarrow> bytes (mm t) x = 0)))"
proof -
  obtain P Q lv where pi: "pages_inv c s A P Q lv B" "lists_ok s P"
    using inv by (auto simp: slob_inv_def)
  let ?search = "slob_try l sz' SLOB_OFFSET align bsize (sl_lists s l) s"
  consider b t where "?search = Some (Some b, t)" "alloc_done c A s B sz sz' (slob_keeps align) b t" "in_page b sz'" | "?search = Some (None, s)"
    using slob_try_spec [OF pi order_refl sz] by blast
  then show ?thesis
  proof cases
    case 1
    then show ?thesis using slob_zero_spec [OF 1(2), of g] by (auto simp: slob_alloc_node_def)
  next
    case 2
    have nz: "(g AND NOT GFP_ZERO) AND GFP_ZERO = 0" by (rule bit_word_eqI) (auto simp: bit_simps)
    obtain r u where gp: "slob_get_page c 0 (g AND NOT GFP_ZERO) s = (r, u)" by fastforce
    show ?thesis
    proof (cases r)
      case None
      then show ?thesis using 2 gp slob_get_page_none [OF pi(1), of 0 "g AND NOT GFP_ZERO" u] inv
        by (simp add: slob_alloc_node_def)
    next
      case (Some p)
      note gp = gp [unfolded Some]
      note gps = slob_get_page_spec [OF pi(1) gp]
      note np = pages_inv_new_page [OF pi gp, of l]
      let ?sp = "\<lparr>sp_head = l, sp_node = Some (p * PAGE_SIZE), sp_avail = PAGE_SIZE\<rparr>"
      let ?h = "(sl_nodes u)(p * PAGE_SIZE := \<lparr>nd_size = PAGE_SIZE, nd_using = False\<rparr>)"
      let ?u = "set_list l (p # sl_lists u l) (set_page p ?h ?sp u)"
      have same: "bytes (mm u) = bytes (mm s)" using gps(8) nz by (simp add: fun_eq_iff)
      obtain r' h sp where al: "slob_page_alloc ?h ?sp sz' align SLOB_OFFSET bsize = Some (r', h, sp)"
        and r': "case r' of None \<Rightarrow> h = ?h \<and> sp = ?sp
          | Some b \<Rightarrow> \<exists>node. b = node + SLOB_OFFSET \<and>
              page_alloc_post p ?h ?sp Map.empty node sz' align SLOB_OFFSET h sp"
        using slob_page_alloc_spec [OF np(3) SLOB_OFFSET_pos] by blast
      have res: "slob_alloc_node c l sz' SLOB_OFFSET align bsize g s = slob_zero g sz' (r', set_page p h sp ?u)"
        using 2 gp al by (simp add: slob_alloc_node_def Let_def)
      show ?thesis
      proof (cases r')
        case None
        then have st: "set_page p h sp ?u = ?u" using r' by (simp add: set_page_def set_list_def)
        have "slob_inv c A ?u B" using np(1,2) unfolding slob_inv_def by blast
        moreover have "too_big align sz'"
          using al None slob_fit_fresh [of ?h "p * PAGE_SIZE" sz' align SLOB_OFFSET]
          unfolding too_big_def
          by (intro exI [of _ p]) (auto simp: slob_page_alloc_def split: if_splits prod.splits)
        ultimately show ?thesis using res None st same by (simp add: slob_zero_def)
      next
        case (Some b)
        then obtain node where b: "b = node + SLOB_OFFSET"
          and post: "page_alloc_post p ?h ?sp Map.empty node sz' align SLOB_OFFSET h sp"
          using r' by auto
        have post': "page_alloc_post p (sl_nodes ?u) (sl_pages ?u p) ((lv(p := Map.empty)) p) node sz' align SLOB_OFFSET h sp"
          using post by simp
        note tk = pages_inv_take [OF np(1) insertI1 post' sz]
        obtain L' where "pages_inv c (set_page p h sp ?u) A (insert p P) Q ((lv(p := Map.empty))(p := L')) (B(b \<mapsto> sz))"
          using tk(1) b by blast
        moreover have "lists_ok (set_page p h sp ?u) (insert p P)"
          by (rule lists_ok_page [OF np(2)]) (use tk(3) in simp_all)
        ultimately have "slob_inv c A (set_page p h sp ?u) (B(b \<mapsto> sz))" unfolding slob_inv_def by blast
        then have "alloc_done c A s B sz sz' (slob_keeps align) b (set_page p h sp ?u)"
          unfolding alloc_done_def using tk(2,4) b sz(2) same by simp
        from slob_zero_spec [OF this, of g] obtain t' where
          "slob_zero g sz' (Some b, set_page p h sp ?u) = Some (Some b, t')"
          "alloc_done c A s B sz sz' (slob_keeps align) b t'"
          "g AND GFP_ZERO \<noteq> 0 \<longrightarrow> (\<forall>x. b \<le> x \<and> x < b + sz' \<longrightarrow> bytes (mm t') x = 0)" by blast
        moreover have "in_page b sz'"
          unfolding in_page_def b by (intro exI [of _ p]) (use tk(5,6) in simp)
        ultimately show ?thesis unfolding res Some by simp
      qed
    qed
  qed
qed


section \<open>The front end\<close>

lemma order_of_pages_bound: "n < 2 ^ order_of_pages n"
proof (induction n rule: order_of_pages.induct)
  case (1 n)
  then show ?case by (subst order_of_pages.simps) auto
qed

lemma size_to_order_bound: "n \<le> PAGE_SIZE * 2 ^ size_to_order n"
proof -
  let ?k = "(n - 1) div PAGE_SIZE"
  have "n - 1 < PAGE_SIZE * Suc ?k"
    using dividend_less_times_div [OF PAGE_SIZE_pos, of "n - 1"] by simp
  moreover have "Suc ?k \<le> 2 ^ order_of_pages ?k" using order_of_pages_bound [of ?k] by simp
  then have "PAGE_SIZE * Suc ?k \<le> PAGE_SIZE * 2 ^ order_of_pages ?k" by (rule mult_le_mono2)
  ultimately show ?thesis unfolding size_to_order_def by linarith
qed

lemma kmalloc_large_spec:
  assumes inv: "pages_inv c s A P Q lv B" "lists_ok s P" and res: "kmalloc_large c sz0 g align s = (Some p, t)"
  defines "k \<equiv> size_to_order (max sz0 align)"
  assumes sz: "sz \<le> PAGE_SIZE * 2 ^ k"
  shows "alloc_done c A s B sz (PAGE_SIZE * 2 ^ k) (PAGE_SIZE * 2 ^ k) (p * PAGE_SIZE) t"
    "g AND GFP_ZERO \<noteq> 0 \<Longrightarrow> p * PAGE_SIZE \<le> x \<Longrightarrow> x < p * PAGE_SIZE + PAGE_SIZE * 2 ^ k \<Longrightarrow> bytes (mm t) x = 0"
proof -
  obtain u where gp: "slob_get_page c k g s = (Some p, u)"
    and t: "t = u\<lparr>sl_pages := (sl_pages u)(p := (sl_pages u p)\<lparr>sp_node := None\<rparr>)\<rparr>"
    using res by (auto simp: kmalloc_large_def k_def split: prod.splits option.splits)
  note gps = slob_get_page_spec [OF inv(1) gp]
  have us: "sl_nodes u = sl_nodes s" "sl_pages u = sl_pages s" "sl_lists u = sl_lists s"
    by (subst gps(7), simp)+
  show "g AND GFP_ZERO \<noteq> 0 \<Longrightarrow> p * PAGE_SIZE \<le> x \<Longrightarrow> x < p * PAGE_SIZE + PAGE_SIZE * 2 ^ k \<Longrightarrow> bytes (mm t) x = 0"
    using gps(8) by (simp add: t)
  let ?b = "p * PAGE_SIZE"
  have br: "block_rel (mm s) P Q lv B" using inv(1) by (simp add: pages_inv_def)
  have bp: "?b div PAGE_SIZE = p" by simp
  have fresh: "B ?b = None"
  proof (cases "B ?b")
    case (Some n)
    then show ?thesis
    proof (rule block_cases [OF inv(1)])
      fix p' assume "p' \<in> P" "?b div PAGE_SIZE = p'"
      then show ?thesis using gps(1) bp by simp
    qed (use gps(1) in auto)
  qed
  have blk: "blk (mm u) q = blk (mm s) q" if "q \<in> P \<union> Q" for q
    using gps(6) [of q] that by (simp add: blk_def)
  have keep: "B a \<noteq> None \<Longrightarrow> (B(?b \<mapsto> sz)) a = B a" for a using fresh by auto
  have "block_rel (mm u) P (insert p Q) lv (B(?b \<mapsto> sz))"
    unfolding block_rel_def
  proof (intro conjI ballI allI impI)
    fix p' node n assume "p' \<in> P" "lv p' node = Some n"
    then show "\<exists>sz'. (B(?b \<mapsto> sz)) (node + SLOB_OFFSET) = Some sz' \<and> 0 < sz' \<and> SLOB_OFFSET + sz' \<le> n"
      using br keep unfolding block_rel_def by (metis option.distinct(1))
  next
    fix q assume q: "q \<in> insert p Q"
    show "\<exists>sz'. (B(?b \<mapsto> sz)) (q * PAGE_SIZE) = Some sz' \<and> sz' \<le> PAGE_SIZE * card (blk (mm u) q)"
    proof (cases "q = p")
      case True
      then show ?thesis using sz gps(4) by simp
    next
      case False
      then show ?thesis using q br blk keep unfolding block_rel_def
        by (metis UnI2 insertE option.distinct(1))
    qed
  next
    fix a n assume a: "(B(?b \<mapsto> sz)) a = Some n"
    show "(\<exists>q \<in> insert p Q. a = q * PAGE_SIZE) \<or>
      (\<exists>p' \<in> P. \<exists>node n. lv p' node = Some n \<and> a = node + SLOB_OFFSET)"
    proof (cases "a = ?b")
      case False
      then have "B a = Some n" using a by simp
      then show ?thesis using br unfolding block_rel_def by blast
    qed blast
  qed
  moreover have "A \<union> P \<union> insert p Q = insert p (A \<union> P \<union> Q)" by auto
  moreover have np: "p \<notin> A" "p \<notin> Q" "p \<notin> P" using gps(1) by auto
  moreover have "sl_pages t q = sl_pages s q" if "q \<in> P \<union> Q" for q
    using that np by (auto simp: t us)
  moreover have "sp_node (sl_pages t p) = None" "mm t = mm u" "sl_nodes t = sl_nodes s"
    by (simp_all add: t us)
  ultimately have "pages_inv c t A P (insert p Q) lv (B(?b \<mapsto> sz))"
    using inv(1) gps(2,3,4,6) blk unfolding pages_inv_def by auto
  moreover have "lists_ok t P"
    using inv(2) np(3) unfolding lists_ok_def by (auto simp: t us split: if_splits)
  ultimately have "slob_inv c A t (B(?b \<mapsto> sz))" unfolding slob_inv_def by blast
  moreover have "PAGE_SIZE * 2 ^ k dvd ?b" using gps(5) by (simp add: mult.commute)
  moreover have "bytes (mm t) x = bytes (mm s) x" if "x < ?b \<or> ?b + PAGE_SIZE * 2 ^ k \<le> x" for x
    using gps(8) [of x] that by (auto simp: t)
  ultimately show "alloc_done c A s B sz (PAGE_SIZE * 2 ^ k) (PAGE_SIZE * 2 ^ k) ?b t"
    using fresh sz by (simp add: alloc_done_def)
qed

text \<open>What the size classes of \<open>slob_alloc\<close> make of a request.\<close>

definition slob_align_of :: "nat \<Rightarrow> nat" where
  "slob_align_of align = max (align_high align SLOB_ALIGN) SLOB_ALIGN"

definition slob_len_of :: "nat \<Rightarrow> nat \<Rightarrow> nat" where
  "slob_len_of sz align = align_high sz (slob_align_of align)"

lemma slob_align_of_pos: "0 < slob_align_of align" "SLOB_ALIGN \<le> slob_align_of align"
  by (simp_all add: slob_align_of_def SLOB_OFFSET_eq)

lemma slob_len_of_ge: "sz \<le> slob_len_of sz align"
  unfolding slob_len_of_def by (rule align_high_ge)

lemma slob_align_power: "SLOB_ALIGN = 2 ^ 6"
  by (simp add: SLOB_OFFSET_eq)

lemma slob_align_of_power: "slob_align_of (2 ^ k) = 2 ^ max k 6"
proof (cases "k \<le> 6")
  case True
  then have "(2 :: nat) ^ k \<le> 2 ^ 6" by (intro power_increasing) simp_all
  then have "align_high (2 ^ k) SLOB_ALIGN < 2 ^ 6 + 2 ^ 6"
    using align_high_less [of SLOB_ALIGN "2 ^ k"] by (simp add: SLOB_OFFSET_eq)
  moreover obtain m where "align_high (2 ^ k) SLOB_ALIGN = 2 ^ 6 * m"
    unfolding slob_align_power by (metis align_high_dvd dvdE)
  ultimately have "align_high (2 ^ k) SLOB_ALIGN \<le> 2 ^ 6" by simp
  then show ?thesis using True by (simp add: slob_align_of_def SLOB_OFFSET_eq max_def)
next
  case False
  then have "(2 :: nat) ^ 6 dvd 2 ^ k" by (intro le_imp_power_dvd) simp
  then have "align_high (2 ^ k) SLOB_ALIGN = 2 ^ k" unfolding slob_align_power by (rule align_high_id)
  moreover have "SLOB_ALIGN \<le> 2 ^ k" unfolding slob_align_power using False by (intro power_increasing) simp_all
  ultimately show ?thesis using False by (simp add: slob_align_of_def max_def)
qed

definition is_large :: "nat \<Rightarrow> nat \<Rightarrow> bool" where
  "is_large sz align \<longleftrightarrow> \<not> (sz \<le> PAGE_SIZE - SLOB_ALIGN \<and> align \<le> PAGE_SIZE div 2)"

lemma kmalloc_align_spec:
  assumes inv: "slob_inv c A s B" and sz: "0 < sz"
  shows "(case kmalloc_align c sz g align s of
      None \<Rightarrow> g AND GFP_ZERO \<noteq> 0 \<and> \<not> is_large sz align \<and> too_big (slob_align_of align) (slob_len_of sz align)
    | Some (None, t) \<Rightarrow> slob_inv c A t B \<and> bytes (mm t) = bytes (mm s) \<and>
        (if is_large sz align
         then fst (page_alloc c (size_to_order (max sz align)) g (mm s)) = None
         else fst (page_alloc c 0 (g AND NOT GFP_ZERO) (mm s)) = None \<or>
              too_big (slob_align_of align) (slob_len_of sz align))
    | Some (Some b, t) \<Rightarrow>
        B b = None \<and> ((\<exists>k. align = 2 ^ k) \<longrightarrow> align dvd b) \<and>
        (is_large sz align \<or> in_page b (slob_len_of sz align)) \<and> slob_inv c A t (B(b \<mapsto> sz)) \<and>
        (\<exists>len \<ge> sz. slob_inv c A t (B(b \<mapsto> len)) \<and> (\<forall>x. x < b \<or> b + len \<le> x \<longrightarrow> bytes (mm t) x = bytes (mm s) x)) \<and>
        (g AND GFP_ZERO \<noteq> 0 \<longrightarrow> (\<forall>x. b \<le> x \<and> x < b + sz \<longrightarrow> bytes (mm t) x = 0)))"
proof -
  obtain P Q lv where pi: "pages_inv c s A P Q lv B" "lists_ok s P"
    using inv by (auto simp: slob_inv_def)
  show ?thesis
  proof (cases "is_large sz align")
    case True
    let ?k = "size_to_order (max sz align)"
    obtain r t where res: "kmalloc_large c sz g align s = (r, t)" by fastforce
    have km: "kmalloc_align c sz g align s = Some (map_option (\<lambda>p. p * PAGE_SIZE) r, t)"
      using True res by (auto simp: kmalloc_align_def is_large_def split: option.splits)
    show ?thesis
    proof (cases r)
      case None
      then have gp: "slob_get_page c ?k g s = (None, t)"
        using res by (auto simp: kmalloc_large_def split: prod.splits option.splits)
      then show ?thesis
        using slob_get_page_none [OF pi(1) gp] inv True None km by simp
    next
      case (Some p)
      let ?n = "PAGE_SIZE * 2 ^ ?k"
      have szn: "sz \<le> ?n" using size_to_order_bound [of "max sz align"] by simp
      note sp = kmalloc_large_spec [OF pi res [unfolded Some] order_refl]
      note sp1 = kmalloc_large_spec [OF pi res [unfolded Some] szn]
      have "align dvd p * PAGE_SIZE" if al: "align = 2 ^ j" for j
      proof -
        have "align \<le> ?n" using size_to_order_bound [of "max sz align"] by simp
        moreover have "?n = 2 ^ (PAGE_SHIFT + ?k)" by (simp add: PAGE_SIZE_def power_add)
        ultimately have "align dvd ?n" using al by (simp add: le_imp_power_dvd)
        moreover have "?n dvd p * PAGE_SIZE" using sp(1) by (simp add: alloc_done_def)
        ultimately show ?thesis by (rule dvd_trans)
      qed
      moreover have "\<exists>len \<ge> sz. slob_inv c A t (B(p * PAGE_SIZE \<mapsto> len)) \<and>
          (\<forall>x. x < p * PAGE_SIZE \<or> p * PAGE_SIZE + len \<le> x \<longrightarrow> bytes (mm t) x = bytes (mm s) x)"
        by (intro exI [of _ ?n]) (use szn sp in \<open>auto simp: alloc_done_def\<close>)
      moreover have "B (p * PAGE_SIZE) = None" "slob_inv c A t (B(p * PAGE_SIZE \<mapsto> sz))"
        using sp1(1) by (simp_all add: alloc_done_def)
      moreover have "g AND GFP_ZERO \<noteq> 0 \<longrightarrow>
          (\<forall>x. p * PAGE_SIZE \<le> x \<and> x < p * PAGE_SIZE + sz \<longrightarrow> bytes (mm t) x = 0)"
        using sp1(2) szn by fastforce
      ultimately show ?thesis using km Some True by auto
    qed
  next
    case False
    let ?al = "slob_align_of align" and ?len = "slob_len_of sz align"
    obtain l bsize where lb: "(if ?len < SLOB_MEDIUM_LINE then (Slob_small, SLOB_ALIGN)
        else if ?len < SLOB_HUGE_LINE then (Slob_medium, SLOB_MEDIUM_LINE)
        else (Slob_large, SLOB_HUGE_LINE)) = (l, bsize)" by (metis surj_pair)
    have km: "kmalloc_align c sz g align s = slob_alloc_node c l ?len SLOB_OFFSET ?al bsize g s"
    proof -
      have "slob_alloc c sz g align s = slob_alloc_node c l ?len SLOB_OFFSET ?al bsize g s"
        unfolding slob_alloc_def Let_def slob_align_of_def [symmetric] slob_len_of_def [symmetric] lb
        using sz by simp
      then show ?thesis using False by (simp add: kmalloc_align_def is_large_def)
    qed
    note sp = slob_alloc_node_spec [OF inv sz slob_len_of_ge [of sz align], where l = l and align = ?al and bsize = bsize and g = g, folded km]
    have len: "0 < ?len" using sz slob_len_of_ge [of sz align] by simp
    note spl = slob_alloc_node_spec [OF inv len order_refl, where l = l and align = ?al and bsize = bsize and g = g, folded km]
    have al: "align dvd b" if kept: "slob_keeps ?al \<noteq> 0 \<longrightarrow> slob_keeps ?al dvd b" and power: "\<exists>k. align = 2 ^ k" for b
    proof -
      obtain k where k: "align = 2 ^ k" using power by blast
      then have "(2 :: nat) ^ k \<le> 2 ^ 11" using False by (simp add: is_large_def PAGE_SIZE_def PAGE_SHIFT_def)
      then have "k \<le> 11" by (simp only: power_increasing_iff one_less_numeral_iff semiring_norm)
      then have "\<exists>j \<le> 16. ?al = 2 ^ j" using slob_align_of_power [of k] k by (intro exI [of _ "max k 6"]) simp
      then have "2 ^ max k 6 dvd b" using kept slob_align_of_power [of k] k by (simp add: slob_keeps_def)
      moreover have "align dvd 2 ^ max k 6" unfolding k by (rule le_imp_power_dvd) simp
      ultimately show ?thesis by (rule dvd_trans [rotated])
    qed
    show ?thesis
    proof (cases "kmalloc_align c sz g align s")
      case None
      then show ?thesis using sp False by simp
    next
      case (Some x)
      obtain r t where x: "x = (r, t)" by fastforce
      show ?thesis
      proof (cases r)
        case None
        then show ?thesis using sp False Some x by simp
      next
        case b: (Some b)
        have "alloc_done c A s B sz ?len (slob_keeps ?al) b t" "alloc_done c A s B ?len ?len (slob_keeps ?al) b t" "in_page b ?len"
          "g AND GFP_ZERO \<noteq> 0 \<longrightarrow> (\<forall>x. b \<le> x \<and> x < b + ?len \<longrightarrow> bytes (mm t) x = 0)"
          using sp spl Some x b by simp_all
        then show ?thesis
          using Some x b al [of b] slob_len_of_ge [of sz align]
          by (auto simp: alloc_done_def intro!: exI [of _ ?len])
      qed
    qed
  qed
qed


section \<open>Release\<close>

lemma pages_inv_drop:
  assumes inv: "pages_inv c s A P Q lv B" and p: "p \<in> P" "lv p node = Some n"
    and post: "page_free_post p (sl_nodes s) (sl_pages s p) ((lv p)(node := None)) ret h sp"
  shows "pages_inv c (set_page p h sp s) A P Q (lv(p := (lv p)(node := None))) (B(node + SLOB_OFFSET := None))"
proof -
  let ?L = "(lv p)(node := None)" and ?b = "node + SLOB_OFFSET"
  have po: "page_ok p h sp ?L" and fr: "\<forall>q. q < p * PAGE_SIZE \<or> Suc p * PAGE_SIZE \<le> q \<longrightarrow> h q = sl_nodes s q"
    using post by (auto simp: page_free_post_def)
  have PQ: "P \<inter> Q = {}" using inv by (simp add: pages_inv_def)
  have br: "block_rel (mm s) P Q lv B" using inv by (simp add: pages_inv_def)
  note bp = block_page [OF inv p]
  have "block_rel (mm s) P Q (lv(p := ?L)) (B(?b := None))"
    unfolding block_rel_def
  proof (intro conjI ballI allI impI)
    fix p' node' n' assume a: "p' \<in> P" "(lv(p := ?L)) p' node' = Some n'"
    then have l: "lv p' node' = Some n'" and ne: "p' \<noteq> p \<or> node' \<noteq> node" by (auto split: if_splits)
    have "node' + SLOB_OFFSET \<noteq> ?b"
      using ne bp(1) block_page(1) [OF inv a(1) l] by auto
    then show "\<exists>sz. (B(?b := None)) (node' + SLOB_OFFSET) = Some sz \<and> 0 < sz \<and> SLOB_OFFSET + sz \<le> n'"
      using br a(1) l unfolding block_rel_def by auto
  next
    fix q assume q: "q \<in> Q"
    moreover have "q * PAGE_SIZE div PAGE_SIZE = q" by simp
    ultimately have "q * PAGE_SIZE \<noteq> ?b" using bp(1) PQ p(1) by (metis disjoint_iff)
    with q show "\<exists>sz. (B(?b := None)) (q * PAGE_SIZE) = Some sz \<and> sz \<le> PAGE_SIZE * card (blk (mm s) q)"
      using br unfolding block_rel_def by auto
  next
    fix a sz assume a: "(B(?b := None)) a = Some sz"
    then have "B a = Some sz" "a \<noteq> ?b" by (auto split: if_splits)
    then show "(\<exists>q \<in> Q. a = q * PAGE_SIZE) \<or>
      (\<exists>p' \<in> P. \<exists>node' n'. (lv(p := ?L)) p' node' = Some n' \<and> a = node' + SLOB_OFFSET)"
      by (elim block_cases [OF inv]) auto
  qed
  moreover have "page_ok p' h (((sl_pages s)(p := sp)) p') ((lv(p := ?L)) p')" if "p' \<in> P" for p'
  proof (cases "p' = p")
    case False
    have "page_ok p' h (sl_pages s p') (lv p')"
      by (rule page_ok_frame [OF pages_inv_page [OF inv that]])
        (use fr other_page [OF False [symmetric]] in blast)
    then show ?thesis using False by simp
  qed (use po in simp)
  moreover have "((sl_pages s)(p := sp)) q = sl_pages s q" if "q \<in> Q" for q
    using that p(1) PQ by auto
  ultimately show ?thesis using inv unfolding pages_inv_def by simp
qed

text \<open>A page block goes back to the page allocator.\<close>

lemma pages_inv_page_free:
  assumes inv: "pages_inv c s A P Q lv B" "p \<in> P \<union> Q"
    and none: "p \<in> P \<Longrightarrow> lv p = Map.empty"
  defines "t \<equiv> s\<lparr>mm := page_free c p (mm s)\<rparr>"
  shows "pages_inv c t A (P - {p}) (Q - {p}) lv (if p \<in> Q then B(p * PAGE_SIZE := None) else B)"
    and "bytes (mm t) = bytes (mm s)"
proof -
  have bi: "buddy_inv c (mm s) (A \<union> P \<union> Q) {}" and dis: "A \<inter> P = {}" "A \<inter> Q = {}" "P \<inter> Q = {}"
    and br: "block_rel (mm s) P Q lv B"
    using inv(1) by (simp_all add: pages_inv_def)
  have "p \<in> A \<union> P \<union> Q" using inv(2) by blast
  note sp = page_free_spec [OF bi this, unfolded free_spec_def]
  have eq: "A \<union> P \<union> Q - {p} = A \<union> (P - {p}) \<union> (Q - {p})" using dis inv(2) by blast
  have pm: "page_map (mm t) q = page_map (mm s) q" if "q \<in> A \<union> P \<union> Q" "q \<noteq> p" for q
    using sp that by (simp add: t_def)
  then have blk: "blk (mm t) q = blk (mm s) q" if "q \<in> A \<union> P \<union> Q" "q \<noteq> p" for q
    using that by (simp add: blk_def)
  have oth: "sl_nodes t = sl_nodes s" "sl_pages t = sl_pages s" by (simp_all add: t_def)
  let ?B = "if p \<in> Q then B(p * PAGE_SIZE := None) else B"
  have "block_rel (mm t) (P - {p}) (Q - {p}) lv ?B"
    unfolding block_rel_def
  proof (intro conjI ballI allI impI)
    fix p' node n assume a: "p' \<in> P - {p}" "lv p' node = Some n"
    have "node + SLOB_OFFSET \<noteq> p * PAGE_SIZE"
      using block_page(1) [OF inv(1) _ a(2)] a(1) by auto
    then show "\<exists>sz. ?B (node + SLOB_OFFSET) = Some sz \<and> 0 < sz \<and> SLOB_OFFSET + sz \<le> n"
      using br a unfolding block_rel_def by auto
  next
    fix q assume q: "q \<in> Q - {p}"
    then have "?B (q * PAGE_SIZE) = B (q * PAGE_SIZE)" by (simp add: PAGE_SIZE_def)
    then show "\<exists>sz. ?B (q * PAGE_SIZE) = Some sz \<and> sz \<le> PAGE_SIZE * card (blk (mm t) q)"
      using br blk [of q] q unfolding block_rel_def by (metis DiffE UnI2 singletonI)
  next
    fix b sz assume b: "?B b = Some sz"
    then have "B b = Some sz" by (auto split: if_splits)
    then show "(\<exists>q \<in> Q - {p}. b = q * PAGE_SIZE) \<or>
      (\<exists>p' \<in> P - {p}. \<exists>node n. lv p' node = Some n \<and> b = node + SLOB_OFFSET)"
    proof (rule block_cases [OF inv(1)])
      fix q assume "q \<in> Q" "b = q * PAGE_SIZE"
      then show ?thesis using b by auto
    next
      fix p' node n assume "p' \<in> P" "lv p' node = Some n" "b = node + SLOB_OFFSET"
      then show ?thesis using none by (cases "p' = p") auto
    qed
  qed
  then show "pages_inv c t A (P - {p}) (Q - {p}) lv ?B"
    using inv(1) sp blk pm dis unfolding pages_inv_def oth eq by (auto simp: t_def)
  show "bytes (mm t) = bytes (mm s)" using sp by (simp add: t_def)
qed

lemma kfree_spec:
  assumes inv: "slob_inv c A s B" and b: "B b = Some sz"
  shows "\<exists>t. kfree c dbg (Some b) s = Some t \<and> slob_inv c A t (B(b := None)) \<and> bytes (mm t) = bytes (mm s)"
proof -
  obtain P Q lv where pi: "pages_inv c s A P Q lv B" "lists_ok s P"
    using inv by (auto simp: slob_inv_def)
  have PQ: "P \<inter> Q = {}" using pi(1) by (simp add: pages_inv_def)
  show ?thesis
  proof (rule block_cases [OF pi(1) b])
    fix q assume q: "q \<in> Q" "b = q * PAGE_SIZE" "b div PAGE_SIZE = q"
    let ?t = "s\<lparr>mm := page_free c q (mm s)\<rparr>"
    have "kfree c dbg (Some b) s = Some ?t"
      using pi(1) q(1,3) by (simp add: kfree_def slob_free_def pages_inv_def Let_def)
    moreover note fr = pages_inv_page_free [OF pi(1), of q]
    have "P - {q} = P" using q(1) PQ by blast
    then have "pages_inv c ?t A P (Q - {q}) lv (B(b := None))" "bytes (mm ?t) = bytes (mm s)"
      using fr q PQ by auto
    moreover have "lists_ok ?t P" using pi(2) by (simp add: lists_ok_def)
    ultimately show ?thesis unfolding slob_inv_def by blast
  next
    fix p node n assume p: "p \<in> P" "lv p node = Some n" "b = node + SLOB_OFFSET" "b div PAGE_SIZE = p"
    let ?L = "(lv p)(node := None)"
    note ok = pages_inv_page [OF pi(1) p(1)]
    obtain ret h sp where res: "slob_page_free dbg p (sl_nodes s) (sl_pages s p) b SLOB_OFFSET = Some (ret, h, sp)"
      and post: "page_free_post p (sl_nodes s) (sl_pages s p) ?L ret h sp"
      using slob_page_free_spec [OF ok p(2), of dbg SLOB_OFFSET] p(3) by auto
    let ?s = "set_page p h sp s" and ?lv = "lv(p := ?L)"
    have inv1: "pages_inv c ?s A P Q ?lv (B(b := None))"
      using pages_inv_drop [OF pi(1) p(1,2) post] p(3) by simp
    have hd: "sp_head sp = sp_head (sl_pages s p)" and av: "0 < sp_avail sp"
      and ret: "ret = (if ?L = Map.empty then 1 else 0)" "?L = Map.empty \<longrightarrow> sp_avail sp = PAGE_SIZE"
      using post by (auto simp: page_free_post_def)
    let ?l = "sp_head sp" 
    obtain first where sn: "sp_node (sl_pages s p) = Some first"
      using ok by (auto simp: page_ok_def chunks_def)
    have kf: "kfree c dbg (Some b) s =
        (if ?L = Map.empty then
           Some ((if p \<in> set (sl_lists s ?l) then set_list ?l (remove1 p (sl_lists s ?l)) ?s else ?s)
              \<lparr>mm := page_free c p (mm s)\<rparr>)
         else Some (if p \<in> set (sl_lists s ?l) then ?s else set_list ?l (p # sl_lists s ?l) ?s))"
    proof -
      have ty: "pg_type (page_map (mm s) p) = PAGE_SLOB" using pi(1) p(1) by (simp add: pages_inv_def)
      have so: "SLOB_ALIGN = SLOB_OFFSET" by (simp add: SLOB_OFFSET_eq)
      show ?thesis
        unfolding kfree_def option.case slob_free_def Let_def p(4) so res prod.case
        using ty sn ret by (cases "?L = Map.empty") simp_all
    qed
    show ?thesis
    proof (cases "?L = Map.empty")
      case True
      let ?u = "if p \<in> set (sl_lists s ?l) then set_list ?l (remove1 p (sl_lists s ?l)) ?s else ?s"
      have inv2: "pages_inv c ?u A P Q ?lv (B(b := None))" and mu: "mm ?u = mm s"
        using inv1 by simp_all
      note fr = pages_inv_page_free [OF inv2, of p, unfolded mu]
      have "Q - {p} = Q" "p \<notin> Q" using p(1) PQ by auto
      then have 1: "pages_inv c (?u\<lparr>mm := page_free c p (mm s)\<rparr>) A (P - {p}) Q ?lv (B(b := None))"
        and 2: "bytes (mm (?u\<lparr>mm := page_free c p (mm s)\<rparr>)) = bytes (mm s)"
        using fr p(1) True by auto
      have 3: "lists_ok (?u\<lparr>mm := page_free c p (mm s)\<rparr>) (P - {p})"
        by (rule lists_ok_drop [OF pi(2) hd])
      have "kfree c dbg (Some b) s = Some (?u\<lparr>mm := page_free c p (mm s)\<rparr>)"
        unfolding kf using True by simp
      then show ?thesis using slob_invI [OF 1 3] 2 by blast
    next
      case False
      let ?u = "if p \<in> set (sl_lists s ?l) then ?s else set_list ?l (p # sl_lists s ?l) ?s"
      have 1: "pages_inv c ?u A P Q ?lv (B(b := None))" using inv1 by simp
      have 2: "lists_ok ?u P"
      proof (cases "p \<in> set (sl_lists s ?l)")
        case True
        then show ?thesis using lists_ok_page [OF pi(2) _ hd] by simp
      next
        case False
        then show ?thesis using lists_ok_return [OF pi(2) p(1) _ hd] by simp
      qed
      have "kfree c dbg (Some b) s = Some ?u" unfolding kf using False by simp
      moreover have "bytes (mm ?u) = bytes (mm s)" by simp
      ultimately show ?thesis using slob_invI [OF 1 2] by blast
    qed
  qed
qed


lemma ksize_spec:
  assumes inv: "slob_inv c A s B" and b: "B b = Some sz"
  shows "\<exists>cap. ksize (Some b) s = Some cap \<and> sz \<le> cap \<and>
    (\<forall>b' n. B b' = Some n \<longrightarrow> b' \<noteq> b \<longrightarrow> {b ..< b + cap} \<inter> {b' ..< b' + n} = {}) \<and>
    slob_inv c A s (B(b \<mapsto> cap))"
proof -
  obtain P Q lv where pi: "pages_inv c s A P Q lv B" "lists_ok s P"
    using inv by (auto simp: slob_inv_def)
  have br: "block_rel (mm s) P Q lv B" and PQ: "P \<inter> Q = {}" using pi(1) by (simp_all add: pages_inv_def)
  have "\<exists>cap. ksize (Some b) s = Some cap \<and> sz \<le> cap \<and> slob_inv c A s (B(b \<mapsto> cap))"
  proof (rule block_cases [OF pi(1) b])
    fix q assume q: "q \<in> Q" "b = q * PAGE_SIZE" "b div PAGE_SIZE = q" "sz \<le> PAGE_SIZE * card (blk (mm s) q)"
    let ?n = "PAGE_SIZE * 2 ^ pg_order (page_map (mm s) q)"
    have "ksize (Some b) s = Some ?n"
      using pi(1) q(1,3) by (simp add: ksize_def pages_inv_def Let_def)
    moreover have card: "?n = PAGE_SIZE * card (blk (mm s) q)" by (simp add: blk_def)
    have nb: "node + SLOB_OFFSET \<noteq> b" if "p \<in> P" "lv p node = Some n" for p node n
      using block_page(1) [OF pi(1) that] q(1,3) PQ that(1) by auto
    have "block_rel (mm s) P Q lv (B(b \<mapsto> ?n))"
      using br nb q(1,2) card unfolding block_rel_def by auto
    then have "pages_inv c s A P Q lv (B(b \<mapsto> ?n))" using pi(1) by (simp add: pages_inv_def)
    ultimately show ?thesis using q(4) card pi(2) unfolding slob_inv_def by auto
  next
    fix p node n assume p: "p \<in> P" "lv p node = Some n" "b = node + SLOB_OFFSET" "b div PAGE_SIZE = p"
      "SLOB_OFFSET + sz \<le> n" "0 < sz"
    obtain first xs where ch: "chunks p (sl_nodes s) (sl_pages s p) first xs" "lv p = seg_live first xs"
      using pages_inv_page [OF pi(1) p(1)] by (auto simp: page_ok_def)
    note c = ch(1) [unfolded chunks_def]
    obtain as bs where x: "xs = as @ (n, True) # bs" "node = first + seg_sum as"
      using segs_split [of "sl_nodes s" first xs node n] c ch(2) p(2) by auto
    have "slob_node_find (sl_nodes s) b SLOB_OFFSET first None = Some (Some (node, node + n, before first as None))"
      using slob_find_segs [of "sl_nodes s" first as n True bs p SLOB_OFFSET None] c x p(3) by simp
    moreover have "nd_size (sl_nodes s node) = n" using c x by simp
    moreover have "pg_type (page_map (mm s) p) = PAGE_SLOB" "sp_node (sl_pages s p) = Some first"
      using pi(1) p(1) c by (simp_all add: pages_inv_def)
    ultimately have ks: "ksize (Some b) s = Some (n - SLOB_OFFSET)"
      by (simp add: ksize_def p(4) Let_def)
    have other: "p' = p \<and> node' = node" if "p' \<in> P" "lv p' node' = Some n'" "node' + SLOB_OFFSET = b" for p' node' n'
      using block_page(1) [OF pi(1) that(1,2)] that(3) p(3,4) by auto
    have nq: "q * PAGE_SIZE \<noteq> b" if "q \<in> Q" for q
    proof
      assume "q * PAGE_SIZE = b"
      then have "q = p" using p(4) by (metis PAGE_SIZE_pos nonzero_mult_div_cancel_right not_gr_zero)
      then show False using that p(1) PQ by auto
    qed
    have "block_rel (mm s) P Q lv (B(b \<mapsto> n - SLOB_OFFSET))"
      unfolding block_rel_def
    proof (intro conjI ballI allI impI)
      fix p' node' n' assume a: "p' \<in> P" "lv p' node' = Some n'"
      show "\<exists>k. (B(b \<mapsto> n - SLOB_OFFSET)) (node' + SLOB_OFFSET) = Some k \<and> 0 < k \<and> SLOB_OFFSET + k \<le> n'"
      proof (cases "node' + SLOB_OFFSET = b")
        case True
        then show ?thesis using other [OF a True] a(2) p(2,5,6) by auto
      next
        case False
        then show ?thesis using br a unfolding block_rel_def by auto
      qed
    next
      fix q assume "q \<in> Q"
      then show "\<exists>k. (B(b \<mapsto> n - SLOB_OFFSET)) (q * PAGE_SIZE) = Some k \<and> k \<le> PAGE_SIZE * card (blk (mm s) q)"
        using br nq unfolding block_rel_def by auto
    next
      fix a k assume "(B(b \<mapsto> n - SLOB_OFFSET)) a = Some k"
      then show "(\<exists>q \<in> Q. a = q * PAGE_SIZE) \<or>
        (\<exists>p' \<in> P. \<exists>node' n'. lv p' node' = Some n' \<and> a = node' + SLOB_OFFSET)"
        using br p(1,2,3) unfolding block_rel_def by (metis fun_upd_other)
    qed
    then have "pages_inv c s A P Q lv (B(b \<mapsto> n - SLOB_OFFSET))" using pi(1) by (simp add: pages_inv_def)
    then show ?thesis using ks p(5) pi(2) unfolding slob_inv_def by auto
  qed
  then obtain cap where cap: "ksize (Some b) s = Some cap" "sz \<le> cap" "slob_inv c A s (B(b \<mapsto> cap))" by blast
  obtain P' Q' lv' where pi': "pages_inv c s A P' Q' lv' (B(b \<mapsto> cap))"
    using cap(3) by (auto simp: slob_inv_def)
  have "{b ..< b + cap} \<inter> {b' ..< b' + n} = {}" if "B b' = Some n" "b' \<noteq> b" for b' n
    using blocks_disjoint [OF pi', of b cap b' n] that by fastforce
  then show ?thesis using cap by blast
qed

section \<open>Histories\<close>

text \<open>
  \<open>s0\<close> is a state with empty lists over a page allocator whose blocks \<open>A\<close> belong to others.
  Clients allocate, free what they were given, and write anywhere.
\<close>

text \<open>
  The caches of these histories have objects smaller than a page, and no alignment that the 16 bits of
  \<open>slobidx_t\<close> cannot hold. The objects of the other caches are pages of their own, which
  \<open>kcache_alloc_numa\<close> links into the list of the cache through the bytes that, once the page is free,
  are its link in the list of the page allocator: see \<open>kcache_large_stays_listed\<close>.
\<close>

definition small_cache :: "nat \<Rightarrow> nat \<Rightarrow> bool" where
  "small_cache objsize align \<longleftrightarrow> 0 < objsize \<and> objsize < PAGE_SIZE \<and> align \<le> 2 ^ 16"

inductive kmem_reach :: "region_config \<Rightarrow> slob_state \<Rightarrow> slob_state \<Rightarrow> (nat \<rightharpoonup> nat) \<Rightarrow> bool" for c s0 where
  start: "kmem_reach c s0 s0 Map.empty"
| alloc: "kmem_reach c s0 s B \<Longrightarrow> 0 < sz \<Longrightarrow> kmalloc_align c sz g align s = Some (Some b, t) \<Longrightarrow>
    kmem_reach c s0 t (B(b \<mapsto> sz))"
| alloc_fail: "kmem_reach c s0 s B \<Longrightarrow> 0 < sz \<Longrightarrow> kmalloc_align c sz g align s = Some (None, t) \<Longrightarrow>
    kmem_reach c s0 t B"
| cache: "kmem_reach c s0 s B \<Longrightarrow> small_cache n align \<Longrightarrow> kcache_alloc c i n align g s = Some (Some b, t) \<Longrightarrow>
    kmem_reach c s0 t (B(b \<mapsto> n))"
| cache_fail: "kmem_reach c s0 s B \<Longrightarrow> small_cache n align \<Longrightarrow> kcache_alloc c i n align g s = Some (None, t) \<Longrightarrow>
    kmem_reach c s0 t B"
| free: "kmem_reach c s0 s B \<Longrightarrow> B b = Some sz \<Longrightarrow> kfree c dbg (Some b) s = Some t \<Longrightarrow>
    kmem_reach c s0 t (B(b := None))"
| store: "kmem_reach c s0 s B \<Longrightarrow> kmem_reach c s0 (s\<lparr>mm := (mm s)\<lparr>bytes := f\<rparr>\<rparr>) B"

definition kmem_start :: "region_config \<Rightarrow> nat set \<Rightarrow> slob_state \<Rightarrow> bool" where
  "kmem_start c A s0 \<longleftrightarrow> buddy_inv c (mm s0) A {} \<and> sl_lists s0 = (\<lambda>l. [])"

lemma slob_inv_bytes [simp]: "slob_inv c A (s\<lparr>mm := (mm s)\<lparr>bytes := f\<rparr>\<rparr>) B = slob_inv c A s B"
proof -
  have "buddy_inv c (m\<lparr>bytes := f\<rparr>) X Y = buddy_inv c m X Y" for m X Y
    by (simp add: buddy_inv_def free_list_ok_def alloc_ok_def blk_def free_heads_def)
  then show ?thesis
    unfolding slob_inv_def pages_inv_def lists_ok_def block_rel_def by (simp add: blk_def)
qed

lemma kcache_alloc_slob:
  "n < PAGE_SIZE \<Longrightarrow>
   kcache_alloc c i n align g s = slob_alloc_node c (Slob_cache i) n SLOB_OFFSET align n g s"
  by (simp add: kcache_alloc_def SLOB_OFFSET_eq)

lemma kmem_reach_inv:
  assumes "kmem_reach c s0 s B" "kmem_start c A s0"
  shows "slob_inv c A s B"
  using assms
proof (induction rule: kmem_reach.induct)
  case start
  have "pages_inv c s0 A {} {} (\<lambda>_. Map.empty) Map.empty" "lists_ok s0 {}"
    using start by (simp_all add: kmem_start_def pages_inv_def block_rel_def lists_ok_def)
  then show ?case unfolding slob_inv_def by blast
next
  case (alloc s B sz g align b t)
  then show ?case using kmalloc_align_spec [of c A s B sz g align] by (simp add: fun_upd_def)
next
  case (alloc_fail s B sz g align t)
  then show ?case using kmalloc_align_spec [of c A s B sz g align] by (simp add: fun_upd_def)
next
  case (cache s B n align i g b t)
  then show ?case
    using slob_alloc_node_spec [of c A s B n n, where l = "Slob_cache i" and align = align and bsize = n and g = g]
    by (simp add: kcache_alloc_slob alloc_done_def fun_upd_def small_cache_def)
next
  case (cache_fail s B n align i g t)
  then show ?case
    using slob_alloc_node_spec [of c A s B n n, where l = "Slob_cache i" and align = align and bsize = n and g = g]
    by (simp add: kcache_alloc_slob small_cache_def)
next
  case (free s B b sz dbg t)
  then show ?case using kfree_spec [of c A s B b sz dbg] by (auto simp: fun_upd_def)
qed simp

section \<open>Properties\<close>

lemma not_too_big: "sz \<le> PAGE_SIZE - SLOB_ALIGN \<Longrightarrow> \<not> too_big (slob_align_of 0) (slob_len_of sz 0)"
proof -
  assume sz: "sz \<le> PAGE_SIZE - SLOB_ALIGN"
  have "align_high 0 SLOB_ALIGN = 0" unfolding slob_align_power by (rule align_high_id) simp
  then have al: "slob_align_of 0 = 64" by (simp add: slob_align_of_def SLOB_OFFSET_eq)
  have "slob_len_of sz 0 < sz + 64" unfolding slob_len_of_def al by (rule align_high_less) simp
  moreover have "(64 :: nat) dvd slob_len_of sz 0"
    unfolding slob_len_of_def al using align_high_dvd [of 6 sz] by simp
  then obtain m where "slob_len_of sz 0 = 64 * m" by (elim dvdE)
  ultimately have len: "slob_len_of sz 0 + 64 \<le> PAGE_SIZE"
    using sz by (simp add: SLOB_OFFSET_eq PAGE_SIZE_def PAGE_SHIFT_def)
  have "slob_delta 64 64 (p * PAGE_SIZE) = 0" for p
  proof -
    have "(64 :: nat) dvd p * PAGE_SIZE + 64" by (simp add: PAGE_SIZE_def PAGE_SHIFT_def)
    then show ?thesis using align_high_id [of 6 "p * PAGE_SIZE + 64"] by (simp add: slob_delta_def)
  qed
  then show ?thesis using len unfolding too_big_def al SLOB_OFFSET_eq by (simp add: not_less)
qed

lemma block_not_free:
  assumes inv: "slob_inv c A s B" and b: "B b = Some n" "x \<in> {b ..< b + n}"
  shows "x div PAGE_SIZE \<notin> all_free (mm s)" "x div PAGE_SIZE \<notin> owned_pages (mm s) A"
proof -
  obtain P Q lv where pi: "pages_inv c s A P Q lv B" using inv by (auto simp: slob_inv_def)
  have bi: "buddy_inv c (mm s) (A \<union> P \<union> Q) {}" and dis: "A \<inter> (P \<union> Q) = {}"
    using pi by (auto simp: pages_inv_def)
  have own: "\<exists>q \<in> P \<union> Q. x div PAGE_SIZE \<in> blk (mm s) q"
  proof (rule block_cases [OF pi b(1)])
    fix q assume "q \<in> Q" "b = q * PAGE_SIZE" "b div PAGE_SIZE = q" "n \<le> PAGE_SIZE * card (blk (mm s) q)"
    then show ?thesis using block_range_large [OF pi, of q x] b(2) by auto
  next
    fix p node m assume p: "p \<in> P" "lv p node = Some m" "b = node + SLOB_OFFSET" "SLOB_OFFSET + n \<le> m" "0 < n"
    then have "p * PAGE_SIZE \<le> x" "x < Suc p * PAGE_SIZE"
      using page_ok_live [OF pages_inv_page [OF pi p(1)] p(2)] b(2) by auto
    then have "x div PAGE_SIZE = p" by (metis div_nat_eqI mult.commute)
    moreover have "blk (mm s) p = {p}" using p(1) pi by (simp add: pages_inv_def)
    ultimately show ?thesis using p(1) by blast
  qed
  then obtain q where q: "q \<in> P \<union> Q" "x div PAGE_SIZE \<in> blk (mm s) q" by blast
  then have "x div PAGE_SIZE \<in> owned_pages (mm s) (A \<union> P \<union> Q)" by (auto simp: owned_pages_def)
  then show "x div PAGE_SIZE \<notin> all_free (mm s)" using free_owned_disjoint [OF bi] by blast
  have "blk (mm s) q \<inter> blk (mm s) a = {}" if "a \<in> A" for a
    using buddy.owned_disjoint [OF bi, of q a] q(1) that dis by blast
  then show "x div PAGE_SIZE \<notin> owned_pages (mm s) A" using q(2) by (auto simp: owned_pages_def)
qed

definition demo_mem :: slob_state where
  "demo_mem = \<lparr>mm = boot2, sl_nodes = (\<lambda>_. \<lparr>nd_size = 0, nd_using = False\<rparr>),
     sl_pages = (\<lambda>_. \<lparr>sp_head = Slob_small, sp_node = None, sp_avail = 0\<rparr>), sl_lists = (\<lambda>_. [])\<rparr>"

lemma demo_mem_start: "kmem_start cfg0 {} demo_mem"
  using boot2_inv(1) by (simp add: kmem_start_def demo_mem_def)

lemma demo_mem_alloc:
  assumes "0 < n" "n \<le> PAGE_SIZE - SLOB_ALIGN"
  shows "\<exists>b t. kmalloc_align cfg0 n 0 0 demo_mem = Some (Some b, t)"
proof -
  have "slob_inv cfg0 {} demo_mem Map.empty"
    by (rule kmem_reach_inv [OF kmem_reach.start demo_mem_start])
  from kmalloc_align_spec [OF this assms(1), of 0 0] show ?thesis
    using not_too_big [OF assms(2)] assms(2) boot2_alloc
    by (auto simp: is_large_def demo_mem_def split: option.splits prod.splits)
qed

text \<open>
  An object of a cache of whole pages goes back to the page allocator when it is freed, but its
  page is still on the list of the cache: \<^verbatim>\<open>kcache_release\<close> frees it a second time.
\<close>

theorem kcache_large_stays_listed:
  assumes "kmem_reach c s0 s B" "kmem_start c A s0" "PAGE_SIZE \<le> n"
    "kcache_alloc c i n align g s = Some (Some b, t)" "kfree c dbg (Some b) t = Some u"
  shows "b div PAGE_SIZE \<in> all_free (mm u) \<and> b div PAGE_SIZE \<in> set (sl_lists u (Slob_cache i))"
proof -
  have "slob_inv c A s B" by (rule kmem_reach_inv [OF assms(1,2)])
  then obtain P Q lv where pi: "pages_inv c s A P Q lv B" by (auto simp: slob_inv_def)
  let ?k = "size_to_order (max n align)"
  obtain p s1 where kl: "kmalloc_large c n g align s = (Some p, s1)" and b: "b = p * PAGE_SIZE"
    and t: "t = set_list (Slob_cache i) (sl_lists s1 (Slob_cache i) @ [p]) s1"
    using assms(3,4) by (auto simp: kcache_alloc_def split: option.splits prod.splits)
  obtain s2 where gp: "slob_get_page c ?k g s = (Some p, s2)"
    and s1: "s1 = s2\<lparr>sl_pages := (sl_pages s2)(p := (sl_pages s2 p)\<lparr>sp_node := None\<rparr>)\<rparr>"
    using kl by (auto simp: kmalloc_large_def split: prod.splits option.splits)
  note gps = slob_get_page_spec [OF pi gp]
  have bp: "b div PAGE_SIZE = p" by (simp add: b)
  have u: "u = t\<lparr>mm := page_free c p (mm t)\<rparr>"
    using assms(5) gps(3) by (simp add: kfree_def slob_free_def bp t s1)
  have mt: "mm t = mm s2" by (simp add: t s1)
  note fr = page_free_spec [OF gps(2) insertI1]
  have "p \<in> blk (mm s2) p" by (simp add: blk_def)
  then have "p \<in> all_free (mm u)" using free_spec_all_free [OF fr] by (simp add: u mt)
  moreover have "p \<in> set (sl_lists u (Slob_cache i))" by (simp add: u t)
  ultimately show ?thesis by (simp add: bp)
qed

theorem kcache_large_stays_listed_witness:
  "\<exists>b t u. kcache_alloc cfg0 0 PAGE_SIZE 0 0 demo_mem = Some (Some b, t) \<and>
     kfree cfg0 True (Some b) t = Some u \<and> b div PAGE_SIZE \<in> set (sl_lists u (Slob_cache 0))"
proof -
  have k: "size_to_order (max PAGE_SIZE 0) = 0"
    by (simp add: size_to_order_def PAGE_SIZE_def PAGE_SHIFT_def order_of_pages.simps)
  let ?m = "set_type 0 PAGE_SLOB used2"
  obtain t where t: "kcache_alloc cfg0 0 PAGE_SIZE 0 0 demo_mem = Some (Some 0, t)"
    and ty: "pg_type (page_map (mm t) 0) = PAGE_SLOB" "sp_node (sl_pages t 0) = None"
    using k boot2_alloc by (simp add: kcache_alloc_def kmalloc_large_def slob_get_page_def demo_mem_def)
  have u: "kfree cfg0 True (Some 0) t = Some (t\<lparr>mm := page_free cfg0 0 (mm t)\<rparr>)"
    using ty by (simp add: kfree_def slob_free_def)
  show ?thesis
    using kcache_large_stays_listed [OF kmem_reach.start demo_mem_start order_refl t u] t u by blast
qed

text \<open>
  C5: In every history of allocations and releases, by \<^verbatim>\<open>kmalloc\<close> and from caches whose objects
  are smaller than a page (\<open>small_cache\<close>), no two blocks that are held share a byte, and no block reaches
  into a page that the page allocator has free or has handed to somebody else. Objects of a page or more
  have to be left out: after any such history, one that is allocated and freed leaves its page both free
  and on the list of its cache, which in the code are links in the same bytes of the page's descriptor.
\<close>

theorem kmem_blocks_disjoint:
  assumes "kmem_reach c s0 s B" "kmem_start c A s0" "B b = Some n" "x \<in> {b ..< b + n}"
  shows "(\<forall>b' n'. B b' = Some n' \<and> b' \<noteq> b \<longrightarrow> x \<notin> {b' ..< b' + n'}) \<and>
    x div PAGE_SIZE \<notin> all_free (mm s) \<and> x div PAGE_SIZE \<notin> owned_pages (mm s) A \<and>
    (\<forall>i m align g b' t dbg u. PAGE_SIZE \<le> m \<and> kcache_alloc c i m align g s = Some (Some b', t) \<and>
       kfree c dbg (Some b') t = Some u \<longrightarrow>
       b' div PAGE_SIZE \<in> all_free (mm u) \<and> b' div PAGE_SIZE \<in> set (sl_lists u (Slob_cache i)))"
proof -
  have inv: "slob_inv c A s B" by (rule kmem_reach_inv [OF assms(1,2)])
  then obtain P Q lv where "pages_inv c s A P Q lv B" by (auto simp: slob_inv_def)
  moreover have "b' div PAGE_SIZE \<in> all_free (mm u) \<and> b' div PAGE_SIZE \<in> set (sl_lists u (Slob_cache i))"
    if "PAGE_SIZE \<le> m" "kcache_alloc c i m align g s = Some (Some b', t)" "kfree c dbg (Some b') t = Some u"
    for i m align g b' t dbg u
    by (rule kcache_large_stays_listed [OF assms(1,2) that])
  ultimately show ?thesis
    using blocks_disjoint assms(3,4) block_not_free [OF inv assms(3,4)] by blast
qed

theorem kmem_blocks_disjoint_witness:
  "\<exists>b t. kmalloc_align cfg0 100 0 0 demo_mem = Some (Some b, t) \<and> b div PAGE_SIZE \<notin> all_free (mm t)"
proof -
  obtain b t where km: "kmalloc_align cfg0 100 0 0 demo_mem = Some (Some b, t)"
    using demo_mem_alloc [of 100] by (auto simp: SLOB_OFFSET_eq PAGE_SIZE_def PAGE_SHIFT_def)
  have "kmem_reach cfg0 demo_mem t (Map.empty(b \<mapsto> 100))"
    by (rule kmem_reach.alloc [OF kmem_reach.start _ km]) simp
  from kmem_blocks_disjoint [OF this demo_mem_start, of b 100 b] km show ?thesis by auto
qed

text \<open>
  C6: \<^verbatim>\<open>kmalloc_align\<close> in any reachable state: the block is new, its bytes belong to no
  other block, it is aligned when the alignment is a power of two, with \<^verbatim>\<open>GFP_ZERO\<close> its
  bytes are zero, and no byte of any other block has changed.
\<close>

theorem kmalloc_sound:
  assumes "kmem_reach c s0 s B" "kmem_start c A s0" "0 < sz" "kmalloc_align c sz g align s = Some (Some b, t)"
  shows "B b = None \<and> (align = 2 ^ k \<longrightarrow> align dvd b) \<and>
    (g AND GFP_ZERO \<noteq> 0 \<longrightarrow> (\<forall>x \<in> {b ..< b + sz}. bytes (mm t) x = 0)) \<and>
    (\<forall>b' n. B b' = Some n \<longrightarrow> {b' ..< b' + n} \<inter> {b ..< b + sz} = {} \<and>
       (\<forall>x \<in> {b' ..< b' + n}. bytes (mm t) x = bytes (mm s) x))"
proof -
  have inv: "slob_inv c A s B" by (rule kmem_reach_inv [OF assms(1,2)])
  obtain len where f: "B b = None" "(\<exists>k. align = 2 ^ k) \<longrightarrow> align dvd b" "sz \<le> len"
    "slob_inv c A t (B(b \<mapsto> len))"
    "\<forall>x. x < b \<or> b + len \<le> x \<longrightarrow> bytes (mm t) x = bytes (mm s) x"
    "g AND GFP_ZERO \<noteq> 0 \<longrightarrow> (\<forall>x. b \<le> x \<and> x < b + sz \<longrightarrow> bytes (mm t) x = 0)"
    using kmalloc_align_spec [OF inv assms(3), of g align] assms(4) by auto
  obtain P Q lv where pi: "pages_inv c t A P Q lv (B(b \<mapsto> len))" using f(4) by (auto simp: slob_inv_def)
  have dis: "x \<notin> {b ..< b + len}" if "B b' = Some n" "x \<in> {b' ..< b' + n}" for b' n x
  proof -
    have "b' \<noteq> b" using that f(1) by auto
    then show ?thesis using blocks_disjoint [OF pi, of b' n b len x] that by auto
  qed
  have "{b' ..< b' + n} \<inter> {b ..< b + sz} = {} \<and> (\<forall>x \<in> {b' ..< b' + n}. bytes (mm t) x = bytes (mm s) x)"
    if "B b' = Some n" for b' n
  proof (intro conjI ballI)
    show "{b' ..< b' + n} \<inter> {b ..< b + sz} = {}" using dis [OF that] f(3) by fastforce
    fix x assume "x \<in> {b' ..< b' + n}"
    then have "x < b \<or> b + len \<le> x" using dis [OF that, of x] by auto
    then show "bytes (mm t) x = bytes (mm s) x" using f(5) by blast
  qed
  then show ?thesis using f(1,2,6) by auto
qed

theorem kmalloc_sound_witness:
  "\<exists>b t. kmalloc_align cfg0 100 0 0 demo_mem = Some (Some b, t) \<and> (Map.empty :: nat \<rightharpoonup> nat) b = None"
proof -
  obtain b t where km: "kmalloc_align cfg0 100 0 0 demo_mem = Some (Some b, t)"
    using demo_mem_alloc [of 100] by (auto simp: SLOB_OFFSET_eq PAGE_SIZE_def PAGE_SHIFT_def)
  from kmalloc_sound [OF kmem_reach.start demo_mem_start _ km] km show ?thesis by auto
qed

text \<open>
  C7: \<^verbatim>\<open>kmalloc\<close> of up to a page less a header always returns, fails only when the page
  allocator has no page left, and \<^verbatim>\<open>kfree\<close> of a block that is held always returns.
\<close>

theorem kmalloc_kfree_return:
  assumes "kmem_reach c s0 s B" "kmem_start c A s0" "0 < sz" "sz \<le> PAGE_SIZE - SLOB_ALIGN"
  shows "kmalloc c sz g s \<noteq> None \<and>
    (kmalloc c sz g s = Some (None, t) \<longrightarrow> fst (page_alloc c 0 (g AND NOT GFP_ZERO) (mm s)) = None) \<and>
    (\<forall>b n. B b = Some n \<longrightarrow> kfree c dbg (Some b) s \<noteq> None)"
proof -
  have inv: "slob_inv c A s B" by (rule kmem_reach_inv [OF assms(1,2)])
  have "\<not> is_large sz 0" using assms(4) by (simp add: is_large_def)
  then have "kmalloc c sz g s \<noteq> None \<and>
      (kmalloc c sz g s = Some (None, t) \<longrightarrow> fst (page_alloc c 0 (g AND NOT GFP_ZERO) (mm s)) = None)"
    using kmalloc_align_spec [OF inv assms(3), of g 0] not_too_big [OF assms(4)]
    by (auto simp: kmalloc_def split: option.splits)
  then show ?thesis using kfree_spec [OF inv] by fastforce
qed

theorem kmalloc_kfree_return_witness:
  "kmalloc cfg0 100 0 demo_mem \<noteq> None"
  using kmalloc_kfree_return [OF kmem_reach.start demo_mem_start, of 100 0]
  by (simp add: SLOB_OFFSET_eq PAGE_SIZE_def PAGE_SHIFT_def)

text \<open>
  A request the small allocator takes but can never meet: with an alignment of half a page and
  more than half a page to allocate, \<^verbatim>\<open>kmalloc_align\<close> returns no block, however much
  memory is free.
\<close>

theorem kmalloc_align_never:
  assumes "kmem_reach c s0 s B" "kmem_start c A s0"
    "PAGE_SIZE div 2 < sz" "sz \<le> PAGE_SIZE - SLOB_ALIGN"
  shows "kmalloc_align c sz g (PAGE_SIZE div 2) s \<noteq> Some (Some b, t)"
proof
  assume km: "kmalloc_align c sz g (PAGE_SIZE div 2) s = Some (Some b, t)"
  have inv: "slob_inv c A s B" by (rule kmem_reach_inv [OF assms(1,2)])
  have al: "slob_align_of (PAGE_SIZE div 2) = 2048"
    using slob_align_of_power [of 11] by (simp add: PAGE_SIZE_def PAGE_SHIFT_def)
  have "\<not> is_large sz (PAGE_SIZE div 2)" using assms(4) by (simp add: is_large_def)
  then have pg: "in_page b (slob_len_of sz (PAGE_SIZE div 2))"
    using kmalloc_align_spec [OF inv, of sz g "PAGE_SIZE div 2"] km assms(3) by simp
  have "(2048 :: nat) dvd slob_len_of sz (PAGE_SIZE div 2)"
    using align_high_dvd [of 11 sz] by (simp add: slob_len_of_def al)
  then obtain m where m: "slob_len_of sz (PAGE_SIZE div 2) = 2048 * m" by (elim dvdE)
  moreover have "2048 < slob_len_of sz (PAGE_SIZE div 2)"
    using slob_len_of_ge [of sz "PAGE_SIZE div 2"] assms(3) by (simp add: PAGE_SIZE_def PAGE_SHIFT_def)
  ultimately have "PAGE_SIZE \<le> slob_len_of sz (PAGE_SIZE div 2)"
    by (simp add: PAGE_SIZE_def PAGE_SHIFT_def)
  then show False using pg by (auto simp: in_page_def SLOB_OFFSET_eq)
qed

theorem kmalloc_align_never_witness:
  "\<not> (\<exists>b t. kmalloc_align cfg0 2049 0 2048 demo_mem = Some (Some b, t))"
  using kmalloc_align_never [OF kmem_reach.start demo_mem_start, of 2049 0]
  by (simp add: SLOB_OFFSET_eq PAGE_SIZE_def PAGE_SHIFT_def)


lemma slob_inv_shrink:
  assumes inv: "slob_inv c A s B" and b: "B b = Some k" "0 < n" "n \<le> k"
  shows "slob_inv c A s (B(b \<mapsto> n))"
proof -
  obtain P Q lv where pi: "pages_inv c s A P Q lv B" "lists_ok s P"
    using inv by (auto simp: slob_inv_def)
  have br: "block_rel (mm s) P Q lv B" using pi(1) by (simp add: pages_inv_def)
  have le: "\<exists>m. (B(b \<mapsto> n)) a = Some m \<and> m \<le> j \<and> (0 < j \<longrightarrow> 0 < m)" if "B a = Some j" for a j
    using that b by auto
  have "block_rel (mm s) P Q lv (B(b \<mapsto> n))"
    unfolding block_rel_def
  proof (intro conjI ballI allI impI)
    fix p node m assume "p \<in> P" "lv p node = Some m"
    then obtain j where "B (node + SLOB_OFFSET) = Some j" "0 < j" "SLOB_OFFSET + j \<le> m"
      using br unfolding block_rel_def by blast
    then show "\<exists>sz. (B(b \<mapsto> n)) (node + SLOB_OFFSET) = Some sz \<and> 0 < sz \<and> SLOB_OFFSET + sz \<le> m"
      using le by fastforce
  next
    fix q assume "q \<in> Q"
    then obtain j where "B (q * PAGE_SIZE) = Some j" "j \<le> PAGE_SIZE * card (blk (mm s) q)"
      using br unfolding block_rel_def by blast
    then show "\<exists>sz. (B(b \<mapsto> n)) (q * PAGE_SIZE) = Some sz \<and> sz \<le> PAGE_SIZE * card (blk (mm s) q)"
      using le by fastforce
  next
    fix a j assume "(B(b \<mapsto> n)) a = Some j"
    then have "\<exists>j. B a = Some j" using b by (cases "a = b") auto
    then show "(\<exists>q \<in> Q. a = q * PAGE_SIZE) \<or>
      (\<exists>p \<in> P. \<exists>node n. lv p node = Some n \<and> a = node + SLOB_OFFSET)"
      using br unfolding block_rel_def by blast
  qed
  then have "pages_inv c s A P Q lv (B(b \<mapsto> n))" using pi(1) by (simp add: pages_inv_def)
  then show ?thesis using pi(2) by (rule slob_invI)
qed

lemma krealloc_spec:
  assumes inv: "slob_inv c A s B" and b: "B b = Some sz" and n: "0 < n"
    and res: "krealloc c dbg (Some b) n g s = Some (Some nb, t)"
  shows "slob_inv c A t ((B(b := None))(nb \<mapsto> n))"
    and "\<forall>i < min sz n. bytes (mm t) (nb + i) = bytes (mm s) (b + i)"
    and "\<forall>b' k. B b' = Some k \<and> b' \<noteq> b \<longrightarrow> (\<forall>x \<in> {b' ..< b' + k}. bytes (mm t) x = bytes (mm s) x)"
proof -
  obtain cap where cap: "ksize (Some b) s = Some cap" "sz \<le> cap" "slob_inv c A s (B(b \<mapsto> cap))"
    "\<And>b' k. B b' = Some k \<Longrightarrow> b' \<noteq> b \<Longrightarrow> {b ..< b + cap} \<inter> {b' ..< b' + k} = {}"
    using ksize_spec [OF inv b] by blast
  have "slob_inv c A t ((B(b := None))(nb \<mapsto> n)) \<and>
    (\<forall>i < min sz n. bytes (mm t) (nb + i) = bytes (mm s) (b + i)) \<and>
    (\<forall>b' k. B b' = Some k \<and> b' \<noteq> b \<longrightarrow> (\<forall>x \<in> {b' ..< b' + k}. bytes (mm t) x = bytes (mm s) x))"
  proof (cases "n \<le> cap")
    case True
    then have t: "nb = b" "t = s" using res cap(1) n by (simp_all add: krealloc_def)
    have "slob_inv c A s (B(b \<mapsto> n))" using slob_inv_shrink [OF cap(3), of b cap n] True n by simp
    then show ?thesis by (simp add: t)
  next
    case False
    obtain s1 where km: "kmalloc_align c n g 0 s = Some (Some nb, s1)"
      and kf: "kfree c dbg (Some b) (s1\<lparr>mm := mem_copy nb b cap (mm s1)\<rparr>) = Some t"
      using res cap(1) n False by (auto simp: krealloc_def kmalloc_def split: option.splits prod.splits)
    obtain len where al: "B nb = None" "slob_inv c A s1 (B(nb \<mapsto> n))" "n \<le> len" "slob_inv c A s1 (B(nb \<mapsto> len))"
      "\<forall>x. x < nb \<or> nb + len \<le> x \<longrightarrow> bytes (mm s1) x = bytes (mm s) x"
      and "(B(b \<mapsto> cap)) nb = None"
      using kmalloc_align_spec [OF inv n, of g 0] kmalloc_align_spec [OF cap(3) n, of g 0] km by auto
    then have ne: "nb \<noteq> b" by auto
    have capinv': "\<exists>len' \<ge> n. slob_inv c A s1 ((B(b \<mapsto> cap))(nb \<mapsto> len')) \<and>
      (\<forall>x. x < nb \<or> nb + len' \<le> x \<longrightarrow> bytes (mm s1) x = bytes (mm s) x)"
      using kmalloc_align_spec [OF cap(3) n, of g 0] km by simp
    then obtain len' where l': "n \<le> len'" "slob_inv c A s1 ((B(b \<mapsto> cap))(nb \<mapsto> len'))"
      "\<forall>x. x < nb \<or> nb + len' \<le> x \<longrightarrow> bytes (mm s1) x = bytes (mm s) x" by blast
    have dis: "x < nb \<or> nb + len' \<le> x" if "(B(b \<mapsto> cap)) b' = Some k" "x \<in> {b' ..< b' + k}" for b' k x
    proof -
      have "b' \<noteq> nb" using that(1) ne al(1) by auto
      moreover obtain P Q lv where "pages_inv c s1 A P Q lv ((B(b \<mapsto> cap))(nb \<mapsto> len'))"
        using l'(2) by (auto simp: slob_inv_def)
      ultimately have "x \<notin> {nb ..< nb + len'}"
        using blocks_disjoint [of c s1 A P Q lv "(B(b \<mapsto> cap))(nb \<mapsto> len')" b' k nb len' x] that by auto
      then show ?thesis by auto
    qed
    let ?s2 = "s1\<lparr>mm := mem_copy nb b cap (mm s1)\<rparr>"
    have "slob_inv c A ?s2 (B(nb \<mapsto> n))" using al(2) unfolding mem_copy_def by simp
    from kfree_spec [OF this, of b sz dbg] kf b ne
    have t: "slob_inv c A t ((B(nb \<mapsto> n))(b := None))" "bytes (mm t) = bytes (mm ?s2)" by auto
    have "bytes (mm t) (nb + i) = bytes (mm s) (b + i)" if "i < min sz n" for i
    proof -
      have "b + i < nb \<or> nb + len' \<le> b + i" using dis [of b cap "b + i"] that cap(2) by auto
      then show ?thesis using that cap(2) l'(3) by (auto simp: t(2) mem_copy_def)
    qed
    moreover have "bytes (mm t) x = bytes (mm s) x" if "B b' = Some k" "b' \<noteq> b" "x \<in> {b' ..< b' + k}" for b' k x
    proof -
      have "x < nb \<or> nb + len' \<le> x" using dis [of b' k x] that by auto
      moreover have "x < nb \<or> nb + cap \<le> x" using calculation False l'(1) by auto
      ultimately show ?thesis using l'(3) by (auto simp: t(2) mem_copy_def)
    qed
    ultimately show ?thesis using t(1) ne by (auto simp: fun_upd_twist)
  qed
  then show "slob_inv c A t ((B(b := None))(nb \<mapsto> n))"
    and "\<forall>i < min sz n. bytes (mm t) (nb + i) = bytes (mm s) (b + i)"
    and "\<forall>b' k. B b' = Some k \<and> b' \<noteq> b \<longrightarrow> (\<forall>x \<in> {b' ..< b' + k}. bytes (mm t) x = bytes (mm s) x)"
    by blast+
qed

text \<open>
  C8: \<^verbatim>\<open>krealloc\<close> of a block that is held: the bytes of the old block that fit are the
  first bytes of the new one, and no other block changes.
\<close>

theorem krealloc_preserves:
  assumes "kmem_reach c s0 s B" "kmem_start c A s0" "B b = Some sz" "0 < n"
    "krealloc c dbg (Some b) n g s = Some (Some nb, t)"
  shows "(\<forall>i < min sz n. bytes (mm t) (nb + i) = bytes (mm s) (b + i)) \<and>
    (\<forall>b' k. B b' = Some k \<and> b' \<noteq> b \<longrightarrow> (\<forall>x \<in> {b' ..< b' + k}. bytes (mm t) x = bytes (mm s) x))"
  using krealloc_spec [OF kmem_reach_inv [OF assms(1,2)] assms(3-5)] by blast

theorem krealloc_preserves_witness:
  "\<exists>b t nb u. kmalloc_align cfg0 100 0 0 demo_mem = Some (Some b, t) \<and>
     krealloc cfg0 True (Some b) 50 0 t = Some (Some nb, u) \<and>
     (\<forall>i < 50. bytes (mm u) (nb + i) = bytes (mm t) (b + i))"
proof -
  obtain b t where km: "kmalloc_align cfg0 100 0 0 demo_mem = Some (Some b, t)"
    using demo_mem_alloc [of 100] by (auto simp: SLOB_OFFSET_eq PAGE_SIZE_def PAGE_SHIFT_def)
  have r: "kmem_reach cfg0 demo_mem t (Map.empty(b \<mapsto> 100))"
    by (rule kmem_reach.alloc [OF kmem_reach.start _ km]) simp
  obtain cap where cap: "ksize (Some b) t = Some cap" "100 \<le> cap"
    using ksize_spec [OF kmem_reach_inv [OF r demo_mem_start], of b 100] by auto
  then have kr: "krealloc cfg0 True (Some b) 50 0 t = Some (Some b, t)" by (simp add: krealloc_def)
  show ?thesis
    using krealloc_preserves [OF r demo_mem_start _ _ kr, of 100] km kr by auto
qed

end
