(* ===== verification/Bitops.thy ===== *)
theory Bitops
  imports Prelude
begin

text \<open>
  Bit operations: the masks of \<^verbatim>\<open>include/bits.h\<close>, the byte swap of
  \<^verbatim>\<open>include/lightcore/swab.h\<close>, and the generic word searches and single-bit operations of
  \<^verbatim>\<open>include/asm-generic/bitops.h\<close>, for 64-bit longs. An array of longs is a list of words,
  and \<open>bmp_bit b i\<close> is its bit \<open>i\<close>; an access outside of the array is \<open>None\<close> for the writing
  operations.
\<close>

section \<open>Masks\<close>

definition BITS_PER_LONG :: nat where "BITS_PER_LONG = 64"

definition BIT :: "nat \<Rightarrow> ulong" where
  "BIT nr = push_bit (nr mod BITS_PER_LONG) 1"

text \<open>\<open>-(nbits) & (BITS_PER_LONG - 1)\<close> on an \<open>unsigned int\<close>.\<close>

definition BIT_LOW_MASK :: "nat \<Rightarrow> ulong" where
  "BIT_LOW_MASK nbits = drop_bit (unat ((- of_nat nbits :: u32) AND 63)) (- 1)"

definition BIT_HIGH_MASK :: "nat \<Rightarrow> ulong" where
  "BIT_HIGH_MASK nbits = push_bit (unat ((of_nat nbits :: u32) AND 63)) (- 1)"

definition BIT_RANGE :: "nat \<Rightarrow> nat \<Rightarrow> ulong" where
  "BIT_RANGE hi lo = ((- 1) - push_bit lo 1 + 1) AND drop_bit (BITS_PER_LONG - 1 - hi) (- 1)"

lemma BIT_bit: "bit (BIT nr) i \<longleftrightarrow> i = nr mod 64"
    using mod_less_divisor [of 64 nr] by (auto simp: BIT_def BITS_PER_LONG_def bit_simps)

lemma and_63: "unat (w AND (63 :: u32)) = unat w mod 64"
proof -
  have "(63 :: u32) = mask 6" by (simp add: mask_eq_exp_minus_1)
  then have "w AND 63 = take_bit 6 w" by (simp add: take_bit_eq_mask)
  then have "unat (w AND 63) = take_bit 6 (unat w)" by (simp only: unsigned_take_bit_eq)
  then show ?thesis by (simp add: take_bit_eq_mod)
qed

lemma low_mask_shift: "unat ((- of_nat n :: u32) AND 63) = (64 - n mod 64) mod 64"
proof -
  have "(- of_nat n :: u32) = of_int (- int n)" by simp
  then have "uint (- of_nat n :: u32) = (- int n) mod 2 ^ 32"
    by (simp only: uint_word_of_int_eq take_bit_eq_mod) simp
  then have "int (unat ((- of_nat n :: u32) AND 63)) = (- int n) mod 2 ^ 32 mod 64"
    by (simp add: and_63 zmod_int)
  also have "\<dots> = (- int n) mod 64" by (rule mod_mod_cancel) simp
  also have "\<dots> = int ((64 - n mod 64) mod 64)"
    by (simp add: zmod_zminus1_eq_if of_nat_mod of_nat_diff less_imp_le)
  finally show ?thesis by linarith
qed

lemma BIT_LOW_MASK_bit:
  "bit (BIT_LOW_MASK n) i \<longleftrightarrow> i < (if n mod 64 = 0 then 64 else n mod 64)"
  unfolding BIT_LOW_MASK_def low_mask_shift
  by (cases "n mod 64 = 0") (auto simp: bit_simps)

lemma BIT_HIGH_MASK_bit: "bit (BIT_HIGH_MASK n) i \<longleftrightarrow> n mod 64 \<le> i \<and> i < 64"
proof -
  have "unat ((of_nat n :: u32) AND 63) = n mod 64"
    by (simp add: and_63 unat_of_nat take_bit_eq_mod mod_mod_cancel)
  then show ?thesis by (auto simp: BIT_HIGH_MASK_def bit_simps)
qed

section \<open>Byte swap\<close>

definition constant_swab32 :: "u32 \<Rightarrow> u32" where
  "constant_swab32 x =
     push_bit 24 (x AND 0x000000ff) OR push_bit 8 (x AND 0x0000ff00) OR
     drop_bit 8 (x AND 0x00ff0000) OR drop_bit 24 (x AND 0xff000000)"

definition swab :: "ulong \<Rightarrow> ulong" where
  "swab x =
     push_bit 56 (x AND 0x00000000000000ff) OR push_bit 40 (x AND 0x000000000000ff00) OR
     push_bit 24 (x AND 0x0000000000ff0000) OR push_bit 8 (x AND 0x00000000ff000000) OR
     drop_bit 8 (x AND 0x000000ff00000000) OR drop_bit 24 (x AND 0x0000ff0000000000) OR
     drop_bit 40 (x AND 0x00ff000000000000) OR drop_bit 56 (x AND 0xff00000000000000)"

section \<open>Searching a word\<close>

text \<open>One step of the binary search of \<open>ffsuf\<close>, with the shift so far and the shifted word.\<close>

definition ffs_step :: "nat \<Rightarrow> nat \<times> ulong \<Rightarrow> nat \<times> ulong" where
  "ffs_step k = (\<lambda>(shift, value).
     if value AND mask k = 0 then (shift + k, drop_bit k value) else (shift, value))"

definition ffsuf :: "ulong \<Rightarrow> nat" where
  "ffsuf value =
     fst (ffs_step 1 (ffs_step 2 (ffs_step 4 (ffs_step 8 (ffs_step 16 (ffs_step 32 (0, value)))))))"

definition fls_step :: "nat \<Rightarrow> nat \<times> ulong \<Rightarrow> nat \<times> ulong" where
  "fls_step k = (\<lambda>(shift, value).
     if value AND push_bit (BITS_PER_LONG - k) (- 1) = 0 then (shift - k, push_bit k value)
     else (shift, value))"

definition flsuf :: "ulong \<Rightarrow> nat" where
  "flsuf value =
     fst (fls_step 1 (fls_step 2 (fls_step 4 (fls_step 8 (fls_step 16
       (fls_step 32 (BITS_PER_LONG - 1, value)))))))"

definition ffzuf :: "ulong \<Rightarrow> nat" where "ffzuf value = ffsuf (NOT value)"
definition flzuf :: "ulong \<Rightarrow> nat" where "flzuf value = flsuf (NOT value)"

definition ffs :: "ulong \<Rightarrow> nat" where "ffs value = (if value = 0 then 0 else ffsuf value + 1)"
definition fls :: "ulong \<Rightarrow> nat" where "fls value = (if value = 0 then 0 else flsuf value + 1)"
definition ffz :: "ulong \<Rightarrow> nat" where "ffz value = (if value = - 1 then 0 else ffs (NOT value))"
definition flz :: "ulong \<Rightarrow> nat" where "flz value = (if value = - 1 then 0 else fls (NOT value))"

definition ctz :: "ulong \<Rightarrow> nat" where
  "ctz value = (if value = - 1 then 0 else if value = 0 then BITS_PER_LONG else ffsuf value)"

definition clz :: "ulong \<Rightarrow> nat" where
  "clz value = (if value = - 1 then 0 else if value = 0 then BITS_PER_LONG
                else BITS_PER_LONG - 1 - flsuf value)"

text \<open>The search has skipped only clear bits, and a set bit is among the next \<open>w\<close>.\<close>

definition ffs_ok :: "ulong \<Rightarrow> nat \<Rightarrow> nat \<times> ulong \<Rightarrow> bool" where
  "ffs_ok v w = (\<lambda>(shift, value).
     value = drop_bit shift v \<and> (\<forall>j < shift. \<not> bit v j) \<and> (\<exists>j < w. bit value j))"

lemma ffs_step_ok:
  assumes "ffs_ok v (2 * k) sv"
  shows "ffs_ok v k (ffs_step k sv)"
proof -
  obtain s x where sv: "sv = (s, x)" by fastforce
  have x: "x = drop_bit s v" and below: "\<forall>j < s. \<not> bit v j" and ex: "\<exists>j < 2 * k. bit x j"
    using assms by (auto simp: ffs_ok_def sv)
  have z: "x AND mask k = 0 \<longleftrightarrow> (\<forall>j < k. \<not> bit x j)"
  proof -
    have "x AND mask k = 0 \<longleftrightarrow> (\<forall>j < 64. \<not> bit (x AND mask k) j)"
      by (auto simp: bit_eq_iff)
    also have "\<dots> \<longleftrightarrow> (\<forall>j < k. \<not> bit x j)"
      using bit_imp_le_length [of x] by (auto simp: bit_and_iff bit_mask_iff)
    finally show ?thesis .
  qed
  show ?thesis
  proof (cases "x AND mask k = 0")
    case True
    from ex obtain j where j: "j < 2 * k" "bit x j" by blast
    then have "k \<le> j" using True z linorder_not_less by blast
    then have "bit (drop_bit k x) (j - k)" "j - k < k" using j by (auto simp: bit_drop_bit_eq)
    moreover have "\<not> bit v i" if "i < s + k" for i
    proof (cases "i < s")
      case False
      then have "\<not> bit x (i - s)" using True z that by simp
      then show ?thesis using False by (simp add: x bit_drop_bit_eq)
    qed (use below in simp)
    ultimately show ?thesis using True by (auto simp: ffs_step_def ffs_ok_def sv x add.commute)
  next
    case False
    then show ?thesis using z x below by (auto simp: ffs_step_def ffs_ok_def sv)
  qed
qed

lemma ffsuf_least:
  assumes "v \<noteq> 0"
  shows "bit v (ffsuf v)" and "j < ffsuf v \<Longrightarrow> \<not> bit v j" and "ffsuf v < 64"
proof -
  from assms obtain i where "bit v i" by (auto simp: bit_eq_iff)
  then have "ffs_ok v 64 (0, v)" using bit_imp_le_length [of v i] by (auto simp: ffs_ok_def)
  then have "ffs_ok v (2 * 32) (0, v)" by simp
  from ffs_step_ok [OF this] have "ffs_ok v (2 * 16) (ffs_step 32 (0, v))" by simp
  from ffs_step_ok [OF this] have "ffs_ok v (2 * 8) (ffs_step 16 (ffs_step 32 (0, v)))" by simp
  from ffs_step_ok [OF this]
  have "ffs_ok v (2 * 4) (ffs_step 8 (ffs_step 16 (ffs_step 32 (0, v))))" by simp
  from ffs_step_ok [OF this]
  have "ffs_ok v (2 * 2) (ffs_step 4 (ffs_step 8 (ffs_step 16 (ffs_step 32 (0, v)))))" by simp
  from ffs_step_ok [OF this]
  have "ffs_ok v (2 * 1) (ffs_step 2 (ffs_step 4 (ffs_step 8 (ffs_step 16 (ffs_step 32 (0, v))))))" by simp
  from ffs_step_ok [OF this] obtain x where
    "x = drop_bit (ffsuf v) v" "\<forall>j < ffsuf v. \<not> bit v j" "\<exists>j < 1. bit x j"
    by (auto simp: ffs_ok_def ffsuf_def split: prod.splits)
  then show b: "bit v (ffsuf v)" and "j < ffsuf v \<Longrightarrow> \<not> bit v j" by (auto simp: bit_drop_bit_eq)
  show "ffsuf v < 64" using bit_imp_le_length [OF b] by simp
qed

definition fls_ok :: "ulong \<Rightarrow> nat \<Rightarrow> nat \<times> ulong \<Rightarrow> bool" where
  "fls_ok v w = (\<lambda>(shift, value).
     w \<le> Suc shift \<and> shift < 64 \<and> value = push_bit (63 - shift) v \<and> (\<forall>j > shift. \<not> bit v j) \<and>
     (\<exists>j \<le> shift. shift < j + w \<and> bit v j))"

lemma fls_step_ok:
  assumes "fls_ok v (2 * k) sv" "0 < k"
  shows "fls_ok v k (fls_step k sv)"
proof -
  obtain s x where sv: "sv = (s, x)" by fastforce
  have x: "x = push_bit (63 - s) v" and above: "\<forall>j > s. \<not> bit v j" and s: "s < 64" "2 * k \<le> Suc s"
    and ex: "\<exists>j \<le> s. s < j + 2 * k \<and> bit v j"
    using assms(1) by (auto simp: fls_ok_def sv)
  have z: "x AND push_bit (64 - k) (- 1) = 0 \<longleftrightarrow> (\<forall>j \<le> s. s < j + k \<longrightarrow> \<not> bit v j)"
  proof
    assume 0: "x AND push_bit (64 - k) (- 1) = 0"
    show "\<forall>j \<le> s. s < j + k \<longrightarrow> \<not> bit v j"
    proof (intro allI impI)
      fix j assume j: "j \<le> s" "s < j + k"
      have "\<not> bit (x AND push_bit (64 - k) (- 1)) (63 - s + j)" using 0 by simp
      then show "\<not> bit v j" using j s by (auto simp: x bit_simps)
    qed
  next
    assume a: "\<forall>j \<le> s. s < j + k \<longrightarrow> \<not> bit v j"
    show "x AND push_bit (64 - k) (- 1) = 0"
    proof (rule bit_eqI)
      fix n assume "possible_bit TYPE(64 word) n"
      then have n: "n < 64" by simp
      have "\<not> (bit x n \<and> 64 - k \<le> n)"
      proof
        assume b: "bit x n \<and> 64 - k \<le> n"
        then have v: "bit v (n - (63 - s))" "63 - s \<le> n" by (auto simp: x bit_simps)
        then have "n - (63 - s) \<le> s" "s < n - (63 - s) + k" using n b s by linarith+
        then show False using a v(1) by blast
      qed
      then show "bit (x AND push_bit (64 - k) (- 1)) n \<longleftrightarrow> bit (0 :: ulong) n"
        using n by (auto simp: bit_simps)
    qed
  qed
  show ?thesis
  proof (cases "x AND push_bit (64 - k) (- 1) = 0")
    case True
    then have no: "\<not> bit v j" if "j \<le> s" "s < j + k" for j using z that by blast
    from ex obtain j where j: "j \<le> s" "s < j + 2 * k" "bit v j" by blast
    then have "\<not> s < j + k" using no by blast
    then have "j \<le> s - k" "s - k < j + k" using j s by linarith+
    moreover have "\<not> bit v i" if "i > s - k" for i
      using no [of i] above that by (cases "i \<le> s") auto
    moreover have "63 - (s - k) = k + (63 - s)" using s by simp
    ultimately show ?thesis
      using True j(3) s by (auto simp: fls_step_def fls_ok_def sv x BITS_PER_LONG_def push_bit_push_bit)
  next
    case False
    then show ?thesis using z x above s
      by (auto simp: fls_step_def fls_ok_def sv BITS_PER_LONG_def)
  qed
qed

lemma flsuf_greatest:
  assumes "v \<noteq> 0"
  shows "bit v (flsuf v)" and "flsuf v < j \<Longrightarrow> \<not> bit v j" and "flsuf v < 64"
proof -
  from assms obtain i where "bit v i" by (auto simp: bit_eq_iff)
  moreover have "\<forall>j > 63. \<not> bit v j" using bit_imp_le_length [of v] by fastforce
  ultimately have "fls_ok v (2 * 32) (63, v)"
    using bit_imp_le_length [of v i] by (auto simp: fls_ok_def intro!: exI [of _ i])
  from fls_step_ok [OF this] have "fls_ok v (2 * 16) (fls_step 32 (63, v))" by simp
  from fls_step_ok [OF this] have "fls_ok v (2 * 8) (fls_step 16 (fls_step 32 (63, v)))" by simp
  from fls_step_ok [OF this]
  have "fls_ok v (2 * 4) (fls_step 8 (fls_step 16 (fls_step 32 (63, v))))" by simp
  from fls_step_ok [OF this]
  have "fls_ok v (2 * 2) (fls_step 4 (fls_step 8 (fls_step 16 (fls_step 32 (63, v)))))" by simp
  from fls_step_ok [OF this]
  have "fls_ok v (2 * 1) (fls_step 2 (fls_step 4 (fls_step 8 (fls_step 16 (fls_step 32 (63, v))))))" by simp
  from fls_step_ok [OF this] have f: "fls_ok v 1 (fst (fls_step 1 (fls_step 2 (fls_step 4 (fls_step 8
      (fls_step 16 (fls_step 32 (63, v))))))), snd (fls_step 1 (fls_step 2 (fls_step 4 (fls_step 8
      (fls_step 16 (fls_step 32 (63, v))))))))" by simp
  then have "fls_ok v 1 (flsuf v, snd (fls_step 1 (fls_step 2 (fls_step 4 (fls_step 8
      (fls_step 16 (fls_step 32 (63, v))))))))" by (simp add: flsuf_def BITS_PER_LONG_def)
  then have "\<exists>j \<le> flsuf v. flsuf v < j + 1 \<and> bit v j" "\<forall>j > flsuf v. \<not> bit v j" "flsuf v < 64"
    by (auto simp: fls_ok_def)
  then show "bit v (flsuf v)" and "flsuf v < j \<Longrightarrow> \<not> bit v j" and "flsuf v < 64"
    by (auto dest: le_antisym simp: less_Suc_eq_le)
qed

section \<open>Bits of an array of longs\<close>

definition BITS_WORD :: "nat \<Rightarrow> nat" where
  "BITS_WORD nr = nr div BITS_PER_LONG"

definition bmp_bit :: "ulong list \<Rightarrow> nat \<Rightarrow> bool" where
  "bmp_bit b i \<longleftrightarrow> i < 64 * length b \<and> bit (b ! (i div 64)) (i mod 64)"

definition bmp_set :: "ulong list \<Rightarrow> nat set" where
  "bmp_set b = {i. bmp_bit b i}"

definition word_update :: "ulong list \<Rightarrow> nat \<Rightarrow> (ulong \<Rightarrow> ulong) \<Rightarrow> ulong list option" where
  "word_update addr nr f =
     (if BITS_WORD nr < length addr
      then Some (addr[BITS_WORD nr := f (addr ! BITS_WORD nr)]) else None)"

definition word_read :: "ulong list \<Rightarrow> nat \<Rightarrow> ulong option" where
  "word_read addr nr = (if BITS_WORD nr < length addr then Some (addr ! BITS_WORD nr) else None)"

definition arch_bit_clr :: "ulong list \<Rightarrow> nat \<Rightarrow> ulong list option" where
  "arch_bit_clr addr nr = word_update addr nr (\<lambda>w. w AND NOT (BIT nr))"

definition arch_bit_set :: "ulong list \<Rightarrow> nat \<Rightarrow> ulong list option" where
  "arch_bit_set addr nr = word_update addr nr (\<lambda>w. w OR BIT nr)"

definition arch_bit_flip :: "ulong list \<Rightarrow> nat \<Rightarrow> ulong list option" where
  "arch_bit_flip addr nr = word_update addr nr (\<lambda>w. w XOR BIT nr)"

definition arch_bit_change :: "ulong list \<Rightarrow> nat \<Rightarrow> bool \<Rightarrow> ulong list option" where
  "arch_bit_change addr nr val =
     word_update addr nr (\<lambda>w. if val then w OR BIT nr else w AND NOT (BIT nr))"

definition arch_bit_test :: "ulong list \<Rightarrow> nat \<Rightarrow> bool option" where
  "arch_bit_test addr nr = map_option (\<lambda>w. w AND BIT nr \<noteq> 0) (word_read addr nr)"

text \<open>The operations that return the old bit: the old value and the array.\<close>

definition test_update :: "ulong list \<Rightarrow> nat \<Rightarrow> (ulong \<Rightarrow> ulong) \<Rightarrow> (bool \<times> ulong list) option" where
  "test_update addr nr f =
     (case word_read addr nr of None \<Rightarrow> None
      | Some old \<Rightarrow> map_option (Pair (old AND BIT nr \<noteq> 0)) (word_update addr nr f))"

definition arch_bit_test_clr :: "ulong list \<Rightarrow> nat \<Rightarrow> (bool \<times> ulong list) option" where
  "arch_bit_test_clr addr nr = test_update addr nr (\<lambda>w. w AND NOT (BIT nr))"

definition arch_bit_test_set :: "ulong list \<Rightarrow> nat \<Rightarrow> (bool \<times> ulong list) option" where
  "arch_bit_test_set addr nr = test_update addr nr (\<lambda>w. w OR BIT nr)"

definition arch_bit_test_flip :: "ulong list \<Rightarrow> nat \<Rightarrow> (bool \<times> ulong list) option" where
  "arch_bit_test_flip addr nr = test_update addr nr (\<lambda>w. w XOR BIT nr)"

definition arch_bit_test_change :: "ulong list \<Rightarrow> nat \<Rightarrow> bool \<Rightarrow> (bool \<times> ulong list) option" where
  "arch_bit_test_change addr nr val =
     test_update addr nr (\<lambda>w. if val then w OR BIT nr else w AND NOT (BIT nr))"

text \<open>The early returns of the atomic forms, which skip the write when it would change nothing.\<close>

definition arch_bit_atomic_test_clr :: "ulong list \<Rightarrow> nat \<Rightarrow> (bool \<times> ulong list) option" where
  "arch_bit_atomic_test_clr addr nr =
     (case word_read addr nr of None \<Rightarrow> None
      | Some w \<Rightarrow> if w AND BIT nr = 0 then Some (False, addr)
                  else test_update addr nr (\<lambda>w. w AND NOT (BIT nr)))"

definition arch_bit_atomic_test_set :: "ulong list \<Rightarrow> nat \<Rightarrow> (bool \<times> ulong list) option" where
  "arch_bit_atomic_test_set addr nr =
     (case word_read addr nr of None \<Rightarrow> None
      | Some w \<Rightarrow> if w AND BIT nr \<noteq> 0 then Some (True, addr)
                  else test_update addr nr (\<lambda>w. w OR BIT nr))"

lemma BIT_and: "w AND BIT i \<noteq> 0 \<longleftrightarrow> bit w (i mod 64)"
proof -
  have "w AND BIT i \<noteq> 0 \<longleftrightarrow> (\<exists>j < 64. bit (w AND BIT i) j)" by (auto simp: bit_eq_iff)
  also have "\<dots> \<longleftrightarrow> bit w (i mod 64)" by (auto simp: bit_and_iff BIT_bit)
  finally show ?thesis .
qed

lemma word_update_spec:
  "word_update b i f = (if i < 64 * length b then Some (b[i div 64 := f (b ! (i div 64))]) else None)"
  by (simp add: word_update_def BITS_WORD_def BITS_PER_LONG_def div_less_iff_less_mult mult.commute)

lemma word_read_spec:
  "word_read b i = (if i < 64 * length b then Some (b ! (i div 64)) else None)"
  by (simp add: word_read_def BITS_WORD_def BITS_PER_LONG_def div_less_iff_less_mult mult.commute)

lemma bmp_bit_update:
  assumes "i < 64 * length b"
    and "\<And>j. j < 64 \<Longrightarrow> bit (f (b ! (i div 64))) j \<longleftrightarrow> (if j = i mod 64 then x else bit (b ! (i div 64)) j)"
  shows "bmp_set (b[i div 64 := f (b ! (i div 64))]) = (if x then insert i (bmp_set b) else bmp_set b - {i})"
proof -
  have "bmp_bit (b[i div 64 := f (b ! (i div 64))]) j \<longleftrightarrow> (if j = i then x else bmp_bit b j)" for j
  proof (cases "j div 64 = i div 64")
    case True
    then have "j = i \<longleftrightarrow> j mod 64 = i mod 64" by (metis div_mult_mod_eq)
    then show ?thesis using assms True by (auto simp: bmp_bit_def div_less_iff_less_mult mult.commute)
  next
    case False
    then show ?thesis by (auto simp: bmp_bit_def)
  qed
  then show ?thesis by (auto simp: bmp_set_def)
qed

lemmas bit_op_defs = arch_bit_clr_def arch_bit_set_def arch_bit_flip_def arch_bit_change_def
  arch_bit_test_def arch_bit_test_clr_def arch_bit_test_set_def arch_bit_test_flip_def
  arch_bit_test_change_def arch_bit_atomic_test_clr_def arch_bit_atomic_test_set_def

lemmas bit_op_simps = word_update_spec word_read_spec test_update_def BIT_and

lemma word_set_bits:
  assumes "i < 64 * length b"
  shows "bmp_set (b[i div 64 := b ! (i div 64) OR BIT i]) = insert i (bmp_set b)"
    and "bmp_set (b[i div 64 := b ! (i div 64) AND NOT (BIT i)]) = bmp_set b - {i}"
    and "bmp_set (b[i div 64 := b ! (i div 64) XOR BIT i]) =
      (if i \<in> bmp_set b then bmp_set b - {i} else insert i (bmp_set b))"
  using bmp_bit_update [OF assms, of "\<lambda>w. w OR BIT i" True] bmp_bit_update [OF assms, of "\<lambda>w. w AND NOT (BIT i)" False]
    bmp_bit_update [OF assms, of "\<lambda>w. w XOR BIT i" "\<not> bmp_bit b i"] assms
  by (simp_all add: bit_or_iff bit_and_iff bit_not_iff bit_xor_iff BIT_bit bmp_set_def bmp_bit_def)

section \<open>Properties\<close>

text \<open>
  the binary searches of the generic code find the lowest and the highest set bit of every
  word that has one, and \<open>ctz\<close> and \<open>clz\<close> count the zeros below and above it.
\<close>

theorem word_search_correct:
  assumes "v \<noteq> 0"
  shows "bit v (ffsuf v) \<and> (\<forall>j < ffsuf v. \<not> bit v j) \<and>
    bit v (flsuf v) \<and> (\<forall>j > flsuf v. \<not> bit v j) \<and>
    ffs v = Suc (ffsuf v) \<and> fls v = Suc (flsuf v) \<and> ctz v = ffsuf v \<and> clz v = 63 - flsuf v"
proof -
  have "bit (- 1 :: ulong) 0" "bit (- 1 :: ulong) 63" by simp_all
  moreover have "bit (- 1 :: ulong) 0" by simp
  ultimately have "ffsuf (- 1) = 0" "flsuf (- 1) = 63"
    using ffsuf_least(2) [of "- 1" 0] flsuf_greatest(2) [of "- 1" 63] flsuf_greatest(3) [of "- 1"]
    by (force, force)
  then show ?thesis
    using ffsuf_least [OF assms] flsuf_greatest [OF assms] assms
    by (auto simp: ffs_def fls_def ctz_def clz_def BITS_PER_LONG_def)
qed

theorem word_search_correct_witness: "bit (0x50 :: ulong) (ffsuf 0x50) \<and> ctz 0x50 = ffsuf 0x50"
  using word_search_correct [of "0x50"] by simp

text \<open>
  the single-bit operations act on the set of bits of an array: set, clear, flip and change
  touch exactly the bit named, the test-and-modify forms return its old value (also those that
  skip the write), and they succeed exactly within the array.
\<close>

theorem bit_operations_correct:
  assumes "i < 64 * length b"
  shows "map_option bmp_set (arch_bit_set b i) = Some (insert i (bmp_set b)) \<and>
    map_option bmp_set (arch_bit_clr b i) = Some (bmp_set b - {i}) \<and>
    map_option bmp_set (arch_bit_change b i val) = Some (if val then insert i (bmp_set b) else bmp_set b - {i}) \<and>
    map_option bmp_set (arch_bit_flip b i) =
      Some (if i \<in> bmp_set b then bmp_set b - {i} else insert i (bmp_set b)) \<and>
    arch_bit_test b i = Some (i \<in> bmp_set b) \<and>
    map_option (map_prod id bmp_set) (arch_bit_test_set b i) = Some (i \<in> bmp_set b, insert i (bmp_set b)) \<and>
    map_option (map_prod id bmp_set) (arch_bit_test_clr b i) = Some (i \<in> bmp_set b, bmp_set b - {i}) \<and>
    map_option (map_prod id bmp_set) (arch_bit_atomic_test_set b i) = Some (i \<in> bmp_set b, insert i (bmp_set b)) \<and>
    map_option (map_prod id bmp_set) (arch_bit_atomic_test_clr b i) = Some (i \<in> bmp_set b, bmp_set b - {i})"
proof -
  have b: "bit (b ! (i div 64)) (i mod 64) \<longleftrightarrow> i \<in> bmp_set b"
    using assms by (simp add: bmp_set_def bmp_bit_def)
  have z: "b ! (i div 64) AND BIT i = 0 \<longleftrightarrow> i \<notin> bmp_set b" using BIT_and [of "b ! (i div 64)" i] b by auto
  note s = word_set_bits [OF assms]
  show ?thesis
    by (cases val) (simp_all add: bit_op_defs bit_op_simps assms s b z insert_absorb)
qed

theorem bit_operations_correct_witness: "map_option bmp_set (arch_bit_set [0, 0] 70) = Some {70}"
proof -
  have "bmp_set [0, 0] = {}" by (auto simp: bmp_set_def bmp_bit_def less_Suc_eq nth_Cons split: nat.splits)
  then show ?thesis using bit_operations_correct [of 70 "[0, 0]"] by simp
qed

end
