(* ===== verification/Crc_Tables.thy ===== *)
theory Crc_Tables
  imports Main "HOL-Library.Word"
begin

text \<open>
  The tables of \<^verbatim>\<open>include/crypto/crc*-table.h\<close>, entry by entry. The CRC-4 table has
  256 entries of which the source gives the first 16; the rest are 0.
\<close>

definition crc4_table :: "8 word list" where
  "crc4_table = [
    0x00, 0x07, 0x0e, 0x09,
    0x0b, 0x0c, 0x05, 0x02,
    0x01, 0x06, 0x0f, 0x08,
    0x0a, 0x0d, 0x04, 0x03] @ replicate 240 0"

definition crc7_table :: "8 word list" where
  "crc7_table = [
    0x00, 0x12, 0x24, 0x36, 0x48, 0x5a, 0x6c, 0x7e, 0x90, 0x82, 0xb4, 0xa6,
    0xd8, 0xca, 0xfc, 0xee, 0x32, 0x20, 0x16, 0x04, 0x7a, 0x68, 0x5e, 0x4c,
    0xa2, 0xb0, 0x86, 0x94, 0xea, 0xf8, 0xce, 0xdc, 0x64, 0x76, 0x40, 0x52,
    0x2c, 0x3e, 0x08, 0x1a, 0xf4, 0xe6, 0xd0, 0xc2, 0xbc, 0xae, 0x98, 0x8a,
    0x56, 0x44, 0x72, 0x60, 0x1e, 0x0c, 0x3a, 0x28, 0xc6, 0xd4, 0xe2, 0xf0,
    0x8e, 0x9c, 0xaa, 0xb8, 0xc8, 0xda, 0xec, 0xfe, 0x80, 0x92, 0xa4, 0xb6,
    0x58, 0x4a, 0x7c, 0x6e, 0x10, 0x02, 0x34, 0x26, 0xfa, 0xe8, 0xde, 0xcc,
    0xb2, 0xa0, 0x96, 0x84, 0x6a, 0x78, 0x4e, 0x5c, 0x22, 0x30, 0x06, 0x14,
    0xac, 0xbe, 0x88, 0x9a, 0xe4, 0xf6, 0xc0, 0xd2, 0x3c, 0x2e, 0x18, 0x0a,
    0x74, 0x66, 0x50, 0x42, 0x9e, 0x8c, 0xba, 0xa8, 0xd6, 0xc4, 0xf2, 0xe0,
    0x0e, 0x1c, 0x2a, 0x38, 0x46, 0x54, 0x62, 0x70, 0x82, 0x90, 0xa6, 0xb4,
    0xca, 0xd8, 0xee, 0xfc, 0x12, 0x00, 0x36, 0x24, 0x5a, 0x48, 0x7e, 0x6c,
    0xb0, 0xa2, 0x94, 0x86, 0xf8, 0xea, 0xdc, 0xce, 0x20, 0x32, 0x04, 0x16,
    0x68, 0x7a, 0x4c, 0x5e, 0xe6, 0xf4, 0xc2, 0xd0, 0xae, 0xbc, 0x8a, 0x98,
    0x76, 0x64, 0x52, 0x40, 0x3e, 0x2c, 0x1a, 0x08, 0xd4, 0xc6, 0xf0, 0xe2,
    0x9c, 0x8e, 0xb8, 0xaa, 0x44, 0x56, 0x60, 0x72, 0x0c, 0x1e, 0x28, 0x3a,
    0x4a, 0x58, 0x6e, 0x7c, 0x02, 0x10, 0x26, 0x34, 0xda, 0xc8, 0xfe, 0xec,
    0x92, 0x80, 0xb6, 0xa4, 0x78, 0x6a, 0x5c, 0x4e, 0x30, 0x22, 0x14, 0x06,
    0xe8, 0xfa, 0xcc, 0xde, 0xa0, 0xb2, 0x84, 0x96, 0x2e, 0x3c, 0x0a, 0x18,
    0x66, 0x74, 0x42, 0x50, 0xbe, 0xac, 0x9a, 0x88, 0xf6, 0xe4, 0xd2, 0xc0,
    0x1c, 0x0e, 0x38, 0x2a, 0x54, 0x46, 0x70, 0x62, 0x8c, 0x9e, 0xa8, 0xba,
    0xc4, 0xd6, 0xe0, 0xf2]"

definition crc8_table :: "8 word list" where
  "crc8_table = [
    0x00, 0x07, 0x0e, 0x09, 0x1c, 0x1b, 0x12, 0x15, 0x38, 0x3f, 0x36, 0x31,
    0x24, 0x23, 0x2a, 0x2d, 0x70, 0x77, 0x7e, 0x79, 0x6c, 0x6b, 0x62, 0x65,
    0x48, 0x4f, 0x46, 0x41, 0x54, 0x53, 0x5a, 0x5d, 0xe0, 0xe7, 0xee, 0xe9,
    0xfc, 0xfb, 0xf2, 0xf5, 0xd8, 0xdf, 0xd6, 0xd1, 0xc4, 0xc3, 0xca, 0xcd,
    0x90, 0x97, 0x9e, 0x99, 0x8c, 0x8b, 0x82, 0x85, 0xa8, 0xaf, 0xa6, 0xa1,
    0xb4, 0xb3, 0xba, 0xbd, 0xc7, 0xc0, 0xc9, 0xce, 0xdb, 0xdc, 0xd5, 0xd2,
    0xff, 0xf8, 0xf1, 0xf6, 0xe3, 0xe4, 0xed, 0xea, 0xb7, 0xb0, 0xb9, 0xbe,
    0xab, 0xac, 0xa5, 0xa2, 0x8f, 0x88, 0x81, 0x86, 0x93, 0x94, 0x9d, 0x9a,
    0x27, 0x20, 0x29, 0x2e, 0x3b, 0x3c, 0x35, 0x32, 0x1f, 0x18, 0x11, 0x16,
    0x03, 0x04, 0x0d, 0x0a, 0x57, 0x50, 0x59, 0x5e, 0x4b, 0x4c, 0x45, 0x42,
    0x6f, 0x68, 0x61, 0x66, 0x73, 0x74, 0x7d, 0x7a, 0x89, 0x8e, 0x87, 0x80,
    0x95, 0x92, 0x9b, 0x9c, 0xb1, 0xb6, 0xbf, 0xb8, 0xad, 0xaa, 0xa3, 0xa4,
    0xf9, 0xfe, 0xf7, 0xf0, 0xe5, 0xe2, 0xeb, 0xec, 0xc1, 0xc6, 0xcf, 0xc8,
    0xdd, 0xda, 0xd3, 0xd4, 0x69, 0x6e, 0x67, 0x60, 0x75, 0x72, 0x7b, 0x7c,
    0x51, 0x56, 0x5f, 0x58, 0x4d, 0x4a, 0x43, 0x44, 0x19, 0x1e, 0x17, 0x10,
    0x05, 0x02, 0x0b, 0x0c, 0x21, 0x26, 0x2f, 0x28, 0x3d, 0x3a, 0x33, 0x34,
    0x4e, 0x49, 0x40, 0x47, 0x52, 0x55, 0x5c, 0x5b, 0x76, 0x71, 0x78, 0x7f,
    0x6a, 0x6d, 0x64, 0x63, 0x3e, 0x39, 0x30, 0x37, 0x22, 0x25, 0x2c, 0x2b,
    0x06, 0x01, 0x08, 0x0f, 0x1a, 0x1d, 0x14, 0x13, 0xae, 0xa9, 0xa0, 0xa7,
    0xb2, 0xb5, 0xbc, 0xbb, 0x96, 0x91, 0x98, 0x9f, 0x8a, 0x8d, 0x84, 0x83,
    0xde, 0xd9, 0xd0, 0xd7, 0xc2, 0xc5, 0xcc, 0xcb, 0xe6, 0xe1, 0xe8, 0xef,
    0xfa, 0xfd, 0xf4, 0xf3]"

definition crc16_table :: "16 word list" where
  "crc16_table = [
    0x0000, 0xc0c1, 0xc181, 0x0140, 0xc301, 0x03c0, 0x0280, 0xc241,
    0xc601, 0x06c0, 0x0780, 0xc741, 0x0500, 0xc5c1, 0xc481, 0x0440,
    0xcc01, 0x0cc0, 0x0d80, 0xcd41, 0x0f00, 0xcfc1, 0xce81, 0x0e40,
    0x0a00, 0xcac1, 0xcb81, 0x0b40, 0xc901, 0x09c0, 0x0880, 0xc841,
    0xd801, 0x18c0, 0x1980, 0xd941, 0x1b00, 0xdbc1, 0xda81, 0x1a40,
    0x1e00, 0xdec1, 0xdf81, 0x1f40, 0xdd01, 0x1dc0, 0x1c80, 0xdc41,
    0x1400, 0xd4c1, 0xd581, 0x1540, 0xd701, 0x17c0, 0x1680, 0xd641,
    0xd201, 0x12c0, 0x1380, 0xd341, 0x1100, 0xd1c1, 0xd081, 0x1040,
    0xf001, 0x30c0, 0x3180, 0xf141, 0x3300, 0xf3c1, 0xf281, 0x3240,
    0x3600, 0xf6c1, 0xf781, 0x3740, 0xf501, 0x35c0, 0x3480, 0xf441,
    0x3c00, 0xfcc1, 0xfd81, 0x3d40, 0xff01, 0x3fc0, 0x3e80, 0xfe41,
    0xfa01, 0x3ac0, 0x3b80, 0xfb41, 0x3900, 0xf9c1, 0xf881, 0x3840,
    0x2800, 0xe8c1, 0xe981, 0x2940, 0xeb01, 0x2bc0, 0x2a80, 0xea41,
    0xee01, 0x2ec0, 0x2f80, 0xef41, 0x2d00, 0xedc1, 0xec81, 0x2c40,
    0xe401, 0x24c0, 0x2580, 0xe541, 0x2700, 0xe7c1, 0xe681, 0x2640,
    0x2200, 0xe2c1, 0xe381, 0x2340, 0xe101, 0x21c0, 0x2080, 0xe041,
    0xa001, 0x60c0, 0x6180, 0xa141, 0x6300, 0xa3c1, 0xa281, 0x6240,
    0x6600, 0xa6c1, 0xa781, 0x6740, 0xa501, 0x65c0, 0x6480, 0xa441,
    0x6c00, 0xacc1, 0xad81, 0x6d40, 0xaf01, 0x6fc0, 0x6e80, 0xae41,
    0xaa01, 0x6ac0, 0x6b80, 0xab41, 0x6900, 0xa9c1, 0xa881, 0x6840,
    0x7800, 0xb8c1, 0xb981, 0x7940, 0xbb01, 0x7bc0, 0x7a80, 0xba41,
    0xbe01, 0x7ec0, 0x7f80, 0xbf41, 0x7d00, 0xbdc1, 0xbc81, 0x7c40,
    0xb401, 0x74c0, 0x7580, 0xb541, 0x7700, 0xb7c1, 0xb681, 0x7640,
    0x7200, 0xb2c1, 0xb381, 0x7340, 0xb101, 0x71c0, 0x7080, 0xb041,
    0x5000, 0x90c1, 0x9181, 0x5140, 0x9301, 0x53c0, 0x5280, 0x9241,
    0x9601, 0x56c0, 0x5780, 0x9741, 0x5500, 0x95c1, 0x9481, 0x5440,
    0x9c01, 0x5cc0, 0x5d80, 0x9d41, 0x5f00, 0x9fc1, 0x9e81, 0x5e40,
    0x5a00, 0x9ac1, 0x9b81, 0x5b40, 0x9901, 0x59c0, 0x5880, 0x9841,
    0x8801, 0x48c0, 0x4980, 0x8941, 0x4b00, 0x8bc1, 0x8a81, 0x4a40,
    0x4e00, 0x8ec1, 0x8f81, 0x4f40, 0x8d01, 0x4dc0, 0x4c80, 0x8c41,
    0x4400, 0x84c1, 0x8581, 0x4540, 0x8701, 0x47c0, 0x4680, 0x8641,
    0x8201, 0x42c0, 0x4380, 0x8341, 0x4100, 0x81c1, 0x8081, 0x4040]"

definition crc_ccitt_table :: "16 word list" where
  "crc_ccitt_table = [
    0x0000, 0x1189, 0x2312, 0x329b, 0x4624, 0x57ad, 0x6536, 0x74bf,
    0x8c48, 0x9dc1, 0xaf5a, 0xbed3, 0xca6c, 0xdbe5, 0xe97e, 0xf8f7,
    0x1081, 0x0108, 0x3393, 0x221a, 0x56a5, 0x472c, 0x75b7, 0x643e,
    0x9cc9, 0x8d40, 0xbfdb, 0xae52, 0xdaed, 0xcb64, 0xf9ff, 0xe876,
    0x2102, 0x308b, 0x0210, 0x1399, 0x6726, 0x76af, 0x4434, 0x55bd,
    0xad4a, 0xbcc3, 0x8e58, 0x9fd1, 0xeb6e, 0xfae7, 0xc87c, 0xd9f5,
    0x3183, 0x200a, 0x1291, 0x0318, 0x77a7, 0x662e, 0x54b5, 0x453c,
    0xbdcb, 0xac42, 0x9ed9, 0x8f50, 0xfbef, 0xea66, 0xd8fd, 0xc974,
    0x4204, 0x538d, 0x6116, 0x709f, 0x0420, 0x15a9, 0x2732, 0x36bb,
    0xce4c, 0xdfc5, 0xed5e, 0xfcd7, 0x8868, 0x99e1, 0xab7a, 0xbaf3,
    0x5285, 0x430c, 0x7197, 0x601e, 0x14a1, 0x0528, 0x37b3, 0x263a,
    0xdecd, 0xcf44, 0xfddf, 0xec56, 0x98e9, 0x8960, 0xbbfb, 0xaa72,
    0x6306, 0x728f, 0x4014, 0x519d, 0x2522, 0x34ab, 0x0630, 0x17b9,
    0xef4e, 0xfec7, 0xcc5c, 0xddd5, 0xa96a, 0xb8e3, 0x8a78, 0x9bf1,
    0x7387, 0x620e, 0x5095, 0x411c, 0x35a3, 0x242a, 0x16b1, 0x0738,
    0xffcf, 0xee46, 0xdcdd, 0xcd54, 0xb9eb, 0xa862, 0x9af9, 0x8b70,
    0x8408, 0x9581, 0xa71a, 0xb693, 0xc22c, 0xd3a5, 0xe13e, 0xf0b7,
    0x0840, 0x19c9, 0x2b52, 0x3adb, 0x4e64, 0x5fed, 0x6d76, 0x7cff,
    0x9489, 0x8500, 0xb79b, 0xa612, 0xd2ad, 0xc324, 0xf1bf, 0xe036,
    0x18c1, 0x0948, 0x3bd3, 0x2a5a, 0x5ee5, 0x4f6c, 0x7df7, 0x6c7e,
    0xa50a, 0xb483, 0x8618, 0x9791, 0xe32e, 0xf2a7, 0xc03c, 0xd1b5,
    0x2942, 0x38cb, 0x0a50, 0x1bd9, 0x6f66, 0x7eef, 0x4c74, 0x5dfd,
    0xb58b, 0xa402, 0x9699, 0x8710, 0xf3af, 0xe226, 0xd0bd, 0xc134,
    0x39c3, 0x284a, 0x1ad1, 0x0b58, 0x7fe7, 0x6e6e, 0x5cf5, 0x4d7c,
    0xc60c, 0xd785, 0xe51e, 0xf497, 0x8028, 0x91a1, 0xa33a, 0xb2b3,
    0x4a44, 0x5bcd, 0x6956, 0x78df, 0x0c60, 0x1de9, 0x2f72, 0x3efb,
    0xd68d, 0xc704, 0xf59f, 0xe416, 0x90a9, 0x8120, 0xb3bb, 0xa232,
    0x5ac5, 0x4b4c, 0x79d7, 0x685e, 0x1ce1, 0x0d68, 0x3ff3, 0x2e7a,
    0xe70e, 0xf687, 0xc41c, 0xd595, 0xa12a, 0xb0a3, 0x8238, 0x93b1,
    0x6b46, 0x7acf, 0x4854, 0x59dd, 0x2d62, 0x3ceb, 0x0e70, 0x1ff9,
    0xf78f, 0xe606, 0xd49d, 0xc514, 0xb1ab, 0xa022, 0x92b9, 0x8330,
    0x7bc7, 0x6a4e, 0x58d5, 0x495c, 0x3de3, 0x2c6a, 0x1ef1, 0x0f78]"

definition crc_ccittf_table :: "16 word list" where
  "crc_ccittf_table = [
    0x0000, 0x1021, 0x2042, 0x3063, 0x4084, 0x50a5, 0x60c6, 0x70e7,
    0x8108, 0x9129, 0xa14a, 0xb16b, 0xc18c, 0xd1ad, 0xe1ce, 0xf1ef,
    0x1231, 0x0210, 0x3273, 0x2252, 0x52b5, 0x4294, 0x72f7, 0x62d6,
    0x9339, 0x8318, 0xb37b, 0xa35a, 0xd3bd, 0xc39c, 0xf3ff, 0xe3de,
    0x2462, 0x3443, 0x0420, 0x1401, 0x64e6, 0x74c7, 0x44a4, 0x5485,
    0xa56a, 0xb54b, 0x8528, 0x9509, 0xe5ee, 0xf5cf, 0xc5ac, 0xd58d,
    0x3653, 0x2672, 0x1611, 0x0630, 0x76d7, 0x66f6, 0x5695, 0x46b4,
    0xb75b, 0xa77a, 0x9719, 0x8738, 0xf7df, 0xe7fe, 0xd79d, 0xc7bc,
    0x48c4, 0x58e5, 0x6886, 0x78a7, 0x0840, 0x1861, 0x2802, 0x3823,
    0xc9cc, 0xd9ed, 0xe98e, 0xf9af, 0x8948, 0x9969, 0xa90a, 0xb92b,
    0x5af5, 0x4ad4, 0x7ab7, 0x6a96, 0x1a71, 0x0a50, 0x3a33, 0x2a12,
    0xdbfd, 0xcbdc, 0xfbbf, 0xeb9e, 0x9b79, 0x8b58, 0xbb3b, 0xab1a,
    0x6ca6, 0x7c87, 0x4ce4, 0x5cc5, 0x2c22, 0x3c03, 0x0c60, 0x1c41,
    0xedae, 0xfd8f, 0xcdec, 0xddcd, 0xad2a, 0xbd0b, 0x8d68, 0x9d49,
    0x7e97, 0x6eb6, 0x5ed5, 0x4ef4, 0x3e13, 0x2e32, 0x1e51, 0x0e70,
    0xff9f, 0xefbe, 0xdfdd, 0xcffc, 0xbf1b, 0xaf3a, 0x9f59, 0x8f78,
    0x9188, 0x81a9, 0xb1ca, 0xa1eb, 0xd10c, 0xc12d, 0xf14e, 0xe16f,
    0x1080, 0x00a1, 0x30c2, 0x20e3, 0x5004, 0x4025, 0x7046, 0x6067,
    0x83b9, 0x9398, 0xa3fb, 0xb3da, 0xc33d, 0xd31c, 0xe37f, 0xf35e,
    0x02b1, 0x1290, 0x22f3, 0x32d2, 0x4235, 0x5214, 0x6277, 0x7256,
    0xb5ea, 0xa5cb, 0x95a8, 0x8589, 0xf56e, 0xe54f, 0xd52c, 0xc50d,
    0x34e2, 0x24c3, 0x14a0, 0x0481, 0x7466, 0x6447, 0x5424, 0x4405,
    0xa7db, 0xb7fa, 0x8799, 0x97b8, 0xe75f, 0xf77e, 0xc71d, 0xd73c,
    0x26d3, 0x36f2, 0x0691, 0x16b0, 0x6657, 0x7676, 0x4615, 0x5634,
    0xd94c, 0xc96d, 0xf90e, 0xe92f, 0x99c8, 0x89e9, 0xb98a, 0xa9ab,
    0x5844, 0x4865, 0x7806, 0x6827, 0x18c0, 0x08e1, 0x3882, 0x28a3,
    0xcb7d, 0xdb5c, 0xeb3f, 0xfb1e, 0x8bf9, 0x9bd8, 0xabbb, 0xbb9a,
    0x4a75, 0x5a54, 0x6a37, 0x7a16, 0x0af1, 0x1ad0, 0x2ab3, 0x3a92,
    0xfd2e, 0xed0f, 0xdd6c, 0xcd4d, 0xbdaa, 0xad8b, 0x9de8, 0x8dc9,
    0x7c26, 0x6c07, 0x5c64, 0x4c45, 0x3ca2, 0x2c83, 0x1ce0, 0x0cc1,
    0xef1f, 0xff3e, 0xcf5d, 0xdf7c, 0xaf9b, 0xbfba, 0x8fd9, 0x9ff8,
    0x6e17, 0x7e36, 0x4e55, 0x5e74, 0x2e93, 0x3eb2, 0x0ed1, 0x1ef0]"

definition crc_itut_table :: "16 word list" where
  "crc_itut_table = [
    0x0000, 0x1021, 0x2042, 0x3063, 0x4084, 0x50a5, 0x60c6, 0x70e7,
    0x8108, 0x9129, 0xa14a, 0xb16b, 0xc18c, 0xd1ad, 0xe1ce, 0xf1ef,
    0x1231, 0x0210, 0x3273, 0x2252, 0x52b5, 0x4294, 0x72f7, 0x62d6,
    0x9339, 0x8318, 0xb37b, 0xa35a, 0xd3bd, 0xc39c, 0xf3ff, 0xe3de,
    0x2462, 0x3443, 0x0420, 0x1401, 0x64e6, 0x74c7, 0x44a4, 0x5485,
    0xa56a, 0xb54b, 0x8528, 0x9509, 0xe5ee, 0xf5cf, 0xc5ac, 0xd58d,
    0x3653, 0x2672, 0x1611, 0x0630, 0x76d7, 0x66f6, 0x5695, 0x46b4,
    0xb75b, 0xa77a, 0x9719, 0x8738, 0xf7df, 0xe7fe, 0xd79d, 0xc7bc,
    0x48c4, 0x58e5, 0x6886, 0x78a7, 0x0840, 0x1861, 0x2802, 0x3823,
    0xc9cc, 0xd9ed, 0xe98e, 0xf9af, 0x8948, 0x9969, 0xa90a, 0xb92b,
    0x5af5, 0x4ad4, 0x7ab7, 0x6a96, 0x1a71, 0x0a50, 0x3a33, 0x2a12,
    0xdbfd, 0xcbdc, 0xfbbf, 0xeb9e, 0x9b79, 0x8b58, 0xbb3b, 0xab1a,
    0x6ca6, 0x7c87, 0x4ce4, 0x5cc5, 0x2c22, 0x3c03, 0x0c60, 0x1c41,
    0xedae, 0xfd8f, 0xcdec, 0xddcd, 0xad2a, 0xbd0b, 0x8d68, 0x9d49,
    0x7e97, 0x6eb6, 0x5ed5, 0x4ef4, 0x3e13, 0x2e32, 0x1e51, 0x0e70,
    0xff9f, 0xefbe, 0xdfdd, 0xcffc, 0xbf1b, 0xaf3a, 0x9f59, 0x8f78,
    0x9188, 0x81a9, 0xb1ca, 0xa1eb, 0xd10c, 0xc12d, 0xf14e, 0xe16f,
    0x1080, 0x00a1, 0x30c2, 0x20e3, 0x5004, 0x4025, 0x7046, 0x6067,
    0x83b9, 0x9398, 0xa3fb, 0xb3da, 0xc33d, 0xd31c, 0xe37f, 0xf35e,
    0x02b1, 0x1290, 0x22f3, 0x32d2, 0x4235, 0x5214, 0x6277, 0x7256,
    0xb5ea, 0xa5cb, 0x95a8, 0x8589, 0xf56e, 0xe54f, 0xd52c, 0xc50d,
    0x34e2, 0x24c3, 0x14a0, 0x0481, 0x7466, 0x6447, 0x5424, 0x4405,
    0xa7db, 0xb7fa, 0x8799, 0x97b8, 0xe75f, 0xf77e, 0xc71d, 0xd73c,
    0x26d3, 0x36f2, 0x0691, 0x16b0, 0x6657, 0x7676, 0x4615, 0x5634,
    0xd94c, 0xc96d, 0xf90e, 0xe92f, 0x99c8, 0x89e9, 0xb98a, 0xa9ab,
    0x5844, 0x4865, 0x7806, 0x6827, 0x18c0, 0x08e1, 0x3882, 0x28a3,
    0xcb7d, 0xdb5c, 0xeb3f, 0xfb1e, 0x8bf9, 0x9bd8, 0xabbb, 0xbb9a,
    0x4a75, 0x5a54, 0x6a37, 0x7a16, 0x0af1, 0x1ad0, 0x2ab3, 0x3a92,
    0xfd2e, 0xed0f, 0xdd6c, 0xcd4d, 0xbdaa, 0xad8b, 0x9de8, 0x8dc9,
    0x7c26, 0x6c07, 0x5c64, 0x4c45, 0x3ca2, 0x2c83, 0x1ce0, 0x0cc1,
    0xef1f, 0xff3e, 0xcf5d, 0xdf7c, 0xaf9b, 0xbfba, 0x8fd9, 0x9ff8,
    0x6e17, 0x7e36, 0x4e55, 0x5e74, 0x2e93, 0x3eb2, 0x0ed1, 0x1ef0]"

definition crc_t10dif_table :: "16 word list" where
  "crc_t10dif_table = [
    0x0000, 0x8bb7, 0x9cd9, 0x176e, 0xb205, 0x39b2, 0x2edc, 0xa56b,
    0xefbd, 0x640a, 0x7364, 0xf8d3, 0x5db8, 0xd60f, 0xc161, 0x4ad6,
    0x54cd, 0xdf7a, 0xc814, 0x43a3, 0xe6c8, 0x6d7f, 0x7a11, 0xf1a6,
    0xbb70, 0x30c7, 0x27a9, 0xac1e, 0x0975, 0x82c2, 0x95ac, 0x1e1b,
    0xa99a, 0x222d, 0x3543, 0xbef4, 0x1b9f, 0x9028, 0x8746, 0x0cf1,
    0x4627, 0xcd90, 0xdafe, 0x5149, 0xf422, 0x7f95, 0x68fb, 0xe34c,
    0xfd57, 0x76e0, 0x618e, 0xea39, 0x4f52, 0xc4e5, 0xd38b, 0x583c,
    0x12ea, 0x995d, 0x8e33, 0x0584, 0xa0ef, 0x2b58, 0x3c36, 0xb781,
    0xd883, 0x5334, 0x445a, 0xcfed, 0x6a86, 0xe131, 0xf65f, 0x7de8,
    0x373e, 0xbc89, 0xabe7, 0x2050, 0x853b, 0x0e8c, 0x19e2, 0x9255,
    0x8c4e, 0x07f9, 0x1097, 0x9b20, 0x3e4b, 0xb5fc, 0xa292, 0x2925,
    0x63f3, 0xe844, 0xff2a, 0x749d, 0xd1f6, 0x5a41, 0x4d2f, 0xc698,
    0x7119, 0xfaae, 0xedc0, 0x6677, 0xc31c, 0x48ab, 0x5fc5, 0xd472,
    0x9ea4, 0x1513, 0x027d, 0x89ca, 0x2ca1, 0xa716, 0xb078, 0x3bcf,
    0x25d4, 0xae63, 0xb90d, 0x32ba, 0x97d1, 0x1c66, 0x0b08, 0x80bf,
    0xca69, 0x41de, 0x56b0, 0xdd07, 0x786c, 0xf3db, 0xe4b5, 0x6f02,
    0x3ab1, 0xb106, 0xa668, 0x2ddf, 0x88b4, 0x0303, 0x146d, 0x9fda,
    0xd50c, 0x5ebb, 0x49d5, 0xc262, 0x6709, 0xecbe, 0xfbd0, 0x7067,
    0x6e7c, 0xe5cb, 0xf2a5, 0x7912, 0xdc79, 0x57ce, 0x40a0, 0xcb17,
    0x81c1, 0x0a76, 0x1d18, 0x96af, 0x33c4, 0xb873, 0xaf1d, 0x24aa,
    0x932b, 0x189c, 0x0ff2, 0x8445, 0x212e, 0xaa99, 0xbdf7, 0x3640,
    0x7c96, 0xf721, 0xe04f, 0x6bf8, 0xce93, 0x4524, 0x524a, 0xd9fd,
    0xc7e6, 0x4c51, 0x5b3f, 0xd088, 0x75e3, 0xfe54, 0xe93a, 0x628d,
    0x285b, 0xa3ec, 0xb482, 0x3f35, 0x9a5e, 0x11e9, 0x0687, 0x8d30,
    0xe232, 0x6985, 0x7eeb, 0xf55c, 0x5037, 0xdb80, 0xccee, 0x4759,
    0x0d8f, 0x8638, 0x9156, 0x1ae1, 0xbf8a, 0x343d, 0x2353, 0xa8e4,
    0xb6ff, 0x3d48, 0x2a26, 0xa191, 0x04fa, 0x8f4d, 0x9823, 0x1394,
    0x5942, 0xd2f5, 0xc59b, 0x4e2c, 0xeb47, 0x60f0, 0x779e, 0xfc29,
    0x4ba8, 0xc01f, 0xd771, 0x5cc6, 0xf9ad, 0x721a, 0x6574, 0xeec3,
    0xa415, 0x2fa2, 0x38cc, 0xb37b, 0x1610, 0x9da7, 0x8ac9, 0x017e,
    0x1f65, 0x94d2, 0x83bc, 0x080b, 0xad60, 0x26d7, 0x31b9, 0xba0e,
    0xf0d8, 0x7b6f, 0x6c01, 0xe7b6, 0x42dd, 0xc96a, 0xde04, 0x55b3]"

definition crc32_table :: "32 word list" where
  "crc32_table = [
    0x00000000, 0x77073096, 0xee0e612c, 0x990951ba, 0x076dc419, 0x706af48f,
    0xe963a535, 0x9e6495a3, 0x0edb8832, 0x79dcb8a4, 0xe0d5e91e, 0x97d2d988,
    0x09b64c2b, 0x7eb17cbd, 0xe7b82d07, 0x90bf1d91, 0x1db71064, 0x6ab020f2,
    0xf3b97148, 0x84be41de, 0x1adad47d, 0x6ddde4eb, 0xf4d4b551, 0x83d385c7,
    0x136c9856, 0x646ba8c0, 0xfd62f97a, 0x8a65c9ec, 0x14015c4f, 0x63066cd9,
    0xfa0f3d63, 0x8d080df5, 0x3b6e20c8, 0x4c69105e, 0xd56041e4, 0xa2677172,
    0x3c03e4d1, 0x4b04d447, 0xd20d85fd, 0xa50ab56b, 0x35b5a8fa, 0x42b2986c,
    0xdbbbc9d6, 0xacbcf940, 0x32d86ce3, 0x45df5c75, 0xdcd60dcf, 0xabd13d59,
    0x26d930ac, 0x51de003a, 0xc8d75180, 0xbfd06116, 0x21b4f4b5, 0x56b3c423,
    0xcfba9599, 0xb8bda50f, 0x2802b89e, 0x5f058808, 0xc60cd9b2, 0xb10be924,
    0x2f6f7c87, 0x58684c11, 0xc1611dab, 0xb6662d3d, 0x76dc4190, 0x01db7106,
    0x98d220bc, 0xefd5102a, 0x71b18589, 0x06b6b51f, 0x9fbfe4a5, 0xe8b8d433,
    0x7807c9a2, 0x0f00f934, 0x9609a88e, 0xe10e9818, 0x7f6a0dbb, 0x086d3d2d,
    0x91646c97, 0xe6635c01, 0x6b6b51f4, 0x1c6c6162, 0x856530d8, 0xf262004e,
    0x6c0695ed, 0x1b01a57b, 0x8208f4c1, 0xf50fc457, 0x65b0d9c6, 0x12b7e950,
    0x8bbeb8ea, 0xfcb9887c, 0x62dd1ddf, 0x15da2d49, 0x8cd37cf3, 0xfbd44c65,
    0x4db26158, 0x3ab551ce, 0xa3bc0074, 0xd4bb30e2, 0x4adfa541, 0x3dd895d7,
    0xa4d1c46d, 0xd3d6f4fb, 0x4369e96a, 0x346ed9fc, 0xad678846, 0xda60b8d0,
    0x44042d73, 0x33031de5, 0xaa0a4c5f, 0xdd0d7cc9, 0x5005713c, 0x270241aa,
    0xbe0b1010, 0xc90c2086, 0x5768b525, 0x206f85b3, 0xb966d409, 0xce61e49f,
    0x5edef90e, 0x29d9c998, 0xb0d09822, 0xc7d7a8b4, 0x59b33d17, 0x2eb40d81,
    0xb7bd5c3b, 0xc0ba6cad, 0xedb88320, 0x9abfb3b6, 0x03b6e20c, 0x74b1d29a,
    0xead54739, 0x9dd277af, 0x04db2615, 0x73dc1683, 0xe3630b12, 0x94643b84,
    0x0d6d6a3e, 0x7a6a5aa8, 0xe40ecf0b, 0x9309ff9d, 0x0a00ae27, 0x7d079eb1,
    0xf00f9344, 0x8708a3d2, 0x1e01f268, 0x6906c2fe, 0xf762575d, 0x806567cb,
    0x196c3671, 0x6e6b06e7, 0xfed41b76, 0x89d32be0, 0x10da7a5a, 0x67dd4acc,
    0xf9b9df6f, 0x8ebeeff9, 0x17b7be43, 0x60b08ed5, 0xd6d6a3e8, 0xa1d1937e,
    0x38d8c2c4, 0x4fdff252, 0xd1bb67f1, 0xa6bc5767, 0x3fb506dd, 0x48b2364b,
    0xd80d2bda, 0xaf0a1b4c, 0x36034af6, 0x41047a60, 0xdf60efc3, 0xa867df55,
    0x316e8eef, 0x4669be79, 0xcb61b38c, 0xbc66831a, 0x256fd2a0, 0x5268e236,
    0xcc0c7795, 0xbb0b4703, 0x220216b9, 0x5505262f, 0xc5ba3bbe, 0xb2bd0b28,
    0x2bb45a92, 0x5cb36a04, 0xc2d7ffa7, 0xb5d0cf31, 0x2cd99e8b, 0x5bdeae1d,
    0x9b64c2b0, 0xec63f226, 0x756aa39c, 0x026d930a, 0x9c0906a9, 0xeb0e363f,
    0x72076785, 0x05005713, 0x95bf4a82, 0xe2b87a14, 0x7bb12bae, 0x0cb61b38,
    0x92d28e9b, 0xe5d5be0d, 0x7cdcefb7, 0x0bdbdf21, 0x86d3d2d4, 0xf1d4e242,
    0x68ddb3f8, 0x1fda836e, 0x81be16cd, 0xf6b9265b, 0x6fb077e1, 0x18b74777,
    0x88085ae6, 0xff0f6a70, 0x66063bca, 0x11010b5c, 0x8f659eff, 0xf862ae69,
    0x616bffd3, 0x166ccf45, 0xa00ae278, 0xd70dd2ee, 0x4e048354, 0x3903b3c2,
    0xa7672661, 0xd06016f7, 0x4969474d, 0x3e6e77db, 0xaed16a4a, 0xd9d65adc,
    0x40df0b66, 0x37d83bf0, 0xa9bcae53, 0xdebb9ec5, 0x47b2cf7f, 0x30b5ffe9,
    0xbdbdf21c, 0xcabac28a, 0x53b39330, 0x24b4a3a6, 0xbad03605, 0xcdd70693,
    0x54de5729, 0x23d967bf, 0xb3667a2e, 0xc4614ab8, 0x5d681b02, 0x2a6f2b94,
    0xb40bbe37, 0xc30c8ea1, 0x5a05df1b, 0x2d02ef8d]"

definition crc64table :: "64 word list" where
  "crc64table = [
    0x0000000000000000, 0x42f0e1eba9ea3693, 0x85e1c3d753d46d26,
    0xc711223cfa3e5bb5, 0x493366450e42ecdf, 0x0bc387aea7a8da4c,
    0xccd2a5925d9681f9, 0x8e224479f47cb76a, 0x9266cc8a1c85d9be,
    0xd0962d61b56fef2d, 0x17870f5d4f51b498, 0x5577eeb6e6bb820b,
    0xdb55aacf12c73561, 0x99a54b24bb2d03f2, 0x5eb4691841135847,
    0x1c4488f3e8f96ed4, 0x663d78ff90e185ef, 0x24cd9914390bb37c,
    0xe3dcbb28c335e8c9, 0xa12c5ac36adfde5a, 0x2f0e1eba9ea36930,
    0x6dfeff5137495fa3, 0xaaefdd6dcd770416, 0xe81f3c86649d3285,
    0xf45bb4758c645c51, 0xb6ab559e258e6ac2, 0x71ba77a2dfb03177,
    0x334a9649765a07e4, 0xbd68d2308226b08e, 0xff9833db2bcc861d,
    0x388911e7d1f2dda8, 0x7a79f00c7818eb3b, 0xcc7af1ff21c30bde,
    0x8e8a101488293d4d, 0x499b3228721766f8, 0x0b6bd3c3dbfd506b,
    0x854997ba2f81e701, 0xc7b97651866bd192, 0x00a8546d7c558a27,
    0x4258b586d5bfbcb4, 0x5e1c3d753d46d260, 0x1cecdc9e94ace4f3,
    0xdbfdfea26e92bf46, 0x990d1f49c77889d5, 0x172f5b3033043ebf,
    0x55dfbadb9aee082c, 0x92ce98e760d05399, 0xd03e790cc93a650a,
    0xaa478900b1228e31, 0xe8b768eb18c8b8a2, 0x2fa64ad7e2f6e317,
    0x6d56ab3c4b1cd584, 0xe374ef45bf6062ee, 0xa1840eae168a547d,
    0x66952c92ecb40fc8, 0x2465cd79455e395b, 0x3821458aada7578f,
    0x7ad1a461044d611c, 0xbdc0865dfe733aa9, 0xff3067b657990c3a,
    0x711223cfa3e5bb50, 0x33e2c2240a0f8dc3, 0xf4f3e018f031d676,
    0xb60301f359dbe0e5, 0xda050215ea6c212f, 0x98f5e3fe438617bc,
    0x5fe4c1c2b9b84c09, 0x1d14202910527a9a, 0x93366450e42ecdf0,
    0xd1c685bb4dc4fb63, 0x16d7a787b7faa0d6, 0x5427466c1e109645,
    0x4863ce9ff6e9f891, 0x0a932f745f03ce02, 0xcd820d48a53d95b7,
    0x8f72eca30cd7a324, 0x0150a8daf8ab144e, 0x43a04931514122dd,
    0x84b16b0dab7f7968, 0xc6418ae602954ffb, 0xbc387aea7a8da4c0,
    0xfec89b01d3679253, 0x39d9b93d2959c9e6, 0x7b2958d680b3ff75,
    0xf50b1caf74cf481f, 0xb7fbfd44dd257e8c, 0x70eadf78271b2539,
    0x321a3e938ef113aa, 0x2e5eb66066087d7e, 0x6cae578bcfe24bed,
    0xabbf75b735dc1058, 0xe94f945c9c3626cb, 0x676dd025684a91a1,
    0x259d31cec1a0a732, 0xe28c13f23b9efc87, 0xa07cf2199274ca14,
    0x167ff3eacbaf2af1, 0x548f120162451c62, 0x939e303d987b47d7,
    0xd16ed1d631917144, 0x5f4c95afc5edc62e, 0x1dbc74446c07f0bd,
    0xdaad56789639ab08, 0x985db7933fd39d9b, 0x84193f60d72af34f,
    0xc6e9de8b7ec0c5dc, 0x01f8fcb784fe9e69, 0x43081d5c2d14a8fa,
    0xcd2a5925d9681f90, 0x8fdab8ce70822903, 0x48cb9af28abc72b6,
    0x0a3b7b1923564425, 0x70428b155b4eaf1e, 0x32b26afef2a4998d,
    0xf5a348c2089ac238, 0xb753a929a170f4ab, 0x3971ed50550c43c1,
    0x7b810cbbfce67552, 0xbc902e8706d82ee7, 0xfe60cf6caf321874,
    0xe224479f47cb76a0, 0xa0d4a674ee214033, 0x67c58448141f1b86,
    0x253565a3bdf52d15, 0xab1721da49899a7f, 0xe9e7c031e063acec,
    0x2ef6e20d1a5df759, 0x6c0603e6b3b7c1ca, 0xf6fae5c07d3274cd,
    0xb40a042bd4d8425e, 0x731b26172ee619eb, 0x31ebc7fc870c2f78,
    0xbfc9838573709812, 0xfd39626eda9aae81, 0x3a28405220a4f534,
    0x78d8a1b9894ec3a7, 0x649c294a61b7ad73, 0x266cc8a1c85d9be0,
    0xe17dea9d3263c055, 0xa38d0b769b89f6c6, 0x2daf4f0f6ff541ac,
    0x6f5faee4c61f773f, 0xa84e8cd83c212c8a, 0xeabe6d3395cb1a19,
    0x90c79d3fedd3f122, 0xd2377cd44439c7b1, 0x15265ee8be079c04,
    0x57d6bf0317edaa97, 0xd9f4fb7ae3911dfd, 0x9b041a914a7b2b6e,
    0x5c1538adb04570db, 0x1ee5d94619af4648, 0x02a151b5f156289c,
    0x4051b05e58bc1e0f, 0x87409262a28245ba, 0xc5b073890b687329,
    0x4b9237f0ff14c443, 0x0962d61b56fef2d0, 0xce73f427acc0a965,
    0x8c8315cc052a9ff6, 0x3a80143f5cf17f13, 0x7870f5d4f51b4980,
    0xbf61d7e80f251235, 0xfd913603a6cf24a6, 0x73b3727a52b393cc,
    0x31439391fb59a55f, 0xf652b1ad0167feea, 0xb4a25046a88dc879,
    0xa8e6d8b54074a6ad, 0xea16395ee99e903e, 0x2d071b6213a0cb8b,
    0x6ff7fa89ba4afd18, 0xe1d5bef04e364a72, 0xa3255f1be7dc7ce1,
    0x64347d271de22754, 0x26c49cccb40811c7, 0x5cbd6cc0cc10fafc,
    0x1e4d8d2b65facc6f, 0xd95caf179fc497da, 0x9bac4efc362ea149,
    0x158e0a85c2521623, 0x577eeb6e6bb820b0, 0x906fc95291867b05,
    0xd29f28b9386c4d96, 0xcedba04ad0952342, 0x8c2b41a1797f15d1,
    0x4b3a639d83414e64, 0x09ca82762aab78f7, 0x87e8c60fded7cf9d,
    0xc51827e4773df90e, 0x020905d88d03a2bb, 0x40f9e43324e99428,
    0x2cffe7d5975e55e2, 0x6e0f063e3eb46371, 0xa91e2402c48a38c4,
    0xebeec5e96d600e57, 0x65cc8190991cb93d, 0x273c607b30f68fae,
    0xe02d4247cac8d41b, 0xa2dda3ac6322e288, 0xbe992b5f8bdb8c5c,
    0xfc69cab42231bacf, 0x3b78e888d80fe17a, 0x7988096371e5d7e9,
    0xf7aa4d1a85996083, 0xb55aacf12c735610, 0x724b8ecdd64d0da5,
    0x30bb6f267fa73b36, 0x4ac29f2a07bfd00d, 0x08327ec1ae55e69e,
    0xcf235cfd546bbd2b, 0x8dd3bd16fd818bb8, 0x03f1f96f09fd3cd2,
    0x41011884a0170a41, 0x86103ab85a2951f4, 0xc4e0db53f3c36767,
    0xd8a453a01b3a09b3, 0x9a54b24bb2d03f20, 0x5d45907748ee6495,
    0x1fb5719ce1045206, 0x919735e51578e56c, 0xd367d40ebc92d3ff,
    0x1476f63246ac884a, 0x568617d9ef46bed9, 0xe085162ab69d5e3c,
    0xa275f7c11f7768af, 0x6564d5fde549331a, 0x279434164ca30589,
    0xa9b6706fb8dfb2e3, 0xeb46918411358470, 0x2c57b3b8eb0bdfc5,
    0x6ea7525342e1e956, 0x72e3daa0aa188782, 0x30133b4b03f2b111,
    0xf7021977f9cceaa4, 0xb5f2f89c5026dc37, 0x3bd0bce5a45a6b5d,
    0x79205d0e0db05dce, 0xbe317f32f78e067b, 0xfcc19ed95e6430e8,
    0x86b86ed5267cdbd3, 0xc4488f3e8f96ed40, 0x0359ad0275a8b6f5,
    0x41a94ce9dc428066, 0xcf8b0890283e370c, 0x8d7be97b81d4019f,
    0x4a6acb477bea5a2a, 0x089a2aacd2006cb9, 0x14dea25f3af9026d,
    0x562e43b4931334fe, 0x913f6188692d6f4b, 0xd3cf8063c0c759d8,
    0x5dedc41a34bbeeb2, 0x1f1d25f19d51d821, 0xd80c07cd676f8394,
    0x9afce626ce85b507]"

definition crc_rocksoft_table :: "64 word list" where
  "crc_rocksoft_table = [
    0x0000000000000000, 0x7f6ef0c830358979, 0xfedde190606b12f2,
    0x81b31158505e9b8b, 0xc962e5739841b68f, 0xb60c15bba8743ff6,
    0x37bf04e3f82aa47d, 0x48d1f42bc81f2d04, 0xa61cecb46814fe75,
    0xd9721c7c5821770c, 0x58c10d24087fec87, 0x27affdec384a65fe,
    0x6f7e09c7f05548fa, 0x1010f90fc060c183, 0x91a3e857903e5a08,
    0xeecd189fa00bd371, 0x78e0ff3b88be6f81, 0x078e0ff3b88be6f8,
    0x863d1eabe8d57d73, 0xf953ee63d8e0f40a, 0xb1821a4810ffd90e,
    0xceecea8020ca5077, 0x4f5ffbd87094cbfc, 0x30310b1040a14285,
    0xdefc138fe0aa91f4, 0xa192e347d09f188d, 0x2021f21f80c18306,
    0x5f4f02d7b0f40a7f, 0x179ef6fc78eb277b, 0x68f0063448deae02,
    0xe943176c18803589, 0x962de7a428b5bcf0, 0xf1c1fe77117cdf02,
    0x8eaf0ebf2149567b, 0x0f1c1fe77117cdf0, 0x7072ef2f41224489,
    0x38a31b04893d698d, 0x47cdebccb908e0f4, 0xc67efa94e9567b7f,
    0xb9100a5cd963f206, 0x57dd12c379682177, 0x28b3e20b495da80e,
    0xa900f35319033385, 0xd66e039b2936bafc, 0x9ebff7b0e12997f8,
    0xe1d10778d11c1e81, 0x606216208142850a, 0x1f0ce6e8b1770c73,
    0x8921014c99c2b083, 0xf64ff184a9f739fa, 0x77fce0dcf9a9a271,
    0x08921014c99c2b08, 0x4043e43f0183060c, 0x3f2d14f731b68f75,
    0xbe9e05af61e814fe, 0xc1f0f56751dd9d87, 0x2f3dedf8f1d64ef6,
    0x50531d30c1e3c78f, 0xd1e00c6891bd5c04, 0xae8efca0a188d57d,
    0xe65f088b6997f879, 0x9931f84359a27100, 0x1882e91b09fcea8b,
    0x67ec19d339c963f2, 0xd75adabd7a6e2d6f, 0xa8342a754a5ba416,
    0x29873b2d1a053f9d, 0x56e9cbe52a30b6e4, 0x1e383fcee22f9be0,
    0x6156cf06d21a1299, 0xe0e5de5e82448912, 0x9f8b2e96b271006b,
    0x71463609127ad31a, 0x0e28c6c1224f5a63, 0x8f9bd7997211c1e8,
    0xf0f5275142244891, 0xb824d37a8a3b6595, 0xc74a23b2ba0eecec,
    0x46f932eaea507767, 0x3997c222da65fe1e, 0xafba2586f2d042ee,
    0xd0d4d54ec2e5cb97, 0x5167c41692bb501c, 0x2e0934dea28ed965,
    0x66d8c0f56a91f461, 0x19b6303d5aa47d18, 0x980521650afae693,
    0xe76bd1ad3acf6fea, 0x09a6c9329ac4bc9b, 0x76c839faaaf135e2,
    0xf77b28a2faafae69, 0x8815d86aca9a2710, 0xc0c42c4102850a14,
    0xbfaadc8932b0836d, 0x3e19cdd162ee18e6, 0x41773d1952db919f,
    0x269b24ca6b12f26d, 0x59f5d4025b277b14, 0xd846c55a0b79e09f,
    0xa72835923b4c69e6, 0xeff9c1b9f35344e2, 0x90973171c366cd9b,
    0x1124202993385610, 0x6e4ad0e1a30ddf69, 0x8087c87e03060c18,
    0xffe938b633338561, 0x7e5a29ee636d1eea, 0x0134d92653589793,
    0x49e52d0d9b47ba97, 0x368bddc5ab7233ee, 0xb738cc9dfb2ca865,
    0xc8563c55cb19211c, 0x5e7bdbf1e3ac9dec, 0x21152b39d3991495,
    0xa0a63a6183c78f1e, 0xdfc8caa9b3f20667, 0x97193e827bed2b63,
    0xe877ce4a4bd8a21a, 0x69c4df121b863991, 0x16aa2fda2bb3b0e8,
    0xf86737458bb86399, 0x8709c78dbb8deae0, 0x06bad6d5ebd3716b,
    0x79d4261ddbe6f812, 0x3105d23613f9d516, 0x4e6b22fe23cc5c6f,
    0xcfd833a67392c7e4, 0xb0b6c36e43a74e9d, 0x9a6c9329ac4bc9b5,
    0xe50263e19c7e40cc, 0x64b172b9cc20db47, 0x1bdf8271fc15523e,
    0x530e765a340a7f3a, 0x2c608692043ff643, 0xadd397ca54616dc8,
    0xd2bd67026454e4b1, 0x3c707f9dc45f37c0, 0x431e8f55f46abeb9,
    0xc2ad9e0da4342532, 0xbdc36ec59401ac4b, 0xf5129aee5c1e814f,
    0x8a7c6a266c2b0836, 0x0bcf7b7e3c7593bd, 0x74a18bb60c401ac4,
    0xe28c6c1224f5a634, 0x9de29cda14c02f4d, 0x1c518d82449eb4c6,
    0x633f7d4a74ab3dbf, 0x2bee8961bcb410bb, 0x548079a98c8199c2,
    0xd53368f1dcdf0249, 0xaa5d9839ecea8b30, 0x449080a64ce15841,
    0x3bfe706e7cd4d138, 0xba4d61362c8a4ab3, 0xc52391fe1cbfc3ca,
    0x8df265d5d4a0eece, 0xf29c951de49567b7, 0x732f8445b4cbfc3c,
    0x0c41748d84fe7545, 0x6bad6d5ebd3716b7, 0x14c39d968d029fce,
    0x95708ccedd5c0445, 0xea1e7c06ed698d3c, 0xa2cf882d2576a038,
    0xdda178e515432941, 0x5c1269bd451db2ca, 0x237c997575283bb3,
    0xcdb181ead523e8c2, 0xb2df7122e51661bb, 0x336c607ab548fa30,
    0x4c0290b2857d7349, 0x04d364994d625e4d, 0x7bbd94517d57d734,
    0xfa0e85092d094cbf, 0x856075c11d3cc5c6, 0x134d926535897936,
    0x6c2362ad05bcf04f, 0xed9073f555e26bc4, 0x92fe833d65d7e2bd,
    0xda2f7716adc8cfb9, 0xa54187de9dfd46c0, 0x24f29686cda3dd4b,
    0x5b9c664efd965432, 0xb5517ed15d9d8743, 0xca3f8e196da80e3a,
    0x4b8c9f413df695b1, 0x34e26f890dc31cc8, 0x7c339ba2c5dc31cc,
    0x035d6b6af5e9b8b5, 0x82ee7a32a5b7233e, 0xfd808afa9582aa47,
    0x4d364994d625e4da, 0x3258b95ce6106da3, 0xb3eba804b64ef628,
    0xcc8558cc867b7f51, 0x8454ace74e645255, 0xfb3a5c2f7e51db2c,
    0x7a894d772e0f40a7, 0x05e7bdbf1e3ac9de, 0xeb2aa520be311aaf,
    0x944455e88e0493d6, 0x15f744b0de5a085d, 0x6a99b478ee6f8124,
    0x224840532670ac20, 0x5d26b09b16452559, 0xdc95a1c3461bbed2,
    0xa3fb510b762e37ab, 0x35d6b6af5e9b8b5b, 0x4ab846676eae0222,
    0xcb0b573f3ef099a9, 0xb465a7f70ec510d0, 0xfcb453dcc6da3dd4,
    0x83daa314f6efb4ad, 0x0269b24ca6b12f26, 0x7d0742849684a65f,
    0x93ca5a1b368f752e, 0xeca4aad306bafc57, 0x6d17bb8b56e467dc,
    0x12794b4366d1eea5, 0x5aa8bf68aecec3a1, 0x25c64fa09efb4ad8,
    0xa4755ef8cea5d153, 0xdb1bae30fe90582a, 0xbcf7b7e3c7593bd8,
    0xc399472bf76cb2a1, 0x422a5673a732292a, 0x3d44a6bb9707a053,
    0x759552905f188d57, 0x0afba2586f2d042e, 0x8b48b3003f739fa5,
    0xf42643c80f4616dc, 0x1aeb5b57af4dc5ad, 0x6585ab9f9f784cd4,
    0xe436bac7cf26d75f, 0x9b584a0fff135e26, 0xd389be24370c7322,
    0xace74eec0739fa5b, 0x2d545fb4576761d0, 0x523aaf7c6752e8a9,
    0xc41748d84fe75459, 0xbb79b8107fd2dd20, 0x3acaa9482f8c46ab,
    0x45a459801fb9cfd2, 0x0d75adabd7a6e2d6, 0x721b5d63e7936baf,
    0xf3a84c3bb7cdf024, 0x8cc6bcf387f8795d, 0x620ba46c27f3aa2c,
    0x1d6554a417c62355, 0x9cd645fc4798b8de, 0xe3b8b53477ad31a7,
    0xab69411fbfb21ca3, 0xd407b1d78f8795da, 0x55b4a08fdfd90e51,
    0x2ada5047efec8728]"

end
