(* ===== verification/Crc_Register.thy ===== *)
theory Crc_Register
  imports Prelude
begin

text \<open>
  The shift registers that cyclic redundancy checks are defined by, their linearity, and what
  follows from it: the table of eight steps is given by its values at the powers of two, a table
  step is eight steps of the register fed with the bits of a byte, and the register detects errors.
\<close>

section \<open>Shift registers\<close>

text \<open>
  One step of the register, least and most significant bit first; and the register fed with the
  bits of a message, the specification of a CRC.
\<close>

definition crc_lsb :: "'a::len word \<Rightarrow> 'a word \<Rightarrow> 'a word" where
  "crc_lsb poly c = (if bit c 0 then drop_bit 1 c XOR poly else drop_bit 1 c)"

definition crc_msb :: "'a::len word \<Rightarrow> 'a word \<Rightarrow> 'a word" where
  "crc_msb poly c = (if bit c (LENGTH('a) - 1) then push_bit 1 c XOR poly else push_bit 1 c)"

definition serial_lsb :: "'a::len word \<Rightarrow> 'a word \<Rightarrow> bool \<Rightarrow> 'a word" where
  "serial_lsb poly c d = (if bit c 0 \<noteq> d then drop_bit 1 c XOR poly else drop_bit 1 c)"

definition serial_msb :: "'a::len word \<Rightarrow> 'a word \<Rightarrow> bool \<Rightarrow> 'a word" where
  "serial_msb poly c d = (if bit c (LENGTH('a) - 1) \<noteq> d then push_bit 1 c XOR poly else push_bit 1 c)"

definition bits_lsb :: "byte list \<Rightarrow> bool list" where
  "bits_lsb src = concat (map (\<lambda>b. map (bit b) [0 ..< 8]) src)"

definition bits_msb :: "byte list \<Rightarrow> bool list" where
  "bits_msb src = concat (map (\<lambda>b. map (\<lambda>i. bit b (7 - i)) [0 ..< 8]) src)"

section \<open>Linearity\<close>

definition linear_word :: "('a::len word \<Rightarrow> 'b::len word) \<Rightarrow> bool" where
  "linear_word f \<longleftrightarrow> (\<forall>x y. f (x XOR y) = f x XOR f y)"

lemma linear_zero: "linear_word f \<Longrightarrow> f 0 = 0"
  unfolding linear_word_def by (metis xor_self_eq)

lemma linear_crc_lsb: "linear_word (crc_lsb poly)"
  unfolding linear_word_def crc_lsb_def by (auto intro!: bit_word_eqI simp: bit_simps)

lemma linear_crc_msb: "linear_word (crc_msb poly)"
  unfolding linear_word_def crc_msb_def by (auto intro!: bit_word_eqI simp: bit_simps)

lemma linear_funpow:
  fixes f :: "'a::len word \<Rightarrow> 'a word"
  shows "linear_word f \<Longrightarrow> linear_word (f ^^ n)"
  by (induction n) (simp_all add: linear_word_def)

lemma linear_push: "linear_word (push_bit n :: 'a::len word \<Rightarrow> 'a word)"
  unfolding linear_word_def by (auto intro!: bit_word_eqI simp: bit_simps)

lemma linear_comp: "linear_word f \<Longrightarrow> linear_word g \<Longrightarrow> linear_word (\<lambda>x. f (g x))"
  by (simp add: linear_word_def)

lemmas crc_linear = linear_funpow [OF linear_crc_lsb] linear_funpow [OF linear_crc_msb]
  linear_comp [OF linear_funpow [OF linear_crc_msb] linear_push]

text \<open>A table of a linear map is given by its values at the powers of two.\<close>

fun xor_table :: "'a::len word list \<Rightarrow> 'a word list" where
  "xor_table [] = [0]"
| "xor_table (b # bs) = (let t = xor_table bs in t @ map (\<lambda>x. x XOR b) t)"

lemma xor_power_add:
  assumes "i < 2 ^ k"
  shows "(of_nat i XOR of_nat (2 ^ k) :: 'a::len word) = of_nat (2 ^ k + i)"
proof -
  have i: "i = take_bit k i" using assms by (simp add: take_bit_nat_eq_self)
  have nb: "\<not> bit i k" by (subst i) (simp add: bit_take_bit_iff)
  have "i XOR 2 ^ k = 2 ^ k OR i"
    by (rule bit_eqI) (use nb in \<open>auto simp: bit_simps\<close>)
  also have "\<dots> = 2 ^ k + i"
    by (rule disjunctive_add [symmetric]) (use nb in \<open>auto simp: bit_simps\<close>)
  finally have "i XOR 2 ^ k = 2 ^ k + i" .
  then show ?thesis by (metis of_nat_xor_eq)
qed

lemma xor_table_powers:
  assumes "linear_word f"
  shows "xor_table (map (\<lambda>j. f (of_nat (2 ^ j))) (rev [0 ..< k])) = map (\<lambda>i. f (of_nat i)) [0 ..< 2 ^ k]"
proof (induction k)
  case 0
  then show ?case using linear_zero [OF assms] by simp
next
  case (Suc k)
  have "map (\<lambda>i. f (of_nat i) XOR f (of_nat (2 ^ k))) [0 ..< 2 ^ k] = map (\<lambda>i. f (of_nat (2 ^ k + i))) [0 ..< 2 ^ k]"
    using assms xor_power_add [of _ k, where ?'a = 'a] by (auto simp: linear_word_def simp del: of_nat_power) metis
  moreover have "[0 ..< 2 ^ Suc k] = [0 ..< 2 ^ k] @ map (\<lambda>i. 2 ^ k + i) [0 ..< 2 ^ k]"
    using upt_add_eq_append [of 0 "2 ^ k" "2 ^ k"] map_add_upt [of "2 ^ k" "2 ^ k"] by (simp add: mult_2 add.commute)
  ultimately show ?case using Suc.IH by (simp add: Let_def del: of_nat_add of_nat_power)
qed

lemma xor_table_linear:
  assumes "linear_word f"
  shows "xor_table (map f [128, 64, 32, 16, 8, 4, 2, 1]) = map (\<lambda>i. f (of_nat i)) [0 ..< 256]"
proof -
  have "rev [0 ..< 8] = [7, 6, 5, 4, 3, 2, 1, 0 :: nat]" by (simp add: upt_rec)
  then have "map (\<lambda>j. f (of_nat (2 ^ j))) (rev [0 ..< 8]) = map f [128, 64, 32, 16, 8, 4, 2, 1]"
    by (simp only: list.map) simp
  moreover have "(2 :: nat) ^ 8 = 256" by simp
  ultimately show ?thesis using xor_table_powers [OF assms, of 8] by (simp only:)
qed

lemma funpow_8: "(f ^^ 8) x = f (f (f (f (f (f (f (f x)))))))"
  by (simp add: numeral_eq_Suc)

section \<open>Table steps are eight register steps\<close>

lemma crc_lsb_shift:
  "take_bit k x = 0 \<Longrightarrow> (crc_lsb poly ^^ k) x = drop_bit k (x :: 'a::len word)"
proof (induction k arbitrary: x)
  case (Suc k)
  have b: "\<not> bit x i" if "i < Suc k" for i
    using Suc.prems that by (metis bit_0_eq bit_take_bit_iff bot_apply bot_bool_def)
  then have "crc_lsb poly x = drop_bit 1 x" by (simp add: crc_lsb_def)
  moreover have "take_bit k (drop_bit 1 x) = 0"
    by (rule bit_word_eqI) (use b in \<open>auto simp: bit_simps\<close>)
  ultimately have "(crc_lsb poly ^^ k) (crc_lsb poly x) = drop_bit k (drop_bit 1 x)" using Suc.IH by simp
  then show ?case by (simp add: funpow_swap1 flip: drop_bit_Suc)
qed simp

lemma crc_msb_shift:
  fixes x :: "'a::len word"
  assumes "\<And>i. LENGTH('a) - k \<le> i \<Longrightarrow> \<not> bit x i"
  shows "(crc_msb poly ^^ k) x = push_bit k x"
  using assms
proof (induction k arbitrary: x)
  case (Suc k)
  have "\<not> bit x (LENGTH('a) - 1)" by (rule Suc.prems) simp
  then have "crc_msb poly x = push_bit 1 x" by (simp add: crc_msb_def)
  moreover have "\<not> bit (push_bit 1 x) i" if "LENGTH('a) - k \<le> i" for i
    using Suc.prems [of "i - 1"] that by (auto simp: bit_push_bit_iff simp del: push_bit_of_Suc_0 push_bit_Suc push_bit_numeral)
  ultimately have "(crc_msb poly ^^ k) (crc_msb poly x) = push_bit k (push_bit 1 x)" using Suc.IH by simp
  then show ?case by (simp add: funpow_swap1)
qed simp


lemma xor_eq_zero: "x XOR y = 0 \<longleftrightarrow> x = (y :: 'a::len word)"
  by (metis xor.assoc xor.left_neutral xor_self_eq xor.right_neutral)

lemma xor_split: "c = (c AND NOT 0xff) XOR (c AND 0xff :: 'a::len word)"
  by (rule bit_word_eqI) (auto simp: bit_simps)

lemma and_255: "(x AND 0xff :: 'a::len word) = take_bit 8 x"
  by (simp add: take_bit_eq_mask mask_numeral)

lemma unat_byte_less: "unat (take_bit 8 (x :: 'a::len word)) < 256"
proof -
  have "unat (take_bit 8 x) = take_bit 8 (unat x)" by (rule unsigned_take_bit_eq)
  also have "\<dots> < 2 ^ 8" by (rule take_bit_nat_less_exp)
  finally show ?thesis by simp
qed

lemma lsb_table_step:
  fixes c :: "'a::len word"
  assumes t: "t = map (\<lambda>i. (crc_lsb poly ^^ 8) (of_nat i)) [0 ..< 256]"
  shows "drop_bit 8 c XOR t ! unat (take_bit 8 (c XOR d)) = (crc_lsb poly ^^ 8) (c XOR take_bit 8 d)"
proof -
  let ?f = "crc_lsb poly ^^ 8" and ?x = "take_bit 8 (c XOR d)"
  have "t ! unat ?x = ?f ?x" using unat_byte_less [of "c XOR d"] by (simp add: t del: funpow_8)
  moreover have "drop_bit 8 c = drop_bit 8 (c XOR take_bit 8 c)"
    by (rule bit_word_eqI) (auto simp: bit_simps)
  moreover have "\<dots> = ?f (c XOR take_bit 8 c)"
    by (rule crc_lsb_shift [symmetric]) (rule bit_word_eqI, auto simp: bit_simps)
  ultimately have "drop_bit 8 c XOR t ! unat ?x = ?f (c XOR take_bit 8 c) XOR ?f ?x" by simp
  also have "\<dots> = ?f ((c XOR take_bit 8 c) XOR ?x)"
    using linear_funpow [OF linear_crc_lsb, of 8 poly] by (simp add: linear_word_def)
  also have "(c XOR take_bit 8 c) XOR ?x = c XOR take_bit 8 d"
    by (rule bit_word_eqI) (auto simp: bit_simps)
  finally show ?thesis .
qed

lemma msb_table_step:
  fixes c :: "'a::len word"
  assumes w: "8 \<le> LENGTH('a)"
    and t: "t = map (\<lambda>i. (crc_msb poly ^^ 8) (push_bit (LENGTH('a) - 8) (of_nat i))) [0 ..< 256]"
    and d: "take_bit 8 d = d"
  shows "push_bit 8 c XOR t ! unat (drop_bit (LENGTH('a) - 8) c XOR d) =
    (crc_msb poly ^^ 8) (c XOR push_bit (LENGTH('a) - 8) d)"
proof -
  let ?n = "LENGTH('a) - 8"
  let ?f = "crc_msb poly ^^ 8" and ?x = "drop_bit ?n c XOR d"
  have d': "\<not> bit d i" if "8 \<le> i" for i
    using d that by (metis bit_take_bit_iff linorder_not_le)
  have tx: "take_bit 8 ?x = ?x"
    by (rule bit_word_eqI) (use d' w in \<open>auto simp: bit_simps dest: bit_imp_le_length\<close>)
  then have "unat ?x < 256" using unat_byte_less [of ?x] by simp
  then have "t ! unat ?x = ?f (push_bit ?n ?x)" by (simp add: t)
  moreover have "push_bit 8 c = push_bit 8 (take_bit ?n c)"
    by (rule bit_word_eqI) (use w in \<open>auto simp: bit_simps dest: bit_imp_le_length\<close>)
  moreover have "\<dots> = ?f (take_bit ?n c)"
    by (rule crc_msb_shift [symmetric]) (auto simp: bit_simps)
  ultimately have "push_bit 8 c XOR t ! unat ?x = ?f (take_bit ?n c) XOR ?f (push_bit ?n ?x)" by simp
  also have "\<dots> = ?f (take_bit ?n c XOR push_bit ?n ?x)"
    using linear_funpow [OF linear_crc_msb, of 8 poly] by (simp add: linear_word_def)
  also have "take_bit ?n c XOR push_bit ?n ?x = c XOR push_bit ?n d"
  proof (rule bit_word_eqI)
    fix i assume i: "i < LENGTH('a)"
    show "bit (take_bit ?n c XOR push_bit ?n ?x) i = bit (c XOR push_bit ?n d) i"
    proof (cases "i < ?n")
      case False
      then have "?n + (i - ?n) = i" by simp
      then show ?thesis using False i by (auto simp: bit_take_bit_iff bit_push_bit_iff bit_xor_iff bit_drop_bit_eq)
    qed (auto simp: bit_simps)
  qed
  finally show ?thesis .
qed

lemma take_bit_ucast_byte: "take_bit 8 (ucast (d :: byte) :: 'a::len word) = ucast d"
  by (rule bit_word_eqI) (auto simp: bit_simps dest: bit_imp_le_length)

lemma msb_index_and_255:
  assumes "n = LENGTH('a) - 8"
  shows "(drop_bit n c XOR ucast (d :: byte)) AND 0xff = drop_bit n (c :: 'a::len word) XOR ucast d"
  unfolding and_255 by (rule bit_word_eqI) (use assms in \<open>auto simp: bit_simps dest: bit_imp_le_length\<close>)

lemma msb_table_step_byte:
  fixes c :: "'a::len word" and d :: byte
  assumes "8 \<le> LENGTH('a)" "n = LENGTH('a) - 8"
    and "t = map (\<lambda>i. (crc_msb poly ^^ 8) (push_bit n (of_nat i))) [0 ..< 256]"
  shows "push_bit 8 c XOR t ! unat (drop_bit n c XOR ucast d) = (crc_msb poly ^^ 8) (c XOR push_bit n (ucast d))"
  using msb_table_step [of t poly "ucast d" c] assms take_bit_ucast_byte by metis

text \<open>The register fed with bits.\<close>

lemma serial_lsb_byte:
  fixes c d :: "'a::len word"
  assumes "k \<le> LENGTH('a)"
  shows "foldl (serial_lsb poly) c (map (bit d) [0 ..< k]) = (crc_lsb poly ^^ k) (c XOR take_bit k d)"
  using assms
proof (induction k)
  case (Suc k)
  let ?o = "of_bool (bit d k) :: 'a word" and ?f = "crc_lsb poly ^^ k"
  have step: "serial_lsb poly x b = crc_lsb poly (x XOR of_bool b)" for x b
    by (auto simp: serial_lsb_def crc_lsb_def bit_simps intro!: bit_word_eqI)
  have "?f (push_bit k ?o) = drop_bit k (push_bit k ?o)"
    by (rule crc_lsb_shift) (auto intro!: bit_word_eqI simp: bit_simps)
  also have "\<dots> = ?o" by (rule bit_word_eqI) (use Suc.prems in \<open>auto simp: bit_simps\<close>)
  finally have o: "?f (push_bit k ?o) = ?o" .
  have "foldl (serial_lsb poly) c (map (bit d) [0 ..< Suc k]) = serial_lsb poly (?f (c XOR take_bit k d)) (bit d k)"
    using Suc by simp
  also have "\<dots> = crc_lsb poly (?f (c XOR take_bit k d) XOR ?f (push_bit k ?o))"
    unfolding o by (rule step)
  also have "?f (c XOR take_bit k d) XOR ?f (push_bit k ?o) = ?f ((c XOR take_bit k d) XOR push_bit k ?o)"
    using linear_funpow [OF linear_crc_lsb, of k poly] by (simp add: linear_word_def)
  also have "(c XOR take_bit k d) XOR push_bit k ?o = c XOR take_bit (Suc k) d"
    by (rule bit_word_eqI) (auto simp: bit_simps less_Suc_eq)
  finally show ?case by simp
qed simp

lemma serial_msb_bits:
  fixes c :: "'a::len word" and d :: "'b::len word"
  assumes "m \<le> LENGTH('a)" "m \<le> LENGTH('b)" "k \<le> m"
  shows "foldl (serial_msb poly) c (map (\<lambda>i. bit d (m - 1 - i)) [0 ..< k]) =
    (crc_msb poly ^^ k) (c XOR push_bit (LENGTH('a) - k) (ucast (drop_bit (m - k) d)))"
  using assms(3)
proof (induction k)
  case (Suc k)
  let ?w = "LENGTH('a)"
  let ?o = "of_bool (bit d (m - 1 - k)) :: 'a word" and ?f = "crc_msb poly ^^ k"
  let ?p = "push_bit (?w - k) (ucast (drop_bit (m - k) d)) :: 'a word"
  have step: "serial_msb poly x b = crc_msb poly (x XOR push_bit (?w - 1) (of_bool b))" for x b
    by (auto simp: serial_msb_def crc_msb_def bit_simps intro!: bit_word_eqI)
  have "?f (push_bit (?w - Suc k) ?o) = push_bit k (push_bit (?w - Suc k) ?o)"
    by (rule crc_msb_shift) (use Suc.prems assms in \<open>auto simp: bit_simps\<close>)
  also have "\<dots> = push_bit (?w - 1) ?o" using Suc.prems assms by simp
  finally have o: "?f (push_bit (?w - Suc k) ?o) = push_bit (?w - 1) ?o" .
  have "foldl (serial_msb poly) c (map (\<lambda>i. bit d (m - 1 - i)) [0 ..< Suc k]) =
      serial_msb poly (?f (c XOR ?p)) (bit d (m - 1 - k))"
    using Suc by simp
  also have "\<dots> = crc_msb poly (?f (c XOR ?p) XOR ?f (push_bit (?w - Suc k) ?o))"
    unfolding o by (rule step)
  also have "?f (c XOR ?p) XOR ?f (push_bit (?w - Suc k) ?o) = ?f ((c XOR ?p) XOR push_bit (?w - Suc k) ?o)"
    using linear_funpow [OF linear_crc_msb, of k poly] by (simp add: linear_word_def)
  also have "(c XOR ?p) XOR push_bit (?w - Suc k) ?o =
      c XOR push_bit (?w - Suc k) (ucast (drop_bit (m - Suc k) d))"
  proof (rule bit_word_eqI)
    fix n assume n: "n < ?w"
    consider "n < ?w - Suc k" | "n = ?w - Suc k" | "?w - k \<le> n" by linarith
    then show "bit ((c XOR ?p) XOR push_bit (?w - Suc k) ?o) n =
        bit (c XOR push_bit (?w - Suc k) (ucast (drop_bit (m - Suc k) d))) n"
    proof cases
      case 3
      then have "m - k + (n - (?w - k)) = m - Suc k + (n - (?w - Suc k))" "n \<noteq> ?w - Suc k"
        using Suc.prems assms by auto
      then show ?thesis using 3 n Suc.prems assms by (auto simp: bit_simps)
    qed (use n Suc.prems assms in \<open>auto simp: bit_simps\<close>)
  qed
  finally show ?case by simp
qed simp

section \<open>Errors detected\<close>

text \<open>
  A byte-wise check whose step loses nothing about the register or the byte; \<open>detects\<close> is what its
  users rely on.
\<close>

locale crc_step =
  fixes step :: "'c \<Rightarrow> byte \<Rightarrow> 'c"
  assumes step_state: "step c b = step c' b \<Longrightarrow> c = c'"
    and step_byte: "step c b = step c b' \<Longrightarrow> b = b'"
begin

lemma foldl_state: "foldl step c bs = foldl step c' bs \<Longrightarrow> c = c'"
  by (induction bs arbitrary: c c') (auto dest: step_state)

lemma detects: "x \<noteq> y \<Longrightarrow> foldl step c (pre @ x # suf) \<noteq> foldl step c (pre @ y # suf)"
  using foldl_state step_byte by fastforce

end

lemma crc_lsb_inj:
  fixes poly :: "'a::len word"
  assumes "bit poly (LENGTH('a) - 1)"
  shows "inj (crc_lsb poly)"
proof -
  have z: "x = 0" if "crc_lsb poly x = 0" for x
  proof (cases "bit x 0")
    case True
    then have "drop_bit 1 x = poly" using that by (simp add: crc_lsb_def xor_eq_zero)
    moreover have "\<not> bit (drop_bit 1 x) (LENGTH('a) - 1)" by (auto simp: bit_simps dest: bit_imp_le_length)
    ultimately show ?thesis using assms by simp
  next
    case False
    then have "drop_bit 1 x = 0" using that by (simp add: crc_lsb_def)
    then have "\<not> bit x (Suc n)" for n by (metis One_nat_def add_Suc add.left_neutral bit_drop_bit_eq comp_apply bit_0_eq bot_apply bot_bool_def)
    then have "\<not> bit x n" for n using False by (cases n) auto
    then show ?thesis by (auto intro: bit_word_eqI)
  qed
  show ?thesis
  proof (rule injI)
    fix x y assume "crc_lsb poly x = crc_lsb poly y"
    then have "crc_lsb poly (x XOR y) = 0" using linear_crc_lsb [of poly] by (simp add: linear_word_def)
    then have "x XOR y = 0" by (rule z)
    then show "x = y" by (simp add: xor_eq_zero)
  qed
qed

lemma crc_msb_inj:
  fixes poly :: "'a::len word"
  assumes "bit poly 0"
  shows "inj (crc_msb poly)"
proof -
  have z: "x = 0" if "crc_msb poly x = 0" for x
  proof (cases "bit x (LENGTH('a) - 1)")
    case True
    then have "push_bit 1 x = poly" using that unfolding crc_msb_def by (simp only: if_True xor_eq_zero)
    moreover have "\<not> bit (push_bit 1 x) 0" unfolding bit_push_bit_iff by simp
    ultimately show ?thesis using assms by simp
  next
    case False
    then have p: "push_bit 1 x = 0" using that unfolding crc_msb_def by (simp only: if_False)
    have "\<not> bit x n" for n
    proof (cases "Suc n < LENGTH('a)")
      case True
      have "bit (push_bit 1 x) (Suc n) = bit x n" using True unfolding bit_push_bit_iff by simp
      then show ?thesis using p by simp
    next
      case f: False
      then have "n = LENGTH('a) - 1 \<or> LENGTH('a) \<le> n" by auto
      then show ?thesis using False by (auto dest: bit_imp_le_length)
    qed
    then show ?thesis by (auto intro: bit_word_eqI)
  qed
  show ?thesis
  proof (rule injI)
    fix x y assume "crc_msb poly x = crc_msb poly y"
    then have "crc_msb poly (x XOR y) = 0" using linear_crc_msb [of poly] by (simp add: linear_word_def)
    then have "x XOR y = 0" by (rule z)
    then show "x = y" by (simp add: xor_eq_zero)
  qed
qed

text \<open>A step that is an injective map of the register plus the byte has both properties.\<close>

locale crc_shift =
  fixes step :: "'a::len word \<Rightarrow> byte \<Rightarrow> 'a word" and shift :: "'a word \<Rightarrow> 'a word"
    and place :: "byte \<Rightarrow> 'a word"
  assumes step_shift: "step c b = shift (c XOR place b)"
    and inj_shift: "inj shift"
    and inj_place: "inj place"

sublocale crc_shift \<subseteq> crc_step step
proof
  have cancel: "c XOR x = c XOR y \<Longrightarrow> x = y" for c x y :: "'a word"
    by (metis xor.assoc xor_self_eq xor.left_neutral)
  show "c = c'" if "step c b = step c' b" for c c' b
    using that injD [OF inj_shift] cancel unfolding step_shift by (metis xor.commute)
  show "b = b'" if "step c b = step c b'" for c b b'
    using that injD [OF inj_shift] injD [OF inj_place] cancel unfolding step_shift by metis
qed

lemma inj_shift_lsb: "bit poly (LENGTH('a) - 1) \<Longrightarrow> inj (crc_lsb (poly :: 'a::len word) ^^ k)"
  by (rule inj_fn [OF crc_lsb_inj])

lemma inj_shift_msb: "bit poly 0 \<Longrightarrow> inj (crc_msb (poly :: 'a::len word) ^^ k)"
  by (rule inj_fn [OF crc_msb_inj])

lemma inj_place_lsb:
  assumes "8 \<le> LENGTH('a)"
  shows "inj (ucast :: byte \<Rightarrow> 'a::len word)"
proof (rule injI)
  fix x y :: byte assume "(ucast x :: 'a word) = ucast y"
  then have "bit x i = bit y i" if "i < 8" for i
    using that assms by (auto dest!: arg_cong [where f = "\<lambda>w. bit w i"] simp: bit_simps)
  then show "x = y" by (auto intro: bit_word_eqI)
qed

lemma inj_place_msb:
  assumes "8 \<le> LENGTH('a)"
  shows "inj (\<lambda>d :: byte. push_bit (LENGTH('a) - 8) (ucast d) :: 'a::len word)"
proof (rule injI)
  fix x y :: byte
  assume e: "(push_bit (LENGTH('a) - 8) (ucast x) :: 'a word) = push_bit (LENGTH('a) - 8) (ucast y)"
  have "bit x i = bit y i" if "i < 8" for i
    using that assms arg_cong [OF e, of "\<lambda>w. bit w (LENGTH('a) - 8 + i)"]
    by (auto simp: bit_simps)
  then show "x = y" by (auto intro: bit_word_eqI)
qed

end
