(* ===== verification/Crc.thy ===== *)
theory Crc
  imports Bitops Crc_Tables Crc_Register
begin

text \<open>
  The cyclic redundancy checks of \<^verbatim>\<open>include/crypto/crc*-table.h\<close> and
  \<^verbatim>\<open>lib/crypto/crc*.c\<close>: the table routines on the bytes of a message, that each
  of them is the shift register of its polynomial fed with the bits of the message, and that an error
  within one byte changes the check. The length is that of the list; the inline functions of CRC-32,
  CRC-64 and Rocksoft take it as an \<^verbatim>\<open>int\<close> and are modelled below \<open>2 ^ 31\<close> bytes.
\<close>

section \<open>Routines\<close>

text \<open>
  The common shape of the inline functions: eight bytes at a time, then the rest one by one.
\<close>

fun crc_unrolled :: "('c \<Rightarrow> byte \<Rightarrow> 'c) \<Rightarrow> byte list \<Rightarrow> 'c \<Rightarrow> 'c" where
  "crc_unrolled step (a # b # c # d # e # f # g # h # src) crc =
     crc_unrolled step src
       (step (step (step (step (step (step (step (step crc a) b) c) d) e) f) g) h)"
| "crc_unrolled step src crc = foldl step crc src"

definition crc7_byte :: "8 word \<Rightarrow> byte \<Rightarrow> 8 word" where
  "crc7_byte crc data = crc7_table ! unat (crc XOR data)"

definition crc7_inline :: "byte list \<Rightarrow> 8 word \<Rightarrow> 8 word" where
  "crc7_inline src crc = crc_unrolled crc7_byte src crc"

definition crc8_byte :: "8 word \<Rightarrow> byte \<Rightarrow> 8 word" where
  "crc8_byte crc data = crc8_table ! unat (crc XOR data)"

definition crc8_inline :: "byte list \<Rightarrow> 8 word \<Rightarrow> 8 word" where
  "crc8_inline src crc = crc_unrolled crc8_byte src crc"

definition crc16_byte :: "16 word \<Rightarrow> byte \<Rightarrow> 16 word" where
  "crc16_byte crc data = drop_bit 8 crc XOR crc16_table ! unat ((crc XOR ucast data) AND 0xff)"

definition crc16_inline :: "byte list \<Rightarrow> 16 word \<Rightarrow> 16 word" where
  "crc16_inline src crc = crc_unrolled crc16_byte src crc"

definition crc_ccitt_byte :: "16 word \<Rightarrow> byte \<Rightarrow> 16 word" where
  "crc_ccitt_byte crc data = drop_bit 8 crc XOR crc_ccitt_table ! unat ((crc XOR ucast data) AND 0xff)"

definition crc_ccitt_inline :: "byte list \<Rightarrow> 16 word \<Rightarrow> 16 word" where
  "crc_ccitt_inline src crc = crc_unrolled crc_ccitt_byte src crc"

definition crc_ccittf_byte :: "16 word \<Rightarrow> byte \<Rightarrow> 16 word" where
  "crc_ccittf_byte crc data = push_bit 8 crc XOR crc_ccittf_table ! unat (drop_bit 8 crc XOR ucast data)"

definition crc_ccittf_inline :: "byte list \<Rightarrow> 16 word \<Rightarrow> 16 word" where
  "crc_ccittf_inline src crc = crc_unrolled crc_ccittf_byte src crc"

definition crc_itut_byte :: "16 word \<Rightarrow> byte \<Rightarrow> 16 word" where
  "crc_itut_byte crc data = push_bit 8 crc XOR crc_itut_table ! unat ((drop_bit 8 crc XOR ucast data) AND 0xff)"

definition crc_itut_inline :: "byte list \<Rightarrow> 16 word \<Rightarrow> 16 word" where
  "crc_itut_inline src crc = crc_unrolled crc_itut_byte src crc"

definition crc_t10dif_byte :: "16 word \<Rightarrow> byte \<Rightarrow> 16 word" where
  "crc_t10dif_byte crc data = push_bit 8 crc XOR crc_t10dif_table ! unat ((drop_bit 8 crc XOR ucast data) AND 0xff)"

definition crc_t10dif_inline :: "byte list \<Rightarrow> 16 word \<Rightarrow> 16 word" where
  "crc_t10dif_inline src crc = crc_unrolled crc_t10dif_byte src crc"

definition crc32_byte :: "32 word \<Rightarrow> byte \<Rightarrow> 32 word" where
  "crc32_byte crc data = drop_bit 8 crc XOR crc32_table ! unat ((crc XOR ucast data) AND 0xff)"

definition crc32_inline :: "byte list \<Rightarrow> 32 word \<Rightarrow> 32 word" where
  "crc32_inline src crc = crc_unrolled crc32_byte src crc XOR crc"

definition crc64_byte :: "64 word \<Rightarrow> byte \<Rightarrow> 64 word" where
  "crc64_byte crc data = crc64table ! unat ((drop_bit 56 crc XOR ucast data) AND 0xff) XOR push_bit 8 crc"

definition crc64_inline :: "byte list \<Rightarrow> 64 word \<Rightarrow> 64 word" where
  "crc64_inline src crc = crc_unrolled crc64_byte src crc"

definition crc_rocksoft_byte :: "64 word \<Rightarrow> byte \<Rightarrow> 64 word" where
  "crc_rocksoft_byte crc data = drop_bit 8 crc XOR crc_rocksoft_table ! unat ((crc AND 0xff) XOR ucast data)"

definition crc_rocksoft_inline :: "byte list \<Rightarrow> 64 word \<Rightarrow> 64 word" where
  "crc_rocksoft_inline src crc = crc_unrolled crc_rocksoft_byte src crc"

text \<open>CRC-4 works on nibbles; its length is in bits, and the last byte may be partial.\<close>

definition crc4_byte :: "8 word \<Rightarrow> byte \<Rightarrow> 8 word" where
  "crc4_byte crc data =
     (let crc = crc4_table ! unat (crc XOR drop_bit 4 data)
      in crc4_table ! unat (crc XOR (data AND 0xf)))"

function crc4_rest :: "nat \<Rightarrow> byte list \<Rightarrow> 8 word \<Rightarrow> 8 word" where
  "crc4_rest bits src crc =
     (let count = min bits 8
      in if count = 0 then crc
         else crc4_rest (bits - count) (tl src)
                (crc4_byte crc (ucast (BIT_LOW_MASK bits) AND hd src)))"
  by pat_completeness auto
termination
  by (relation "measure (\<lambda>(bits, src, crc). bits)") auto

declare crc4_rest.simps [simp del]

function crc4_inline :: "byte list \<Rightarrow> nat \<Rightarrow> 8 word \<Rightarrow> 8 word" where
  "crc4_inline src bits crc =
     (if 64 \<le> bits then crc4_inline (drop 8 src) (bits - 64) (foldl crc4_byte crc (take 8 src))
      else crc4_rest bits src crc)"
  by pat_completeness auto
termination
  by (relation "measure (\<lambda>(src, bits, crc). bits)") auto

declare crc4_inline.simps [simp del]

lemma crc_unrolled_foldl: "crc_unrolled step src crc = foldl step crc src"
  by (induction step src crc rule: crc_unrolled.induct) simp_all

section \<open>The tables\<close>

lemma crc7_table_eq: "crc7_table = map (\<lambda>i. (\<lambda>x. (crc_msb 0x12 ^^ 8) (push_bit 0 x)) (of_nat i)) [0 ..< 256]"
proof -
  have "map (\<lambda>x. (crc_msb 0x12 ^^ 8) (push_bit 0 x)) [128, 64, 32, 16, 8, 4, 2, 1] =
    [0x82, 0xc8, 0x64, 0x32, 0x90, 0x48, 0x24, 0x12 :: 8 word]"
    by (simp add: funpow_8 crc_lsb_def crc_msb_def)
  then have "xor_table (map (\<lambda>x. (crc_msb 0x12 ^^ 8) (push_bit 0 x)) [128, 64, 32, 16, 8, 4, 2, 1]) = crc7_table"
    by (simp only:) (simp add: crc7_table_def)
  then show ?thesis
    by (subst (asm) xor_table_linear) (simp_all add: crc_linear)
qed

lemma crc8_table_eq: "crc8_table = map (\<lambda>i. (\<lambda>x. (crc_msb 0x07 ^^ 8) (push_bit 0 x)) (of_nat i)) [0 ..< 256]"
proof -
  have "map (\<lambda>x. (crc_msb 0x07 ^^ 8) (push_bit 0 x)) [128, 64, 32, 16, 8, 4, 2, 1] =
    [0x89, 0xc7, 0xe0, 0x70, 0x38, 0x1c, 0xe, 0x7 :: 8 word]"
    by (simp add: funpow_8 crc_lsb_def crc_msb_def)
  then have "xor_table (map (\<lambda>x. (crc_msb 0x07 ^^ 8) (push_bit 0 x)) [128, 64, 32, 16, 8, 4, 2, 1]) = crc8_table"
    by (simp only:) (simp add: crc8_table_def)
  then show ?thesis
    by (subst (asm) xor_table_linear) (simp_all add: crc_linear)
qed

lemma crc16_table_eq: "crc16_table = map (\<lambda>i. (crc_lsb 0xa001 ^^ 8) (of_nat i)) [0 ..< 256]"
proof -
  have "map (crc_lsb 0xa001 ^^ 8) [128, 64, 32, 16, 8, 4, 2, 1] =
    [0xa001, 0xf001, 0xd801, 0xcc01, 0xc601, 0xc301, 0xc181, 0xc0c1 :: 16 word]"
    by (simp add: funpow_8 crc_lsb_def crc_msb_def)
  then have "xor_table (map (crc_lsb 0xa001 ^^ 8) [128, 64, 32, 16, 8, 4, 2, 1]) = crc16_table"
    by (simp only:) (simp add: crc16_table_def)
  then show ?thesis
    by (subst (asm) xor_table_linear) (simp_all add: crc_linear)
qed

lemma crc_ccitt_table_eq: "crc_ccitt_table = map (\<lambda>i. (crc_lsb 0x8408 ^^ 8) (of_nat i)) [0 ..< 256]"
proof -
  have "map (crc_lsb 0x8408 ^^ 8) [128, 64, 32, 16, 8, 4, 2, 1] =
    [0x8408, 0x4204, 0x2102, 0x1081, 0x8c48, 0x4624, 0x2312, 0x1189 :: 16 word]"
    by (simp add: funpow_8 crc_lsb_def crc_msb_def)
  then have "xor_table (map (crc_lsb 0x8408 ^^ 8) [128, 64, 32, 16, 8, 4, 2, 1]) = crc_ccitt_table"
    by (simp only:) (simp add: crc_ccitt_table_def)
  then show ?thesis
    by (subst (asm) xor_table_linear) (simp_all add: crc_linear)
qed

lemma crc_ccittf_table_eq: "crc_ccittf_table = map (\<lambda>i. (\<lambda>x. (crc_msb 0x1021 ^^ 8) (push_bit 8 x)) (of_nat i)) [0 ..< 256]"
proof -
  have "map (\<lambda>x. (crc_msb 0x1021 ^^ 8) (push_bit 8 x)) [128, 64, 32, 16, 8, 4, 2, 1] =
    [0x9188, 0x48c4, 0x2462, 0x1231, 0x8108, 0x4084, 0x2042, 0x1021 :: 16 word]"
    by (simp add: funpow_8 crc_lsb_def crc_msb_def)
  then have "xor_table (map (\<lambda>x. (crc_msb 0x1021 ^^ 8) (push_bit 8 x)) [128, 64, 32, 16, 8, 4, 2, 1]) = crc_ccittf_table"
    by (simp only:) (simp add: crc_ccittf_table_def)
  then show ?thesis
    by (subst (asm) xor_table_linear) (simp_all add: crc_linear)
qed

lemma crc_itut_table_eq: "crc_itut_table = map (\<lambda>i. (\<lambda>x. (crc_msb 0x1021 ^^ 8) (push_bit 8 x)) (of_nat i)) [0 ..< 256]"
proof -
  have "map (\<lambda>x. (crc_msb 0x1021 ^^ 8) (push_bit 8 x)) [128, 64, 32, 16, 8, 4, 2, 1] =
    [0x9188, 0x48c4, 0x2462, 0x1231, 0x8108, 0x4084, 0x2042, 0x1021 :: 16 word]"
    by (simp add: funpow_8 crc_lsb_def crc_msb_def)
  then have "xor_table (map (\<lambda>x. (crc_msb 0x1021 ^^ 8) (push_bit 8 x)) [128, 64, 32, 16, 8, 4, 2, 1]) = crc_itut_table"
    by (simp only:) (simp add: crc_itut_table_def)
  then show ?thesis
    by (subst (asm) xor_table_linear) (simp_all add: crc_linear)
qed

lemma crc_t10dif_table_eq: "crc_t10dif_table = map (\<lambda>i. (\<lambda>x. (crc_msb 0x8bb7 ^^ 8) (push_bit 8 x)) (of_nat i)) [0 ..< 256]"
proof -
  have "map (\<lambda>x. (crc_msb 0x8bb7 ^^ 8) (push_bit 8 x)) [128, 64, 32, 16, 8, 4, 2, 1] =
    [0x3ab1, 0xd883, 0xa99a, 0x54cd, 0xefbd, 0xb205, 0x9cd9, 0x8bb7 :: 16 word]"
    by (simp add: funpow_8 crc_lsb_def crc_msb_def)
  then have "xor_table (map (\<lambda>x. (crc_msb 0x8bb7 ^^ 8) (push_bit 8 x)) [128, 64, 32, 16, 8, 4, 2, 1]) = crc_t10dif_table"
    by (simp only:) (simp add: crc_t10dif_table_def)
  then show ?thesis
    by (subst (asm) xor_table_linear) (simp_all add: crc_linear)
qed

lemma crc32_table_eq: "crc32_table = map (\<lambda>i. (crc_lsb 0xedb88320 ^^ 8) (of_nat i)) [0 ..< 256]"
proof -
  have "map (crc_lsb 0xedb88320 ^^ 8) [128, 64, 32, 16, 8, 4, 2, 1] =
    [0xedb88320, 0x76dc4190, 0x3b6e20c8, 0x1db71064, 0xedb8832, 0x76dc419, 0xee0e612c, 0x77073096 :: 32 word]"
    by (simp add: funpow_8 crc_lsb_def crc_msb_def)
  then have "xor_table (map (crc_lsb 0xedb88320 ^^ 8) [128, 64, 32, 16, 8, 4, 2, 1]) = crc32_table"
    by (simp only:) (simp add: crc32_table_def)
  then show ?thesis
    by (subst (asm) xor_table_linear) (simp_all add: crc_linear)
qed

lemma crc64table_eq: "crc64table = map (\<lambda>i. (\<lambda>x. (crc_msb 0x42f0e1eba9ea3693 ^^ 8) (push_bit 56 x)) (of_nat i)) [0 ..< 256]"
proof -
  have "map (\<lambda>x. (crc_msb 0x42f0e1eba9ea3693 ^^ 8) (push_bit 56 x)) [128, 64, 32, 16, 8, 4, 2, 1] =
    [0xf6fae5c07d3274cd, 0xda050215ea6c212f, 0xcc7af1ff21c30bde, 0x663d78ff90e185ef, 0x9266cc8a1c85d9be, 0x493366450e42ecdf, 0x85e1c3d753d46d26, 0x42f0e1eba9ea3693 :: 64 word]"
    by (simp add: funpow_8 crc_lsb_def crc_msb_def)
  then have "xor_table (map (\<lambda>x. (crc_msb 0x42f0e1eba9ea3693 ^^ 8) (push_bit 56 x)) [128, 64, 32, 16, 8, 4, 2, 1]) = crc64table"
    by (simp only:) (simp add: crc64table_def)
  then show ?thesis
    by (subst (asm) xor_table_linear) (simp_all add: crc_linear)
qed

lemma crc_rocksoft_table_eq: "crc_rocksoft_table = map (\<lambda>i. (crc_lsb 0x9a6c9329ac4bc9b5 ^^ 8) (of_nat i)) [0 ..< 256]"
proof -
  have "map (crc_lsb 0x9a6c9329ac4bc9b5 ^^ 8) [128, 64, 32, 16, 8, 4, 2, 1] =
    [0x9a6c9329ac4bc9b5, 0xd75adabd7a6e2d6f, 0xf1c1fe77117cdf02, 0x78e0ff3b88be6f81, 0xa61cecb46814fe75, 0xc962e5739841b68f, 0xfedde190606b12f2, 0x7f6ef0c830358979 :: 64 word]"
    by (simp add: funpow_8 crc_lsb_def crc_msb_def)
  then have "xor_table (map (crc_lsb 0x9a6c9329ac4bc9b5 ^^ 8) [128, 64, 32, 16, 8, 4, 2, 1]) = crc_rocksoft_table"
    by (simp only:) (simp add: crc_rocksoft_table_def)
  then show ?thesis
    by (subst (asm) xor_table_linear) (simp_all add: crc_linear)
qed

section \<open>A byte is eight steps of the register\<close>

lemma n16: "8 = LENGTH(16) - 8"
  by simp

lemma n64: "56 = LENGTH(64) - 8"
  by simp

lemma push_bit_byte: "push_bit 8 (c :: byte) = 0"
  by (rule bit_word_eqI) (auto simp: bit_simps)

lemma crc7_byte_eq: "crc7_byte c d = (crc_msb 0x12 ^^ 8) (c XOR d)"
  using msb_table_step_byte [of 0, OF _ _ crc7_table_eq, of c d]
  by (simp add: crc7_byte_def push_bit_byte)

lemma crc8_byte_eq: "crc8_byte c d = (crc_msb 0x07 ^^ 8) (c XOR d)"
  using msb_table_step_byte [of 0, OF _ _ crc8_table_eq, of c d]
  by (simp add: crc8_byte_def push_bit_byte)

lemma crc16_byte_eq: "crc16_byte c d = (crc_lsb 0xa001 ^^ 8) (c XOR ucast d)"
  using lsb_table_step [OF crc16_table_eq, of c "ucast d"]
  by (simp add: crc16_byte_def and_255 take_bit_ucast_byte take_bit_xor xor.commute)

lemma crc_ccitt_byte_eq: "crc_ccitt_byte c d = (crc_lsb 0x8408 ^^ 8) (c XOR ucast d)"
  using lsb_table_step [OF crc_ccitt_table_eq, of c "ucast d"]
  by (simp add: crc_ccitt_byte_def and_255 take_bit_ucast_byte take_bit_xor xor.commute)

lemma crc_ccittf_byte_eq: "crc_ccittf_byte c d = (crc_msb 0x1021 ^^ 8) (c XOR push_bit 8 (ucast d))"
  unfolding crc_ccittf_byte_def
  by (rule msb_table_step_byte [OF _ _ crc_ccittf_table_eq]) simp_all

lemma crc_itut_byte_eq: "crc_itut_byte c d = (crc_msb 0x1021 ^^ 8) (c XOR push_bit 8 (ucast d))"
  unfolding crc_itut_byte_def msb_index_and_255 [OF n16]
  by (rule msb_table_step_byte [OF _ _ crc_itut_table_eq]) simp_all

lemma crc_t10dif_byte_eq: "crc_t10dif_byte c d = (crc_msb 0x8bb7 ^^ 8) (c XOR push_bit 8 (ucast d))"
  unfolding crc_t10dif_byte_def msb_index_and_255 [OF n16]
  by (rule msb_table_step_byte [OF _ _ crc_t10dif_table_eq]) simp_all

lemma crc32_byte_eq: "crc32_byte c d = (crc_lsb 0xedb88320 ^^ 8) (c XOR ucast d)"
  using lsb_table_step [OF crc32_table_eq, of c "ucast d"]
  by (simp add: crc32_byte_def and_255 take_bit_ucast_byte take_bit_xor xor.commute)

lemma crc64_byte_eq: "crc64_byte c d = (crc_msb 0x42f0e1eba9ea3693 ^^ 8) (c XOR push_bit 56 (ucast d))"
  unfolding crc64_byte_def Let_def msb_index_and_255 [OF n64] xor.commute [of "crc64table ! _"]
  by (rule msb_table_step_byte [OF _ _ crc64table_eq]) simp_all

lemma crc_rocksoft_byte_eq: "crc_rocksoft_byte c d = (crc_lsb 0x9a6c9329ac4bc9b5 ^^ 8) (c XOR ucast d)"
  using lsb_table_step [OF crc_rocksoft_table_eq, of c "ucast d"]
  by (simp add: crc_rocksoft_byte_def and_255 take_bit_ucast_byte take_bit_xor xor.commute)

section \<open>The routines are the registers of their polynomials\<close>

lemma crc_lsb_message:
  assumes "\<And>c d. step c d = (crc_lsb poly ^^ 8) (c XOR ucast d)" "8 \<le> LENGTH('a::len)"
  shows "crc_unrolled step src (crc :: 'a word) = foldl (serial_lsb poly) crc (bits_lsb src)"
proof -
  have "foldl (serial_lsb poly) c (map (bit (d :: byte)) [0 ..< 8]) = step c d" for c d
  proof -
    have "map (bit d) [0 ..< 8] = map (bit (ucast d :: 'a word)) [0 ..< 8]"
      using assms(2) by (auto simp: bit_simps)
    then show ?thesis using serial_lsb_byte [OF assms(2), of poly c "ucast d"] assms(1)
      by (simp only: take_bit_ucast_byte)
  qed
  then have "foldl step crc src = foldl (serial_lsb poly) crc (bits_lsb src)"
    by (induction src arbitrary: crc) (simp_all add: bits_lsb_def del: upt_conv_Cons upt_Suc)
  then show ?thesis by (simp add: crc_unrolled_foldl)
qed

lemma foldl_msb_byte:
  assumes "n = LENGTH('a) - 8" "8 \<le> LENGTH('a::len)"
  shows "foldl (serial_msb poly) (c :: 'a word) (map (\<lambda>i. bit (d :: byte) (7 - i)) [0 ..< 8]) =
    (crc_msb poly ^^ 8) (c XOR push_bit n (ucast d))"
  using serial_msb_bits [of 8 8 poly c d] assms by simp

lemma crc_msb_message:
  assumes "\<And>c d. step c d = (crc_msb poly ^^ 8) (c XOR push_bit n (ucast d))"
    "n = LENGTH('a::len) - 8" "8 \<le> LENGTH('a)"
  shows "crc_unrolled step src (crc :: 'a word) = foldl (serial_msb poly) crc (bits_msb src)"
proof -
  have "foldl step crc src = foldl (serial_msb poly) crc (bits_msb src)"
    by (induction src arbitrary: crc)
      (simp_all add: bits_msb_def foldl_msb_byte [OF assms(2,3)] assms(1) del: upt_conv_Cons upt_Suc)
  then show ?thesis by (simp add: crc_unrolled_foldl)
qed

text \<open>CRC-4: a table entry is four steps of a register of four bits.\<close>

lemma funpow_4: "(f ^^ 4) x = f (f (f (f x)))"
  by (simp add: numeral_eq_Suc)

lemma and_15: "(x AND 0xf :: 'a::len word) = take_bit 4 x"
  by (simp add: take_bit_eq_mask mask_numeral)

lemma crc4_table_eq: "crc4_table ! unat (ucast x :: 8 word) = ucast ((crc_msb 7 ^^ 4) (x :: 4 word))"
proof -
  have "\<forall>i \<in> set [0 ..< 16]. crc4_table ! i = ucast ((crc_msb 7 ^^ 4) (of_nat i :: 4 word))"
    by (simp add: crc4_table_def crc_msb_def funpow_4 upt_rec)
  moreover have "unat x \<in> set [0 ..< 16]" using unsigned_less [of x] by simp
  ultimately have "crc4_table ! unat x = ucast ((crc_msb 7 ^^ 4) (of_nat (unat x) :: 4 word))" by blast
  moreover have "unat (ucast x :: 8 word) = unat x"
    unfolding unsigned_ucast_eq using unsigned_less [of x, where ?'a = nat] by (simp add: take_bit_nat_eq_self)
  ultimately show ?thesis by simp
qed

lemma crc4_byte_eq:
  "crc4_byte (ucast (c :: 4 word)) d = ucast (foldl (serial_msb 7) c (map (\<lambda>i. bit d (7 - i)) [0 ..< 8]))"
proof -
  have split: "map (\<lambda>i. bit d (7 - i)) [0 ..< 8] =
      map (\<lambda>i. bit (drop_bit 4 d) (3 - i)) [0 ..< 4] @ map (\<lambda>i. bit (d AND 0xf) (3 - i)) [0 ..< 4]"
    by (simp add: upt_rec and_15 bit_simps)
  have nibble: "crc4_table ! unat (ucast c XOR x) = ucast (foldl (serial_msb 7) c (map (\<lambda>i. bit x (3 - i)) [0 ..< 4]))"
    if x: "take_bit 4 x = x" for x :: byte and c :: "4 word"
  proof -
    have "ucast c XOR x = (ucast (c XOR ucast x) :: 8 word)"
      by (subst x [symmetric], rule bit_word_eqI) (auto simp: bit_simps)
    moreover have "foldl (serial_msb 7) c (map (\<lambda>i. bit x (4 - 1 - i)) [0 ..< 4]) = (crc_msb 7 ^^ 4) (c XOR ucast x)"
      using serial_msb_bits [of 4 4 7 c x] by simp
    ultimately show ?thesis by (simp only: crc4_table_eq) simp
  qed
  have "take_bit 4 (drop_bit 4 d) = drop_bit 4 d"
    by (rule bit_word_eqI) (auto simp: bit_simps dest: bit_imp_le_length)
  moreover have "take_bit 4 (d AND 0xf) = d AND 0xf"
    by (simp add: and_15)
  ultimately show ?thesis
    unfolding crc4_byte_def Let_def split foldl_append by (simp only: nibble)
qed

lemma foldl_crc4_byte:
  "foldl crc4_byte (ucast (c :: 4 word)) src = ucast (foldl (serial_msb 7) c (bits_msb src))"
  by (induction src arbitrary: c) (simp_all add: bits_msb_def crc4_byte_eq del: upt_conv_Cons upt_Suc)

text \<open>
  The bytes CRC-4 sees of the first bits of a message: of a last byte that is not whole, its low bits.
\<close>

definition crc4_message :: "byte list \<Rightarrow> nat \<Rightarrow> byte list" where
  "crc4_message src bits =
     take (bits div 8) src @ (if bits mod 8 = 0 then [] else [take_bit (bits mod 8) (src ! (bits div 8))])"

lemma low_mask_byte:
  "ucast (BIT_LOW_MASK n) AND b = (if n mod 64 = 0 \<or> 8 \<le> n mod 64 then b else take_bit (n mod 64) (b :: byte))"
  by (rule bit_word_eqI) (auto simp: BIT_LOW_MASK_bit bit_simps)

lemma crc4_rest_eq:
  "bits < 64 \<Longrightarrow> bits \<le> 8 * length src \<Longrightarrow> crc4_rest bits src crc = foldl crc4_byte crc (crc4_message src bits)"
proof (induction bits src crc rule: crc4_rest.induct)
  case (1 bits src crc)
  consider "bits = 0" | "0 < bits" "bits < 8" | "8 \<le> bits" by linarith
  then show ?case
  proof cases
    case 2
    then obtain b s where "src = b # s" using "1.prems" by (cases src) auto
    then show ?thesis using 2
      by (simp add: crc4_rest.simps [of bits] crc4_rest.simps [of 0] crc4_message_def low_mask_byte Let_def)
  next
    case 3
    then obtain b s where s: "src = b # s" using "1.prems" by (cases src) auto
    have d: "bits div 8 = Suc ((bits - 8) div 8)" "bits mod 8 = (bits - 8) mod 8" "bits mod 64 = bits"
      using 3 "1.prems" by (simp_all add: le_div_geq le_mod_geq)
    have "crc4_rest bits src crc = crc4_rest (bits - 8) s (crc4_byte crc b)"
      using 3 by (simp add: crc4_rest.simps [of bits] low_mask_byte s d)
    also have "\<dots> = foldl crc4_byte (crc4_byte crc b) (crc4_message s (bits - 8))"
      using "1.IH" [OF refl] "1.prems" 3 by (simp add: s low_mask_byte d)
    finally show ?thesis by (simp add: crc4_message_def s d)
  qed (simp add: crc4_rest.simps crc4_message_def)
qed

lemma crc4_message_chunk:
  assumes "64 \<le> bits" "bits \<le> 8 * length src"
  shows "crc4_message src bits = take 8 src @ crc4_message (drop 8 src) (bits - 64)"
proof -
  from assms(1) obtain k where k: "bits = 64 + k" using le_Suc_ex by blast
  then have d: "bits div 8 = 8 + k div 8" "bits mod 8 = k mod 8" "bits - 64 = k" by presburger+
  have "src ! (8 + k div 8) = drop 8 src ! (k div 8)" using assms k by (simp add: nth_drop)
  then show ?thesis unfolding crc4_message_def d by (simp add: take_add)
qed

lemma crc4_inline_eq:
  "bits \<le> 8 * length src \<Longrightarrow> crc4_inline src bits crc = foldl crc4_byte crc (crc4_message src bits)"
proof (induction src bits crc rule: crc4_inline.induct)
  case (1 src bits crc)
  show ?case
  proof (cases "64 \<le> bits")
    case True
    then show ?thesis using "1.IH" [OF True] "1.prems"
      by (simp add: crc4_inline.simps [of _ bits] crc4_message_chunk)
  next
    case False
    then show ?thesis using "1.prems" by (simp add: crc4_inline.simps [of _ bits] crc4_rest_eq)
  qed
qed

lemma crc7_byte_place: "crc7_byte c d = (crc_msb 0x12 ^^ 8) (c XOR push_bit 0 (ucast d))"
  by (simp add: crc7_byte_eq)

lemma crc8_byte_place: "crc8_byte c d = (crc_msb 0x07 ^^ 8) (c XOR push_bit 0 (ucast d))"
  by (simp add: crc8_byte_eq)

lemma xor_right_cancel: "x XOR c = y XOR c \<longleftrightarrow> x = (y :: 'a::len word)"
  by (metis xor.assoc xor_self_eq xor.right_neutral)

section \<open>Properties\<close>

text \<open>
  C17: Every check is the shift register of its polynomial, fed with the bits of the message: CRC-7
  (left-aligned), CRC-8, CRC-16, the two CCITT forms, ITU-T, T10-DIF, CRC-32 (exclusive or with the
  initial value), CRC-64 and Rocksoft over whole bytes, and CRC-4 over any number of bits the message
  has.
\<close>

theorem crc_is_shift_register:
  "crc7_inline src c8 = foldl (serial_msb 0x12) c8 (bits_msb src) \<and>
   crc8_inline src c8 = foldl (serial_msb 0x07) c8 (bits_msb src) \<and>
   crc16_inline src c16 = foldl (serial_lsb 0xa001) c16 (bits_lsb src) \<and>
   crc_ccitt_inline src c16 = foldl (serial_lsb 0x8408) c16 (bits_lsb src) \<and>
   crc_ccittf_inline src c16 = foldl (serial_msb 0x1021) c16 (bits_msb src) \<and>
   crc_itut_inline src c16 = foldl (serial_msb 0x1021) c16 (bits_msb src) \<and>
   crc_t10dif_inline src c16 = foldl (serial_msb 0x8bb7) c16 (bits_msb src) \<and>
   crc32_inline src c32 = foldl (serial_lsb 0xedb88320) c32 (bits_lsb src) XOR c32 \<and>
   crc64_inline src c64 = foldl (serial_msb 0x42f0e1eba9ea3693) c64 (bits_msb src) \<and>
   crc_rocksoft_inline src c64 = foldl (serial_lsb 0x9a6c9329ac4bc9b5) c64 (bits_lsb src) \<and>
   (bits \<le> 8 * length src \<longrightarrow> crc4_inline src bits (ucast c4) = ucast (foldl (serial_msb 7) (c4 :: 4 word) (bits_msb (crc4_message src bits))))"
  using crc4_inline_eq [of bits src] by (simp add: foldl_crc4_byte
    crc7_inline_def crc_msb_message [OF crc7_byte_place]
    crc8_inline_def crc_msb_message [OF crc8_byte_place]
    crc16_inline_def crc_lsb_message [OF crc16_byte_eq]
    crc_ccitt_inline_def crc_lsb_message [OF crc_ccitt_byte_eq]
    crc_ccittf_inline_def crc_msb_message [OF crc_ccittf_byte_eq]
    crc_itut_inline_def crc_msb_message [OF crc_itut_byte_eq]
    crc_t10dif_inline_def crc_msb_message [OF crc_t10dif_byte_eq]
    crc32_inline_def crc_lsb_message [OF crc32_byte_eq]
    crc64_inline_def crc_msb_message [OF crc64_byte_eq]
    crc_rocksoft_inline_def crc_lsb_message [OF crc_rocksoft_byte_eq]
    )

theorem crc_is_shift_register_witness:
  "crc4_inline [0xa5, 0xff] 12 (ucast (3 :: 4 word)) =
     ucast (foldl (serial_msb 7) (3 :: 4 word) (bits_msb (crc4_message [0xa5, 0xff] 12)))"
  using crc_is_shift_register [where bits = 12 and src = "[0xa5, 0xff]" and ?c4.0 = 3] by simp

context crc_step
begin

lemma unrolled_detects: "x \<noteq> y \<Longrightarrow> crc_unrolled step (pre @ x # suf) c \<noteq> crc_unrolled step (pre @ y # suf) c"
  unfolding crc_unrolled_foldl by (rule detects)

end

text \<open>The checks lose nothing: their steps are injective in the register and in the byte.\<close>

interpretation crc8: crc_shift crc8_byte "crc_msb 0x07 ^^ 8" "\<lambda>d. d"
  by unfold_locales (simp_all add: crc8_byte_eq inj_shift_msb inj_on_id2)

interpretation crc16: crc_shift crc16_byte "crc_lsb 0xa001 ^^ 8" "ucast"
  by unfold_locales (simp_all add: crc16_byte_eq inj_shift_lsb inj_place_lsb)

interpretation crc_ccitt: crc_shift crc_ccitt_byte "crc_lsb 0x8408 ^^ 8" "ucast"
  by unfold_locales (simp_all add: crc_ccitt_byte_eq inj_shift_lsb inj_place_lsb)

interpretation crc_ccittf: crc_shift crc_ccittf_byte "crc_msb 0x1021 ^^ 8" "\<lambda>d. push_bit 8 (ucast d)"
  by unfold_locales (simp_all add: crc_ccittf_byte_eq inj_shift_msb inj_place_msb [where ?'a = 16, simplified])

interpretation crc_itut: crc_shift crc_itut_byte "crc_msb 0x1021 ^^ 8" "\<lambda>d. push_bit 8 (ucast d)"
  by unfold_locales (simp_all add: crc_itut_byte_eq inj_shift_msb inj_place_msb [where ?'a = 16, simplified])

interpretation crc_t10dif: crc_shift crc_t10dif_byte "crc_msb 0x8bb7 ^^ 8" "\<lambda>d. push_bit 8 (ucast d)"
  by unfold_locales (simp_all add: crc_t10dif_byte_eq inj_shift_msb inj_place_msb [where ?'a = 16, simplified])

interpretation crc32: crc_shift crc32_byte "crc_lsb 0xedb88320 ^^ 8" "ucast"
  by unfold_locales (simp_all add: crc32_byte_eq inj_shift_lsb inj_place_lsb)

interpretation crc64: crc_shift crc64_byte "crc_msb 0x42f0e1eba9ea3693 ^^ 8" "\<lambda>d. push_bit 56 (ucast d)"
  by unfold_locales (simp_all add: crc64_byte_eq inj_shift_msb inj_place_msb [where ?'a = 64, simplified])

interpretation crc_rocksoft: crc_shift crc_rocksoft_byte "crc_lsb 0x9a6c9329ac4bc9b5 ^^ 8" "ucast"
  by unfold_locales (simp_all add: crc_rocksoft_byte_eq inj_shift_lsb inj_place_lsb)

text \<open>
  An error confined to one byte, whatever surrounds it, changes every check whose polynomial has its
  full width.
\<close>

theorem crc_detects_byte_errors:
  assumes "x \<noteq> y"
  shows "crc8_inline (pre @ x # suf) c8 \<noteq> crc8_inline (pre @ y # suf) c8 \<and>
   crc16_inline (pre @ x # suf) c16 \<noteq> crc16_inline (pre @ y # suf) c16 \<and>
   crc_ccitt_inline (pre @ x # suf) c16 \<noteq> crc_ccitt_inline (pre @ y # suf) c16 \<and>
   crc_ccittf_inline (pre @ x # suf) c16 \<noteq> crc_ccittf_inline (pre @ y # suf) c16 \<and>
   crc_itut_inline (pre @ x # suf) c16 \<noteq> crc_itut_inline (pre @ y # suf) c16 \<and>
   crc_t10dif_inline (pre @ x # suf) c16 \<noteq> crc_t10dif_inline (pre @ y # suf) c16 \<and>
   crc32_inline (pre @ x # suf) c32 \<noteq> crc32_inline (pre @ y # suf) c32 \<and>
   crc64_inline (pre @ x # suf) c64 \<noteq> crc64_inline (pre @ y # suf) c64 \<and>
   crc_rocksoft_inline (pre @ x # suf) c64 \<noteq> crc_rocksoft_inline (pre @ y # suf) c64"
  unfolding crc8_inline_def crc16_inline_def crc_ccitt_inline_def crc_ccittf_inline_def crc_itut_inline_def crc_t10dif_inline_def crc32_inline_def crc64_inline_def crc_rocksoft_inline_def xor_right_cancel
  by (intro conjI; rule
    crc8.unrolled_detects
    crc16.unrolled_detects
    crc_ccitt.unrolled_detects
    crc_ccittf.unrolled_detects
    crc_itut.unrolled_detects
    crc_t10dif.unrolled_detects
    crc32.unrolled_detects
    crc64.unrolled_detects
    crc_rocksoft.unrolled_detects) (rule assms)+

theorem crc_detects_byte_errors_witness:
  "crc32_inline [1, 2, 3] 0 \<noteq> crc32_inline [1, 7, 3] 0"
  using crc_detects_byte_errors [of 2 7 "[1]" "[3]" _ _ 0 _] by simp

end
