(* ===== verification/Codec.thy ===== *)
theory Codec
  imports Bitops
begin

text \<open>
  The text encodings of \<^verbatim>\<open>lib/crypto/base64.c\<close>, \<^verbatim>\<open>base32.c\<close> and
  \<^verbatim>\<open>ascii85.c\<close>: bytes are words of eight bits, the encoders return the characters they
  append to the output (with the final NUL), and the decoders write into a buffer given as a function
  of the position, so that what they write beyond the message is visible too.
\<close>

type_synonym buffer = "nat \<Rightarrow> byte"

abbreviation character :: "char \<Rightarrow> byte" where
  "character c \<equiv> of_char c"

section \<open>Base 64\<close>

definition base64_encode_table :: "byte list" where
  "base64_encode_table =
     map of_char ''ABCDEFGHIJKLMNOPQRSTUVWXYZabcdefghijklmnopqrstuvwxyz0123456789+/''"

definition base64_decode_table :: "byte list" where
  "base64_decode_table = [
    0xff, 0xff, 0xff, 0xff, 0xff, 0xff, 0xff, 0xff,
    0xff, 0xff, 0xff, 0xff, 0xff, 0xff, 0xff, 0xff,
    0xff, 0xff, 0xff, 0xff, 0xff, 0xff, 0xff, 0xff,
    0xff, 0xff, 0xff, 0xff, 0xff, 0xff, 0xff, 0xff,
    0xff, 0xff, 0xff, 0xff, 0xff, 0xff, 0xff, 0xff,
    0xff, 0xff, 0xff, 0x3e, 0xff, 0xff, 0xff, 0x3f,
    0x34, 0x35, 0x36, 0x37, 0x38, 0x39, 0x3a, 0x3b,
    0x3c, 0x3d, 0xff, 0xff, 0xff, 0xff, 0xff, 0xff,
    0xff, 0x00, 0x01, 0x02, 0x03, 0x04, 0x05, 0x06,
    0x07, 0x08, 0x09, 0x0a, 0x0b, 0x0c, 0x0d, 0x0e,
    0x0f, 0x10, 0x11, 0x12, 0x13, 0x14, 0x15, 0x16,
    0x17, 0x18, 0x19, 0xff, 0xff, 0xff, 0xff, 0xff,
    0xff, 0x1a, 0x1b, 0x1c, 0x1d, 0x1e, 0x1f, 0x20,
    0x21, 0x22, 0x23, 0x24, 0x25, 0x26, 0x27, 0x28,
    0x29, 0x2a, 0x2b, 0x2c, 0x2d, 0x2e, 0x2f, 0x30,
    0x31, 0x32, 0x33, 0xff, 0xff, 0xff, 0xff, 0xff]"

definition e64 :: "byte \<Rightarrow> byte" where
  "e64 v = base64_encode_table ! unat v"

text \<open>
  The loop over the last bytes, where \<open>prev\<close> and \<open>data\<close> are the positions of the two pointers, and
  the padding by the state it ends in.
\<close>

fun base64_encode_rest :: "byte list \<Rightarrow> nat \<Rightarrow> nat \<Rightarrow> nat \<Rightarrow> nat \<Rightarrow> byte list" where
  "base64_encode_rest s prev data bstate (Suc n) =
     (if bstate = 0 then
        e64 (drop_bit 2 (s ! data)) # base64_encode_rest s prev (data + 1) 1 n
      else if bstate = 1 then
        e64 (push_bit 4 (s ! prev AND 0x3) OR drop_bit 4 (s ! data)) #
        base64_encode_rest s (prev + 1) (data + 1) 2 n
      else
        e64 (push_bit 2 (s ! prev AND 0xf) OR drop_bit 6 (s ! data)) #
        e64 (s ! (prev + 1) AND 0x3f) # base64_encode_rest s (prev + 2) (data + 1) 0 n)"
| "base64_encode_rest s prev data bstate 0 =
     (if bstate = 1 then [e64 (push_bit 4 (s ! prev AND 0x3)), character CHR ''='', character CHR ''='']
      else if bstate = 2 then [e64 (push_bit 2 (s ! prev AND 0xf)), character CHR ''='']
      else [])"

fun base64_encode_loop :: "byte list \<Rightarrow> byte list" where
  "base64_encode_loop (a # b # c # s) =
     e64 (drop_bit 2 a) # e64 (push_bit 4 (a AND 0x3) OR drop_bit 4 b) #
     e64 (push_bit 2 (b AND 0xf) OR drop_bit 6 c) # e64 (c AND 0x3f) # base64_encode_loop s"
| "base64_encode_loop s = base64_encode_rest s 0 0 0 (length s)"

definition base64_encode :: "byte list \<Rightarrow> byte list" where
  "base64_encode data = base64_encode_loop data @ [0]"

text \<open>One character of the decoder: the byte written, and whether the output pointer moves on.\<close>

fun base64_decode_loop :: "byte list \<Rightarrow> nat \<Rightarrow> buffer \<Rightarrow> nat \<Rightarrow> errno \<times> buffer" where
  "base64_decode_loop (c # data) bstate buff k =
     (if c < character CHR ''+'' \<or> c > character CHR ''z'' then (EINVAL, buff)
      else if c = character CHR ''='' then (ENOERR, buff)
      else let decode = base64_decode_table ! unat c in
        if decode = 0xff then (EINVAL, buff)
        else if bstate mod 4 = 0 then
          base64_decode_loop data (bstate + 1) (buff(k := push_bit 2 decode)) k
        else if bstate mod 4 = 1 then
          base64_decode_loop data (bstate + 1)
            (buff(k := buff k OR (drop_bit 4 decode AND 0x3), k + 1 := push_bit 4 decode)) (k + 1)
        else if bstate mod 4 = 2 then
          base64_decode_loop data (bstate + 1)
            (buff(k := buff k OR (drop_bit 2 decode AND 0xf), k + 1 := push_bit 6 decode)) (k + 1)
        else
          base64_decode_loop data (bstate + 1) (buff(k := buff k OR decode)) (k + 1))"
| "base64_decode_loop [] bstate buff k = (ENOERR, buff)"

definition base64_decode :: "buffer \<Rightarrow> byte list \<Rightarrow> errno \<times> buffer" where
  "base64_decode buff data = base64_decode_loop data 0 buff 0"

definition base64_encode_length :: "nat \<Rightarrow> nat" where
  "base64_encode_length n = (n + 2) div 3 * 4 + 1"

definition base64_decode_length :: "nat \<Rightarrow> nat" where
  "base64_decode_length n = (n + 3) div 4 * 3"

section \<open>Base 32\<close>

definition base32_encode_table :: "byte list" where
  "base32_encode_table = map of_char ''ABCDEFGHIJKLMNOPQRSTUVWXYZ234567''"

definition base32_decode_table :: "byte list" where
  "base32_decode_table = [
    0xff, 0xff, 0xff, 0xff, 0xff, 0xff, 0xff, 0xff,
    0xff, 0xff, 0xff, 0xff, 0xff, 0xff, 0xff, 0xff,
    0xff, 0xff, 0xff, 0xff, 0xff, 0xff, 0xff, 0xff,
    0xff, 0xff, 0xff, 0xff, 0xff, 0xff, 0xff, 0xff,
    0xff, 0xff, 0xff, 0xff, 0xff, 0xff, 0xff, 0xff,
    0xff, 0xff, 0xff, 0xff, 0xff, 0xff, 0xff, 0xff,
    0xff, 0xff, 0x1a, 0x1b, 0x1c, 0x1d, 0x1e, 0x1f,
    0xff, 0xff, 0xff, 0xff, 0xff, 0xff, 0xff, 0xff,
    0xff, 0x00, 0x01, 0x02, 0x03, 0x04, 0x05, 0x06,
    0x07, 0x08, 0x09, 0x0a, 0x0b, 0x0c, 0x0d, 0x0e,
    0x0f, 0x10, 0x11, 0x12, 0x13, 0x14, 0x15, 0x16,
    0x17, 0x18, 0x19, 0xff, 0xff, 0xff, 0xff, 0xff,
    0xff, 0xff, 0xff, 0xff, 0xff, 0xff, 0xff, 0xff,
    0xff, 0xff, 0xff, 0xff, 0xff, 0xff, 0xff, 0xff,
    0xff, 0xff, 0xff, 0xff, 0xff, 0xff, 0xff, 0xff,
    0xff, 0xff, 0xff, 0xff, 0xff, 0xff, 0xff, 0xff]"

definition e32 :: "byte \<Rightarrow> byte" where
  "e32 v = base32_encode_table ! unat v"

fun base32_encode_rest :: "byte list \<Rightarrow> nat \<Rightarrow> nat \<Rightarrow> nat \<Rightarrow> nat \<Rightarrow> byte list" where
  "base32_encode_rest s prev data bstate (Suc n) =
     (if bstate = 0 then
        e32 (drop_bit 3 (s ! data)) # base32_encode_rest s prev (data + 1) 1 n
      else if bstate = 1 then
        e32 (push_bit 2 (s ! prev AND 0x7) OR drop_bit 6 (s ! data)) #
        e32 (drop_bit 1 (s ! (prev + 1)) AND 0x1f) # base32_encode_rest s (prev + 1) (data + 1) 2 n
      else if bstate = 2 then
        e32 (push_bit 4 (s ! prev AND 0x1) OR drop_bit 4 (s ! data)) #
        base32_encode_rest s (prev + 1) (data + 1) 3 n
      else if bstate = 3 then
        e32 (push_bit 1 (s ! prev AND 0xf) OR drop_bit 7 (s ! data)) #
        e32 (drop_bit 2 (s ! (prev + 1)) AND 0x1f) # base32_encode_rest s (prev + 1) (data + 1) 4 n
      else
        e32 (push_bit 3 (s ! prev AND 0x3) OR drop_bit 5 (s ! data)) #
        e32 (s ! (prev + 1) AND 0x1f) # base32_encode_rest s (prev + 2) (data + 1) 0 n)"
| "base32_encode_rest s prev data bstate 0 =
     (if bstate = 1 then e32 (push_bit 2 (s ! prev AND 0x7)) # replicate 6 (character CHR ''='')
      else if bstate = 2 then e32 (push_bit 4 (s ! prev AND 0x1)) # replicate 4 (character CHR ''='')
      else if bstate = 3 then e32 (push_bit 1 (s ! prev AND 0xf)) # replicate 3 (character CHR ''='')
      else if bstate = 4 then e32 (push_bit 3 (s ! prev AND 0x3)) # replicate 1 (character CHR ''='')
      else [])"

fun base32_encode_loop :: "byte list \<Rightarrow> byte list" where
  "base32_encode_loop (a # b # c # d # e # s) =
     e32 (drop_bit 3 a) # e32 (push_bit 2 (a AND 0x7) OR drop_bit 6 b) #
     e32 (drop_bit 1 b AND 0x1f) # e32 (push_bit 4 (b AND 0x1) OR drop_bit 4 c) #
     e32 (push_bit 1 (c AND 0xf) OR drop_bit 7 d) # e32 (drop_bit 2 d AND 0x1f) #
     e32 (push_bit 3 (d AND 0x3) OR drop_bit 5 e) # e32 (e AND 0x1f) # base32_encode_loop s"
| "base32_encode_loop s = base32_encode_rest s 0 0 0 (length s)"

definition base32_encode :: "byte list \<Rightarrow> byte list" where
  "base32_encode data = base32_encode_loop data @ [0]"

fun base32_decode_loop :: "byte list \<Rightarrow> nat \<Rightarrow> buffer \<Rightarrow> nat \<Rightarrow> errno \<times> buffer" where
  "base32_decode_loop (c # data) bstate buff k =
     (if c < character CHR ''2'' \<or> c > character CHR ''Z'' then (EINVAL, buff)
      else if c = character CHR ''='' then (ENOERR, buff)
      else let decode = base32_decode_table ! unat c in
        if decode = 0xff then (EINVAL, buff)
        else if bstate mod 8 = 0 then
          base32_decode_loop data (bstate + 1) (buff(k := push_bit 3 decode)) k
        else if bstate mod 8 = 1 then
          base32_decode_loop data (bstate + 1)
            (buff(k := buff k OR (drop_bit 2 decode AND 0x7), k + 1 := push_bit 6 decode)) (k + 1)
        else if bstate mod 8 = 2 then
          base32_decode_loop data (bstate + 1) (buff(k := buff k OR push_bit 1 (decode AND 0x1f))) k
        else if bstate mod 8 = 3 then
          base32_decode_loop data (bstate + 1)
            (buff(k := buff k OR (drop_bit 4 decode AND 0x1), k + 1 := push_bit 4 decode)) (k + 1)
        else if bstate mod 8 = 4 then
          base32_decode_loop data (bstate + 1)
            (buff(k := buff k OR (drop_bit 1 decode AND 0xf), k + 1 := push_bit 7 decode)) (k + 1)
        else if bstate mod 8 = 5 then
          base32_decode_loop data (bstate + 1) (buff(k := buff k OR push_bit 2 (decode AND 0x1f))) k
        else if bstate mod 8 = 6 then
          base32_decode_loop data (bstate + 1)
            (buff(k := buff k OR (drop_bit 3 decode AND 0x3), k + 1 := push_bit 5 decode)) (k + 1)
        else
          base32_decode_loop data (bstate + 1) (buff(k := buff k OR (decode AND 0x1f))) (k + 1))"
| "base32_decode_loop [] bstate buff k = (ENOERR, buff)"

definition base32_decode :: "buffer \<Rightarrow> byte list \<Rightarrow> errno \<times> buffer" where
  "base32_decode buff data = base32_decode_loop data 0 buff 0"

definition base32_encode_length :: "nat \<Rightarrow> nat" where
  "base32_encode_length n = (n + 4) div 5 * 8 + 1"

definition base32_decode_length :: "nat \<Rightarrow> nat" where
  "base32_decode_length n = (n + 7) div 8 * 5"

section \<open>ASCII 85\<close>

text \<open>
  The encoder loads words of four bytes, most significant first. The load for a last group of fewer
  bytes reads beyond the message; \<open>mem\<close> is the memory from the message on.
\<close>

definition get_be32 :: "buffer \<Rightarrow> nat \<Rightarrow> u32" where
  "get_be32 mem i = push_bit 24 (ucast (mem i)) OR push_bit 16 (ucast (mem (i + 1))) OR
     push_bit 8 (ucast (mem (i + 2))) OR ucast (mem (i + 3))"

definition set_be32 :: "buffer \<Rightarrow> nat \<Rightarrow> u32 \<Rightarrow> buffer" where
  "set_be32 buff k v = buff(k := ucast (drop_bit 24 v), k + 1 := ucast (drop_bit 16 v),
     k + 2 := ucast (drop_bit 8 v), k + 3 := ucast v)"

definition ascii85_group :: "u32 \<Rightarrow> byte list" where
  "ascii85_group v0 =
     (if v0 = 0 then [character CHR ''z'']
      else let b4 = character CHR ''!'' + ucast (v0 mod 85); v1 = v0 div 85;
               b3 = character CHR ''!'' + ucast (v1 mod 85); v2 = v1 div 85;
               b2 = character CHR ''!'' + ucast (v2 mod 85); v3 = v2 div 85;
               b1 = character CHR ''!'' + ucast (v3 mod 85); v4 = v3 div 85;
               b0 = character CHR ''!'' + ucast (v4 mod 85)
           in [b0, b1, b2, b3, b4])"

text \<open>The mask is computed on 64 bits from a \<^verbatim>\<open>size_t\<close> and cut to the value's 32.\<close>

definition ascii85_mask :: "nat \<Rightarrow> u32" where
  "ascii85_mask n = ucast (push_bit (unat ((((4 - of_nat n) * 8) :: u64) AND 63)) (- 1 :: ulong))"

function ascii85_encode_loop :: "buffer \<Rightarrow> nat \<Rightarrow> nat \<Rightarrow> byte list" where
  "ascii85_encode_loop mem i n =
     (if 4 \<le> n then ascii85_group (get_be32 mem i) @ ascii85_encode_loop mem (i + 4) (n - 4)
      else if n \<noteq> 0 then ascii85_group (get_be32 mem i AND ascii85_mask n)
      else [])"
  by pat_completeness auto
termination
  by (relation "measure (\<lambda>(mem, i, n). n)") auto

declare ascii85_encode_loop.simps [simp del]

definition ascii85_encode :: "buffer \<Rightarrow> nat \<Rightarrow> byte list" where
  "ascii85_encode mem n = ascii85_encode_loop mem 0 n @ [0]"

definition ascii85_value :: "byte list \<Rightarrow> u32" where
  "ascii85_value d = ((((ucast (d ! 0) - 33) * 85 + (ucast (d ! 1) - 33)) * 85 +
     (ucast (d ! 2) - 33)) * 85 + (ucast (d ! 3) - 33)) * 85 + (ucast (d ! 4) - 33)"

function ascii85_decode_loop :: "byte list \<Rightarrow> buffer \<Rightarrow> nat \<Rightarrow> errno \<times> buffer" where
  "ascii85_decode_loop data buff k =
     (if data = [] then (ENOERR, buff)
      else if hd data = character CHR ''z'' then
        ascii85_decode_loop (tl data) (buff(k := 0, k + 1 := 0, k + 2 := 0, k + 3 := 0)) (k + 4)
      else if 5 \<le> length data then
        (if \<exists>c \<in> set (take 5 data). c < character CHR ''!'' \<or> character CHR ''u'' < c then (EINVAL, buff)
         else ascii85_decode_loop (drop 5 data) (set_be32 buff k (ascii85_value data)) (k + 4))
      else (EINVAL, buff))"
  by pat_completeness auto
termination
  by (relation "measure (\<lambda>(data, buff, k). length data)") auto

declare ascii85_decode_loop.simps [simp del]

definition ascii85_decode :: "buffer \<Rightarrow> byte list \<Rightarrow> errno \<times> buffer" where
  "ascii85_decode buff data = ascii85_decode_loop data buff 0"

function ascii85_encode_length_loop :: "buffer \<Rightarrow> nat \<Rightarrow> nat \<Rightarrow> nat" where
  "ascii85_encode_length_loop mem i n =
     (let csize = min n 4 in
      if csize = 0 then 0
      else (if get_be32 mem i AND ascii85_mask n \<noteq> 0 then 5 else 1) +
        ascii85_encode_length_loop mem (i + 4) (n - csize))"
  by pat_completeness auto
termination
  by (relation "measure (\<lambda>(mem, i, n). n)") auto

declare ascii85_encode_length_loop.simps [simp del]

definition ascii85_encode_length :: "buffer \<Rightarrow> nat \<Rightarrow> nat" where
  "ascii85_encode_length mem n = ascii85_encode_length_loop mem 0 n + 1"

definition ascii85_decode_length :: "byte list \<Rightarrow> nat" where
  "ascii85_decode_length data =
     (length data + 4 * length (filter (\<lambda>c. c = character CHR ''z'') data) + 4) div 5 * 4"

section \<open>Groupwise codecs\<close>

definition put :: "buffer \<Rightarrow> nat \<Rightarrow> byte list \<Rightarrow> buffer" where
  "put b k xs = (\<lambda>i. if k \<le> i \<and> i < k + length xs then xs ! (i - k) else b i)"

lemma put_Nil [simp]: "put b k [] = b"
  by (rule ext) (auto simp: put_def)

lemma put_append: "put (put b k xs) (k + length xs) ys = put b k (xs @ ys)"
  by (auto simp: put_def nth_append fun_eq_iff)

lemma put_Cons: "put b k (x # xs) = put (b(k := x)) (k + 1) xs"
proof
  fix i show "put b k (x # xs) i = put (b(k := x)) (k + 1) xs i"
    using Suc_diff_Suc [of k i] by (cases "i = k") (auto simp: put_def not_less)
qed

text \<open>
  An encoder that treats groups of \<open>n\<close> bytes separately and a decoder that undoes it group by group,
  writing \<open>pad r\<close> after a last group of \<open>r\<close> bytes.
\<close>

locale group_codec =
  fixes enc :: "byte list \<Rightarrow> byte list" and dec :: "byte list \<Rightarrow> buffer \<Rightarrow> nat \<Rightarrow> errno \<times> buffer"
    and n :: nat and pad :: "nat \<Rightarrow> byte list"
  assumes n_pos: "0 < n"
    and enc_group: "length g = n \<Longrightarrow> enc (g @ s) = enc g @ enc s"
    and dec_group: "length g = n \<Longrightarrow> dec (enc g @ t) b k = dec t (put b k g) (k + n)"
    and dec_last: "length s < n \<Longrightarrow> dec (enc s) b k = (ENOERR, put b k (s @ pad (length s)))"
begin

lemma dec_enc: "dec (enc s) b k = (ENOERR, put b k (s @ pad (length s mod n)))"
proof (induction s arbitrary: b k rule: length_induct)
  case (1 s)
  show ?case
  proof (cases "length s < n")
    case True
    then show ?thesis by (simp add: dec_last)
  next
    case False
    let ?g = "take n s" and ?t = "drop n s"
    have l: "length ?g = n" using False by simp
    have "dec (enc (?g @ ?t)) b k = dec (enc ?t) (put b k ?g) (k + n)"
      unfolding enc_group [OF l] by (rule dec_group [OF l])
    also have "enc (?g @ ?t) = enc s" by simp
    also have "dec (enc ?t) (put b k ?g) (k + n) = (ENOERR, put (put b k ?g) (k + n) (?t @ pad (length ?t mod n)))"
      using "1.IH" n_pos False by simp
    also have "\<dots> = (ENOERR, put b k (?g @ ?t @ pad (length ?t mod n)))"
      using put_append [of b k ?g] l by simp
    finally show ?thesis using False by (simp add: le_mod_geq flip: append_assoc)
  qed
qed

end

lemma low_bits:
  "x AND 0x1 = take_bit 1 x" "x AND 0x3 = take_bit 2 x" "x AND 0x7 = take_bit 3 x"
  "x AND 0xf = take_bit 4 x" "x AND 0x1f = take_bit 5 x" "x AND 0x3f = take_bit 6 (x :: byte)"
  by (simp_all add: take_bit_eq_mask mask_numeral)

lemma byte_less_iff: "unat (x :: byte) < 2 ^ k \<longleftrightarrow> take_bit k x = x"
  by (metis take_bit_nat_eq_self take_bit_nat_less_exp unsigned_take_bit_eq word_unat_eq_iff)

lemma base64_table:
  "\<forall>i \<in> set [0 ..< 64]. let c = base64_encode_table ! i in
     \<not> c < character CHR ''+'' \<and> \<not> character CHR ''z'' < c \<and> c \<noteq> character CHR ''='' \<and>
     base64_decode_table ! unat c = of_nat i \<and> (of_nat i :: byte) \<noteq> 0xff"
  by (simp add: base64_encode_table_def base64_decode_table_def upt_rec)

lemma base32_table:
  "\<forall>i \<in> set [0 ..< 32]. let c = base32_encode_table ! i in
     \<not> c < character CHR ''2'' \<and> \<not> character CHR ''Z'' < c \<and> c \<noteq> character CHR ''='' \<and>
     base32_decode_table ! unat c = of_nat i \<and> (of_nat i :: byte) \<noteq> 0xff"
  by (simp add: base32_encode_table_def base32_decode_table_def upt_rec)


lemma e64_char:
  assumes "take_bit 6 v = v"
  shows "\<not> e64 v < character CHR ''+''" "\<not> character CHR ''z'' < e64 v" "e64 v \<noteq> character CHR ''=''"
    "base64_decode_table ! unat (e64 v) = v" "v \<noteq> 0xff"
proof -
  have "unat v \<in> set [0 ..< 64]" using assms byte_less_iff [of v 6] by simp
  then show "\<not> e64 v < character CHR ''+''" "\<not> character CHR ''z'' < e64 v" "e64 v \<noteq> character CHR ''=''"
    "base64_decode_table ! unat (e64 v) = v" "v \<noteq> 0xff"
    using bspec [OF base64_table] unfolding e64_def Let_def by force+
qed

lemma e32_char:
  assumes "take_bit 5 v = v"
  shows "\<not> e32 v < character CHR ''2''" "\<not> character CHR ''Z'' < e32 v" "e32 v \<noteq> character CHR ''=''"
    "base32_decode_table ! unat (e32 v) = v" "v \<noteq> 0xff"
proof -
  have "unat v \<in> set [0 ..< 32]" using assms byte_less_iff [of v 5] by simp
  then show "\<not> e32 v < character CHR ''2''" "\<not> character CHR ''Z'' < e32 v" "e32 v \<noteq> character CHR ''=''"
    "base32_decode_table ! unat (e32 v) = v" "v \<noteq> 0xff"
    using bspec [OF base32_table] unfolding e32_def Let_def by force+
qed

lemma decode64_char:
  "take_bit 6 v = v \<Longrightarrow> base64_decode_loop (e64 v # data) st b k =
     (if st mod 4 = 0 then base64_decode_loop data (st + 1) (b(k := push_bit 2 v)) k
      else if st mod 4 = 1 then base64_decode_loop data (st + 1)
        (b(k := b k OR (drop_bit 4 v AND 0x3), k + 1 := push_bit 4 v)) (k + 1)
      else if st mod 4 = 2 then base64_decode_loop data (st + 1)
        (b(k := b k OR (drop_bit 2 v AND 0xf), k + 1 := push_bit 6 v)) (k + 1)
      else base64_decode_loop data (st + 1) (b(k := b k OR v)) (k + 1))"
  by (simp only: base64_decode_loop.simps e64_char Let_def simp_thms if_True if_False)

lemma decode32_char:
  "take_bit 5 v = v \<Longrightarrow> base32_decode_loop (e32 v # data) st b k =
     (if st mod 8 = 0 then base32_decode_loop data (st + 1) (b(k := push_bit 3 v)) k
      else if st mod 8 = 1 then base32_decode_loop data (st + 1)
        (b(k := b k OR (drop_bit 2 v AND 0x7), k + 1 := push_bit 6 v)) (k + 1)
      else if st mod 8 = 2 then base32_decode_loop data (st + 1) (b(k := b k OR push_bit 1 (v AND 0x1f))) k
      else if st mod 8 = 3 then base32_decode_loop data (st + 1)
        (b(k := b k OR (drop_bit 4 v AND 0x1), k + 1 := push_bit 4 v)) (k + 1)
      else if st mod 8 = 4 then base32_decode_loop data (st + 1)
        (b(k := b k OR (drop_bit 1 v AND 0xf), k + 1 := push_bit 7 v)) (k + 1)
      else if st mod 8 = 5 then base32_decode_loop data (st + 1) (b(k := b k OR push_bit 2 (v AND 0x1f))) k
      else if st mod 8 = 6 then base32_decode_loop data (st + 1)
        (b(k := b k OR (drop_bit 3 v AND 0x3), k + 1 := push_bit 5 v)) (k + 1)
      else base32_decode_loop data (st + 1) (b(k := b k OR (v AND 0x1f))) (k + 1))"
  by (simp only: base32_decode_loop.simps e32_char Let_def simp_thms if_True if_False)

lemma decode64_pad: "base64_decode_loop (61 # data) st b k = (ENOERR, b)"
  by simp

lemma decode32_pad: "base32_decode_loop (61 # data) st b k = (ENOERR, b)"
  by simp

lemma decode64_mod:
  "st mod 4 = st' mod 4 \<Longrightarrow> base64_decode_loop data st b k = base64_decode_loop data st' b k"
proof (induction data arbitrary: st st' b k)
  case (Cons c data)
  have "(st + 1) mod 4 = (st' + 1) mod 4" using Cons.prems by (metis mod_add_left_eq)
  from Cons.IH [OF this] show ?case unfolding base64_decode_loop.simps Cons.prems by (simp only:)
qed simp

lemma decode64_state: "base64_decode_loop data (st + 4) b k = base64_decode_loop data st b k"
  by (rule decode64_mod) simp

lemma decode32_mod:
  "st mod 8 = st' mod 8 \<Longrightarrow> base32_decode_loop data st b k = base32_decode_loop data st' b k"
proof (induction data arbitrary: st st' b k)
  case (Cons c data)
  have "(st + 1) mod 8 = (st' + 1) mod 8" using Cons.prems by (metis mod_add_left_eq)
  from Cons.IH [OF this] show ?case unfolding base32_decode_loop.simps Cons.prems by (simp only:)
qed simp

lemma decode32_state: "base32_decode_loop data (st + 8) b k = base32_decode_loop data st b k"
  by (rule decode32_mod) simp

text \<open>Equations of bytes, bit by bit.\<close>

lemma byte_eqI:
  fixes x y :: byte
  assumes "bit x 0 = bit y 0" "bit x 1 = bit y 1" "bit x 2 = bit y 2" "bit x 3 = bit y 3"
    "bit x 4 = bit y 4" "bit x 5 = bit y 5" "bit x 6 = bit y 6" "bit x 7 = bit y 7"
  shows "x = y"
proof (rule bit_word_eqI)
  fix i assume "i < LENGTH(8)"
  then have "i = 0 \<or> i = 1 \<or> i = 2 \<or> i = 3 \<or> i = 4 \<or> i = 5 \<or> i = 6 \<or> i = 7" by auto
  then show "bit x i = bit y i" by (elim disjE) (simp_all only: assms)
qed

lemma byte_high: "8 \<le> n \<Longrightarrow> \<not> bit (b :: byte) n"
  by (auto dest: bit_imp_le_length)

lemmas byte_bit_simps = low_bits bit_or_iff bit_push_bit_iff bit_drop_bit_eq bit_take_bit_iff comp_apply

lemma sextets:
  "take_bit 6 (drop_bit 2 a) = drop_bit 2 a"
  "take_bit 6 (push_bit 4 (a AND 0x3) OR drop_bit 4 b) = push_bit 4 (a AND 0x3) OR drop_bit 4 b"
  "take_bit 6 (push_bit 2 (b AND 0xf) OR drop_bit 6 c) = push_bit 2 (b AND 0xf) OR drop_bit 6 c"
  "take_bit 6 (c AND 0x3f) = c AND 0x3f"
  "take_bit 6 (push_bit 4 (a AND 0x3)) = push_bit 4 (a AND 0x3)"
  "take_bit 6 (push_bit 2 (b AND 0xf)) = push_bit 2 (b AND 0xf)" for a b c :: byte
  by (rule byte_eqI; simp only: byte_bit_simps; simp add: byte_high)+

lemma quintets:
  "take_bit 5 (drop_bit 3 a) = drop_bit 3 a"
  "take_bit 5 (push_bit 2 (a AND 0x7) OR drop_bit 6 b) = push_bit 2 (a AND 0x7) OR drop_bit 6 b"
  "take_bit 5 (drop_bit 1 a AND 0x1f) = drop_bit 1 a AND 0x1f"
  "take_bit 5 (push_bit 4 (a AND 0x1) OR drop_bit 4 b) = push_bit 4 (a AND 0x1) OR drop_bit 4 b"
  "take_bit 5 (push_bit 1 (a AND 0xf) OR drop_bit 7 b) = push_bit 1 (a AND 0xf) OR drop_bit 7 b"
  "take_bit 5 (drop_bit 2 a AND 0x1f) = drop_bit 2 a AND 0x1f"
  "take_bit 5 (push_bit 3 (a AND 0x3) OR drop_bit 5 b) = push_bit 3 (a AND 0x3) OR drop_bit 5 b"
  "take_bit 5 (a AND 0x1f) = a AND 0x1f"
  "take_bit 5 (push_bit 2 (a AND 0x7)) = push_bit 2 (a AND 0x7)"
  "take_bit 5 (push_bit 4 (a AND 0x1)) = push_bit 4 (a AND 0x1)"
  "take_bit 5 (push_bit 1 (a AND 0xf)) = push_bit 1 (a AND 0xf)"
  "take_bit 5 (push_bit 3 (a AND 0x3)) = push_bit 3 (a AND 0x3)" for a b c :: byte
  by (rule byte_eqI; simp only: byte_bit_simps; simp add: byte_high)+

text \<open>The bytes put together from the shifted values.\<close>

lemma joined64:
  "push_bit 2 (drop_bit 2 a) OR (drop_bit 4 (push_bit 4 (a AND 0x3) OR drop_bit 4 b) AND 0x3) = a"
  "push_bit 4 (push_bit 4 (a AND 0x3) OR drop_bit 4 b) OR
     (drop_bit 2 (push_bit 2 (b AND 0xf) OR drop_bit 6 c) AND 0xf) = b"
  "push_bit 6 (push_bit 2 (b AND 0xf) OR drop_bit 6 c) OR (c AND 0x3f) = c"
  "push_bit 2 (drop_bit 2 a) OR (drop_bit 4 (push_bit 4 (a AND 0x3)) AND 0x3) = a"
  "push_bit 4 (push_bit 4 (a AND 0x3)) = 0"
  "push_bit 4 (push_bit 4 (a AND 0x3) OR drop_bit 4 b) OR (drop_bit 2 (push_bit 2 (b AND 0xf)) AND 0xf) = b"
  "push_bit 6 (push_bit 2 (b AND 0xf)) = 0" for a b c :: byte
  by (rule byte_eqI; simp only: byte_bit_simps; simp add: byte_high)+

lemma list_of_length_3: "length g = 3 \<Longrightarrow> \<exists>a b c. g = [a, b, c]"
  by (auto simp: numeral_eq_Suc length_Suc_conv)

lemma list_of_length_5: "length g = 5 \<Longrightarrow> \<exists>a b c d e. g = [a, b, c, d, e]"
  by (auto simp: numeral_eq_Suc length_Suc_conv)

lemma list_less_3: "length s < 3 \<Longrightarrow> s = [] \<or> (\<exists>a. s = [a]) \<or> (\<exists>a b. s = [a, b])"
  by (cases s; cases "tl s"; cases "tl (tl s)") auto

lemma list_less_5: "length s < 5 \<Longrightarrow> s = [] \<or> (\<exists>a. s = [a]) \<or> (\<exists>a b. s = [a, b]) \<or>
    (\<exists>a b c. s = [a, b, c]) \<or> (\<exists>a b c d. s = [a, b, c, d])"
  by (cases s; cases "tl s"; cases "tl (tl s)"; cases "tl (tl (tl s))"; cases "tl (tl (tl (tl s)))") auto

definition pad_one :: "nat \<Rightarrow> byte list" where
  "pad_one r = (if r = 0 then [] else [0])"

lemmas keep_shifts = push_bit_and drop_bit_and push_bit_or drop_bit_or

lemmas decode64_steps = sextets [THEN decode64_char] decode64_pad joined64

lemma base64_group:
  "base64_decode_loop (base64_encode_loop [a, b, c] @ t) 0 buf k = base64_decode_loop t 0 (put buf k [a, b, c]) (k + 3)"
proof -
  have "base64_decode_loop (base64_encode_loop [a, b, c] @ t) 0 buf k =
      base64_decode_loop t (Suc (Suc (Suc (Suc 0)))) (buf(k := a, Suc k := b, Suc (Suc k) := c)) (Suc (Suc (Suc k)))"
    by (simp add: decode64_steps del: base64_decode_loop.simps keep_shifts)
  then show ?thesis using decode64_state [of t 0]
    by (simp add: put_Cons eval_nat_numeral del: base64_decode_loop.simps)
qed

lemma base64_last:
  assumes "length s < 3"
  shows "base64_decode_loop (base64_encode_loop s) 0 buf k = (ENOERR, put buf k (s @ pad_one (length s)))"
  using list_less_3 [OF assms]
proof (elim disjE exE)
  fix a assume "s = [a]"
  then show ?thesis
    by (simp add: decode64_steps put_Cons pad_one_def del: base64_decode_loop.simps keep_shifts)
next
  fix a b assume "s = [a, b]"
  then show ?thesis
    by (simp add: decode64_steps put_Cons pad_one_def del: base64_decode_loop.simps keep_shifts)
qed (simp add: pad_one_def)

interpretation base64: group_codec base64_encode_loop "\<lambda>d. base64_decode_loop d 0" 3 pad_one
proof
  fix g s t :: "byte list" and b k
  show "base64_encode_loop (g @ s) = base64_encode_loop g @ base64_encode_loop s" if "length g = 3"
    using list_of_length_3 [OF that] by auto
  show "base64_decode_loop (base64_encode_loop g @ t) 0 b k = base64_decode_loop t 0 (put b k g) (k + 3)"
    if "length g = 3"
    using list_of_length_3 [OF that] base64_group by blast
qed (simp_all add: base64_last)

lemma joined32:
  "push_bit 3 (drop_bit 3 a) OR (drop_bit 2 (push_bit 2 (a AND 0x7) OR drop_bit 6 b) AND 0x7) = a"
  "(push_bit 6 (push_bit 2 (a AND 0x7) OR drop_bit 6 b) OR push_bit 1 ((drop_bit 1 b AND 0x1f) AND 0x1f)) OR (drop_bit 4 (push_bit 4 (b AND 0x1) OR drop_bit 4 c) AND 0x1) = b"
  "push_bit 4 (push_bit 4 (b AND 0x1) OR drop_bit 4 c) OR (drop_bit 1 (push_bit 1 (c AND 0xf) OR drop_bit 7 d) AND 0xf) = c"
  "(push_bit 7 (push_bit 1 (c AND 0xf) OR drop_bit 7 d) OR push_bit 2 ((drop_bit 2 d AND 0x1f) AND 0x1f)) OR (drop_bit 3 (push_bit 3 (d AND 0x3) OR drop_bit 5 e) AND 0x3) = d"
  "push_bit 5 (push_bit 3 (d AND 0x3) OR drop_bit 5 e) OR ((e AND 0x1f) AND 0x1f) = e"
  for a b c d e :: byte
  by (rule byte_eqI; simp only: byte_bit_simps; simp add: byte_high eval_nat_numeral)+

lemma joined32_last:
  "push_bit 3 (drop_bit 3 a) OR (drop_bit 2 (push_bit 2 (a AND 0x7)) AND 0x7) = a"
  "push_bit 6 (push_bit 2 (a AND 0x7)) = 0"
  "(push_bit 6 (push_bit 2 (a AND 0x7) OR drop_bit 6 b) OR push_bit 1 ((drop_bit 1 b AND 0x1f) AND 0x1f)) OR (drop_bit 4 (push_bit 4 (b AND 0x1)) AND 0x1) = b"
  "push_bit 4 (push_bit 4 (b AND 0x1)) = 0"
  "push_bit 4 (push_bit 4 (b AND 0x1) OR drop_bit 4 c) OR (drop_bit 1 (push_bit 1 (c AND 0xf)) AND 0xf) = c"
  "push_bit 7 (push_bit 1 (c AND 0xf)) = 0"
  "(push_bit 7 (push_bit 1 (c AND 0xf) OR drop_bit 7 d) OR push_bit 2 ((drop_bit 2 d AND 0x1f) AND 0x1f)) OR (drop_bit 3 (push_bit 3 (d AND 0x3)) AND 0x3) = d"
  "push_bit 5 (push_bit 3 (d AND 0x3)) = 0"
  for a b c d :: byte
  by (rule byte_eqI; simp only: byte_bit_simps; simp add: byte_high eval_nat_numeral)+

lemma decode32_group:
  assumes "take_bit 5 v0 = v0" "take_bit 5 v1 = v1" "take_bit 5 v2 = v2" "take_bit 5 v3 = v3" "take_bit 5 v4 = v4" "take_bit 5 v5 = v5" "take_bit 5 v6 = v6" "take_bit 5 v7 = v7"
  shows "base32_decode_loop (e32 v0 # e32 v1 # e32 v2 # e32 v3 # e32 v4 # e32 v5 # e32 v6 # e32 v7 # t) 0 buf k =
    base32_decode_loop t 0 (put buf k [push_bit 3 v0 OR (drop_bit 2 v1 AND 0x7), (push_bit 6 v1 OR push_bit 1 (v2 AND 0x1f)) OR (drop_bit 4 v3 AND 0x1), push_bit 4 v3 OR (drop_bit 1 v4 AND 0xf), (push_bit 7 v4 OR push_bit 2 (v5 AND 0x1f)) OR (drop_bit 3 v6 AND 0x3), push_bit 5 v6 OR (v7 AND 0x1f)]) (k + 5)"
proof -
  have "base32_decode_loop (e32 v0 # e32 v1 # e32 v2 # e32 v3 # e32 v4 # e32 v5 # e32 v6 # e32 v7 # t) 0 buf k =
      base32_decode_loop t (Suc (Suc (Suc (Suc (Suc (Suc (Suc (Suc 0))))))))
        (put buf k [push_bit 3 v0 OR (drop_bit 2 v1 AND 0x7), (push_bit 6 v1 OR push_bit 1 (v2 AND 0x1f)) OR (drop_bit 4 v3 AND 0x1), push_bit 4 v3 OR (drop_bit 1 v4 AND 0xf), (push_bit 7 v4 OR push_bit 2 (v5 AND 0x1f)) OR (drop_bit 3 v6 AND 0x3), push_bit 5 v6 OR (v7 AND 0x1f)])
        (Suc (Suc (Suc (Suc (Suc k)))))"
    using assms by (simp add: decode32_char put_Cons del: base32_decode_loop.simps keep_shifts)
  then show ?thesis using decode32_state [of t 0] by (simp only: add_0 eval_nat_numeral BitM.simps add_Suc_right add_0_right)
qed

lemma decode32_last1:
  assumes "take_bit 5 v0 = v0" "take_bit 5 v1 = v1"
  shows "base32_decode_loop (e32 v0 # e32 v1 # 61 # t) 0 buf k =
    (ENOERR, put buf k [push_bit 3 v0 OR (drop_bit 2 v1 AND 0x7), push_bit 6 v1])"
  using assms by (simp add: decode32_char decode32_pad put_Cons del: base32_decode_loop.simps keep_shifts)

lemma decode32_last2:
  assumes "take_bit 5 v0 = v0" "take_bit 5 v1 = v1" "take_bit 5 v2 = v2" "take_bit 5 v3 = v3"
  shows "base32_decode_loop (e32 v0 # e32 v1 # e32 v2 # e32 v3 # 61 # t) 0 buf k =
    (ENOERR, put buf k [push_bit 3 v0 OR (drop_bit 2 v1 AND 0x7), (push_bit 6 v1 OR push_bit 1 (v2 AND 0x1f)) OR (drop_bit 4 v3 AND 0x1), push_bit 4 v3])"
  using assms by (simp add: decode32_char decode32_pad put_Cons del: base32_decode_loop.simps keep_shifts)

lemma decode32_last3:
  assumes "take_bit 5 v0 = v0" "take_bit 5 v1 = v1" "take_bit 5 v2 = v2" "take_bit 5 v3 = v3" "take_bit 5 v4 = v4"
  shows "base32_decode_loop (e32 v0 # e32 v1 # e32 v2 # e32 v3 # e32 v4 # 61 # t) 0 buf k =
    (ENOERR, put buf k [push_bit 3 v0 OR (drop_bit 2 v1 AND 0x7), (push_bit 6 v1 OR push_bit 1 (v2 AND 0x1f)) OR (drop_bit 4 v3 AND 0x1), push_bit 4 v3 OR (drop_bit 1 v4 AND 0xf), push_bit 7 v4])"
  using assms by (simp add: decode32_char decode32_pad put_Cons del: base32_decode_loop.simps keep_shifts)

lemma decode32_last4:
  assumes "take_bit 5 v0 = v0" "take_bit 5 v1 = v1" "take_bit 5 v2 = v2" "take_bit 5 v3 = v3" "take_bit 5 v4 = v4" "take_bit 5 v5 = v5" "take_bit 5 v6 = v6"
  shows "base32_decode_loop (e32 v0 # e32 v1 # e32 v2 # e32 v3 # e32 v4 # e32 v5 # e32 v6 # 61 # t) 0 buf k =
    (ENOERR, put buf k [push_bit 3 v0 OR (drop_bit 2 v1 AND 0x7), (push_bit 6 v1 OR push_bit 1 (v2 AND 0x1f)) OR (drop_bit 4 v3 AND 0x1), push_bit 4 v3 OR (drop_bit 1 v4 AND 0xf), (push_bit 7 v4 OR push_bit 2 (v5 AND 0x1f)) OR (drop_bit 3 v6 AND 0x3), push_bit 5 v6])"
  using assms by (simp add: decode32_char decode32_pad put_Cons del: base32_decode_loop.simps keep_shifts)

lemma base32_last:
  assumes "length s < 5"
  shows "base32_decode_loop (base32_encode_loop s) 0 buf k = (ENOERR, put buf k (s @ pad_one (length s)))"
proof -
  have pad: "replicate 6 (61 :: byte) = 61 # replicate 5 61" "replicate 4 (61 :: byte) = 61 # replicate 3 61"
    "replicate 3 (61 :: byte) = 61 # replicate 2 61"
    by (simp_all add: numeral_eq_Suc)
  show ?thesis
    using list_less_5 [OF assms]
  proof (elim disjE exE)
    fix a assume "s = [a]"
    then show ?thesis
      using decode32_last1 [OF quintets(1) [of a]
          quintets(9) [of a],
          unfolded joined32 joined32_last]
      by (simp add: pad pad_one_def del: base32_decode_loop.simps keep_shifts)
  next
    fix a b assume "s = [a, b]"
    then show ?thesis
      using decode32_last2 [OF quintets(1) [of a]
          quintets(2) [of a b]
          quintets(3) [of b]
          quintets(10) [of b],
          unfolded joined32 joined32_last]
      by (simp add: pad pad_one_def del: base32_decode_loop.simps keep_shifts)
  next
    fix a b c assume "s = [a, b, c]"
    then show ?thesis
      using decode32_last3 [OF quintets(1) [of a]
          quintets(2) [of a b]
          quintets(3) [of b]
          quintets(4) [of b c]
          quintets(11) [of c],
          unfolded joined32 joined32_last]
      by (simp add: pad pad_one_def del: base32_decode_loop.simps keep_shifts)
  next
    fix a b c d assume "s = [a, b, c, d]"
    then show ?thesis
      using decode32_last4 [OF quintets(1) [of a]
          quintets(2) [of a b]
          quintets(3) [of b]
          quintets(4) [of b c]
          quintets(5) [of c d]
          quintets(6) [of d]
          quintets(12) [of d],
          unfolded joined32 joined32_last]
      by (simp add: pad pad_one_def del: base32_decode_loop.simps keep_shifts)
  qed (simp add: pad_one_def)
qed

lemma base32_group:
  "base32_decode_loop (base32_encode_loop [a, b, c, d, e] @ t) 0 buf k =
     base32_decode_loop t 0 (put buf k [a, b, c, d, e]) (k + 5)"
  using decode32_group [OF quintets(1) [of a] quintets(2) [of a b] quintets(3) [of b] quintets(4) [of b c]
    quintets(5) [of c d] quintets(6) [of d] quintets(7) [of d e] quintets(8) [of e], unfolded joined32]
  by (simp del: base32_decode_loop.simps keep_shifts)

interpretation base32: group_codec base32_encode_loop "\<lambda>d. base32_decode_loop d 0" 5 pad_one
proof
  fix g s t :: "byte list" and b k
  show "base32_encode_loop (g @ s) = base32_encode_loop g @ base32_encode_loop s" if "length g = 5"
    using list_of_length_5 [OF that] by auto
  show "base32_decode_loop (base32_encode_loop g @ t) 0 b k = base32_decode_loop t 0 (put b k g) (k + 5)"
    if "length g = 5"
    using list_of_length_5 [OF that] base32_group by blast
qed (simp_all add: base32_last)

section \<open>ASCII 85 on lists\<close>

definition word_be :: "byte \<Rightarrow> byte \<Rightarrow> byte \<Rightarrow> byte \<Rightarrow> u32" where
  "word_be a b c d = push_bit 24 (ucast a) OR push_bit 16 (ucast b) OR push_bit 8 (ucast c) OR ucast d"

fun ascii85_text :: "byte list \<Rightarrow> byte list" where
  "ascii85_text (a # b # c # d # s) = ascii85_group (word_be a b c d) @ ascii85_text s"
| "ascii85_text [a, b, c] = ascii85_group (word_be a b c 0)"
| "ascii85_text [a, b] = ascii85_group (word_be a b 0 0)"
| "ascii85_text [a] = ascii85_group (word_be a 0 0 0)"
| "ascii85_text [] = []"

lemma ascii85_masks:
  "ascii85_mask 1 = push_bit 24 (mask 8)" "ascii85_mask 2 = push_bit 16 (mask 16)"
  "ascii85_mask 3 = push_bit 8 (mask 24)"
  by (rule bit_word_eqI, auto simp: ascii85_mask_def bit_simps)+

lemma ascii85_masked:
  "word_be a b c d AND push_bit 24 (mask 8) = word_be a 0 0 0"
  "word_be a b c d AND push_bit 16 (mask 16) = word_be a b 0 0"
  "word_be a b c d AND push_bit 8 (mask 24) = word_be a b c 0"
  unfolding word_be_def by (rule bit_word_eqI, auto simp: bit_simps dest: bit_imp_le_length)+

lemma upt_small:
  "[i ..< i + 1] = [i]" "[i ..< i + 2] = [i, i + 1]" "[i ..< i + 3] = [i, i + 1, i + 2]"
  by (simp_all add: upt_conv_Cons)

lemma get_be32_word: "get_be32 mem i = word_be (mem i) (mem (i + 1)) (mem (i + 2)) (mem (i + 3))"
  by (simp add: get_be32_def word_be_def)

lemma set_be32_word: "set_be32 buf k (word_be a b c d) = put buf k [a, b, c, d]"
proof -
  have "ucast (drop_bit 24 (word_be a b c d)) = a" "ucast (drop_bit 16 (word_be a b c d)) = b"
    "ucast (drop_bit 8 (word_be a b c d)) = c" "ucast (word_be a b c d) = d"
    by (rule bit_word_eqI, auto simp: word_be_def bit_simps dest: bit_imp_le_length)+
  then show ?thesis by (simp add: set_be32_def put_Cons eval_nat_numeral)
qed

lemma ascii85_encode_text:
  "ascii85_encode_loop mem i n = ascii85_text (map mem [i ..< i + n])"
proof (induction mem i n rule: ascii85_encode_loop.induct)
  case (1 mem i n)
  show ?case
  proof (cases "4 \<le> n")
    case True
    then obtain m where m: "n = 4 + m" using le_Suc_ex by blast
    then have "[i ..< i + n] = i # (i + 1) # (i + 2) # (i + 3) # [i + 4 ..< i + 4 + m]"
      by (simp add: upt_conv_Cons eval_nat_numeral)
    then show ?thesis using True "1.IH" [OF True] m
      by (simp add: ascii85_encode_loop.simps [of mem i "4 + m"] get_be32_word)
  next
    case False
    then consider "n = 0" | "n = 1" | "n = 2" | "n = 3" by linarith
    then show ?thesis
      unfolding ascii85_encode_loop.simps [of mem i n] get_be32_word
      by cases (simp_all only: ascii85_masks ascii85_masked upt_small ascii85_text.simps list.map, simp_all)
  qed
qed

lemma ascii85_digit:
  fixes x :: u32
  defines "c \<equiv> character CHR ''!'' + ucast (x mod 85)"
  shows "ucast c - 33 = x mod 85" "\<not> c < character CHR ''!''" "\<not> character CHR ''u'' < c"
    "c \<noteq> character CHR ''z''"
proof -
  have x: "unat (x mod 85) < 85" by (simp add: unat_mod)
  have m: "unat (x mod 85) = unat x mod 85" by (simp add: unat_mod)
  have u: "unat (ucast (x mod 85) :: byte) = unat (x mod 85)"
    using x by (simp add: unsigned_ucast_eq take_bit_nat_eq_self)
  have c: "unat c = 33 + unat (x mod 85)"
    using x u by (simp add: c_def unat_word_ariths)
  have "unat (ucast c - 33 :: u32) = unat (x mod 85)"
  proof -
    have "(ucast c :: u32) = of_nat (33 + unat (x mod 85))" by (metis c of_nat_unat)
    then show ?thesis by simp
  qed
  then show "ucast c - 33 = x mod 85" by (simp add: word_unat_eq_iff)
  show "\<not> c < character CHR ''!''" "\<not> character CHR ''u'' < c" "c \<noteq> character CHR ''z''"
    using x c by (auto simp: word_less_nat_alt word_unat_eq_iff)
qed

lemma ascii85_value_group:
  "v \<noteq> 0 \<Longrightarrow> ascii85_value (ascii85_group v @ t) = v"
proof -
  assume v: "v \<noteq> 0"
  have h: "x div 85 * 85 + x mod 85 = x" for x :: u32 by (rule div_mult_mod_eq)
  have t: "v div 85 div 85 div 85 div 85 mod 85 = v div 85 div 85 div 85 div 85"
  proof -
    have "unat v < 2 ^ 32" using unsigned_less [of v, where ?'a = nat] by simp
    then have "unat v div 85 div 85 div 85 div 85 < 85" by simp
    then show ?thesis by (simp add: word_unat_eq_iff unat_div unat_mod)
  qed
  have e: "ascii85_value (c0 # c1 # c2 # c3 # c4 # t) = ((((ucast c0 - 33) * 85 + (ucast c1 - 33)) * 85 +
     (ucast c2 - 33)) * 85 + (ucast c3 - 33)) * 85 + (ucast c4 - 33)" for c0 c1 c2 c3 c4
    by (simp add: ascii85_value_def eval_nat_numeral)
  show ?thesis
    unfolding ascii85_group_def Let_def if_not_P [OF v] append_Cons append_Nil e ascii85_digit(1)
    unfolding t h by (rule refl)
qed

lemma ascii85_decode_group:
  "ascii85_decode_loop (ascii85_group (word_be a b c d) @ t) buf k =
     ascii85_decode_loop t (put buf k [a, b, c, d]) (k + 4)"
proof (cases "word_be a b c d = 0")
  case True
  have "set_be32 buf k 0 = put buf k [0, 0, 0, 0]"
    by (simp add: set_be32_def put_Cons eval_nat_numeral)
  then have "put buf k [a, b, c, d] = put buf k [0, 0, 0, 0]" using set_be32_word [of buf k a b c d] True by simp
  then show ?thesis using True
    by (simp add: ascii85_group_def ascii85_decode_loop.simps [of "_ # _"] put_Cons eval_nat_numeral)
next
  case False
  let ?v = "word_be a b c d" and ?g = "ascii85_group (word_be a b c d)"
  have "\<forall>c \<in> set ?g. \<not> c < character CHR ''!'' \<and> \<not> character CHR ''u'' < c \<and> c \<noteq> character CHR ''z''"
    using False by (auto simp: ascii85_group_def Let_def ascii85_digit [simplified])
  moreover have "length ?g = 5" using False by (simp add: ascii85_group_def Let_def)
  ultimately have "ascii85_decode_loop (?g @ t) buf k =
      ascii85_decode_loop t (set_be32 buf k (ascii85_value (?g @ t))) (k + 4)"
    by (subst ascii85_decode_loop.simps) (cases ?g; force)
  then show ?thesis using False by (simp add: ascii85_value_group set_be32_word)
qed

definition pad_word :: "nat \<Rightarrow> byte list" where
  "pad_word r = (if r = 0 then [] else replicate (4 - r) 0)"

lemma list_of_length_4: "length g = 4 \<Longrightarrow> \<exists>a b c d. g = [a, b, c, d]"
  by (auto simp: numeral_eq_Suc length_Suc_conv)

lemma list_less_4: "length s < 4 \<Longrightarrow> s = [] \<or> (\<exists>a. s = [a]) \<or> (\<exists>a b. s = [a, b]) \<or> (\<exists>a b c. s = [a, b, c])"
  by (cases s; cases "tl s"; cases "tl (tl s)"; cases "tl (tl (tl s))") auto

interpretation ascii85: group_codec ascii85_text ascii85_decode_loop 4 pad_word
proof
  fix g s t :: "byte list" and b k
  show "ascii85_text (g @ s) = ascii85_text g @ ascii85_text s" if "length g = 4"
    using list_of_length_4 [OF that] by auto
  show "ascii85_decode_loop (ascii85_text g @ t) b k = ascii85_decode_loop t (put b k g) (k + 4)"
    if "length g = 4"
    using list_of_length_4 [OF that] by (auto simp: ascii85_decode_group)
  have e: "ascii85_decode_loop [] b k = (ENOERR, b)" for b k by (simp add: ascii85_decode_loop.simps)
  have two: "replicate 2 (0 :: byte) = [0, 0]" "replicate 3 (0 :: byte) = [0, 0, 0]"
    by (simp_all add: numeral_eq_Suc)
  show "ascii85_decode_loop (ascii85_text s) b k = (ENOERR, put b k (s @ pad_word (length s)))"
    if "length s < 4"
    using list_less_4 [OF that] ascii85_decode_group [of _ _ _ _ "[]"]
    by (auto simp: e pad_word_def two)
qed simp

section \<open>Lengths and bounds\<close>

section \<open>Lengths and bounds\<close>

lemma div_plus_3: "(5 + x :: nat) div 3 = Suc (Suc (Suc x) div 3)"
  by presburger

lemma div_plus_5: "(9 + x :: nat) div 5 = Suc ((x + 4) div 5)"
  by presburger

lemma div_plus_4: "(x + 3 :: nat) div 4 = (x + 7) div 4 - Suc (0 :: nat)"
  by presburger

lemma div_plus_8: "(x + 7 :: nat) div 8 = (x + 15) div 8 - Suc (0 :: nat)"
  by presburger

lemma length_base64_loop: "length (base64_encode_loop s) = (length s + 2) div 3 * 4"
proof (induction s rule: base64_encode_loop.induct)
  case (1 a b c s)
  then show ?case by (simp add: div_plus_3)
qed simp_all

lemma length_base32_loop: "length (base32_encode_loop s) = (length s + 4) div 5 * 8"
proof (induction s rule: base32_encode_loop.induct)
  case (1 a b c d e s)
  then show ?case by (simp add: div_plus_5)
qed simp_all

text \<open>A decoder writes at its position and the next one, and moves on with the bits it has read.\<close>

lemma base64_decode_step:
  assumes "c \<ge> character CHR ''+''" "c \<le> character CHR ''z''" "c \<noteq> character CHR ''=''"
    "base64_decode_table ! unat c \<noteq> 0xff"
  shows "\<exists>b'. base64_decode_loop (c # data) st b k =
      base64_decode_loop data (st + 1) b' (k + (if st mod 4 = 0 then 0 else 1)) \<and>
    (\<forall>i. i < k \<or> k + (if st mod 4 = 3 then 1 else 2) \<le> i \<longrightarrow> b' i = b i)"
  using assms by (simp add: not_less Let_def) (auto simp: not_less intro!: exI)

lemma base64_decode_frame:
  "k + (st mod 4 + length data + 3) div 4 * 3 \<le> i + st mod 4 * 3 div 4 \<Longrightarrow>
   snd (base64_decode_loop data st b k) i = b i"
proof (induction data arbitrary: st b k)
  case (Cons c data)
  show ?case
  proof (cases "c \<ge> character CHR ''+'' \<and> c \<le> character CHR ''z'' \<and> c \<noteq> character CHR ''='' \<and>
      base64_decode_table ! unat c \<noteq> 0xff")
    case False
    then show ?thesis by (auto simp: not_le)
  next
    case True
    define r where "r = st mod 4"
    define k' where "k' = k + (if st mod 4 = 0 then 0 else 1)"
    obtain b' where b': "base64_decode_loop (c # data) st b k = base64_decode_loop data (st + 1) b' k'"
      "\<And>i. k + (if r = 3 then 1 else 2) \<le> i \<Longrightarrow> b' i = b i"
      using base64_decode_step [of c data st b k] True unfolding k'_def r_def by blast
    have r: "r < 4" "(st + 1) mod 4 = (if r = 3 then 0 else r + 1)"
      unfolding r_def by (simp, simp add: mod_Suc)
    have i: "k + (r + 1 + length data + 3) div 4 * 3 \<le> i + r * 3 div 4"
      using Cons.prems r_def by simp
    define q where "q = (r + 1 + length data + 3) div 4"
    have q: "1 \<le> q" "((if r = 3 then 0 else r + 1) + length data + 3) div 4 = (if r = 3 then q - 1 else q)"
      unfolding q_def by simp (cases "r = 3"; simp add: div_plus_4 add.commute [of _ "length data"]; simp add: ac_simps)
    have cases: "r = 0 \<or> r = 1 \<or> r = 2 \<or> r = 3" using r(1) by auto
    have "k + (if r = 3 then 1 else 2) \<le> i" using cases i q(1) unfolding q_def [symmetric] by auto
    then have "b' i = b i" by (rule b'(2))
    moreover have "k' + ((st + 1) mod 4 + length data + 3) div 4 * 3 \<le> i + (st + 1) mod 4 * 3 div 4"
      unfolding r(2) k'_def r_def [symmetric] q(2) using cases i q(1) unfolding q_def [symmetric] by auto
    ultimately show ?thesis using Cons.IH [of k' "st + 1" b'] b'(1) by simp
  qed
qed simp

lemma base32_decode_step:
  assumes "c \<ge> character CHR ''2''" "c \<le> character CHR ''Z''" "c \<noteq> character CHR ''=''"
    "base32_decode_table ! unat c \<noteq> 0xff"
  shows "\<exists>b'. base32_decode_loop (c # data) st b k =
      base32_decode_loop data (st + 1) b' (k + (if st mod 8 = 0 \<or> st mod 8 = 2 \<or> st mod 8 = 5 then 0 else 1)) \<and>
    (\<forall>i. i < k \<or> k + (if st mod 8 = 7 then 1 else 2) \<le> i \<longrightarrow> b' i = b i)"
  using assms by (simp add: not_less Let_def) (auto simp: not_less intro!: exI)

lemma base32_decode_frame:
  "k + (st mod 8 + length data + 7) div 8 * 5 \<le> i + st mod 8 * 5 div 8 \<Longrightarrow>
   snd (base32_decode_loop data st b k) i = b i"
proof (induction data arbitrary: st b k)
  case (Cons c data)
  show ?case
  proof (cases "c \<ge> character CHR ''2'' \<and> c \<le> character CHR ''Z'' \<and> c \<noteq> character CHR ''='' \<and>
      base32_decode_table ! unat c \<noteq> 0xff")
    case False
    then show ?thesis by (auto simp: not_le)
  next
    case True
    define r where "r = st mod 8"
    define k' where "k' = k + (if st mod 8 = 0 \<or> st mod 8 = 2 \<or> st mod 8 = 5 then 0 else 1)"
    obtain b' where b': "base32_decode_loop (c # data) st b k = base32_decode_loop data (st + 1) b' k'"
      "\<And>i. k + (if r = 7 then 1 else 2) \<le> i \<Longrightarrow> b' i = b i"
      using base32_decode_step [of c data st b k] True unfolding k'_def r_def by blast
    have r: "r < 8" "(st + 1) mod 8 = (if r = 7 then 0 else r + 1)"
      unfolding r_def by (simp, simp add: mod_Suc)
    have i: "k + (r + 1 + length data + 7) div 8 * 5 \<le> i + r * 5 div 8"
      using Cons.prems r_def by simp
    define q where "q = (r + 1 + length data + 7) div 8"
    have q: "1 \<le> q" "((if r = 7 then 0 else r + 1) + length data + 7) div 8 = (if r = 7 then q - 1 else q)"
      unfolding q_def by simp (cases "r = 7"; simp add: div_plus_8 add.commute [of _ "length data"]; simp add: ac_simps)
    have cases: "r = 0 \<or> r = 1 \<or> r = 2 \<or> r = 3 \<or> r = 4 \<or> r = 5 \<or> r = 6 \<or> r = 7" using r(1) by auto
    have "k + (if r = 7 then 1 else 2) \<le> i" using cases i q(1) unfolding q_def [symmetric] by auto
    then have "b' i = b i" by (rule b'(2))
    moreover have "k' + ((st + 1) mod 8 + length data + 7) div 8 * 5 \<le> i + (st + 1) mod 8 * 5 div 8"
      unfolding r(2) k'_def r_def [symmetric] q(2) using cases i q(1) unfolding q_def [symmetric] by auto
    ultimately show ?thesis using Cons.IH [of k' "st + 1" b'] b'(1) by simp
  qed
qed simp

text \<open>What the decoders accept.\<close>

lemma base64_inverse_table:
  "\<forall>i \<in> set [43 ..< 123]. base64_decode_table ! i = 0xff \<or>
     base64_encode_table ! unat (base64_decode_table ! i) = of_nat i \<and>
     unat (base64_decode_table ! i) < 64"
  by (simp add: base64_encode_table_def base64_decode_table_def upt_rec)

lemma base64_accepts:
  "c \<ge> character CHR ''+'' \<and> c \<le> character CHR ''z'' \<and> c \<noteq> character CHR ''='' \<and>
     base64_decode_table ! unat c \<noteq> 0xff \<longleftrightarrow> c \<in> set base64_encode_table"
proof
  assume c: "c \<ge> character CHR ''+'' \<and> c \<le> character CHR ''z'' \<and> c \<noteq> character CHR ''='' \<and>
     base64_decode_table ! unat c \<noteq> 0xff"
  then have i: "unat c \<in> set [43 ..< 123]" unfolding set_upt by (simp add: word_le_nat_alt)
  then have "base64_encode_table ! unat (base64_decode_table ! unat c) = c"
    "unat (base64_decode_table ! unat c) < length base64_encode_table"
    using bspec [OF base64_inverse_table i] c by (auto simp: base64_encode_table_def)
  then show "c \<in> set base64_encode_table" by (metis nth_mem)
next
  assume "c \<in> set base64_encode_table"
  moreover have "length base64_encode_table = 64" by (simp add: base64_encode_table_def)
  ultimately obtain i where i: "i \<in> set [0 ..< 64]" "base64_encode_table ! i = c"
    by (auto simp: in_set_conv_nth)
  from bspec [OF base64_table i(1)] show "c \<ge> character CHR ''+'' \<and> c \<le> character CHR ''z'' \<and>
      c \<noteq> character CHR ''='' \<and> base64_decode_table ! unat c \<noteq> 0xff"
    unfolding Let_def i(2) by (simp add: not_less)
qed

lemma base64_decode_result:
  "fst (base64_decode_loop data st b k) =
     (if set (takeWhile (\<lambda>c. c \<noteq> character CHR ''='') data) \<subseteq> set base64_encode_table then ENOERR else EINVAL)"
proof (induction data arbitrary: st b k)
  case (Cons c data)
  consider "c = character CHR ''=''" | "c \<noteq> character CHR ''=''" "c \<in> set base64_encode_table"
    | "c \<noteq> character CHR ''=''" "c \<notin> set base64_encode_table" by blast
  then show ?case
  proof cases
    case 2
    then obtain b' k' where "base64_decode_loop (c # data) st b k = base64_decode_loop data (st + 1) b' k'"
      using base64_decode_step [of c data st b k] base64_accepts [of c] by blast
    then show ?thesis using 2 Cons.IH [of "st + 1" b' k'] by simp
  next
    case 3
    then have "c < character CHR ''+'' \<or> character CHR ''z'' < c \<or> base64_decode_table ! unat c = 0xff"
      using base64_accepts [of c] by (auto simp: not_le)
    then have "fst (base64_decode_loop (c # data) st b k) = EINVAL" using 3(1) by auto
    then show ?thesis using 3 by simp
  qed (use base64_accepts [of "character CHR ''=''"] in auto)
qed simp

lemma base32_inverse_table:
  "\<forall>i \<in> set [50 ..< 91]. base32_decode_table ! i = 0xff \<or>
     base32_encode_table ! unat (base32_decode_table ! i) = of_nat i \<and>
     unat (base32_decode_table ! i) < 32"
  by (simp add: base32_encode_table_def base32_decode_table_def upt_rec)

lemma base32_accepts:
  "c \<ge> character CHR ''2'' \<and> c \<le> character CHR ''Z'' \<and> c \<noteq> character CHR ''='' \<and>
     base32_decode_table ! unat c \<noteq> 0xff \<longleftrightarrow> c \<in> set base32_encode_table"
proof
  assume c: "c \<ge> character CHR ''2'' \<and> c \<le> character CHR ''Z'' \<and> c \<noteq> character CHR ''='' \<and>
     base32_decode_table ! unat c \<noteq> 0xff"
  then have i: "unat c \<in> set [50 ..< 91]" unfolding set_upt by (simp add: word_le_nat_alt)
  then have "base32_encode_table ! unat (base32_decode_table ! unat c) = c"
    "unat (base32_decode_table ! unat c) < length base32_encode_table"
    using bspec [OF base32_inverse_table i] c by (auto simp: base32_encode_table_def)
  then show "c \<in> set base32_encode_table" by (metis nth_mem)
next
  assume "c \<in> set base32_encode_table"
  moreover have "length base32_encode_table = 32" by (simp add: base32_encode_table_def)
  ultimately obtain i where i: "i \<in> set [0 ..< 32]" "base32_encode_table ! i = c"
    by (auto simp: in_set_conv_nth)
  from bspec [OF base32_table i(1)] show "c \<ge> character CHR ''2'' \<and> c \<le> character CHR ''Z'' \<and>
      c \<noteq> character CHR ''='' \<and> base32_decode_table ! unat c \<noteq> 0xff"
    unfolding Let_def i(2) by (simp add: not_less)
qed

lemma base32_decode_result:
  "fst (base32_decode_loop data st b k) =
     (if set (takeWhile (\<lambda>c. c \<noteq> character CHR ''='') data) \<subseteq> set base32_encode_table then ENOERR else EINVAL)"
proof (induction data arbitrary: st b k)
  case (Cons c data)
  consider "c = character CHR ''=''" | "c \<noteq> character CHR ''=''" "c \<in> set base32_encode_table"
    | "c \<noteq> character CHR ''=''" "c \<notin> set base32_encode_table" by blast
  then show ?case
  proof cases
    case 2
    then obtain b' k' where "base32_decode_loop (c # data) st b k = base32_decode_loop data (st + 1) b' k'"
      using base32_decode_step [of c data st b k] base32_accepts [of c] by blast
    then show ?thesis using 2 Cons.IH [of "st + 1" b' k'] by simp
  next
    case 3
    then have "c < character CHR ''2'' \<or> character CHR ''Z'' < c \<or> base32_decode_table ! unat c = 0xff"
      using base32_accepts [of c] by (auto simp: not_le)
    then have "fst (base32_decode_loop (c # data) st b k) = EINVAL" using 3(1) by auto
    then show ?thesis using 3 by simp
  qed (use base32_accepts [of "character CHR ''=''"] in auto)
qed simp

section \<open>Properties\<close>

text \<open>
  C30: The base 64 and base 32 texts have exactly the lengths announced (with the final NUL), and decoding a
  base 64, base 32 or ASCII 85 text without the NUL gives the message back: it is written at the front of the buffer, followed by one zero byte (base
  64 and 32) or by zero bytes up to a multiple of four (ASCII 85) when the last group is not full, and
  nothing else of the buffer changes. The memory behind a message does not influence its text.
\<close>

theorem codec_roundtrip:
  "length (base64_encode s) = base64_encode_length (length s) \<and>
   base64_decode buf (butlast (base64_encode s)) = (ENOERR, put buf 0 (s @ pad_one (length s mod 3))) \<and>
   length (base32_encode s) = base32_encode_length (length s) \<and>
   base32_decode buf (butlast (base32_encode s)) = (ENOERR, put buf 0 (s @ pad_one (length s mod 5))) \<and>
   ascii85_decode buf (butlast (ascii85_encode (put junk 0 s) (length s))) =
     (ENOERR, put buf 0 (s @ pad_word (length s mod 4)))"
proof -
  have "map (put junk 0 s) [0 ..< 0 + length s] = s" by (rule nth_equalityI) (simp_all add: put_def)
  then have "ascii85_encode_loop (put junk 0 s) 0 (length s) = ascii85_text s"
    by (simp only: ascii85_encode_text)
  then show ?thesis
    by (simp add: base64_encode_def base32_encode_def ascii85_encode_def base64_decode_def base32_decode_def
      ascii85_decode_def base64_encode_length_def base32_encode_length_def length_base64_loop
      length_base32_loop base64.dec_enc base32.dec_enc ascii85.dec_enc)
qed

text \<open>
  C38: The base 64 and 32 decoders report a character outside their alphabet, up to the first \<open>=\<close>, and
  only that; whatever the text, they write only within the length announced for it. The length
  \<^verbatim>\<open>ascii85_encode_length\<close> announces is too small: the encoder overruns a buffer of that size.
\<close>

theorem codec_checks_and_bounds:
  "fst (base64_decode buf t) =
     (if set (takeWhile (\<lambda>c. c \<noteq> character CHR ''='') t) \<subseteq> set base64_encode_table then ENOERR else EINVAL) \<and>
   {i. snd (base64_decode buf t) i \<noteq> buf i} \<subseteq> {..< base64_decode_length (length t)} \<and>
   fst (base32_decode buf t) =
     (if set (takeWhile (\<lambda>c. c \<noteq> character CHR ''='') t) \<subseteq> set base32_encode_table then ENOERR else EINVAL) \<and>
   {i. snd (base32_decode buf t) i \<noteq> buf i} \<subseteq> {..< base32_decode_length (length t)} \<and>
   ascii85_encode_length (\<lambda>i. 1) 8 = 7 \<and> length (ascii85_encode (\<lambda>i. 1) 8) = 11"
proof (intro conjI)
  show "{i. snd (base64_decode buf t) i \<noteq> buf i} \<subseteq> {..< base64_decode_length (length t)}"
    using base64_decode_frame [of 0 0 t _ buf]
    unfolding base64_decode_def base64_decode_length_def by (simp add: subset_eq) (meson not_less)
  show "{i. snd (base32_decode buf t) i \<noteq> buf i} \<subseteq> {..< base32_decode_length (length t)}"
    using base32_decode_frame [of 0 0 t _ buf]
    unfolding base32_decode_def base32_decode_length_def by (simp add: subset_eq) (meson not_less)
  have "ascii85_mask 8 = 0" "ascii85_mask 4 = - 1"
    by (rule bit_word_eqI, auto simp: ascii85_mask_def bit_simps)+
  then show "ascii85_encode_length (\<lambda>i. 1) 8 = 7"
    by (simp add: ascii85_encode_length_def ascii85_encode_length_loop.simps get_be32_def)
  show "length (ascii85_encode (\<lambda>i. 1) 8) = 11"
    by (simp add: ascii85_encode_def ascii85_encode_loop.simps get_be32_def ascii85_group_def Let_def)
qed (simp_all only: base64_decode_def base32_decode_def base64_decode_result base32_decode_result)

end
