(* ===== verification/Bitrev.thy ===== *)
theory Bitrev
  imports Crc_Register
begin

text \<open>
  Bit reversal (\<^verbatim>\<open>include/bitrev.h\<close>, \<^verbatim>\<open>lib/bitrev.c\<close>) and population count and parity
  (\<^verbatim>\<open>include/popcount.h\<close>, \<^verbatim>\<open>lib/popcount.c\<close>), each in its two forms: for
  compile-time constants by shifts and masks, otherwise by a table of bytes. The macros choose
  between them by \<^verbatim>\<open>__builtin_constant_p\<close>, so the two must agree.
\<close>

section \<open>Bit reversal\<close>

definition bitrev_byte_table :: "byte list" where
  "bitrev_byte_table = [
    0x00, 0x80, 0x40, 0xc0, 0x20, 0xa0, 0x60, 0xe0, 0x10, 0x90, 0x50, 0xd0, 0x30, 0xb0, 0x70, 0xf0,
    0x08, 0x88, 0x48, 0xc8, 0x28, 0xa8, 0x68, 0xe8, 0x18, 0x98, 0x58, 0xd8, 0x38, 0xb8, 0x78, 0xf8,
    0x04, 0x84, 0x44, 0xc4, 0x24, 0xa4, 0x64, 0xe4, 0x14, 0x94, 0x54, 0xd4, 0x34, 0xb4, 0x74, 0xf4,
    0x0c, 0x8c, 0x4c, 0xcc, 0x2c, 0xac, 0x6c, 0xec, 0x1c, 0x9c, 0x5c, 0xdc, 0x3c, 0xbc, 0x7c, 0xfc,
    0x02, 0x82, 0x42, 0xc2, 0x22, 0xa2, 0x62, 0xe2, 0x12, 0x92, 0x52, 0xd2, 0x32, 0xb2, 0x72, 0xf2,
    0x0a, 0x8a, 0x4a, 0xca, 0x2a, 0xaa, 0x6a, 0xea, 0x1a, 0x9a, 0x5a, 0xda, 0x3a, 0xba, 0x7a, 0xfa,
    0x06, 0x86, 0x46, 0xc6, 0x26, 0xa6, 0x66, 0xe6, 0x16, 0x96, 0x56, 0xd6, 0x36, 0xb6, 0x76, 0xf6,
    0x0e, 0x8e, 0x4e, 0xce, 0x2e, 0xae, 0x6e, 0xee, 0x1e, 0x9e, 0x5e, 0xde, 0x3e, 0xbe, 0x7e, 0xfe,
    0x01, 0x81, 0x41, 0xc1, 0x21, 0xa1, 0x61, 0xe1, 0x11, 0x91, 0x51, 0xd1, 0x31, 0xb1, 0x71, 0xf1,
    0x09, 0x89, 0x49, 0xc9, 0x29, 0xa9, 0x69, 0xe9, 0x19, 0x99, 0x59, 0xd9, 0x39, 0xb9, 0x79, 0xf9,
    0x05, 0x85, 0x45, 0xc5, 0x25, 0xa5, 0x65, 0xe5, 0x15, 0x95, 0x55, 0xd5, 0x35, 0xb5, 0x75, 0xf5,
    0x0d, 0x8d, 0x4d, 0xcd, 0x2d, 0xad, 0x6d, 0xed, 0x1d, 0x9d, 0x5d, 0xdd, 0x3d, 0xbd, 0x7d, 0xfd,
    0x03, 0x83, 0x43, 0xc3, 0x23, 0xa3, 0x63, 0xe3, 0x13, 0x93, 0x53, 0xd3, 0x33, 0xb3, 0x73, 0xf3,
    0x0b, 0x8b, 0x4b, 0xcb, 0x2b, 0xab, 0x6b, 0xeb, 0x1b, 0x9b, 0x5b, 0xdb, 0x3b, 0xbb, 0x7b, 0xfb,
    0x07, 0x87, 0x47, 0xc7, 0x27, 0xa7, 0x67, 0xe7, 0x17, 0x97, 0x57, 0xd7, 0x37, 0xb7, 0x77, 0xf7,
    0x0f, 0x8f, 0x4f, 0xcf, 0x2f, 0xaf, 0x6f, 0xef, 0x1f, 0x9f, 0x5f, 0xdf, 0x3f, 0xbf, 0x7f, 0xff]"

definition bitrev8_constant :: "8 word \<Rightarrow> 8 word" where
  "bitrev8_constant v =
    push_bit 7 (v AND 0x1) OR
    push_bit 5 (v AND 0x2) OR
    push_bit 3 (v AND 0x4) OR
    push_bit 1 (v AND 0x8) OR
    drop_bit 1 (v AND 0x10) OR
    drop_bit 3 (v AND 0x20) OR
    drop_bit 5 (v AND 0x40) OR
    drop_bit 7 (v AND 0x80)"

definition bitrev16_constant :: "16 word \<Rightarrow> 16 word" where
  "bitrev16_constant v =
    push_bit 15 (v AND 0x1) OR
    push_bit 13 (v AND 0x2) OR
    push_bit 11 (v AND 0x4) OR
    push_bit 9 (v AND 0x8) OR
    push_bit 7 (v AND 0x10) OR
    push_bit 5 (v AND 0x20) OR
    push_bit 3 (v AND 0x40) OR
    push_bit 1 (v AND 0x80) OR
    drop_bit 1 (v AND 0x100) OR
    drop_bit 3 (v AND 0x200) OR
    drop_bit 5 (v AND 0x400) OR
    drop_bit 7 (v AND 0x800) OR
    drop_bit 9 (v AND 0x1000) OR
    drop_bit 11 (v AND 0x2000) OR
    drop_bit 13 (v AND 0x4000) OR
    drop_bit 15 (v AND 0x8000)"

definition bitrev32_constant :: "32 word \<Rightarrow> 32 word" where
  "bitrev32_constant v =
    push_bit 31 (v AND 0x1) OR
    push_bit 29 (v AND 0x2) OR
    push_bit 27 (v AND 0x4) OR
    push_bit 25 (v AND 0x8) OR
    push_bit 23 (v AND 0x10) OR
    push_bit 21 (v AND 0x20) OR
    push_bit 19 (v AND 0x40) OR
    push_bit 17 (v AND 0x80) OR
    push_bit 15 (v AND 0x100) OR
    push_bit 13 (v AND 0x200) OR
    push_bit 11 (v AND 0x400) OR
    push_bit 9 (v AND 0x800) OR
    push_bit 7 (v AND 0x1000) OR
    push_bit 5 (v AND 0x2000) OR
    push_bit 3 (v AND 0x4000) OR
    push_bit 1 (v AND 0x8000) OR
    drop_bit 1 (v AND 0x10000) OR
    drop_bit 3 (v AND 0x20000) OR
    drop_bit 5 (v AND 0x40000) OR
    drop_bit 7 (v AND 0x80000) OR
    drop_bit 9 (v AND 0x100000) OR
    drop_bit 11 (v AND 0x200000) OR
    drop_bit 13 (v AND 0x400000) OR
    drop_bit 15 (v AND 0x800000) OR
    drop_bit 17 (v AND 0x1000000) OR
    drop_bit 19 (v AND 0x2000000) OR
    drop_bit 21 (v AND 0x4000000) OR
    drop_bit 25 (v AND 0x8000000) OR
    drop_bit 23 (v AND 0x10000000) OR
    drop_bit 27 (v AND 0x20000000) OR
    drop_bit 29 (v AND 0x40000000) OR
    drop_bit 31 (v AND 0x80000000)"

definition bitrev64_constant :: "64 word \<Rightarrow> 64 word" where
  "bitrev64_constant v =
    push_bit 63 (v AND 0x1) OR
    push_bit 61 (v AND 0x2) OR
    push_bit 59 (v AND 0x4) OR
    push_bit 57 (v AND 0x8) OR
    push_bit 55 (v AND 0x10) OR
    push_bit 53 (v AND 0x20) OR
    push_bit 51 (v AND 0x40) OR
    push_bit 49 (v AND 0x80) OR
    push_bit 47 (v AND 0x100) OR
    push_bit 45 (v AND 0x200) OR
    push_bit 43 (v AND 0x400) OR
    push_bit 41 (v AND 0x800) OR
    push_bit 39 (v AND 0x1000) OR
    push_bit 37 (v AND 0x2000) OR
    push_bit 35 (v AND 0x4000) OR
    push_bit 33 (v AND 0x8000) OR
    push_bit 31 (v AND 0x10000) OR
    push_bit 29 (v AND 0x20000) OR
    push_bit 27 (v AND 0x40000) OR
    push_bit 25 (v AND 0x80000) OR
    push_bit 23 (v AND 0x100000) OR
    push_bit 21 (v AND 0x200000) OR
    push_bit 19 (v AND 0x400000) OR
    push_bit 17 (v AND 0x800000) OR
    push_bit 15 (v AND 0x1000000) OR
    push_bit 13 (v AND 0x2000000) OR
    push_bit 11 (v AND 0x4000000) OR
    push_bit 9 (v AND 0x8000000) OR
    push_bit 7 (v AND 0x10000000) OR
    push_bit 5 (v AND 0x20000000) OR
    push_bit 3 (v AND 0x40000000) OR
    push_bit 1 (v AND 0x80000000) OR
    drop_bit 1 (v AND 0x100000000) OR
    drop_bit 3 (v AND 0x200000000) OR
    drop_bit 5 (v AND 0x400000000) OR
    drop_bit 7 (v AND 0x800000000) OR
    drop_bit 9 (v AND 0x1000000000) OR
    drop_bit 11 (v AND 0x2000000000) OR
    drop_bit 13 (v AND 0x4000000000) OR
    drop_bit 15 (v AND 0x8000000000) OR
    drop_bit 17 (v AND 0x10000000000) OR
    drop_bit 19 (v AND 0x20000000000) OR
    drop_bit 21 (v AND 0x40000000000) OR
    drop_bit 25 (v AND 0x80000000000) OR
    drop_bit 23 (v AND 0x100000000000) OR
    drop_bit 27 (v AND 0x200000000000) OR
    drop_bit 29 (v AND 0x400000000000) OR
    drop_bit 31 (v AND 0x800000000000) OR
    drop_bit 33 (v AND 0x1000000000000) OR
    drop_bit 35 (v AND 0x2000000000000) OR
    drop_bit 37 (v AND 0x4000000000000) OR
    drop_bit 39 (v AND 0x8000000000000) OR
    drop_bit 41 (v AND 0x10000000000000) OR
    drop_bit 43 (v AND 0x20000000000000) OR
    drop_bit 45 (v AND 0x40000000000000) OR
    drop_bit 47 (v AND 0x80000000000000) OR
    drop_bit 49 (v AND 0x100000000000000) OR
    drop_bit 51 (v AND 0x200000000000000) OR
    drop_bit 53 (v AND 0x400000000000000) OR
    drop_bit 55 (v AND 0x800000000000000) OR
    drop_bit 57 (v AND 0x1000000000000000) OR
    drop_bit 59 (v AND 0x2000000000000000) OR
    drop_bit 61 (v AND 0x4000000000000000) OR
    drop_bit 63 (v AND 0x8000000000000000)"

definition bitrev8_dynamic :: "8 word \<Rightarrow> 8 word" where
  "bitrev8_dynamic v = bitrev_byte_table ! unat v"

definition bitrev16_dynamic :: "16 word \<Rightarrow> 16 word" where
  "bitrev16_dynamic v = push_bit 8 (ucast (bitrev8_dynamic (ucast (v AND 0xff)))) OR
     ucast (bitrev8_dynamic (ucast (drop_bit 8 v)))"

definition bitrev32_dynamic :: "32 word \<Rightarrow> 32 word" where
  "bitrev32_dynamic v = push_bit 16 (ucast (bitrev16_dynamic (ucast (v AND 0xffff)))) OR
     ucast (bitrev16_dynamic (ucast (drop_bit 16 v)))"

definition bitrev64_dynamic :: "64 word \<Rightarrow> 64 word" where
  "bitrev64_dynamic v = push_bit 32 (ucast (bitrev32_dynamic (ucast (v AND 0xffffffff)))) OR
     ucast (bitrev32_dynamic (ucast (drop_bit 32 v)))"

section \<open>Population count and parity\<close>

definition popcount_table :: "nat list" where
  "popcount_table = [
    0, 1, 1, 2, 1, 2, 2, 3, 1, 2, 2, 3, 2, 3, 3, 4,
    1, 2, 2, 3, 2, 3, 3, 4, 2, 3, 3, 4, 3, 4, 4, 5,
    1, 2, 2, 3, 2, 3, 3, 4, 2, 3, 3, 4, 3, 4, 4, 5,
    2, 3, 3, 4, 3, 4, 4, 5, 3, 4, 4, 5, 4, 5, 5, 6,
    1, 2, 2, 3, 2, 3, 3, 4, 2, 3, 3, 4, 3, 4, 4, 5,
    2, 3, 3, 4, 3, 4, 4, 5, 3, 4, 4, 5, 4, 5, 5, 6,
    2, 3, 3, 4, 3, 4, 4, 5, 3, 4, 4, 5, 4, 5, 5, 6,
    3, 4, 4, 5, 4, 5, 5, 6, 4, 5, 5, 6, 5, 6, 6, 7,
    1, 2, 2, 3, 2, 3, 3, 4, 2, 3, 3, 4, 3, 4, 4, 5,
    2, 3, 3, 4, 3, 4, 4, 5, 3, 4, 4, 5, 4, 5, 5, 6,
    2, 3, 3, 4, 3, 4, 4, 5, 3, 4, 4, 5, 4, 5, 5, 6,
    3, 4, 4, 5, 4, 5, 5, 6, 4, 5, 5, 6, 5, 6, 6, 7,
    2, 3, 3, 4, 3, 4, 4, 5, 3, 4, 4, 5, 4, 5, 5, 6,
    3, 4, 4, 5, 4, 5, 5, 6, 4, 5, 5, 6, 5, 6, 6, 7,
    3, 4, 4, 5, 4, 5, 5, 6, 4, 5, 5, 6, 5, 6, 6, 7,
    4, 5, 5, 6, 5, 6, 6, 7, 5, 6, 6, 7, 6, 7, 7, 8]"

definition popparity_table :: "nat list" where
  "popparity_table = [
    0, 1, 1, 0, 1, 0, 0, 1, 1, 0, 0, 1, 0, 1, 1, 0,
    1, 0, 0, 1, 0, 1, 1, 0, 0, 1, 1, 0, 1, 0, 0, 1,
    1, 0, 0, 1, 0, 1, 1, 0, 0, 1, 1, 0, 1, 0, 0, 1,
    0, 1, 1, 0, 1, 0, 0, 1, 1, 0, 0, 1, 0, 1, 1, 0,
    1, 0, 0, 1, 0, 1, 1, 0, 0, 1, 1, 0, 1, 0, 0, 1,
    0, 1, 1, 0, 1, 0, 0, 1, 1, 0, 0, 1, 0, 1, 1, 0,
    0, 1, 1, 0, 1, 0, 0, 1, 1, 0, 0, 1, 0, 1, 1, 0,
    1, 0, 0, 1, 0, 1, 1, 0, 0, 1, 1, 0, 1, 0, 0, 1,
    1, 0, 0, 1, 0, 1, 1, 0, 0, 1, 1, 0, 1, 0, 0, 1,
    0, 1, 1, 0, 1, 0, 0, 1, 1, 0, 0, 1, 0, 1, 1, 0,
    0, 1, 1, 0, 1, 0, 0, 1, 1, 0, 0, 1, 0, 1, 1, 0,
    1, 0, 0, 1, 0, 1, 1, 0, 0, 1, 1, 0, 1, 0, 0, 1,
    0, 1, 1, 0, 1, 0, 0, 1, 1, 0, 0, 1, 0, 1, 1, 0,
    1, 0, 0, 1, 0, 1, 1, 0, 0, 1, 1, 0, 1, 0, 0, 1,
    1, 0, 0, 1, 0, 1, 1, 0, 0, 1, 1, 0, 1, 0, 0, 1,
    0, 1, 1, 0, 1, 0, 0, 1, 1, 0, 0, 1, 0, 1, 1, 0]"

definition popcount8_const :: "8 word \<Rightarrow> nat" where
  "popcount8_const value =
    (let value = (value AND 0x55) + (drop_bit 1 value AND 0x55);
         value = (value AND 0x33) + (drop_bit 2 value AND 0x33);
         value = (value AND 0xf) + (drop_bit 4 value AND 0xf)
     in unat value)"

definition popcount16_const :: "16 word \<Rightarrow> nat" where
  "popcount16_const value =
    (let value = (value AND 0x5555) + (drop_bit 1 value AND 0x5555);
         value = (value AND 0x3333) + (drop_bit 2 value AND 0x3333);
         value = (value AND 0xf0f) + (drop_bit 4 value AND 0xf0f);
         value = (value AND 0xff) + (drop_bit 8 value AND 0xff)
     in unat value)"

definition popcount32_const :: "32 word \<Rightarrow> nat" where
  "popcount32_const value =
    (let value = (value AND 0x55555555) + (drop_bit 1 value AND 0x55555555);
         value = (value AND 0x33333333) + (drop_bit 2 value AND 0x33333333);
         value = (value AND 0xf0f0f0f) + (drop_bit 4 value AND 0xf0f0f0f);
         value = (value AND 0xff00ff) + (drop_bit 8 value AND 0xff00ff);
         value = (value AND 0xffff) + (drop_bit 16 value AND 0xffff)
     in unat value)"

definition popcount64_const :: "64 word \<Rightarrow> nat" where
  "popcount64_const value =
    (let value = (value AND 0x5555555555555555) + (drop_bit 1 value AND 0x5555555555555555);
         value = (value AND 0x3333333333333333) + (drop_bit 2 value AND 0x3333333333333333);
         value = (value AND 0xf0f0f0f0f0f0f0f) + (drop_bit 4 value AND 0xf0f0f0f0f0f0f0f);
         value = (value AND 0xff00ff00ff00ff) + (drop_bit 8 value AND 0xff00ff00ff00ff);
         value = (value AND 0xffff0000ffff) + (drop_bit 16 value AND 0xffff0000ffff);
         value = (value AND 0xffffffff) + (drop_bit 32 value AND 0xffffffff)
     in unat value)"

definition popparity8_const :: "8 word \<Rightarrow> bool" where
  "popparity8_const value =
    (let value = value XOR drop_bit 4 value;
         value = value AND 0xf
     in bit (drop_bit (unat value) (0x6996 :: 32 word)) 0)"

definition popparity16_const :: "16 word \<Rightarrow> bool" where
  "popparity16_const value =
    (let value = value XOR drop_bit 8 value;
         value = value XOR drop_bit 4 value;
         value = value AND 0xf
     in bit (drop_bit (unat value) (0x6996 :: 32 word)) 0)"

definition popparity32_const :: "32 word \<Rightarrow> bool" where
  "popparity32_const value =
    (let value = value XOR drop_bit 16 value;
         value = value XOR drop_bit 8 value;
         value = value XOR drop_bit 4 value;
         value = value AND 0xf
     in bit (drop_bit (unat value) (0x6996 :: 32 word)) 0)"

definition popparity64_const :: "64 word \<Rightarrow> bool" where
  "popparity64_const value =
    (let value = value XOR drop_bit 32 value;
         value = value XOR drop_bit 16 value;
         value = value XOR drop_bit 8 value;
         value = value XOR drop_bit 4 value;
         value = value AND 0xf
     in bit (drop_bit (unat value) (0x6996 :: 32 word)) 0)"

definition popcount8_dynamic :: "8 word \<Rightarrow> nat" where
  "popcount8_dynamic value = popcount_table ! unat value"

definition popparity8_dynamic :: "8 word \<Rightarrow> bool" where
  "popparity8_dynamic value = (popparity_table ! unat value \<noteq> 0)"

definition popcount16_dynamic :: "16 word \<Rightarrow> nat" where
  "popcount16_dynamic value = popcount8_dynamic (ucast (drop_bit 8 value)) + popcount8_dynamic (ucast value)"

definition popparity16_dynamic :: "16 word \<Rightarrow> bool" where
  "popparity16_dynamic value =
     odd (of_bool (popparity8_dynamic (ucast value)) + of_bool (popparity8_dynamic (ucast (drop_bit 8 value))) :: nat)"

definition popcount32_dynamic :: "32 word \<Rightarrow> nat" where
  "popcount32_dynamic value = popcount16_dynamic (ucast (drop_bit 16 value)) + popcount16_dynamic (ucast value)"

definition popparity32_dynamic :: "32 word \<Rightarrow> bool" where
  "popparity32_dynamic value =
     odd (of_bool (popparity16_dynamic (ucast value)) + of_bool (popparity16_dynamic (ucast (drop_bit 16 value))) :: nat)"

definition popcount64_dynamic :: "64 word \<Rightarrow> nat" where
  "popcount64_dynamic value = popcount32_dynamic (ucast (drop_bit 32 value)) + popcount32_dynamic (ucast value)"

definition popparity64_dynamic :: "64 word \<Rightarrow> bool" where
  "popparity64_dynamic value =
     odd (of_bool (popparity32_dynamic (ucast value)) + of_bool (popparity32_dynamic (ucast (drop_bit 32 value))) :: nat)"

section \<open>Reversal\<close>

text \<open>The table, from its linearity: an entry is the exclusive or of those of its bits.\<close>

lemma linear_word_reverse: "linear_word word_reverse"
  unfolding linear_word_def by (auto intro!: bit_word_eqI simp: bit_simps)

lemma bitrev_byte_table_eq: "bitrev_byte_table = map (\<lambda>i. word_reverse (of_nat i)) [0 ..< 256]"
proof -
  have "map word_reverse [128, 64, 32, 16, 8, 4, 2, 1] = [1, 2, 4, 8, 16, 32, 64, 128 :: byte]"
    by (simp add: word_reverse_def upt_rec)
  then have "xor_table (map word_reverse [128, 64, 32, 16, 8, 4, 2, 1]) = bitrev_byte_table"
    by (simp only:) (simp add: bitrev_byte_table_def)
  then show ?thesis
    by (subst (asm) xor_table_linear) (simp_all add: linear_word_reverse)
qed

lemma bitrev8_dynamic_eq: "bitrev8_dynamic v = word_reverse v"
  using unsigned_less [of v, where ?'a = nat] by (simp add: bitrev8_dynamic_def bitrev_byte_table_eq)

lemma reverse_halves:
  fixes v :: "'a::len word"
  assumes "LENGTH('a) = LENGTH('b) + LENGTH('b::len)"
  shows "push_bit LENGTH('b) (ucast (word_reverse (ucast v :: 'b word)) :: 'a word) OR
    ucast (word_reverse (ucast (drop_bit LENGTH('b) v) :: 'b word)) = word_reverse v"
proof (rule bit_word_eqI)
  fix i assume i: "i < LENGTH('a)"
  show "bit (push_bit LENGTH('b) (ucast (word_reverse (ucast v :: 'b word)) :: 'a word) OR
      ucast (word_reverse (ucast (drop_bit LENGTH('b) v) :: 'b word))) i = bit (word_reverse v) i"
  proof (cases "i < LENGTH('b)")
    case True
    then have "LENGTH('b) + (LENGTH('b) - Suc i) = LENGTH('a) - Suc i" using assms by simp
    then show ?thesis using True i assms by (simp add: bit_simps)
  next
    case False
    then have "LENGTH('b) - Suc (i - LENGTH('b)) = LENGTH('a) - Suc i" using i assms by simp
    then show ?thesis using False i assms by (auto simp: bit_simps dest: bit_imp_le_length)
  qed
qed

lemma ucast_low:
  "ucast (v AND 0xff) = (ucast (v :: 16 word) :: 8 word)"
  "ucast (w AND 0xffff) = (ucast (w :: 32 word) :: 16 word)"
  "ucast (x AND 0xffffffff) = (ucast (x :: 64 word) :: 32 word)"
proof -
  have m: "(0xff :: 16 word) = mask 8" "(0xffff :: 32 word) = mask 16" "(0xffffffff :: 64 word) = mask 32"
    by (simp_all add: mask_numeral)
  show "ucast (v AND 0xff) = (ucast (v :: 16 word) :: 8 word)"
    "ucast (w AND 0xffff) = (ucast (w :: 32 word) :: 16 word)"
    "ucast (x AND 0xffffffff) = (ucast (x :: 64 word) :: 32 word)"
    unfolding m by (rule bit_word_eqI, auto simp: bit_simps)+
qed

lemma bitrev16_dynamic_eq: "bitrev16_dynamic v = word_reverse v"
  unfolding bitrev16_dynamic_def ucast_low bitrev8_dynamic_eq
  using reverse_halves [where ?'a = 16 and ?'b = 8] by simp

lemma bitrev32_dynamic_eq: "bitrev32_dynamic v = word_reverse v"
  unfolding bitrev32_dynamic_def ucast_low bitrev16_dynamic_eq
  using reverse_halves [where ?'a = 32 and ?'b = 16] by simp

lemma bitrev64_dynamic_eq: "bitrev64_dynamic v = word_reverse v"
  unfolding bitrev64_dynamic_def ucast_low bitrev32_dynamic_eq
  using reverse_halves [where ?'a = 64 and ?'b = 32] by simp

section \<open>Population count\<close>

text \<open>Numbers as lists of fields of \<open>k\<close> bits, the first the lowest.\<close>

fun fields_value :: "nat \<Rightarrow> nat list \<Rightarrow> nat" where
  "fields_value k [] = 0"
| "fields_value k (f # fs) = f + 2 ^ k * fields_value k fs"

fun add_pairs :: "nat list \<Rightarrow> nat list" where
  "add_pairs (x # y # fs) = (x + y) # add_pairs fs"
| "add_pairs fs = fs"

lemma add_pairs_facts:
  "length (add_pairs fs) = (length fs + 1) div 2"
  "sum_list (add_pairs fs) = sum_list fs"
  "\<forall>f \<in> set fs. f \<le> k \<Longrightarrow> \<forall>f \<in> set (add_pairs fs). f \<le> 2 * k"
  by (induction fs rule: add_pairs.induct) auto

lemma fields_value_less: "\<forall>f \<in> set fs. f < 2 ^ k \<Longrightarrow> fields_value k fs < 2 ^ (k * length fs)"
proof (induction fs)
  case (Cons f fs)
  then have "fields_value k fs + 1 \<le> 2 ^ (k * length fs)" by simp
  then have "2 ^ k * (fields_value k fs + 1) \<le> 2 ^ k * 2 ^ (k * length fs)" by (rule mult_le_mono2)
  moreover have "f < 2 ^ k" using Cons.prems by simp
  ultimately show ?case by (simp add: power_add algebra_simps)
qed simp

lemma bit_add_block:
  fixes a :: nat
  assumes "a < 2 ^ m"
  shows "bit (a + 2 ^ m * A) i \<longleftrightarrow> (if i < m then bit a i else bit A (i - m))"
proof (cases "i < m")
  case True
  then obtain j where j: "m = i + Suc j" using less_imp_Suc_add by (metis add_Suc_right)
  then have "(2 :: nat) ^ m * A = 2 ^ i * (2 * (2 ^ j * A))" by (simp add: power_add)
  then have "(a + 2 ^ m * A) div 2 ^ i = (a + 2 ^ i * (2 * (2 ^ j * A))) div 2 ^ i" by (simp only:)
  also have "\<dots> = a div 2 ^ i + 2 * (2 ^ j * A)" by simp
  finally have "(a + 2 ^ m * A) div 2 ^ i = a div 2 ^ i + 2 * (2 ^ j * A)" .
  then show ?thesis using True by (simp add: bit_iff_odd)
next
  case False
  then obtain j where j: "i = m + j" using le_Suc_ex by (metis not_less)
  have "(a + 2 ^ m * A) div 2 ^ i = (a + 2 ^ m * A) div 2 ^ m div 2 ^ j"
    unfolding j power_add by (rule div_mult2_eq)
  also have "(a + 2 ^ m * A) div 2 ^ m = A" using assms by simp
  finally show ?thesis using j by (simp add: bit_iff_odd)
qed

lemma and_blocks:
  fixes x y :: nat
  assumes "x < 2 ^ m" "y < 2 ^ m"
  shows "(x + 2 ^ m * X) AND (y + 2 ^ m * Y) = (x AND y) + 2 ^ m * (X AND Y)"
proof -
  have "take_bit m (x AND y) = x AND y" using assms by (simp add: take_bit_nat_eq_self)
  then have "x AND y < 2 ^ m" by (metis take_bit_nat_less_exp)
  then show ?thesis using assms by (intro bit_eqI) (auto simp: bit_add_block bit_and_iff)
qed

text \<open>One step of the count: neighbouring fields are added.\<close>

abbreviation field_masks :: "nat \<Rightarrow> nat \<Rightarrow> nat" where
  "field_masks k n \<equiv> fields_value (2 * k) (replicate n (2 ^ k - 1))"

lemma field_masks_eq: "(2 ^ k + 1) * field_masks k n + 1 = 2 ^ (2 * k * n)"
proof (induction n)
  case (Suc n)
  have "((2 :: nat) ^ k + 1) * (2 ^ k - 1) + 1 = 2 ^ k * 2 ^ k"
    by (simp add: algebra_simps diff_mult_distrib2)
  then have "((2 :: nat) ^ k + 1) * (2 ^ k - 1) + 1 = 2 ^ (2 * k)" by (simp add: mult_2 power_add)
  then have "(2 ^ k + 1) * field_masks k (Suc n) + 1 = 2 ^ (2 * k) + 2 ^ (2 * k) * ((2 ^ k + 1) * field_masks k n)"
    by (simp add: algebra_simps)
  also have "\<dots> = 2 ^ (2 * k) * ((2 ^ k + 1) * field_masks k n + 1)" by (simp add: algebra_simps)
  also have "\<dots> = 2 ^ (2 * k * Suc n)" unfolding Suc.IH by (simp add: power_add)
  finally show ?case .
qed simp

lemma add_pairs_value:
  assumes "length fs = 2 * n" "\<forall>f \<in> set fs. f < 2 ^ k"
  shows "(fields_value k fs AND field_masks k n) + (fields_value k fs div 2 ^ k AND field_masks k n) =
    fields_value (2 * k) (add_pairs fs)"
  using assms
proof (induction fs arbitrary: n rule: add_pairs.induct)
  case (1 x y fs)
  obtain n' where n: "n = Suc n'" using "1.prems"(1) by (cases n) auto
  let ?F = "fields_value k fs" and ?M = "field_masks k n'"
  have b: "x < 2 ^ k" "y < 2 ^ k" using "1.prems"(2) by auto
  have k2: "(2 :: nat) ^ (2 * k) = 2 ^ k * 2 ^ k" by (simp add: mult_2 power_add)
  have l: "u + 2 ^ k * v < 2 ^ (2 * k)" if "u < 2 ^ k" "v < 2 ^ k" for u v :: nat
    using fields_value_less [of "[u, v]" k] that by (simp add: mult_2)
  have m: "(2 :: nat) ^ k - 1 < 2 ^ (2 * k)" using l [of "2 ^ k - 1" 0] by simp
  have low: "(u + 2 ^ k * v) AND (2 ^ k - 1) = u" if "u < 2 ^ k" for u v :: nat
    using that unfolding mask_eq_exp_minus_1 [symmetric] take_bit_eq_mask [symmetric] by (simp add: take_bit_eq_mod)
  have e: "fields_value k (x # y # fs) = (x + 2 ^ k * y) + 2 ^ (2 * k) * ?F"
    unfolding fields_value.simps k2 by (simp add: algebra_simps)
  have o: "fields_value k (x # y # fs) div 2 ^ k = (y + 2 ^ k * (?F mod 2 ^ k)) + 2 ^ (2 * k) * (?F div 2 ^ k)"
  proof -
    have "fields_value k (x # y # fs) div 2 ^ k = y + 2 ^ k * ?F" using b by simp
    also have "2 ^ k * ?F = 2 ^ k * (?F mod 2 ^ k + 2 ^ k * (?F div 2 ^ k))" by (simp only: mod_mult_div_eq)
    finally show ?thesis by (simp only: k2 distrib_left mult.assoc add.assoc)
  qed
  have M: "field_masks k n = (2 ^ k - 1) + 2 ^ (2 * k) * ?M" by (simp add: n)
  have "fields_value k (x # y # fs) AND field_masks k n = x + 2 ^ (2 * k) * (?F AND ?M)"
    unfolding e M and_blocks [OF l [OF b] m] low [OF b(1)] ..
  moreover have "fields_value k (x # y # fs) div 2 ^ k AND field_masks k n = y + 2 ^ (2 * k) * (?F div 2 ^ k AND ?M)"
    unfolding o M by (subst and_blocks [OF l m]) (use b low [OF b(2)] in simp_all)
  moreover have "(?F AND ?M) + (?F div 2 ^ k AND ?M) = fields_value (2 * k) (add_pairs fs)"
    using "1.IH" [of n'] "1.prems" n by simp
  ultimately show ?case by (simp add: algebra_simps flip: add_mult_distrib2)
qed auto

text \<open>A word whose fields of \<open>k\<close> bits are counts that add up to \<open>t\<close>.\<close>

definition counts :: "nat \<Rightarrow> nat \<Rightarrow> nat \<Rightarrow> nat \<Rightarrow> bool" where
  "counts k n v t \<longleftrightarrow> (\<exists>fs. v = fields_value k fs \<and> length fs = n \<and> (\<forall>f \<in> set fs. f \<le> k) \<and> sum_list fs = t)"

lemma counts_step:
  fixes w m :: "'a::len word"
  assumes "counts k n' (unat w) t" "n' = 2 * n" "k' = 2 * k" "k' * n = LENGTH('a)"
    "(2 ^ k + 1) * unat m + 1 = 2 ^ (k' * n)"
  shows "counts k' n (unat ((w AND m) + (drop_bit k w AND m))) t"
proof -
  obtain fs where fs: "unat w = fields_value k fs" "length fs = 2 * n" "\<forall>f \<in> set fs. f \<le> k" "sum_list fs = t"
    using assms(1,2) by (auto simp: counts_def)
  have less: "\<forall>f \<in> set fs. f < 2 ^ k" using fs(3) by (meson le_less_trans less_exp)
  have m: "unat m = field_masks k n"
  proof -
    have "(2 ^ k + 1) * unat m + 1 = (2 ^ k + 1) * field_masks k n + 1"
      using assms(3,5) field_masks_eq [of k n] by simp
    then have "(2 ^ k + 1) * unat m = (2 ^ k + 1) * field_masks k n" by (simp only: add_right_cancel)
    then show ?thesis by (simp only: mult_cancel1) simp
  qed
  have sum: "unat (w AND m) + unat (drop_bit k w AND m) = fields_value (2 * k) (add_pairs fs)"
    using add_pairs_value [OF fs(2) less] unfolding m [symmetric] fs(1) [symmetric]
    by (simp add: unsigned_and_eq unsigned_drop_bit_eq take_bit_nat_eq_self flip: drop_bit_eq_div)
  have l: "\<forall>f \<in> set (add_pairs fs). f < 2 ^ (2 * k)"
    using add_pairs_facts(3) [OF fs(3)] by (meson le_less_trans less_exp)
  have "length (add_pairs fs) = n" using add_pairs_facts(1) [of fs] fs(2) by simp
  then have "fields_value (2 * k) (add_pairs fs) < 2 ^ LENGTH('a)"
    using fields_value_less [OF l] assms(3,4) by simp
  then have "unat ((w AND m) + (drop_bit k w AND m)) = fields_value (2 * k) (add_pairs fs)"
    unfolding sum [symmetric] by (simp add: unat_word_ariths)
  then show ?thesis
    using add_pairs_facts [of fs] fs assms(3) unfolding counts_def by (intro exI [of _ "add_pairs fs"]) auto
qed

lemma counts_bits:
  "counts 1 LENGTH('a) (unat w) (card {i. bit (w :: 'a::len word) i})"
proof -
  let ?fs = "map (\<lambda>i. of_bool (bit w i)) [0 ..< LENGTH('a)]"
  have v: "fields_value 1 (map of_bool bs) = horner_sum of_bool 2 bs" for bs by (induction bs) simp_all
  have "unat w = horner_sum of_bool 2 (map (bit (unat w)) [0 ..< LENGTH('a)])"
    by (simp add: horner_sum_bit_eq_take_bit take_bit_nat_eq_self)
  also have "map (bit (unat w)) [0 ..< LENGTH('a)] = map (bit w) [0 ..< LENGTH('a)]"
    by (simp add: bit_unsigned_iff)
  finally have "unat w = fields_value 1 ?fs" using v [of "map (bit w) [0 ..< LENGTH('a)]"] by (simp add: comp_def)
  moreover have "sum_list ?fs = card {i. bit w i}"
  proof -
    have "sum_list ?fs = card ({..< LENGTH('a)} \<inter> {i. bit w i})"
      by (simp add: interv_sum_list_conv_sum_set_nat lessThan_atLeast0 sum.If_cases of_bool_def)
    also have "{..< LENGTH('a)} \<inter> {i. bit w i} = {i. bit w i}" by (auto dest: bit_imp_le_length)
    finally show ?thesis .
  qed
  ultimately show ?thesis unfolding counts_def by (intro exI [of _ ?fs]) auto
qed

lemma counts_done: "counts k 1 v t \<Longrightarrow> v = t"
  by (auto simp: counts_def length_Suc_conv)

lemma counts8: "counts 1 8 (unat (v :: 8 word)) (card {i. bit v i})"
  using counts_bits [of v] by simp

lemma popcount8_const_eq: "popcount8_const v = card {i. bit v i}"
  unfolding popcount8_const_def Let_def
  by (rule counts_done [where k = 8],
    rule counts_step [where k = 4 and n = 1],
    rule counts_step [where k = 2 and n = 2],
    rule counts_step [where k = 1 and n = 4],
    rule counts8; simp)

lemma counts16: "counts 1 16 (unat (v :: 16 word)) (card {i. bit v i})"
  using counts_bits [of v] by simp

lemma popcount16_const_eq: "popcount16_const v = card {i. bit v i}"
  unfolding popcount16_const_def Let_def
  by (rule counts_done [where k = 16],
    rule counts_step [where k = 8 and n = 1],
    rule counts_step [where k = 4 and n = 2],
    rule counts_step [where k = 2 and n = 4],
    rule counts_step [where k = 1 and n = 8],
    rule counts16; simp)

lemma counts32: "counts 1 32 (unat (v :: 32 word)) (card {i. bit v i})"
  using counts_bits [of v] by simp

lemma popcount32_const_eq: "popcount32_const v = card {i. bit v i}"
  unfolding popcount32_const_def Let_def
  by (rule counts_done [where k = 32],
    rule counts_step [where k = 16 and n = 1],
    rule counts_step [where k = 8 and n = 2],
    rule counts_step [where k = 4 and n = 4],
    rule counts_step [where k = 2 and n = 8],
    rule counts_step [where k = 1 and n = 16],
    rule counts32; simp)

lemma counts64: "counts 1 64 (unat (v :: 64 word)) (card {i. bit v i})"
  using counts_bits [of v] by simp

lemma popcount64_const_eq: "popcount64_const v = card {i. bit v i}"
  unfolding popcount64_const_def Let_def
  by (rule counts_done [where k = 64],
    rule counts_step [where k = 32 and n = 1],
    rule counts_step [where k = 16 and n = 2],
    rule counts_step [where k = 8 and n = 4],
    rule counts_step [where k = 4 and n = 8],
    rule counts_step [where k = 2 and n = 16],
    rule counts_step [where k = 1 and n = 32],
    rule counts64; simp)

text \<open>The table of bytes.\<close>

lemma bit_word_of_nat_iff: "bit (of_nat n :: 'a::len word) j \<longleftrightarrow> j < LENGTH('a) \<and> bit n j"
  by transfer (simp add: bit_take_bit_iff bit_of_nat_iff_bit)

lemma card_bits_add:
  assumes "i < 2 ^ k" "k < LENGTH('a::len)"
  shows "card {j. bit (of_nat (2 ^ k + i) :: 'a word) j} = Suc (card {j. bit (of_nat i :: 'a word) j})"
proof -
  have high: "\<not> bit i j" if "k \<le> j" for j
    using that assms(1) by (metis bit_take_bit_iff not_less take_bit_nat_eq_self)
  have b: "bit (2 ^ k + i) j \<longleftrightarrow> j = k \<or> bit i j" for j
    using bit_add_block [OF assms(1), of 1 j] high [of j]
    by (cases j k rule: linorder_cases) (simp_all add: add.commute bit_1_iff del: One_nat_def)
  have e: "{j. bit (of_nat (2 ^ k + i) :: 'a word) j} = insert k {j. bit (of_nat i :: 'a word) j}"
    unfolding bit_word_of_nat_iff b using assms(2) by auto
  have "\<not> bit i k" by (rule high) simp
  then have "k \<notin> {j. bit (of_nat i :: 'a word) j}" by (simp add: bit_word_of_nat_iff)
  moreover have "finite {j. bit (of_nat i :: 'a word) j}"
    by (rule finite_subset [of _ "{..< LENGTH('a)}"]) (auto dest: bit_imp_le_length)
  ultimately show ?thesis unfolding e by simp
qed

fun count_table :: "nat \<Rightarrow> nat list" where
  "count_table 0 = [0]"
| "count_table (Suc k) = (let t = count_table k in t @ map Suc t)"

lemma count_table_eq:
  "k \<le> LENGTH('a::len) \<Longrightarrow> count_table k = map (\<lambda>i. card {j. bit (of_nat i :: 'a word) j}) [0 ..< 2 ^ k]"
proof (induction k)
  case (Suc k)
  have "[0 ..< 2 ^ Suc k] = [0 ..< 2 ^ k] @ map (\<lambda>i. 2 ^ k + i) [0 ..< 2 ^ k]"
    using upt_add_eq_append [of 0 "2 ^ k" "2 ^ k"] map_add_upt [of "2 ^ k" "2 ^ k"] by (simp add: mult_2 add.commute)
  then show ?case using Suc card_bits_add [of _ k, where ?'a = 'a] by (simp add: Let_def del: of_nat_add of_nat_power)
qed (simp add: bot_fun_def)

lemma tables_eq:
  "popcount_table = count_table 8" "popparity_table = map (\<lambda>n. n mod 2) popcount_table"
proof -
  show "popcount_table = count_table 8" by (simp add: popcount_table_def eval_nat_numeral)
  show "popparity_table = map (\<lambda>n. n mod 2) popcount_table" by (simp add: popcount_table_def popparity_table_def)
qed

lemma popcount8_dynamic_eq: "popcount8_dynamic v = card {i. bit v i}"
  and popparity8_dynamic_eq: "popparity8_dynamic v = odd (card {i. bit v i})"
proof -
  have l: "unat v < 2 ^ 8" using unsigned_less [of v, where ?'a = nat] by simp
  then have t: "count_table 8 ! unat v = card {i. bit v i}" "unat v < length (count_table 8)"
    using count_table_eq [of 8, where ?'a = 8] by simp_all
  then show "popcount8_dynamic v = card {i. bit v i}" by (simp add: popcount8_dynamic_def tables_eq)
  show "popparity8_dynamic v = odd (card {i. bit v i})"
    using t by (simp add: popparity8_dynamic_def tables_eq) presburger
qed

lemma card_halves:
  assumes "LENGTH('a::len) = LENGTH('b) + LENGTH('b::len)"
  shows "card {i. bit (v :: 'a word) i} =
    card {i. bit (ucast (drop_bit LENGTH('b) v) :: 'b word) i} + card {i. bit (ucast v :: 'b word) i}"
proof -
  let ?n = "LENGTH('b)"
  have "{i. bit v i} = (\<lambda>i. ?n + i) ` {i. bit (ucast (drop_bit ?n v) :: 'b word) i} \<union> {i. bit (ucast v :: 'b word) i}"
    (is "_ = ?f ` ?H \<union> ?L")
  proof (intro set_eqI iffI)
    fix i assume "i \<in> {i. bit v i}"
    then have "bit v i" "i < ?n + ?n" using assms by (auto dest: bit_imp_le_length)
    then show "i \<in> ?f ` ?H \<union> ?L"
      by (cases "i < ?n") (auto simp: bit_simps image_iff intro!: exI [of _ "i - ?n"])
  qed (use assms in \<open>auto simp: bit_simps\<close>)
  moreover have "?f ` ?H \<inter> ?L = {}" by (auto dest: bit_imp_le_length)
  moreover have "finite ?H" "finite ?L"
    by (rule finite_subset [of _ "{..< ?n}"], auto dest: bit_imp_le_length)+
  ultimately have "card {i. bit v i} = card (?f ` ?H) + card ?L" by (simp add: card_Un_disjoint)
  also have "card (?f ` ?H) = card ?H" by (rule card_image) (simp add: inj_on_def)
  finally show ?thesis .
qed

lemma popcount16_dynamic_eq: "popcount16_dynamic v = card {i. bit v i}"
  and popparity16_dynamic_eq: "popparity16_dynamic v = odd (card {i. bit v i})"
  using card_halves [of v, where ?'b = 8]
  by (simp_all add: popcount16_dynamic_def popparity16_dynamic_def popcount8_dynamic_eq popparity8_dynamic_eq)

lemma popcount32_dynamic_eq: "popcount32_dynamic v = card {i. bit v i}"
  and popparity32_dynamic_eq: "popparity32_dynamic v = odd (card {i. bit v i})"
  using card_halves [of v, where ?'b = 16]
  by (simp_all add: popcount32_dynamic_def popparity32_dynamic_def popcount16_dynamic_eq popparity16_dynamic_eq)

lemma popcount64_dynamic_eq: "popcount64_dynamic v = card {i. bit v i}"
  and popparity64_dynamic_eq: "popparity64_dynamic v = odd (card {i. bit v i})"
  using card_halves [of v, where ?'b = 32]
  by (simp_all add: popcount64_dynamic_def popparity64_dynamic_def popcount32_dynamic_eq popparity32_dynamic_eq)

section \<open>The forms for constants\<close>

text \<open>Parity of the lowest \<open>n\<close> bits.\<close>

fun parity_of :: "nat \<Rightarrow> 'a::len word \<Rightarrow> bool" where
  "parity_of 0 w = False"
| "parity_of (Suc n) w = (parity_of n w \<noteq> bit w n)"

lemma parity_of_card: "parity_of n w = odd (card {i. i < n \<and> bit w i})"
proof (induction n)
  case (Suc n)
  have "{i. i < Suc n \<and> bit w i} = (if bit w n then insert n {i. i < n \<and> bit w i} else {i. i < n \<and> bit w i})"
    by (auto simp: less_Suc_eq)
  then show ?case using Suc by simp
qed simp

lemma parity_of_xor: "parity_of n (x XOR y) = (parity_of n x \<noteq> parity_of n y)"
  by (induction n) (auto simp: bit_xor_iff)

lemma parity_of_add: "parity_of (m + n) w = (parity_of m w \<noteq> parity_of n (drop_bit m w))"
  by (induction n) (auto simp: bit_drop_bit_eq)

lemma parity_of_fold: "parity_of k (w XOR drop_bit k w) = parity_of (k + k) w"
  by (simp add: parity_of_xor parity_of_add)

lemma parity_of_folds:
  "parity_of 4 (w XOR drop_bit 4 w) = parity_of 8 w" "parity_of 8 (w XOR drop_bit 8 w) = parity_of 16 w"
  "parity_of 16 (w XOR drop_bit 16 w) = parity_of 32 w" "parity_of 32 (w XOR drop_bit 32 w) = parity_of 64 w"
  using parity_of_fold [of 4 w] parity_of_fold [of 8 w] parity_of_fold [of 16 w] parity_of_fold [of 32 w]
  by simp_all

lemma parity_of_word: "parity_of LENGTH('a) w = odd (card {i. bit (w :: 'a::len word) i})"
proof -
  have "{i. i < LENGTH('a) \<and> bit w i} = {i. bit w i}" by (auto dest: bit_imp_le_length)
  then show ?thesis by (simp add: parity_of_card)
qed

lemma parity_of_nibble: "bit (drop_bit (unat (w AND 0xf)) (0x6996 :: 32 word)) 0 = parity_of 4 w"
proof -
  have t: "\<forall>n \<in> {0, 1, 2, 3, 4, 5, 6, 7, 8, 9, 10, 11, 12, 13, 14, 15}. bit (drop_bit n (0x6996 :: 32 word)) 0 =
      (((odd (n div 2 ^ 0) \<noteq> odd (n div 2 ^ 1)) \<noteq> odd (n div 2 ^ 2)) \<noteq> odd (n div 2 ^ 3))"
    by simp
  have m: "w AND 0xf = take_bit 4 w" by (simp add: take_bit_eq_mask mask_numeral)
  have "unat (take_bit 4 w) = take_bit 4 (unat w)" by (rule unsigned_take_bit_eq)
  moreover have "take_bit 4 (unat w) < 2 ^ 4" by (rule take_bit_nat_less_exp)
  ultimately have l: "unat (w AND 0xf) < 16" unfolding m by simp
  have "n \<in> {0, 1, 2, 3, 4, 5, 6, 7, 8, 9, 10, 11, 12, 13, 14, 15}" if "n < 16" for n :: nat
    unfolding insert_iff empty_iff using that by presburger
  from this [OF l] have "unat (w AND 0xf) \<in> {0, 1, 2, 3, 4, 5, 6, 7, 8, 9, 10, 11, 12, 13, 14, 15}" .
  from bspec [OF t this] show ?thesis
    unfolding m bit_iff_odd [symmetric]
    by (simp add: unsigned_take_bit_eq bit_take_bit_iff bit_unsigned_iff numeral_eq_Suc)
qed

lemma popparity8_const_eq: "popparity8_const v = odd (card {i. bit v i})"
  unfolding popparity8_const_def Let_def parity_of_nibble parity_of_folds
  using parity_of_word [of v] by simp

lemma popparity16_const_eq: "popparity16_const v = odd (card {i. bit v i})"
  unfolding popparity16_const_def Let_def parity_of_nibble parity_of_folds
  using parity_of_word [of v] by simp

lemma popparity32_const_eq: "popparity32_const v = odd (card {i. bit v i})"
  unfolding popparity32_const_def Let_def parity_of_nibble parity_of_folds
  using parity_of_word [of v] by simp

lemma popparity64_const_eq: "popparity64_const v = odd (card {i. bit v i})"
  unfolding popparity64_const_def Let_def parity_of_nibble parity_of_folds
  using parity_of_word [of v] by simp

text \<open>The constant forms of the reversal, bit by bit.\<close>

lemmas single_bits = bit_or_iff bit_push_bit_iff bit_drop_bit_eq comp_apply bit_and_iff

lemma bitrev8_constant_bits: "\<forall>i \<in> {0, 1, 2, 3, 4, 5, 6, 7}. bit (bitrev8_constant v) i = bit v (7 - i)"
  unfolding bitrev8_constant_def by (simp only: ball_simps single_bits) simp

lemma bitrev16_constant_bits: "\<forall>i \<in> {0, 1, 2, 3, 4, 5, 6, 7, 8, 9, 10, 11, 12, 13, 14, 15}. bit (bitrev16_constant v) i = bit v (15 - i)"
  unfolding bitrev16_constant_def by (simp only: ball_simps single_bits) simp

lemma bitrev32_constant_bits:
  assumes "\<not> bit v 27" "\<not> bit v 28"
  shows "\<forall>i \<in> {0, 1, 2, 3, 4, 5, 6, 7, 8, 9, 10, 11, 12, 13, 14, 15, 16, 17, 18, 19, 20, 21, 22, 23, 24, 25, 26, 27, 28, 29, 30, 31}. bit (bitrev32_constant v) i = bit v (31 - i)"
  unfolding bitrev32_constant_def using assms by (simp only: ball_simps single_bits) simp

lemma bitrev64_constant_bits:
  assumes "\<not> bit v 43" "\<not> bit v 44"
  shows "\<forall>i \<in> {0, 1, 2, 3, 4, 5, 6, 7, 8, 9, 10, 11, 12, 13, 14, 15, 16, 17, 18, 19, 20, 21, 22, 23, 24, 25, 26, 27, 28, 29, 30, 31, 32, 33, 34, 35, 36, 37, 38, 39, 40, 41, 42, 43, 44, 45, 46, 47, 48, 49, 50, 51, 52, 53, 54, 55, 56, 57, 58, 59, 60, 61, 62, 63}. bit (bitrev64_constant v) i = bit v (63 - i)"
  unfolding bitrev64_constant_def using assms by (simp only: ball_simps single_bits) simp

lemma reverse_by_bits:
  assumes "\<forall>i \<in> {..< LENGTH('a)}. bit w i = bit v (LENGTH('a) - 1 - i)"
  shows "w = word_reverse (v :: 'a::len word)"
  by (rule bit_word_eqI) (use assms in \<open>simp add: bit_word_reverse_iff\<close>)

lemma upto_sets:
  "{..< 8 :: nat} = {0, 1, 2, 3, 4, 5, 6, 7}"
  "{..< 16 :: nat} = {0, 1, 2, 3, 4, 5, 6, 7, 8, 9, 10, 11, 12, 13, 14, 15}"
  "{..< 32 :: nat} = {0, 1, 2, 3, 4, 5, 6, 7, 8, 9, 10, 11, 12, 13, 14, 15, 16, 17, 18, 19, 20, 21, 22, 23, 24, 25, 26, 27, 28, 29, 30, 31}"
  "{..< 64 :: nat} = {0, 1, 2, 3, 4, 5, 6, 7, 8, 9, 10, 11, 12, 13, 14, 15, 16, 17, 18, 19, 20, 21, 22, 23, 24, 25, 26, 27, 28, 29, 30, 31, 32, 33, 34, 35, 36, 37, 38, 39, 40, 41, 42, 43, 44, 45, 46, 47, 48, 49, 50, 51, 52, 53, 54, 55, 56, 57, 58, 59, 60, 61, 62, 63}"
  by (simp_all add: lessThan_nat_numeral lessThan_Suc insert_commute numeral_eq_Suc)

lemma bitrev8_constant_eq: "bitrev8_constant v = word_reverse v"
  by (rule reverse_by_bits) (use bitrev8_constant_bits [of v] in \<open>simp add: upto_sets(1) del: One_nat_def\<close>)

lemma bitrev16_constant_eq: "bitrev16_constant v = word_reverse v"
  by (rule reverse_by_bits) (use bitrev16_constant_bits [of v] in \<open>simp add: upto_sets(2) del: One_nat_def\<close>)

lemma bitrev32_constant_eq: "\<not> bit v 27 \<Longrightarrow> \<not> bit v 28 \<Longrightarrow> bitrev32_constant v = word_reverse v"
  by (rule reverse_by_bits) (use bitrev32_constant_bits [of v] in \<open>simp add: upto_sets(3) del: One_nat_def\<close>)

lemma bitrev64_constant_eq: "\<not> bit v 43 \<Longrightarrow> \<not> bit v 44 \<Longrightarrow> bitrev64_constant v = word_reverse v"
  by (rule reverse_by_bits) (use bitrev64_constant_bits [of v] in \<open>simp add: upto_sets(4) del: One_nat_def\<close>)

section \<open>Properties\<close>

text \<open>
  C39: Both forms of the population count give the number of set bits, both forms of the parity whether it
  is odd, and both forms of the reversal of 8 and 16 bits the reversed word.
\<close>

theorem bit_counts_and_reversals:
  "popcount8_const a = card {i. bit a i} \<and> popcount8_dynamic a = card {i. bit a i} \<and>
   popcount16_const b = card {i. bit b i} \<and> popcount16_dynamic b = card {i. bit b i} \<and>
   popcount32_const c = card {i. bit c i} \<and> popcount32_dynamic c = card {i. bit c i} \<and>
   popcount64_const d = card {i. bit d i} \<and> popcount64_dynamic d = card {i. bit d i} \<and>
   popparity8_const a = odd (card {i. bit a i}) \<and> popparity8_dynamic a = odd (card {i. bit a i}) \<and>
   popparity16_const b = odd (card {i. bit b i}) \<and> popparity16_dynamic b = odd (card {i. bit b i}) \<and>
   popparity32_const c = odd (card {i. bit c i}) \<and> popparity32_dynamic c = odd (card {i. bit c i}) \<and>
   popparity64_const d = odd (card {i. bit d i}) \<and> popparity64_dynamic d = odd (card {i. bit d i}) \<and>
   bitrev8_constant a = word_reverse a \<and> bitrev8_dynamic a = word_reverse a \<and>
   bitrev16_constant b = word_reverse b \<and> bitrev16_dynamic b = word_reverse b \<and>
   bitrev32_dynamic c = word_reverse c \<and> bitrev64_dynamic d = word_reverse d"
  by (simp only: popcount8_const_eq popcount8_dynamic_eq popcount16_const_eq popcount16_dynamic_eq
    popcount32_const_eq popcount32_dynamic_eq popcount64_const_eq popcount64_dynamic_eq
    popparity8_const_eq popparity8_dynamic_eq popparity16_const_eq popparity16_dynamic_eq
    popparity32_const_eq popparity32_dynamic_eq popparity64_const_eq popparity64_dynamic_eq
    bitrev8_constant_eq bitrev8_dynamic_eq bitrev16_constant_eq bitrev16_dynamic_eq
    bitrev32_dynamic_eq bitrev64_dynamic_eq simp_thms)

text \<open>
  The constant forms of the 32 and 64 bit reversal agree with the table where the bits 27 and 28,
  or 43 and 44, are clear, and not in general: they exchange the shifts of these two.
\<close>

theorem bitrev_constant_wrong:
  "bitrev32_constant (c AND NOT 0x18000000) = bitrev32_dynamic (c AND NOT 0x18000000) \<and>
   bitrev64_constant (d AND NOT 0x180000000000) = bitrev64_dynamic (d AND NOT 0x180000000000) \<and>
   bitrev32_constant 0x8000000 = 0x4 \<and> bitrev32_dynamic 0x8000000 = 0x10 \<and>
   bitrev64_constant 0x80000000000 = 0x40000 \<and> bitrev64_dynamic 0x80000000000 = 0x100000"
proof (intro conjI)
  show "bitrev32_constant (c AND NOT 0x18000000) = bitrev32_dynamic (c AND NOT 0x18000000)"
    unfolding bitrev32_dynamic_eq by (rule bitrev32_constant_eq) (simp_all add: bit_simps)
  show "bitrev64_constant (d AND NOT 0x180000000000) = bitrev64_dynamic (d AND NOT 0x180000000000)"
    unfolding bitrev64_dynamic_eq by (rule bitrev64_constant_eq) (simp_all add: bit_simps)
  show "bitrev32_constant 0x8000000 = 0x4" by (simp add: bitrev32_constant_def)
  show "bitrev64_constant 0x80000000000 = 0x40000" by (simp add: bitrev64_constant_def)
  show "bitrev32_dynamic 0x8000000 = 0x10"
    by (simp add: bitrev32_dynamic_def bitrev16_dynamic_def bitrev8_dynamic_def bitrev_byte_table_def)
  show "bitrev64_dynamic 0x80000000000 = 0x100000"
    by (simp add: bitrev64_dynamic_def bitrev32_dynamic_def bitrev16_dynamic_def bitrev8_dynamic_def bitrev_byte_table_def)
qed

end
