(* ===== verification/Ring.thy ===== *)
theory Ring
  imports Prelude
begin

text \<open>
  Rings of cells in a flat buffer, for the circular buffers of the code: reading and writing a
  run of cells that may go over the end of the buffer, and the split of such a run into the two
  block copies that the code makes. The last part is the interface of a bounded queue.
\<close>

section \<open>Runs of cells\<close>

definition ring_read :: "'a list \<Rightarrow> nat \<Rightarrow> nat \<Rightarrow> 'a list" where
  "ring_read d p n = map (\<lambda>j. d ! ((p + j) mod length d)) [0 ..< n]"

definition ring_write :: "'a list \<Rightarrow> nat \<Rightarrow> 'a list \<Rightarrow> 'a list" where
  "ring_write d p xs =
     map (\<lambda>i. let j = (i + (length d - p mod length d)) mod length d
              in if j < length xs then xs ! j else d ! i) [0 ..< length d]"

text \<open>\<open>memcpy\<close> of \<open>xs\<close> to offset \<open>p\<close> of the buffer \<open>d\<close>.\<close>

definition mem_write :: "'a list \<Rightarrow> nat \<Rightarrow> 'a list \<Rightarrow> 'a list" where
  "mem_write d p xs = take p d @ xs @ drop (p + length xs) d"

lemma ring_lengths [simp]:
  "length (ring_read d p n) = n" "length (ring_write d p xs) = length d"
  "p + length xs \<le> length d \<Longrightarrow> length (mem_write d p xs) = length d"
  by (simp_all add: ring_read_def ring_write_def mem_write_def)

lemma ring_nth:
  "i < n \<Longrightarrow> ring_read d p n ! i = d ! ((p + i) mod length d)"
  "i < length d \<Longrightarrow> ring_write d p xs ! i =
     (let j = (i + (length d - p mod length d)) mod length d in if j < length xs then xs ! j else d ! i)"
  by (simp_all only: ring_read_def ring_write_def nth_map_upt nth_map length_map length_upt diff_zero nth_upt add_0)

lemma ring_read_0 [simp]: "ring_read d p 0 = []"
  by (simp add: ring_read_def)

lemma ring_read_append: "ring_read d p (m + n) = ring_read d p m @ ring_read d (p + m) n"
proof (rule nth_equalityI)
  fix i assume i: "i < length (ring_read d p (m + n))"
  have "i - m < n" if "\<not> i < m" using i that by simp
  then show "ring_read d p (m + n) ! i = (ring_read d p m @ ring_read d (p + m) n) ! i"
    using i by (cases "i < m") (simp_all add: ring_nth nth_append)
qed simp

lemma ring_read_take: "take m (ring_read d p n) = ring_read d p (min m n)"
  by (rule nth_equalityI) (simp_all add: ring_read_def)

lemma ring_read_drop: "m \<le> n \<Longrightarrow> drop m (ring_read d p n) = ring_read d (p + m) (n - m)"
  using ring_read_append [of d p m "n - m"] by simp

lemma ring_read_cong:
  "p mod length d = q mod length d \<Longrightarrow> ring_read d p n = ring_read d q n"
  by (auto simp: ring_read_def intro: arg_cong [where f = "\<lambda>i. d ! i"] mod_add_cong)

lemma ring_write_cong:
  "p mod length d = q mod length d \<Longrightarrow> ring_write d p xs = ring_write d q xs"
  by (simp add: ring_write_def)

lemma ring_dist:
  fixes p :: nat
  assumes "0 < N"
  shows "((p + j) mod N + (N - p mod N)) mod N = j mod N"
proof -
  have "((p + j) mod N + (N - p mod N)) mod N = (p mod N + j + (N - p mod N)) mod N"
    by (metis mod_add_left_eq)
  also have "p mod N + j + (N - p mod N) = j + N" using assms by (simp add: less_imp_le)
  finally show ?thesis by simp
qed

lemma ring_read_write_same:
  assumes "length xs \<le> length d"
  shows "ring_read (ring_write d p xs) p (length xs) = xs"
proof (rule nth_equalityI)
  fix i assume "i < length (ring_read (ring_write d p xs) p (length xs))"
  then have i: "i < length xs" by simp
  then have N: "0 < length d" using assms by linarith
  have "(p + i) mod length d < length d" using N by simp
  moreover have "((p + i) mod length d + (length d - p mod length d)) mod length d = i"
    using ring_dist [OF N, of p i] i assms by simp
  ultimately show "ring_read (ring_write d p xs) p (length xs) ! i = xs ! i"
    using i by (simp add: ring_nth Let_def)
qed simp

lemma ring_read_write_before:
  assumes "n + length xs \<le> length d"
  shows "ring_read (ring_write d (p + n) xs) p n = ring_read d p n"
proof (rule nth_equalityI)
  fix i assume "i < length (ring_read (ring_write d (p + n) xs) p n)"
  then have i: "i < n" by simp
  then have N: "0 < length d" using assms by linarith
  let ?N = "length d"
  have b: "(p + i) mod ?N < ?N" using N by simp
  have "(p + i) mod ?N = (p + n + (?N - n + i)) mod ?N"
  proof -
    have "p + n + (?N - n + i) = p + i + ?N" using assms i by simp
    then show ?thesis by (simp only: mod_add_self2)
  qed
  then have "((p + i) mod ?N + (?N - (p + n) mod ?N)) mod ?N = (?N - n + i) mod ?N"
    using ring_dist [OF N, of "p + n" "?N - n + i"] by simp
  also have "\<dots> = ?N - n + i" using i assms by simp
  finally have "\<not> ((p + i) mod ?N + (?N - (p + n) mod ?N)) mod ?N < length xs"
    using assms by linarith
  then show "ring_read (ring_write d (p + n) xs) p n ! i = ring_read d p n ! i"
    using i b by (simp add: ring_nth Let_def)
qed simp

lemma ring_read_append_write:
  assumes "n + length xs \<le> length d"
  shows "ring_read (ring_write d (p + n) xs) p (n + length xs) = ring_read d p n @ xs"
  using assms ring_read_write_before [OF assms, of p] ring_read_write_same [of xs d "p + n"]
  by (simp add: ring_read_append)

text \<open>The two copies.\<close>

lemma ring_read_copy:
  assumes "p < length d" "n \<le> length d"
  shows "take (min n (length d - p)) (drop p d) @ take (n - min n (length d - p)) d = ring_read d p n"
proof (rule nth_equalityI)
  show "length (take (min n (length d - p)) (drop p d) @ take (n - min n (length d - p)) d)
      = length (ring_read d p n)"
    using assms by simp
next
  let ?l = "min n (length d - p)"
  fix i assume "i < length (take ?l (drop p d) @ take (n - ?l) d)"
  then have i: "i < n" using assms by (simp add: min_def split: if_splits)
  show "(take ?l (drop p d) @ take (n - ?l) d) ! i = ring_read d p n ! i"
  proof (cases "i < ?l")
    case True
    then show ?thesis using i by (simp add: nth_append ring_nth)
  next
    case False
    then have ge: "length d - p \<le> i" "?l = length d - p" using i by simp_all
    then have "p + i = i - (length d - p) + length d" using assms by linarith
    then have "(p + i) mod length d = i - (length d - p)"
      using assms i by (metis mod_add_self2 mod_less less_imp_diff_less less_le_trans)
    then show ?thesis using ge i assms by (simp add: nth_append ring_nth)
  qed
qed

lemma mem_write_nth:
  "p + length xs \<le> length d \<Longrightarrow> i < length d \<Longrightarrow>
   mem_write d p xs ! i = (if p \<le> i \<and> i < p + length xs then xs ! (i - p) else d ! i)"
  by (auto simp: mem_write_def nth_append)

lemma ring_write_copy:
  assumes "p < length d" "length xs \<le> length d"
  shows "mem_write (mem_write d p (take (length d - p) xs)) 0 (drop (length d - p) xs)
    = ring_write d p xs"
proof (rule nth_equalityI)
  let ?l = "length d - p"
  have a: "p + length (take ?l xs) \<le> length d" using assms by simp
  have b: "0 + length (drop ?l xs) \<le> length d" using assms by simp
  then show "length (mem_write (mem_write d p (take ?l xs)) 0 (drop ?l xs)) = length (ring_write d p xs)"
    using a by simp
  fix i assume "i < length (mem_write (mem_write d p (take ?l xs)) 0 (drop ?l xs))"
  then have i: "i < length d" using a b by simp
  have l: "mem_write (mem_write d p (take ?l xs)) 0 (drop ?l xs) ! i =
     (if i < length xs - ?l then xs ! (?l + i)
      else if p \<le> i \<and> i < p + min (length xs) ?l then xs ! (i - p) else d ! i)"
    using a b i by (auto simp: mem_write_nth)
  have r: "ring_write d p xs ! i = (let j = (i + ?l) mod length d in if j < length xs then xs ! j else d ! i)"
    using i assms by (simp add: ring_nth)
  have j: "(i + ?l) mod length d = (if i < p then ?l + i else i - p)"
  proof (cases "i < p")
    case False
    then have "i + ?l = (i - p) + length d" using assms by simp
    then show ?thesis using False i by (simp only: mod_add_self2) simp
  qed (use assms in simp)
  show "mem_write (mem_write d p (take ?l xs)) 0 (drop ?l xs) ! i = ring_write d p xs ! i"
    unfolding l r j Let_def using i assms by auto
qed

section \<open>The interface of a bounded queue\<close>

text \<open>
  A queue that takes as much of an input as it has room for and gives out as much as it holds.
  \<open>put\<close> and \<open>get\<close> are the client's calls, \<open>cells\<close> what the queue holds, \<open>room\<close> how much it can
  still take.
\<close>

text \<open>A session with a queue: what the queue accepted, what it gave out, and its final state.\<close>

fun queue_run ::
  "('a list \<Rightarrow> 's \<Rightarrow> nat \<times> 's) \<Rightarrow> (nat \<Rightarrow> 's \<Rightarrow> 'a list \<times> 's) \<Rightarrow>
   ('a list + nat) list \<Rightarrow> 's \<Rightarrow> 'a list \<times> 'a list \<times> 's" where
  "queue_run put get [] s = ([], [], s)"
| "queue_run put get (Inl xs # ops) s =
     (let (n, t) = put xs s; (i, o', u) = queue_run put get ops t in (take n xs @ i, o', u))"
| "queue_run put get (Inr n # ops) s =
     (let (ys, t) = get n s; (i, o', u) = queue_run put get ops t in (i, ys @ o', u))"

locale bounded_queue =
  fixes put :: "'a list \<Rightarrow> 's \<Rightarrow> nat \<times> 's"
    and get :: "nat \<Rightarrow> 's \<Rightarrow> 'a list \<times> 's"
    and inv :: "'s \<Rightarrow> bool"
    and cells :: "'s \<Rightarrow> 'a list"
    and room :: "'s \<Rightarrow> nat"
    and fits :: "nat \<Rightarrow> bool"
  assumes put_law: "inv s \<Longrightarrow> fits (length xs) \<Longrightarrow> put xs s = (n, t) \<Longrightarrow>
      inv t \<and> n = min (length xs) (room s) \<and> cells t = cells s @ take n xs \<and> room t = room s - n"
    and get_law: "inv s \<Longrightarrow> fits n \<Longrightarrow> get n s = (xs, t) \<Longrightarrow>
      inv t \<and> xs = take n (cells s) \<and> cells t = drop n (cells s) \<and> room t = room s + length xs"
begin

lemma run_fifo:
  assumes "inv s" "queue_run put get ops s = (i, o', u)"
    "\<forall>x \<in> set ops. case x of Inl xs \<Rightarrow> fits (length xs) | Inr n \<Rightarrow> fits n"
  shows "inv u \<and> cells s @ i = o' @ cells u \<and> room u + length (cells u) = room s + length (cells s)"
  using assms
proof (induction ops arbitrary: s i o')
  case (Cons x ops)
  have fits: "\<forall>x \<in> set ops. case x of Inl xs \<Rightarrow> fits (length xs) | Inr n \<Rightarrow> fits n"
    using Cons.prems(3) by simp
  show ?case
  proof (cases x)
    case (Inl xs)
    obtain n t where p: "put xs s = (n, t)" by fastforce
    note law = put_law [OF Cons.prems(1) _ p]
    obtain i' where r: "queue_run put get ops t = (i', o', u)" "i = take n xs @ i'"
      using Cons.prems(2) p Inl by (auto split: prod.splits)
    show ?thesis using Cons.IH [OF _ r(1) fits] law r(2) Cons.prems(3) Inl by auto
  next
    case (Inr n)
    obtain ys t where p: "get n s = (ys, t)" by fastforce
    note law = get_law [OF Cons.prems(1) _ p]
    have f: "fits n" using Cons.prems(3) Inr by simp
    obtain o'' where r: "queue_run put get ops t = (i, o'', u)" "o' = ys @ o''"
      using Cons.prems(2) p Inr by (auto split: prod.splits)
    have c: "cells s = ys @ cells t" "length (cells s) = length ys + length (cells t)"
      using law [OF f] by (simp_all add: append_take_drop_id)
    have "inv u \<and> cells t @ i = o'' @ cells u \<and> room u + length (cells u) = room t + length (cells t)"
      using Cons.IH [OF _ r(1) fits] law [OF f] by blast
    moreover have "room t = room s + length ys" using law [OF f] by blast
    ultimately show ?thesis using c r(2) by simp
  qed
qed simp

end

end
