(* ===== verification/Kfifo.thy ===== *)
theory Kfifo
  imports Ring
begin

text \<open>
  The circular buffer of \<^verbatim>\<open>lib/kfifo.c\<close> and \<^verbatim>\<open>include/kfifo.h\<close>, for elements of any
  size, with the free-running 64-bit indices of the code: \<open>kf_in\<close> and \<open>kf_out\<close> wrap around and
  only their difference counts. A buffer is a list of bytes, \<open>len\<close> counts elements. The memory
  barriers are not modelled.
\<close>

section \<open>State and operations\<close>

record kfifo =
  kf_in :: ulong
  kf_out :: ulong
  kf_mask :: ulong
  kf_esize :: ulong
  kf_data :: "byte list"

text \<open>\<open>KFIFO_GENERIC_COPY\<close>: the byte offset, the byte count and the count of the first copy.\<close>

definition kfifo_generic_copy :: "kfifo \<Rightarrow> ulong \<Rightarrow> ulong \<Rightarrow> ulong \<times> ulong \<times> ulong" where
  "kfifo_generic_copy k len offset =
     (let sz = kf_mask k + 1; esize = kf_esize k;
          offset = offset AND kf_mask k;
          (offset, sz, len) = (if esize \<noteq> 1 then (offset * esize, sz * esize, len * esize)
                               else (offset, sz, len));
          llen = min len (sz - offset)
      in (offset, len, llen))"

definition kfifo_out_copy :: "kfifo \<Rightarrow> ulong \<Rightarrow> ulong \<Rightarrow> byte list" where
  "kfifo_out_copy k len offset =
     (let (offset, len, llen) = kfifo_generic_copy k len offset
      in take (unat llen) (drop (unat offset) (kf_data k)) @ take (unat (len - llen)) (kf_data k))"

definition kfifo_in_copy :: "kfifo \<Rightarrow> byte list \<Rightarrow> ulong \<Rightarrow> ulong \<Rightarrow> kfifo" where
  "kfifo_in_copy k buff len offset =
     (let (offset, len, llen) = kfifo_generic_copy k len offset;
          d = mem_write (kf_data k) (unat offset) (take (unat llen) buff)
      in k\<lparr>kf_data := mem_write d 0 (take (unat (len - llen)) (drop (unat llen) buff))\<rparr>)"

text \<open>The byte offset and mask of the length field of a record.\<close>

definition kfifo_record_pos :: "kfifo \<Rightarrow> ulong \<times> ulong" where
  "kfifo_record_pos k =
     (if kf_esize k \<noteq> 1
      then (kf_out k * kf_esize k, kf_mask k * kf_esize k + (kf_esize k - 1))
      else (kf_out k, kf_mask k))"

fun kfifo_record_peek_loop :: "kfifo \<Rightarrow> ulong \<Rightarrow> ulong \<Rightarrow> ulong \<Rightarrow> nat \<Rightarrow> ulong" where
  "kfifo_record_peek_loop k msk offset len 0 = len"
| "kfifo_record_peek_loop k msk offset len (Suc n) =
     kfifo_record_peek_loop k msk (offset + kf_esize k)
       (push_bit 8 len OR ucast (kf_data k ! unat (offset AND msk))) n"

definition kfifo_record_peek :: "kfifo \<Rightarrow> nat \<Rightarrow> ulong" where
  "kfifo_record_peek k recsize =
     (let (offset, msk) = kfifo_record_pos k in kfifo_record_peek_loop k msk offset 0 recsize)"

fun kfifo_record_poke_loop :: "kfifo \<Rightarrow> ulong \<Rightarrow> ulong \<Rightarrow> ulong \<Rightarrow> nat \<Rightarrow> kfifo" where
  "kfifo_record_poke_loop k msk offset len 0 = k"
| "kfifo_record_poke_loop k msk offset len (Suc n) =
     kfifo_record_poke_loop (k\<lparr>kf_data := (kf_data k)[unat (offset AND msk) := ucast len]\<rparr>)
       msk (offset + kf_esize k) (drop_bit 8 len) n"

definition kfifo_record_poke :: "kfifo \<Rightarrow> ulong \<Rightarrow> nat \<Rightarrow> kfifo" where
  "kfifo_record_poke k len recsize =
     (let (offset, msk) = kfifo_record_pos k in kfifo_record_poke_loop k msk offset len recsize)"

definition kfifo_empty :: "kfifo \<Rightarrow> bool" where
  "kfifo_empty k = (kf_in k = kf_out k)"

definition kfifo_valid :: "kfifo \<Rightarrow> ulong" where
  "kfifo_valid k = kf_in k - kf_out k"

definition kfifo_unused :: "kfifo \<Rightarrow> ulong" where
  "kfifo_unused k = (kf_mask k + 1) - (kf_in k - kf_out k)"

definition kfifo_peek_flat :: "kfifo \<Rightarrow> ulong \<Rightarrow> ulong \<times> byte list" where
  "kfifo_peek_flat k len =
     (let len = min len (kfifo_valid k) in (len, kfifo_out_copy k len (kf_out k)))"

definition kfifo_out_flat :: "kfifo \<Rightarrow> ulong \<Rightarrow> ulong \<times> byte list \<times> kfifo" where
  "kfifo_out_flat k len =
     (let (llen, buff) = kfifo_peek_flat k len in (llen, buff, k\<lparr>kf_out := kf_out k + llen\<rparr>))"

definition kfifo_in_flat :: "kfifo \<Rightarrow> byte list \<Rightarrow> ulong \<Rightarrow> ulong \<times> kfifo" where
  "kfifo_in_flat k buff len =
     (let len = min len (kfifo_unused k);
          k1 = kfifo_in_copy k buff len (kf_in k)
      in (len, k1\<lparr>kf_in := kf_in k1 + len\<rparr>))"

definition kfifo_peek_record :: "kfifo \<Rightarrow> ulong \<Rightarrow> nat \<Rightarrow> ulong \<times> byte list" where
  "kfifo_peek_record k len rec =
     (if kfifo_empty k then (0, [])
      else let datalen = kfifo_record_peek k rec; len = min len datalen
           in (len, kfifo_out_copy k len (kf_out k + of_nat rec)))"

definition kfifo_out_record :: "kfifo \<Rightarrow> ulong \<Rightarrow> nat \<Rightarrow> ulong \<times> byte list \<times> kfifo" where
  "kfifo_out_record k len rec =
     (if kfifo_empty k then (0, [], k)
      else let datalen = kfifo_record_peek k rec; len = min len datalen;
               buff = kfifo_out_copy k len (kf_out k + of_nat rec)
           in (len, buff, k\<lparr>kf_out := kf_out k + (datalen + of_nat rec)\<rparr>))"

definition kfifo_in_record :: "kfifo \<Rightarrow> byte list \<Rightarrow> ulong \<Rightarrow> nat \<Rightarrow> ulong \<times> kfifo" where
  "kfifo_in_record k buff len rec =
     (if len + of_nat rec > kfifo_unused k then (0, k)
      else let k1 = kfifo_record_poke k len rec;
               k2 = kfifo_in_copy k1 buff len (kf_in k1 + of_nat rec)
           in (len, k2\<lparr>kf_in := kf_in k2 + (len + of_nat rec)\<rparr>))"

text \<open>The macros on single elements, for a queue without a record field.\<close>

definition kfifo_reset :: "kfifo \<Rightarrow> kfifo" where
  "kfifo_reset k = k\<lparr>kf_out := 0, kf_in := 0\<rparr>"

definition kfifo_homing :: "kfifo \<Rightarrow> kfifo" where
  "kfifo_homing k = k\<lparr>kf_out := kf_in k\<rparr>"

definition kfifo_len :: "kfifo \<Rightarrow> ulong" where
  "kfifo_len k = kf_in k - kf_out k"

definition kfifo_check_full :: "kfifo \<Rightarrow> bool" where
  "kfifo_check_full k = (kfifo_len k > kf_mask k)"

definition kfifo_peek :: "kfifo \<Rightarrow> byte list option" where
  "kfifo_peek k =
     (if kf_in k = kf_out k then None
      else let i = unat (kf_out k AND kf_mask k) * unat (kf_esize k)
           in Some (take (unat (kf_esize k)) (drop i (kf_data k))))"

definition kfifo_get :: "kfifo \<Rightarrow> byte list option \<times> kfifo" where
  "kfifo_get k =
     (case kfifo_peek k of None \<Rightarrow> (None, k) | Some v \<Rightarrow> (Some v, k\<lparr>kf_out := kf_out k + 1\<rparr>))"

definition kfifo_put :: "kfifo \<Rightarrow> byte list \<Rightarrow> bool \<times> kfifo" where
  "kfifo_put k v =
     (if kfifo_check_full k then (False, k)
      else let i = unat (kf_in k AND kf_mask k) * unat (kf_esize k)
           in (True, k\<lparr>kf_data := mem_write (kf_data k) i v, kf_in := kf_in k + 1\<rparr>))"

section \<open>The contents of a queue\<close>

text \<open>
  The buffer has \<open>2 ^ m\<close> elements and its size in bytes fits a machine word. The contents are
  the bytes of the elements from \<open>kf_out\<close> to \<open>kf_in\<close>.
\<close>

definition kfifo_ok :: "kfifo \<Rightarrow> bool" where
  "kfifo_ok k \<longleftrightarrow>
     (\<exists>m < 64. kf_mask k = mask m) \<and> 0 < kf_esize k \<and>
     length (kf_data k) = (unat (kf_mask k) + 1) * unat (kf_esize k) \<and>
     length (kf_data k) < 2 ^ 64 \<and> unat (kf_in k - kf_out k) \<le> unat (kf_mask k) + 1"

definition kfifo_bytes :: "kfifo \<Rightarrow> byte list" where
  "kfifo_bytes k =
     ring_read (kf_data k) (unat (kf_out k) * unat (kf_esize k))
       (unat (kf_in k - kf_out k) * unat (kf_esize k))"

lemma kfifo_okD:
  assumes "kfifo_ok k"
  shows "0 < unat (kf_esize k)" "length (kf_data k) = (unat (kf_mask k) + 1) * unat (kf_esize k)"
    "length (kf_data k) < 2 ^ 64" "unat (kf_in k - kf_out k) \<le> unat (kf_mask k) + 1"
  using assms unfolding kfifo_ok_def by (blast intro: unat_gt_0 [THEN iffD2] | simp add: word_gt_0 unat_gt_0)+

lemma kfifo_mask_power:
  assumes "kfifo_ok k"
  obtains m where "m < 64" "unat (kf_mask k) = mask m" "unat (kf_mask k) + 1 = 2 ^ m"
    "unat (kf_mask k + 1) = 2 ^ m"
proof -
  from assms obtain m where m: "m < 64" "kf_mask k = mask m" by (auto simp: kfifo_ok_def)
  have u: "unat (kf_mask k) = mask m" 
    unfolding m(2) by (rule bit_eqI) (use m(1) in \<open>auto simp: bit_unsigned_iff bit_mask_iff\<close>)
  then have u1: "unat (kf_mask k) + 1 = 2 ^ m" by (simp add: mask_eq_exp_minus_1)
  have "(2 :: nat) ^ m < 2 ^ 64" using m(1) by (intro power_strict_increasing) simp_all
  then have "unat (kf_mask k + 1) = 2 ^ m"
    using u1 by (simp add: unat_word_ariths)
  with m(1) u u1 show thesis by (rule that)
qed

lemma kfifo_index:
  assumes "kfifo_ok k"
  shows "unat (w AND kf_mask k) = unat w mod (unat (kf_mask k) + 1)"
proof -
  obtain m where "m < 64" "unat (kf_mask k) = mask m" "unat (kf_mask k) + 1 = 2 ^ m"
    using kfifo_mask_power [OF assms] by blast
  then show ?thesis
    by (simp only: unsigned_and_eq flip: take_bit_eq_mask take_bit_eq_mod)
qed

text \<open>Positions in the ring: the indices wrap at \<open>2 ^ 64\<close>, which the ring size divides.\<close>

lemma kfifo_pos:
  assumes ok: "kfifo_ok k"
  shows "unat (w AND kf_mask k) * unat (kf_esize k) = unat w * unat (kf_esize k) mod length (kf_data k)"
    and "unat (w AND kf_mask k) * unat (kf_esize k) < length (kf_data k)"
proof -
  note okD = kfifo_okD [OF ok]
  show *: "unat (w AND kf_mask k) * unat (kf_esize k) = unat w * unat (kf_esize k) mod length (kf_data k)"
    unfolding okD(2) kfifo_index [OF ok] by (rule mult_mod_left)
  have "0 < length (kf_data k)" unfolding okD(2) using okD(1) by simp
  then show "unat (w AND kf_mask k) * unat (kf_esize k) < length (kf_data k)"
    unfolding * by simp
qed

lemma kfifo_pos_add:
  assumes ok: "kfifo_ok k"
  shows "unat (v + w :: ulong) * unat (kf_esize k) mod length (kf_data k)
    = (unat v * unat (kf_esize k) + unat w * unat (kf_esize k)) mod length (kf_data k)"
proof -
  obtain m where m: "m < 64" "unat (kf_mask k) + 1 = 2 ^ m" using kfifo_mask_power [OF ok] by blast
  have len: "length (kf_data k) = 2 ^ m * unat (kf_esize k)"
    using kfifo_okD(2) [OF ok] unfolding m(2) .
  have dvd: "(2 :: nat) ^ m dvd 2 ^ 64" using m(1) by (intro le_imp_power_dvd) simp
  have "unat (v + w) = (unat v + unat w) mod 2 ^ 64"
    by (simp add: unat_word_ariths)
  then have "unat (v + w) mod 2 ^ m = (unat v + unat w) mod 2 ^ m"
    using dvd by (simp only: mod_mod_cancel)
  then show ?thesis
    by (simp only: len flip: mult_mod_left distrib_right)
qed

text \<open>The copies of the code are runs of the ring.\<close>

lemma kfifo_generic_copy_eq:
  assumes ok: "kfifo_ok k" and n: "unat len \<le> unat (kf_mask k) + 1"
    and r: "kfifo_generic_copy k len offset = (off, n, l)"
  shows "unat off = unat offset * unat (kf_esize k) mod length (kf_data k)"
    "unat off < length (kf_data k)"
    "unat n = unat len * unat (kf_esize k)" "unat n \<le> length (kf_data k)"
    "unat l = min (unat n) (length (kf_data k) - unat off)"
    "unat (n - l) = unat n - min (unat n) (length (kf_data k) - unat off)"
proof -
  note okD = kfifo_okD [OF ok]
  let ?e = "unat (kf_esize k)"
  obtain m where m: "unat (kf_mask k) + 1 = 2 ^ m" "unat (kf_mask k + 1) = 2 ^ m"
    using kfifo_mask_power [OF ok] by blast
  have len: "length (kf_data k) = 2 ^ m * ?e" using okD(2) unfolding m(1) .
  let ?o = "(offset AND kf_mask k) * kf_esize k"
  have r': "off = ?o" "n = len * kf_esize k" "l = min n ((kf_mask k + 1) * kf_esize k - off)"
    using r by (auto simp: kfifo_generic_copy_def Let_def split: if_splits)
  have small: "x * ?e < 2 ^ 64" if "x \<le> 2 ^ m" for x
    using mult_le_mono1 [OF that, of ?e] okD(3) len by linarith
  have "unat (offset AND kf_mask k) < 2 ^ m"
    using m(1) kfifo_index [OF ok, of offset] by simp
  then have o: "unat off = unat (offset AND kf_mask k) * ?e"
    unfolding r'(1) using small by (simp add: unat_word_ariths)
  then show "unat off = unat offset * ?e mod length (kf_data k)" and lt: "unat off < length (kf_data k)"
    using kfifo_pos [OF ok, of offset] by simp_all
  have "unat len \<le> 2 ^ m" using n m(1) by simp
  then show nn: "unat n = unat len * ?e" "unat n \<le> length (kf_data k)"
    unfolding r'(2) len using small by (simp_all add: unat_word_ariths mult_le_mono1)
  have "unat ((kf_mask k + 1) * kf_esize k) = length (kf_data k)"
    using small [of "2 ^ m"] m(2) len by (simp add: unat_word_ariths)
  then have "unat ((kf_mask k + 1) * kf_esize k - off) = length (kf_data k) - unat off"
    using lt by (simp add: unat_sub word_le_nat_alt less_imp_le)
  then show l: "unat l = min (unat n) (length (kf_data k) - unat off)"
    unfolding r'(3) by (simp add: min_def word_le_nat_alt)
  then have "l \<le> n" by (simp add: word_le_nat_alt)
  then show "unat (n - l) = unat n - min (unat n) (length (kf_data k) - unat off)"
    using l by (simp add: unat_sub)
qed

lemma kfifo_out_copy_ring:
  assumes ok: "kfifo_ok k" and n: "unat len \<le> unat (kf_mask k) + 1"
  shows "kfifo_out_copy k len offset
    = ring_read (kf_data k) (unat offset * unat (kf_esize k)) (unat len * unat (kf_esize k))"
proof -
  obtain off n l where r: "kfifo_generic_copy k len offset = (off, n, l)"
    by (metis prod_cases3)
  note g = kfifo_generic_copy_eq [OF ok assms(2) r]
  have "kfifo_out_copy k len offset = ring_read (kf_data k) (unat off) (unat n)"
    using ring_read_copy [OF g(2,4)] g(5,6) by (simp add: kfifo_out_copy_def r)
  also have "\<dots> = ring_read (kf_data k) (unat offset * unat (kf_esize k)) (unat n)"
    by (rule ring_read_cong) (simp add: g(1))
  finally show ?thesis by (simp add: g(3))
qed

lemma kfifo_in_copy_ring:
  assumes ok: "kfifo_ok k" and n: "unat len \<le> unat (kf_mask k) + 1"
    and b: "unat len * unat (kf_esize k) \<le> length buff"
  shows "kfifo_in_copy k buff len offset = k\<lparr>kf_data :=
    ring_write (kf_data k) (unat offset * unat (kf_esize k)) (take (unat len * unat (kf_esize k)) buff)\<rparr>"
proof -
  obtain off n l where r: "kfifo_generic_copy k len offset = (off, n, l)"
    by (metis prod_cases3)
  note g = kfifo_generic_copy_eq [OF ok assms(2) r]
  let ?xs = "take (unat n) buff" and ?d = "length (kf_data k) - unat off"
  have len: "length ?xs = unat n" using b g(3) by simp
  have "take (unat l) buff = take ?d ?xs" using g(5) by (simp add: min.commute)
  moreover have "take (unat (n - l)) (drop (unat l) buff) = drop ?d ?xs"
  proof (cases "unat n \<le> ?d")
    case False
    then have "unat l = ?d" "unat (n - l) = unat n - ?d" using g(5,6) by simp_all
    then show ?thesis by (simp add: drop_take)
  qed (use g(5,6) in simp)
  ultimately have "kfifo_in_copy k buff len offset = k\<lparr>kf_data := ring_write (kf_data k) (unat off) ?xs\<rparr>"
    using ring_write_copy [OF g(2), of ?xs] g(4) len by (simp add: kfifo_in_copy_def r)
  also have "ring_write (kf_data k) (unat off) ?xs
      = ring_write (kf_data k) (unat offset * unat (kf_esize k)) ?xs"
    by (rule ring_write_cong) (simp add: g(1))
  finally show ?thesis by (simp add: g(3))
qed

section \<open>What the operations do to the contents\<close>

text \<open>The number of elements held, and of those that there is room for.\<close>

abbreviation kfifo_count :: "kfifo \<Rightarrow> nat" where
  "kfifo_count k \<equiv> unat (kf_in k - kf_out k)"

definition kfifo_room :: "kfifo \<Rightarrow> nat" where
  "kfifo_room k = unat (kf_mask k) + 1 - kfifo_count k"

lemma kfifo_unused_nat:
  assumes ok: "kfifo_ok k"
  shows "unat (kfifo_unused k) = kfifo_room k"
proof -
  obtain m where m: "unat (kf_mask k) + 1 = 2 ^ m" "unat (kf_mask k + 1) = 2 ^ m"
    using kfifo_mask_power [OF ok] by blast
  moreover have "kfifo_count k \<le> 2 ^ m" using kfifo_okD(4) [OF ok] unfolding m(1) .
  ultimately show ?thesis
    by (simp add: kfifo_unused_def kfifo_room_def unat_sub word_le_nat_alt)
qed

lemma kfifo_count_add:
  assumes ok: "kfifo_ok k" and n: "unat n \<le> kfifo_room k"
  shows "unat (kf_in k + n - kf_out k) = kfifo_count k + unat n"
proof -
  obtain m where m: "m < 64" "unat (kf_mask k) + 1 = 2 ^ m"
    using kfifo_mask_power [OF ok] by blast
  have "kfifo_count k + unat n \<le> 2 ^ m"
    using n kfifo_okD(4) [OF ok] unfolding kfifo_room_def m(2) by simp
  moreover have "(2 :: nat) ^ m < 2 ^ 64" using m(1) by (intro power_strict_increasing) simp_all
  ultimately have "kfifo_count k + unat n < 2 ^ 64" by linarith
  then have "unat (kf_in k - kf_out k + n) = kfifo_count k + unat n"
    by (simp add: unat_word_ariths(1) [of "kf_in k - kf_out k"])
  then show ?thesis by (simp add: algebra_simps)
qed

lemma kfifo_in_pos:
  assumes "kfifo_ok k"
  shows "(unat (kf_in k) * unat (kf_esize k)) mod length (kf_data k)
    = (unat (kf_out k) * unat (kf_esize k) + kfifo_count k * unat (kf_esize k)) mod length (kf_data k)"
  using kfifo_pos_add [OF assms, of "kf_out k" "kf_in k - kf_out k"] by simp

text \<open>Writing behind the contents and moving the input index.\<close>

lemma kfifo_append:
  assumes ok: "kfifo_ok k" and n: "unat n \<le> kfifo_room k"
    and xs: "length xs = unat n * unat (kf_esize k)"
    and k': "k' = k\<lparr>kf_data := ring_write (kf_data k) (unat (kf_in k) * unat (kf_esize k)) xs,
                    kf_in := kf_in k + n\<rparr>"
  shows "kfifo_ok k'" and "kfifo_bytes k' = kfifo_bytes k @ xs" and "kfifo_room k' = kfifo_room k - unat n"
proof -
  note okD = kfifo_okD [OF ok]
  note cnt = kfifo_count_add [OF ok n]
  have room: "kfifo_count k + unat n \<le> unat (kf_mask k) + 1" using n okD(4) by (simp add: kfifo_room_def)
  show "kfifo_ok k'" using ok room cnt by (auto simp: kfifo_ok_def k')
  show "kfifo_room k' = kfifo_room k - unat n" using cnt by (simp add: kfifo_room_def k')
  let ?e = "unat (kf_esize k)"
  have fit: "kfifo_count k * ?e + length xs \<le> length (kf_data k)"
    using mult_le_mono1 [OF room, of ?e] unfolding okD(2) xs by (simp add: distrib_right)
  have w: "ring_write (kf_data k) (unat (kf_in k) * ?e) xs
      = ring_write (kf_data k) (unat (kf_out k) * ?e + kfifo_count k * ?e) xs"
    by (rule ring_write_cong) (rule kfifo_in_pos [OF ok])
  show "kfifo_bytes k' = kfifo_bytes k @ xs"
    using ring_read_append_write [OF fit, of "unat (kf_out k) * ?e"] cnt xs
    by (simp add: kfifo_bytes_def k' w distrib_right)
qed

text \<open>Moving the output index.\<close>

lemma kfifo_drop:
  assumes ok: "kfifo_ok k" and n: "unat n \<le> kfifo_count k" and k': "k' = k\<lparr>kf_out := kf_out k + n\<rparr>"
  shows "kfifo_ok k'" and "kfifo_bytes k' = drop (unat n * unat (kf_esize k)) (kfifo_bytes k)"
    and "kfifo_room k' = kfifo_room k + unat n"
proof -
  note okD = kfifo_okD [OF ok]
  let ?e = "unat (kf_esize k)"
  have "unat (kf_in k - kf_out k - n) = kfifo_count k - unat n"
    using n by (simp add: unat_sub word_le_nat_alt)
  then have "unat (kf_in k - (kf_out k + n)) = kfifo_count k - unat n"
    by (simp only: diff_diff_eq)
  then have cnt: "kfifo_count k' = kfifo_count k - unat n" by (simp add: k')
  show "kfifo_ok k'" using ok cnt by (auto simp: kfifo_ok_def k')
  show "kfifo_room k' = kfifo_room k + unat n" using cnt n okD(4) by (simp add: kfifo_room_def k')
  have "kfifo_bytes k' = ring_read (kf_data k) (unat (kf_out k + n) * ?e) ((kfifo_count k - unat n) * ?e)"
    using cnt by (simp add: kfifo_bytes_def k')
  also have "\<dots> = ring_read (kf_data k) (unat (kf_out k) * ?e + unat n * ?e) ((kfifo_count k - unat n) * ?e)"
    by (rule ring_read_cong) (rule kfifo_pos_add [OF ok])
  also have "\<dots> = drop (unat n * ?e) (kfifo_bytes k)"
    using n by (simp add: kfifo_bytes_def ring_read_drop mult_le_mono1 diff_mult_distrib)
  finally show "kfifo_bytes k' = drop (unat n * ?e) (kfifo_bytes k)" .
qed

lemma kfifo_bytes_length [simp]: "length (kfifo_bytes k) = kfifo_count k * unat (kf_esize k)"
  by (simp add: kfifo_bytes_def)

lemma kfifo_in_flat_spec:
  assumes ok: "kfifo_ok k" and b: "unat len * unat (kf_esize k) \<le> length buff"
    and r: "kfifo_in_flat k buff len = (n, k')"
  shows "kfifo_ok k' \<and> unat n = min (unat len) (kfifo_room k) \<and> kf_esize k' = kf_esize k \<and>
    kfifo_bytes k' = kfifo_bytes k @ take (unat n * unat (kf_esize k)) buff \<and>
    kfifo_room k' = kfifo_room k - unat n"
proof -
  let ?n = "min len (kfifo_unused k)" and ?e = "unat (kf_esize k)"
  have n: "unat ?n = min (unat len) (kfifo_room k)"
    using kfifo_unused_nat [OF ok] by (simp add: min_def word_le_nat_alt)
  then have room: "unat ?n \<le> kfifo_room k" by simp
  have "unat ?n \<le> unat len" using n by simp
  then have b': "unat ?n * ?e \<le> length buff" using b mult_le_mono1 le_trans by blast
  have cap: "unat ?n \<le> unat (kf_mask k) + 1" using room by (simp add: kfifo_room_def)
  let ?xs = "take (unat ?n * ?e) buff"
  have k': "k' = k\<lparr>kf_data := ring_write (kf_data k) (unat (kf_in k) * ?e) ?xs, kf_in := kf_in k + ?n\<rparr>"
    and nn: "n = ?n"
    using r kfifo_in_copy_ring [OF ok cap b', of "kf_in k"] by (auto simp: kfifo_in_flat_def Let_def)
  have "length ?xs = unat ?n * ?e" using b' by simp
  from kfifo_append [OF ok room this k'] show ?thesis using n by (simp add: nn k')
qed

lemma kfifo_out_flat_spec:
  assumes ok: "kfifo_ok k" and r: "kfifo_out_flat k len = (n, buff, k')"
  shows "kfifo_ok k' \<and> unat n = min (unat len) (kfifo_count k) \<and> kf_esize k' = kf_esize k \<and>
    buff = take (unat n * unat (kf_esize k)) (kfifo_bytes k) \<and>
    kfifo_bytes k' = drop (unat n * unat (kf_esize k)) (kfifo_bytes k) \<and>
    kfifo_room k' = kfifo_room k + unat n \<and> kfifo_peek_flat k len = (n, buff)"
proof -
  let ?n = "min len (kfifo_valid k)" and ?e = "unat (kf_esize k)"
  have n: "unat ?n = min (unat len) (kfifo_count k)"
    by (simp add: min_def word_le_nat_alt kfifo_valid_def)
  then have le: "unat ?n \<le> kfifo_count k" by simp
  then have cap: "unat ?n \<le> unat (kf_mask k) + 1" using kfifo_okD(4) [OF ok] by linarith
  have k': "k' = k\<lparr>kf_out := kf_out k + ?n\<rparr>" and nn: "n = ?n"
    and buff: "buff = ring_read (kf_data k) (unat (kf_out k) * ?e) (unat ?n * ?e)"
    using r kfifo_out_copy_ring [OF ok cap, of "kf_out k"]
    by (auto simp: kfifo_out_flat_def kfifo_peek_flat_def Let_def)
  have "min (unat ?n * ?e) (kfifo_count k * ?e) = unat ?n * ?e"
    using mult_le_mono1 [OF le, of ?e] by simp
  then have "buff = take (unat ?n * ?e) (kfifo_bytes k)"
    by (simp add: buff kfifo_bytes_def ring_read_take)
  moreover have "kfifo_peek_flat k len = (n, buff)"
    using kfifo_out_copy_ring [OF ok cap, of "kf_out k"] by (simp add: kfifo_peek_flat_def nn buff Let_def)
  ultimately show ?thesis using kfifo_drop [OF ok le k'] n by (simp add: nn k')
qed

section \<open>A queue of bytes as a bounded queue\<close>

text \<open>The client's view of \<open>kfifo_in\<close> and \<open>kfifo_out\<close> on a queue of bytes.\<close>

definition kfifo_write :: "byte list \<Rightarrow> kfifo \<Rightarrow> nat \<times> kfifo" where
  "kfifo_write xs k = (let (n, k') = kfifo_in_flat k xs (of_nat (length xs)) in (unat n, k'))"

definition kfifo_read :: "nat \<Rightarrow> kfifo \<Rightarrow> byte list \<times> kfifo" where
  "kfifo_read n k = (let (m, buff, k') = kfifo_out_flat k (of_nat n) in (buff, k'))"

lemma unat_of_nat_64: "n < 2 ^ 64 \<Longrightarrow> unat (of_nat n :: ulong) = n"
  by (simp add: unat_of_nat take_bit_nat_eq_self_iff)

interpretation kf: bounded_queue kfifo_write kfifo_read "\<lambda>k. kfifo_ok k \<and> kf_esize k = 1"
  kfifo_bytes kfifo_room "\<lambda>n. n < 2 ^ 64"
proof
  fix k k' :: kfifo and xs :: "byte list" and n
  assume k: "kfifo_ok k \<and> kf_esize k = 1" and len: "length xs < 2 ^ 64"
    and r: "kfifo_write xs k = (n, k')"
  obtain m where m: "kfifo_in_flat k xs (of_nat (length xs)) = (m, k')" "n = unat m"
    using r by (auto simp: kfifo_write_def split: prod.splits)
  show "(kfifo_ok k' \<and> kf_esize k' = 1) \<and> n = min (length xs) (kfifo_room k) \<and>
      kfifo_bytes k' = kfifo_bytes k @ take n xs \<and> kfifo_room k' = kfifo_room k - n"
    using kfifo_in_flat_spec [OF _ _ m(1)] k m(2) unat_of_nat_64 [OF len] by simp
next
  fix k k' :: kfifo and xs :: "byte list" and n :: nat
  assume k: "kfifo_ok k \<and> kf_esize k = 1" and len: "n < 2 ^ 64" and r: "kfifo_read n k = (xs, k')"
  obtain m where m: "kfifo_out_flat k (of_nat n) = (m, xs, k')"
    using r by (auto simp: kfifo_read_def split: prod.splits)
  show "(kfifo_ok k' \<and> kf_esize k' = 1) \<and> xs = take n (kfifo_bytes k) \<and>
      kfifo_bytes k' = drop n (kfifo_bytes k) \<and> kfifo_room k' = kfifo_room k + length xs"
    using kfifo_out_flat_spec [OF _ m] k unat_of_nat_64 [OF len] by (auto simp: min_def)
qed

section \<open>Single elements and records\<close>

lemma ring_write_one_block:
  assumes "p + length v \<le> length d" "v \<noteq> []"
  shows "mem_write d p v = ring_write d p v"
proof -
  have "0 < length v" using assms(2) by simp
  then have "p < length d" "length v \<le> length d - p" using assms(1) by linarith+
  then show ?thesis using ring_write_copy [of p d v] by (simp add: mem_write_def)
qed

lemma kfifo_slot_bound:
  assumes ok: "kfifo_ok k"
  shows "unat (w AND kf_mask k) * unat (kf_esize k) + unat (kf_esize k) \<le> length (kf_data k)"
proof -
  have "unat (w AND kf_mask k) + 1 \<le> unat (kf_mask k) + 1"
    using kfifo_index [OF ok, of w] by (simp add: less_Suc_eq_le [symmetric])
  from mult_le_mono1 [OF this, of "unat (kf_esize k)"] show ?thesis
    by (simp only: kfifo_okD(2) [OF ok] distrib_right mult_1)
qed

lemma kfifo_put_spec:
  assumes ok: "kfifo_ok k" and v: "length v = unat (kf_esize k)" and r: "kfifo_put k v = (b, k')"
  shows "(b \<longleftrightarrow> 0 < kfifo_room k) \<and> kfifo_ok k' \<and> kf_esize k' = kf_esize k \<and>
    (if b then kfifo_bytes k' = kfifo_bytes k @ v \<and> kfifo_room k' = kfifo_room k - 1 else k' = k)"
proof -
  note okD = kfifo_okD [OF ok]
  have full: "kfifo_check_full k \<longleftrightarrow> \<not> 0 < kfifo_room k"
    by (simp add: kfifo_check_full_def kfifo_len_def kfifo_room_def word_less_nat_alt) linarith
  show ?thesis
  proof (cases "kfifo_check_full k")
    case True
    then show ?thesis using r ok full by (simp add: kfifo_put_def)
  next
    case False
    let ?i = "unat (kf_in k AND kf_mask k) * unat (kf_esize k)"
    have fit: "?i + length v \<le> length (kf_data k)" unfolding v by (rule kfifo_slot_bound [OF ok])
    have "v \<noteq> []" using v okD(1) by auto
    have "mem_write (kf_data k) ?i v = ring_write (kf_data k) ?i v"
      by (rule ring_write_one_block [OF fit \<open>v \<noteq> []\<close>])
    also have "\<dots> = ring_write (kf_data k) (unat (kf_in k) * unat (kf_esize k)) v"
      by (rule ring_write_cong) (simp add: kfifo_pos(1) [OF ok])
    finally have k': "k' = k\<lparr>kf_data := ring_write (kf_data k) (unat (kf_in k) * unat (kf_esize k)) v,
        kf_in := kf_in k + 1\<rparr>" and b: "b"
      using r False by (auto simp: kfifo_put_def Let_def)
    have room: "unat (1 :: ulong) \<le> kfifo_room k" using False full by simp
    have "length v = unat (1 :: ulong) * unat (kf_esize k)" using v by simp
    from kfifo_append [OF ok room this k'] show ?thesis using b room by (simp add: k')
  qed
qed

lemma kfifo_get_spec:
  assumes ok: "kfifo_ok k" and r: "kfifo_get k = (x, k')"
  shows "kfifo_ok k' \<and> kf_esize k' = kf_esize k \<and> kfifo_peek k = x \<and>
    (case x of None \<Rightarrow> kfifo_bytes k = [] \<and> k' = k
     | Some v \<Rightarrow> kfifo_bytes k = v @ kfifo_bytes k' \<and> length v = unat (kf_esize k))"
proof (cases "kf_in k = kf_out k")
  case True
  then show ?thesis using r ok by (auto simp: kfifo_get_def kfifo_peek_def kfifo_bytes_def)
next
  case False
  note okD = kfifo_okD [OF ok]
  let ?e = "unat (kf_esize k)"
  let ?i = "unat (kf_out k AND kf_mask k) * ?e"
  have cnt: "unat (1 :: ulong) \<le> kfifo_count k"
    using False by (simp add: Suc_le_eq unat_gt_0)
  have k': "k' = k\<lparr>kf_out := kf_out k + 1\<rparr>" and x: "x = Some (take ?e (drop ?i (kf_data k)))"
    using r False by (auto simp: kfifo_get_def kfifo_peek_def Let_def)
  have "min ?e (length (kf_data k) - ?i) = ?e" using kfifo_slot_bound [OF ok, of "kf_out k"] by simp
  then have "take ?e (drop ?i (kf_data k)) = ring_read (kf_data k) ?i ?e"
    using ring_read_copy [of ?i "kf_data k" ?e] kfifo_pos(2) [OF ok, of "kf_out k"]
      kfifo_slot_bound [OF ok, of "kf_out k"] by simp
  also have "\<dots> = ring_read (kf_data k) (unat (kf_out k) * ?e) ?e"
    by (rule ring_read_cong) (simp add: kfifo_pos(1) [OF ok])
  also have "\<dots> = take ?e (kfifo_bytes k)"
  proof -
    have "?e \<le> kfifo_count k * ?e" using cnt by (cases "kfifo_count k") simp_all
    then show ?thesis by (simp add: kfifo_bytes_def ring_read_take)
  qed
  finally have v: "take ?e (drop ?i (kf_data k)) = take ?e (kfifo_bytes k)" .
  have "?e \<le> length (kfifo_bytes k)" using cnt by (cases "kfifo_count k") simp_all
  then show ?thesis
    using kfifo_drop [OF ok cnt k'] r
    by (simp add: x v kfifo_get_def k' split: option.splits)
qed

lemma kfifo_record_roundtrip_one:
  assumes ok: "kfifo_ok k" and e: "kf_esize k = 1" and empty: "kfifo_empty k"
    and len: "length xs < 256" "length xs < kfifo_room k"
    and i: "kfifo_in_record k xs (of_nat (length xs)) 1 = (n, k')"
    and o: "kfifo_out_record k' (of_nat (length xs)) 1 = (m, ys, k'')"
  shows "unat n = length xs \<and> unat m = length xs \<and> ys = xs \<and> kfifo_empty k''"
proof -
  note okD = kfifo_okD [OF ok]
  let ?L = "of_nat (length xs) :: ulong"
  have L: "unat ?L = length xs" by (rule unat_of_nat_64) (use len(1) in simp)
  have io: "kf_in k = kf_out k" using empty by (simp add: kfifo_empty_def)
  have L1: "unat (?L + 1) = length xs + 1" using L len(1) by (simp add: unat_word_ariths)
  then have fits: "\<not> ?L + 1 > kfifo_unused k"
    using len(2) kfifo_unused_nat [OF ok] by (simp add: word_less_nat_alt)
  let ?k1 = "k\<lparr>kf_data := (kf_data k)[unat (kf_out k AND kf_mask k) := ucast ?L]\<rparr>"
  have ok1: "kfifo_ok ?k1" using ok by (simp add: kfifo_ok_def)
  have room: "length xs + 1 \<le> unat (kf_mask k) + 1" using len(2) by (simp add: kfifo_room_def)
  have k1: "kfifo_record_poke k ?L 1 = ?k1"
    by (simp add: kfifo_record_poke_def kfifo_record_pos_def e)
  have ne: "kf_data k \<noteq> []" using okD(1,2) by auto
  let ?p = "unat (kf_out k)" and ?N = "length (kf_data k)"
  have pos: "unat (kf_out k + 1) mod ?N = (?p + 1) mod ?N"
    using kfifo_pos_add [OF ok, of "kf_out k" 1] e by simp
  let ?d2 = "ring_write (kf_data ?k1) (?p + 1) xs"
  have "kfifo_in_copy ?k1 xs ?L (kf_in k + 1) = ?k1\<lparr>kf_data := ring_write (kf_data ?k1) (unat (kf_out k + 1)) xs\<rparr>"
    using kfifo_in_copy_ring [OF ok1, of ?L xs "kf_in k + 1"] room L e io by simp
  then have copy: "kfifo_in_copy ?k1 xs ?L (kf_in k + 1) = ?k1\<lparr>kf_data := ?d2\<rparr>"
    using ring_write_cong [of "unat (kf_out k + 1)" "kf_data ?k1" "?p + 1" xs] pos by simp
  have k': "k' = k\<lparr>kf_data := ?d2, kf_in := kf_in k + (?L + 1)\<rparr>" and n: "n = ?L"
    using i fits k1 copy by (auto simp: kfifo_in_record_def Let_def)
  have i0: "unat (kf_out k AND kf_mask k) = ?p mod ?N" "?p mod ?N < ?N"
    using kfifo_pos [OF ok, of "kf_out k"] e by simp_all
  have N: "length xs + 1 \<le> ?N" using room okD(2) e by simp
  have "ring_read ?d2 ?p 1 = ring_read (kf_data ?k1) ?p 1"
    using ring_read_write_before [of 1 xs "kf_data ?k1" ?p] N by simp
  then have len0: "?d2 ! (?p mod ?N) = ucast ?L"
    using i0 by (simp add: ring_read_def)
  have "ring_read ?d2 (?p + 1) (length xs) = xs"
    using ring_read_write_same [of xs "kf_data ?k1" "?p + 1"] N by simp
  then have data: "ring_read ?d2 (unat (kf_out k + 1)) (length xs) = xs"
    using ring_read_cong [of "?p + 1" ?d2 "unat (kf_out k + 1)" "length xs"] pos by simp
  have "unat (ucast (ucast ?L :: byte) :: ulong) = unat ?L"
    using L len(1) by (simp add: unsigned_ucast_eq unsigned_take_bit_eq take_bit_nat_eq_self_iff)
  then have "ucast (ucast ?L :: byte) = ?L" by (simp only: word_unat_eq_iff)
  then have peek: "kfifo_record_peek k' 1 = ?L"
    using i0 len0 by (simp add: kfifo_record_peek_def kfifo_record_pos_def k' e)
  have ok': "kfifo_ok k'"
  proof -
    have "unat (kf_in k + (?L + 1) - kf_out k) = length xs + 1"
      using io L1 by (simp add: add.commute [of _ "?L + 1"])
    then show ?thesis using ok room by (auto simp: kfifo_ok_def k')
  qed
  have "?L + 1 \<noteq> 0" using L1 by (metis unat_0 add_is_0 one_neq_zero)
  then have "\<not> kfifo_empty k'" using io by (simp add: kfifo_empty_def k')
  then have "ys = kfifo_out_copy k' ?L (kf_out k' + 1)" "m = ?L" "k'' = k'\<lparr>kf_out := kf_out k' + (?L + 1)\<rparr>"
    using o peek by (auto simp: kfifo_out_record_def Let_def)
  moreover have "kfifo_out_copy k' ?L (kf_out k' + 1) = xs"
    using kfifo_out_copy_ring [OF ok', of ?L "kf_out k' + 1"] data e L room by (simp add: k')
  ultimately show ?thesis using L n io by (simp add: kfifo_empty_def k')
qed

section \<open>Properties\<close>

definition kf4 :: kfifo where
  "kf4 = \<lparr>kf_in = -1, kf_out = -2, kf_mask = 3, kf_esize = 1, kf_data = [0, 1, 7, 3]\<rparr>"

lemma kf4_ok: "kfifo_ok kf4" "kf_esize kf4 = 1" "kfifo_bytes kf4 = [7]" "kfifo_room kf4 = 3"
proof -
  have "(3 :: ulong) = mask 2" by (simp add: mask_eq_exp_minus_1)
  then have "\<exists>m < 64. (3 :: ulong) = mask m" by (intro exI [of _ 2]) simp
  then show "kfifo_ok kf4" by (simp add: kfifo_ok_def kf4_def)
  show "kf_esize kf4 = 1" "kfifo_bytes kf4 = [7]" "kfifo_room kf4 = 3"
    by (simp_all add: kf4_def kfifo_bytes_def ring_read_def kfifo_room_def)
qed

text \<open>
  \<open>kfifo_in_flat\<close> appends as many elements as there is room for, in order, and returns their
  number, for elements of any size and also when the indices wrap around.
\<close>

theorem kfifo_in_flat_appends:
  assumes "kfifo_ok k" "unat len * unat (kf_esize k) \<le> length buff" "kfifo_in_flat k buff len = (n, k')"
  shows "kfifo_ok k' \<and> unat n = min (unat len) (kfifo_room k) \<and>
    kfifo_bytes k' = kfifo_bytes k @ take (unat n * unat (kf_esize k)) buff \<and>
    kfifo_room k' = kfifo_room k - unat n"
  using kfifo_in_flat_spec [OF assms] by simp

theorem kfifo_in_flat_appends_witness:
  "kfifo_bytes (snd (kfifo_in_flat kf4 [1, 2, 3, 4] 4)) = [7, 1, 2, 3]"
proof -
  obtain n k' where r: "kfifo_in_flat kf4 [1, 2, 3, 4] 4 = (n, k')" by fastforce
  show ?thesis using kfifo_in_flat_appends [OF kf4_ok(1) _ r] kf4_ok r by simp
qed

text \<open>
  \<open>kfifo_out_flat\<close> hands out the oldest elements, as many as are there, and removes them;
  \<open>kfifo_peek_flat\<close> returns the same bytes and removes nothing.
\<close>

theorem kfifo_out_flat_takes:
  assumes "kfifo_ok k" "kfifo_out_flat k len = (n, buff, k')"
  shows "kfifo_ok k' \<and> unat n = min (unat len) (kfifo_count k) \<and>
    buff = take (unat n * unat (kf_esize k)) (kfifo_bytes k) \<and>
    kfifo_bytes k' = drop (unat n * unat (kf_esize k)) (kfifo_bytes k) \<and>
    kfifo_peek_flat k len = (n, buff)"
  using kfifo_out_flat_spec [OF assms] by simp

theorem kfifo_out_flat_takes_witness:
  "fst (snd (kfifo_out_flat kf4 5)) = [7] \<and> kfifo_bytes (snd (snd (kfifo_out_flat kf4 5))) = []"
proof -
  obtain n b k' where r: "kfifo_out_flat kf4 5 = (n, b, k')" by (metis prod_cases3)
  have "kfifo_count kf4 = 1" by (simp add: kf4_def)
  then show ?thesis using kfifo_out_flat_takes [OF kf4_ok(1) r] kf4_ok r by simp
qed

text \<open>
  C16: a byte queue is first in, first out over every session of reads and writes: what it held at
  the start followed by everything it accepted is everything it gave out followed by what it
  holds at the end; and its capacity does not change.
\<close>

theorem kfifo_session_fifo:
  assumes "kfifo_ok k" "kf_esize k = 1" "queue_run kfifo_write kfifo_read ops k = (accepted, given, k')"
    "\<forall>x \<in> set ops. case x of Inl xs \<Rightarrow> length xs < 2 ^ 64 | Inr n \<Rightarrow> n < 2 ^ 64"
  shows "kfifo_ok k' \<and> kfifo_bytes k @ accepted = given @ kfifo_bytes k' \<and>
    kfifo_room k' + length (kfifo_bytes k') = kfifo_room k + length (kfifo_bytes k)"
  using kf.run_fifo [of k ops accepted given k'] assms by auto

theorem kfifo_session_fifo_witness:
  "case queue_run kfifo_write kfifo_read [Inl [1, 2], Inr 2, Inl [3, 4, 5], Inr 9] kf4 of
     (accepted, given, k') \<Rightarrow> [7] @ accepted = given @ kfifo_bytes k'"
proof -
  obtain a g k' where r: "queue_run kfifo_write kfifo_read [Inl [1, 2], Inr 2, Inl [3, 4, 5], Inr 9] kf4 = (a, g, k')"
    by (metis prod_cases3)
  show ?thesis using kfifo_session_fifo [OF kf4_ok(1,2) r] kf4_ok(3) by (simp only: r) simp
qed

text \<open>
  \<open>kfifo_put\<close> succeeds exactly when the queue is not full and appends the element;
  \<open>kfifo_get\<close> fails exactly on an empty queue and takes the oldest element, which \<open>kfifo_peek\<close>
  shows.
\<close>

theorem kfifo_put_get:
  assumes "kfifo_ok k" "length v = unat (kf_esize k)"
  shows "(fst (kfifo_put k v) \<longleftrightarrow> 0 < kfifo_room k) \<and> kfifo_ok (snd (kfifo_put k v)) \<and>
    kfifo_bytes (snd (kfifo_put k v)) = kfifo_bytes k @ (if fst (kfifo_put k v) then v else []) \<and>
    kfifo_ok (snd (kfifo_get k)) \<and> fst (kfifo_get k) = kfifo_peek k \<and>
    (case fst (kfifo_get k) of None \<Rightarrow> kfifo_bytes k = [] \<and> snd (kfifo_get k) = k
     | Some w \<Rightarrow> kfifo_bytes k = w @ kfifo_bytes (snd (kfifo_get k)) \<and> length w = length v)"
  using kfifo_put_spec [OF assms prod.collapse [symmetric]]
    kfifo_get_spec [OF assms(1) prod.collapse [symmetric]] assms(2)
  by (auto split: option.splits)

theorem kfifo_put_get_witness: "kfifo_bytes (snd (kfifo_put kf4 [9])) = [7, 9] \<and> fst (kfifo_get kf4) = Some [7]"
proof -
  have "kfifo_bytes (snd (kfifo_put kf4 [9])) = [7, 9]"
    using kfifo_put_get [OF kf4_ok(1), of "[9]"] kf4_ok by simp
  moreover have "fst (kfifo_get kf4) = Some [7]" by (simp add: kf4_def kfifo_get_def kfifo_peek_def)
  ultimately show ?thesis ..
qed

text \<open>
  on a queue that is empty, a record with a one-byte length field comes out as it went in and
  leaves the queue empty.
\<close>

theorem kfifo_record_roundtrip:
  assumes "kfifo_ok k" "kf_esize k = 1" "kfifo_empty k" "length xs < 256" "length xs < kfifo_room k"
    "kfifo_in_record k xs (of_nat (length xs)) 1 = (n, k')"
    "kfifo_out_record k' (of_nat (length xs)) 1 = (m, ys, k'')"
  shows "unat n = length xs \<and> unat m = length xs \<and> ys = xs \<and> kfifo_empty k''"
  by (rule kfifo_record_roundtrip_one [OF assms])

definition kf8 :: kfifo where
  "kf8 = \<lparr>kf_in = 0, kf_out = 0, kf_mask = 7, kf_esize = 1, kf_data = [0, 0, 0, 0, 0, 0, 0, 0]\<rparr>"

lemma kf8_ok: "kfifo_ok kf8"
proof -
  have "(7 :: ulong) = mask 3" by (simp add: mask_eq_exp_minus_1)
  then have "\<exists>m < 64. (7 :: ulong) = mask m" by (intro exI [of _ 3]) simp
  then show ?thesis by (simp add: kfifo_ok_def kf8_def)
qed

theorem kfifo_record_roundtrip_witness:
  "fst (snd (kfifo_out_record (snd (kfifo_in_record kf8 [5, 6] 2 1)) 2 1)) = [5, 6]"
proof -
  obtain n k' where i: "kfifo_in_record kf8 [5, 6] 2 1 = (n, k')" by fastforce
  obtain m ys k'' where o: "kfifo_out_record k' 2 1 = (m, ys, k'')" by (metis prod_cases3)
  show ?thesis
    using kfifo_record_roundtrip [OF kf8_ok, of "[5, 6]" n k' m ys k''] i o
    by (simp add: kf8_def kfifo_empty_def kfifo_room_def)
qed

text \<open>
  \<open>kfifo_record_poke\<close> writes the length field at the output index: a second record put into
  the queue overwrites the length of the first one, which then comes out with a wrong length.
\<close>

theorem kfifo_second_record_breaks_first:
  "let k1 = snd (kfifo_in_record kf8 [5, 6] 2 1); k2 = snd (kfifo_in_record k1 [9] 1 1)
   in fst (snd (kfifo_out_record k1 4 1)) = [5, 6] \<and> fst (snd (kfifo_out_record k2 4 1)) = [5]"
  by (simp add: kf8_def Let_def kfifo_in_record_def kfifo_out_record_def kfifo_record_poke_def
      kfifo_record_pos_def kfifo_in_copy_def kfifo_out_copy_def kfifo_generic_copy_def
      kfifo_record_peek_def kfifo_empty_def kfifo_unused_def mem_write_def)

end
