(* ===== verification/Semaphore.thy ===== *)
theory Semaphore
  imports Prelude
begin

text \<open>
  Counting semaphores: \<^verbatim>\<open>kernel/lock/semaphore.c\<close>. Every section of the code that runs
  under the semaphore's lock is one function, and the histories of a semaphore are a step
  relation over those sections, for any number of tasks. A waiter is its task: a task sleeps in
  at most one call. How long \<open>sched_timeout\<close> sleeps is left to the scheduler: it may return at
  any time with any remaining time.
\<close>

section \<open>State and operations\<close>

type_synonym task = nat
type_synonym ttime = int

record semaphore =
  sem_count :: u32
  sem_waits :: "task list"
  sem_up :: "task \<Rightarrow> bool"

text \<open>What a section ends with: the return value of the call, or the sleep with a timeout.\<close>

datatype sem_result = SemReturn errno | SemSleep ttime

definition sem_wait_loop :: "task \<Rightarrow> ttime \<Rightarrow> semaphore \<Rightarrow> sem_result \<times> semaphore" where
  "sem_wait_loop t timeout s =
     (if timeout \<le> 0 then (SemReturn ETIME, s\<lparr>sem_waits := remove1 t (sem_waits s)\<rparr>)
      else (SemSleep timeout, s))"

definition common_down :: "task \<Rightarrow> ttime \<Rightarrow> semaphore \<Rightarrow> sem_result \<times> semaphore" where
  "common_down t timeout s =
     sem_wait_loop t timeout (s\<lparr>sem_waits := sem_waits s @ [t], sem_up := (sem_up s)(t := False)\<rparr>)"

definition sem_resume :: "task \<Rightarrow> ttime \<Rightarrow> semaphore \<Rightarrow> sem_result \<times> semaphore" where
  "sem_resume t timeout s =
     (if sem_up s t then (SemReturn ENOERR, s) else sem_wait_loop t timeout s)"

definition TTIME_MAX :: ttime where
  "TTIME_MAX = 2 ^ 63 - 1"

definition semaphore_down_timeout :: "task \<Rightarrow> ttime \<Rightarrow> semaphore \<Rightarrow> sem_result \<times> semaphore" where
  "semaphore_down_timeout t timeout s =
     (if sem_count s = 0 then common_down t timeout s
      else (SemReturn ENOERR, s\<lparr>sem_count := sem_count s - 1\<rparr>))"

definition semaphore_down :: "task \<Rightarrow> semaphore \<Rightarrow> sem_result \<times> semaphore" where
  "semaphore_down t s =
     (if sem_count s = 0 then common_down t TTIME_MAX s
      else (SemReturn ENOERR, s\<lparr>sem_count := sem_count s - 1\<rparr>))"

text \<open>The count is read into a signed \<open>int\<close>.\<close>

definition semaphore_down_trylock :: "semaphore \<Rightarrow> bool \<times> semaphore" where
  "semaphore_down_trylock s =
     (let count = sem_count s - 1
      in (0 \<le> sint count, if 0 \<le> sint count then s\<lparr>sem_count := count\<rparr> else s))"

text \<open>The second component is the task woken up.\<close>

definition semaphore_up :: "semaphore \<Rightarrow> semaphore \<times> task option" where
  "semaphore_up s =
     (case sem_waits s of
        [] \<Rightarrow> (s\<lparr>sem_count := sem_count s + 1\<rparr>, None)
      | t # ts \<Rightarrow> (s\<lparr>sem_up := (sem_up s)(t := True), sem_waits := ts\<rparr>, Some t))"

definition semaphore_init :: "u32 \<Rightarrow> semaphore" where
  "semaphore_init value = \<lparr>sem_count = value, sem_waits = [], sem_up = (\<lambda>_. False)\<rparr>"

section \<open>Histories\<close>

text \<open>
  \<open>sem_reach n s z u d\<close>: from a semaphore with \<open>n\<close> units the tasks can reach the state \<open>s\<close>, with
  the tasks in \<open>z\<close> asleep, after \<open>u\<close> ups and \<open>d\<close> successful returns of a down or trylock.
\<close>

fun sleepers :: "task \<Rightarrow> sem_result \<Rightarrow> task set \<Rightarrow> task set" where
  "sleepers t (SemReturn e) z = z - {t}"
| "sleepers t (SemSleep tmo) z = insert t z"

fun downs :: "sem_result \<Rightarrow> nat" where
  "downs (SemReturn e) = (if e = ENOERR then 1 else 0)"
| "downs (SemSleep tmo) = 0"

inductive sem_reach :: "nat \<Rightarrow> semaphore \<Rightarrow> task set \<Rightarrow> nat \<Rightarrow> nat \<Rightarrow> bool" for n where
  init: "sem_reach n (semaphore_init (of_nat n)) {} 0 0"
| down: "sem_reach n s z u d \<Longrightarrow> t \<notin> z \<Longrightarrow> semaphore_down t s = (r, s') \<Longrightarrow>
    sem_reach n s' (sleepers t r z) u (d + downs r)"
| down_timeout: "sem_reach n s z u d \<Longrightarrow> t \<notin> z \<Longrightarrow> semaphore_down_timeout t tmo s = (r, s') \<Longrightarrow>
    sem_reach n s' (sleepers t r z) u (d + downs r)"
| resume: "sem_reach n s z u d \<Longrightarrow> t \<in> z \<Longrightarrow> sem_resume t tmo s = (r, s') \<Longrightarrow>
    sem_reach n s' (sleepers t r z) u (d + downs r)"
| trylock: "sem_reach n s z u d \<Longrightarrow> semaphore_down_trylock s = (b, s') \<Longrightarrow>
    sem_reach n s' z u (if b then d + 1 else d)"
| up: "sem_reach n s z u d \<Longrightarrow> semaphore_up s = (s', w) \<Longrightarrow> sem_reach n s' z (u + 1) d"

inductive_cases sem_reachE: "sem_reach n s z u d"

text \<open>
  The invariant: waiters are asleep and not yet served, every other sleeper has been served, a
  semaphore with waiters has no unit left, and no unit is lost.
\<close>

definition sem_inv :: "nat \<Rightarrow> semaphore \<Rightarrow> task set \<Rightarrow> nat \<Rightarrow> nat \<Rightarrow> bool" where
  "sem_inv n s z u d \<longleftrightarrow>
     finite z \<and> distinct (sem_waits s) \<and> set (sem_waits s) = {t \<in> z. \<not> sem_up s t} \<and>
     (sem_waits s \<noteq> [] \<longrightarrow> sem_count s = 0) \<and>
     n + u = unat (sem_count s) + d + card {t \<in> z. sem_up s t}"

lemma unat_dec: "c \<noteq> 0 \<Longrightarrow> unat (c - 1 :: u32) + 1 = unat c"
  by (simp add: unat_minus_one Suc_pred unat_gt_0 add.commute)

lemma sem_inv_take:
  assumes "sem_inv n s z u d" "sem_count s \<noteq> 0"
  shows "sem_inv n (s\<lparr>sem_count := sem_count s - 1\<rparr>) z u (d + 1)"
  using assms unat_dec [OF assms(2)] by (auto simp: sem_inv_def)

lemma sem_inv_wait_loop:
  assumes inv: "sem_inv n s z u d" and t: "t \<in> set (sem_waits s)"
    and r: "sem_wait_loop t tmo s = (r, s')"
  shows "sem_inv n s' (sleepers t r z) u (d + downs r)"
proof (cases "tmo \<le> 0")
  case True
  then have r': "r = SemReturn ETIME" "s' = s\<lparr>sem_waits := remove1 t (sem_waits s)\<rparr>"
    using r by (simp_all add: sem_wait_loop_def)
  have "\<not> sem_up s t" "t \<in> z" using inv t by (auto simp: sem_inv_def)
  then have "{x \<in> z - {t}. sem_up s x} = {x \<in> z. sem_up s x}" by auto
  moreover have "set (remove1 t (sem_waits s)) = {x \<in> z - {t}. \<not> sem_up s x}"
    using inv by (auto simp: sem_inv_def)
  moreover have "sem_count s = 0" using inv t by (cases "sem_waits s") (auto simp: sem_inv_def)
  ultimately show ?thesis using inv by (simp add: sem_inv_def r')
next
  case False
  then have "r = SemSleep tmo" "s' = s" using r by (simp_all add: sem_wait_loop_def)
  moreover have "insert t z = z" using inv t by (auto simp: sem_inv_def)
  ultimately show ?thesis using inv by simp
qed

lemma sem_inv_common_down:
  assumes inv: "sem_inv n s z u d" and "sem_count s = 0" "t \<notin> z" "common_down t tmo s = (r, s')"
  shows "sem_inv n s' (sleepers t r z) u (d + downs r)"
proof -
  let ?s = "s\<lparr>sem_waits := sem_waits s @ [t], sem_up := (sem_up s)(t := False)\<rparr>"
  have "{x \<in> insert t z. (sem_up ?s) x} = {x \<in> z. sem_up s x}"
    "{x \<in> insert t z. \<not> (sem_up ?s) x} = insert t {x \<in> z. \<not> sem_up s x}"
    using assms(3) by auto
  then have "sem_inv n ?s (insert t z) u d"
    using inv assms(2,3) by (auto simp: sem_inv_def)
  moreover have "sem_wait_loop t tmo ?s = (r, s')" using assms(4) by (simp add: common_down_def)
  ultimately have "sem_inv n s' (sleepers t r (insert t z)) u (d + downs r)"
    using sem_inv_wait_loop [of n ?s "insert t z" u d t tmo r s'] by simp
  moreover have "sleepers t r (insert t z) = sleepers t r z" using assms(3) by (cases r) auto
  ultimately show ?thesis by simp
qed

lemma semaphore_down_is_timeout: "semaphore_down t s = semaphore_down_timeout t TTIME_MAX s"
  by (simp add: semaphore_down_def semaphore_down_timeout_def)

lemma sem_inv_down:
  assumes inv: "sem_inv n s z u d" and t: "t \<notin> z" and r: "semaphore_down_timeout t tmo s = (r, s')"
  shows "sem_inv n s' (sleepers t r z) u (d + downs r)"
proof (cases "sem_count s = 0")
  case True
  then have "common_down t tmo s = (r, s')" using r by (simp add: semaphore_down_timeout_def)
  then show ?thesis by (rule sem_inv_common_down [OF inv True t])
next
  case False
  then have "r = SemReturn ENOERR" "s' = s\<lparr>sem_count := sem_count s - 1\<rparr>" "z - {t} = z"
    using r t by (simp_all add: semaphore_down_timeout_def)
  then show ?thesis using sem_inv_take [OF inv False] by simp
qed

lemma sem_reach_inv:
  assumes "sem_reach n s z u d" "n + u < 2 ^ 32"
  shows "sem_inv n s z u d"
  using assms
proof (induction rule: sem_reach.induct)
  case init
  then have "unat (of_nat n :: u32) = n" by (simp add: unat_of_nat take_bit_nat_eq_self_iff)
  then show ?case by (simp add: sem_inv_def semaphore_init_def)
next
  case (down s z u d t r s')
  then show ?case using sem_inv_down [of n s z u d t TTIME_MAX r s'] by (simp add: semaphore_down_is_timeout)
next
  case (down_timeout s z u d t tmo r s')
  then show ?case using sem_inv_down [of n s z u d t tmo r s'] by simp
next
  case (resume s z u d t tmo r s')
  then have inv: "sem_inv n s z u d" by simp
  show ?case
  proof (cases "sem_up s t")
    case True
    then have r: "r = SemReturn ENOERR" "s' = s" using resume by (simp_all add: sem_resume_def)
    have "{x \<in> z. sem_up s x} = insert t {x \<in> z - {t}. sem_up s x}" using True resume.hyps(2) by auto
    then have "card {x \<in> z. sem_up s x} = card {x \<in> z - {t}. sem_up s x} + 1"
      using inv by (simp add: sem_inv_def)
    moreover have "{x \<in> z - {t}. \<not> sem_up s x} = {x \<in> z. \<not> sem_up s x}" using True by auto
    ultimately show ?thesis using inv by (simp add: sem_inv_def r)
  next
    case False
    then have "t \<in> set (sem_waits s)" using inv resume.hyps(2) by (simp add: sem_inv_def)
    then show ?thesis using sem_inv_wait_loop [OF inv] resume.hyps(3) False by (simp add: sem_resume_def)
  qed
next
  case (trylock s z u d b s')
  then have inv: "sem_inv n s z u d" by simp
  show ?case
  proof (cases b)
    case True
    then have "0 \<le> sint (sem_count s - 1)" using trylock.hyps(2) by (simp add: semaphore_down_trylock_def Let_def)
    then have "sem_count s \<noteq> 0" by auto
    then show ?thesis using sem_inv_take [OF inv] trylock.hyps(2) True
      by (auto simp: semaphore_down_trylock_def Let_def)
  next
    case False
    then show ?thesis using inv trylock.hyps(2) by (auto simp: semaphore_down_trylock_def Let_def)
  qed
next
  case (up s z u d s' w)
  then have inv: "sem_inv n s z u d" by simp
  show ?case
  proof (cases "sem_waits s")
    case Nil
    have "unat (sem_count s) + 1 < 2 ^ 32" using inv up.prems by (simp add: sem_inv_def)
    then have "unat (sem_count s + 1) = unat (sem_count s) + 1" by (simp add: unat_word_ariths)
    then show ?thesis using inv up.hyps(2) Nil by (auto simp: semaphore_up_def sem_inv_def)
  next
    case (Cons t ts)
    then have s': "s' = s\<lparr>sem_up := (sem_up s)(t := True), sem_waits := ts\<rparr>"
      using up.hyps(2) by (simp add: semaphore_up_def)
    have t: "t \<in> z" "\<not> sem_up s t" "t \<notin> set ts" using inv Cons by (auto simp: sem_inv_def)
    then have "{x \<in> z. ((sem_up s)(t := True)) x} = insert t {x \<in> z. sem_up s x}" by auto
    then have "card {x \<in> z. ((sem_up s)(t := True)) x} = card {x \<in> z. sem_up s x} + 1"
      using inv t by (simp add: sem_inv_def)
    moreover have "set ts = {x \<in> z. \<not> ((sem_up s)(t := True)) x}"
    proof -
      have "insert t (set ts) = {x \<in> z. \<not> sem_up s x}" using inv Cons by (simp add: sem_inv_def)
      then show ?thesis using t by auto
    qed
    ultimately show ?thesis using inv Cons by (simp add: sem_inv_def s')
  qed
qed

section \<open>Order of arrival\<close>

text \<open>
  The histories once more, with the log of the tasks in the order in which they last went to sleep
  in a down: \<open>arrived\<close> puts a task that has to wait behind all others.
\<close>

fun arrived :: "task \<Rightarrow> sem_result \<Rightarrow> task list \<Rightarrow> task list" where
  "arrived t (SemReturn e) log = log"
| "arrived t (SemSleep tmo) log = removeAll t log @ [t]"

inductive sem_arrivals :: "nat \<Rightarrow> semaphore \<Rightarrow> task set \<Rightarrow> nat \<Rightarrow> nat \<Rightarrow> task list \<Rightarrow> bool" for n where
  init: "sem_arrivals n (semaphore_init (of_nat n)) {} 0 0 []"
| down: "sem_arrivals n s z u d log \<Longrightarrow> t \<notin> z \<Longrightarrow> semaphore_down t s = (r, s') \<Longrightarrow>
    sem_arrivals n s' (sleepers t r z) u (d + downs r) (arrived t r log)"
| down_timeout: "sem_arrivals n s z u d log \<Longrightarrow> t \<notin> z \<Longrightarrow> semaphore_down_timeout t tmo s = (r, s') \<Longrightarrow>
    sem_arrivals n s' (sleepers t r z) u (d + downs r) (arrived t r log)"
| resume: "sem_arrivals n s z u d log \<Longrightarrow> t \<in> z \<Longrightarrow> sem_resume t tmo s = (r, s') \<Longrightarrow>
    sem_arrivals n s' (sleepers t r z) u (d + downs r) log"
| trylock: "sem_arrivals n s z u d log \<Longrightarrow> semaphore_down_trylock s = (b, s') \<Longrightarrow>
    sem_arrivals n s' z u (if b then d + 1 else d) log"
| up: "sem_arrivals n s z u d log \<Longrightarrow> semaphore_up s = (s', w) \<Longrightarrow> sem_arrivals n s' z (u + 1) d log"

lemma sem_arrivals_reach: "sem_arrivals n s z u d log \<Longrightarrow> sem_reach n s z u d"
  by (induction rule: sem_arrivals.induct) (blast intro: sem_reach.intros)+

lemma sem_reach_arrivals: "sem_reach n s z u d \<Longrightarrow> \<exists>log. sem_arrivals n s z u d log"
  by (induction rule: sem_reach.induct) (blast intro: sem_arrivals.intros)+

text \<open>The tasks that sleep and are not served yet, in the order of the log.\<close>

definition sem_waiting :: "semaphore \<Rightarrow> task set \<Rightarrow> task list \<Rightarrow> task list" where
  "sem_waiting s z log = filter (\<lambda>t. t \<in> z \<and> \<not> sem_up s t) log"

lemma sem_waiting_cong:
  assumes "\<And>x. x \<in> z' \<and> \<not> sem_up s' x \<longleftrightarrow> x \<in> z \<and> \<not> sem_up s x"
  shows "sem_waiting s' z' log = sem_waiting s z log"
  using assms by (simp add: sem_waiting_def)

lemma sem_waiting_remove:
  assumes "distinct (sem_waiting s z log)"
    and "\<And>x. x \<in> z' \<and> \<not> sem_up s' x \<longleftrightarrow> (x \<in> z \<and> \<not> sem_up s x) \<and> x \<noteq> t"
  shows "sem_waiting s' z' log = remove1 t (sem_waiting s z log)"
proof -
  have "sem_waiting s' z' log = filter (\<lambda>x. t \<noteq> x) (sem_waiting s z log)"
    using assms(2) by (auto simp: sem_waiting_def intro!: filter_cong)
  then show ?thesis using assms(1) by (simp add: distinct_remove1_removeAll removeAll_filter_not_eq)
qed

lemma sem_down_waits:
  assumes "semaphore_down_timeout t tmo s = (r, s')" "t \<notin> set (sem_waits s)"
  shows "sem_waits s' = (case r of SemSleep tmo' \<Rightarrow> sem_waits s @ [t] | SemReturn e \<Rightarrow> sem_waits s)"
    and "x \<noteq> t \<Longrightarrow> sem_up s' x = sem_up s x"
    and "r = SemSleep tmo' \<Longrightarrow> \<not> sem_up s' t"
  using assms by (auto simp: semaphore_down_timeout_def common_down_def sem_wait_loop_def remove1_append
      split: if_splits)

lemma sem_down_arrival:
  assumes inv: "sem_inv n s z u d" and w: "sem_waits s = sem_waiting s z log"
    and t: "t \<notin> z" and r: "semaphore_down_timeout t tmo s = (r, s')"
  shows "sem_waits s' = sem_waiting s' (sleepers t r z) (arrived t r log)"
proof -
  have "t \<notin> set (sem_waits s)" using inv t by (auto simp: sem_inv_def)
  note d = sem_down_waits [OF r this]
  have e: "x \<in> z \<Longrightarrow> sem_up s' x \<longleftrightarrow> sem_up s x" for x using d(2) [of x] t by blast
  show ?thesis
  proof (cases r)
    case (SemReturn e)
    have "sem_waiting s' (z - {t}) log = sem_waiting s z log"
      by (rule sem_waiting_cong) (metis DiffD1 DiffI d(2) singletonD t)
    then show ?thesis using d(1) w SemReturn by simp
  next
    case (SemSleep tmo')
    have "filter (\<lambda>x. x \<in> insert t z \<and> \<not> sem_up s' x) (removeAll t log) = filter (\<lambda>x. x \<in> z \<and> \<not> sem_up s x) log"
      using t e by (simp add: removeAll_filter_not_eq) (rule filter_cong, auto)
    then show ?thesis using d(1) d(3) [OF SemSleep] w SemSleep by (simp add: sem_waiting_def)
  qed
qed

lemma sem_arrivals_order:
  assumes "sem_arrivals n s z u d log" "n + u < 2 ^ 32"
  shows "sem_waits s = sem_waiting s z log"
  using assms
proof (induction rule: sem_arrivals.induct)
  case init
  show ?case by (simp add: sem_waiting_def semaphore_init_def)
next
  case (down s z u d log t r s')
  have "sem_inv n s z u d" using down sem_arrivals_reach sem_reach_inv by simp
  then show ?case using down sem_down_arrival by (simp add: semaphore_down_is_timeout)
next
  case (down_timeout s z u d log t tmo r s')
  have "sem_inv n s z u d" using down_timeout sem_arrivals_reach sem_reach_inv by simp
  then show ?case using down_timeout sem_down_arrival by simp
next
  case (resume s z u d log t tmo r s')
  have inv: "sem_inv n s z u d" using resume sem_arrivals_reach sem_reach_inv by simp
  have w: "sem_waits s = sem_waiting s z log" using resume by simp
  show ?case
  proof (cases "sem_up s t \<or> 0 < tmo")
    case True
    then have "s' = s" "sem_waiting s (sleepers t r z) log = sem_waiting s z log"
      using resume(2,3) by (auto simp: sem_resume_def sem_wait_loop_def split: if_splits intro!: sem_waiting_cong)
    then show ?thesis using w by simp
  next
    case False
    then have s': "s' = s\<lparr>sem_waits := remove1 t (sem_waits s)\<rparr>" "sleepers t r z = z - {t}"
      using resume(3) by (auto simp: sem_resume_def sem_wait_loop_def)
    have "sem_waiting s' (z - {t}) log = remove1 t (sem_waiting s z log)"
      by (rule sem_waiting_remove) (use inv w s' in \<open>auto simp: sem_inv_def\<close>)
    then show ?thesis using w s' by simp
  qed
next
  case (trylock s z u d log b s')
  then show ?case by (auto simp: semaphore_down_trylock_def Let_def sem_waiting_def split: if_splits)
next
  case (up s z u d log s' w)
  have inv: "sem_inv n s z u d" using up sem_arrivals_reach sem_reach_inv by simp
  have w: "sem_waits s = sem_waiting s z log" using up by simp
  show ?case
  proof (cases "sem_waits s")
    case Nil
    then show ?thesis using up(2) w by (auto simp: semaphore_up_def sem_waiting_def)
  next
    case (Cons t ts)
    then have s': "s' = s\<lparr>sem_up := (sem_up s)(t := True), sem_waits := ts\<rparr>"
      using up(2) by (simp add: semaphore_up_def)
    have "sem_waiting s' z log = remove1 t (sem_waiting s z log)"
      by (rule sem_waiting_remove) (use inv w s' in \<open>auto simp: sem_inv_def\<close>)
    moreover have "sem_waiting s z log = t # ts" using w Cons by simp
    ultimately show ?thesis using s' by simp
  qed
qed

section \<open>Properties\<close>

text \<open>
  C18: no unit of a semaphore is lost or made up in any interleaving of downs, timeouts, trylocks
  and ups: the units it was created with and the ups are the count, the successful returns and
  the sleepers that an up has served and that have not returned yet. So the successful returns
  never exceed the initial units plus the ups.
\<close>

theorem semaphore_conserves:
  assumes "sem_reach n s z u d" "n + u < 2 ^ 32"
  shows "n + u = unat (sem_count s) + d + card {t \<in> z. sem_up s t}"
  using sem_reach_inv [OF assms] by (simp add: sem_inv_def)

text \<open>
  C19: a semaphore that has waiters has no unit left (no wakeup is lost), every task that sleeps is
  queued exactly once or has been served, a down that has to wait joins the end of the queue, and over
  every history the queue is the tasks that wait, in the order of their arrival; an up with waiters
  serves the first, which waits longest, and a served waiter returns success when it runs, whatever
  its timeout.
\<close>

theorem semaphore_no_lost_wakeup:
  assumes "sem_reach n s z u d" "n + u < 2 ^ 32"
  shows "(sem_waits s \<noteq> [] \<longrightarrow> sem_count s = 0) \<and> distinct (sem_waits s) \<and>
    (\<forall>t \<in> z. t \<in> set (sem_waits s) \<longleftrightarrow> \<not> sem_up s t) \<and>
    (\<forall>t tmo tmo' s'. t \<notin> z \<and> semaphore_down_timeout t tmo s = (SemSleep tmo', s') \<longrightarrow>
       sem_waits s' = sem_waits s @ [t]) \<and>
    (\<exists>log. sem_arrivals n s z u d log) \<and>
    (\<forall>log. sem_arrivals n s z u d log \<longrightarrow> sem_waits s = filter (\<lambda>t. t \<in> z \<and> \<not> sem_up s t) log) \<and>
    (\<forall>t ts. sem_waits s = t # ts \<longrightarrow>
       snd (semaphore_up s) = Some t \<and> sem_waits (fst (semaphore_up s)) = ts \<and>
       (\<forall>tmo. fst (sem_resume t tmo (fst (semaphore_up s))) = SemReturn ENOERR))"
proof -
  note inv = sem_reach_inv [OF assms]
  have out: "t \<notin> z \<Longrightarrow> t \<notin> set (sem_waits s)" for t using inv by (simp add: sem_inv_def)
  have tail: "sem_waits s' = sem_waits s @ [t]"
    if "t \<notin> z" "semaphore_down_timeout t tmo s = (SemSleep tmo', s')" for t tmo tmo' s'
    using sem_down_waits(1) [OF that(2) out [OF that(1)]] by simp
  have order: "sem_waits s = filter (\<lambda>t. t \<in> z \<and> \<not> sem_up s t) log" if "sem_arrivals n s z u d log" for log
    using sem_arrivals_order [OF that assms(2)] by (simp add: sem_waiting_def)
  show ?thesis
    using inv sem_reach_arrivals [OF assms(1)] order
    by (auto simp: sem_inv_def semaphore_up_def sem_resume_def intro: tail)
qed

text \<open>A history of two tasks on a binary semaphore: task 2 waits and is served by the up of task 1.\<close>

lemma sem_demo:
  "sem_reach 1 \<lparr>sem_count = 0, sem_waits = [], sem_up = (\<lambda>_. False)(2 := True)\<rparr> {2} 1 1"
proof -
  have "sem_reach 1 (semaphore_init 1) {} 0 0" using sem_reach.init [of 1] by simp
  from sem_reach.down [OF this, of 1]
  have "sem_reach 1 \<lparr>sem_count = 0, sem_waits = [], sem_up = (\<lambda>_. False)\<rparr> {} 0 1"
    by (simp add: semaphore_down_def semaphore_init_def)
  from sem_reach.down [OF this, of 2]
  have "sem_reach 1 \<lparr>sem_count = 0, sem_waits = [2], sem_up = (\<lambda>_. False)(2 := False)\<rparr> {2} 0 1"
    by (simp add: semaphore_down_def common_down_def sem_wait_loop_def TTIME_MAX_def)
  from sem_reach.up [OF this] show ?thesis by (simp add: semaphore_up_def)
qed

theorem semaphore_conserves_witness: "1 + 1 = 0 + 1 + card {t \<in> {2 :: task}. t = 2}"
  using semaphore_conserves [OF sem_demo] by simp

text \<open>Tasks 2 and 3 wait, in this order: the up serves task 2.\<close>

lemma sem_queue_demo:
  "sem_reach 1 \<lparr>sem_count = 0, sem_waits = [2, 3], sem_up = (\<lambda>_. False)\<rparr> {3, 2} 0 1"
proof -
  have "sem_reach 1 (semaphore_init 1) {} 0 0" using sem_reach.init [of 1] by simp
  from sem_reach.down [OF this, of 1]
  have "sem_reach 1 \<lparr>sem_count = 0, sem_waits = [], sem_up = (\<lambda>_. False)\<rparr> {} 0 1"
    by (simp add: semaphore_down_def semaphore_init_def)
  from sem_reach.down [OF this, of 2]
  have "sem_reach 1 \<lparr>sem_count = 0, sem_waits = [2], sem_up = (\<lambda>_. False)\<rparr> {2} 0 1"
    by (simp add: semaphore_down_def common_down_def sem_wait_loop_def TTIME_MAX_def fun_upd_idem)
  from sem_reach.down [OF this, of 3] show ?thesis
    by (simp add: semaphore_down_def common_down_def sem_wait_loop_def TTIME_MAX_def fun_upd_idem)
qed

theorem semaphore_no_lost_wakeup_witness:
  "snd (semaphore_up \<lparr>sem_count = 0, sem_waits = [2, 3], sem_up = (\<lambda>_. False)\<rparr>) = Some 2 \<and>
    fst (sem_resume 2 0 (fst (semaphore_up \<lparr>sem_count = 0, sem_waits = [2, 3], sem_up = (\<lambda>_. False)\<rparr>)))
      = SemReturn ENOERR"
  using semaphore_no_lost_wakeup [OF sem_queue_demo] by simp

text \<open>
  \<open>semaphore_down_trylock\<close> takes a unit exactly when there is one, for counts up to
  \<open>2 ^ 31\<close>; above, where the count does not fit the signed \<open>int\<close>, it fails although there are units.
\<close>

theorem semaphore_trylock_signed:
  "fst (semaphore_down_trylock s) \<longleftrightarrow> 0 < unat (sem_count s) \<and> unat (sem_count s) \<le> 2 ^ 31"
proof -
  have nonneg: "0 \<le> sint w \<longleftrightarrow> unat w < 2 ^ 31" for w :: u32
  proof -
    have "uint w < 2 ^ 32" using uint_lt2p [of w] by simp
    then have "odd (uint w div 2 ^ 31) \<longleftrightarrow> 2 ^ 31 \<le> uint w"
    proof (cases "2 ^ 31 \<le> uint w")
      case True
      then have "uint w div 2 ^ 31 = 1" using \<open>uint w < 2 ^ 32\<close> uint_ge_0 [of w] by simp
      then show ?thesis using True by simp
    next
      case False
      then have "uint w div 2 ^ 31 = 0" by simp
      then show ?thesis using False by simp
    qed
    moreover have "0 \<le> sint w \<longleftrightarrow> \<not> odd (uint w div 2 ^ 31)"
      by (simp add: sint_uint signed_take_bit_nonnegative_iff bit_iff_odd)
    ultimately have "0 \<le> sint w \<longleftrightarrow> uint w < 2 ^ 31" by auto
    moreover have "int x < 2 ^ 31 \<longleftrightarrow> x < 2 ^ 31" for x by simp
    from this [of "unat w"] have "uint w < 2 ^ 31 \<longleftrightarrow> unat w < 2 ^ 31" by simp
    ultimately show ?thesis by simp
  qed
  show ?thesis
    by (cases "sem_count s = 0")
      (use unat_dec [of "sem_count s"] in \<open>auto simp: semaphore_down_trylock_def Let_def nonneg unat_gt_0
        unsigned_minus_1_eq_mask mask_eq_exp_minus_1\<close>)
qed

end
