(* ===== verification/Mutex.thy ===== *)
theory Mutex
  imports Prelude
begin

text \<open>
  The mutex of \<^verbatim>\<open>kernel/lock/mutex.c\<close>, at the granularity of its atomic operations. A task
  is the address of its \<open>struct sched_task\<close>, whose low three bits are free for the flags of the
  owner word. Each task has a program counter; \<open>mutex_exec\<close> is one atomic step of the task's
  code and the histories interleave the steps of any number of tasks.
\<close>

section \<open>State\<close>

type_synonym task_ptr = ulong

record mutex =
  mx_owner :: ulong
  mx_lock :: "task_ptr option"
  mx_waits :: "task_ptr list"

definition MUTEX_FLAG_WAITERS :: ulong where "MUTEX_FLAG_WAITERS = 1"
definition MUTEX_FLAG_HANDOFF :: ulong where "MUTEX_FLAG_HANDOFF = 2"
definition MUTEX_FLAG_PICKUP :: ulong where "MUTEX_FLAG_PICKUP = 4"
definition MUTEX_FLAGS :: ulong where "MUTEX_FLAGS = 7"

definition owner_flags :: "ulong \<Rightarrow> ulong" where
  "owner_flags owner = owner AND MUTEX_FLAGS"

definition owner_task :: "ulong \<Rightarrow> task_ptr" where
  "owner_task owner = owner AND NOT MUTEX_FLAGS"

definition owner_make :: "task_ptr \<Rightarrow> ulong \<Rightarrow> ulong" where
  "owner_make task flags = task OR flags"

definition mutex_flag_set :: "ulong \<Rightarrow> mutex \<Rightarrow> mutex" where
  "mutex_flag_set flags m = m\<lparr>mx_owner := mx_owner m OR flags\<rparr>"

definition mutex_flag_clear :: "ulong \<Rightarrow> mutex \<Rightarrow> mutex" where
  "mutex_flag_clear flags m = m\<lparr>mx_owner := mx_owner m AND NOT flags\<rparr>"

text \<open>\<open>atomic_try_cmpxchg\<close>: success and the new mutex, or failure and the value found.\<close>

definition try_cmpxchg :: "ulong \<Rightarrow> ulong \<Rightarrow> mutex \<Rightarrow> (mutex, ulong) sum" where
  "try_cmpxchg old new m = (if mx_owner m = old then Inl (m\<lparr>mx_owner := new\<rparr>) else Inr (mx_owner m))"

definition mutex_waiter_enqueue :: "task_ptr \<Rightarrow> mutex \<Rightarrow> mutex" where
  "mutex_waiter_enqueue t m =
     (let m1 = m\<lparr>mx_waits := mx_waits m @ [t]\<rparr>
      in if hd (mx_waits m1) = t then mutex_flag_set MUTEX_FLAG_WAITERS m1 else m1)"

definition mutex_waiter_dequeue :: "task_ptr \<Rightarrow> mutex \<Rightarrow> mutex" where
  "mutex_waiter_dequeue t m =
     (let m1 = m\<lparr>mx_waits := remove1 t (mx_waits m)\<rparr>
      in if mx_waits m1 = [] then mutex_flag_clear MUTEX_FLAG_WAITERS m1 else m1)"

definition mutex_waiter_first :: "task_ptr \<Rightarrow> mutex \<Rightarrow> bool" where
  "mutex_waiter_first t m = (case mx_waits m of [] \<Rightarrow> False | w # ws \<Rightarrow> w = t)"

section \<open>One round of the trylock loop\<close>

text \<open>
  The body of the loop of \<open>mutex_common_trylock\<close> up to its \<open>atomic_try_cmpxchg\<close>: leave the loop,
  or try to write the task and the flags.
\<close>

datatype try_round = TryBreak | TryWrite task_ptr ulong

definition trylock_round :: "task_ptr \<Rightarrow> bool \<Rightarrow> ulong \<Rightarrow> try_round" where
  "trylock_round cur handoff owner =
     (let task = owner_task owner; flags = owner_flags owner
      in if task = 0 then TryWrite cur flags
         else if flags AND MUTEX_FLAG_PICKUP \<noteq> 0 then
           (if task \<noteq> cur then TryBreak else TryWrite task (flags AND NOT MUTEX_FLAG_PICKUP))
         else if handoff then
           (if flags AND MUTEX_FLAG_HANDOFF \<noteq> 0 then TryBreak
            else TryWrite task (flags OR MUTEX_FLAG_HANDOFF))
         else TryBreak)"

section \<open>The code of a task\<close>

text \<open>The calls of \<open>mutex_common_trylock\<close>; \<open>SiteWake first\<close> is the one after a wakeup.\<close>

datatype site = SiteTrylock | SiteLock1 | SiteLock2 | SiteLoop | SiteWake bool

datatype pc = Idle | FastLock | TryRead site | TryCas site ulong | SpinLock2 | Enqueue | Sleep | Awake
  | SpinLockLoop | SpinLockFinish | Finish | ExitUnlock | Held | FastUnlock | SlowRead
  | SlowCas ulong | SlowSpin ulong | SlowWake ulong | HandoffCas "task_ptr" ulong | SlowExit

fun site_handoff :: "site \<Rightarrow> bool" where
  "site_handoff (SiteWake first) = first"
| "site_handoff s = False"

text \<open>
  Where a call continues, for the value \<open>mutex_common_trylock\<close> returns: null on success.
\<close>

fun trylock_return :: "site \<Rightarrow> task_ptr \<Rightarrow> pc" where
  "trylock_return SiteTrylock r = (if r = 0 then Held else Idle)"
| "trylock_return SiteLock1 r = (if r \<noteq> 0 then Held else SpinLock2)"
| "trylock_return SiteLock2 r = (if r \<noteq> 0 then ExitUnlock else Enqueue)"
| "trylock_return SiteLoop r = (if r \<noteq> 0 then Finish else Sleep)"
| "trylock_return (SiteWake first) r = (if r = 0 then SpinLockFinish else SpinLockLoop)"

definition trylock_cas :: "task_ptr \<Rightarrow> site \<Rightarrow> ulong \<Rightarrow> mutex \<Rightarrow> mutex \<times> pc" where
  "trylock_cas cur s owner m =
     (case trylock_round cur (site_handoff s) owner of
        TryBreak \<Rightarrow> (m, trylock_return s (owner_task owner))
      | TryWrite task flags \<Rightarrow>
          (case try_cmpxchg owner (owner_make task flags) m of
             Inl m' \<Rightarrow> (m', trylock_return s (if task = cur then 0 else owner_task owner))
           | Inr found \<Rightarrow> (m, TryCas s found)))"

definition spin_acquire :: "task_ptr \<Rightarrow> pc \<Rightarrow> mutex \<Rightarrow> (mutex \<times> pc) option" where
  "spin_acquire cur k m = (if mx_lock m = None then Some (m\<lparr>mx_lock := Some cur\<rparr>, k) else None)"

definition handoff_value :: "task_ptr \<Rightarrow> ulong \<Rightarrow> ulong" where
  "handoff_value task owner =
     (let new = (owner AND MUTEX_FLAG_WAITERS) OR task
      in if task \<noteq> 0 then new OR MUTEX_FLAG_PICKUP else new)"

text \<open>
  \<open>None\<close>: the task spins on the mutex's spin lock (or is outside the code). The spin lock is
  taken around the reads and writes of the wait list.
\<close>

fun mutex_exec :: "task_ptr \<Rightarrow> mutex \<Rightarrow> pc \<Rightarrow> (mutex \<times> pc) option" where
  "mutex_exec cur m Idle = None"
| "mutex_exec cur m Held = None"
| "mutex_exec cur m FastLock =
     (case try_cmpxchg 0 cur m of Inl m' \<Rightarrow> Some (m', Held) | Inr found \<Rightarrow> Some (m, TryRead SiteLock1))"
| "mutex_exec cur m (TryRead s) = Some (m, TryCas s (mx_owner m))"
| "mutex_exec cur m (TryCas s owner) = Some (trylock_cas cur s owner m)"
| "mutex_exec cur m SpinLock2 = spin_acquire cur (TryRead SiteLock2) m"
| "mutex_exec cur m Enqueue = Some (mutex_waiter_enqueue cur m, TryRead SiteLoop)"
| "mutex_exec cur m Sleep = Some (m\<lparr>mx_lock := None\<rparr>, Awake)"
| "mutex_exec cur m Awake = Some (m, TryRead (SiteWake (mutex_waiter_first cur m)))"
| "mutex_exec cur m SpinLockLoop = spin_acquire cur (TryRead SiteLoop) m"
| "mutex_exec cur m SpinLockFinish = spin_acquire cur Finish m"
| "mutex_exec cur m Finish = Some (mutex_waiter_dequeue cur m, ExitUnlock)"
| "mutex_exec cur m ExitUnlock = Some (m\<lparr>mx_lock := None\<rparr>, Held)"
| "mutex_exec cur m FastUnlock =
     (case try_cmpxchg cur 0 m of Inl m' \<Rightarrow> Some (m', Idle) | Inr found \<Rightarrow> Some (m, SlowRead))"
| "mutex_exec cur m SlowRead = Some (m, SlowCas (mx_owner m))"
| "mutex_exec cur m (SlowCas owner) =
     (if owner AND MUTEX_FLAG_HANDOFF \<noteq> 0 then Some (m, SlowSpin owner)
      else case try_cmpxchg owner (owner_flags owner) m of
          Inl m' \<Rightarrow> Some (m', if owner AND MUTEX_FLAG_WAITERS \<noteq> 0 then SlowSpin owner else Idle)
        | Inr found \<Rightarrow> Some (m, SlowCas found))"
| "mutex_exec cur m (SlowSpin owner) = spin_acquire cur (SlowWake owner) m"
| "mutex_exec cur m (SlowWake owner) =
     (let wake = (case mx_waits m of [] \<Rightarrow> 0 | w # ws \<Rightarrow> w)
      in Some (m, if owner AND MUTEX_FLAG_HANDOFF \<noteq> 0 then HandoffCas wake (mx_owner m) else SlowExit))"
| "mutex_exec cur m (HandoffCas wake owner) =
     (case try_cmpxchg owner (handoff_value wake owner) m of
        Inl m' \<Rightarrow> Some (m', SlowExit) | Inr found \<Rightarrow> Some (m, HandoffCas wake found))"
| "mutex_exec cur m SlowExit = Some (m\<lparr>mx_lock := None\<rparr>, Idle)"

definition mutex_init :: mutex where
  "mutex_init = \<lparr>mx_owner = 0, mx_lock = None, mx_waits = []\<rparr>"

definition task_ok :: "task_ptr \<Rightarrow> bool" where
  "task_ok t \<longleftrightarrow> t \<noteq> 0 \<and> t AND MUTEX_FLAGS = 0"

text \<open>
  The reachable states; \<open>L\<close> are the tasks that call \<open>mutex_lock\<close>, all tasks may call
  \<open>mutex_trylock\<close>, and a task unlocks only what it believes to hold.
\<close>

inductive mutex_reach :: "task_ptr set \<Rightarrow> mutex \<Rightarrow> (task_ptr \<Rightarrow> pc) \<Rightarrow> bool" for L where
  init: "mutex_reach L mutex_init (\<lambda>_. Idle)"
| lock: "mutex_reach L m pc \<Longrightarrow> task_ok t \<Longrightarrow> t \<in> L \<Longrightarrow> pc t = Idle \<Longrightarrow>
    mutex_reach L m (pc(t := FastLock))"
| trylock: "mutex_reach L m pc \<Longrightarrow> task_ok t \<Longrightarrow> pc t = Idle \<Longrightarrow>
    mutex_reach L m (pc(t := TryRead SiteTrylock))"
| unlock: "mutex_reach L m pc \<Longrightarrow> pc t = Held \<Longrightarrow> mutex_reach L m (pc(t := FastUnlock))"
| exec: "mutex_reach L m pc \<Longrightarrow> mutex_exec t m (pc t) = Some (m', k) \<Longrightarrow> mutex_reach L m' (pc(t := k))"

section \<open>Exclusion for the trylock interface\<close>

definition holds :: "(task_ptr \<Rightarrow> pc) \<Rightarrow> task_ptr \<Rightarrow> bool" where
  "holds pc t \<longleftrightarrow> pc t = Held \<or> pc t = FastUnlock"

fun try_pc :: "pc \<Rightarrow> bool" where
  "try_pc Idle = True"
| "try_pc (TryRead s) = (s = SiteTrylock)"
| "try_pc (TryCas s owner) = (s = SiteTrylock \<and> owner AND MUTEX_FLAGS = 0)"
| "try_pc Held = True"
| "try_pc FastUnlock = True"
| "try_pc k = False"

definition try_inv :: "mutex \<Rightarrow> (task_ptr \<Rightarrow> pc) \<Rightarrow> bool" where
  "try_inv m pc \<longleftrightarrow>
     mx_owner m AND MUTEX_FLAGS = 0 \<and> (\<forall>t. try_pc (pc t)) \<and> (\<forall>t. pc t \<noteq> Idle \<longrightarrow> task_ok t) \<and>
     (\<forall>t. holds pc t \<longrightarrow> t = mx_owner m)"

lemma try_inv_holder: "try_inv m pc \<Longrightarrow> holds pc t \<Longrightarrow> t = mx_owner m"
  by (simp add: try_inv_def)

lemma owner_parts:
  assumes "owner AND MUTEX_FLAGS = 0"
  shows "owner_task owner = owner" "owner_flags owner = 0"
proof -
  have "owner = (owner AND NOT MUTEX_FLAGS) OR (owner AND MUTEX_FLAGS)"
    by (rule bit_eqI) (auto simp: bit_simps)
  then show "owner_task owner = owner" using assms by (simp add: owner_task_def)
  show "owner_flags owner = 0" using assms by (simp add: owner_flags_def)
qed

lemma trylock_cas_free:
  assumes "owner AND MUTEX_FLAGS = 0"
  shows "trylock_cas t SiteTrylock owner m =
    (if owner = 0 then (if mx_owner m = 0 then (m\<lparr>mx_owner := t\<rparr>, Held) else (m, TryCas SiteTrylock (mx_owner m)))
     else (m, Idle))"
  using owner_parts [OF assms]
  by (simp add: trylock_cas_def trylock_round_def Let_def try_cmpxchg_def owner_make_def)

lemma try_inv_exec:
  assumes inv: "try_inv m pc" and ex: "mutex_exec t m (pc t) = Some (m', k)"
  shows "try_inv m' (pc(t := k))"
proof -
  have tp: "try_pc (pc t)" using inv by (simp add: try_inv_def)
  show ?thesis
  proof (cases "pc t")
    case (TryRead s)
    then have "m' = m" "k = TryCas SiteTrylock (mx_owner m)" "task_ok t"
      using ex tp inv by (auto simp: try_inv_def)
    then show ?thesis using inv by (auto simp: try_inv_def holds_def)
  next
    case (TryCas s owner)
    then have s: "s = SiteTrylock" and o: "owner AND MUTEX_FLAGS = 0" and ok: "task_ok t"
      using tp inv by (auto simp: try_inv_def)
    from ex have e: "trylock_cas t SiteTrylock owner m = (m', k)" by (simp add: TryCas s)
    consider "owner \<noteq> 0" | "owner = 0" "mx_owner m = 0" | "owner = 0" "mx_owner m \<noteq> 0" by blast
    then show ?thesis
    proof cases
      case 1
      then show ?thesis using e inv by (auto simp: trylock_cas_free [OF o] try_inv_def holds_def)
    next
      case 2
      then have "m' = m\<lparr>mx_owner := t\<rparr>" "k = Held" using e trylock_cas_free [OF o, of t m] by auto
      moreover have "\<not> holds pc u" for u
        using inv 2(2) by (auto simp: try_inv_def holds_def task_ok_def)
      ultimately show ?thesis using inv ok by (auto simp: try_inv_def holds_def task_ok_def)
    next
      case 3
      then have "m' = m" "k = TryCas SiteTrylock (mx_owner m)"
        using e trylock_cas_free [OF o, of t m] by auto
      then show ?thesis using inv ok by (auto simp: try_inv_def holds_def)
    qed
  next
    case FastUnlock
    then have "mx_owner m = t" using inv by (auto simp: try_inv_def holds_def)
    then have "m' = m\<lparr>mx_owner := 0\<rparr>" "k = Idle" using ex FastUnlock by (auto simp: try_cmpxchg_def)
    moreover have "\<not> holds pc u" if "u \<noteq> t" for u
      using inv \<open>mx_owner m = t\<close> that by (auto simp: try_inv_def)
    ultimately show ?thesis using inv by (auto simp: try_inv_def holds_def)
  qed (use ex tp in simp_all)
qed

lemma mutex_reach_try_inv: "mutex_reach {} m pc \<Longrightarrow> try_inv m pc"
proof (induction rule: mutex_reach.induct)
  case init
  then show ?case by (simp add: try_inv_def mutex_init_def holds_def)
next
  case (exec m pc t m' k)
  then show ?case by (intro try_inv_exec)
next
  case (unlock m pc t)
  have h: "holds (pc(t := FastUnlock)) = holds pc"
    using unlock.hyps(2) by (auto simp: holds_def fun_eq_iff)
  have ok: "task_ok t" using unlock.IH unlock.hyps(2) by (simp add: try_inv_def)
  show ?case using unlock.IH ok unfolding try_inv_def h by simp
qed (auto simp: try_inv_def holds_def)

section \<open>Properties\<close>

text \<open>
  C22: with \<open>mutex_trylock\<close> and \<open>mutex_unlock\<close> alone, in every interleaving of the atomic steps of
  any number of tasks, at most one task holds the mutex, and the owner word is its address.
\<close>

theorem mutex_trylock_exclusion:
  assumes "mutex_reach {} m pc"
  shows "(\<forall>t. pc t = Held \<longrightarrow> t = mx_owner m) \<and> (\<forall>t u. pc t = Held \<and> pc u = Held \<longrightarrow> t = u)"
  using try_inv_holder [OF mutex_reach_try_inv [OF assms]] by (metis holds_def)

lemma demo_tasks: "task_ok 8" "task_ok 16"
  by (simp_all add: task_ok_def MUTEX_FLAGS_def)

lemma trylock_demo:
  "mutex_reach L \<lparr>mx_owner = 8, mx_lock = None, mx_waits = []\<rparr> ((\<lambda>_. Idle)(8 := Held))"
proof -
  from mutex_reach.trylock [OF mutex_reach.init demo_tasks(1)]
  have "mutex_reach L mutex_init ((\<lambda>_. Idle)(8 := TryRead SiteTrylock))" by simp
  from mutex_reach.exec [OF this, of 8]
  have "mutex_reach L mutex_init ((\<lambda>_. Idle)(8 := TryCas SiteTrylock 0))" by (simp add: mutex_init_def)
  from mutex_reach.exec [OF this, of 8]
  show ?thesis by (simp add: trylock_cas_free mutex_init_def)
qed

theorem mutex_trylock_exclusion_witness: "mx_owner \<lparr>mx_owner = 8, mx_lock = None, mx_waits = []\<rparr> = 8"
  using mutex_trylock_exclusion [OF trylock_demo] by simp

text \<open>
  C37: \<open>mutex_lock\<close> does not exclude: \<open>mutex_common_lock\<close> takes a null result of
  \<open>mutex_common_trylock\<close>, which is success, for failure and the other way round, so that a task that
  finds the mutex taken returns at once, and two tasks are inside the critical section.
\<close>

theorem mutex_lock_does_not_exclude:
  "\<exists>m pc. mutex_reach {8, 16} m pc \<and> pc 8 = Held \<and> pc 16 = Held"
proof -
  let ?m = "\<lparr>mx_owner = 8, mx_lock = None, mx_waits = []\<rparr>"
  from mutex_reach.lock [OF mutex_reach.init demo_tasks(1), of "{8, 16}"]
  have "mutex_reach {8, 16} mutex_init ((\<lambda>_. Idle)(8 := FastLock))" by simp
  from mutex_reach.exec [OF this, of 8]
  have "mutex_reach {8, 16} ?m ((\<lambda>_. Idle)(8 := Held))" by (simp add: try_cmpxchg_def mutex_init_def)
  from mutex_reach.lock [OF this demo_tasks(2)]
  have "mutex_reach {8, 16} ?m ((\<lambda>_. Idle)(8 := Held, 16 := FastLock))" by simp
  from mutex_reach.exec [OF this, of 16]
  have "mutex_reach {8, 16} ?m ((\<lambda>_. Idle)(8 := Held, 16 := TryRead SiteLock1))"
    by (simp add: try_cmpxchg_def)
  from mutex_reach.exec [OF this, of 16]
  have "mutex_reach {8, 16} ?m ((\<lambda>_. Idle)(8 := Held, 16 := TryCas SiteLock1 8))" by simp
  from mutex_reach.exec [OF this, of 16]
  have "mutex_reach {8, 16} ?m ((\<lambda>_. Idle)(8 := Held, 16 := Held))"
    by (simp add: trylock_cas_def trylock_round_def owner_task_def owner_flags_def MUTEX_FLAGS_def
        MUTEX_FLAG_PICKUP_def Let_def)
  then show ?thesis
    by (intro exI [of _ ?m] exI [of _ "(\<lambda>_. Idle)(8 := Held, 16 := Held)"] conjI) simp_all
qed

end
