(* ===== verification/Bitmap.thy ===== *)
theory Bitmap
  imports Bitops
begin

text \<open>
  Bitmaps: the searches of \<^verbatim>\<open>lib/bitops.c\<close> with the iteration macros of
  \<^verbatim>\<open>include/bitops.h\<close>, and the operations of \<^verbatim>\<open>lib/bitmap.c\<close>. Indices are naturals;
  the bit counts of the searches and of \<open>BITS_TO_LONG\<close> are those up to \<open>2 ^ 32 - 64\<close>, for which the
  \<open>unsigned int\<close> positions of the code do not wrap. Reading a word outside of the array is left
  unspecified, writing one is \<open>None\<close>.
\<close>

section \<open>Searches\<close>

fun comp_find_first_loop :: "(ulong \<Rightarrow> nat) \<Rightarrow> ulong \<Rightarrow> bool \<Rightarrow> ulong list \<Rightarrow> nat \<Rightarrow> nat \<Rightarrow> nat" where
  "comp_find_first_loop search none swap [] base bits = bits"
| "comp_find_first_loop search none swap (w # blk) base bits =
     (if base < bits then
        let value = (if swap then swab w else w)
        in if value = none then comp_find_first_loop search none swap blk (base + BITS_PER_LONG) bits
           else base + search value
      else bits)"

definition comp_find_first_bit :: "ulong list \<Rightarrow> nat \<Rightarrow> bool \<Rightarrow> nat" where
  "comp_find_first_bit blk bits swap = comp_find_first_loop ffsuf 0 swap blk 0 bits"

definition comp_find_first_zero :: "ulong list \<Rightarrow> nat \<Rightarrow> bool \<Rightarrow> nat" where
  "comp_find_first_zero blk bits swap = comp_find_first_loop ffzuf (- 1) swap blk 0 bits"

text \<open>The loop of the searches from the end, from word \<open>idx\<close> down; \<open>none\<close> is \<open>ULONG_MIN\<close> or \<open>ULONG_MAX\<close>.\<close>

fun comp_find_last_loop ::
  "(ulong \<Rightarrow> nat) \<Rightarrow> ulong \<Rightarrow> bool \<Rightarrow> ulong list \<Rightarrow> nat \<Rightarrow> ulong \<Rightarrow> nat \<Rightarrow> nat" where
  "comp_find_last_loop search none swap blk bits val idx =
     (let value = (if swap then swab (blk ! idx) else blk ! idx)
      in if (value XOR none) AND val \<noteq> 0 then idx * BITS_PER_LONG + search value
         else case idx of 0 \<Rightarrow> bits
           | Suc i \<Rightarrow> comp_find_last_loop search none swap blk bits (- 1) i)"

declare comp_find_last_loop.simps [simp del]

definition comp_find_last_bit :: "ulong list \<Rightarrow> nat \<Rightarrow> bool \<Rightarrow> nat" where
  "comp_find_last_bit blk bits swap =
     (if bits \<noteq> 0 then comp_find_last_loop flsuf 0 swap blk bits (BIT_LOW_MASK bits)
                          ((bits - 1) div BITS_PER_LONG)
      else bits)"

definition comp_find_last_zero :: "ulong list \<Rightarrow> nat \<Rightarrow> bool \<Rightarrow> nat" where
  "comp_find_last_zero blk bits swap =
     (if bits \<noteq> 0 then comp_find_last_loop flzuf (- 1) swap blk bits (BIT_LOW_MASK bits)
                          ((bits - 1) div BITS_PER_LONG)
      else bits)"

definition find_fetch :: "ulong list \<Rightarrow> ulong list option \<Rightarrow> ulong \<Rightarrow> nat \<Rightarrow> ulong" where
  "find_fetch addr1 addr2 invert start =
     (let tmp = addr1 ! (start div BITS_PER_LONG);
          tmp = (case addr2 of None \<Rightarrow> tmp | Some a \<Rightarrow> tmp AND a ! (start div BITS_PER_LONG))
      in tmp XOR invert)"

function comp_find_next_loop ::
  "ulong list \<Rightarrow> ulong list option \<Rightarrow> nat \<Rightarrow> ulong \<Rightarrow> bool \<Rightarrow> nat \<Rightarrow> ulong \<Rightarrow> nat" where
  "comp_find_next_loop addr1 addr2 bits invert swap start tmp =
     (if tmp = 0 then
        let start = start + BITS_PER_LONG
        in if bits \<le> start then bits
           else comp_find_next_loop addr1 addr2 bits invert swap start
                  (find_fetch addr1 addr2 invert start)
      else min (start + ffsuf (if swap then swab tmp else tmp)) bits)"
  by pat_completeness auto
termination
  by (relation "measure (\<lambda>(addr1, addr2, bits, invert, swap, start, tmp). bits - start)")
     (auto simp: BITS_PER_LONG_def)

declare comp_find_next_loop.simps [simp del]

definition comp_find_next_bit ::
  "ulong list \<Rightarrow> ulong list option \<Rightarrow> nat \<Rightarrow> nat \<Rightarrow> ulong \<Rightarrow> bool \<Rightarrow> nat" where
  "comp_find_next_bit addr1 addr2 bits start invert swap =
     (if bits \<le> start then bits
      else let tmp = find_fetch addr1 addr2 invert start;
               m = (if swap then swab (BIT_HIGH_MASK start) else BIT_HIGH_MASK start)
           in comp_find_next_loop addr1 addr2 bits invert swap
                (start - start mod BITS_PER_LONG) (tmp AND m))"

text \<open>
  The step \<open>start -= BITS_PER_LONG\<close> wraps below zero to a value that is not below \<open>bits\<close>.
\<close>

function comp_find_prev_loop ::
  "ulong list \<Rightarrow> ulong list option \<Rightarrow> nat \<Rightarrow> ulong \<Rightarrow> bool \<Rightarrow> nat \<Rightarrow> ulong \<Rightarrow> nat" where
  "comp_find_prev_loop addr1 addr2 bits invert swap start tmp =
     (if tmp = 0 then
        if start < BITS_PER_LONG \<or> bits \<le> start - BITS_PER_LONG then bits
        else comp_find_prev_loop addr1 addr2 bits invert swap (start - BITS_PER_LONG)
               (find_fetch addr1 addr2 invert (start - BITS_PER_LONG))
      else min (start + flsuf (if swap then swab tmp else tmp)) bits)"
  by pat_completeness auto
termination
  by (relation "measure (\<lambda>(addr1, addr2, bits, invert, swap, start, tmp). start)")
     (auto simp: BITS_PER_LONG_def)

declare comp_find_prev_loop.simps [simp del]

definition comp_find_prev_bit ::
  "ulong list \<Rightarrow> ulong list option \<Rightarrow> nat \<Rightarrow> nat \<Rightarrow> ulong \<Rightarrow> bool \<Rightarrow> nat" where
  "comp_find_prev_bit addr1 addr2 bits start invert swap =
     (if bits \<le> start then bits
      else let tmp = find_fetch addr1 addr2 invert start;
               m = (if swap then swab (BIT_HIGH_MASK start) else BIT_HIGH_MASK start)
           in comp_find_prev_loop addr1 addr2 bits invert swap
                (start - start mod BITS_PER_LONG) (tmp AND m))"

text \<open>
  The inlined wrappers. Whether the compiler knows the bit count, \<open>__builtin_constant_p\<close>, is the
  argument \<open>const\<close> of every call: a constant of at most one word takes a branch of its own.
\<close>

definition small_const_nbits :: "bool \<Rightarrow> nat \<Rightarrow> bool" where
  "small_const_nbits const nbits \<longleftrightarrow> const \<and> nbits \<le> BITS_PER_LONG \<and> 0 < nbits"

definition find_next_bit :: "bool \<Rightarrow> ulong list \<Rightarrow> nat \<Rightarrow> nat \<Rightarrow> nat" where
  "find_next_bit const addr bits offset =
     (if small_const_nbits const bits then
        if bits \<le> offset then bits
        else let val = addr ! 0 AND BIT_RANGE (bits - 1) offset
             in if val \<noteq> 0 then ffsuf val else bits
      else comp_find_next_bit addr None bits offset 0 False)"

definition find_prev_bit :: "bool \<Rightarrow> ulong list \<Rightarrow> nat \<Rightarrow> nat \<Rightarrow> nat" where
  "find_prev_bit const addr bits offset =
     (if small_const_nbits const bits then
        if bits \<le> offset then bits
        else let val = addr ! 0 AND BIT_RANGE (bits - 1) offset
             in if val \<noteq> 0 then flsuf val else bits
      else comp_find_prev_bit addr None bits offset 0 False)"

definition find_next_zero :: "bool \<Rightarrow> ulong list \<Rightarrow> nat \<Rightarrow> nat \<Rightarrow> nat" where
  "find_next_zero const addr bits offset =
     (if small_const_nbits const bits then
        if bits \<le> offset then bits
        else let val = addr ! 0 OR NOT (BIT_RANGE (bits - 1) offset)
             in if val \<noteq> 0 then ffzuf val else bits
      else comp_find_next_bit addr None bits offset (- 1) False)"

definition find_next_and_bit :: "bool \<Rightarrow> ulong list \<Rightarrow> ulong list \<Rightarrow> nat \<Rightarrow> nat \<Rightarrow> nat" where
  "find_next_and_bit const addr1 addr2 bits offset =
     (if small_const_nbits const bits then
        if bits \<le> offset then bits
        else let val = addr1 ! 0 AND addr2 ! 0 AND BIT_RANGE (bits - 1) offset
             in if val \<noteq> 0 then ffsuf val else bits
      else comp_find_next_bit addr1 (Some addr2) bits offset 0 False)"

text \<open>\<open>for_each_set_bit\<close> and its variants: the loop over a search, with the visited positions.\<close>

partial_function (option) for_each_bit :: "(nat \<Rightarrow> nat) \<Rightarrow> nat \<Rightarrow> nat \<Rightarrow> nat list option" where
  "for_each_bit nxt nbits b =
     (if b < nbits
      then Option.bind (for_each_bit nxt nbits (nxt (b + 1))) (\<lambda>rest. Some (b # rest))
      else Some [])"

definition for_each_set_bit :: "bool \<Rightarrow> ulong list \<Rightarrow> nat \<Rightarrow> nat list option" where
  "for_each_set_bit const addr nbits =
     for_each_bit (find_next_bit const addr nbits) nbits (find_next_bit const addr nbits 0)"

definition for_each_clear_bit :: "bool \<Rightarrow> ulong list \<Rightarrow> nat \<Rightarrow> nat list option" where
  "for_each_clear_bit const addr nbits =
     for_each_bit (find_next_zero const addr nbits) nbits (find_next_zero const addr nbits 0)"

section \<open>The interface of a search\<close>

locale bit_finder =
  fixes nxt :: "nat \<Rightarrow> nat" and nbits :: nat and hit :: "nat \<Rightarrow> bool"
  assumes next_hit: "nxt i < nbits \<Longrightarrow> i \<le> nxt i \<and> hit (nxt i)"
    and next_skip: "i \<le> j \<Longrightarrow> j < nxt i \<Longrightarrow> j < nbits \<Longrightarrow> \<not> hit j"
begin

lemma filter_from_next:
  "filter hit [i ..< nbits] = (if nxt i < nbits then nxt i # filter hit [Suc (nxt i) ..< nbits] else [])"
proof (cases "nxt i < nbits")
  case True
  then have le: "i \<le> nxt i" and h: "hit (nxt i)" using next_hit by blast+
  then have "[i ..< nbits] = [i ..< nxt i] @ nxt i # [Suc (nxt i) ..< nbits]"
    using True upt_add_eq_append [OF le, of "nbits - nxt i"] by (simp add: upt_conv_Cons)
  moreover have "filter hit [i ..< nxt i] = []" using next_skip True by (auto simp: filter_empty_conv)
  ultimately show ?thesis using True h by simp
next
  case False
  then show ?thesis using next_skip by (auto simp: filter_empty_conv)
qed

lemma for_each_filter:
  "for_each_bit nxt nbits (nxt i) = Some (filter hit [i ..< nbits])"
proof (induction "nbits - i" arbitrary: i rule: less_induct)
  case less
  show ?case
  proof (cases "nxt i < nbits")
    case True
    then have "i \<le> nxt i" using next_hit by blast
    then have "nbits - (nxt i + 1) < nbits - i" using True by linarith
    then have "for_each_bit nxt nbits (nxt (nxt i + 1)) = Some (filter hit [nxt i + 1 ..< nbits])"
      by (rule less)
    then show ?thesis using True filter_from_next [of i] by (simp add: for_each_bit.simps)
  next
    case False
    then show ?thesis using filter_from_next [of i] by (simp add: for_each_bit.simps)
  qed
qed

end

section \<open>The searches meet the interface\<close>

lemma find_fetch_bit:
  "j < 64 \<Longrightarrow> bit (find_fetch a1 a2 iv s) j \<longleftrightarrow>
     (bit (a1 ! (s div 64)) j \<and> (case a2 of None \<Rightarrow> True | Some a \<Rightarrow> bit (a ! (s div 64)) j)) \<noteq> bit iv j"
  by (auto simp: find_fetch_def BITS_PER_LONG_def Let_def bit_xor_iff bit_and_iff split: option.splits)

lemma comp_find_next_loop_spec:
  assumes "64 dvd start" "start < bits" "s0 < start + 64"
    and P: "\<And>s j. 64 dvd s \<Longrightarrow> s < bits \<Longrightarrow> j < 64 \<Longrightarrow> bit (find_fetch a1 a2 iv s) j \<longleftrightarrow> P (s + j)"
    and tmp: "\<And>j. j < 64 \<Longrightarrow> bit tmp j \<longleftrightarrow> s0 \<le> start + j \<and> P (start + j)"
  defines "r \<equiv> comp_find_next_loop a1 a2 bits iv False start tmp"
  shows "r \<le> bits \<and> (r < bits \<longrightarrow> s0 \<le> r \<and> P r) \<and> (\<forall>j. s0 \<le> j \<and> start \<le> j \<and> j < r \<longrightarrow> \<not> P j)"
  unfolding r_def using assms(1-3) tmp
proof (induction "bits - start" arbitrary: start tmp s0 rule: less_induct)
  case less
  note step = comp_find_next_loop.simps [of a1 a2 bits iv False start tmp, unfolded Let_def BITS_PER_LONG_def]
  show ?case
  proof (cases "tmp = 0")
    case True
    have no: "\<not> P j" if "s0 \<le> j" "start \<le> j" "j < start + 64" for j
      using less.prems(4) [of "j - start"] that True by simp
    show ?thesis
    proof (cases "bits \<le> start + 64")
      case True
      then have "\<not> P j" if "s0 \<le> j" "start \<le> j" "j < bits" for j using no that by simp
      then show ?thesis using step True \<open>tmp = 0\<close> by simp
    next
      case False
      let ?r = "comp_find_next_loop a1 a2 bits iv False (start + 64) (find_fetch a1 a2 iv (start + 64))"
      have d: "64 dvd start + 64" using less.prems(1) by simp
      have ih: "?r \<le> bits \<and> (?r < bits \<longrightarrow> start + 64 \<le> ?r \<and> P ?r) \<and>
          (\<forall>j. start + 64 \<le> j \<and> start + 64 \<le> j \<and> j < ?r \<longrightarrow> \<not> P j)"
      proof (rule less.hyps)
        show "bits - (start + 64) < bits - start" using False by simp
        show "64 dvd start + 64" by (rule d)
        show "start + 64 < bits" using False by simp
        show "start + 64 < start + 64 + 64" by simp
        show "bit (find_fetch a1 a2 iv (start + 64)) j \<longleftrightarrow> start + 64 \<le> start + 64 + j \<and> P (start + 64 + j)"
          if "j < 64" for j using P [OF d _ that] False by simp
      qed
      then have "\<forall>j. s0 \<le> j \<and> start \<le> j \<and> j < ?r \<longrightarrow> \<not> P j"
        using no linorder_not_less by blast
      moreover have "s0 \<le> ?r" if "?r < bits" using ih that less.prems(3) by linarith
      ultimately show ?thesis using ih step False \<open>tmp = 0\<close> by simp
    qed
  next
    case False
    note f = ffsuf_least [OF False]
    let ?p = "start + ffsuf tmp"
    have "s0 \<le> ?p" "P ?p" using less.prems(4) [OF f(3)] f(1) by simp_all
    moreover have "\<not> P j" if "s0 \<le> j" "start \<le> j" "j < ?p" for j
    proof -
      have "j - start < ffsuf tmp" using that by linarith
      then have "\<not> bit tmp (j - start)" "j - start < 64" using f(2,3) by auto
      then show ?thesis using less.prems(4) [of "j - start"] that by simp
    qed
    ultimately show ?thesis using step False by (auto simp: min_def)
  qed
qed

lemma comp_find_next_bit_spec:
  fixes i bits :: nat
  assumes P: "\<And>s j. 64 dvd s \<Longrightarrow> s < bits \<Longrightarrow> j < 64 \<Longrightarrow> bit (find_fetch a1 a2 iv s) j \<longleftrightarrow> P (s + j)"
  defines "r \<equiv> comp_find_next_bit a1 a2 bits i iv False"
  shows "r \<le> bits \<and> (r < bits \<longrightarrow> i \<le> r \<and> P r) \<and> (\<forall>j. i \<le> j \<and> j < r \<and> j < bits \<longrightarrow> \<not> P j)"
proof (cases "bits \<le> i")
  case True
  then show ?thesis by (auto simp: r_def comp_find_next_bit_def)
next
  case False
  let ?s = "i - i mod 64" and ?t = "find_fetch a1 a2 iv i AND BIT_HIGH_MASK i"
  have s: "64 dvd ?s" "?s < bits" "i < ?s + 64" "?s \<le> i"
    using False by (simp_all add: minus_mod_eq_mult_div less_imp_diff_less)
  have eq: "find_fetch a1 a2 iv i = find_fetch a1 a2 iv ?s"
    by (cases a2) (simp_all add: find_fetch_def BITS_PER_LONG_def minus_mod_eq_mult_div)
  have t: "bit ?t j \<longleftrightarrow> i \<le> ?s + j \<and> P (?s + j)" if "j < 64" for j
  proof -
    have "bit ?t j \<longleftrightarrow> i mod 64 \<le> j \<and> P (?s + j)"
      using P [OF s(1,2) that] that by (auto simp: eq bit_and_iff BIT_HIGH_MASK_bit)
    moreover have "i mod 64 \<le> j \<longleftrightarrow> i \<le> ?s + j" using mod_less_eq_dividend [of i 64] by linarith
    ultimately show ?thesis by simp
  qed
  have "r = comp_find_next_loop a1 a2 bits iv False ?s ?t"
    using False by (simp add: r_def comp_find_next_bit_def BITS_PER_LONG_def)
  then show ?thesis using comp_find_next_loop_spec [OF s(1,2,3) P t] s(4) by auto
qed

lemma find_fetch_set:
  assumes "bits \<le> 64 * length a" "64 dvd s" "s < bits" "j < 64"
  shows "bit (a ! (s div 64)) j \<longleftrightarrow> bmp_bit a (s + j)"
proof -
  from assms(2) obtain q where q: "s = 64 * q" by blast
  then have "q < length a" using assms(1,3) by linarith
  moreover from this have "64 * q + j < 64 * length a" using assms(4) by linarith
  ultimately show ?thesis using assms(4) q by (simp add: bmp_bit_def)
qed

text \<open>The branch for a constant of at most one word.\<close>

lemma BIT_RANGE_bit:
  "hi < 64 \<Longrightarrow> lo < 64 \<Longrightarrow> bit (BIT_RANGE hi lo) j \<longleftrightarrow> lo \<le> j \<and> j \<le> hi"
proof -
  assume h: "hi < 64" "lo < 64"
  have "(- 1) - push_bit lo 1 + 1 = (NOT (mask lo) :: ulong)"
    by (simp add: push_bit_eq_mult minus_exp_eq_not_mask)
  then show ?thesis using h
    by (auto simp: BIT_RANGE_def BITS_PER_LONG_def bit_and_iff bit_not_iff bit_mask_iff bit_drop_bit_eq)
qed

lemma BIT_RANGE_below: "lo < n \<Longrightarrow> n \<le> 64 \<Longrightarrow> bit (BIT_RANGE (n - 1) lo) j \<longleftrightarrow> lo \<le> j \<and> j < n"
  using BIT_RANGE_bit [of "n - 1" lo j] by auto

lemma small_word_bit:
  assumes "n \<le> 64 * length a" "small_const_nbits c n" "j < n"
  shows "bit (a ! 0) j \<longleftrightarrow> bmp_bit a j" and "n \<le> 64" "j < 64"
  using assms by (auto simp: bmp_bit_def small_const_nbits_def BITS_PER_LONG_def)

lemma small_find_spec:
  assumes "n \<le> 64" "i < n" "\<And>j. bit val j \<longleftrightarrow> i \<le> j \<and> j < n \<and> P j"
  defines "r \<equiv> (if val \<noteq> 0 then ffsuf val else n)"
  shows "r \<le> n \<and> (r < n \<longrightarrow> i \<le> r \<and> P r) \<and> (\<forall>j. i \<le> j \<and> j < r \<and> j < n \<longrightarrow> \<not> P j)"
proof (cases "val = 0")
  case True
  then have "\<not> bit val j" for j by simp
  then show ?thesis using assms(2,3) True by (auto simp: r_def)
next
  case False
  note f = ffsuf_least [OF False]
  have "i \<le> ffsuf val" "ffsuf val < n" "P (ffsuf val)" using assms(3) f(1) by auto
  moreover have "\<not> P j" if "i \<le> j" "j < ffsuf val" "j < n" for j using assms(3) f that by blast
  ultimately show ?thesis using False by (simp add: r_def)
qed

lemma find_next_bit_spec:
  assumes "bits \<le> 64 * length a"
  shows "find_next_bit c a bits i \<le> bits \<and>
    (find_next_bit c a bits i < bits \<longrightarrow> i \<le> find_next_bit c a bits i \<and> bmp_bit a (find_next_bit c a bits i)) \<and>
    (\<forall>j. i \<le> j \<and> j < find_next_bit c a bits i \<and> j < bits \<longrightarrow> \<not> bmp_bit a j)"
proof (cases "small_const_nbits c bits \<and> i < bits")
  case True
  then have s: "small_const_nbits c bits" "i < bits" by simp_all
  note w = small_word_bit [OF assms s(1)]
  have "bit (a ! 0 AND BIT_RANGE (bits - 1) i) j \<longleftrightarrow> i \<le> j \<and> j < bits \<and> bmp_bit a j" for j
    using w [of j] w [OF s(2)] s(2) BIT_RANGE_below [OF s(2) w(2) [OF s(2)], of j] by (auto simp: bit_and_iff)
  note spec = small_find_spec [OF w(2) [OF s(2)] s(2) this]
  have e: "find_next_bit c a bits i =
      (if a ! 0 AND BIT_RANGE (bits - 1) i \<noteq> 0 then ffsuf (a ! 0 AND BIT_RANGE (bits - 1) i) else bits)"
    using s unfolding find_next_bit_def Let_def by simp
  show ?thesis unfolding e by (rule spec)
next
  case False
  then consider "small_const_nbits c bits" "bits \<le> i" | "\<not> small_const_nbits c bits" by linarith
  then show ?thesis
  proof cases
    case 1
    then show ?thesis by (auto simp: find_next_bit_def)
  next
    case 2
    then show ?thesis unfolding find_next_bit_def if_not_P [OF 2]
      by (intro comp_find_next_bit_spec) (use assms in \<open>simp add: find_fetch_bit find_fetch_set\<close>)
  qed
qed

lemma find_next_and_bit_spec:
  assumes "bits \<le> 64 * length a" "bits \<le> 64 * length b"
  shows "find_next_and_bit c a b bits i \<le> bits \<and>
    (find_next_and_bit c a b bits i < bits \<longrightarrow> i \<le> find_next_and_bit c a b bits i \<and>
       (bmp_bit a (find_next_and_bit c a b bits i) \<and> bmp_bit b (find_next_and_bit c a b bits i))) \<and>
    (\<forall>j. i \<le> j \<and> j < find_next_and_bit c a b bits i \<and> j < bits \<longrightarrow> \<not> (bmp_bit a j \<and> bmp_bit b j))"
proof (cases "small_const_nbits c bits \<and> i < bits")
  case True
  then have s: "small_const_nbits c bits" "i < bits" by simp_all
  note w = small_word_bit [OF assms(1) s(1)] and v = small_word_bit [OF assms(2) s(1)]
  have "bit (a ! 0 AND b ! 0 AND BIT_RANGE (bits - 1) i) j \<longleftrightarrow> i \<le> j \<and> j < bits \<and> (bmp_bit a j \<and> bmp_bit b j)" for j
    using w [of j] v [of j] w [OF s(2)] s(2) BIT_RANGE_below [OF s(2) w(2) [OF s(2)], of j] by (auto simp: bit_and_iff)
  note spec = small_find_spec [OF w(2) [OF s(2)] s(2) this]
  have e: "find_next_and_bit c a b bits i = (if a ! 0 AND b ! 0 AND BIT_RANGE (bits - 1) i \<noteq> 0
      then ffsuf (a ! 0 AND b ! 0 AND BIT_RANGE (bits - 1) i) else bits)"
    using s unfolding find_next_and_bit_def Let_def by simp
  show ?thesis unfolding e by (rule spec)
next
  case False
  then consider "small_const_nbits c bits" "bits \<le> i" | "\<not> small_const_nbits c bits" by linarith
  then show ?thesis
  proof cases
    case 1
    then show ?thesis by (auto simp: find_next_and_bit_def)
  next
    case 2
    show ?thesis unfolding find_next_and_bit_def if_not_P [OF 2]
      by (intro comp_find_next_bit_spec) (use assms in \<open>simp add: find_fetch_bit find_fetch_set\<close>)
  qed
qed

text \<open>
  The search for a clear bit. Its one-word branch has the test \<open>val ? ffzuf(val) : bits\<close> of the
  search for a set bit: on a full word it gets 63 from \<open>ffzuf\<close>, on an empty one the bit count.
\<close>

definition clear_hit :: "bool \<Rightarrow> ulong list \<Rightarrow> nat \<Rightarrow> nat \<Rightarrow> bool" where
  "clear_hit const a n j \<longleftrightarrow> \<not> bmp_bit a j \<or> const \<and> n = 64 \<and> j = 63"

lemma ffzuf_full: "ffzuf (- 1) = 63"
  by (simp add: ffzuf_def ffsuf_def ffs_step_def)

lemma small_find_zero_spec:
  assumes "n \<le> 64" "i < n" "\<And>j. j < 64 \<Longrightarrow> bit val j \<longleftrightarrow> \<not> (i \<le> j \<and> j < n \<and> P j)"
  shows "(ffzuf val < n \<longrightarrow> i \<le> ffzuf val \<and> (P (ffzuf val) \<or> n = 64 \<and> ffzuf val = 63)) \<and>
    (\<forall>j. i \<le> j \<and> j < ffzuf val \<and> j < n \<longrightarrow> \<not> (P j \<or> n = 64 \<and> j = 63))"
proof (cases "val = - 1")
  case True
  have "\<not> P j" if "i \<le> j" "j < n" for j
    using assms(3) [of j] that assms(1) by (simp add: True bit_minus_1_iff)
  then show ?thesis using assms(1,2) True by (auto simp: ffzuf_full)
next
  case False
  then have "NOT val \<noteq> 0" by (metis bit.double_compl bit.compl_zero)
  note f = ffsuf_least [OF this, folded ffzuf_def]
  have b: "\<not> bit val (ffzuf val)" "ffzuf val < 64" "\<And>j. j < ffzuf val \<Longrightarrow> bit val j"
    using f by (auto simp: bit_not_iff)
  then have h: "i \<le> ffzuf val" "ffzuf val < n" "P (ffzuf val)" using assms(3) by auto
  have "\<not> P j \<and> j \<noteq> 63" if "i \<le> j" "j < ffzuf val" for j
    using assms(3) [of j] b(2,3) h that by auto
  then show ?thesis using h by auto
qed

lemma find_next_zero_spec:
  assumes "bits \<le> 64 * length a" "\<not> (c \<and> bits = 64 \<and> a ! 0 = 0)"
  shows "(find_next_zero c a bits i < bits \<longrightarrow>
      i \<le> find_next_zero c a bits i \<and> clear_hit c a bits (find_next_zero c a bits i)) \<and>
    (\<forall>j. i \<le> j \<and> j < find_next_zero c a bits i \<and> j < bits \<longrightarrow> \<not> clear_hit c a bits j)"
proof (cases "small_const_nbits c bits \<and> i < bits")
  case True
  then have s: "small_const_nbits c bits" "i < bits" by simp_all
  note w = small_word_bit [OF assms(1) s(1)]
  let ?v = "a ! 0 OR NOT (BIT_RANGE (bits - 1) i)"
  have v: "bit ?v j \<longleftrightarrow> \<not> (i \<le> j \<and> j < bits \<and> \<not> bmp_bit a j)" if "j < 64" for j
    using that w [of j] w [OF s(2)] s(2) BIT_RANGE_below [OF s(2) w(2) [OF s(2)], of j] by (auto simp: bit_or_iff bit_not_iff)
  have "?v \<noteq> 0"
  proof
    assume z: "?v = 0"
    then have "i = 0 \<and> bits = 64" using v [of 0] v [of 63] w(2) [OF s(2)] by auto
    moreover have "a ! 0 = 0" using z by (auto simp: bit_eq_iff bit_or_iff)
    ultimately show False using assms(2) s(1) by (simp add: small_const_nbits_def)
  qed
  then have e: "find_next_zero c a bits i = ffzuf ?v" using s by (simp add: find_next_zero_def Let_def)
  have h: "clear_hit c a bits j \<longleftrightarrow> \<not> bmp_bit a j \<or> bits = 64 \<and> j = 63" for j
    using s(1) by (auto simp: clear_hit_def small_const_nbits_def)
  show ?thesis unfolding e h by (rule small_find_zero_spec [OF w(2) [OF s(2)] s(2) v])
next
  case False
  then consider "small_const_nbits c bits" "bits \<le> i" | "\<not> small_const_nbits c bits" by linarith
  then show ?thesis
  proof cases
    case 1
    then show ?thesis by (auto simp: find_next_zero_def)
  next
    case 2
    have e: "find_next_zero c a bits i = comp_find_next_bit a None bits i (- 1) False"
      using 2 by (simp add: find_next_zero_def)
    have h: "clear_hit c a bits j \<longleftrightarrow> \<not> bmp_bit a j" for j
      using 2 by (auto simp: clear_hit_def small_const_nbits_def BITS_PER_LONG_def)
    have "bit (find_fetch a None (- 1) s) j \<longleftrightarrow> \<not> bmp_bit a (s + j)" if "64 dvd s" "s < bits" "j < 64" for s j
      using that assms(1) by (simp add: find_fetch_bit find_fetch_set)
    note spec = comp_find_next_bit_spec [of bits a None "- 1" "\<lambda>j. \<not> bmp_bit a j" i, OF this]
    show ?thesis unfolding e h using spec by blast
  qed
qed

text \<open>
  The interface is met by every array, cut to the bits it has: \<open>bit_limit\<close> is the bit count when
  the array is long enough.
\<close>

definition bit_limit :: "ulong list \<Rightarrow> nat \<Rightarrow> nat" where
  "bit_limit a n = min n (64 * length a)"

interpretation set_finder: bit_finder "find_next_bit c a (bit_limit a n)" "bit_limit a n" "bmp_bit a" for c a n
  by unfold_locales
    (use find_next_bit_spec [of "bit_limit a n" a] in \<open>(fastforce simp: bit_limit_def)+\<close>)

interpretation clear_finder: bit_finder "find_next_zero False a (bit_limit a n)" "bit_limit a n"
  "clear_hit False a (bit_limit a n)" for a n
  by unfold_locales
    (use find_next_zero_spec [of "bit_limit a n" a False] in \<open>(fastforce simp: bit_limit_def)+\<close>)

interpretation common_finder: bit_finder "find_next_and_bit c a b (min (bit_limit a n) (bit_limit b n))"
  "min (bit_limit a n) (bit_limit b n)" "\<lambda>j. bmp_bit a j \<and> bmp_bit b j" for c a b n
  by unfold_locales
    (use find_next_and_bit_spec [of "min (bit_limit a n) (bit_limit b n)" a b] in \<open>(fastforce simp: bit_limit_def)+\<close>)

lemma find_next_zero_finder:
  assumes "n \<le> 64 * length a" "\<not> (c \<and> n = 64 \<and> a ! 0 = 0)"
  shows "bit_finder (find_next_zero c a n) n (clear_hit c a n)"
  by unfold_locales (use find_next_zero_spec [OF assms] in blast)+

lemma find_first_loop_spec:
  assumes search: "\<And>w. w \<noteq> none \<Longrightarrow> bit w (search w) \<noteq> c \<and> (\<forall>j < search w. bit w j = c) \<and> search w < 64"
    and none: "\<And>j. j < 64 \<Longrightarrow> bit none j = c"
    and "bits \<le> base + 64 * length blk"
    and "\<And>k j. k < length blk \<Longrightarrow> j < 64 \<Longrightarrow> bit (blk ! k) j = P (base + 64 * k + j)"
  shows "(comp_find_first_loop search none False blk base bits < bits \<longrightarrow>
      base \<le> comp_find_first_loop search none False blk base bits \<and>
      P (comp_find_first_loop search none False blk base bits) \<noteq> c) \<and>
    (\<forall>j. base \<le> j \<and> j < comp_find_first_loop search none False blk base bits \<and> j < bits \<longrightarrow> P j = c)"
  using assms(3,4)
proof (induction blk arbitrary: base)
  case (Cons w blk)
  have w: "bit w j = P (base + j)" if "j < 64" for j using Cons.prems(2) [of 0 j] that by simp
  have rest: "bit (blk ! k) j = P (base + 64 + 64 * k + j)" if "k < length blk" "j < 64" for k j
    using Cons.prems(2) [of "Suc k" j] that by (simp add: algebra_simps)
  consider "\<not> base < bits" | "base < bits" "w = none" | "base < bits" "w \<noteq> none" by blast
  then show ?case
  proof cases
    case 2
    have c: "P j = c" if "base \<le> j" "j < base + 64" for j
      using w [of "j - base"] none [of "j - base"] that 2(2) by simp
    have "bits \<le> base + 64 + 64 * length blk" using Cons.prems(1) by simp
    note ih = Cons.IH [OF this rest]
    let ?r = "comp_find_first_loop search none False blk (base + 64) bits"
    have "\<forall>j. base \<le> j \<and> j < ?r \<and> j < bits \<longrightarrow> P j = c"
      using ih c linorder_not_less by blast
    moreover have "base \<le> ?r" if "?r < bits" using ih that by linarith
    ultimately show ?thesis using ih 2 by (simp add: BITS_PER_LONG_def)
  next
    case 3
    note s = search [OF 3(2)]
    have "P (base + search w) \<noteq> c" using s w [of "search w"] by simp
    moreover have "P j = c" if "base \<le> j" "j < base + search w" for j
    proof -
      have "j - base < search w" "j - base < 64" using that s by linarith+
      then show ?thesis using s w [of "j - base"] that by simp
    qed
    ultimately show ?thesis using 3 by (simp add: BITS_PER_LONG_def)
  qed auto
qed auto

lemma bmp_bit_nth: "k < length b \<Longrightarrow> j < 64 \<Longrightarrow> bit (b ! k) j = bmp_bit b (0 + 64 * k + j)"
  by (simp add: bmp_bit_def)

lemma find_first_bit_spec:
  assumes "bits \<le> 64 * length b"
  shows "(comp_find_first_bit b bits False < bits \<longrightarrow> bmp_bit b (comp_find_first_bit b bits False)) \<and>
    (\<forall>j < min bits (comp_find_first_bit b bits False). \<not> bmp_bit b j)"
  using find_first_loop_spec [of 0 ffsuf False bits 0 b "bmp_bit b"] ffsuf_least assms bmp_bit_nth [of _ b]
  by (auto simp: comp_find_first_bit_def)

lemma find_first_zero_spec:
  assumes "bits \<le> 64 * length b"
  shows "(comp_find_first_zero b bits False < bits \<longrightarrow> \<not> bmp_bit b (comp_find_first_zero b bits False)) \<and>
    (\<forall>j < min bits (comp_find_first_zero b bits False). bmp_bit b j)"
proof -
  have "bit w (ffzuf w) \<noteq> True \<and> (\<forall>j < ffzuf w. bit w j = True) \<and> ffzuf w < 64" if "w \<noteq> - 1" for w :: ulong
  proof -
    have "NOT w \<noteq> 0" using that by (metis bit.double_compl bit.compl_zero)
    note f = ffsuf_least [OF this]
    show ?thesis using f by (auto simp: ffzuf_def bit_not_iff)
  qed
  then show ?thesis
    using find_first_loop_spec [of "- 1" ffzuf True bits 0 b "bmp_bit b"] assms bmp_bit_nth [of _ b]
    by (auto simp: comp_find_first_zero_def)
qed

section \<open>Operations of bitmaps\<close>

definition BITS_DIV_LONG :: "nat \<Rightarrow> nat" where "BITS_DIV_LONG nr = nr div BITS_PER_LONG"
definition BITS_MOD_LONG :: "nat \<Rightarrow> nat" where "BITS_MOD_LONG nr = nr mod BITS_PER_LONG"
definition BITS_TO_LONG :: "nat \<Rightarrow> nat" where
  "BITS_TO_LONG nr = (nr + BITS_PER_LONG - 1) div BITS_PER_LONG"

definition bitmap_comp_equal :: "ulong list \<Rightarrow> ulong list \<Rightarrow> nat \<Rightarrow> bool" where
  "bitmap_comp_equal src1 src2 bits =
     (let len = BITS_DIV_LONG bits
      in if \<not> list_all (\<lambda>i. src1 ! i = src2 ! i) [0 ..< len] then False
         else if BITS_MOD_LONG bits \<noteq> 0 \<and> (src1 ! len XOR src2 ! len) AND BIT_LOW_MASK bits \<noteq> 0 then False
         else True)"

definition bitmap_comp_or_equal :: "ulong list \<Rightarrow> ulong list \<Rightarrow> ulong list \<Rightarrow> nat \<Rightarrow> bool" where
  "bitmap_comp_or_equal src1 src2 src3 bits =
     (let len = BITS_DIV_LONG bits
      in if \<not> list_all (\<lambda>i. (src1 ! i OR src2 ! i) = src3 ! i) [0 ..< len] then False
         else if BITS_MOD_LONG bits \<noteq> 0 \<and>
                 ((src1 ! len OR src2 ! len) XOR src3 ! len) AND BIT_LOW_MASK bits \<noteq> 0 then False
         else True)"

definition bitmap_comp_intersects :: "ulong list \<Rightarrow> ulong list \<Rightarrow> nat \<Rightarrow> bool" where
  "bitmap_comp_intersects src1 src2 bits =
     (let len = BITS_DIV_LONG bits
      in if \<not> list_all (\<lambda>i. src1 ! i AND src2 ! i = 0) [0 ..< len] then True
         else if BITS_MOD_LONG bits \<noteq> 0 \<and> (src1 ! len AND src2 ! len) AND BIT_LOW_MASK bits \<noteq> 0 then True
         else False)"

text \<open>
  The loop of \<open>bitmap_comp_and\<close> and \<open>bitmap_comp_andnot\<close>: the destination and the union of the
  words written.
\<close>

definition bitmap_write :: "(nat \<Rightarrow> ulong) \<Rightarrow> nat \<Rightarrow> ulong list \<times> ulong \<Rightarrow> ulong list \<times> ulong" where
  "bitmap_write f i = (\<lambda>(dest, result). (dest[i := f i], result OR f i))"

definition bitmap_comp_and :: "ulong list \<Rightarrow> ulong list \<Rightarrow> ulong list \<Rightarrow> nat \<Rightarrow> bool \<times> ulong list" where
  "bitmap_comp_and dest src1 src2 bits =
     (let len = BITS_DIV_LONG bits;
          d = fold (bitmap_write (\<lambda>i. src1 ! i AND src2 ! i)) [0 ..< len] (dest, 0);
          d = (if BITS_MOD_LONG bits \<noteq> 0
               then bitmap_write (\<lambda>i. src1 ! i AND src2 ! i AND BIT_LOW_MASK bits) len d else d)
      in (snd d \<noteq> 0, fst d))"

definition bitmap_comp_andnot :: "ulong list \<Rightarrow> ulong list \<Rightarrow> ulong list \<Rightarrow> nat \<Rightarrow> bool \<times> ulong list" where
  "bitmap_comp_andnot dest src1 src2 bits =
     (let len = BITS_DIV_LONG bits;
          d = fold (bitmap_write (\<lambda>i. src1 ! i AND NOT (src2 ! i))) [0 ..< len] (dest, 0);
          d = (if BITS_MOD_LONG bits \<noteq> 0
               then bitmap_write (\<lambda>i. src1 ! i AND NOT (src2 ! i) AND BIT_LOW_MASK bits) len d else d)
      in (snd d \<noteq> 0, fst d))"

definition bitmap_comp_or :: "ulong list \<Rightarrow> ulong list \<Rightarrow> ulong list \<Rightarrow> nat \<Rightarrow> ulong list" where
  "bitmap_comp_or dest src1 src2 bits =
     fold (\<lambda>i d. d[i := src1 ! i OR src2 ! i]) [0 ..< BITS_TO_LONG bits] dest"

definition bitmap_comp_xor :: "ulong list \<Rightarrow> ulong list \<Rightarrow> ulong list \<Rightarrow> nat \<Rightarrow> ulong list" where
  "bitmap_comp_xor dest src1 src2 bits =
     fold (\<lambda>i d. d[i := src1 ! i XOR src2 ! i]) [0 ..< BITS_TO_LONG bits] dest"

definition bitmap_comp_complement :: "ulong list \<Rightarrow> ulong list \<Rightarrow> nat \<Rightarrow> ulong list" where
  "bitmap_comp_complement dest src bits =
     fold (\<lambda>i d. d[i := NOT (src ! i)]) [0 ..< BITS_TO_LONG bits] dest"

definition bitmap_comp_replace ::
  "ulong list \<Rightarrow> ulong list \<Rightarrow> ulong list \<Rightarrow> ulong list \<Rightarrow> nat \<Rightarrow> ulong list" where
  "bitmap_comp_replace bitmap old new msk bits =
     fold (\<lambda>i d. d[i := (old ! i AND NOT (msk ! i)) OR (old ! i AND msk ! i)]) [0 ..< BITS_TO_LONG bits] bitmap"

text \<open>
  \<open>bitmap_comp_set\<close> and \<open>bitmap_comp_clr\<close>: \<open>curr\<close> is the index of the word, the counts are
  \<open>unsigned int\<close>, and the loop runs until they are equal. \<open>op\<close> is the update of a word.
\<close>

function bitmap_range_loop ::
  "(ulong \<Rightarrow> ulong \<Rightarrow> ulong) \<Rightarrow> nat \<Rightarrow> ulong list \<Rightarrow> nat \<Rightarrow> u32 \<Rightarrow> u32 \<Rightarrow> ulong \<Rightarrow> ulong list option" where
  "bitmap_range_loop op sz bitmap cur bits bits_to_set mask_to_set =
     (if bits - bits_to_set \<noteq> 0 then
        if cur < length bitmap then
          bitmap_range_loop op sz (bitmap[cur := op (bitmap ! cur) mask_to_set]) (cur + 1)
            (bits - bits_to_set) (of_nat BITS_PER_LONG) (- 1)
        else None
      else if bits \<noteq> 0 then
        if cur < length bitmap then
          Some (bitmap[cur := op (bitmap ! cur) (mask_to_set AND BIT_LOW_MASK sz)])
        else None
      else Some bitmap)"
  by pat_completeness auto
termination
  by (relation "measure (\<lambda>(op, sz, bitmap, cur, bits, bits_to_set, mask_to_set). length bitmap - cur)") auto

declare bitmap_range_loop.simps [simp del]

definition bitmap_comp_set :: "ulong list \<Rightarrow> nat \<Rightarrow> nat \<Rightarrow> ulong list option" where
  "bitmap_comp_set bitmap start bits =
     bitmap_range_loop (\<lambda>w m. w OR m) (start + bits) bitmap (BITS_DIV_LONG start) (of_nat bits)
       (of_nat (BITS_PER_LONG - BITS_MOD_LONG start)) (BIT_HIGH_MASK start)"

definition bitmap_comp_clr :: "ulong list \<Rightarrow> nat \<Rightarrow> nat \<Rightarrow> ulong list option" where
  "bitmap_comp_clr bitmap start bits =
     bitmap_range_loop (\<lambda>w m. w AND NOT m) (start + bits) bitmap (BITS_DIV_LONG start) (of_nat bits)
       (of_nat (BITS_PER_LONG - BITS_MOD_LONG start)) (BIT_HIGH_MASK start)"

text \<open>
  The bytes of a bitmap, as \<open>memcmp\<close> sees them on a little-endian machine, and \<open>memcmp\<close> of
  \<^verbatim>\<open>lib/libc/string.c\<close>.
\<close>

definition bitmap_byte :: "ulong list \<Rightarrow> nat \<Rightarrow> 8 word" where
  "bitmap_byte src k = ucast (drop_bit (8 * (k mod 8)) (src ! (k div 8)))"

definition memcmp :: "8 word list \<Rightarrow> 8 word list \<Rightarrow> nat \<Rightarrow> int" where
  "memcmp s1 s2 n =
     (case filter (\<lambda>res. res \<noteq> 0) (map (\<lambda>k. uint (s1 ! k) - uint (s2 ! k)) [0 ..< n]) of
        [] \<Rightarrow> 0 | res # _ \<Rightarrow> res)"

text \<open>
  \<open>bitmap_equal\<close> for a constant bit count of one word, for a bit count whose last bits are known to
  be zero (\<open>const_mem\<close>: \<open>bits & BITMAP_MEM_MASK\<close> is a constant), and otherwise.
\<close>

definition BITMAP_MEM_ALIGNMENT :: nat where "BITMAP_MEM_ALIGNMENT = 8"

definition bitmap_equal :: "bool \<Rightarrow> bool \<Rightarrow> ulong list \<Rightarrow> ulong list \<Rightarrow> nat \<Rightarrow> bool" where
  "bitmap_equal const const_mem src1 src2 bits =
     (if small_const_nbits const bits then (src1 ! 0 XOR src2 ! 0) AND BIT_LOW_MASK bits \<noteq> 0
      else if const_mem \<and> bits mod BITMAP_MEM_ALIGNMENT = 0 then
        memcmp (map (bitmap_byte src1) [0 ..< bits div 8]) (map (bitmap_byte src2) [0 ..< bits div 8]) (bits div 8) \<noteq> 0
      else bitmap_comp_equal src1 src2 bits)"

section \<open>Bitmaps as sets of bits\<close>

lemma fold_update:
  "n \<le> length d \<Longrightarrow> fold (\<lambda>i d. d[i := f i]) [0 ..< n] d = map f [0 ..< n] @ drop n d"
proof (induction n)
  case (Suc n)
  then have "fold (\<lambda>i d. d[i := f i]) [0 ..< Suc n] d = (map f [0 ..< n] @ drop n d)[n := f n]" by simp
  also have "\<dots> = map f [0 ..< n] @ (drop n d)[0 := f n]" by (simp add: list_update_append)
  also have "(drop n d)[0 := f n] = f n # drop (Suc n) d"
    using Suc.prems by (metis Cons_nth_drop_Suc Suc_le_lessD list_update_code(2))
  finally show ?case by simp
qed simp

lemma fold_bitmap_write:
  "n \<le> length d \<Longrightarrow> fold (bitmap_write f) [0 ..< n] (d, r) =
     (map f [0 ..< n] @ drop n d, fold (\<lambda>i r. r OR f i) [0 ..< n] r)"
proof (induction n)
  case (Suc n)
  have "(map f [0 ..< n] @ drop n d)[n := f n] = map f [0 ..< n] @ f n # drop (Suc n) d"
    using Suc.prems by (simp add: list_update_append Cons_nth_drop_Suc [symmetric] Suc_le_lessD)
  then show ?case using Suc by (simp add: bitmap_write_def)
qed simp

lemma fold_or_zero: "fold (\<lambda>i r. r OR f i) xs (r :: ulong) = 0 \<longleftrightarrow> r = 0 \<and> (\<forall>i \<in> set xs. f i = 0)"
proof (induction xs arbitrary: r)
  case (Cons i xs)
  have "r OR f i = 0 \<longleftrightarrow> r = 0 \<and> f i = 0" by (auto simp: bit_eq_iff bit_or_iff)
  then show ?case using Cons.IH [of "r OR f i"] by auto
qed simp

lemma BITS_TO_LONG_bits: "i < bits \<Longrightarrow> i div 64 < BITS_TO_LONG bits"
  by (simp add: BITS_TO_LONG_def BITS_PER_LONG_def less_mult_imp_div_less div_less_iff_less_mult)

lemma bmp_bit_or_xor:
  assumes "bits \<le> 64 * length d" "i < bits" "bits \<le> 64 * length a" "bits \<le> 64 * length b"
  shows "bmp_bit (bitmap_comp_or d a b bits) i \<longleftrightarrow> bmp_bit a i \<or> bmp_bit b i"
    and "bmp_bit (bitmap_comp_xor d a b bits) i \<longleftrightarrow> bmp_bit a i \<noteq> bmp_bit b i"
    and "bmp_bit (bitmap_comp_complement d a bits) i \<longleftrightarrow> \<not> bmp_bit a i"
    and "bmp_bit (bitmap_comp_replace d a b c bits) i \<longleftrightarrow> bmp_bit a i"
proof -
  have n: "BITS_TO_LONG bits \<le> length d"
    using assms(1) by (simp add: BITS_TO_LONG_def BITS_PER_LONG_def)
  note k = BITS_TO_LONG_bits [OF assms(2)]
  have l: "i < 64 * length d" "i < 64 * length a" "i < 64 * length b" using assms by simp_all
  have m: "(map f [0 ..< BITS_TO_LONG bits] @ drop (BITS_TO_LONG bits) d) ! (i div 64) = f (i div 64)" for f
    using k by (simp add: nth_append)
  show "bmp_bit (bitmap_comp_or d a b bits) i \<longleftrightarrow> bmp_bit a i \<or> bmp_bit b i"
    "bmp_bit (bitmap_comp_xor d a b bits) i \<longleftrightarrow> bmp_bit a i \<noteq> bmp_bit b i"
    "bmp_bit (bitmap_comp_complement d a bits) i \<longleftrightarrow> \<not> bmp_bit a i"
    "bmp_bit (bitmap_comp_replace d a b c bits) i \<longleftrightarrow> bmp_bit a i"
    using l n
    by (simp_all add: bmp_bit_def bitmap_comp_or_def bitmap_comp_xor_def bitmap_comp_complement_def
        bitmap_comp_replace_def fold_update m bit_or_iff bit_xor_iff bit_not_iff bit_and_iff) blast
qed

lemma masked_zero: "w AND BIT_LOW_MASK bits = 0 \<longleftrightarrow>
    (\<forall>j < (if bits mod 64 = 0 then 64 else bits mod 64). \<not> bit w j)"
proof -
  have "w AND BIT_LOW_MASK bits = 0 \<longleftrightarrow> (\<forall>j < 64. \<not> bit (w AND BIT_LOW_MASK bits) j)"
    by (auto simp: bit_eq_iff)
  also have "\<dots> \<longleftrightarrow> (\<forall>j < (if bits mod 64 = 0 then 64 else bits mod 64). \<not> bit w j)"
  proof -
    have "bits mod 64 < 64" by simp
    then have "j < 64" if "j < bits mod 64" for j using that by (rule less_trans [rotated])
    then show ?thesis by (auto simp: bit_and_iff BIT_LOW_MASK_bit)
  qed
  finally show ?thesis .
qed

text \<open>The words of a bitmap up to a bit count: the whole ones and the rest of the last one.\<close>

lemma all_bits_words:
  fixes bits :: nat
  shows "(\<forall>i < bits. P (i div 64) (i mod 64)) \<longleftrightarrow>
     (\<forall>k < bits div 64. \<forall>j < 64. P k j) \<and> (\<forall>j < bits mod 64. P (bits div 64) j)"
proof (intro iffI conjI allI impI)
  fix k j assume a: "\<forall>i < bits. P (i div 64) (i mod 64)" and k: "k < bits div 64" "(j :: nat) < 64"
  have "Suc k * 64 \<le> bits" using k(1) by (metis Suc_leI div_times_less_eq_dividend le_trans mult_le_mono1)
  then have "64 * k + j < bits" using k(2) by simp
  then show "P k j" using a [rule_format, of "64 * k + j"] k(2) by simp
next
  fix j assume a: "\<forall>i < bits. P (i div 64) (i mod 64)" and j: "j < bits mod 64"
  have "j < 64" using j mod_less_divisor [of 64 bits] by linarith
  moreover have "64 * (bits div 64) + j < bits" using j by (metis add_less_cancel_left mult_div_mod_eq)
  ultimately show "P (bits div 64) j" using a [rule_format, of "64 * (bits div 64) + j"] by simp
next
  fix i assume a: "(\<forall>k < bits div 64. \<forall>j < 64. P k j) \<and> (\<forall>j < bits mod 64. P (bits div 64) j)"
    and i: "i < bits"
  show "P (i div 64) (i mod 64)"
  proof (cases "i div 64 < bits div 64")
    case False
    moreover have "i div 64 \<le> bits div 64" using i by (intro div_le_mono) simp
    ultimately have e: "i div 64 = bits div 64" by simp
    then have "i mod 64 < bits mod 64" using i by (metis add_less_cancel_left mult_div_mod_eq)
    then show ?thesis using a e by simp
  qed (use a in simp)
qed

lemma bitmap_comp_equal_spec:
  assumes "bits \<le> 64 * length a" "bits \<le> 64 * length b"
  shows "bitmap_comp_equal a b bits \<longleftrightarrow> (\<forall>i < bits. bmp_bit a i \<longleftrightarrow> bmp_bit b i)"
proof -
  let ?n = "bits div 64"
  have "(\<forall>i < bits. bmp_bit a i \<longleftrightarrow> bmp_bit b i) \<longleftrightarrow>
      (\<forall>i < bits. bit (a ! (i div 64)) (i mod 64) \<longleftrightarrow> bit (b ! (i div 64)) (i mod 64))"
    using assms by (auto simp: bmp_bit_def)
  also have "\<dots> \<longleftrightarrow> (\<forall>k < ?n. a ! k = b ! k) \<and> (\<forall>j < bits mod 64. bit (a ! ?n) j \<longleftrightarrow> bit (b ! ?n) j)"
    unfolding all_bits_words [of bits "\<lambda>k j. bit (a ! k) j \<longleftrightarrow> bit (b ! k) j"]
    by (auto simp: bit_eq_iff)
  also have "(\<forall>j < bits mod 64. bit (a ! ?n) j \<longleftrightarrow> bit (b ! ?n) j) \<longleftrightarrow>
      (bits mod 64 \<noteq> 0 \<longrightarrow> (a ! ?n XOR b ! ?n) AND BIT_LOW_MASK bits = 0)"
    by (auto simp: masked_zero bit_xor_iff)
  finally show ?thesis
    by (auto simp: bitmap_comp_equal_def Let_def list_all_iff BITS_DIV_LONG_def BITS_MOD_LONG_def BITS_PER_LONG_def)
qed

text \<open>Updating a word with a mask.\<close>

lemma bmp_set_word:
  assumes "k < length b" and f: "\<And>j. j < 64 \<Longrightarrow> bit w j \<longleftrightarrow> bit (b ! k) j \<or> bit m j"
  shows "bmp_set (b[k := w]) = bmp_set b \<union> {64 * k + j | j. j < 64 \<and> bit m j}"
proof (rule set_eqI)
  fix i
  have "i < 64 * length b" if "i div 64 = k" using that assms(1) by (simp add: div_less_iff_less_mult [symmetric] mult.commute)
  moreover have "(\<exists>j < 64. i = 64 * k + j \<and> bit m j) \<longleftrightarrow> i div 64 = k \<and> bit m (i mod 64)"
    by (auto intro!: exI [of _ "i mod 64"])
  ultimately show "i \<in> bmp_set (b[k := w]) \<longleftrightarrow> i \<in> bmp_set b \<union> {64 * k + j | j. j < 64 \<and> bit m j}"
    using assms(1) f [of "i mod 64"] by (cases "i div 64 = k") (auto simp: bmp_set_def bmp_bit_def)
qed

lemma mask_range:
  assumes "\<And>j. j < 64 \<Longrightarrow> bit m j \<longleftrightarrow> c \<le> j"
  shows "{p + j | j. j < 64 \<and> bit m j} = {p + c ..< p + (64 :: nat)}"
proof (rule set_eqI)
  fix x
  show "x \<in> {p + j | j. j < 64 \<and> bit m j} \<longleftrightarrow> x \<in> {p + c ..< p + 64}"
    using assms by (auto intro!: exI [of _ "x - p"])
qed

lemma u32_nat: "n < 2 ^ 32 \<Longrightarrow> unat (of_nat n :: u32) = n"
  by (simp add: unat_of_nat take_bit_nat_eq_self_iff)

lemma u32_sub_mult:
  assumes "unat (bits :: u32) = unat bts + 64 * Suc m"
  shows "bits - bts \<noteq> 0" "unat (bits - bts) = 64 + 64 * m"
proof -
  have "unat (bits - bts) = unat bits - unat bts"
    using assms by (simp add: unat_sub word_le_nat_alt)
  then show "unat (bits - bts) = 64 + 64 * m" using assms by simp
  then show "bits - bts \<noteq> 0" by auto
qed

lemma bitmap_range_loop_set:
  assumes "unat bits = unat bts + 64 * m" "cur + m < length b" "0 < unat bts" "unat bts \<le> 64"
    "\<And>j. j < 64 \<Longrightarrow> bit msk j \<longleftrightarrow> 64 - unat bts \<le> j" "sz mod 64 = 0"
  shows "\<exists>b'. bitmap_range_loop (\<lambda>w m. w OR m) sz b cur bits bts msk = Some b' \<and> length b' = length b \<and>
    bmp_set b' = bmp_set b \<union> {64 * cur + (64 - unat bts) ..< 64 * (cur + m + 1)}"
  using assms
proof (induction m arbitrary: b cur bits bts msk)
  case 0
  then have "bits = bts" by (simp add: word_unat_eq_iff)
  moreover from this have "bits \<noteq> 0" using "0.prems"(3) by auto
  moreover have "msk AND BIT_LOW_MASK sz = msk"
    using \<open>sz mod 64 = 0\<close> by (intro bit_word_eqI) (auto simp: bit_and_iff BIT_LOW_MASK_bit)
  moreover have "{64 * cur + j | j. j < 64 \<and> bit msk j} = {64 * cur + (64 - unat bts) ..< 64 * cur + 64}"
    using "0.prems"(5) by (rule mask_range)
  ultimately show ?case
    using "0.prems"(2) bmp_set_word [of cur b "b ! cur OR msk" msk]
    by (simp add: bitmap_range_loop.simps bit_or_iff add.commute)
next
  case (Suc m)
  note sub = u32_sub_mult [OF Suc.prems(1)]
  let ?b = "b[cur := b ! cur OR msk]"
  have lt: "cur < length b" using Suc.prems(2) by simp
  have step: "bitmap_range_loop (\<lambda>w m. w OR m) sz b cur bits bts msk =
      bitmap_range_loop (\<lambda>w m. w OR m) sz ?b (cur + 1) (bits - bts) 64 (- 1)"
    using sub(1) lt by (subst bitmap_range_loop.simps) (simp add: BITS_PER_LONG_def)
  have set_b: "bmp_set ?b = bmp_set b \<union> {64 * cur + (64 - unat bts) ..< 64 * (cur + 1)}"
  proof -
    have "{64 * cur + j | j. j < 64 \<and> bit msk j} = {64 * cur + (64 - unat bts) ..< 64 * cur + 64}"
      using Suc.prems(5) by (rule mask_range)
    then show ?thesis using bmp_set_word [OF lt, of "b ! cur OR msk" msk] by (simp add: bit_or_iff add.commute)
  qed
  have "\<exists>b'. bitmap_range_loop (\<lambda>w m. w OR m) sz ?b (cur + 1) (bits - bts) 64 (- 1) = Some b' \<and>
      length b' = length ?b \<and>
      bmp_set b' = bmp_set ?b \<union> {64 * (cur + 1) + (64 - unat (64 :: u32)) ..< 64 * (cur + 1 + m + 1)}"
    by (rule Suc.IH) (use sub Suc.prems in simp_all)
  then obtain b' where b': "bitmap_range_loop (\<lambda>w m. w OR m) sz b cur bits bts msk = Some b'"
    "length b' = length b" "bmp_set b' = bmp_set ?b \<union> {64 * (cur + 1) ..< 64 * (cur + Suc m + 1)}"
    using step by auto
  have "{64 * cur + (64 - unat bts) ..< 64 * (cur + 1)} \<union> {64 * (cur + 1) ..< 64 * (cur + Suc m + 1)}
      = {64 * cur + (64 - unat bts) ..< 64 * (cur + Suc m + 1)}"
    using Suc.prems(3) by (intro ivl_disj_un_two(3)) auto
  then show ?case using b' set_b by (intro exI [of _ b']) (simp only: Un_assoc conj_assoc simp_thms)
qed

text \<open>When the range does not end at a word boundary, the counts never meet.\<close>

lemma bitmap_range_loop_fault:
  assumes "unat bits mod 64 \<noteq> unat bts mod 64"
  shows "bitmap_range_loop op sz b cur bits bts msk = None"
  using assms
proof (induction "length b - cur" arbitrary: b cur bits bts msk rule: less_induct)
  case less
  have ne: "bits - bts \<noteq> 0" using less.prems by auto
  show ?case
  proof (cases "cur < length b")
    case True
    have "unat (bits - bts) mod 64 \<noteq> 0"
    proof
      assume "unat (bits - bts) mod 64 = 0"
      then have d: "64 dvd unat (bits - bts)" by (rule mod_0_imp_dvd)
      have "unat bits = (unat (bits - bts) + unat bts) mod 2 ^ 32"
        using unat_word_ariths(1) [of "bits - bts" bts] by simp
      then have "unat bits mod 64 = (unat (bits - bts) + unat bts) mod 64"
        by (simp add: mod_mod_cancel)
      also have "\<dots> = unat bts mod 64" using d by auto
      finally show False using less.prems by simp
    qed
    then have "unat (bits - bts) mod 64 \<noteq> unat (64 :: u32) mod 64" by simp
    then have "bitmap_range_loop op sz (b[cur := op (b ! cur) msk]) (cur + 1) (bits - bts) 64 (- 1) = None"
      using True by (intro less.hyps) simp_all
    then show ?thesis using ne True by (subst bitmap_range_loop.simps) (simp add: BITS_PER_LONG_def)
  next
    case False
    then show ?thesis using ne by (subst bitmap_range_loop.simps) simp
  qed
qed

lemma bitmap_range_counts:
  assumes "start + bits < 2 ^ 32"
  shows "unat (of_nat bits :: u32) = bits" "unat (of_nat (64 - start mod 64) :: u32) = 64 - start mod 64"
  by (rule u32_nat, use assms in simp)+

section \<open>Properties\<close>

text \<open>
  C29: iterating over the set bits of a bitmap (\<open>for_each_set_bit\<close> over \<open>find_next_bit\<close>) ends and
  visits exactly the set positions below the bit count, in increasing order, whether the compiler knows
  the bit count or not; iterating over the clear bits (\<open>for_each_clear_bit\<close> over \<open>find_next_zero\<close>) ends and
  does the same for the clear positions, but for a constant bit count of exactly one word: then it
  visits nothing when all bits are clear, and otherwise visits position 63 even when it is set. The bit
  count is one for which the \<open>unsigned int\<close> positions of the code do not wrap.
\<close>

theorem bitmap_iteration_complete:
  assumes "n \<le> 64 * length a" "n \<le> 2 ^ 32 - 64"
  shows "for_each_set_bit const a n = Some (filter (bmp_bit a) [0 ..< n]) \<and>
    for_each_clear_bit const a n = Some
      (if const \<and> n = 64 then if a ! 0 = 0 then [] else filter (\<lambda>i. \<not> bmp_bit a i \<or> i = 63) [0 ..< n]
       else filter (\<lambda>i. \<not> bmp_bit a i) [0 ..< n])"
proof (cases "const \<and> n = 64 \<and> a ! 0 = 0")
  case True
  then have "find_next_zero const a n 0 = n"
    by (simp add: find_next_zero_def small_const_nbits_def BITS_PER_LONG_def BIT_RANGE_def)
  then have "for_each_clear_bit const a n = Some []"
    by (simp add: for_each_clear_bit_def for_each_bit.simps)
  then show ?thesis
    using True set_finder.for_each_filter [of const a n 0] assms
    by (simp add: for_each_set_bit_def bit_limit_def)
next
  case False
  from bit_finder.for_each_filter [OF find_next_zero_finder [OF assms(1) False], of 0]
  have "for_each_clear_bit const a n = Some (filter (clear_hit const a n) [0 ..< n])"
    by (simp add: for_each_clear_bit_def)
  moreover have "clear_hit const a n = (\<lambda>i. \<not> bmp_bit a i \<or> const \<and> n = 64 \<and> i = 63)"
    by (simp add: clear_hit_def fun_eq_iff)
  ultimately show ?thesis
    using False set_finder.for_each_filter [of const a n 0] assms
    by (auto simp: for_each_set_bit_def bit_limit_def)
qed

theorem bitmap_iteration_complete_witness:
  "for_each_set_bit False [5, 1] 128 = Some [0, 2, 64] \<and> for_each_clear_bit True [9] 5 = Some [1, 2, 4]"
proof -
  have "filter (bmp_bit [5, 1]) [0 ..< 128] = [0, 2, 64]"
    by (simp add: bmp_bit_def upt_rec_numeral upt_conv_Cons bit_numeral_rec)
  moreover have "filter (\<lambda>i. \<not> bmp_bit [9] i) [0 ..< 5] = [1, 2, 4]"
    by (simp add: bmp_bit_def upt_rec_numeral upt_conv_Cons bit_numeral_rec)
  ultimately show ?thesis
    using bitmap_iteration_complete [of 128 "[5, 1]" False] bitmap_iteration_complete [of 5 "[9]" True] by simp
qed

text \<open>
  the first set bit and the first zero of a bitmap: a result below the bit count is the least
  such position, and another result means that there is none.
\<close>

theorem find_first_correct:
  assumes "bits \<le> 64 * length b"
  shows "(let r = comp_find_first_bit b bits False in
      if r < bits then bmp_bit b r \<and> (\<forall>j < r. \<not> bmp_bit b j) else (\<forall>j < bits. \<not> bmp_bit b j)) \<and>
    (let r = comp_find_first_zero b bits False in
      if r < bits then \<not> bmp_bit b r \<and> (\<forall>j < r. bmp_bit b j) else (\<forall>j < bits. bmp_bit b j))"
  using find_first_bit_spec [OF assms] find_first_zero_spec [OF assms] by (auto simp: Let_def)

theorem find_first_correct_witness: "comp_find_first_bit [0, 8] 128 False = 67 \<and> bmp_bit [0, 8] 67"
proof -
  have "comp_find_first_bit [0, 8] 128 False = 67"
    by (simp add: comp_find_first_bit_def BITS_PER_LONG_def ffsuf_def ffs_step_def mask_numeral)
  then show ?thesis using find_first_correct [of 128 "[0, 8]"] by simp
qed

text \<open>
  \<open>bitmap_comp_set\<close> sets exactly the bits of the range when the range is not empty and ends at
  a word boundary; for every other range the loop, which runs until its unsigned counts are equal,
  writes beyond the bitmap, however long it is.
\<close>

theorem bitmap_comp_set_range:
  assumes "start + bits < 2 ^ 32" "start + bits \<le> 64 * length b" "0 < bits"
  shows "(start + bits) mod 64 = 0 \<longrightarrow>
      (\<exists>b'. bitmap_comp_set b start bits = Some b' \<and> bmp_set b' = bmp_set b \<union> {start ..< start + bits})"
    and "(start + bits) mod 64 \<noteq> 0 \<longrightarrow> bitmap_comp_set b start bits = None"
proof -
  note c = bitmap_range_counts [OF assms(1)]
  have start: "64 * (start div 64) + start mod 64 = start" by simp
  have lt: "start mod 64 < 64" by simp
  note defs = bitmap_comp_set_def BITS_DIV_LONG_def BITS_MOD_LONG_def BITS_PER_LONG_def
  show "(start + bits) mod 64 = 0 \<longrightarrow>
      (\<exists>b'. bitmap_comp_set b start bits = Some b' \<and> bmp_set b' = bmp_set b \<union> {start ..< start + bits})"
  proof
    assume z: "(start + bits) mod 64 = 0"
    then obtain q where q: "start + bits = 64 * q" by auto
    define m where "m = q - start div 64 - 1"
    have "start div 64 < q" using q assms(3) by (simp add: less_mult_imp_div_less)
    then have m: "q = start div 64 + m + 1" by (simp add: m_def)
    have "bits = (64 - start mod 64) + 64 * m" using q m start lt by linarith
    then have e: "unat (of_nat bits :: u32) = unat (of_nat (64 - start mod 64) :: u32) + 64 * m"
      using c by simp
    have "start div 64 + m < length b" using q m assms(2) by simp
    moreover have "64 * (start div 64) + (64 - (64 - start mod 64)) = start" using start lt by linarith
    ultimately show "\<exists>b'. bitmap_comp_set b start bits = Some b' \<and> bmp_set b' = bmp_set b \<union> {start ..< start + bits}"
      using bitmap_range_loop_set [OF e, of "start div 64" b "BIT_HIGH_MASK start" "start + bits"] z c lt m q
      by (auto simp: defs BIT_HIGH_MASK_bit)
  qed
  show "(start + bits) mod 64 \<noteq> 0 \<longrightarrow> bitmap_comp_set b start bits = None"
  proof
    assume n: "(start + bits) mod 64 \<noteq> 0"
    have "bits mod 64 \<noteq> (64 - start mod 64) mod 64"
    proof
      assume "bits mod 64 = (64 - start mod 64) mod 64"
      then have "(start + bits) mod 64 = (start mod 64 + (64 - start mod 64)) mod 64"
        by (metis mod_add_left_eq mod_add_right_eq)
      then show False using n lt by simp
    qed
    then have "unat (of_nat bits :: u32) mod 64 \<noteq> unat (of_nat (64 - start mod 64) :: u32) mod 64"
      unfolding c .
    then show "bitmap_comp_set b start bits = None"
      unfolding defs by (rule bitmap_range_loop_fault)
  qed
qed

theorem bitmap_comp_set_range_witness:
  "\<exists>b'. bitmap_comp_set [0, 0] 60 68 = Some b' \<and> bmp_set b' = bmp_set [0, 0] \<union> {60 ..< 128}"
  using bitmap_comp_set_range(1) [of 60 68 "[0, 0]"] by simp

lemma memcmp_nonzero:
  "memcmp s1 s2 n \<noteq> 0 \<longleftrightarrow> (\<exists>k < n. s1 ! k \<noteq> s2 ! k)"
proof -
  let ?r = "filter (\<lambda>res. res \<noteq> 0) (map (\<lambda>k. uint (s1 ! k) - uint (s2 ! k)) [0 ..< n])"
  have "memcmp s1 s2 n \<noteq> 0 \<longleftrightarrow> ?r \<noteq> []"
  proof (cases ?r)
    case (Cons r rs)
    then have "r \<in> set ?r" by (metis list.set_intros(1))
    then have "r \<noteq> 0" by simp
    then show ?thesis using Cons by (simp add: memcmp_def)
  qed (simp add: memcmp_def)
  also have "\<dots> \<longleftrightarrow> (\<exists>k < n. uint (s1 ! k) \<noteq> uint (s2 ! k))" by (auto simp: filter_empty_conv)
  also have "\<dots> \<longleftrightarrow> (\<exists>k < n. s1 ! k \<noteq> s2 ! k)" by (simp only: word_uint_eq_iff [symmetric])
  finally show ?thesis .
qed

lemma memcmp_map: "memcmp (map f [0 ..< n]) (map g [0 ..< n]) n \<noteq> 0 \<longleftrightarrow> (\<exists>k < n. f k \<noteq> g k)"
  unfolding memcmp_nonzero by (rule ex_cong1) auto

lemma bitmap_byte_bit:
  assumes "j < 8" "8 * k + j < 64 * length a"
  shows "bit (bitmap_byte a k) j \<longleftrightarrow> bmp_bit a (8 * k + j)"
proof -
  have "(8 * k + j) div (8 * 8) = k div 8" using assms(1) by (simp only: div_mult2_eq)
  moreover have "(8 * k + j) mod (8 * 8) = 8 * (k mod 8) + j" using assms(1) by (simp only: mod_mult2_eq) simp
  ultimately have "(8 * k + j) div 64 = k div 8" "(8 * k + j) mod 64 = 8 * (k mod 8) + j" by simp_all
  then show ?thesis using assms by (simp add: bitmap_byte_def bmp_bit_def bit_ucast_iff bit_drop_bit_eq)
qed

lemma bitmap_bytes_differ:
  assumes "bits \<le> 64 * length a" "bits \<le> 64 * length b" "8 dvd bits"
  shows "(\<exists>k < bits div 8. bitmap_byte a k \<noteq> bitmap_byte b k) \<longleftrightarrow> (\<exists>i < bits. bmp_bit a i \<noteq> bmp_bit b i)"
proof
  assume "\<exists>k < bits div 8. bitmap_byte a k \<noteq> bitmap_byte b k"
  then obtain k j where k: "k < bits div 8" "j < 8" "bit (bitmap_byte a k) j \<noteq> bit (bitmap_byte b k) j"
    by (auto simp: bit_eq_iff)
  from assms(3) k(1,2) have i: "8 * k + j < bits" by (auto elim!: dvdE)
  then have "8 * k + j < 64 * length a" "8 * k + j < 64 * length b" using assms(1,2) by linarith+
  then show "\<exists>i < bits. bmp_bit a i \<noteq> bmp_bit b i" using k i bitmap_byte_bit by metis
next
  assume "\<exists>i < bits. bmp_bit a i \<noteq> bmp_bit b i"
  then obtain i where i: "i < bits" "bmp_bit a i \<noteq> bmp_bit b i" by blast
  have e: "8 * (i div 8) + i mod 8 = i" by simp
  have "bit (bitmap_byte a (i div 8)) (i mod 8) \<longleftrightarrow> bmp_bit a i" "bit (bitmap_byte b (i div 8)) (i mod 8) \<longleftrightarrow> bmp_bit b i"
    using bitmap_byte_bit [of "i mod 8" "i div 8"] assms(1,2) i(1) by (simp_all only: e)
  moreover have "i div 8 < bits div 8" using i(1) assms(3) by (auto elim!: dvdE simp: less_mult_imp_div_less)
  ultimately show "\<exists>k < bits div 8. bitmap_byte a k \<noteq> bitmap_byte b k" using i(2) by metis
qed

text \<open>
  C40: the word-wise operations act bit by bit on the bits below the bit count, and
  \<open>bitmap_comp_equal\<close> compares exactly those; but \<open>bitmap_comp_replace\<close> copies \<open>old\<close> and never looks at
  the new bits, and \<open>bitmap_equal\<close> returns the opposite of the comparison for a constant bit count of
  at most one word, and for a multiple of eight known to be one, where it returns \<open>memcmp\<close>.
\<close>

theorem bitmap_logic:
  assumes "bits \<le> 64 * length d" "bits \<le> 64 * length a" "bits \<le> 64 * length b"
  shows "(\<forall>i < bits. (bmp_bit (bitmap_comp_or d a b bits) i \<longleftrightarrow> bmp_bit a i \<or> bmp_bit b i) \<and>
      (bmp_bit (bitmap_comp_xor d a b bits) i \<longleftrightarrow> bmp_bit a i \<noteq> bmp_bit b i) \<and>
      (bmp_bit (bitmap_comp_complement d a bits) i \<longleftrightarrow> \<not> bmp_bit a i) \<and>
      (bmp_bit (bitmap_comp_replace d a b c bits) i \<longleftrightarrow> bmp_bit a i)) \<and>
    (bitmap_comp_equal a b bits \<longleftrightarrow> (\<forall>i < bits. bmp_bit a i \<longleftrightarrow> bmp_bit b i)) \<and>
    (0 < bits \<and> bits \<le> 64 \<longrightarrow> (bitmap_equal True const_mem a b bits \<longleftrightarrow> \<not> bitmap_comp_equal a b bits)) \<and>
    (8 dvd bits \<longrightarrow> (bitmap_equal const True a b bits \<longleftrightarrow> \<not> bitmap_comp_equal a b bits)) \<and>
    (bitmap_equal False False a b bits \<longleftrightarrow> bitmap_comp_equal a b bits)"
proof -
  have logic: "(bmp_bit (bitmap_comp_or d a b bits) i \<longleftrightarrow> bmp_bit a i \<or> bmp_bit b i) \<and>
      (bmp_bit (bitmap_comp_xor d a b bits) i \<longleftrightarrow> bmp_bit a i \<noteq> bmp_bit b i) \<and>
      (bmp_bit (bitmap_comp_complement d a bits) i \<longleftrightarrow> \<not> bmp_bit a i) \<and>
      (bmp_bit (bitmap_comp_replace d a b c bits) i \<longleftrightarrow> bmp_bit a i)" if "i < bits" for i
    using bmp_bit_or_xor [OF assms(1) that assms(2,3)] by blast
  note eq = bitmap_comp_equal_spec [OF assms(2,3)]
  have small: "bitmap_equal const m a b bits \<longleftrightarrow> \<not> bitmap_comp_equal a b bits"
    if s: "small_const_nbits const bits" for const m
  proof -
    have n: "0 < bits" "bits \<le> 64" using s by (simp_all add: small_const_nbits_def BITS_PER_LONG_def)
    have "bmp_bit a j = bit (a ! 0) j \<and> bmp_bit b j = bit (b ! 0) j" if "j < bits" for j
      using that n assms(2,3) by (auto simp: bmp_bit_def)
    moreover have "(if bits mod 64 = 0 then 64 else bits mod 64) = bits" using n by (auto simp: mod_if)
    ultimately show ?thesis using s unfolding eq by (auto simp: bitmap_equal_def masked_zero bit_xor_iff)
  qed
  have mem: "bitmap_equal const True a b bits \<longleftrightarrow> \<not> bitmap_comp_equal a b bits"
    if "8 dvd bits" "\<not> small_const_nbits const bits" for const
    using that bitmap_bytes_differ [OF assms(2,3) that(1)] unfolding eq
    by (simp add: bitmap_equal_def BITMAP_MEM_ALIGNMENT_def memcmp_map)
  have one: "0 < bits \<and> bits \<le> 64 \<longrightarrow> small_const_nbits True bits"
    by (simp add: small_const_nbits_def BITS_PER_LONG_def)
  show ?thesis
    using logic eq small [of True const_mem] one small [of const True] mem [of const]
    by (auto simp: bitmap_equal_def small_const_nbits_def)
qed

theorem bitmap_logic_witness: "bitmap_comp_equal [1] [1] 4 \<and> \<not> bitmap_equal True False [1] [1] 4 \<and> bitmap_equal False True [1] [3] 8"
proof -
  have "bitmap_comp_equal [1] [1] 4" "\<not> bitmap_equal True False [1] [1] 4"
    using bitmap_logic [of 4 "[0]" "[1]" "[1]" "[0]" False True] by simp_all
  moreover have "bitmap_equal False True [1] [3] 8 \<longleftrightarrow> \<not> bitmap_comp_equal [1] [3] 8"
    "bitmap_comp_equal [1] [3] 8 \<longleftrightarrow> (\<forall>i < 8. bmp_bit [1] i \<longleftrightarrow> bmp_bit [3] i)"
    using bitmap_logic [of 8 "[0]" "[1]" "[3]" "[0]" False False] by simp_all
  moreover have "(1 :: nat) < 8 \<and> bmp_bit [1] 1 \<noteq> bmp_bit [3] 1" by (simp add: bmp_bit_def bit_numeral_rec bit_1_iff)
  ultimately show ?thesis by blast
qed

text \<open>
  Two searches return positions outside of what they search: \<open>find_prev_bit\<close> masks the bits
  below the start where it means those above, and so finds a bit after the start; and
  \<open>comp_find_last_zero\<close> returns the last zero of the word, beyond the bit count.
\<close>

lemma find_prev_and_last_zero_examples:
  "find_prev_bit False [0x24] 64 3 = 5 \<and> comp_find_last_zero [0x7] 4 False = 63"
  by (simp add: find_prev_bit_def small_const_nbits_def comp_find_prev_bit_def comp_find_prev_loop.simps find_fetch_def
      BITS_PER_LONG_def BIT_HIGH_MASK_def flsuf_def fls_step_def comp_find_last_zero_def
      comp_find_last_loop.simps BIT_LOW_MASK_def flzuf_def mask_numeral)

end
