(* ===== verification/Sched_Class.thy ===== *)
theory Sched_Class
  imports Bitmap
begin

text \<open>
  The priority schedulers: \<^verbatim>\<open>kernel/sched/fifo.c\<close> and \<^verbatim>\<open>kernel/sched/rr.c\<close>. A list head
  that was never initialised (both of its pointers null) is \<open>None\<close>, and following it, or an index
  outside of the queue's arrays, is a fault: the operation returns \<open>None\<close>. A task is in at most one
  list of a class, the one of its priority.
\<close>

section \<open>State\<close>

type_synonym task_id = nat

definition FIFO_PRIO_MAX :: nat where "FIFO_PRIO_MAX = 64"
definition RR_PRIO_MAX :: nat where "RR_PRIO_MAX = 64"

record fifo_queue =
  fq_bitmap :: "ulong list"
  fq_task :: "nat \<Rightarrow> task_id list option"
  fq_running :: "nat \<Rightarrow> u32"

record rr_queue = fifo_queue +
  rr_timeslice :: "task_id \<Rightarrow> u32"
  rr_resched :: bool

text \<open>The queue flags that the classes look at.\<close>

record queue_flags =
  QUEUE_SAVE :: bool
  QUEUE_MOVE :: bool
  ENQUEUE_HEAD :: bool

definition move_entity :: "queue_flags \<Rightarrow> bool" where
  "move_entity flags = (\<not> (QUEUE_SAVE flags \<and> \<not> QUEUE_MOVE flags))"

definition set_list :: "nat \<Rightarrow> task_id list \<Rightarrow> 'a fifo_queue_scheme \<Rightarrow> 'a fifo_queue_scheme" where
  "set_list prio l q = q\<lparr>fq_task := (fq_task q)(prio := Some l)\<rparr>"

section \<open>The operations that both classes have\<close>

definition class_task_enqueue ::
  "task_id \<Rightarrow> nat \<Rightarrow> queue_flags \<Rightarrow> 'a fifo_queue_scheme \<Rightarrow> 'a fifo_queue_scheme option" where
  "class_task_enqueue task prio flags q =
     (if FIFO_PRIO_MAX \<le> prio then None
      else if move_entity flags then
        case fq_task q prio of None \<Rightarrow> None
        | Some l \<Rightarrow>
            let q1 = set_list prio (if ENQUEUE_HEAD flags then task # l else l @ [task]) q
            in case arch_bit_set (fq_bitmap q1) prio of None \<Rightarrow> None
               | Some b \<Rightarrow> Some (q1\<lparr>fq_bitmap := b, fq_running := (fq_running q)(prio := fq_running q prio + 1)\<rparr>)
      else Some (q\<lparr>fq_running := (fq_running q)(prio := fq_running q prio + 1)\<rparr>))"

definition class_task_dequeue ::
  "task_id \<Rightarrow> nat \<Rightarrow> queue_flags \<Rightarrow> 'a fifo_queue_scheme \<Rightarrow> 'a fifo_queue_scheme option" where
  "class_task_dequeue task prio flags q =
     (if FIFO_PRIO_MAX \<le> prio then None
      else if move_entity flags then
        case fq_task q prio of None \<Rightarrow> None
        | Some l \<Rightarrow>
            let q1 = set_list prio (remove1 task l) q
            in case (if remove1 task l = [] then arch_bit_clr (fq_bitmap q1) prio else Some (fq_bitmap q1)) of
                 None \<Rightarrow> None
               | Some b \<Rightarrow> Some (q1\<lparr>fq_bitmap := b, fq_running := (fq_running q)(prio := fq_running q prio - 1)\<rparr>)
      else Some (q\<lparr>fq_running := (fq_running q)(prio := fq_running q prio - 1)\<rparr>))"

text \<open>\<open>list_move_prev\<close> of a task to the end of the list of its priority.\<close>

definition class_move_last :: "task_id \<Rightarrow> nat \<Rightarrow> 'a fifo_queue_scheme \<Rightarrow> 'a fifo_queue_scheme option" where
  "class_move_last task prio q =
     (if FIFO_PRIO_MAX \<le> prio then None
      else case fq_task q prio of None \<Rightarrow> None
        | Some l \<Rightarrow> Some (set_list prio (remove1 task l @ [task]) q))"

text \<open>
  The bitmap has a constant bit count of one word, for which \<open>find_first_bit\<close> is inlined. The
  result of a pick is a task, no task, or a fault.
\<close>

definition find_first_bit_small :: "ulong list \<Rightarrow> nat \<Rightarrow> nat" where
  "find_first_bit_small addr bits =
     (if addr ! 0 \<noteq> 0 then ffsuf (addr ! 0 AND BIT_LOW_MASK bits) else bits)"

definition class_task_pick :: "'a fifo_queue_scheme \<Rightarrow> task_id option option" where
  "class_task_pick q =
     (let index = find_first_bit_small (fq_bitmap q) FIFO_PRIO_MAX
      in if FIFO_PRIO_MAX \<le> index then Some None
         else case fq_task q index of Some (t # l) \<Rightarrow> Some (Some t) | _ \<Rightarrow> None)"

section \<open>The FIFO class\<close>

text \<open>\<open>list_head_init(fifo_queue->task)\<close> initialises the first list of the zeroed queue.\<close>

definition fifo_queue_create :: fifo_queue where
  "fifo_queue_create =
     \<lparr>fq_bitmap = [0], fq_task = (\<lambda>_. None)(0 := Some []), fq_running = (\<lambda>_. 0)\<rparr>"

definition fifo_task_enqueue :: "task_id \<Rightarrow> nat \<Rightarrow> queue_flags \<Rightarrow> fifo_queue \<Rightarrow> fifo_queue option" where
  "fifo_task_enqueue = class_task_enqueue"

definition fifo_task_dequeue :: "task_id \<Rightarrow> nat \<Rightarrow> queue_flags \<Rightarrow> fifo_queue \<Rightarrow> fifo_queue option" where
  "fifo_task_dequeue = class_task_dequeue"

definition fifo_task_yield :: "task_id \<Rightarrow> nat \<Rightarrow> fifo_queue \<Rightarrow> fifo_queue option" where
  "fifo_task_yield = class_move_last"

definition fifo_task_pick :: "fifo_queue \<Rightarrow> task_id option option" where
  "fifo_task_pick = class_task_pick"

section \<open>The round robin class\<close>

text \<open>\<open>tslice\<close> is \<open>RR_TIMESLICE\<close>, which the configuration sets.\<close>

definition rr_queue_create :: rr_queue where
  "rr_queue_create =
     \<lparr>fq_bitmap = [0], fq_task = (\<lambda>_. None)(0 := Some []), fq_running = (\<lambda>_. 0),
      rr_timeslice = (\<lambda>_. 0), rr_resched = False\<rparr>"

definition rr_task_create :: "u32 \<Rightarrow> task_id \<Rightarrow> rr_queue \<Rightarrow> rr_queue" where
  "rr_task_create tslice task q = q\<lparr>rr_timeslice := (rr_timeslice q)(task := tslice)\<rparr>"

definition rr_task_enqueue :: "task_id \<Rightarrow> nat \<Rightarrow> queue_flags \<Rightarrow> rr_queue \<Rightarrow> rr_queue option" where
  "rr_task_enqueue task prio flags q =
     map_option (\<lambda>q. q\<lparr>rr_resched := True\<rparr>) (class_task_enqueue task prio flags q)"

definition rr_task_dequeue :: "task_id \<Rightarrow> nat \<Rightarrow> queue_flags \<Rightarrow> rr_queue \<Rightarrow> rr_queue option" where
  "rr_task_dequeue = class_task_dequeue"

definition rr_task_tick :: "u32 \<Rightarrow> task_id \<Rightarrow> nat \<Rightarrow> rr_queue \<Rightarrow> rr_queue option" where
  "rr_task_tick tslice task prio q =
     (let old = rr_timeslice q task;
          q1 = q\<lparr>rr_timeslice := (rr_timeslice q)(task := old - 1)\<rparr>
      in if old \<noteq> 0 then Some q1
         else map_option (\<lambda>q. q\<lparr>rr_timeslice := (rr_timeslice q)(task := tslice), rr_resched := True\<rparr>)
                (if fq_running q1 prio > 1 then class_move_last task prio q1 else Some q1))"

definition rr_task_yield :: "u32 \<Rightarrow> task_id \<Rightarrow> nat \<Rightarrow> rr_queue \<Rightarrow> rr_queue option" where
  "rr_task_yield tslice task prio q =
     class_move_last task prio (q\<lparr>rr_timeslice := (rr_timeslice q)(task := tslice)\<rparr>)"

definition rr_task_pick :: "rr_queue \<Rightarrow> task_id option option" where
  "rr_task_pick = class_task_pick"

section \<open>The invariant\<close>

definition class_inv :: "'a fifo_queue_scheme \<Rightarrow> bool" where
  "class_inv q \<longleftrightarrow>
     length (fq_bitmap q) = 1 \<and>
     (\<forall>p < 64. bmp_bit (fq_bitmap q) p \<longleftrightarrow> (\<exists>t l. fq_task q p = Some (t # l)))"

definition class_list :: "'a fifo_queue_scheme \<Rightarrow> nat \<Rightarrow> task_id list" where
  "class_list q p = (case fq_task q p of None \<Rightarrow> [] | Some l \<Rightarrow> l)"

lemma class_pick_spec:
  assumes inv: "class_inv q"
  shows "case class_task_pick q of None \<Rightarrow> False
    | Some None \<Rightarrow> (\<forall>p < 64. class_list q p = [])
    | Some (Some t) \<Rightarrow> (\<exists>p < 64. \<exists>l. class_list q p = t # l \<and> (\<forall>p' < p. class_list q p' = []))"
proof -
  let ?w = "fq_bitmap q ! 0"
  have b: "bit ?w p \<longleftrightarrow> class_list q p \<noteq> []" if "p < 64" for p
  proof -
    have "bmp_bit (fq_bitmap q) p \<longleftrightarrow> bit ?w p" using inv that by (simp add: class_inv_def bmp_bit_def)
    moreover have "bmp_bit (fq_bitmap q) p \<longleftrightarrow> class_list q p \<noteq> []"
      using inv that by (auto simp: class_inv_def class_list_def neq_Nil_conv split: option.splits)
    ultimately show ?thesis by simp
  qed
  have m: "?w AND BIT_LOW_MASK 64 = ?w"
    by (rule bit_eqI) (auto simp: bit_and_iff BIT_LOW_MASK_bit)
  show ?thesis
  proof (cases "?w = 0")
    case True
    then have "class_task_pick q = Some None" by (simp add: class_task_pick_def find_first_bit_small_def)
    then show ?thesis using b True by simp
  next
    case False
    note f = ffsuf_least [OF False]
    let ?p = "ffsuf ?w"
    have "class_list q ?p \<noteq> []" using b [OF f(3)] f(1) by simp
    then obtain t l where l: "fq_task q ?p = Some (t # l)"
      by (auto simp: class_list_def neq_Nil_conv split: option.splits)
    then have "class_task_pick q = Some (Some t)"
      using False f(3) m by (simp add: class_task_pick_def find_first_bit_small_def FIFO_PRIO_MAX_def)
    moreover have "class_list q p' = []" if "p' < ?p" for p'
      using b [of p'] f(2) [OF that] f(3) that by simp
    ultimately show ?thesis using l f(3) by (auto simp: class_list_def intro!: exI [of _ ?p])
  qed
qed

lemma class_inv_set:
  assumes inv: "class_inv q" and p: "p < 64" and b: "length b = 1"
    "\<And>i. i < 64 \<Longrightarrow> bmp_bit b i \<longleftrightarrow> (if i = p then l \<noteq> [] else bmp_bit (fq_bitmap q) i)"
    and q': "fq_bitmap q' = b" "fq_task q' = (fq_task q)(p := Some l)"
  shows "class_inv q'" and "class_list q' i = (if i = p then l else class_list q i)"
  using assms by (auto simp: class_inv_def class_list_def neq_Nil_conv)

lemma arch_bit_one:
  assumes "length b = 1" "p < 64"
  shows "\<exists>b'. arch_bit_set b p = Some b' \<and> length b' = 1 \<and> (\<forall>i. bmp_bit b' i \<longleftrightarrow> i = p \<or> bmp_bit b i)"
    and "\<exists>b'. arch_bit_clr b p = Some b' \<and> length b' = 1 \<and> (\<forall>i. bmp_bit b' i \<longleftrightarrow> i \<noteq> p \<and> bmp_bit b i)"
proof -
  have p: "p < 64 * length b" using assms by simp
  have "bmp_set (b[p div 64 := b ! (p div 64) OR BIT p]) = insert p (bmp_set b)"
    "bmp_set (b[p div 64 := b ! (p div 64) AND NOT (BIT p)]) = bmp_set b - {p}"
    by (fact word_set_bits(1) [OF p], fact word_set_bits(2) [OF p])
  then show "\<exists>b'. arch_bit_set b p = Some b' \<and> length b' = 1 \<and> (\<forall>i. bmp_bit b' i \<longleftrightarrow> i = p \<or> bmp_bit b i)"
    "\<exists>b'. arch_bit_clr b p = Some b' \<and> length b' = 1 \<and> (\<forall>i. bmp_bit b' i \<longleftrightarrow> i \<noteq> p \<and> bmp_bit b i)"
    using assms p by (auto simp: arch_bit_set_def arch_bit_clr_def word_update_spec bmp_set_def set_eq_iff)
qed

lemma class_enqueue_spec:
  assumes inv: "class_inv q" and p: "p < 64" and l: "fq_task q p = Some l" and f: "move_entity flags"
  shows "\<exists>q'. class_task_enqueue t p flags q = Some q' \<and> class_inv q' \<and>
    (\<forall>i. class_list q' i = (if i = p then (if ENQUEUE_HEAD flags then t # l else l @ [t]) else class_list q i)) \<and>
    (\<forall>i. fq_task q' i = None \<longleftrightarrow> fq_task q i = None)"
proof -
  have "length (fq_bitmap q) = 1" using inv by (simp add: class_inv_def)
  from arch_bit_one(1) [OF this p] obtain b where b: "arch_bit_set (fq_bitmap q) p = Some b"
    "length b = 1" "\<And>i. bmp_bit b i \<longleftrightarrow> i = p \<or> bmp_bit (fq_bitmap q) i" by blast
  let ?l = "if ENQUEUE_HEAD flags then t # l else l @ [t]"
  let ?q = "(set_list p ?l q)\<lparr>fq_bitmap := b, fq_running := (fq_running q)(p := fq_running q p + 1)\<rparr>"
  have "class_task_enqueue t p flags q = Some ?q"
    using p l f b(1) by (simp add: class_task_enqueue_def FIFO_PRIO_MAX_def Let_def set_list_def)
  moreover have "class_inv ?q" "class_list ?q i = (if i = p then ?l else class_list q i)" for i
    using class_inv_set [OF inv p b(2), of ?l ?q] b(3) by (simp_all add: set_list_def)
  ultimately show ?thesis using l by (intro exI [of _ ?q]) (simp add: set_list_def)
qed

lemma class_dequeue_spec:
  assumes inv: "class_inv q" and p: "p < 64" and l: "fq_task q p = Some l" and f: "move_entity flags"
  shows "\<exists>q'. class_task_dequeue t p flags q = Some q' \<and> class_inv q' \<and>
    (\<forall>i. class_list q' i = (if i = p then remove1 t l else class_list q i)) \<and>
    (\<forall>i. fq_task q' i = None \<longleftrightarrow> fq_task q i = None)"
proof -
  have len: "length (fq_bitmap q) = 1" using inv by (simp add: class_inv_def)
  have sub: "bmp_bit (fq_bitmap q) p" if "remove1 t l \<noteq> []"
    using inv p l that by (cases l) (auto simp: class_inv_def)
  obtain b where b: "(if remove1 t l = [] then arch_bit_clr (fq_bitmap q) p else Some (fq_bitmap q)) = Some b"
    "length b = 1" "\<And>i. i < 64 \<Longrightarrow> bmp_bit b i \<longleftrightarrow> (if i = p then remove1 t l \<noteq> [] else bmp_bit (fq_bitmap q) i)"
    using arch_bit_one(2) [OF len p] len sub by (cases "remove1 t l = []") auto
  let ?q = "(set_list p (remove1 t l) q)\<lparr>fq_bitmap := b, fq_running := (fq_running q)(p := fq_running q p - 1)\<rparr>"
  have "class_task_dequeue t p flags q = Some ?q"
  proof (cases "remove1 t l = []")
    case True
    then show ?thesis using p l f b(1) by (simp add: class_task_dequeue_def FIFO_PRIO_MAX_def Let_def set_list_def)
  next
    case False
    then have "b = fq_bitmap q" using b(1) by simp
    then show ?thesis using p l f False
      by (cases q) (simp add: class_task_dequeue_def FIFO_PRIO_MAX_def Let_def set_list_def)
  qed
  moreover have "class_inv ?q" "class_list ?q i = (if i = p then remove1 t l else class_list q i)" for i
    using class_inv_set [OF inv p b(2,3), of ?q] by (simp_all add: set_list_def)
  ultimately show ?thesis using l by (intro exI [of _ ?q]) (simp add: set_list_def)
qed

lemma class_move_last_spec:
  assumes inv: "class_inv q" and p: "p < 64" and l: "fq_task q p = Some l" "t \<in> set l"
  shows "\<exists>q'. class_move_last t p q = Some q' \<and> class_inv q' \<and>
    (\<forall>i. class_list q' i = (if i = p then remove1 t l @ [t] else class_list q i)) \<and>
    (\<forall>i. fq_task q' i = None \<longleftrightarrow> fq_task q i = None) \<and> fq_running q' = fq_running q"
proof -
  let ?q = "set_list p (remove1 t l @ [t]) q"
  have "l \<noteq> []" using l(2) by auto
  then have "bmp_bit (fq_bitmap q) p" using inv p l(1) by (auto simp: class_inv_def neq_Nil_conv)
  moreover have "length (fq_bitmap q) = 1" using inv by (simp add: class_inv_def)
  ultimately have "class_inv ?q" "class_list ?q i = (if i = p then remove1 t l @ [t] else class_list q i)" for i
    using class_inv_set [OF inv p, of "fq_bitmap q" "remove1 t l @ [t]" ?q] by (simp_all add: set_list_def)
  moreover have "class_move_last t p q = Some ?q"
    using p l by (simp add: class_move_last_def FIFO_PRIO_MAX_def)
  ultimately show ?thesis using l(1) by (intro exI [of _ ?q]) (simp add: set_list_def)
qed

section \<open>The interface of a scheduling class\<close>

text \<open>
  What the core relies on: \<open>enq\<close> appends to the list of a priority that is ready, \<open>pick\<close> does not
  fault and chooses from the lists alone.
\<close>

locale sched_class =
  fixes enq :: "task_id \<Rightarrow> nat \<Rightarrow> 'q \<Rightarrow> 'q option"
    and pick :: "'q \<Rightarrow> task_id option option"
    and inv :: "'q \<Rightarrow> bool"
    and tasks :: "'q \<Rightarrow> nat \<Rightarrow> task_id list"
    and ready :: "'q \<Rightarrow> nat \<Rightarrow> bool"
  assumes enq_law: "inv q \<Longrightarrow> p < 64 \<Longrightarrow> ready q p \<Longrightarrow>
      \<exists>q'. enq t p q = Some q' \<and> inv q' \<and> ready q' = ready q \<and>
        tasks q' = (tasks q)(p := tasks q p @ [t])"
    and pick_law: "inv q \<Longrightarrow>
      case pick q of None \<Rightarrow> False
      | Some None \<Rightarrow> (\<forall>p < 64. tasks q p = [])
      | Some (Some t) \<Rightarrow> (\<exists>p < 64. \<exists>l. tasks q p = t # l \<and> (\<forall>p' < p. tasks q p' = []))"
begin

lemma pick_none_iff:
  assumes "inv q"
  shows "pick q = Some None \<longleftrightarrow> (\<forall>p < 64. tasks q p = [])"
  using pick_law [OF assms] by (fastforce split: option.splits)

lemma pick_first:
  assumes "inv q" "p < 64" "tasks q p = t # l" "\<forall>p' < p. tasks q p' = []"
  shows "pick q = Some (Some t)"
proof -
  have "pick q \<noteq> Some None" using pick_none_iff [OF assms(1)] assms(2,3) by force
  then obtain u where u: "pick q = Some (Some u)" using pick_law [OF assms(1)] by (auto split: option.splits)
  then obtain p' l' where p': "p' < 64" "tasks q p' = u # l'" "\<forall>i < p'. tasks q i = []"
    using pick_law [OF assms(1)] by auto
  then have "\<not> p < p'" "\<not> p' < p" using assms by auto
  then have "p' = p" by simp
  then show ?thesis using u p' assms(3) by simp
qed

text \<open>A task woken up at a priority above all others that wait runs next.\<close>

lemma enq_preempts:
  assumes "inv q" "p < 64" "ready q p" "\<forall>p' \<le> p. tasks q p' = []"
  shows "\<exists>q'. enq t p q = Some q' \<and> inv q' \<and> pick q' = Some (Some t)"
proof -
  from enq_law [OF assms(1-3), of t] obtain q' where q': "enq t p q = Some q'" "inv q'"
    "tasks q' = (tasks q)(p := tasks q p @ [t])" by blast
  then have "tasks q' p = [t]" "\<forall>p' < p. tasks q' p' = []" using assms(4) by simp_all
  then show ?thesis using pick_first [OF q'(2) assms(2)] q' by blast
qed

text \<open>Enqueueing does not overtake: the choice stays as it was when there was one of at least the priority.\<close>

lemma enq_no_overtake:
  assumes "inv q" "p < 64" "ready q p" "pick q = Some (Some u)" "\<exists>p' \<le> p. tasks q p' \<noteq> []"
  shows "\<exists>q'. enq t p q = Some q' \<and> inv q' \<and> pick q' = Some (Some u)"
proof -
  from enq_law [OF assms(1-3), of t] obtain q' where q': "enq t p q = Some q'" "inv q'"
    "tasks q' = (tasks q)(p := tasks q p @ [t])" by blast
  obtain pu l where pu: "pu < 64" "tasks q pu = u # l" "\<forall>i < pu. tasks q i = []"
    using pick_law [OF assms(1)] assms(4) by auto
  have "pu \<le> p" using assms(5) pu(3) by (meson le_trans linorder_not_le)
  then have "tasks q' pu = u # (if pu = p then l @ [t] else l)" "\<forall>i < pu. tasks q' i = []"
    using pu q'(3) by auto
  then show ?thesis using pick_first [OF q'(2) pu(1)] q' by blast
qed

end

definition plain_flags :: queue_flags where
  "plain_flags = \<lparr>QUEUE_SAVE = False, QUEUE_MOVE = False, ENQUEUE_HEAD = False\<rparr>"

lemma move_plain [simp]: "move_entity plain_flags" "\<not> ENQUEUE_HEAD plain_flags"
  by (simp_all add: plain_flags_def move_entity_def)

lemma class_enq_law:
  assumes "class_inv q" "p < 64" "fq_task q p \<noteq> None"
  shows "\<exists>q'. class_task_enqueue t p plain_flags q = Some q' \<and> class_inv q' \<and>
    (\<lambda>i. fq_task q' i \<noteq> None) = (\<lambda>i. fq_task q i \<noteq> None) \<and>
    class_list q' = (class_list q)(p := class_list q p @ [t])"
proof -
  obtain l where l: "fq_task q p = Some l" using assms(3) by blast
  then have "class_list q p = l" by (simp add: class_list_def)
  from class_enqueue_spec [OF assms(1,2) l, of plain_flags t] obtain q' where q':
    "class_task_enqueue t p plain_flags q = Some q'" "class_inv q'"
    "\<And>i. class_list q' i = (if i = p then (if ENQUEUE_HEAD plain_flags then t # l else l @ [t]) else class_list q i)"
    "\<And>i. fq_task q' i = None \<longleftrightarrow> fq_task q i = None"
    by (metis move_plain(1))
  have "class_list q' = (class_list q)(p := class_list q p @ [t])"
    using q'(3) \<open>class_list q p = l\<close> by (intro ext) (simp only: move_plain(2) if_False fun_upd_apply)
  moreover have "(\<lambda>i. fq_task q' i \<noteq> None) = (\<lambda>i. fq_task q i \<noteq> None)" by (simp only: q'(4))
  ultimately show ?thesis using q'(1,2) by blast
qed

interpretation fifo: sched_class "\<lambda>t p q. fifo_task_enqueue t p plain_flags q" fifo_task_pick class_inv
  class_list "\<lambda>q p. fq_task q p \<noteq> None"
proof unfold_locales
  fix q :: fifo_queue and p t
  assume "class_inv q" "p < 64" "fq_task q p \<noteq> None"
  then show "\<exists>q'. fifo_task_enqueue t p plain_flags q = Some q' \<and> class_inv q' \<and>
      (\<lambda>p. fq_task q' p \<noteq> None) = (\<lambda>p. fq_task q p \<noteq> None) \<and>
      class_list q' = (class_list q)(p := class_list q p @ [t])"
    unfolding fifo_task_enqueue_def by (rule class_enq_law)
qed (use class_pick_spec in \<open>simp add: fifo_task_pick_def\<close>)

lemma class_inv_more [simp]: "class_inv (q\<lparr>rr_resched := b\<rparr>) = class_inv q"
  "class_list (q\<lparr>rr_resched := b\<rparr>) = class_list q"
  "class_inv (q\<lparr>rr_timeslice := s\<rparr>) = class_inv q" "class_list (q\<lparr>rr_timeslice := s\<rparr>) = class_list q"
  by (auto simp: class_inv_def class_list_def fun_eq_iff)

interpretation rr: sched_class "\<lambda>t p q. rr_task_enqueue t p plain_flags q" rr_task_pick class_inv
  class_list "\<lambda>q p. fq_task q p \<noteq> None"
proof unfold_locales
  fix q :: rr_queue and p t
  assume "class_inv q" "p < 64" "fq_task q p \<noteq> None"
  from class_enq_law [OF this, of t] obtain q' where "class_task_enqueue t p plain_flags q = Some q'"
    "class_inv q'" "(\<lambda>i. fq_task q' i \<noteq> None) = (\<lambda>i. fq_task q i \<noteq> None)"
    "class_list q' = (class_list q)(p := class_list q p @ [t])" by blast
  then show "\<exists>q'. rr_task_enqueue t p plain_flags q = Some q' \<and> class_inv q' \<and>
      (\<lambda>p. fq_task q' p \<noteq> None) = (\<lambda>p. fq_task q p \<noteq> None) \<and>
      class_list q' = (class_list q)(p := class_list q p @ [t])"
    by (intro exI [of _ "q'\<lparr>rr_resched := True\<rparr>"]) (simp add: rr_task_enqueue_def)
qed (use class_pick_spec in \<open>simp add: rr_task_pick_def\<close>)

section \<open>Time slices and rounds\<close>

text \<open>\<open>n\<close> ticks of a running task, and \<open>k\<close> turns in each of which the picked task uses up its slice.\<close>

fun rr_ticks :: "u32 \<Rightarrow> task_id \<Rightarrow> nat \<Rightarrow> nat \<Rightarrow> rr_queue \<Rightarrow> rr_queue option" where
  "rr_ticks tslice t p 0 q = Some q"
| "rr_ticks tslice t p (Suc n) q = Option.bind (rr_task_tick tslice t p q) (rr_ticks tslice t p n)"

fun rr_turns :: "u32 \<Rightarrow> nat \<Rightarrow> nat \<Rightarrow> rr_queue \<Rightarrow> (task_id list \<times> rr_queue) option" where
  "rr_turns tslice p 0 q = Some ([], q)"
| "rr_turns tslice p (Suc k) q =
     (case rr_task_pick q of
        Some (Some t) \<Rightarrow>
          Option.bind (rr_ticks tslice t p (Suc (unat tslice)) q)
            (\<lambda>q1. map_option (\<lambda>(ts, q2). (t # ts, q2)) (rr_turns tslice p k q1))
      | _ \<Rightarrow> None)"

lemma rr_ticks_slice:
  assumes "rr_timeslice q t = of_nat n" "n < 2 ^ 32"
  shows "rr_ticks tslice t p n q = Some (q\<lparr>rr_timeslice := (rr_timeslice q)(t := 0)\<rparr>)"
  using assms
proof (induction n arbitrary: q)
  case 0
  then have "(rr_timeslice q)(t := 0) = rr_timeslice q" by auto
  then show ?case by simp
next
  case (Suc n)
  let ?q = "q\<lparr>rr_timeslice := (rr_timeslice q)(t := of_nat n)\<rparr>"
  have "unat (of_nat (Suc n) :: u32) = Suc n"
    by (rule u32_nat) (rule Suc.prems(2))
  then have "(of_nat (Suc n) :: u32) \<noteq> 0" by (metis unat_0 nat.distinct(1))
  then have "rr_task_tick tslice t p q = Some ?q"
    using Suc.prems(1) by (simp add: rr_task_tick_def Let_def)
  moreover have "rr_ticks tslice t p n ?q = Some (?q\<lparr>rr_timeslice := (rr_timeslice ?q)(t := 0)\<rparr>)"
    by (rule Suc.IH) (use Suc.prems(2) in simp_all)
  moreover have "((rr_timeslice q)(t := of_nat n))(t := 0) = (rr_timeslice q)(t := 0)" by simp
  ultimately show ?case by (simp del: fun_upd_apply)
qed

lemma rr_ticks_add:
  "rr_ticks tslice t p (m + n) q = Option.bind (rr_ticks tslice t p m q) (rr_ticks tslice t p n)"
  by (induction m arbitrary: q) (auto split: bind_splits)

text \<open>A queue in which the tasks of priority \<open>p\<close> are the most urgent ones and start their slices.\<close>

definition rr_ready :: "u32 \<Rightarrow> nat \<Rightarrow> task_id list \<Rightarrow> rr_queue \<Rightarrow> bool" where
  "rr_ready tslice p l q \<longleftrightarrow>
     class_inv q \<and> p < 64 \<and> class_list q p = l \<and> l \<noteq> [] \<and> distinct l \<and> (\<forall>p' < p. class_list q p' = []) \<and>
     unat (fq_running q p) = length l \<and> (\<forall>t \<in> set l. rr_timeslice q t = tslice)"

lemma rr_turn:
  assumes r: "rr_ready tslice p (t # l) q"
  shows "\<exists>q'. rr_ticks tslice t p (Suc (unat tslice)) q = Some q' \<and> rr_ready tslice p (l @ [t]) q'"
proof -
  let ?q0 = "q\<lparr>rr_timeslice := (rr_timeslice q)(t := 0)\<rparr>"
  let ?q1 = "?q0\<lparr>rr_timeslice := (rr_timeslice ?q0)(t := 0 - 1)\<rparr>"
  have "rr_timeslice q t = of_nat (unat tslice)" using r by (simp add: rr_ready_def)
  then have ticks: "rr_ticks tslice t p (unat tslice) q = Some ?q0"
    by (rule rr_ticks_slice) (use unsigned_less [of tslice] in simp)
  have l: "fq_task ?q1 p = Some (t # l)" using r by (simp add: rr_ready_def class_list_def split: option.splits)
  have dist: "t \<notin> set l" using r by (simp add: rr_ready_def)
  have inv1: "class_inv ?q1" "class_list ?q1 = class_list q" using r by (simp_all add: rr_ready_def)
  define q2 where "q2 = (if fq_running ?q1 p > 1 then class_move_last t p ?q1 else Some ?q1)"
  have "\<exists>q3. q2 = Some q3 \<and> class_inv q3 \<and>
      (\<forall>i. class_list q3 i = (if i = p then l @ [t] else class_list q i)) \<and>
      fq_running q3 = fq_running q \<and> rr_timeslice q3 = rr_timeslice ?q1"
  proof (cases "l = []")
    case True
    then have "\<not> fq_running ?q1 p > 1" using r by (simp add: rr_ready_def word_less_nat_alt)
    then show ?thesis using inv1 r True by (auto simp: q2_def rr_ready_def)
  next
    case False
    then have "fq_running ?q1 p > 1"
      using r by (cases l) (simp_all add: rr_ready_def word_less_nat_alt)
    then have q2: "q2 = class_move_last t p ?q1" by (simp add: q2_def)
    have "p < 64" using r by (simp add: rr_ready_def)
    have tl: "t \<in> set (t # l)" by simp
    from class_move_last_spec [OF inv1(1) \<open>p < 64\<close> l tl] obtain q3 where q3: "class_move_last t p ?q1 = Some q3"
      "class_inv q3" "\<forall>i. class_list q3 i = (if i = p then remove1 t (t # l) @ [t] else class_list ?q1 i)"
      "fq_running q3 = fq_running ?q1" by blast
    moreover have "rr_timeslice q3 = rr_timeslice ?q1"
      using q3(1) by (auto simp: class_move_last_def set_list_def split: if_splits option.splits)
    ultimately show ?thesis using q2 inv1(2) by simp
  qed
  then obtain q3 where q3: "q2 = Some q3" "class_inv q3"
    "\<And>i. class_list q3 i = (if i = p then l @ [t] else class_list q i)"
    "fq_running q3 = fq_running q" "rr_timeslice q3 = rr_timeslice ?q1" by blast
  let ?q' = "q3\<lparr>rr_timeslice := (rr_timeslice q3)(t := tslice), rr_resched := True\<rparr>"
  have "rr_task_tick tslice t p ?q0
      = map_option (\<lambda>q. q\<lparr>rr_timeslice := (rr_timeslice q)(t := tslice), rr_resched := True\<rparr>) q2"
    by (simp add: rr_task_tick_def Let_def q2_def)
  then have "rr_task_tick tslice t p ?q0 = Some ?q'" by (simp only: q3(1) option.map)
  then have "rr_ticks tslice t p (Suc (unat tslice)) q = Some ?q'"
    using ticks rr_ticks_add [of tslice t p "unat tslice" 1 q] by simp
  moreover have "rr_ready tslice p (l @ [t]) ?q'"
    using r q3 by (auto simp: rr_ready_def)
  ultimately show ?thesis by blast
qed

lemma rr_turns_rotate:
  assumes "rr_ready tslice p l q"
  shows "\<exists>q'. rr_turns tslice p k q = Some (map (\<lambda>i. l ! (i mod length l)) [0 ..< k], q') \<and>
    rr_ready tslice p (rotate k l) q'"
  using assms
proof (induction k arbitrary: l q)
  case (Suc k)
  obtain t l' where l: "l = t # l'" using Suc.prems by (cases l) (auto simp: rr_ready_def)
  have "rr_task_pick q = Some (Some t)"
    using rr.pick_first [of q p t l'] Suc.prems by (simp add: rr_ready_def l)
  moreover obtain q1 where q1: "rr_ticks tslice t p (Suc (unat tslice)) q = Some q1"
    "rr_ready tslice p (l' @ [t]) q1" using rr_turn Suc.prems l by blast
  moreover obtain q' where q': "rr_turns tslice p k q1 =
      Some (map (\<lambda>i. (l' @ [t]) ! (i mod length (l' @ [t]))) [0 ..< k], q')"
    "rr_ready tslice p (rotate k (l' @ [t])) q'" using Suc.IH [OF q1(2)] by blast
  moreover have "(l' @ [t]) ! (i mod length (l' @ [t])) = l ! (Suc i mod length l)" for i
    using nth_rotate1 [of "i mod length l" l] by (simp add: l mod_Suc_eq)
  moreover have "map (\<lambda>i. l ! (i mod length l)) [0 ..< Suc k]
      = t # map (\<lambda>i. l ! (Suc i mod length l)) [0 ..< k]"
    by (simp add: l map_Suc_upt [symmetric] upt_conv_Cons del: upt_Suc)
  moreover have "rotate (Suc k) l = rotate k (l' @ [t])" by (simp add: l rotate1_rotate_swap)
  ultimately show ?case by (intro exI [of _ q']) simp
qed simp

section \<open>Properties\<close>

text \<open>
  C24: both classes pick the first task of the most urgent non-empty priority, and none exactly when
  all lists are empty; the pick never follows an empty or uninitialised list.
\<close>

theorem class_pick_highest:
  assumes "class_inv q" "class_inv r"
  shows "(fifo_task_pick q = Some None \<longleftrightarrow> (\<forall>p < 64. class_list q p = [])) \<and> fifo_task_pick q \<noteq> None \<and>
    (\<forall>p < 64. \<forall>t l. class_list q p = t # l \<and> (\<forall>p' < p. class_list q p' = []) \<longrightarrow>
       fifo_task_pick q = Some (Some t)) \<and>
    (rr_task_pick r = Some None \<longleftrightarrow> (\<forall>p < 64. class_list r p = [])) \<and> rr_task_pick r \<noteq> None \<and>
    (\<forall>p < 64. \<forall>t l. class_list r p = t # l \<and> (\<forall>p' < p. class_list r p' = []) \<longrightarrow>
       rr_task_pick r = Some (Some t))"
  using fifo.pick_none_iff [OF assms(1)] fifo.pick_law [OF assms(1)] fifo.pick_first [OF assms(1)]
    rr.pick_none_iff [OF assms(2)] rr.pick_law [OF assms(2)] rr.pick_first [OF assms(2)]
  by (auto split: option.splits)

definition demo_fifo :: fifo_queue where
  "demo_fifo = \<lparr>fq_bitmap = [4], fq_task = (\<lambda>_. Some [])(2 := Some [7, 8]), fq_running = (\<lambda>_. 0)(2 := 2)\<rparr>"

definition demo_rr :: rr_queue where
  "demo_rr = \<lparr>fq_bitmap = [4], fq_task = (\<lambda>_. Some [])(2 := Some [7, 8]), fq_running = (\<lambda>_. 0)(2 := 2),
     rr_timeslice = (\<lambda>_. 5), rr_resched = False\<rparr>"

lemma demo_inv: "class_inv demo_fifo" "class_inv demo_rr"
proof -
  have "bit (4 :: ulong) p \<longleftrightarrow> p = 2" if "p < 64" for p
  proof -
    have "(4 :: ulong) = 2 ^ 2" by simp
    then show ?thesis using that by (simp only: bit_exp_iff possible_bit_word) auto
  qed
  then show "class_inv demo_fifo" "class_inv demo_rr"
    by (auto simp: class_inv_def demo_fifo_def demo_rr_def bmp_bit_def)
qed

theorem class_pick_highest_witness: "fifo_task_pick demo_fifo = Some (Some 7)"
proof -
  have "class_list demo_fifo 2 = [7, 8]" "\<forall>p' < 2. class_list demo_fifo p' = []"
    by (simp_all add: class_list_def demo_fifo_def)
  then show ?thesis
    using class_pick_highest [OF demo_inv, THEN conjunct2, THEN conjunct2, THEN conjunct1, rule_format, of 2 7 "[8]"]
    by simp
qed

text \<open>
  a task that becomes runnable at a priority above all waiting ones is picked next, and one that
  becomes runnable at a priority where, or below which, others wait does not overtake the task that
  would have been picked.
\<close>

theorem class_wakeup_order:
  assumes "class_inv q" "p < 64" "fq_task q p \<noteq> None"
  shows "((\<forall>p' \<le> p. class_list q p' = []) \<longrightarrow>
      (\<exists>q'. fifo_task_enqueue t p plain_flags q = Some q' \<and> class_inv q' \<and> fifo_task_pick q' = Some (Some t))) \<and>
    (\<forall>u. fifo_task_pick q = Some (Some u) \<and> (\<exists>p' \<le> p. class_list q p' \<noteq> []) \<longrightarrow>
      (\<exists>q'. fifo_task_enqueue t p plain_flags q = Some q' \<and> class_inv q' \<and> fifo_task_pick q' = Some (Some u)))"
  using fifo.enq_preempts [OF assms] fifo.enq_no_overtake [OF assms] by blast

theorem class_wakeup_order_witness:
  "\<exists>q'. fifo_task_enqueue 9 1 plain_flags demo_fifo = Some q' \<and> class_inv q' \<and> fifo_task_pick q' = Some (Some 9)"
  using class_wakeup_order [OF demo_inv(1), of 1 9] by (simp add: demo_fifo_def class_list_def)

text \<open>
  C23: round robin is fair: when each picked task uses up its slice (one tick more than its length),
  the tasks of the most urgent priority run in turn, the \<open>i\<close>-th turn being that of the
  \<open>i mod n\<close>-th task.
\<close>

theorem rr_fair:
  assumes "rr_ready tslice p l q"
  shows "\<exists>q'. rr_turns tslice p k q = Some (map (\<lambda>i. l ! (i mod length l)) [0 ..< k], q') \<and>
    class_list q' p = rotate k l"
  using rr_turns_rotate [OF assms, of k] by (auto simp: rr_ready_def)

theorem rr_fair_witness:
  "\<exists>q'. rr_turns 5 2 3 demo_rr = Some ([7, 8, 7], q') \<and> class_list q' 2 = [8, 7]"
proof -
  have "rr_ready 5 2 [7, 8] demo_rr"
    using demo_inv(2) by (simp add: rr_ready_def) (simp add: demo_rr_def class_list_def)
  from rr_fair [OF this, of 3] show ?thesis by (simp add: numeral_3_eq_3)
qed

text \<open>
  the queues are created with the list of priority 0 initialised only: putting a task of any
  other priority into a new queue follows a null pointer, in both classes.
\<close>

theorem class_create_initialises_one_list:
  "fifo_task_enqueue t 0 plain_flags fifo_queue_create \<noteq> None \<and>
   fifo_task_enqueue t (Suc p) plain_flags fifo_queue_create = None \<and>
   rr_task_enqueue t (Suc p) plain_flags rr_queue_create = None"
proof -
  have "class_inv fifo_queue_create" by (auto simp: class_inv_def fifo_queue_create_def bmp_bit_def)
  then have "fifo_task_enqueue t 0 plain_flags fifo_queue_create \<noteq> None"
    using fifo.enq_law [of fifo_queue_create 0 t] by (auto simp: fifo_queue_create_def)
  moreover have "class_task_enqueue t p plain_flags fifo_queue_create = None"
    "class_task_enqueue t p plain_flags rr_queue_create = None" if "0 < p" for p
    using that by (simp_all add: class_task_enqueue_def fifo_queue_create_def rr_queue_create_def)
  ultimately show ?thesis by (simp add: fifo_task_enqueue_def rr_task_enqueue_def)
qed

end
