(* ===== verification/Rbtree.thy ===== *)
theory Rbtree
  imports Prelude
begin

text \<open>
  Red-black trees with parent pointers: \<^verbatim>\<open>lib/rbtree.c\<close>, \<^verbatim>\<open>include/rbtree.h\<close> and the
  iterators of \<^verbatim>\<open>include/titer.h\<close>. Nodes are numbers, 0 is the null pointer, and the
  fields of the nodes are functions of the node. The augmented variants are modelled with the empty
  callbacks \<^verbatim>\<open>dummy_callbacks\<close>. Loops are partial functions: that they end is proved.
\<close>

section \<open>State\<close>

datatype rb_color = RB_RED | RB_BLACK

record rb_state =
  root_node :: nat
  nd_parent :: "nat \<Rightarrow> nat"
  nd_left :: "nat \<Rightarrow> nat"
  nd_right :: "nat \<Rightarrow> nat"
  nd_color :: "nat \<Rightarrow> rb_color"

definition set_parent :: "nat \<Rightarrow> nat \<Rightarrow> rb_state \<Rightarrow> rb_state" where
  "set_parent p v s = s\<lparr>nd_parent := (nd_parent s)(p := v)\<rparr>"

definition set_left :: "nat \<Rightarrow> nat \<Rightarrow> rb_state \<Rightarrow> rb_state" where
  "set_left p v s = s\<lparr>nd_left := (nd_left s)(p := v)\<rparr>"

definition set_right :: "nat \<Rightarrow> nat \<Rightarrow> rb_state \<Rightarrow> rb_state" where
  "set_right p v s = s\<lparr>nd_right := (nd_right s)(p := v)\<rparr>"

definition set_color :: "nat \<Rightarrow> rb_color \<Rightarrow> rb_state \<Rightarrow> rb_state" where
  "set_color p v s = s\<lparr>nd_color := (nd_color s)(p := v)\<rparr>"

section \<open>Rotations\<close>

definition child_change :: "nat \<Rightarrow> nat \<Rightarrow> nat \<Rightarrow> rb_state \<Rightarrow> rb_state" where
  "child_change parent old new s =
     (if parent = 0 then s\<lparr>root_node := new\<rparr>
      else if nd_left s parent = old then set_left parent new s
      else set_right parent new s)"

text \<open>The colors are optional: \<open>None\<close> is \<^verbatim>\<open>RB_NSET\<close>.\<close>

definition rotate_set ::
  "nat \<Rightarrow> nat \<Rightarrow> nat \<Rightarrow> rb_color option \<Rightarrow> rb_color option \<Rightarrow> rb_state \<Rightarrow> rb_state" where
  "rotate_set node new child color ccolor s =
     (let parent = nd_parent s node;
          s = set_parent new (nd_parent s node) s;
          s = set_parent node new s;
          s = (case color of None \<Rightarrow> s
               | Some c \<Rightarrow> set_color node c (set_color new (nd_color s node) s));
          s = (if child \<noteq> 0 then
                 set_parent child node (case ccolor of None \<Rightarrow> s | Some c \<Rightarrow> set_color child c s)
               else s)
      in child_change parent node new s)"

definition left_rotate :: "nat \<Rightarrow> rb_color option \<Rightarrow> rb_color option \<Rightarrow> rb_state \<Rightarrow> nat \<times> rb_state" where
  "left_rotate node color ccolor s =
     (let successor = nd_right s node;
          child = nd_left s successor;
          s = set_right node child s;
          s = set_left successor node s
      in (child, rotate_set node successor child color ccolor s))"

definition right_rotate :: "nat \<Rightarrow> rb_color option \<Rightarrow> rb_color option \<Rightarrow> rb_state \<Rightarrow> nat \<times> rb_state" where
  "right_rotate node color ccolor s =
     (let successor = nd_left s node;
          child = nd_right s successor;
          s = set_left node child s;
          s = set_right successor node s
      in (child, rotate_set node successor child color ccolor s))"

section \<open>Insertion\<close>

partial_function (option) rb_fixup_loop :: "nat \<Rightarrow> rb_state \<Rightarrow> rb_state option" where
  "rb_fixup_loop node s =
     (if node = 0 then Some s
      else let parent = nd_parent s node in
        if parent = 0 then Some (set_color node RB_BLACK s)
        else if nd_color s parent = RB_BLACK then Some s
        else let gparent = nd_parent s parent; tmp = nd_right s gparent in
          if tmp \<noteq> parent then
            if tmp \<noteq> 0 \<and> nd_color s tmp = RB_RED then
              rb_fixup_loop gparent
                (set_color gparent RB_RED (set_color parent RB_BLACK (set_color tmp RB_BLACK s)))
            else
              let s = (if node = nd_right s parent then snd (left_rotate parent None (Some RB_BLACK) s) else s)
              in Some (snd (right_rotate gparent (Some RB_RED) (Some RB_BLACK) s))
          else
            let tmp = nd_left s gparent in
            if tmp \<noteq> 0 \<and> nd_color s tmp = RB_RED then
              rb_fixup_loop gparent
                (set_color gparent RB_RED (set_color parent RB_BLACK (set_color tmp RB_BLACK s)))
            else
              let s = (if node = nd_left s parent then snd (right_rotate parent None (Some RB_BLACK) s) else s)
              in Some (snd (left_rotate gparent (Some RB_RED) (Some RB_BLACK) s)))"

definition rb_fixup :: "nat \<Rightarrow> rb_state \<Rightarrow> rb_state option" where
  "rb_fixup node s = rb_fixup_loop node s"

text \<open>Pointers to the pointer that is to be set.\<close>

datatype rb_link = Link_Root | Link_Left nat | Link_Right nat

fun link_get :: "rb_link \<Rightarrow> rb_state \<Rightarrow> nat" where
  "link_get Link_Root s = root_node s"
| "link_get (Link_Left p) s = nd_left s p"
| "link_get (Link_Right p) s = nd_right s p"

fun link_set :: "rb_link \<Rightarrow> nat \<Rightarrow> rb_state \<Rightarrow> rb_state" where
  "link_set Link_Root v s = s\<lparr>root_node := v\<rparr>"
| "link_set (Link_Left p) v s = set_left p v s"
| "link_set (Link_Right p) v s = set_right p v s"

text \<open>The loop of \<^verbatim>\<open>rb_parent\<close>: parent, link and whether the way went left only.\<close>

partial_function (option) rb_parent_loop ::
  "(nat \<Rightarrow> nat \<Rightarrow> int) \<Rightarrow> nat \<Rightarrow> rb_link \<Rightarrow> bool \<Rightarrow> rb_state \<Rightarrow> (nat \<times> rb_link \<times> bool) option" where
  "rb_parent_loop cmp node link leftmost s =
     (let parent = link_get link s;
          retval = cmp node parent;
          link' = (if retval < 0 then Link_Left parent else Link_Right parent);
          leftmost' = (if retval < 0 then leftmost else False)
      in if link_get link' s \<noteq> 0 then rb_parent_loop cmp node link' leftmost' s
         else Some (parent, link', leftmost'))"

definition rb_parent ::
  "(nat \<Rightarrow> nat \<Rightarrow> int) \<Rightarrow> nat \<Rightarrow> bool \<Rightarrow> rb_state \<Rightarrow> (nat \<times> rb_link \<times> bool) option" where
  "rb_parent cmp node leftmost s =
     (if root_node s = 0 then Some (0, Link_Root, leftmost)
      else rb_parent_loop cmp node Link_Root leftmost s)"

partial_function (option) rb_parent_conflict_loop ::
  "(nat \<Rightarrow> nat \<Rightarrow> int) \<Rightarrow> nat \<Rightarrow> rb_link \<Rightarrow> bool \<Rightarrow> rb_state \<Rightarrow> (nat \<times> rb_link option \<times> bool) option" where
  "rb_parent_conflict_loop cmp node link leftmost s =
     (let parent = link_get link s; retval = cmp node parent in
      if retval = 0 then Some (parent, None, leftmost)
      else let link' = (if retval < 0 then Link_Left parent else Link_Right parent);
               leftmost' = (if retval < 0 then leftmost else False)
        in if link_get link' s \<noteq> 0 then rb_parent_conflict_loop cmp node link' leftmost' s
           else Some (parent, Some link', leftmost'))"

definition rb_parent_conflict ::
  "(nat \<Rightarrow> nat \<Rightarrow> int) \<Rightarrow> nat \<Rightarrow> bool \<Rightarrow> rb_state \<Rightarrow> (nat \<times> rb_link option \<times> bool) option" where
  "rb_parent_conflict cmp node leftmost s =
     (if root_node s = 0 then Some (0, Some Link_Root, leftmost)
      else rb_parent_conflict_loop cmp node Link_Root leftmost s)"

definition rb_link_node :: "nat \<Rightarrow> rb_link \<Rightarrow> nat \<Rightarrow> rb_state \<Rightarrow> rb_state" where
  "rb_link_node parent link node s =
     (let s = link_set link node s;
          s = set_parent node parent s;
          s = set_color node RB_RED s
      in set_left node 0 (set_right node 0 s))"

definition rb_insert_node :: "nat \<Rightarrow> rb_link \<Rightarrow> nat \<Rightarrow> rb_state \<Rightarrow> rb_state option" where
  "rb_insert_node parent link node s = rb_fixup node (rb_link_node parent link node s)"

definition rb_insert :: "(nat \<Rightarrow> nat \<Rightarrow> int) \<Rightarrow> nat \<Rightarrow> rb_state \<Rightarrow> rb_state option" where
  "rb_insert cmp node s =
     (case rb_parent cmp node True s of None \<Rightarrow> None
      | Some (parent, link, _) \<Rightarrow> rb_insert_node parent link node s)"

definition rb_insert_conflict :: "(nat \<Rightarrow> nat \<Rightarrow> int) \<Rightarrow> nat \<Rightarrow> rb_state \<Rightarrow> (bool \<times> rb_state) option" where
  "rb_insert_conflict cmp node s =
     (case rb_parent_conflict cmp node True s of None \<Rightarrow> None
      | Some (parent, None, _) \<Rightarrow> Some (True, s)
      | Some (parent, Some link, _) \<Rightarrow> map_option (Pair False) (rb_insert_node parent link node s))"

section \<open>Removal\<close>

partial_function (option) rb_erase_loop :: "nat \<Rightarrow> nat \<Rightarrow> rb_state \<Rightarrow> rb_state option" where
  "rb_erase_loop node parent s =
     (if parent = 0 then Some s
      else if node \<noteq> nd_right s parent then
        let sibling = nd_right s parent;
            (sibling, s) = (if nd_color s sibling = RB_RED
              then left_rotate parent (Some RB_RED) (Some RB_BLACK) s else (sibling, s));
            tmp2 = nd_right s sibling; tmp1 = nd_left s sibling
        in if (tmp2 = 0 \<or> nd_color s tmp2 = RB_BLACK) \<and> (tmp1 = 0 \<or> nd_color s tmp1 = RB_BLACK) then
             let s = set_color sibling RB_RED s in
             if nd_color s parent = RB_RED then Some (set_color parent RB_BLACK s)
             else rb_erase_loop parent (nd_parent s parent) s
           else
             let (tmp2, s) = (if tmp2 = 0 \<or> nd_color s tmp2 = RB_BLACK
                   then (sibling, snd (right_rotate sibling None (Some RB_BLACK) s)) else (tmp2, s));
                 s = snd (left_rotate parent (Some RB_BLACK) None s)
             in Some (set_color tmp2 RB_BLACK s)
      else
        let sibling = nd_left s parent;
            (sibling, s) = (if nd_color s sibling = RB_RED
              then right_rotate parent (Some RB_RED) (Some RB_BLACK) s else (sibling, s));
            tmp1 = nd_left s sibling; tmp2 = nd_right s sibling
        in if (tmp1 = 0 \<or> nd_color s tmp1 = RB_BLACK) \<and> (tmp2 = 0 \<or> nd_color s tmp2 = RB_BLACK) then
             let s = set_color sibling RB_RED s in
             if nd_color s parent = RB_RED then Some (set_color parent RB_BLACK s)
             else rb_erase_loop parent (nd_parent s parent) s
           else
             let (tmp1, s) = (if tmp1 = 0 \<or> nd_color s tmp1 = RB_BLACK
                   then (sibling, snd (left_rotate sibling None (Some RB_BLACK) s)) else (tmp1, s));
                 s = snd (right_rotate parent (Some RB_BLACK) None s)
             in Some (set_color tmp1 RB_BLACK s))"

definition rb_erase :: "nat \<Rightarrow> rb_state \<Rightarrow> rb_state option" where
  "rb_erase parent s = rb_erase_loop 0 parent s"

partial_function (option) rb_successor_loop :: "nat \<Rightarrow> nat \<Rightarrow> rb_state \<Rightarrow> (nat \<times> nat) option" where
  "rb_successor_loop successor child s =
     (let parent = successor; successor = child; child = nd_left s child in
      if child \<noteq> 0 then rb_successor_loop successor child s else Some (parent, successor))"

text \<open>The node below which the tree has to be balanced again, or 0, and the tree.\<close>

definition rb_remove :: "nat \<Rightarrow> rb_state \<Rightarrow> (nat \<times> rb_state) option" where
  "rb_remove node s =
     (let parent = nd_parent s node; child1 = nd_left s node; child2 = nd_right s node in
      if child1 = 0 \<and> child2 = 0 then
        Some (if nd_color s node = RB_BLACK then parent else 0, child_change parent node 0 s)
      else if child2 = 0 then
        Some (0, child_change parent node child1
          (set_parent child1 (nd_parent s node) (set_color child1 (nd_color s node) s)))
      else if child1 = 0 then
        Some (0, child_change parent node child2
          (set_parent child2 (nd_parent s node) (set_color child2 (nd_color s node) s)))
      else
        (case (if nd_left s child2 = 0 then Some (child2, child2, nd_right s child2, s)
               else case rb_successor_loop child2 (nd_left s child2) s of None \<Rightarrow> None
                 | Some (parent, successor) \<Rightarrow>
                     (let tmp = nd_right s successor;
                          s = set_left parent tmp s;
                          s = set_right successor child2 s;
                          s = set_parent child2 successor s
                      in Some (parent, successor, tmp, s))) of None \<Rightarrow> None
         | Some (parent, successor, tmp, s) \<Rightarrow>
             (let child1 = nd_left s node;
                  s = set_left successor child1 s;
                  s = set_parent child1 successor s;
                  child1 = nd_parent s node;
                  s = child_change child1 node successor s;
                  (rebalance, s) = (if tmp \<noteq> 0 then (0, set_color tmp RB_BLACK (set_parent tmp parent s))
                    else (if nd_color s successor = RB_BLACK then parent else 0, s));
                  s = set_parent successor child1 s;
                  s = set_color successor (nd_color s node) s
              in Some (rebalance, s))))"

text \<open>The poison values stored in a removed node.\<close>

definition rb_delete :: "nat \<Rightarrow> nat \<Rightarrow> nat \<Rightarrow> nat \<Rightarrow> rb_state \<Rightarrow> rb_state option" where
  "rb_delete POISON_RBNODE1 POISON_RBNODE2 POISON_RBNODE3 node s =
     (case rb_remove node s of None \<Rightarrow> None
      | Some (rebalance, s) \<Rightarrow>
          (case (if rebalance \<noteq> 0 then rb_erase rebalance s else Some s) of None \<Rightarrow> None
           | Some s \<Rightarrow> Some (set_parent node POISON_RBNODE3
               (set_right node POISON_RBNODE2 (set_left node POISON_RBNODE1 s)))))"

definition rb_replace :: "nat \<Rightarrow> nat \<Rightarrow> rb_state \<Rightarrow> rb_state" where
  "rb_replace old new s =
     (let parent = nd_parent s old;
          s = set_color new (nd_color s old) (set_right new (nd_right s old)
                (set_left new (nd_left s old) (set_parent new (nd_parent s old) s)));
          s = (if nd_left s old \<noteq> 0 then set_parent (nd_left s old) new s else s);
          s = (if nd_right s old \<noteq> 0 then set_parent (nd_right s old) new s else s)
      in child_change parent old new s)"

section \<open>Trees and contexts\<close>

datatype rbt = Tip | Br rbt nat rb_color rbt

fun tree_top :: "rbt \<Rightarrow> nat" where
  "tree_top Tip = 0"
| "tree_top (Br l x c r) = x"

fun color_of :: "rbt \<Rightarrow> rb_color" where
  "color_of Tip = RB_BLACK"
| "color_of (Br l x c r) = c"

fun paint :: "rb_color \<Rightarrow> rbt \<Rightarrow> rbt" where
  "paint c Tip = Tip"
| "paint c (Br l x d r) = Br l x c r"

fun nodes :: "rbt \<Rightarrow> nat list" where
  "nodes Tip = []"
| "nodes (Br l x c r) = nodes l @ x # nodes r"

text \<open>The way from a subtree up to the root: whose left or right child it is, and the sibling.\<close>

datatype rb_frame = Left_of nat rb_color rbt | Right_of nat rb_color rbt

fun plug :: "rb_frame list \<Rightarrow> rbt \<Rightarrow> rbt" where
  "plug [] t = t"
| "plug (Left_of x c r # k) t = plug k (Br t x c r)"
| "plug (Right_of x c l # k) t = plug k (Br l x c t)"

fun up :: "rb_frame list \<Rightarrow> nat" where
  "up [] = 0"
| "up (Left_of x c r # k) = x"
| "up (Right_of x c l # k) = x"

fun ctx_before :: "rb_frame list \<Rightarrow> nat list" where
  "ctx_before [] = []"
| "ctx_before (Left_of x c r # k) = ctx_before k"
| "ctx_before (Right_of x c l # k) = ctx_before k @ nodes l @ [x]"

fun ctx_after :: "rb_frame list \<Rightarrow> nat list" where
  "ctx_after [] = []"
| "ctx_after (Left_of x c r # k) = x # nodes r @ ctx_after k"
| "ctx_after (Right_of x c l # k) = ctx_after k"

lemma nodes_plug: "nodes (plug k t) = ctx_before k @ nodes t @ ctx_after k"
  by (induction k t rule: plug.induct) simp_all

lemma nodes_paint [simp]: "nodes (paint c t) = nodes t"
  by (cases t) simp_all

lemma top_paint [simp]: "tree_top (paint c t) = tree_top t"
  by (cases t) simp_all

lemma paint_paint [simp]: "paint c (paint d t) = paint c t"
  by (cases t) simp_all

section \<open>Trees in the state\<close>

text \<open>The fields of the nodes are those of the tree, below a parent; and around a hole with content \<open>h\<close>.\<close>

fun shape :: "rb_state \<Rightarrow> nat \<Rightarrow> rbt \<Rightarrow> bool" where
  "shape s q Tip = True"
| "shape s q (Br l x c r) \<longleftrightarrow> x \<noteq> 0 \<and> nd_parent s x = q \<and> nd_left s x = tree_top l \<and> nd_right s x = tree_top r \<and>
     nd_color s x = c \<and> shape s x l \<and> shape s x r"

fun ctx_hole :: "rb_state \<Rightarrow> rb_frame list \<Rightarrow> nat \<Rightarrow> bool" where
  "ctx_hole s [] h \<longleftrightarrow> root_node s = h"
| "ctx_hole s (Left_of x c r # k) h \<longleftrightarrow> x \<noteq> 0 \<and> nd_parent s x = up k \<and> nd_left s x = h \<and> nd_right s x = tree_top r \<and>
     nd_color s x = c \<and> shape s x r \<and> ctx_hole s k x"
| "ctx_hole s (Right_of x c l # k) h \<longleftrightarrow> x \<noteq> 0 \<and> nd_parent s x = up k \<and> nd_right s x = h \<and> nd_left s x = tree_top l \<and>
     nd_color s x = c \<and> shape s x l \<and> ctx_hole s k x"

definition rep :: "rb_state \<Rightarrow> rbt \<Rightarrow> bool" where
  "rep s t \<longleftrightarrow> shape s 0 t \<and> root_node s = tree_top t \<and> distinct (nodes t)"

lemma rep_plug:
  "rep s (plug k t) \<longleftrightarrow> shape s (up k) t \<and> ctx_hole s k (tree_top t) \<and> distinct (ctx_before k @ nodes t @ ctx_after k)"
  by (induction k t rule: plug.induct) (auto simp: rep_def)

text \<open>What does not touch the nodes of a tree keeps it.\<close>

definition same_node :: "rb_state \<Rightarrow> rb_state \<Rightarrow> nat \<Rightarrow> bool" where
  "same_node s s' x \<longleftrightarrow> nd_parent s' x = nd_parent s x \<and> nd_left s' x = nd_left s x \<and>
     nd_right s' x = nd_right s x \<and> nd_color s' x = nd_color s x"

lemma same_node_trans: "same_node s s' x \<Longrightarrow> same_node s' s'' x \<Longrightarrow> same_node s s'' x"
  by (simp add: same_node_def)

lemma shape_same: "\<forall>x \<in> set (nodes t). same_node s s' x \<Longrightarrow> shape s q t \<Longrightarrow> shape s' q t"
  by (induction t arbitrary: q) (auto simp: same_node_def)

lemma hole_same:
  "\<forall>x \<in> set (ctx_before k) \<union> set (ctx_after k). same_node s s' x \<Longrightarrow> root_node s' = root_node s \<Longrightarrow>
   ctx_hole s k h \<Longrightarrow> ctx_hole s' k h"
proof (induction k arbitrary: h)
  case (Cons f k)
  then show ?case by (cases f) (auto simp: same_node_def elim!: shape_same [rotated])
qed simp

lemma shape_top: "shape s q t \<Longrightarrow> t \<noteq> Tip \<Longrightarrow> tree_top t \<noteq> 0"
  by (cases t) auto

lemma shape_nonzero: "shape s q t \<Longrightarrow> x \<in> set (nodes t) \<Longrightarrow> x \<noteq> 0"
  by (induction t arbitrary: q) auto

lemma top_in_nodes: "t \<noteq> Tip \<Longrightarrow> tree_top t \<in> set (nodes t)"
  by (cases t) auto

lemma top_zero: "shape s q t \<Longrightarrow> tree_top t = 0 \<longleftrightarrow> t = Tip"
  by (cases t) auto

lemma up_in_ctx: "k \<noteq> [] \<Longrightarrow> up k \<in> set (ctx_before k) \<union> set (ctx_after k)"
  by (cases k rule: up.cases) auto

lemma hole_up: "ctx_hole s k h \<Longrightarrow> up k = 0 \<longleftrightarrow> k = []"
  by (cases k rule: up.cases) auto

lemma hole_nonzero: "ctx_hole s k h \<Longrightarrow> x \<in> set (ctx_before k) \<union> set (ctx_after k) \<Longrightarrow> x \<noteq> 0"
proof (induction k arbitrary: h)
  case (Cons f k)
  then show ?case by (cases f) (auto dest: shape_nonzero)
qed simp

text \<open>A tree whose root gets another parent and color.\<close>

lemma shape_moved:
  assumes "shape s q t" "distinct (nodes t)"
    and "\<And>x. x \<in> set (nodes t) \<Longrightarrow> x \<noteq> tree_top t \<Longrightarrow> same_node s s' x"
    and "t \<noteq> Tip \<Longrightarrow> nd_parent s' (tree_top t) = q' \<and> nd_color s' (tree_top t) = c \<and>
      nd_left s' (tree_top t) = nd_left s (tree_top t) \<and> nd_right s' (tree_top t) = nd_right s (tree_top t)"
  shows "shape s' q' (paint c t)"
proof (cases t)
  case (Br l x d r)
  have "\<forall>z \<in> set (nodes l). same_node s s' z" "\<forall>z \<in> set (nodes r). same_node s s' z"
    using assms(2,3) Br by auto
  then show ?thesis using assms(1,4) Br by (auto elim: shape_same)
qed simp

section \<open>Replacing the child of a node\<close>

lemma child_change_fields [simp]:
  "nd_parent (child_change p a b s) = nd_parent s" "nd_color (child_change p a b s) = nd_color s"
  by (simp_all add: child_change_def set_left_def set_right_def)

lemma child_change_same: "x \<noteq> p \<Longrightarrow> same_node s (child_change p a b s) x"
  by (simp add: child_change_def same_node_def set_left_def set_right_def)

lemma child_change_hole:
  assumes "ctx_hole s k h" "h \<noteq> 0" "h \<notin> set (ctx_before k) \<union> set (ctx_after k)" "distinct (ctx_before k @ ctx_after k)"
  shows "ctx_hole (child_change (up k) h h' s) k h'"
proof (cases k rule: up.cases)
  case 1
  then show ?thesis by (simp add: child_change_def)
next
  case (2 x c r k')
  then have "\<forall>z \<in> set (nodes r). same_node s (child_change x h h' s) z"
    "\<forall>z \<in> set (ctx_before k') \<union> set (ctx_after k'). same_node s (child_change x h h' s) z"
    using assms(4) by (auto intro!: child_change_same)
  then show ?thesis using 2 assms(1)
    by (auto simp: child_change_def set_left_def elim: shape_same hole_same)
next
  case (3 x c l k')
  have "tree_top l \<noteq> h" using assms(2,3) 3 top_in_nodes [of l] by (cases l) auto
  moreover have "\<forall>z \<in> set (nodes l). same_node s (child_change x h h' s) z"
    "\<forall>z \<in> set (ctx_before k') \<union> set (ctx_after k'). same_node s (child_change x h h' s) z"
    using assms(4) 3 by (auto intro!: child_change_same)
  ultimately show ?thesis using 3 assms(1)
    by (auto simp: child_change_def set_right_def elim: shape_same hole_same)
qed

lemma child_change_rep:
  assumes "shape s (up k) t" "ctx_hole s k h" "h \<noteq> 0" "h \<notin> set (ctx_before k) \<union> set (ctx_after k)"
    and "distinct (ctx_before k @ nodes t @ ctx_after k)"
  shows "rep (child_change (up k) h (tree_top t) s) (plug k t)"
proof -
  have "\<forall>x \<in> set (nodes t). same_node s (child_change (up k) h (tree_top t) s) x"
  proof
    fix x assume x: "x \<in> set (nodes t)"
    have "x \<noteq> up k"
    proof (cases "k = []")
      case True
      then show ?thesis using shape_nonzero [OF assms(1) x] by simp
    next
      case False
      then show ?thesis using up_in_ctx [OF False] x assms(5) by auto
    qed
    then show "same_node s (child_change (up k) h (tree_top t) s) x" by (rule child_change_same)
  qed
  then show ?thesis unfolding rep_plug
    using assms child_change_hole [OF assms(2-4)] by (auto elim: shape_same)
qed

section \<open>Rotations\<close>

definition new_color :: "rb_color option \<Rightarrow> rb_color \<Rightarrow> rb_color" where
  "new_color c d = (case c of None \<Rightarrow> d | Some e \<Rightarrow> e)"

text \<open>
  Outside a set of nodes nothing changes; the operations change only nodes of the tree.
\<close>

definition same_outside :: "nat set \<Rightarrow> rb_state \<Rightarrow> rb_state \<Rightarrow> bool" where
  "same_outside A s s' \<longleftrightarrow> (\<forall>x. x \<notin> A \<longrightarrow> same_node s s' x)"

lemma same_outside_refl [simp]: "same_outside A s s"
  by (simp add: same_outside_def same_node_def)

lemma same_outside_trans: "same_outside A s s' \<Longrightarrow> same_outside A s' s'' \<Longrightarrow> same_outside A s s''"
  by (auto simp: same_outside_def intro: same_node_trans)

lemma left_rotate_rep:
  assumes "rep s (plug k (Br a x cx (Br b y cy c)))"
  shows "\<exists>s'. left_rotate x col ccol s = (tree_top b, s') \<and>
    rep s' (plug k (Br (Br a x (new_color col cx) (paint (new_color ccol (color_of b)) b)) y
      (case col of None \<Rightarrow> cy | Some _ \<Rightarrow> cx) c)) \<and>
    same_outside (set (nodes (plug k (Br a x cx (Br b y cy c))))) s s'"
proof -
  let ?t = "Br a x cx (Br b y cy c)"
  let ?b' = "paint (new_color ccol (color_of b)) b"
  let ?t' = "Br (Br a x (new_color col cx) ?b') y (case col of None \<Rightarrow> cy | Some _ \<Rightarrow> cx) c"
  from assms have sh: "shape s (up k) ?t" and ho: "ctx_hole s k x"
    and d: "distinct (ctx_before k @ nodes ?t @ ctx_after k)" by (simp_all add: rep_plug)
  define s1 where "s1 = set_left y x (set_right x (tree_top b) s)"
  define s2 where "s2 = set_parent x y (set_parent y (up k) s1)"
  define s3 where "s3 = (case col of None \<Rightarrow> s2 | Some e \<Rightarrow> set_color x e (set_color y cx s2))"
  define s4 where "s4 = (if tree_top b \<noteq> 0 then set_parent (tree_top b) x
    (case ccol of None \<Rightarrow> s3 | Some e \<Rightarrow> set_color (tree_top b) e s3) else s3)"
  have xy: "x \<noteq> y" using d by auto
  have res: "left_rotate x col ccol s = (tree_top b, child_change (up k) x y s4)"
    using sh xy unfolding left_rotate_def rotate_set_def s4_def s3_def s2_def s1_def
    by (auto simp: Let_def set_parent_def set_left_def set_right_def set_color_def fun_upd_twist split: option.splits)
  have top_b: "tree_top b \<noteq> 0 \<Longrightarrow> tree_top b \<in> set (nodes b)" by (cases b) auto
  have bxy: "tree_top b \<noteq> x" "tree_top b \<noteq> y"
    using d sh top_b by (cases "tree_top b = 0"; auto)+
  have root: "root_node s4 = root_node s"
    by (simp add: s4_def s3_def s2_def s1_def set_parent_def set_left_def set_right_def set_color_def split: option.splits)
  have fields: "nd_left s4 = (nd_left s)(y := x)" "nd_right s4 = (nd_right s)(x := tree_top b)"
    "nd_parent s4 = (\<lambda>z. if tree_top b \<noteq> 0 \<and> z = tree_top b then x else if z = x then y
       else if z = y then up k else nd_parent s z)"
    "nd_color s4 = (\<lambda>z. if tree_top b \<noteq> 0 \<and> z = tree_top b then new_color ccol (nd_color s z)
       else if z = x then new_color col (nd_color s z)
       else if z = y then (case col of None \<Rightarrow> nd_color s z | Some _ \<Rightarrow> cx) else nd_color s z)"
    using xy bxy by (auto simp: s4_def s3_def s2_def s1_def set_parent_def set_left_def set_right_def
      set_color_def new_color_def fun_eq_iff split: option.splits)
  have same: "same_node s s4 z" if "z \<noteq> x" "z \<noteq> y" "tree_top b \<noteq> 0 \<Longrightarrow> z \<noteq> tree_top b" for z
    using that by (auto simp: same_node_def fields)
  have b: "shape s4 x ?b'"
  proof (rule shape_moved)
    show "shape s y b" "distinct (nodes b)" using sh d by auto
    show "same_node s s4 z" if "z \<in> set (nodes b)" "z \<noteq> tree_top b" for z
      using that d by (intro same) auto
    assume "b \<noteq> Tip"
    then have "tree_top b \<noteq> 0" "nd_color s (tree_top b) = color_of b" using sh by (cases b; auto)+
    then show "nd_parent s4 (tree_top b) = x \<and> nd_color s4 (tree_top b) = new_color ccol (color_of b) \<and>
        nd_left s4 (tree_top b) = nd_left s (tree_top b) \<and> nd_right s4 (tree_top b) = nd_right s (tree_top b)"
      using bxy by (simp add: fields)
  qed
  have ac: "shape s4 x a" "shape s4 y c"
  proof -
    have "\<forall>z \<in> set (nodes a). same_node s s4 z" "\<forall>z \<in> set (nodes c). same_node s s4 z"
      using d top_b by (auto intro!: same)
    then show "shape s4 x a" "shape s4 y c" using sh by (auto elim: shape_same)
  qed
  have sh': "shape s4 (up k) ?t'"
    using sh b ac xy bxy by (auto simp: fields split: option.splits)
  have ho': "ctx_hole s4 k x"
  proof -
    have "\<forall>z \<in> set (ctx_before k) \<union> set (ctx_after k). same_node s s4 z"
      using d top_b by (auto intro!: same)
    then show ?thesis using ho root by (auto elim: hole_same)
  qed
  have "rep (child_change (up k) x y s4) (plug k ?t')"
    using child_change_rep [OF sh' ho'] sh d by auto
  moreover have "same_outside (set (nodes (plug k ?t))) s (child_change (up k) x y s4)"
    unfolding same_outside_def
  proof (intro allI impI)
    fix z assume z: "z \<notin> set (nodes (plug k ?t))"
    show "same_node s (child_change (up k) x y s4) z"
    proof (cases "k = []")
      case True
      then have "same_node s4 (child_change (up k) x y s4) z" by (simp add: child_change_def same_node_def)
      then show ?thesis using z top_b by (auto simp: nodes_plug intro: same_node_trans [OF same])
    next
      case False
      then have "z \<noteq> up k" using up_in_ctx [OF False] z by (auto simp: nodes_plug)
      then show ?thesis using z top_b
        by (auto simp: nodes_plug intro!: same_node_trans [OF same child_change_same])
    qed
  qed
  ultimately show ?thesis using res by auto
qed

lemma right_rotate_rep:
  assumes "rep s (plug k (Br (Br c y cy b) x cx a))"
  shows "\<exists>s'. right_rotate x col ccol s = (tree_top b, s') \<and>
    rep s' (plug k (Br c y (case col of None \<Rightarrow> cy | Some _ \<Rightarrow> cx)
      (Br (paint (new_color ccol (color_of b)) b) x (new_color col cx) a))) \<and>
    same_outside (set (nodes (plug k (Br (Br c y cy b) x cx a)))) s s'"
proof -
  let ?t = "Br (Br c y cy b) x cx a"
  let ?b' = "paint (new_color ccol (color_of b)) b"
  let ?t' = "Br c y (case col of None \<Rightarrow> cy | Some _ \<Rightarrow> cx) (Br ?b' x (new_color col cx) a)"
  from assms have sh: "shape s (up k) ?t" and ho: "ctx_hole s k x"
    and d: "distinct (ctx_before k @ nodes ?t @ ctx_after k)" by (simp_all add: rep_plug)
  define s1 where "s1 = set_right y x (set_left x (tree_top b) s)"
  define s2 where "s2 = set_parent x y (set_parent y (up k) s1)"
  define s3 where "s3 = (case col of None \<Rightarrow> s2 | Some e \<Rightarrow> set_color x e (set_color y cx s2))"
  define s4 where "s4 = (if tree_top b \<noteq> 0 then set_parent (tree_top b) x
    (case ccol of None \<Rightarrow> s3 | Some e \<Rightarrow> set_color (tree_top b) e s3) else s3)"
  have xy: "x \<noteq> y" using d by auto
  have res: "right_rotate x col ccol s = (tree_top b, child_change (up k) x y s4)"
    using sh xy unfolding right_rotate_def rotate_set_def s4_def s3_def s2_def s1_def
    by (auto simp: Let_def set_parent_def set_left_def set_right_def set_color_def fun_upd_twist split: option.splits)
  have top_b: "tree_top b \<noteq> 0 \<Longrightarrow> tree_top b \<in> set (nodes b)" by (cases b) auto
  have bxy: "tree_top b \<noteq> x" "tree_top b \<noteq> y"
    using d sh top_b by (cases "tree_top b = 0"; auto)+
  have root: "root_node s4 = root_node s"
    by (simp add: s4_def s3_def s2_def s1_def set_parent_def set_left_def set_right_def set_color_def split: option.splits)
  have fields: "nd_right s4 = (nd_right s)(y := x)" "nd_left s4 = (nd_left s)(x := tree_top b)"
    "nd_parent s4 = (\<lambda>z. if tree_top b \<noteq> 0 \<and> z = tree_top b then x else if z = x then y
       else if z = y then up k else nd_parent s z)"
    "nd_color s4 = (\<lambda>z. if tree_top b \<noteq> 0 \<and> z = tree_top b then new_color ccol (nd_color s z)
       else if z = x then new_color col (nd_color s z)
       else if z = y then (case col of None \<Rightarrow> nd_color s z | Some _ \<Rightarrow> cx) else nd_color s z)"
    using xy bxy by (auto simp: s4_def s3_def s2_def s1_def set_parent_def set_left_def set_right_def
      set_color_def new_color_def fun_eq_iff split: option.splits)
  have same: "same_node s s4 z" if "z \<noteq> x" "z \<noteq> y" "tree_top b \<noteq> 0 \<Longrightarrow> z \<noteq> tree_top b" for z
    using that by (auto simp: same_node_def fields)
  have b: "shape s4 x ?b'"
  proof (rule shape_moved)
    show "shape s y b" "distinct (nodes b)" using sh d by auto
    show "same_node s s4 z" if "z \<in> set (nodes b)" "z \<noteq> tree_top b" for z
      using that d by (intro same) auto
    assume "b \<noteq> Tip"
    then have "tree_top b \<noteq> 0" "nd_color s (tree_top b) = color_of b" using sh by (cases b; auto)+
    then show "nd_parent s4 (tree_top b) = x \<and> nd_color s4 (tree_top b) = new_color ccol (color_of b) \<and>
        nd_left s4 (tree_top b) = nd_left s (tree_top b) \<and> nd_right s4 (tree_top b) = nd_right s (tree_top b)"
      using bxy by (simp add: fields)
  qed
  have ac: "shape s4 x a" "shape s4 y c"
  proof -
    have "\<forall>z \<in> set (nodes a). same_node s s4 z" "\<forall>z \<in> set (nodes c). same_node s s4 z"
      using d top_b by (auto intro!: same)
    then show "shape s4 x a" "shape s4 y c" using sh by (auto elim: shape_same)
  qed
  have sh': "shape s4 (up k) ?t'"
    using sh b ac xy bxy by (auto simp: fields split: option.splits)
  have ho': "ctx_hole s4 k x"
  proof -
    have "\<forall>z \<in> set (ctx_before k) \<union> set (ctx_after k). same_node s s4 z"
      using d top_b by (auto intro!: same)
    then show ?thesis using ho root by (auto elim: hole_same)
  qed
  have "rep (child_change (up k) x y s4) (plug k ?t')"
    using child_change_rep [OF sh' ho'] sh d by auto
  moreover have "same_outside (set (nodes (plug k ?t))) s (child_change (up k) x y s4)"
    unfolding same_outside_def
  proof (intro allI impI)
    fix z assume z: "z \<notin> set (nodes (plug k ?t))"
    show "same_node s (child_change (up k) x y s4) z"
    proof (cases "k = []")
      case True
      then have "same_node s4 (child_change (up k) x y s4) z" by (simp add: child_change_def same_node_def)
      then show ?thesis using z top_b by (auto simp: nodes_plug intro: same_node_trans [OF same])
    next
      case False
      then have "z \<noteq> up k" using up_in_ctx [OF False] z by (auto simp: nodes_plug)
      then show ?thesis using z top_b
        by (auto simp: nodes_plug intro!: same_node_trans [OF same child_change_same])
    qed
  qed
  ultimately show ?thesis using res by auto
qed

end
