(* ===== verification/Rbtree_Insert.thy ===== *)
theory Rbtree_Insert
  imports Rbtree
begin

text \<open>
  Insertion into red-black trees: painting nodes, the invariants of the colors and black heights,
  \<^verbatim>\<open>rb_fixup\<close> restores them, \<^verbatim>\<open>rb_parent\<close> finds the place of a new node and
  \<^verbatim>\<open>rb_insert\<close> puts the node behind all nodes it does not come before.
\<close>

section \<open>Reading and painting nodes\<close>

lemma rep_at:
  assumes "rep s (plug k (Br l x c r))"
  shows "x \<noteq> 0" "nd_parent s x = up k" "nd_left s x = tree_top l" "nd_right s x = tree_top r" "nd_color s x = c"
  using assms by (simp_all add: rep_plug)

lemma rep_distinct: "rep s t \<Longrightarrow> distinct (nodes t)"
  by (simp add: rep_def)

lemma rep_up: "rep s (plug k t) \<Longrightarrow> up k = 0 \<longleftrightarrow> k = []"
  by (auto simp: rep_plug dest: hole_up)

lemma rep_top: "rep s (plug k t) \<Longrightarrow> tree_top t = 0 \<longleftrightarrow> t = Tip"
  by (auto simp: rep_plug dest: top_zero)

lemma rep_color: "rep s (plug k t) \<Longrightarrow> t \<noteq> Tip \<Longrightarrow> nd_color s (tree_top t) = color_of t"
  by (cases t) (auto simp: rep_plug)

lemma rep_set_color:
  assumes "rep s (plug k (Br l x c r))"
  shows "rep (set_color x d s) (plug k (Br l x d r))"
    "same_outside (set (nodes (plug k (Br l x c r)))) s (set_color x d s)"
proof -
  have same: "same_node s (set_color x d s) z" if "z \<noteq> x" for z
    using that by (simp add: same_node_def set_color_def)
  have d: "x \<notin> set (nodes l)" "x \<notin> set (nodes r)" "x \<notin> set (ctx_before k) \<union> set (ctx_after k)"
    using assms by (auto simp: rep_plug)
  have "shape (set_color x d s) x l" "shape (set_color x d s) x r" "ctx_hole (set_color x d s) k x"
  proof -
    have "\<forall>z \<in> set (nodes l). same_node s (set_color x d s) z" "\<forall>z \<in> set (nodes r). same_node s (set_color x d s) z"
      "\<forall>z \<in> set (ctx_before k) \<union> set (ctx_after k). same_node s (set_color x d s) z"
      using d by (auto intro!: same)
    then show "shape (set_color x d s) x l" "shape (set_color x d s) x r" "ctx_hole (set_color x d s) k x"
      using assms by (auto simp: rep_plug set_color_def elim: shape_same hole_same)
  qed
  then show "rep (set_color x d s) (plug k (Br l x d r))"
    using assms by (simp add: rep_plug set_color_def)
  show "same_outside (set (nodes (plug k (Br l x c r)))) s (set_color x d s)"
    unfolding same_outside_def by (auto simp: nodes_plug intro: same)
qed

lemma rep_paint:
  assumes "rep s (plug k t)" "t \<noteq> Tip"
  shows "rep (set_color (tree_top t) d s) (plug k (paint d t))"
    "same_outside (set (nodes (plug k t))) s (set_color (tree_top t) d s)"
  using rep_set_color [of s k] assms by (cases t; simp)+

section \<open>The invariants\<close>

text \<open>No red node has a red child, and all ways down have the same number of black nodes.\<close>

fun bheight :: "rbt \<Rightarrow> nat" where
  "bheight Tip = 0"
| "bheight (Br l x c r) = (if c = RB_BLACK then bheight l + 1 else bheight l)"

fun invc :: "rbt \<Rightarrow> bool" where
  "invc Tip = True"
| "invc (Br l x c r) \<longleftrightarrow> (c = RB_RED \<longrightarrow> color_of l = RB_BLACK \<and> color_of r = RB_BLACK) \<and> invc l \<and> invc r"

fun invh :: "rbt \<Rightarrow> bool" where
  "invh Tip = True"
| "invh (Br l x c r) \<longleftrightarrow> bheight l = bheight r \<and> invh l \<and> invh r"

definition rb_inv :: "rbt \<Rightarrow> bool" where
  "rb_inv t \<longleftrightarrow> invc t \<and> invh t \<and> color_of t = RB_BLACK"

text \<open>A context into which a tree of a black height and color of its root fits.\<close>

fun fits :: "rb_frame list \<Rightarrow> nat \<Rightarrow> rb_color \<Rightarrow> bool" where
  "fits [] n d \<longleftrightarrow> d = RB_BLACK"
| "fits (Left_of x c t # k) n d \<longleftrightarrow> invc t \<and> invh t \<and> bheight t = n \<and>
     (c = RB_RED \<longrightarrow> color_of t = RB_BLACK \<and> d = RB_BLACK) \<and> fits k (if c = RB_BLACK then n + 1 else n) c"
| "fits (Right_of x c t # k) n d \<longleftrightarrow> invc t \<and> invh t \<and> bheight t = n \<and>
     (c = RB_RED \<longrightarrow> color_of t = RB_BLACK \<and> d = RB_BLACK) \<and> fits k (if c = RB_BLACK then n + 1 else n) c"

lemma rb_inv_plug: "rb_inv (plug k t) \<longleftrightarrow> invc t \<and> invh t \<and> fits k (bheight t) (color_of t)"
proof (induction k arbitrary: t)
  case (Cons f k)
  then show ?case by (cases f) (auto simp: Cons.IH)
qed (simp add: rb_inv_def)

lemma fits_black: "fits k n d \<Longrightarrow> fits k n RB_BLACK"
proof (cases k)
  case (Cons f k')
  then show "fits k n d \<Longrightarrow> fits k n RB_BLACK" by (cases f) auto
qed simp

lemma color_not_black [simp]: "c \<noteq> RB_BLACK \<longleftrightarrow> c = RB_RED"
  by (cases c) auto

lemma color_not_red [simp]: "c \<noteq> RB_RED \<longleftrightarrow> c = RB_BLACK"
  by (cases c) auto

lemma paint_black [simp]: "color_of t = RB_BLACK \<Longrightarrow> paint RB_BLACK t = t"
  by (cases t) auto

lemma color_paint: "t \<noteq> Tip \<Longrightarrow> color_of (paint c t) = c" "color_of (paint RB_BLACK t) = RB_BLACK"
  by (cases t; simp)+

lemma paint_red_inv:
  assumes "color_of t = RB_RED" "invc t" "invh t"
  shows "invc (paint RB_BLACK t)" "invh (paint RB_BLACK t)" "bheight (paint RB_BLACK t) = Suc (bheight t)" "t \<noteq> Tip"
  using assms by (cases t; simp)+

text \<open>The outcome of an operation: a balanced tree of the same nodes in the same order.\<close>

definition balanced_as :: "rb_state \<Rightarrow> rb_state \<Rightarrow> nat list \<Rightarrow> bool" where
  "balanced_as s s' xs \<longleftrightarrow> (\<exists>t. rep s' t \<and> rb_inv t \<and> nodes t = xs) \<and> same_outside (set xs) s s'"

lemma balanced_asI:
  "rep s' (plug k t) \<Longrightarrow> invc t \<Longrightarrow> invh t \<Longrightarrow> fits k (bheight t) (color_of t) \<Longrightarrow>
   nodes (plug k t) = xs \<Longrightarrow> same_outside (set xs) s s' \<Longrightarrow> balanced_as s s' xs"
  unfolding balanced_as_def using rb_inv_plug by blast

lemma balanced_as_trans: "same_outside (set xs) s s' \<Longrightarrow> balanced_as s' s'' xs \<Longrightarrow> balanced_as s s'' xs"
  unfolding balanced_as_def using same_outside_trans by blast

section \<open>Insertion balances\<close>

text \<open>The red uncle: three nodes are painted.\<close>

lemma flip_left:
  assumes "rep s (plug k (Br (Br a p c b) g d u))" "u \<noteq> Tip"
  defines "s' \<equiv> set_color g RB_RED (set_color p RB_BLACK (set_color (tree_top u) RB_BLACK s))"
  shows "rep s' (plug k (Br (Br a p RB_BLACK b) g RB_RED (paint RB_BLACK u)))"
    "same_outside (set (nodes (plug k (Br (Br a p c b) g d u)))) s s'"
proof -
  let ?s1 = "set_color (tree_top u) RB_BLACK s"
  let ?s2 = "set_color p RB_BLACK ?s1"
  have r1: "rep ?s1 (plug (Right_of g d (Br a p c b) # k) (paint RB_BLACK u))"
    "same_outside (set (nodes (plug k (Br (Br a p c b) g d u)))) s ?s1"
    using rep_paint [of s "Right_of g d (Br a p c b) # k" u] assms(1,2) by simp_all
  have r2: "rep ?s2 (plug (Left_of g d (paint RB_BLACK u) # k) (Br a p RB_BLACK b))"
    "same_outside (set (nodes (plug k (Br (Br a p c b) g d u)))) ?s1 ?s2"
    using rep_set_color [of ?s1 "Left_of g d (paint RB_BLACK u) # k" a p c b] r1 by (simp_all add: nodes_plug)
  have r3: "rep s' (plug k (Br (Br a p RB_BLACK b) g RB_RED (paint RB_BLACK u)))"
    "same_outside (set (nodes (plug k (Br (Br a p c b) g d u)))) ?s2 s'"
    using rep_set_color [of ?s2 k "Br a p RB_BLACK b" g d "paint RB_BLACK u"] r2
    unfolding s'_def by (simp_all add: nodes_plug)
  show "rep s' (plug k (Br (Br a p RB_BLACK b) g RB_RED (paint RB_BLACK u)))" by (rule r3)
  show "same_outside (set (nodes (plug k (Br (Br a p c b) g d u)))) s s'"
    using r1 r2 r3 by (blast intro: same_outside_trans)
qed

lemma flip_right:
  assumes "rep s (plug k (Br u g d (Br a p c b)))" "u \<noteq> Tip"
  defines "s' \<equiv> set_color g RB_RED (set_color p RB_BLACK (set_color (tree_top u) RB_BLACK s))"
  shows "rep s' (plug k (Br (paint RB_BLACK u) g RB_RED (Br a p RB_BLACK b)))"
    "same_outside (set (nodes (plug k (Br u g d (Br a p c b))))) s s'"
proof -
  let ?s1 = "set_color (tree_top u) RB_BLACK s"
  let ?s2 = "set_color p RB_BLACK ?s1"
  have r1: "rep ?s1 (plug (Left_of g d (Br a p c b) # k) (paint RB_BLACK u))"
    "same_outside (set (nodes (plug k (Br u g d (Br a p c b))))) s ?s1"
    using rep_paint [of s "Left_of g d (Br a p c b) # k" u] assms(1,2) by simp_all
  have r2: "rep ?s2 (plug (Right_of g d (paint RB_BLACK u) # k) (Br a p RB_BLACK b))"
    "same_outside (set (nodes (plug k (Br u g d (Br a p c b))))) ?s1 ?s2"
    using rep_set_color [of ?s1 "Right_of g d (paint RB_BLACK u) # k" a p c b] r1 by (simp_all add: nodes_plug)
  have r3: "rep s' (plug k (Br (paint RB_BLACK u) g RB_RED (Br a p RB_BLACK b)))"
    "same_outside (set (nodes (plug k (Br u g d (Br a p c b))))) ?s2 s'"
    using rep_set_color [of ?s2 k "paint RB_BLACK u" g d "Br a p RB_BLACK b"] r2
    unfolding s'_def by (simp_all add: nodes_plug)
  show "rep s' (plug k (Br (paint RB_BLACK u) g RB_RED (Br a p RB_BLACK b)))" by (rule r3)
  show "same_outside (set (nodes (plug k (Br u g d (Br a p c b))))) s s'"
    using r1 r2 r3 by (blast intro: same_outside_trans)
qed

lemma fixup_left_outer:
  assumes "rep s (plug k (Br (Br (Br l x RB_RED r) p RB_RED b) g RB_BLACK u))" "color_of b = RB_BLACK" "color_of u = RB_BLACK"
  shows "\<exists>s'. rb_fixup_loop x s = Some s' \<and> rep s' (plug k (Br (Br l x RB_RED r) p RB_BLACK (Br b g RB_RED u))) \<and>
    same_outside (set (nodes (plug k (Br (Br (Br l x RB_RED r) p RB_RED b) g RB_BLACK u)))) s s'"
proof -
  note g = rep_at [of s k]
  note p = rep_at [of s "Left_of g RB_BLACK u # k"]
  note x = rep_at [of s "Left_of p RB_RED b # Left_of g RB_BLACK u # k" l x RB_RED r]
  have r: "x \<noteq> 0" "nd_parent s x = p" "p \<noteq> 0" "nd_color s p = RB_RED" "nd_parent s p = g" "nd_right s g = tree_top u"
      "nd_left s g = p" "nd_right s p = tree_top b"
    using g p x assms(1) by auto
  have d: "x \<noteq> tree_top b" "p \<noteq> tree_top u" "tree_top u = 0 \<or> nd_color s (tree_top u) = RB_BLACK"
    using rep_distinct [OF assms(1)] top_in_nodes [of b] top_in_nodes [of u] r(1,3)
      rep_color [of s "Right_of g RB_BLACK (Br (Br l x RB_RED r) p RB_RED b) # k" u] assms(1,3)
    by (cases "b = Tip"; cases "u = Tip"; auto simp: nodes_plug)+
  obtain s' where s': "right_rotate g (Some RB_RED) (Some RB_BLACK) s = (tree_top b, s')" "rep s' (plug k (Br (Br l x RB_RED r) p RB_BLACK (Br b g RB_RED u)))"
    "same_outside (set (nodes (plug k (Br (Br (Br l x RB_RED r) p RB_RED b) g RB_BLACK u)))) s s'"
    using right_rotate_rep [of s k "(Br l x RB_RED r)" p RB_RED b g RB_BLACK u "Some RB_RED" "Some RB_BLACK"] assms by (auto simp: new_color_def)
  have "rb_fixup_loop x s = Some s'"
    by (subst rb_fixup_loop.simps) (use r d s'(1) in \<open>auto simp: Let_def\<close>)
  then show ?thesis using s' by blast
qed

lemma fixup_left_inner:
  assumes "rep s (plug k (Br (Br b p RB_RED (Br l x RB_RED r)) g RB_BLACK u))" "color_of l = RB_BLACK" "color_of r = RB_BLACK" "color_of u = RB_BLACK"
  shows "\<exists>s'. rb_fixup_loop x s = Some s' \<and> rep s' (plug k (Br (Br b p RB_RED l) x RB_BLACK (Br r g RB_RED u))) \<and>
    same_outside (set (nodes (plug k (Br (Br b p RB_RED (Br l x RB_RED r)) g RB_BLACK u)))) s s'"
proof -
  note g = rep_at [of s k]
  note p = rep_at [of s "Left_of g RB_BLACK u # k"]
  note x = rep_at [of s "Right_of p RB_RED b # Left_of g RB_BLACK u # k" l x RB_RED r]
  have r: "x \<noteq> 0" "nd_parent s x = p" "p \<noteq> 0" "nd_color s p = RB_RED" "nd_parent s p = g" "nd_right s g = tree_top u"
      "nd_left s g = p" "nd_right s p = x"
    using g p x assms(1) by auto
  have d: "p \<noteq> tree_top u" "tree_top u = 0 \<or> nd_color s (tree_top u) = RB_BLACK"
    using rep_distinct [OF assms(1)] top_in_nodes [of u] r(1,3)
      rep_color [of s "Right_of g RB_BLACK (Br b p RB_RED (Br l x RB_RED r)) # k" u] assms(1,4)
    by (cases "u = Tip"; auto simp: nodes_plug)+
  obtain s1 where s1: "left_rotate p None (Some RB_BLACK) s = (tree_top l, s1)" "rep s1 (plug k (Br (Br (Br b p RB_RED l) x RB_RED r) g RB_BLACK u))"
    "same_outside (set (nodes (plug k (Br (Br b p RB_RED (Br l x RB_RED r)) g RB_BLACK u)))) s s1"
    using left_rotate_rep [of s "Left_of g RB_BLACK u # k" b p RB_RED l x RB_RED r None "Some RB_BLACK"] assms
    by (auto simp: new_color_def)
  obtain s' where s': "right_rotate g (Some RB_RED) (Some RB_BLACK) s1 = (tree_top r, s')" "rep s' (plug k (Br (Br b p RB_RED l) x RB_BLACK (Br r g RB_RED u)))"
    "same_outside (set (nodes (plug k (Br (Br (Br b p RB_RED l) x RB_RED r) g RB_BLACK u)))) s1 s'"
    using right_rotate_rep [of s1 k "Br b p RB_RED l" x RB_RED r g RB_BLACK u "Some RB_RED" "Some RB_BLACK"] s1(2) assms by (auto simp: new_color_def)
  have "same_outside (set (nodes (plug k (Br (Br b p RB_RED (Br l x RB_RED r)) g RB_BLACK u)))) s s'"
    using s1(3) s'(3) by (auto simp: nodes_plug intro: same_outside_trans)
  moreover have "rb_fixup_loop x s = Some s'"
    by (subst rb_fixup_loop.simps) (use r d s1(1) s'(1) in \<open>auto simp: Let_def\<close>)
  ultimately show ?thesis using s' by blast
qed

lemma fixup_right_outer:
  assumes "rep s (plug k (Br u g RB_BLACK (Br b p RB_RED (Br l x RB_RED r))))" "color_of b = RB_BLACK" "color_of u = RB_BLACK"
  shows "\<exists>s'. rb_fixup_loop x s = Some s' \<and> rep s' (plug k (Br (Br u g RB_RED b) p RB_BLACK (Br l x RB_RED r))) \<and>
    same_outside (set (nodes (plug k (Br u g RB_BLACK (Br b p RB_RED (Br l x RB_RED r)))))) s s'"
proof -
  note g = rep_at [of s k]
  note p = rep_at [of s "Right_of g RB_BLACK u # k"]
  note x = rep_at [of s "Right_of p RB_RED b # Right_of g RB_BLACK u # k" l x RB_RED r]
  have r: "x \<noteq> 0" "nd_parent s x = p" "p \<noteq> 0" "nd_color s p = RB_RED" "nd_parent s p = g" "nd_left s g = tree_top u"
      "nd_right s g = p" "nd_left s p = tree_top b"
    using g p x assms(1) by auto
  have d: "x \<noteq> tree_top b" "p \<noteq> tree_top u" "tree_top u = 0 \<or> nd_color s (tree_top u) = RB_BLACK"
    using rep_distinct [OF assms(1)] top_in_nodes [of b] top_in_nodes [of u] r(1,3)
      rep_color [of s "Left_of g RB_BLACK (Br b p RB_RED (Br l x RB_RED r)) # k" u] assms(1,3)
    by (cases "b = Tip"; cases "u = Tip"; auto simp: nodes_plug)+
  obtain s' where s': "left_rotate g (Some RB_RED) (Some RB_BLACK) s = (tree_top b, s')" "rep s' (plug k (Br (Br u g RB_RED b) p RB_BLACK (Br l x RB_RED r)))"
    "same_outside (set (nodes (plug k (Br u g RB_BLACK (Br b p RB_RED (Br l x RB_RED r)))))) s s'"
    using left_rotate_rep [of s k u g RB_BLACK b p RB_RED "(Br l x RB_RED r)" "Some RB_RED" "Some RB_BLACK"] assms by (auto simp: new_color_def)
  have "rb_fixup_loop x s = Some s'"
    by (subst rb_fixup_loop.simps) (use r d s'(1) in \<open>auto simp: Let_def\<close>)
  then show ?thesis using s' by blast
qed

lemma fixup_right_inner:
  assumes "rep s (plug k (Br u g RB_BLACK (Br (Br l x RB_RED r) p RB_RED b)))" "color_of l = RB_BLACK" "color_of r = RB_BLACK" "color_of u = RB_BLACK"
  shows "\<exists>s'. rb_fixup_loop x s = Some s' \<and> rep s' (plug k (Br (Br u g RB_RED l) x RB_BLACK (Br r p RB_RED b))) \<and>
    same_outside (set (nodes (plug k (Br u g RB_BLACK (Br (Br l x RB_RED r) p RB_RED b))))) s s'"
proof -
  note g = rep_at [of s k]
  note p = rep_at [of s "Right_of g RB_BLACK u # k"]
  note x = rep_at [of s "Left_of p RB_RED b # Right_of g RB_BLACK u # k" l x RB_RED r]
  have r: "x \<noteq> 0" "nd_parent s x = p" "p \<noteq> 0" "nd_color s p = RB_RED" "nd_parent s p = g" "nd_left s g = tree_top u"
      "nd_right s g = p" "nd_left s p = x"
    using g p x assms(1) by auto
  have d: "p \<noteq> tree_top u" "tree_top u = 0 \<or> nd_color s (tree_top u) = RB_BLACK"
    using rep_distinct [OF assms(1)] top_in_nodes [of u] r(1,3)
      rep_color [of s "Left_of g RB_BLACK (Br (Br l x RB_RED r) p RB_RED b) # k" u] assms(1,4)
    by (cases "u = Tip"; auto simp: nodes_plug)+
  obtain s1 where s1: "right_rotate p None (Some RB_BLACK) s = (tree_top r, s1)" "rep s1 (plug k (Br u g RB_BLACK (Br l x RB_RED (Br r p RB_RED b))))"
    "same_outside (set (nodes (plug k (Br u g RB_BLACK (Br (Br l x RB_RED r) p RB_RED b))))) s s1"
    using right_rotate_rep [of s "Right_of g RB_BLACK u # k" l x RB_RED r p RB_RED b None "Some RB_BLACK"] assms
    by (auto simp: new_color_def)
  obtain s' where s': "left_rotate g (Some RB_RED) (Some RB_BLACK) s1 = (tree_top l, s')" "rep s' (plug k (Br (Br u g RB_RED l) x RB_BLACK (Br r p RB_RED b)))"
    "same_outside (set (nodes (plug k (Br u g RB_BLACK (Br l x RB_RED (Br r p RB_RED b)))))) s1 s'"
    using left_rotate_rep [of s1 k u g RB_BLACK l x RB_RED "Br r p RB_RED b" "Some RB_RED" "Some RB_BLACK"] s1(2) assms by (auto simp: new_color_def)
  have "same_outside (set (nodes (plug k (Br u g RB_BLACK (Br (Br l x RB_RED r) p RB_RED b))))) s s'"
    using s1(3) s'(3) by (auto simp: nodes_plug intro: same_outside_trans)
  moreover have "rb_fixup_loop x s = Some s'"
    by (subst rb_fixup_loop.simps) (use r d s1(1) s'(1) in \<open>auto simp: Let_def\<close>)
  ultimately show ?thesis using s' by blast
qed

text \<open>The parts of a frame, and the two outcomes of the loop at a red parent.\<close>

fun fr_node :: "rb_frame \<Rightarrow> nat" where
  "fr_node (Left_of x c t) = x"
| "fr_node (Right_of x c t) = x"

fun fr_color :: "rb_frame \<Rightarrow> rb_color" where
  "fr_color (Left_of x c t) = c"
| "fr_color (Right_of x c t) = c"

fun fr_sibling :: "rb_frame \<Rightarrow> rbt" where
  "fr_sibling (Left_of x c t) = t"
| "fr_sibling (Right_of x c t) = t"

fun fr_set :: "rb_color \<Rightarrow> rbt \<Rightarrow> rb_frame \<Rightarrow> rb_frame" where
  "fr_set c t (Left_of x _ _) = Left_of x c t"
| "fr_set c t (Right_of x _ _) = Right_of x c t"

lemma fits_Cons:
  "fits (f # k) n d \<longleftrightarrow> invc (fr_sibling f) \<and> invh (fr_sibling f) \<and> bheight (fr_sibling f) = n \<and>
     (fr_color f = RB_RED \<longrightarrow> color_of (fr_sibling f) = RB_BLACK \<and> d = RB_BLACK) \<and>
     fits k (if fr_color f = RB_BLACK then n + 1 else n) (fr_color f)"
  by (cases f) simp_all

lemma up_Cons: "up (f # k) = fr_node f"
  by (cases f) simp_all

lemma rep_frame:
  assumes "rep s (plug (f # k) t)"
  shows "fr_node f \<noteq> 0" "nd_parent s (fr_node f) = up k" "nd_color s (fr_node f) = fr_color f"
  using assms rep_at [of s k] by (cases f; auto)+

lemma fixup_red_uncle:
  assumes "x \<noteq> 0" "nd_parent s x = p" "p \<noteq> 0" "nd_color s p = RB_RED" "nd_parent s p = g"
    and "nd_right s g = p \<and> u = nd_left s g \<or> u = nd_right s g \<and> u \<noteq> p" "u \<noteq> 0" "nd_color s u = RB_RED"
  shows "rb_fixup_loop x s = rb_fixup_loop g (set_color g RB_RED (set_color p RB_BLACK (set_color u RB_BLACK s)))"
  by (subst rb_fixup_loop.simps) (use assms in \<open>auto simp: Let_def\<close>)

lemma rep_uncle:
  assumes "rep s (plug (h # k) T)" "T \<noteq> Tip" "fr_sibling h \<noteq> Tip"
  shows "nd_right s (fr_node h) = tree_top T \<and> tree_top (fr_sibling h) = nd_left s (fr_node h) \<or>
    tree_top (fr_sibling h) = nd_right s (fr_node h) \<and> tree_top (fr_sibling h) \<noteq> tree_top T"
    "tree_top (fr_sibling h) \<noteq> 0" "nd_color s (tree_top (fr_sibling h)) = color_of (fr_sibling h)"
proof -
  obtain g c u where h: "h = Left_of g c u \<or> h = Right_of g c u" by (cases h) auto
  then have "\<exists>k'. rep s (plug k' u)"
    using assms(1) by (auto intro: exI [of _ "Right_of g c T # k"] exI [of _ "Left_of g c T # k"])
  then obtain k' where k': "rep s (plug k' u)" ..
  have ne: "tree_top u \<noteq> tree_top T"
    using rep_distinct [OF assms(1)] top_in_nodes [OF assms(2)] top_in_nodes [of u] assms(3) h by (auto simp: nodes_plug)
  show "nd_right s (fr_node h) = tree_top T \<and> tree_top (fr_sibling h) = nd_left s (fr_node h) \<or>
      tree_top (fr_sibling h) = nd_right s (fr_node h) \<and> tree_top (fr_sibling h) \<noteq> tree_top T"
    using rep_at [of s k _ g c] assms(1) h ne by auto
  show "tree_top (fr_sibling h) \<noteq> 0" "nd_color s (tree_top (fr_sibling h)) = color_of (fr_sibling h)"
    using rep_top [OF k'] rep_color [OF k'] assms(3) h by auto
qed

lemma fixup_flip:
  assumes r: "rep s (plug (f # h # k) t)" and t: "t \<noteq> Tip" and c: "fr_color f = RB_RED" "color_of (fr_sibling h) = RB_RED"
  defines "N \<equiv> plug [fr_set RB_BLACK (fr_sibling f) f, fr_set RB_RED (paint RB_BLACK (fr_sibling h)) h] t"
  shows "\<exists>s'. rb_fixup_loop (tree_top t) s = rb_fixup_loop (fr_node h) s' \<and> rep s' (plug k N) \<and>
    same_outside (set (nodes (plug (f # h # k) t))) s s'"
proof -
  let ?u = "tree_top (fr_sibling h)"
  let ?s' = "set_color (fr_node h) RB_RED (set_color (fr_node f) RB_BLACK (set_color ?u RB_BLACK s))"
  have u: "fr_sibling h \<noteq> Tip" using c(2) by auto
  have T: "rep s (plug (h # k) (plug [f] t))" "plug [f] t \<noteq> Tip" "tree_top (plug [f] t) = fr_node f"
    using r by (cases f; cases h; simp)+
  have x: "tree_top t \<noteq> 0" "nd_parent s (tree_top t) = fr_node f"
    using rep_at [of s "f # h # k"] r t by (cases t; auto simp: up_Cons)+
  have "rb_fixup_loop (tree_top t) s = rb_fixup_loop (fr_node h) ?s'"
    using fixup_red_uncle [OF x, of "fr_node h" ?u] rep_frame [OF r] rep_uncle [OF T(1,2) u] T(3) c
    by (simp add: up_Cons)
  moreover have "rep ?s' (plug k N)" "same_outside (set (nodes (plug (f # h # k) t))) s ?s'"
    using r u flip_left [of s k] flip_right [of s k] unfolding N_def by (cases f; cases h; auto)+
  ultimately show ?thesis by blast
qed

lemma fixup_rotate:
  assumes r: "rep s (plug (f # h # k) (Br l x RB_RED r))" and t: "color_of l = RB_BLACK" "color_of r = RB_BLACK"
    and c: "fr_color f = RB_RED" "fr_color h = RB_BLACK" "color_of (fr_sibling f) = RB_BLACK" "color_of (fr_sibling h) = RB_BLACK"
  shows "\<exists>s' a p b y d g e. rb_fixup_loop x s = Some s' \<and>
    rep s' (plug k (Br (Br a p RB_RED b) y RB_BLACK (Br d g RB_RED e))) \<and>
    same_outside (set (nodes (plug (f # h # k) (Br l x RB_RED r)))) s s' \<and>
    nodes (Br (Br a p RB_RED b) y RB_BLACK (Br d g RB_RED e)) = nodes (plug [f, h] (Br l x RB_RED r)) \<and>
    {a, b, d, e} = {l, r, fr_sibling f, fr_sibling h}"
proof -
  obtain p b where f: "f = Left_of p RB_RED b \<or> f = Right_of p RB_RED b" using c(1) by (cases f) auto
  obtain g u where h: "h = Left_of g RB_BLACK u \<or> h = Right_of g RB_BLACK u" using c(2) by (cases h) auto
  have bu: "color_of b = RB_BLACK" "color_of u = RB_BLACK" using c(3,4) f h by auto
  let ?t = "Br l x RB_RED r"
  consider (LL) "f = Left_of p RB_RED b" "h = Left_of g RB_BLACK u" | (RL) "f = Right_of p RB_RED b" "h = Left_of g RB_BLACK u"
    | (LR) "f = Left_of p RB_RED b" "h = Right_of g RB_BLACK u" | (RR) "f = Right_of p RB_RED b" "h = Right_of g RB_BLACK u"
    using f h by blast
  then show ?thesis
  proof cases
    case LL
    then obtain s' where "rb_fixup_loop x s = Some s'" "rep s' (plug k (Br (Br l x RB_RED r) p RB_BLACK (Br b g RB_RED u)))"
      "same_outside (set (nodes (plug (f # h # k) (Br l x RB_RED r)))) s s'"
      using fixup_left_outer [of s k l x r p b g u] assms(1) t bu by auto
    then show ?thesis using LL
      by (intro exI [of _ s'] exI [of _ l] exI [of _ x] exI [of _ r] exI [of _ p] exI [of _ b] exI [of _ g] exI [of _ u] conjI) (simp_all add: insert_commute)
  next
    case RL
    then obtain s' where "rb_fixup_loop x s = Some s'" "rep s' (plug k (Br (Br b p RB_RED l) x RB_BLACK (Br r g RB_RED u)))"
      "same_outside (set (nodes (plug (f # h # k) (Br l x RB_RED r)))) s s'"
      using fixup_left_inner [of s k b p l x r g u] assms(1) t bu by auto
    then show ?thesis using RL
      by (intro exI [of _ s'] exI [of _ b] exI [of _ p] exI [of _ l] exI [of _ x] exI [of _ r] exI [of _ g] exI [of _ u] conjI) (simp_all add: insert_commute)
  next
    case LR
    then obtain s' where "rb_fixup_loop x s = Some s'" "rep s' (plug k (Br (Br u g RB_RED l) x RB_BLACK (Br r p RB_RED b)))"
      "same_outside (set (nodes (plug (f # h # k) (Br l x RB_RED r)))) s s'"
      using fixup_right_inner [of s k u g l x r p b] assms(1) t bu by auto
    then show ?thesis using LR
      by (intro exI [of _ s'] exI [of _ u] exI [of _ g] exI [of _ l] exI [of _ x] exI [of _ r] exI [of _ p] exI [of _ b] conjI) (simp_all add: insert_commute)
  next
    case RR
    then obtain s' where "rb_fixup_loop x s = Some s'" "rep s' (plug k (Br (Br u g RB_RED b) p RB_BLACK (Br l x RB_RED r)))"
      "same_outside (set (nodes (plug (f # h # k) (Br l x RB_RED r)))) s s'"
      using fixup_right_outer [of s k u g b p l x r] assms(1) t bu by auto
    then show ?thesis using RR
      by (intro exI [of _ s'] exI [of _ u] exI [of _ g] exI [of _ b] exI [of _ p] exI [of _ l] exI [of _ x] exI [of _ r] conjI) (simp_all add: insert_commute)
  qed
qed

lemma fixup_correct:
  assumes "rep s (plug k t)" "t \<noteq> Tip" "color_of t = RB_RED" "invc t" "invh t" "fits k (bheight t) RB_BLACK"
  shows "\<exists>s'. rb_fixup_loop (tree_top t) s = Some s' \<and> balanced_as s s' (nodes (plug k t))"
  using assms
proof (induction "length k" arbitrary: k t s rule: less_induct)
  case less
  from less.prems(2-4) obtain l x r where t: "t = Br l x RB_RED r" and lr: "color_of l = RB_BLACK" "color_of r = RB_BLACK"
    by (cases t) auto
  have x: "x \<noteq> 0" "nd_parent s x = up k" using rep_at [of s k l x RB_RED r] less.prems(1) t by auto
  consider (root) "k = []" | (black) f k' where "k = f # k'" "fr_color f = RB_BLACK"
    | (flip) f h k' where "k = f # h # k'" "fr_color f = RB_RED" "fr_color h = RB_BLACK" "color_of (fr_sibling h) = RB_RED"
    | (rotate) f h k' where "k = f # h # k'" "fr_color f = RB_RED" "fr_color h = RB_BLACK" "color_of (fr_sibling h) = RB_BLACK"
    using less.prems(6) by (cases k; cases "tl k") (auto simp: fits_Cons, metis rb_color.exhaust)
  then show ?case
  proof cases
    case root
    have "rb_fixup_loop x s = Some (set_color x RB_BLACK s)"
      using x root by (subst rb_fixup_loop.simps) (simp add: Let_def)
    then show ?thesis
      using rep_set_color [of s k l x RB_RED r RB_BLACK] less.prems t root
      by (auto intro!: balanced_asI [of _ "[]" "Br l x RB_BLACK r"])
  next
    case black
    have "rb_fixup_loop x s = Some s" using x black rep_frame [of s f k' t] less.prems(1)
      by (subst rb_fixup_loop.simps) (simp add: Let_def up_Cons)
    then show ?thesis using less.prems black t
      by (auto intro!: balanced_asI [of s k t] simp: fits_Cons)
  next
    case flip
    let ?u = "fr_sibling h"
    let ?N = "plug [fr_set RB_BLACK (fr_sibling f) f, fr_set RB_RED (paint RB_BLACK ?u) h] t"
    obtain s' where s': "rb_fixup_loop x s = rb_fixup_loop (fr_node h) s'" "rep s' (plug k' ?N)"
      "same_outside (set (nodes (plug k t))) s s'"
      using fixup_flip [of s f h k' t] less.prems(1) flip t by auto
    have fit: "invc (fr_sibling f)" "invh (fr_sibling f)" "bheight (fr_sibling f) = bheight t" "invc ?u" "invh ?u"
      "bheight ?u = bheight t" "fits k' (bheight t + 1) RB_BLACK"
      using less.prems(6) flip by (auto simp: fits_Cons)
    note u = paint_red_inv [OF flip(4) fit(4,5)]
    have N: "tree_top ?N = fr_node h" "nodes (plug k' ?N) = nodes (plug k t)" "?N \<noteq> Tip" "color_of ?N = RB_RED"
      "invc ?N" "invh ?N" "bheight ?N = bheight t + 1"
      using flip(1) fit u less.prems(4,5) by (cases f; cases h; auto simp: nodes_plug color_paint)+
    have "\<exists>s''. rb_fixup_loop (tree_top ?N) s' = Some s'' \<and> balanced_as s' s'' (nodes (plug k' ?N))"
      using flip(1) N fit(7) by (intro less.hyps s'(2)) auto
    then show ?thesis using s'(1,3) N(1,2) t by (auto intro: balanced_as_trans)
  next
    case rotate
    have fit: "invc (fr_sibling f)" "invh (fr_sibling f)" "bheight (fr_sibling f) = bheight t" "color_of (fr_sibling f) = RB_BLACK"
      "invc (fr_sibling h)" "invh (fr_sibling h)" "bheight (fr_sibling h) = bheight t" "fits k' (bheight t + 1) RB_BLACK"
      using less.prems(6) rotate by (auto simp: fits_Cons)
    obtain s' a p b y d g e where R: "rb_fixup_loop x s = Some s'"
      "rep s' (plug k' (Br (Br a p RB_RED b) y RB_BLACK (Br d g RB_RED e)))" "same_outside (set (nodes (plug k t))) s s'"
      "nodes (Br (Br a p RB_RED b) y RB_BLACK (Br d g RB_RED e)) = nodes (plug [f, h] t)"
      "{a, b, d, e} = {l, r, fr_sibling f, fr_sibling h}"
      using fixup_rotate [of s f h k' l x r] less.prems(1) rotate t lr fit(4) by blast
    have "\<forall>v \<in> {a, b, d, e}. invc v \<and> invh v \<and> bheight v = bheight t \<and> color_of v = RB_BLACK"
      unfolding R(5) using fit rotate(4) lr t less.prems(4,5) by auto
    moreover have "nodes (plug k' (Br (Br a p RB_RED b) y RB_BLACK (Br d g RB_RED e))) = nodes (plug k t)"
      using R(4) rotate(1) by (cases f; cases h; simp add: nodes_plug)
    ultimately have "balanced_as s s' (nodes (plug k t))"
      using R(3) fit(8) by (intro balanced_asI [OF R(2)]) auto
    then show ?thesis using R(1) t by auto
  qed
qed

section \<open>Finding the place\<close>

fun link_of :: "rb_frame list \<Rightarrow> rb_link" where
  "link_of [] = Link_Root"
| "link_of (Left_of x c t # k) = Link_Left x"
| "link_of (Right_of x c t # k) = Link_Right x"

lemma link_get_hole: "ctx_hole s k h \<Longrightarrow> link_get (link_of k) s = h"
  by (cases k rule: link_of.cases) auto

text \<open>Once the new node belongs before a node of the tree, it belongs before all that follow.\<close>

definition cut_at :: "(nat \<Rightarrow> nat \<Rightarrow> int) \<Rightarrow> nat \<Rightarrow> nat list \<Rightarrow> bool" where
  "cut_at cmp node xs \<longleftrightarrow> sorted_wrt (\<lambda>a b. cmp node a < 0 \<longrightarrow> cmp node b < 0) xs"

lemma cut_at_mid:
  assumes "cut_at cmp node (xs @ x # ys)"
  shows "\<forall>a \<in> set xs. cmp node a < 0 \<longrightarrow> cmp node x < 0" "\<forall>b \<in> set ys. cmp node x < 0 \<longrightarrow> cmp node b < 0"
    "cut_at cmp node xs" "cut_at cmp node ys"
  using assms unfolding cut_at_def sorted_wrt_append sorted_wrt.simps list.set by blast+

lemma rb_parent_loop_correct:
  assumes "rep s (plug k t)" "t \<noteq> Tip" "cut_at cmp node (nodes t)"
    and "\<forall>p \<in> set (ctx_before k). \<not> cmp node p < 0" "\<forall>p \<in> set (ctx_after k). cmp node p < 0"
  shows "\<exists>k'. rb_parent_loop cmp node (link_of k) leftmost s =
      Some (up k', link_of k', leftmost \<and> ctx_before k' = ctx_before k) \<and> (\<exists>ys. ctx_before k' = ctx_before k @ ys) \<and> plug k' Tip = plug k t \<and>
    (\<forall>p \<in> set (ctx_before k'). \<not> cmp node p < 0) \<and> (\<forall>p \<in> set (ctx_after k'). cmp node p < 0)"
  using assms
proof (induction t arbitrary: k leftmost)
  case (Br l x c r)
  have at: "link_get (link_of k) s = x" "nd_left s x = tree_top l" "nd_right s x = tree_top r"
    using rep_at [OF Br.prems(1)] link_get_hole [of s k x] Br.prems(1) by (simp_all add: rep_plug)
  define left where "left = (cmp node x < 0)"
  define k1 where "k1 = (if left then Left_of x c r # k else Right_of x c l # k)"
  define u where "u = (if left then l else r)"
  have k1: "plug k1 u = plug k (Br l x c r)" "up k1 = x" "rep s (plug k1 u)" "k1 \<noteq> []"
    using Br.prems(1) by (simp_all add: k1_def u_def)
  have ctx: "\<forall>p \<in> set (ctx_before k1). \<not> cmp node p < 0" "\<forall>p \<in> set (ctx_after k1). cmp node p < 0" "cut_at cmp node (nodes u)"
  proof -
    note cut = cut_at_mid [OF Br.prems(3) [unfolded nodes.simps]]
    show "cut_at cmp node (nodes u)" using cut(3,4) by (simp add: u_def)
    show "\<forall>p \<in> set (ctx_before k1). \<not> cmp node p < 0"
    proof (cases left)
      case True
      then show ?thesis using Br.prems(4) by (simp add: k1_def)
    next
      case False
      then have "\<forall>p \<in> set (nodes l). \<not> cmp node p < 0" "\<not> cmp node x < 0" using cut(1) left_def by blast+
      then show ?thesis using Br.prems(4) False by (simp add: k1_def ball_Un)
    qed
    show "\<forall>p \<in> set (ctx_after k1). cmp node p < 0"
    proof (cases left)
      case True
      then have "\<forall>p \<in> set (nodes r). cmp node p < 0" "cmp node x < 0" using cut(2) left_def by blast+
      then show ?thesis using Br.prems(5) True by (simp add: k1_def ball_Un)
    next
      case False
      then show ?thesis using Br.prems(5) by (simp add: k1_def)
    qed
  qed
  have loop: "rb_parent_loop cmp node (link_of k) leftmost s =
      (if tree_top u \<noteq> 0 then rb_parent_loop cmp node (link_of k1) (left \<and> leftmost) s
       else Some (x, link_of k1, left \<and> leftmost))"
    by (subst rb_parent_loop.simps) (simp add: at Let_def k1_def u_def left_def)
  have bef: "ctx_before k1 = ctx_before k \<longleftrightarrow> left" by (auto simp: k1_def)
  show ?case
  proof (cases "u = Tip")
    case True
    moreover have "\<exists>ys. ctx_before k1 = ctx_before k @ ys" by (simp add: k1_def)
    ultimately show ?thesis using loop k1 ctx bef by (intro exI [of _ k1]) auto
  next
    case False
    have sub: "\<exists>k'. rb_parent_loop cmp node (link_of k1) (left \<and> leftmost) s =
        Some (up k', link_of k', (left \<and> leftmost) \<and> ctx_before k' = ctx_before k1) \<and> (\<exists>ys. ctx_before k' = ctx_before k1 @ ys) \<and> plug k' Tip = plug k1 u \<and>
      (\<forall>p \<in> set (ctx_before k'). \<not> cmp node p < 0) \<and> (\<forall>p \<in> set (ctx_after k'). cmp node p < 0)"
    proof (cases left)
      case True
      then show ?thesis using Br.IH(1) [of k1 leftmost] k1 ctx False by (simp add: u_def)
    next
      case False
      then show ?thesis using Br.IH(2) [of k1 False] k1 ctx \<open>u \<noteq> Tip\<close> by (simp add: u_def)
    qed
    then obtain k' ys where k': "rb_parent_loop cmp node (link_of k1) (left \<and> leftmost) s =
        Some (up k', link_of k', (left \<and> leftmost) \<and> ctx_before k' = ctx_before k1)" "ctx_before k' = ctx_before k1 @ ys" "plug k' Tip = plug k1 u"
      "\<forall>p \<in> set (ctx_before k'). \<not> cmp node p < 0" "\<forall>p \<in> set (ctx_after k'). cmp node p < 0" by blast
    have "tree_top u \<noteq> 0" using rep_top [OF k1(3)] False by simp
    moreover have "(left \<and> ctx_before k' = ctx_before k1) \<longleftrightarrow> ctx_before k' = ctx_before k" "\<exists>ys. ctx_before k' = ctx_before k @ ys"
      using k'(2) by (auto simp: k1_def)
    ultimately show ?thesis using loop k' k1(1) by (intro exI [of _ k']) auto
  qed
qed simp

lemma rb_parent_correct:
  assumes "rep s t" "cut_at cmp node (nodes t)"
  shows "\<exists>k. rb_parent cmp node leftmost s = Some (up k, link_of k, leftmost \<and> ctx_before k = []) \<and> plug k Tip = t \<and>
    (\<forall>p \<in> set (ctx_before k). \<not> cmp node p < 0) \<and> (\<forall>p \<in> set (ctx_after k). cmp node p < 0)"
proof (cases "t = Tip")
  case True
  then have "root_node s = 0" using assms(1) by (simp add: rep_def)
  then show ?thesis using True by (intro exI [of _ "[]"]) (simp add: rb_parent_def)
next
  case False
  then have "root_node s \<noteq> 0" using assms(1) by (auto simp: rep_def dest: shape_top)
  then show ?thesis
    using rb_parent_loop_correct [of s "[]" t cmp node leftmost] assms False by (auto simp: rb_parent_def)
qed

section \<open>Linking a node\<close>

lemma rb_link_rep:
  assumes "rep s (plug k Tip)" "node \<noteq> 0" "node \<notin> set (nodes (plug k Tip))"
  defines "s' \<equiv> rb_link_node (up k) (link_of k) node s"
  shows "rep s' (plug k (Br Tip node RB_RED Tip))"
    "same_outside (insert node (set (nodes (plug k Tip)))) s s'"
proof -
  define s1 where "s1 = link_set (link_of k) node s"
  define s2 where "s2 = set_left node 0 (set_right node 0 (set_color node RB_RED (set_parent node (up k) s1)))"
  have s': "s' = s2" by (simp add: s'_def s2_def s1_def rb_link_node_def Let_def)
  have n: "node \<notin> set (ctx_before k) \<union> set (ctx_after k)" "distinct (ctx_before k @ ctx_after k)" and h: "ctx_hole s k 0"
    using assms(1,3) by (auto simp: nodes_plug rep_plug)
  have link: "nd_parent s1 = nd_parent s" "nd_color s1 = nd_color s" "z \<noteq> up k \<Longrightarrow> same_node s s1 z" for z
    unfolding s1_def by (cases k rule: link_of.cases; simp add: set_left_def set_right_def same_node_def)+
  have "ctx_hole s1 k node"
  proof (cases k rule: link_of.cases)
    case (2 x c t k')
    then have "\<forall>z \<in> set (nodes t). same_node s s1 z" "\<forall>z \<in> set (ctx_before k') \<union> set (ctx_after k'). same_node s s1 z"
      using n by (auto intro!: link)
    then show ?thesis using 2 h by (auto simp: s1_def set_left_def elim: shape_same hole_same)
  next
    case (3 x c t k')
    then have "\<forall>z \<in> set (nodes t). same_node s s1 z" "\<forall>z \<in> set (ctx_before k') \<union> set (ctx_after k'). same_node s s1 z"
      using n by (auto intro!: link)
    then show ?thesis using 3 h by (auto simp: s1_def set_right_def elim: shape_same hole_same)
  qed (simp add: s1_def)
  moreover have same: "same_node s1 s2 z" if "z \<noteq> node" for z
    using that by (simp add: s2_def same_node_def set_left_def set_right_def set_color_def set_parent_def)
  moreover have "root_node s2 = root_node s1"
    by (simp add: s2_def set_left_def set_right_def set_color_def set_parent_def)
  moreover have "\<forall>z \<in> set (ctx_before k) \<union> set (ctx_after k). same_node s1 s2 z"
    by (intro ballI same) (use n(1) in blast)
  ultimately have "ctx_hole s2 k node" by (blast intro: hole_same)
  moreover have "shape s2 (up k) (Br Tip node RB_RED Tip)"
    using assms(2) by (simp add: s2_def set_left_def set_right_def set_color_def set_parent_def)
  ultimately show "rep s' (plug k (Br Tip node RB_RED Tip))"
    using n by (simp add: rep_plug s')
  have "same_node s s2 z" if "z \<noteq> node" "z \<notin> set (nodes (plug k Tip))" for z
  proof (cases "k = []")
    case True
    then have "same_node s s1 z" by (simp add: s1_def same_node_def)
    then show ?thesis using same [OF that(1)] by (rule same_node_trans)
  next
    case False
    then have "z \<noteq> up k" using that(2) up_in_ctx [OF False] by (auto simp: nodes_plug)
    then show ?thesis using same_node_trans [OF link(3) same [OF that(1)]] by blast
  qed
  then show "same_outside (insert node (set (nodes (plug k Tip)))) s s'"
    by (simp add: same_outside_def s')
qed

lemma rb_insert_node_correct:
  assumes "rep s t" "rb_inv t" "t = plug k Tip" "node \<noteq> 0" "node \<notin> set (nodes t)"
  shows "\<exists>s'. rb_insert_node (up k) (link_of k) node s = Some s' \<and> balanced_as s s' (ctx_before k @ node # ctx_after k)"
proof -
  let ?s = "rb_link_node (up k) (link_of k) node s"
  have l: "rep ?s (plug k (Br Tip node RB_RED Tip))" "same_outside (insert node (set (nodes t))) s ?s"
    using rb_link_rep [of s k node] assms by auto
  have "fits k 0 RB_BLACK" using assms(2,3) by (simp add: rb_inv_plug)
  then obtain s' where s': "rb_fixup_loop node ?s = Some s'" "balanced_as ?s s' (ctx_before k @ node # ctx_after k)"
    using fixup_correct [OF l(1)] by (auto simp: nodes_plug)
  have "set (ctx_before k @ node # ctx_after k) = insert node (set (nodes t))" using assms(3) by (auto simp: nodes_plug)
  then have "balanced_as s s' (ctx_before k @ node # ctx_after k)" using balanced_as_trans s'(2) l(2) by metis
  then show ?thesis using s'(1) by (simp add: rb_insert_node_def rb_fixup_def)
qed

lemma cut_take_drop:
  assumes "\<forall>p \<in> set xs. \<not> P p" "\<forall>p \<in> set ys. P p"
  shows "takeWhile (\<lambda>p. \<not> P p) (xs @ ys) = xs" "dropWhile (\<lambda>p. \<not> P p) (xs @ ys) = ys"
  using assms by (induction xs) (auto simp: takeWhile_eq_Nil_iff dropWhile_eq_self_iff, cases ys, auto)

lemma rb_insert_correct:
  assumes "rep s t" "rb_inv t" "node \<noteq> 0" "node \<notin> set (nodes t)" "cut_at cmp node (nodes t)"
  shows "\<exists>s'. rb_insert cmp node s = Some s' \<and> balanced_as s s'
    (takeWhile (\<lambda>p. \<not> cmp node p < 0) (nodes t) @ node # dropWhile (\<lambda>p. \<not> cmp node p < 0) (nodes t))"
proof -
  obtain k where k: "rb_parent cmp node True s = Some (up k, link_of k, ctx_before k = [])" "plug k Tip = t"
    "\<forall>p \<in> set (ctx_before k). \<not> cmp node p < 0" "\<forall>p \<in> set (ctx_after k). cmp node p < 0"
    using rb_parent_correct [OF assms(1,5), of True] by auto
  have "nodes t = ctx_before k @ ctx_after k" using k(2) by (metis nodes_plug nodes.simps(1) append_Nil)
  then show ?thesis
    using rb_insert_node_correct [OF assms(1,2) k(2) [symmetric] assms(3,4)] cut_take_drop [OF k(3,4)] k(1)
    by (simp add: rb_insert_def)
qed

end
