(* ===== verification/Rbtree_Remove.thy ===== *)
theory Rbtree_Remove
  imports Rbtree_Insert
begin

text \<open>
  Removal from red-black trees: the loop of \<^verbatim>\<open>rb_erase\<close> restores the black heights,
  \<^verbatim>\<open>rb_remove\<close> takes a node out (a child or the successor takes its place) and
  \<^verbatim>\<open>rb_delete\<close> combines them: the tree stays balanced and its nodes in order are those before
  without the removed one.
\<close>

section \<open>Removal balances\<close>

text \<open>The loop ends with a balanced tree of the given nodes.\<close>

definition settled :: "nat \<Rightarrow> nat \<Rightarrow> rb_state \<Rightarrow> nat list \<Rightarrow> bool" where
  "settled node parent s xs \<longleftrightarrow> (\<exists>s'. rb_erase_loop node parent s = Some s' \<and> balanced_as s s' xs)"

lemma settledI: "rb_erase_loop node parent s = Some s' \<Longrightarrow> balanced_as s s' xs \<Longrightarrow> settled node parent s xs"
  by (auto simp: settled_def)

lemma settled_step:
  "rb_erase_loop node parent s = rb_erase_loop node' parent' s' \<Longrightarrow> same_outside (set xs) s s' \<Longrightarrow>
   settled node' parent' s' xs \<Longrightarrow> settled node parent s xs"
  unfolding settled_def using balanced_as_trans by metis

lemma top_color:
  assumes "rep s (plug k t)" "color_of t = RB_BLACK"
  shows "tree_top t = 0 \<or> nd_color s (tree_top t) = RB_BLACK"
  using rep_color [OF assms(1)] assms(2) by (cases "t = Tip") auto

lemma paint_color_of [simp]: "paint (color_of t) t = t"
  by (cases t) simp_all

lemma red_not_tip: "color_of t = RB_RED \<Longrightarrow> t \<noteq> Tip"
  by auto

lemma erase_red_left:
  assumes r: "rep s (plug (Left_of p RB_BLACK (Br a y RB_RED b) # k) t)" and a: "color_of a = RB_BLACK" "a \<noteq> Tip"
  shows "\<exists>s'. rb_erase_loop (tree_top t) p s = rb_erase_loop (tree_top t) p s' \<and>
    rep s' (plug (Left_of p RB_RED a # Left_of y RB_BLACK b # k) t) \<and>
    same_outside (set (nodes (plug (Left_of p RB_BLACK (Br a y RB_RED b) # k) t))) s s'"
proof -
  obtain s' where s': "left_rotate p (Some RB_RED) (Some RB_BLACK) s = (tree_top a, s')"
    "rep s' (plug (Left_of p RB_RED a # Left_of y RB_BLACK b # k) t)"
    "same_outside (set (nodes (plug (Left_of p RB_BLACK (Br a y RB_RED b) # k) t))) s s'"
    using left_rotate_rep [of s k t p RB_BLACK a y RB_RED b "Some RB_RED" "Some RB_BLACK"] r a by (auto simp: new_color_def)
  have tt: "nd_left s p = tree_top t" using rep_at [of s k] r by simp
  have p: "p \<noteq> 0" "nd_right s p = y" "nd_color s y = RB_RED" "tree_top t \<noteq> y"
    using rep_at [of s k] rep_at [of s "Right_of p RB_BLACK t # k"] r rep_distinct [OF r] top_in_nodes [of t]
    by (cases "t = Tip"; auto simp: nodes_plug)+
  have q: "nd_right s' p = tree_top a" "nd_color s' (tree_top a) = RB_BLACK" "tree_top t \<noteq> tree_top a"
  proof -
    show "nd_right s' p = tree_top a" using rep_at [of s' "Left_of y RB_BLACK b # k"] s'(2) by simp
    have "rep s' (plug (Right_of p RB_RED t # Left_of y RB_BLACK b # k) a)" using s'(2) by simp
    then show "nd_color s' (tree_top a) = RB_BLACK" using rep_color a by metis
    show "tree_top t \<noteq> tree_top a"
      using rep_distinct [OF s'(2)] top_in_nodes [of t] top_in_nodes [OF a(2)] rep_top [OF \<open>rep s' (plug (Right_of p RB_RED t # Left_of y RB_BLACK b # k) a)\<close>] a(2)
      by (cases "t = Tip") (auto simp: nodes_plug)
  qed
  have "nd_left s' p = tree_top t" using rep_at [of s' "Left_of y RB_BLACK b # k"] s'(2) by simp
  then have "rb_erase_loop (tree_top t) p s = rb_erase_loop (tree_top t) p s'"
    using p q tt s'(1) by (simp add: rb_erase_loop.simps [of "tree_top t" p s] rb_erase_loop.simps [of "tree_top t" p s'] Let_def)
  then show ?thesis using s' by blast
qed

lemma erase_flip_left:
  assumes r: "rep s (plug (Left_of p c (Br a y RB_BLACK b) # k) t)" and a: "color_of a = RB_BLACK" and b: "color_of b = RB_BLACK"
    and i: "color_of t = RB_BLACK" "invc t" "invh t" "invc a" "invh a" "invc b" "invh b" "bheight a = bheight t" "bheight b = bheight t"
    and f: "fits k (if c = RB_BLACK then bheight t + 2 else bheight t + 1) c"
    and IH: "\<And>s' t'. c = RB_BLACK \<Longrightarrow> rep s' (plug k t') \<Longrightarrow> color_of t' = RB_BLACK \<Longrightarrow> invc t' \<Longrightarrow> invh t' \<Longrightarrow>
      fits k (bheight t' + 1) RB_BLACK \<Longrightarrow> settled (tree_top t') (up k) s' (nodes (plug k t'))"
  shows "settled (tree_top t) p s (nodes (plug (Left_of p c (Br a y RB_BLACK b) # k) t))"
proof -
  let ?xs = "nodes (plug (Left_of p c (Br a y RB_BLACK b) # k) t)"
  let ?s1 = "set_color y RB_RED s"
  have y: "rep s (plug (Right_of p c t # k) (Br a y RB_BLACK b))" using r by simp
  have tt: "nd_left s p = tree_top t" using rep_at [of s k] r by simp
  have p: "p \<noteq> 0" "nd_right s p = y" "nd_color s p = c" "nd_color s y = RB_BLACK" "nd_left s y = tree_top a" "nd_right s y = tree_top b"
    "y \<noteq> p" "tree_top t \<noteq> y"
    using rep_at [of s k] rep_at [OF y] r rep_distinct [OF r] top_in_nodes [of t]
    by (cases "t = Tip"; auto simp: nodes_plug)+
  have ab: "tree_top a = 0 \<or> nd_color s (tree_top a) = RB_BLACK" "tree_top b = 0 \<or> nd_color s (tree_top b) = RB_BLACK"
    using top_color [of s "Left_of y RB_BLACK b # Right_of p c t # k" a] top_color [of s "Right_of y RB_BLACK a # Right_of p c t # k" b] r a b by auto
  have r1: "rep ?s1 (plug k (Br t p c (Br a y RB_RED b)))" "same_outside (set ?xs) s ?s1"
    using rep_set_color [OF y, of RB_RED] by simp_all
  have loop: "rb_erase_loop (tree_top t) p s =
      (if c = RB_RED then Some (set_color p RB_BLACK ?s1) else rb_erase_loop p (nd_parent ?s1 p) ?s1)"
    using p tt ab by (simp add: rb_erase_loop.simps [of "tree_top t" p s] Let_def) (simp add: set_color_def)
  show ?thesis
  proof (cases c)
    case RB_RED
    have r2: "rep (set_color p RB_BLACK ?s1) (plug k (Br t p RB_BLACK (Br a y RB_RED b)))" "same_outside (set ?xs) ?s1 (set_color p RB_BLACK ?s1)"
      using rep_set_color [OF r1(1), of RB_BLACK] by (simp_all add: nodes_plug)
    have "balanced_as s (set_color p RB_BLACK ?s1) ?xs"
      by (rule balanced_asI [OF r2(1)]) (use i a b f RB_RED r1(2) r2(2) in \<open>auto simp: nodes_plug intro: fits_black same_outside_trans\<close>)
    then show ?thesis using loop RB_RED by (auto intro: settledI)
  next
    case RB_BLACK
    have "settled p (up k) ?s1 ?xs"
      using IH [OF RB_BLACK, of ?s1 "(Br t p c (Br a y RB_RED b))"] r1(1) i a b f RB_BLACK by (simp add: nodes_plug)
    moreover have "nd_parent ?s1 p = up k" using rep_at [of ?s1 k] r1(1) by simp
    ultimately show ?thesis using loop RB_BLACK r1(2) by (auto intro: settled_step)
  qed
qed

lemma erase_outer_left:
  assumes r: "rep s (plug (Left_of p c (Br a y RB_BLACK b) # k) t)" and b: "color_of b = RB_RED"
    and i: "color_of t = RB_BLACK" "invc t" "invh t" "invc a" "invh a" "invc b" "invh b" "bheight a = bheight t" "bheight b = bheight t"
    and f: "fits k (if c = RB_BLACK then bheight t + 2 else bheight t + 1) c"
  shows "settled (tree_top t) p s (nodes (plug (Left_of p c (Br a y RB_BLACK b) # k) t))"
proof -
  let ?xs = "nodes (plug (Left_of p c (Br a y RB_BLACK b) # k) t)"
  have y: "rep s (plug (Right_of p c t # k) (Br a y RB_BLACK b))" using r by simp
  have tt: "nd_left s p = tree_top t" using rep_at [of s k] r by simp
  have p: "p \<noteq> 0" "nd_right s p = y" "nd_color s y = RB_BLACK" "nd_left s y = tree_top a" "nd_right s y = tree_top b"
    "y \<noteq> p" "tree_top t \<noteq> y"
    using rep_at [of s k] rep_at [OF y] r rep_distinct [OF r] top_in_nodes [of t]
    by (cases "t = Tip"; auto simp: nodes_plug)+
  have kb: "rep s (plug (Right_of y RB_BLACK a # Right_of p c t # k) b)" using r by simp
  have bt: "tree_top b \<noteq> 0" "nd_color s (tree_top b) = RB_RED"
    using rep_top [OF kb] rep_color [OF kb] b by auto
  obtain s1 where s1: "left_rotate p (Some RB_BLACK) None s = (tree_top a, s1)" "rep s1 (plug k (Br (Br t p RB_BLACK a) y c b))" "same_outside (set ?xs) s s1"
    using left_rotate_rep [of s k t p c a y RB_BLACK b "Some RB_BLACK" None] r by (auto simp: new_color_def split: option.splits)
  let ?s2 = "set_color (tree_top b) RB_BLACK s1"
  have r2: "rep ?s2 (plug k (Br (Br t p RB_BLACK a) y c (paint RB_BLACK b)))" "same_outside (set ?xs) s1 ?s2"
    using rep_paint [of s1 "Right_of y c (Br t p RB_BLACK a) # k" b RB_BLACK] s1(2) red_not_tip [OF b] by (simp_all add: nodes_plug)
  have "rb_erase_loop (tree_top t) p s = Some ?s2"
    using p tt bt s1(1) by (simp add: rb_erase_loop.simps [of "tree_top t" p s] Let_def)
  moreover have "balanced_as s ?s2 ?xs"
    by (rule balanced_asI [OF r2(1)])
      (use i b f s1(3) r2(2) paint_red_inv [of b] color_paint(2) [of b] in \<open>auto simp: nodes_plug intro: same_outside_trans split: if_splits\<close>)
  ultimately show ?thesis by (rule settledI)
qed

lemma erase_inner_left:
  assumes r: "rep s (plug (Left_of p c (Br (Br a1 x RB_RED a2) y RB_BLACK b) # k) t)" and b: "color_of b = RB_BLACK" "color_of a1 = RB_BLACK" "color_of a2 = RB_BLACK"
    and i: "color_of t = RB_BLACK" "invc t" "invh t" "invc a1" "invh a1" "invc a2" "invh a2" "invc b" "invh b"
      "bheight a1 = bheight t" "bheight a2 = bheight t" "bheight b = bheight t"
    and f: "fits k (if c = RB_BLACK then bheight t + 2 else bheight t + 1) c"
  shows "settled (tree_top t) p s (nodes (plug (Left_of p c (Br (Br a1 x RB_RED a2) y RB_BLACK b) # k) t))"
proof -
  let ?xs = "nodes (plug (Left_of p c (Br (Br a1 x RB_RED a2) y RB_BLACK b) # k) t)"
  have y: "rep s (plug (Right_of p c t # k) (Br (Br a1 x RB_RED a2) y RB_BLACK b))" using r by simp
  have tt: "nd_left s p = tree_top t" using rep_at [of s k] r by simp
  have p: "p \<noteq> 0" "nd_right s p = y" "nd_color s y = RB_BLACK" "nd_left s y = x" "nd_right s y = tree_top b"
    "y \<noteq> p" "tree_top t \<noteq> y"
    using rep_at [of s k] rep_at [OF y] r rep_distinct [OF r] top_in_nodes [of t]
    by (cases "t = Tip"; auto simp: nodes_plug)+
  have x: "x \<noteq> 0" "nd_color s x = RB_RED"
    using rep_at [of s "Left_of y RB_BLACK b # Right_of p c t # k" a1 x RB_RED a2] r by simp_all
  have bt: "tree_top b = 0 \<or> nd_color s (tree_top b) = RB_BLACK"
    using top_color [of s "Right_of y RB_BLACK (Br a1 x RB_RED a2) # Right_of p c t # k" b] r b by auto
  obtain s1 where s1: "right_rotate y None (Some RB_BLACK) s = (tree_top a2, s1)" "rep s1 (plug (Left_of p c (Br a1 x RB_RED (Br a2 y RB_BLACK b)) # k) t)"
    "same_outside (set ?xs) s s1"
    using right_rotate_rep [of s "Right_of p c t # k" a1 x RB_RED a2 y RB_BLACK b None "Some RB_BLACK"] r b by (auto simp: new_color_def nodes_plug)
  obtain s2 where s2: "left_rotate p (Some RB_BLACK) None s1 = (tree_top a1, s2)" "rep s2 (plug k (Br (Br t p RB_BLACK a1) x c (Br a2 y RB_BLACK b)))" "same_outside (set ?xs) s1 s2"
    using left_rotate_rep [of s1 k t p c a1 x RB_RED "(Br a2 y RB_BLACK b)" "Some RB_BLACK" None] s1(2) by (auto simp: new_color_def nodes_plug split: option.splits)
  let ?s3 = "set_color y RB_BLACK s2"
  have r3: "rep ?s3 (plug k (Br (Br t p RB_BLACK a1) x c (Br a2 y RB_BLACK b)))" "same_outside (set ?xs) s2 ?s3"
    using rep_set_color [of s2 "Right_of x c (Br t p RB_BLACK a1) # k" a2 y RB_BLACK b RB_BLACK] s2(2) by (simp_all add: nodes_plug)
  have "rb_erase_loop (tree_top t) p s = Some ?s3"
    using p tt bt x s1(1) s2(1) by (simp add: rb_erase_loop.simps [of "tree_top t" p s] Let_def)
  moreover have "balanced_as s ?s3 ?xs"
    by (rule balanced_asI [OF r3(1)])
      (use i b f s1(3) s2(3) r3(2) in \<open>auto simp: nodes_plug intro: same_outside_trans split: if_splits\<close>)
  ultimately show ?thesis by (rule settledI)
qed

lemma erase_red_right:
  assumes r: "rep s (plug (Right_of p RB_BLACK (Br b y RB_RED a) # k) t)" and a: "color_of a = RB_BLACK" "a \<noteq> Tip"
  shows "\<exists>s'. rb_erase_loop (tree_top t) p s = rb_erase_loop (tree_top t) p s' \<and>
    rep s' (plug (Right_of p RB_RED a # Right_of y RB_BLACK b # k) t) \<and>
    same_outside (set (nodes (plug (Right_of p RB_BLACK (Br b y RB_RED a) # k) t))) s s'"
proof -
  obtain s' where s': "right_rotate p (Some RB_RED) (Some RB_BLACK) s = (tree_top a, s')"
    "rep s' (plug (Right_of p RB_RED a # Right_of y RB_BLACK b # k) t)"
    "same_outside (set (nodes (plug (Right_of p RB_BLACK (Br b y RB_RED a) # k) t))) s s'"
    using right_rotate_rep [of s k b y RB_RED a p RB_BLACK t "Some RB_RED" "Some RB_BLACK"] r a by (auto simp: new_color_def)
  have tt: "nd_right s p = tree_top t" using rep_at [of s k] r by simp
  have p: "p \<noteq> 0" "nd_left s p = y" "nd_color s y = RB_RED" "tree_top t \<noteq> y"
    using rep_at [of s k] rep_at [of s "Left_of p RB_BLACK t # k"] r rep_distinct [OF r] top_in_nodes [of t]
    by (cases "t = Tip"; auto simp: nodes_plug)+
  have q: "nd_left s' p = tree_top a" "nd_color s' (tree_top a) = RB_BLACK" "tree_top t \<noteq> tree_top a"
  proof -
    show "nd_left s' p = tree_top a" using rep_at [of s' "Right_of y RB_BLACK b # k"] s'(2) by simp
    have "rep s' (plug (Left_of p RB_RED t # Right_of y RB_BLACK b # k) a)" using s'(2) by simp
    then show "nd_color s' (tree_top a) = RB_BLACK" using rep_color a by metis
    show "tree_top t \<noteq> tree_top a"
      using rep_distinct [OF s'(2)] top_in_nodes [of t] top_in_nodes [OF a(2)] rep_top [OF \<open>rep s' (plug (Left_of p RB_RED t # Right_of y RB_BLACK b # k) a)\<close>] a(2)
      by (cases "t = Tip") (auto simp: nodes_plug)
  qed
  have "nd_right s' p = tree_top t" using rep_at [of s' "Right_of y RB_BLACK b # k"] s'(2) by simp
  then have "rb_erase_loop (tree_top t) p s = rb_erase_loop (tree_top t) p s'"
    using p q tt s'(1) by (simp add: rb_erase_loop.simps [of "tree_top t" p s] rb_erase_loop.simps [of "tree_top t" p s'] Let_def)
  then show ?thesis using s' by blast
qed

lemma erase_flip_right:
  assumes r: "rep s (plug (Right_of p c (Br b y RB_BLACK a) # k) t)" and a: "color_of a = RB_BLACK" and b: "color_of b = RB_BLACK"
    and i: "color_of t = RB_BLACK" "invc t" "invh t" "invc a" "invh a" "invc b" "invh b" "bheight a = bheight t" "bheight b = bheight t"
    and f: "fits k (if c = RB_BLACK then bheight t + 2 else bheight t + 1) c"
    and IH: "\<And>s' t'. c = RB_BLACK \<Longrightarrow> rep s' (plug k t') \<Longrightarrow> color_of t' = RB_BLACK \<Longrightarrow> invc t' \<Longrightarrow> invh t' \<Longrightarrow>
      fits k (bheight t' + 1) RB_BLACK \<Longrightarrow> settled (tree_top t') (up k) s' (nodes (plug k t'))"
  shows "settled (tree_top t) p s (nodes (plug (Right_of p c (Br b y RB_BLACK a) # k) t))"
proof -
  let ?xs = "nodes (plug (Right_of p c (Br b y RB_BLACK a) # k) t)"
  let ?s1 = "set_color y RB_RED s"
  have y: "rep s (plug (Left_of p c t # k) (Br b y RB_BLACK a))" using r by simp
  have tt: "nd_right s p = tree_top t" using rep_at [of s k] r by simp
  have p: "p \<noteq> 0" "nd_left s p = y" "nd_color s p = c" "nd_color s y = RB_BLACK" "nd_right s y = tree_top a" "nd_left s y = tree_top b"
    "y \<noteq> p" "tree_top t \<noteq> y"
    using rep_at [of s k] rep_at [OF y] r rep_distinct [OF r] top_in_nodes [of t]
    by (cases "t = Tip"; auto simp: nodes_plug)+
  have ab: "tree_top a = 0 \<or> nd_color s (tree_top a) = RB_BLACK" "tree_top b = 0 \<or> nd_color s (tree_top b) = RB_BLACK"
    using top_color [of s "Right_of y RB_BLACK b # Left_of p c t # k" a] top_color [of s "Left_of y RB_BLACK a # Left_of p c t # k" b] r a b by auto
  have r1: "rep ?s1 (plug k (Br (Br b y RB_RED a) p c t))" "same_outside (set ?xs) s ?s1"
    using rep_set_color [OF y, of RB_RED] by simp_all
  have loop: "rb_erase_loop (tree_top t) p s =
      (if c = RB_RED then Some (set_color p RB_BLACK ?s1) else rb_erase_loop p (nd_parent ?s1 p) ?s1)"
    using p tt ab by (simp add: rb_erase_loop.simps [of "tree_top t" p s] Let_def) (simp add: set_color_def)
  show ?thesis
  proof (cases c)
    case RB_RED
    have r2: "rep (set_color p RB_BLACK ?s1) (plug k (Br (Br b y RB_RED a) p RB_BLACK t))" "same_outside (set ?xs) ?s1 (set_color p RB_BLACK ?s1)"
      using rep_set_color [OF r1(1), of RB_BLACK] by (simp_all add: nodes_plug)
    have "balanced_as s (set_color p RB_BLACK ?s1) ?xs"
      by (rule balanced_asI [OF r2(1)]) (use i a b f RB_RED r1(2) r2(2) in \<open>auto simp: nodes_plug intro: fits_black same_outside_trans\<close>)
    then show ?thesis using loop RB_RED by (auto intro: settledI)
  next
    case RB_BLACK
    have "settled p (up k) ?s1 ?xs"
      using IH [OF RB_BLACK, of ?s1 "(Br (Br b y RB_RED a) p c t)"] r1(1) i a b f RB_BLACK by (simp add: nodes_plug)
    moreover have "nd_parent ?s1 p = up k" using rep_at [of ?s1 k] r1(1) by simp
    ultimately show ?thesis using loop RB_BLACK r1(2) by (auto intro: settled_step)
  qed
qed

lemma erase_outer_right:
  assumes r: "rep s (plug (Right_of p c (Br b y RB_BLACK a) # k) t)" and b: "color_of b = RB_RED"
    and i: "color_of t = RB_BLACK" "invc t" "invh t" "invc a" "invh a" "invc b" "invh b" "bheight a = bheight t" "bheight b = bheight t"
    and f: "fits k (if c = RB_BLACK then bheight t + 2 else bheight t + 1) c"
  shows "settled (tree_top t) p s (nodes (plug (Right_of p c (Br b y RB_BLACK a) # k) t))"
proof -
  let ?xs = "nodes (plug (Right_of p c (Br b y RB_BLACK a) # k) t)"
  have y: "rep s (plug (Left_of p c t # k) (Br b y RB_BLACK a))" using r by simp
  have tt: "nd_right s p = tree_top t" using rep_at [of s k] r by simp
  have p: "p \<noteq> 0" "nd_left s p = y" "nd_color s y = RB_BLACK" "nd_right s y = tree_top a" "nd_left s y = tree_top b"
    "y \<noteq> p" "tree_top t \<noteq> y"
    using rep_at [of s k] rep_at [OF y] r rep_distinct [OF r] top_in_nodes [of t]
    by (cases "t = Tip"; auto simp: nodes_plug)+
  have kb: "rep s (plug (Left_of y RB_BLACK a # Left_of p c t # k) b)" using r by simp
  have bt: "tree_top b \<noteq> 0" "nd_color s (tree_top b) = RB_RED"
    using rep_top [OF kb] rep_color [OF kb] b by auto
  obtain s1 where s1: "right_rotate p (Some RB_BLACK) None s = (tree_top a, s1)" "rep s1 (plug k (Br b y c (Br a p RB_BLACK t)))" "same_outside (set ?xs) s s1"
    using right_rotate_rep [of s k b y RB_BLACK a p c t "Some RB_BLACK" None] r by (auto simp: new_color_def split: option.splits)
  let ?s2 = "set_color (tree_top b) RB_BLACK s1"
  have r2: "rep ?s2 (plug k (Br (paint RB_BLACK b) y c (Br a p RB_BLACK t)))" "same_outside (set ?xs) s1 ?s2"
    using rep_paint [of s1 "Left_of y c (Br a p RB_BLACK t) # k" b RB_BLACK] s1(2) red_not_tip [OF b] by (simp_all add: nodes_plug)
  have "rb_erase_loop (tree_top t) p s = Some ?s2"
    using p tt bt s1(1) by (simp add: rb_erase_loop.simps [of "tree_top t" p s] Let_def)
  moreover have "balanced_as s ?s2 ?xs"
    by (rule balanced_asI [OF r2(1)])
      (use i b f s1(3) r2(2) paint_red_inv [of b] color_paint(2) [of b] in \<open>auto simp: nodes_plug intro: same_outside_trans split: if_splits\<close>)
  ultimately show ?thesis by (rule settledI)
qed

lemma erase_inner_right:
  assumes r: "rep s (plug (Right_of p c (Br b y RB_BLACK (Br a2 x RB_RED a1)) # k) t)" and b: "color_of b = RB_BLACK" "color_of a1 = RB_BLACK" "color_of a2 = RB_BLACK"
    and i: "color_of t = RB_BLACK" "invc t" "invh t" "invc a1" "invh a1" "invc a2" "invh a2" "invc b" "invh b"
      "bheight a1 = bheight t" "bheight a2 = bheight t" "bheight b = bheight t"
    and f: "fits k (if c = RB_BLACK then bheight t + 2 else bheight t + 1) c"
  shows "settled (tree_top t) p s (nodes (plug (Right_of p c (Br b y RB_BLACK (Br a2 x RB_RED a1)) # k) t))"
proof -
  let ?xs = "nodes (plug (Right_of p c (Br b y RB_BLACK (Br a2 x RB_RED a1)) # k) t)"
  have y: "rep s (plug (Left_of p c t # k) (Br b y RB_BLACK (Br a2 x RB_RED a1)))" using r by simp
  have tt: "nd_right s p = tree_top t" using rep_at [of s k] r by simp
  have p: "p \<noteq> 0" "nd_left s p = y" "nd_color s y = RB_BLACK" "nd_right s y = x" "nd_left s y = tree_top b"
    "y \<noteq> p" "tree_top t \<noteq> y"
    using rep_at [of s k] rep_at [OF y] r rep_distinct [OF r] top_in_nodes [of t]
    by (cases "t = Tip"; auto simp: nodes_plug)+
  have x: "x \<noteq> 0" "nd_color s x = RB_RED"
    using rep_at [of s "Right_of y RB_BLACK b # Left_of p c t # k" a2 x RB_RED a1] r by simp_all
  have bt: "tree_top b = 0 \<or> nd_color s (tree_top b) = RB_BLACK"
    using top_color [of s "Left_of y RB_BLACK (Br a2 x RB_RED a1) # Left_of p c t # k" b] r b by auto
  obtain s1 where s1: "left_rotate y None (Some RB_BLACK) s = (tree_top a2, s1)" "rep s1 (plug (Right_of p c (Br (Br b y RB_BLACK a2) x RB_RED a1) # k) t)"
    "same_outside (set ?xs) s s1"
    using left_rotate_rep [of s "Left_of p c t # k" b y RB_BLACK a2 x RB_RED a1 None "Some RB_BLACK"] r b by (auto simp: new_color_def nodes_plug)
  obtain s2 where s2: "right_rotate p (Some RB_BLACK) None s1 = (tree_top a1, s2)" "rep s2 (plug k (Br (Br b y RB_BLACK a2) x c (Br a1 p RB_BLACK t)))" "same_outside (set ?xs) s1 s2"
    using right_rotate_rep [of s1 k "(Br b y RB_BLACK a2)" x RB_RED a1 p c t "Some RB_BLACK" None] s1(2) by (auto simp: new_color_def nodes_plug split: option.splits)
  let ?s3 = "set_color y RB_BLACK s2"
  have r3: "rep ?s3 (plug k (Br (Br b y RB_BLACK a2) x c (Br a1 p RB_BLACK t)))" "same_outside (set ?xs) s2 ?s3"
    using rep_set_color [of s2 "Left_of x c (Br a1 p RB_BLACK t) # k" b y RB_BLACK a2 RB_BLACK] s2(2) by (simp_all add: nodes_plug)
  have "rb_erase_loop (tree_top t) p s = Some ?s3"
    using p tt bt x s1(1) s2(1) by (simp add: rb_erase_loop.simps [of "tree_top t" p s] Let_def)
  moreover have "balanced_as s ?s3 ?xs"
    by (rule balanced_asI [OF r3(1)])
      (use i b f s1(3) s2(3) r3(2) in \<open>auto simp: nodes_plug intro: same_outside_trans split: if_splits\<close>)
  ultimately show ?thesis by (rule settledI)
qed

lemma erase_black_left:
  assumes r: "rep s (plug (Left_of p c w # k) t)" and t: "color_of t = RB_BLACK" "invc t" "invh t"
    and w: "color_of w = RB_BLACK" "invc w" "invh w" "bheight w = bheight t + 1"
    and f: "fits k (if c = RB_BLACK then bheight t + 2 else bheight t + 1) c"
    and IH: "\<And>s' t'. c = RB_BLACK \<Longrightarrow> rep s' (plug k t') \<Longrightarrow> color_of t' = RB_BLACK \<Longrightarrow> invc t' \<Longrightarrow> invh t' \<Longrightarrow>
      fits k (bheight t' + 1) RB_BLACK \<Longrightarrow> settled (tree_top t') (up k) s' (nodes (plug k t'))"
  shows "settled (tree_top t) p s (nodes (plug (Left_of p c w # k) t))"
proof -
  obtain a y b where w': "w = (Br a y RB_BLACK b)" using w(1,4) by (cases w) auto
  have i: "invc a" "invh a" "invc b" "invh b" "bheight a = bheight t" "bheight b = bheight t"
    using w w' by auto
  consider (flip) "color_of a = RB_BLACK" "color_of b = RB_BLACK" | (outer) "color_of b = RB_RED"
    | (inner) "color_of a = RB_RED" "color_of b = RB_BLACK" by (metis color_not_black)
  then show ?thesis
  proof cases
    case flip
    show ?thesis unfolding w' by (rule erase_flip_left [OF r [unfolded w'] flip t i f IH])
  next
    case outer
    show ?thesis unfolding w' by (rule erase_outer_left [OF r [unfolded w'] outer t i f])
  next
    case inner
    then obtain a1 x a2 where a: "a = (Br a1 x RB_RED a2)" by (cases a) auto
    then have a12: "color_of a1 = RB_BLACK" "color_of a2 = RB_BLACK" "invc a1" "invh a1" "invc a2" "invh a2"
      "bheight a1 = bheight t" "bheight a2 = bheight t" using i by auto
    show ?thesis unfolding w' a
      by (rule erase_inner_left [OF r [unfolded w' a] inner(2) a12(1,2) t a12(3-6) i(3,4) a12(7,8) i(6) f])
  qed
qed

lemma erase_step_left:
  assumes r: "rep s (plug (Left_of p c w # k) t)" and t: "color_of t = RB_BLACK" "invc t" "invh t"
    and f: "fits (Left_of p c w # k) (bheight t + 1) RB_BLACK"
    and IH: "\<And>s' t'. rep s' (plug k t') \<Longrightarrow> color_of t' = RB_BLACK \<Longrightarrow> invc t' \<Longrightarrow> invh t' \<Longrightarrow>
      fits k (bheight t' + 1) RB_BLACK \<Longrightarrow> settled (tree_top t') (up k) s' (nodes (plug k t'))"
  shows "settled (tree_top t) p s (nodes (plug (Left_of p c w # k) t))"
proof (cases "color_of w")
  case RB_BLACK
  have f': "invc w" "invh w" "bheight w = bheight t + 1" "fits k (if c = RB_BLACK then bheight t + 2 else bheight t + 1) c"
    using f by auto
  show ?thesis by (rule erase_black_left [OF r t RB_BLACK f' IH])
next
  case RB_RED
  then obtain a y b where w: "w = (Br a y RB_RED b)" by (cases w) auto
  have i: "c = RB_BLACK" "color_of a = RB_BLACK" "color_of b = RB_BLACK" "invc a" "invh a" "invc b" "invh b"
    "bheight a = bheight t + 1" "bheight b = bheight t + 1" "fits k (bheight t + 2) RB_BLACK"
    using f w RB_RED by (cases c; auto)+
  then have "a \<noteq> Tip" by auto
  then obtain s' where s': "rb_erase_loop (tree_top t) p s = rb_erase_loop (tree_top t) p s'"
    "rep s' (plug (Left_of p RB_RED a # Left_of y RB_BLACK b # k) t)"
    "same_outside (set (nodes (plug (Left_of p c w # k) t))) s s'"
    using erase_red_left [of s p a y b k t] r w i(1,2) by auto
  have "settled (tree_top t) p s' (nodes (plug (Left_of p RB_RED a # Left_of y RB_BLACK b # k) t))"
    by (rule erase_black_left [OF s'(2) t i(2,4,5,8)]) (use i in auto)
  then show ?thesis using settled_step [OF s'(1,3)] w by (simp add: nodes_plug)
qed

lemma erase_black_right:
  assumes r: "rep s (plug (Right_of p c w # k) t)" and t: "color_of t = RB_BLACK" "invc t" "invh t"
    and w: "color_of w = RB_BLACK" "invc w" "invh w" "bheight w = bheight t + 1"
    and f: "fits k (if c = RB_BLACK then bheight t + 2 else bheight t + 1) c"
    and IH: "\<And>s' t'. c = RB_BLACK \<Longrightarrow> rep s' (plug k t') \<Longrightarrow> color_of t' = RB_BLACK \<Longrightarrow> invc t' \<Longrightarrow> invh t' \<Longrightarrow>
      fits k (bheight t' + 1) RB_BLACK \<Longrightarrow> settled (tree_top t') (up k) s' (nodes (plug k t'))"
  shows "settled (tree_top t) p s (nodes (plug (Right_of p c w # k) t))"
proof -
  obtain a y b where w': "w = (Br b y RB_BLACK a)" using w(1,4) by (cases w) auto
  have i: "invc a" "invh a" "invc b" "invh b" "bheight a = bheight t" "bheight b = bheight t"
    using w w' by auto
  consider (flip) "color_of a = RB_BLACK" "color_of b = RB_BLACK" | (outer) "color_of b = RB_RED"
    | (inner) "color_of a = RB_RED" "color_of b = RB_BLACK" by (metis color_not_black)
  then show ?thesis
  proof cases
    case flip
    show ?thesis unfolding w' by (rule erase_flip_right [OF r [unfolded w'] flip t i f IH])
  next
    case outer
    show ?thesis unfolding w' by (rule erase_outer_right [OF r [unfolded w'] outer t i f])
  next
    case inner
    then obtain a1 x a2 where a: "a = (Br a2 x RB_RED a1)" by (cases a) auto
    then have a12: "color_of a1 = RB_BLACK" "color_of a2 = RB_BLACK" "invc a1" "invh a1" "invc a2" "invh a2"
      "bheight a1 = bheight t" "bheight a2 = bheight t" using i by auto
    show ?thesis unfolding w' a
      by (rule erase_inner_right [OF r [unfolded w' a] inner(2) a12(1,2) t a12(3-6) i(3,4) a12(7,8) i(6) f])
  qed
qed

lemma erase_step_right:
  assumes r: "rep s (plug (Right_of p c w # k) t)" and t: "color_of t = RB_BLACK" "invc t" "invh t"
    and f: "fits (Right_of p c w # k) (bheight t + 1) RB_BLACK"
    and IH: "\<And>s' t'. rep s' (plug k t') \<Longrightarrow> color_of t' = RB_BLACK \<Longrightarrow> invc t' \<Longrightarrow> invh t' \<Longrightarrow>
      fits k (bheight t' + 1) RB_BLACK \<Longrightarrow> settled (tree_top t') (up k) s' (nodes (plug k t'))"
  shows "settled (tree_top t) p s (nodes (plug (Right_of p c w # k) t))"
proof (cases "color_of w")
  case RB_BLACK
  have f': "invc w" "invh w" "bheight w = bheight t + 1" "fits k (if c = RB_BLACK then bheight t + 2 else bheight t + 1) c"
    using f by auto
  show ?thesis by (rule erase_black_right [OF r t RB_BLACK f' IH])
next
  case RB_RED
  then obtain a y b where w: "w = (Br b y RB_RED a)" by (cases w) auto
  have i: "c = RB_BLACK" "color_of a = RB_BLACK" "color_of b = RB_BLACK" "invc a" "invh a" "invc b" "invh b"
    "bheight a = bheight t + 1" "bheight b = bheight t + 1" "fits k (bheight t + 2) RB_BLACK"
    using f w RB_RED by (cases c; auto)+
  then have "a \<noteq> Tip" by auto
  then obtain s' where s': "rb_erase_loop (tree_top t) p s = rb_erase_loop (tree_top t) p s'"
    "rep s' (plug (Right_of p RB_RED a # Right_of y RB_BLACK b # k) t)"
    "same_outside (set (nodes (plug (Right_of p c w # k) t))) s s'"
    using erase_red_right [of s p b y a k t] r w i(1,2) by auto
  have "settled (tree_top t) p s' (nodes (plug (Right_of p RB_RED a # Right_of y RB_BLACK b # k) t))"
    by (rule erase_black_right [OF s'(2) t i(2,4,5,8)]) (use i in auto)
  then show ?thesis using settled_step [OF s'(1,3)] w by (simp add: nodes_plug)
qed

lemma rb_erase_loop_correct:
  assumes "rep s (plug k t)" "color_of t = RB_BLACK" "invc t" "invh t" "fits k (bheight t + 1) RB_BLACK"
  shows "settled (tree_top t) (up k) s (nodes (plug k t))"
  using assms
proof (induction k arbitrary: s t)
  case Nil
  then have "rb_inv t" by (simp add: rb_inv_def)
  then have "balanced_as s s (nodes t)" using Nil.prems(1) unfolding balanced_as_def by auto
  moreover have "rb_erase_loop (tree_top t) 0 s = Some s" by (simp add: rb_erase_loop.simps)
  ultimately show ?case by (auto intro: settledI)
next
  case (Cons f k)
  show ?case
  proof (cases f)
    case (Left_of p c w)
    show ?thesis using erase_step_left [OF Cons.prems(1) [unfolded Left_of] Cons.prems(2-4) Cons.prems(5) [unfolded Left_of] Cons.IH] Left_of
      by (simp del: plug.simps)
  next
    case (Right_of p c w)
    show ?thesis using erase_step_right [OF Cons.prems(1) [unfolded Right_of] Cons.prems(2-4) Cons.prems(5) [unfolded Right_of] Cons.IH] Right_of
      by (simp del: plug.simps)
  qed
qed

lemma rb_erase_correct:
  assumes "rep s (plug k Tip)" "fits k 1 RB_BLACK"
  shows "\<exists>s'. rb_erase (up k) s = Some s' \<and> balanced_as s s' (ctx_before k @ ctx_after k)"
  using rb_erase_loop_correct [OF assms(1)] assms(2) by (auto simp: settled_def rb_erase_def nodes_plug)

section \<open>Taking a node out\<close>

lemma rep_same:
  "rep s t \<Longrightarrow> \<forall>z \<in> set (nodes t). same_node s s' z \<Longrightarrow> root_node s' = root_node s \<Longrightarrow> rep s' t"
  unfolding rep_def using shape_same by auto

lemma child_change_outside:
  assumes "z \<notin> set (ctx_before k) \<union> set (ctx_after k)"
  shows "same_node s (child_change (up k) a b s) z"
proof (cases "k = []")
  case True
  then show ?thesis by (simp add: child_change_def same_node_def)
next
  case False
  then show ?thesis using assms up_in_ctx by (intro child_change_same) auto
qed

lemma shape_color: "shape s q t \<Longrightarrow> t \<noteq> Tip \<Longrightarrow> nd_color s (tree_top t) = color_of t"
  by (cases t) auto

text \<open>A child takes the place of its parent.\<close>

lemma move_up_rep:
  assumes r: "rep s (plug k (Br a x c b))" and t: "t = a \<or> t = b"
    and s1_def: "s1 = (if t = Tip then s else set_parent (tree_top t) (up k) (set_color (tree_top t) e s))"
  shows "rep (child_change (up k) x (tree_top t) s1) (plug k (paint e t))"
    "same_outside (set (nodes (plug k (Br a x c b)))) s (child_change (up k) x (tree_top t) s1)"
proof -
  have d: "distinct (ctx_before k @ nodes a @ x # nodes b @ ctx_after k)" and h: "ctx_hole s k x" and x: "x \<noteq> 0" and sh: "shape s x t"
    using r t by (auto simp: rep_plug)
  have same: "same_node s s1 z" if "t = Tip \<or> z \<noteq> tree_top t" for z
    using that by (auto simp: s1_def same_node_def set_parent_def set_color_def)
  have tops: "t = Tip \<or> tree_top t \<in> set (nodes a) \<union> set (nodes b)" using t top_in_nodes [of t] by auto
  have "shape s1 (up k) (paint e t)"
  proof (rule shape_moved [OF sh])
    show "distinct (nodes t)" using t d by auto
    show "same_node s s1 z" if "z \<in> set (nodes t)" "z \<noteq> tree_top t" for z using that(2) by (intro same) simp
    assume "t \<noteq> Tip"
    then show "nd_parent s1 (tree_top t) = up k \<and> nd_color s1 (tree_top t) = e \<and>
        nd_left s1 (tree_top t) = nd_left s (tree_top t) \<and> nd_right s1 (tree_top t) = nd_right s (tree_top t)"
      by (simp add: s1_def set_parent_def set_color_def)
  qed
  moreover have "ctx_hole s1 k x"
  proof -
    have "\<forall>z \<in> set (ctx_before k) \<union> set (ctx_after k). same_node s s1 z"
      using d tops by (intro ballI same) auto
    moreover have "root_node s1 = root_node s" by (simp add: s1_def set_parent_def set_color_def)
    ultimately show ?thesis using h by (blast intro: hole_same)
  qed
  moreover have "x \<notin> set (ctx_before k) \<union> set (ctx_after k)" "distinct (ctx_before k @ nodes (paint e t) @ ctx_after k)" using d t by auto
  ultimately show "rep (child_change (up k) x (tree_top t) s1) (plug k (paint e t))"
    using child_change_rep [of s1 k "paint e t" x] x by simp
  show "same_outside (set (nodes (plug k (Br a x c b)))) s (child_change (up k) x (tree_top t) s1)"
    unfolding same_outside_def
  proof (intro allI impI)
    fix z assume "z \<notin> set (nodes (plug k (Br a x c b)))"
    then have "z \<notin> set (ctx_before k) \<union> set (ctx_after k)" "t = Tip \<or> z \<noteq> tree_top t" using tops by (auto simp: nodes_plug)
    then show "same_node s (child_change (up k) x (tree_top t) s1) z"
      using same_node_trans [OF same child_change_outside] by blast
  qed
qed

text \<open>A node outside takes the place of a node.\<close>

lemma rb_replace_rep:
  assumes r: "rep s (plug k (Br a x c b))" and y: "y \<noteq> 0" "y \<notin> set (nodes (plug k (Br a x c b)))"
  shows "rep (rb_replace x y s) (plug k (Br a y c b))"
    "same_outside (insert y (set (nodes (plug k (Br a x c b))))) s (rb_replace x y s)"
proof -
  have d: "distinct (ctx_before k @ nodes a @ x # nodes b @ ctx_after k)" and h: "ctx_hole s k x" and x: "x \<noteq> 0"
    and sh: "shape s x a" "shape s x b" using r by (auto simp: rep_plug)
  note at = rep_at [OF r]
  define s1 where "s1 = set_color y c (set_right y (tree_top b) (set_left y (tree_top a) (set_parent y (up k) s)))"
  define s2 where "s2 = (if a \<noteq> Tip then set_parent (tree_top a) y s1 else s1)"
  define s3 where "s3 = (if b \<noteq> Tip then set_parent (tree_top b) y s2 else s2)"
  have yy: "y \<notin> set (ctx_before k) \<union> set (ctx_after k)" "y \<notin> set (nodes a)" "y \<notin> set (nodes b)" "y \<noteq> x"
    using y(2) by (auto simp: nodes_plug)
  have tops: "a = Tip \<or> tree_top a \<in> set (nodes a)" "b = Tip \<or> tree_top b \<in> set (nodes b)" using top_in_nodes by auto
  have tz: "tree_top a = 0 \<longleftrightarrow> a = Tip" "tree_top b = 0 \<longleftrightarrow> b = Tip" using top_zero [OF sh(1)] top_zero [OF sh(2)] by simp_all
  have nx: "tree_top a \<noteq> x" "tree_top b \<noteq> x" using d x tops tz by auto
  have res: "rb_replace x y s = child_change (up k) x y s3"
    using at nx yy(4) unfolding rb_replace_def s3_def s2_def s1_def
    by (simp add: Let_def tz set_color_def set_right_def set_left_def set_parent_def)
  have fields: "root_node s3 = root_node s" "nd_left s3 = (nd_left s)(y := tree_top a)" "nd_right s3 = (nd_right s)(y := tree_top b)"
    "nd_color s3 = (nd_color s)(y := c)"
    "nd_parent s3 = (\<lambda>z. if b \<noteq> Tip \<and> z = tree_top b then y else if a \<noteq> Tip \<and> z = tree_top a then y else if z = y then up k else nd_parent s z)"
    by (auto simp: s3_def s2_def s1_def set_color_def set_right_def set_left_def set_parent_def fun_eq_iff)
  have same: "same_node s s3 z" if "z \<noteq> y" "a = Tip \<or> z \<noteq> tree_top a" "b = Tip \<or> z \<noteq> tree_top b" for z
    using that by (auto simp: same_node_def fields)
  have ab: "tree_top a \<noteq> tree_top b" if "a \<noteq> Tip" "b \<noteq> Tip" using d tops that by auto
  have "shape s3 y (paint (color_of a) a)"
  proof (rule shape_moved [OF sh(1)])
    show "distinct (nodes a)" using d by auto
    show "same_node s s3 z" if "z \<in> set (nodes a)" "z \<noteq> tree_top a" for z
      using that d yy tops by (intro same) auto
    assume a: "a \<noteq> Tip"
    then have "tree_top a \<noteq> y" "nd_color s (tree_top a) = color_of a" using tops yy shape_color [OF sh(1)] by auto
    then show "nd_parent s3 (tree_top a) = y \<and> nd_color s3 (tree_top a) = color_of a \<and>
        nd_left s3 (tree_top a) = nd_left s (tree_top a) \<and> nd_right s3 (tree_top a) = nd_right s (tree_top a)"
      using a by (simp add: fields)
  qed
  moreover have "shape s3 y (paint (color_of b) b)"
  proof (rule shape_moved [OF sh(2)])
    show "distinct (nodes b)" using d by auto
    show "same_node s s3 z" if "z \<in> set (nodes b)" "z \<noteq> tree_top b" for z
      using that d yy tops by (intro same) auto
    assume b: "b \<noteq> Tip"
    then have "tree_top b \<noteq> y" "nd_color s (tree_top b) = color_of b" using tops yy shape_color [OF sh(2)] by auto
    then show "nd_parent s3 (tree_top b) = y \<and> nd_color s3 (tree_top b) = color_of b \<and>
        nd_left s3 (tree_top b) = nd_left s (tree_top b) \<and> nd_right s3 (tree_top b) = nd_right s (tree_top b)"
      using b by (simp add: fields)
  qed
  moreover have "tree_top a \<noteq> y" "tree_top b \<noteq> y" using tops yy y(1) tz by auto
  ultimately have sh': "shape s3 (up k) (Br a y c b)" using y(1) by (auto simp: fields)
  have "\<forall>z \<in> set (ctx_before k) \<union> set (ctx_after k). same_node s s3 z"
    using d yy tops by (intro ballI same) auto
  then have "ctx_hole s3 k x" using h fields(1) by (blast intro: hole_same)
  then show "rep (rb_replace x y s) (plug k (Br a y c b))"
    using child_change_rep [OF sh' _ x] d yy res by auto
  show "same_outside (insert y (set (nodes (plug k (Br a x c b))))) s (rb_replace x y s)"
    unfolding same_outside_def res
  proof (intro allI impI)
    fix z assume "z \<notin> insert y (set (nodes (plug k (Br a x c b))))"
    then have "z \<notin> set (ctx_before k) \<union> set (ctx_after k)" "z \<noteq> y" "a = Tip \<or> z \<noteq> tree_top a" "b = Tip \<or> z \<noteq> tree_top b"
      using tops by (auto simp: nodes_plug)
    then show "same_node s (child_change (up k) x y s3) z"
      using same_node_trans [OF same child_change_outside] by blast
  qed
qed

section \<open>The successor\<close>

lemma plug_append: "plug (j @ k) t = plug k (plug j t)"
  by (induction j t rule: plug.induct) simp_all

lemma before_append: "ctx_before (j @ k) = ctx_before k @ ctx_before j"
  by (induction j rule: ctx_before.induct) simp_all

lemma after_append: "ctx_after (j @ k) = ctx_after j @ ctx_after k"
  by (induction j rule: ctx_after.induct) simp_all

lemma up_append: "up (j @ k) = (if j = [] then up k else up j)"
  by (cases j rule: up.cases) simp_all

lemma left_frame: "ctx_before (f # j) = [] \<Longrightarrow> \<exists>p c w. f = Left_of p c w \<and> ctx_before j = []"
  by (cases f) auto

text \<open>Going down to the left ends at a node without a left child.\<close>

lemma rb_successor_loop_correct:
  assumes "rep s (plug k t)" "t \<noteq> Tip"
  shows "\<exists>j y d b. t = plug j (Br Tip y d b) \<and> ctx_before j = [] \<and>
    rb_successor_loop (up k) (tree_top t) s = Some (up (j @ k), y)"
  using assms
proof (induction t arbitrary: k)
  case (Br l x c r)
  have x: "nd_left s x = tree_top l" using rep_at [OF Br.prems(1)] by simp
  show ?case
  proof (cases "l = Tip")
    case True
    then have "rb_successor_loop (up k) x s = Some (up k, x)"
      using x by (simp add: rb_successor_loop.simps)
    then show ?thesis using True by (intro exI [of _ "[]"] exI [of _ x] exI [of _ c] exI [of _ r]) simp
  next
    case False
    have r: "rep s (plug (Left_of x c r # k) l)" using Br.prems(1) by simp
    then have nz: "tree_top l \<noteq> 0" using rep_top [OF r] False by simp
    obtain j y d b where j: "l = plug j (Br Tip y d b)" "ctx_before j = []"
      "rb_successor_loop x (tree_top l) s = Some (up (j @ Left_of x c r # k), y)"
      using Br.IH(1) [OF r False] by auto
    have "rb_successor_loop (up k) x s = Some (up ((j @ [Left_of x c r]) @ k), y)"
      using j(3) x nz by (subst rb_successor_loop.simps) (simp add: Let_def)
    then show ?thesis using j(1,2)
      by (intro exI [of _ "j @ [Left_of x c r]"] exI [of _ y] exI [of _ d] exI [of _ b])
        (simp add: plug_append before_append)
  qed
qed simp

text \<open>The names of the nodes above do not matter for the balance.\<close>

lemma fits_rename: "fits (j @ Right_of x c l # k) n d \<longleftrightarrow> fits (j @ Right_of y c l # k) n d"
  by (induction j n d rule: fits.induct) auto

section \<open>Removing a node\<close>

text \<open>
  What is left: a tree that lacks a black node at a place below the node where balancing has to
  start, or a balanced one.
\<close>

definition to_balance :: "rb_state \<Rightarrow> nat \<Rightarrow> rb_state \<Rightarrow> nat set \<Rightarrow> nat list \<Rightarrow> bool" where
  "to_balance s rebalance s' A xs \<longleftrightarrow> same_outside A s s' \<and>
     (\<exists>k. rep s' (plug k Tip) \<and> nodes (plug k Tip) = xs \<and> rebalance = up k \<and> fits k 1 RB_BLACK \<or>
       rebalance = 0 \<and> (\<exists>t. rep s' t \<and> rb_inv t \<and> nodes t = xs))"

lemma to_balance_erase:
  assumes "to_balance s rebalance s' A xs" "set xs \<subseteq> A"
  shows "\<exists>s'' t. (if rebalance \<noteq> 0 then rb_erase rebalance s' else Some s') = Some s'' \<and>
    rep s'' t \<and> rb_inv t \<and> nodes t = xs \<and> same_outside A s s''"
proof -
  consider (erase) k where "rep s' (plug k Tip)" "nodes (plug k Tip) = xs" "rebalance = up k" "fits k 1 RB_BLACK"
    | (ready) "rebalance = 0" "\<exists>t. rep s' t \<and> rb_inv t \<and> nodes t = xs"
    using assms(1) unfolding to_balance_def by blast
  then show ?thesis
  proof cases
    case erase
    then obtain s'' where s'': "rb_erase (up k) s' = Some s''" "balanced_as s' s'' xs"
      using rb_erase_correct [of s' k] by (auto simp: nodes_plug)
    have "same_outside A s' s''" "same_outside A s s'"
      using s''(2) assms unfolding balanced_as_def same_outside_def to_balance_def by blast+
    then have "same_outside A s s''" by (blast intro: same_outside_trans)
    moreover have "rb_erase (up k) s' = Some s'" if "up k = 0"
      using that by (simp add: rb_erase_def rb_erase_loop.simps)
    ultimately show ?thesis using s'' erase(3) unfolding balanced_as_def by (cases "up k = 0") auto
  next
    case ready
    then show ?thesis using assms(1) unfolding to_balance_def by auto
  qed
qed

lemma rb_remove_leaf:
  assumes r: "rep s (plug k (Br Tip x c Tip))" and i: "rb_inv (plug k (Br Tip x c Tip))"
  shows "\<exists>rebalance s'. rb_remove x s = Some (rebalance, s') \<and>
    to_balance s rebalance s' (set (nodes (plug k (Br Tip x c Tip)))) (ctx_before k @ ctx_after k)"
proof -
  let ?s' = "child_change (up k) x 0 s"
  have res: "rb_remove x s = Some (if c = RB_BLACK then up k else 0, ?s')"
    using rep_at [OF r] by (simp add: rb_remove_def Let_def)
  have m: "rep ?s' (plug k Tip)" "same_outside (set (nodes (plug k (Br Tip x c Tip)))) s ?s'"
    using move_up_rep [OF r, of Tip s] by simp_all
  have f: "fits k (if c = RB_BLACK then 1 else 0) c" using i by (cases c) (simp_all add: rb_inv_plug)
  have "to_balance s (if c = RB_BLACK then up k else 0) ?s' (set (nodes (plug k (Br Tip x c Tip)))) (ctx_before k @ ctx_after k)"
  proof (cases c)
    case RB_RED
    then have "rb_inv (plug k Tip)" using f by (auto simp: rb_inv_plug intro: fits_black)
    then show ?thesis using m RB_RED unfolding to_balance_def by (auto simp: nodes_plug)
  next
    case RB_BLACK
    then show ?thesis using m f unfolding to_balance_def by (auto simp: nodes_plug)
  qed
  then show ?thesis using res by auto
qed

lemma rb_remove_one:
  assumes r: "rep s (plug k (Br l x c r))" and i: "rb_inv (plug k (Br l x c r))"
    and t: "l = t \<and> r = Tip \<or> l = Tip \<and> r = t" "t \<noteq> Tip"
  shows "\<exists>rebalance s'. rb_remove x s = Some (rebalance, s') \<and>
    to_balance s rebalance s' (set (nodes (plug k (Br l x c r)))) (ctx_before k @ nodes t @ ctx_after k)"
proof -
  define s1 where "s1 = set_parent (tree_top t) (up k) (set_color (tree_top t) c s)"
  let ?s' = "child_change (up k) x (tree_top t) s1"
  have "tree_top t \<noteq> 0" using r t by (auto simp: rep_plug dest: shape_top)
  then have res: "rb_remove x s = Some (0, ?s')"
    using rep_at [OF r] t(1) by (auto simp: rb_remove_def Let_def s1_def)
  have m: "rep ?s' (plug k (paint c t))" "same_outside (set (nodes (plug k (Br l x c r)))) s ?s'"
    using move_up_rep [OF r, of t s1 c] t by (auto simp: s1_def)
  have inv: "invc (Br l x c r)" "invh (Br l x c r)" "fits k (bheight (Br l x c r)) c"
    using i by (simp_all add: rb_inv_plug)
  obtain a y d b where tt: "t = Br a y d b" using t(2) by (cases t) auto
  have "d = RB_RED" "c = RB_BLACK" using inv(1,2) t(1) tt by (cases c; cases d; auto)+
  then have "rb_inv (plug k (paint c t))"
    using inv t(1) tt by (auto simp: rb_inv_plug)
  then have "to_balance s 0 ?s' (set (nodes (plug k (Br l x c r)))) (ctx_before k @ nodes t @ ctx_after k)"
    using m unfolding to_balance_def by (auto simp: nodes_plug)
  then show ?thesis using res by auto
qed

lemma rb_set_fields:
  "root_node (set_parent p v s) = root_node s" "root_node (set_left p v s) = root_node s"
  "root_node (set_right p v s) = root_node s" "root_node (set_color p e s) = root_node s"
  "nd_parent (set_parent p v s) = (nd_parent s)(p := v)" "nd_parent (set_left p v s) = nd_parent s"
  "nd_parent (set_right p v s) = nd_parent s" "nd_parent (set_color p e s) = nd_parent s"
  "nd_left (set_parent p v s) = nd_left s" "nd_left (set_left p v s) = (nd_left s)(p := v)"
  "nd_left (set_right p v s) = nd_left s" "nd_left (set_color p e s) = nd_left s"
  "nd_right (set_parent p v s) = nd_right s" "nd_right (set_left p v s) = nd_right s"
  "nd_right (set_right p v s) = (nd_right s)(p := v)" "nd_right (set_color p e s) = nd_right s"
  "nd_color (set_parent p v s) = nd_color s" "nd_color (set_left p v s) = nd_color s"
  "nd_color (set_right p v s) = nd_color s" "nd_color (set_color p e s) = (nd_color s)(p := e)"
  by (simp_all add: set_parent_def set_left_def set_right_def set_color_def)

lemma child_change_links:
  "root_node (child_change p a b s) = (if p = 0 then b else root_node s)"
  "nd_left (child_change p a b s) = (if p \<noteq> 0 \<and> nd_left s p = a then (nd_left s)(p := b) else nd_left s)"
  "nd_right (child_change p a b s) = (if p \<noteq> 0 \<and> nd_left s p \<noteq> a then (nd_right s)(p := b) else nd_right s)"
  by (simp_all add: child_change_def rb_set_fields)

lemma distinct_outer: "distinct (xs @ ys @ zs) \<Longrightarrow> z \<in> set ys \<Longrightarrow> z \<notin> set xs \<union> set zs"
  by auto

lemma up_ctx: "rep s (plug k t) \<Longrightarrow> up k = 0 \<or> up k \<in> set (ctx_before k) \<union> set (ctx_after k)"
  using up_in_ctx [of k] by (cases "k = []") auto

text \<open>Removing a node with two children is taking out its successor and replacing the node by it.\<close>

lemma remove_two_near:
  assumes r: "rep s (plug k (Br l x c (Br Tip y d b)))" and l: "l \<noteq> Tip"
  defines "m \<equiv> child_change x y (tree_top b)
    (if b = Tip then s else set_parent (tree_top b) x (set_color (tree_top b) RB_BLACK s))"
  shows "\<exists>s'. rb_remove x s = Some (if b = Tip \<and> d = RB_BLACK then y else 0, s') \<and>
    root_node s' = root_node (rb_replace x y m) \<and> (\<forall>z. z \<noteq> x \<longrightarrow> same_node (rb_replace x y m) s' z)"
proof -
  let ?U = "set (ctx_before k) \<union> set (ctx_after k)"
  have R: "rep s (plug (Left_of x c (Br Tip y d b) # k) l)" "rep s (plug (Right_of x c l # k) (Br Tip y d b))"
    "rep s (plug (Right_of y d Tip # Right_of x c l # k) b)" using r by simp_all
  note x = rep_at [OF r] and y = rep_at [OF R(2)] and tl = rep_top [OF R(1)] and tb = rep_top [OF R(3)]
  have d: "distinct (ctx_before k @ nodes l @ x # y # nodes b @ ctx_after k)" using r by (simp add: rep_plug)
  have n: "x \<noteq> y" "tree_top l \<noteq> x" "tree_top l \<noteq> y" "tree_top b \<noteq> x" "tree_top b \<noteq> y" "tree_top l \<noteq> tree_top b"
  proof -
    have ne: "\<forall>z \<in> set (nodes l). z \<noteq> x \<and> z \<noteq> y \<and> z \<notin> set (nodes b)" "\<forall>z \<in> set (nodes b). z \<noteq> x \<and> z \<noteq> y" "x \<noteq> y"
      using d by auto
    have tbz: "b = Tip \<and> tree_top b = 0 \<or> tree_top b \<in> set (nodes b)" using top_in_nodes [of b] by (cases "b = Tip") auto
    show "x \<noteq> y" "tree_top l \<noteq> x" "tree_top l \<noteq> y" using ne top_in_nodes [OF l] by blast+
    show "tree_top b \<noteq> x" "tree_top b \<noteq> y" using ne(2) tbz x(1) y(1) by metis+
    show "tree_top l \<noteq> tree_top b" using ne(1) tbz top_in_nodes [OF l] tl l by metis
  qed
  have q: "up k \<noteq> x" "up k \<noteq> y" "up k \<noteq> tree_top l" "b \<noteq> Tip \<longrightarrow> up k \<noteq> tree_top b"
  proof -
    have "x \<notin> ?U" "y \<notin> ?U" "\<forall>z \<in> set (nodes l). z \<notin> ?U" "\<forall>z \<in> set (nodes b). z \<notin> ?U" using d by auto
    then show "up k \<noteq> x" "up k \<noteq> y" "up k \<noteq> tree_top l" "b \<noteq> Tip \<longrightarrow> up k \<noteq> tree_top b"
      using up_ctx [OF r] top_in_nodes [OF l] top_in_nodes [of b] x(1) y(1) tl l tb by metis+
  qed
  define a where "a = tree_top l"
  define s1 where "s1 = child_change (up k) x y (set_parent a y (set_left y a s))"
  define s2 where "s2 = (if b = Tip then s1 else set_color (tree_top b) RB_BLACK (set_parent (tree_top b) y s1))"
  define s3 where "s3 = set_color y c (set_parent y (up k) s2)"
  have col: "nd_color s1 y = d" "nd_color s2 x = c" "nd_parent (set_parent a y (set_left y a s)) x = up k"
    using x y n q unfolding s2_def s1_def a_def by (simp_all add: rb_set_fields)
  have res: "rb_remove x s = Some (if b = Tip \<and> d = RB_BLACK then y else 0, s3)"
    unfolding rb_remove_def using x y tl tb n l col
    by (cases "b = Tip") (simp_all add: Let_def rb_set_fields s3_def s2_def s1_def a_def [symmetric])
  show ?thesis
  proof (intro exI [of _ s3] conjI allI impI res)
    let ?f = "rb_replace x y m"
    have m0: "m = set_right x (tree_top b) (if b = Tip then s else set_parent (tree_top b) x (set_color (tree_top b) RB_BLACK s))"
      using x(1,3) n(3) by (simp add: m_def child_change_def rb_set_fields)
    have m: "nd_left m x = a" "nd_right m x = tree_top b" "nd_parent m x = up k" "nd_color m x = c"
      "root_node m = root_node s" "nd_left m = nd_left s" "nd_right m = (nd_right s)(x := tree_top b)"
      "nd_parent m = (if b = Tip then nd_parent s else (nd_parent s)(tree_top b := x))"
      "nd_color m = (if b = Tip then nd_color s else (nd_color s)(tree_top b := RB_BLACK))"
      using x(2,3,5) n by (simp_all add: m0 rb_set_fields a_def)
    have f: "?f = child_change (up k) x y ((if b = Tip then id else set_parent (tree_top b) y) (set_parent a y
       (set_color y c (set_right y (tree_top b) (set_left y a (set_parent y (up k) m))))))"
      using m n tl tb l by (simp add: rb_replace_def Let_def rb_set_fields a_def)
    show "root_node s3 = root_node ?f"
      using n by (simp add: f m s3_def s2_def s1_def rb_set_fields child_change_links)
    fix z assume z: "z \<noteq> x"
    show "same_node ?f s3 z" unfolding same_node_def
    proof (intro conjI)
      show "nd_parent s3 z = nd_parent ?f z" "nd_color s3 z = nd_color ?f z"
        using z n by (simp_all add: f s3_def s2_def s1_def rb_set_fields m a_def)
      show "nd_left s3 z = nd_left ?f z" "nd_right s3 z = nd_right ?f z"
        using z n q x(1) y by (simp_all add: f s3_def s2_def s1_def rb_set_fields child_change_links m a_def)
    qed
  qed
qed

lemma rb_successor_correct:
  assumes "rep s (plug k r)" "r \<noteq> Tip"
  shows "\<exists>j y d b. r = plug j (Br Tip y d b) \<and> ctx_before j = [] \<and> (j = [] \<longrightarrow> nd_left s (tree_top r) = 0) \<and>
    (j \<noteq> [] \<longrightarrow> nd_left s (tree_top r) \<noteq> 0 \<and>
      rb_successor_loop (tree_top r) (nd_left s (tree_top r)) s = Some (up j, y))"
proof -
  obtain l x c w where x: "r = Br l x c w" using assms(2) by (cases r) auto
  have at: "nd_left s x = tree_top l" using rep_at [of s k] assms(1) x by simp
  show ?thesis
  proof (cases "l = Tip")
    case True
    then show ?thesis using x at
      by (intro exI [of _ "[]"] exI [of _ x] exI [of _ c] exI [of _ w]) simp
  next
    case False
    have l: "rep s (plug (Left_of x c w # k) l)" using assms(1) x by simp
    obtain j y d b where j: "l = plug j (Br Tip y d b)" "ctx_before j = []"
      "rb_successor_loop x (tree_top l) s = Some (up (j @ Left_of x c w # k), y)"
      using rb_successor_loop_correct [OF l False] by auto
    moreover have "up (j @ Left_of x c w # k) = up (j @ [Left_of x c w])" by (simp add: up_append)
    ultimately show ?thesis using x at rep_top [OF l] False
      by (intro exI [of _ "j @ [Left_of x c w]"] exI [of _ y] exI [of _ d] exI [of _ b])
        (simp add: plug_append before_append)
  qed
qed

lemma top_plug: "j \<noteq> [] \<Longrightarrow> tree_top (plug j t) \<in> set (ctx_before j) \<union> set (ctx_after j)"
proof (induction j t rule: plug.induct)
  case (2 x c r k t)
  then show ?case by (cases "k = []") auto
next
  case (3 x c l k t)
  then show ?case by (cases "k = []") auto
qed simp

lemma plug_Tip: "plug j t = Tip \<Longrightarrow> j = [] \<and> t = Tip"
  by (induction j t rule: plug.induct) simp_all

lemma remove_two_far:
  assumes r: "rep s (plug k (Br l x c (plug j (Br Tip y d b))))" and l: "l \<noteq> Tip" and j: "ctx_before j = []" "j \<noteq> []"
    and h: "nd_left s (tree_top (plug j (Br Tip y d b))) \<noteq> 0"
      "rb_successor_loop (tree_top (plug j (Br Tip y d b))) (nd_left s (tree_top (plug j (Br Tip y d b)))) s = Some (up j, y)"
  defines "m \<equiv> child_change (up j) y (tree_top b)
    (if b = Tip then s else set_parent (tree_top b) (up j) (set_color (tree_top b) RB_BLACK s))"
  shows "\<exists>s'. rb_remove x s = Some (if b = Tip \<and> d = RB_BLACK then up j else 0, s') \<and>
    root_node s' = root_node (rb_replace x y m) \<and> (\<forall>z. z \<noteq> x \<longrightarrow> same_node (rb_replace x y m) s' z)"
proof -
  let ?U = "set (ctx_before k) \<union> set (ctx_after k)"
  let ?r = "plug j (Br Tip y d b)"
  let ?k = "j @ Right_of x c l # k"
  define p where "p = up j"
  define h' where "h' = tree_top ?r"
  obtain f j' where jf: "j = f # j'" using j(2) by (cases j) auto
  then obtain cp w where fp: "f = Left_of p cp w" "ctx_before j' = []"
    using j(1) left_frame [of f j'] by (auto simp: p_def)
  have R: "rep s (plug (Left_of x c ?r # k) l)" "rep s (plug (Right_of x c l # k) ?r)" "rep s (plug ?k (Br Tip y d b))"
    "rep s (plug (Right_of y d Tip # ?k) b)" "rep s (plug (j' @ Right_of x c l # k) (Br (Br Tip y d b) p cp w))"
    using r jf fp by (simp_all add: plug_append)
  note x = rep_at [OF r] and y = rep_at [OF R(3)] and tl = rep_top [OF R(1)] and tb = rep_top [OF R(4)]
    and p = rep_at [OF R(5)]
  have nr: "nodes ?r = y # nodes b @ p # nodes w @ ctx_after j'"
    using fp jf by (simp add: nodes_plug)
  have d: "distinct (ctx_before k @ nodes l @ x # y # nodes b @ p # nodes w @ ctx_after j' @ ctx_after k)"
    using r nr by (simp add: rep_plug)
  have hy: "h' \<in> set (p # nodes w @ ctx_after j')"
    using top_plug [of j "Br Tip y d b"] j fp jf by (simp add: h'_def)
  have hs: "nd_left s h' \<noteq> 0" "rb_successor_loop h' (nd_left s h') s = Some (p, y)" "h' \<noteq> 0" "nd_right s x = h'"
    using h x(4) rep_top [OF R(2)] j(2) by (auto simp: h'_def p_def dest: plug_Tip)
  have n: "x \<noteq> y" "tree_top l \<noteq> x" "tree_top l \<noteq> y" "tree_top b \<noteq> x" "tree_top b \<noteq> y" "tree_top l \<noteq> tree_top b"
    "p \<noteq> x" "p \<noteq> y" "p \<noteq> tree_top l" "p \<noteq> tree_top b" "h' \<noteq> x" "h' \<noteq> y" "h' \<noteq> tree_top l" "h' \<noteq> tree_top b"
  proof -
    have ne: "\<forall>z \<in> set (nodes l). z \<noteq> x \<and> z \<noteq> y \<and> z \<noteq> p \<and> z \<noteq> h' \<and> z \<notin> set (nodes b)"
      "\<forall>z \<in> set (nodes b). z \<noteq> x \<and> z \<noteq> y \<and> z \<noteq> p \<and> z \<noteq> h'"
      "x \<noteq> y" "p \<noteq> x" "p \<noteq> y" "h' \<noteq> x" "h' \<noteq> y" using d hy by auto
    then show "x \<noteq> y" "p \<noteq> x" "p \<noteq> y" "h' \<noteq> x" "h' \<noteq> y" by blast+
    have tbz: "b = Tip \<and> tree_top b = 0 \<or> tree_top b \<in> set (nodes b)" using top_in_nodes [of b] by (cases "b = Tip") auto
    show "tree_top l \<noteq> x" "tree_top l \<noteq> y" "p \<noteq> tree_top l" "h' \<noteq> tree_top l"
      using ne(1) top_in_nodes [OF l] by blast+
    show "tree_top b \<noteq> x" "tree_top b \<noteq> y" "p \<noteq> tree_top b" "h' \<noteq> tree_top b"
      using ne(2) tbz x(1) y(1) p(1) hs(3) by metis+
    show "tree_top l \<noteq> tree_top b" using ne(1) tbz top_in_nodes [OF l] tl l by metis
  qed
  have q: "up k \<noteq> x" "up k \<noteq> y" "up k \<noteq> tree_top l" "b \<noteq> Tip \<longrightarrow> up k \<noteq> tree_top b" "up k \<noteq> p" "up k \<noteq> h'"
  proof -
    have "x \<notin> ?U" "y \<notin> ?U" "\<forall>z \<in> set (nodes l). z \<notin> ?U" "\<forall>z \<in> set (nodes b). z \<notin> ?U" "p \<notin> ?U" "h' \<notin> ?U"
      proof -
        have "z \<notin> ?U" if "z \<in> set (nodes l @ x # y # nodes b @ p # nodes w @ ctx_after j')" for z
          using distinct_outer [of "ctx_before k" _ "ctx_after k", OF _ that] d by simp
        then show "x \<notin> ?U" "y \<notin> ?U" "\<forall>z \<in> set (nodes l). z \<notin> ?U" "\<forall>z \<in> set (nodes b). z \<notin> ?U" "p \<notin> ?U" "h' \<notin> ?U"
          using hy by auto
      qed
    then show "up k \<noteq> x" "up k \<noteq> y" "up k \<noteq> tree_top l" "b \<noteq> Tip \<longrightarrow> up k \<noteq> tree_top b" "up k \<noteq> p" "up k \<noteq> h'"
      using up_ctx [OF r] top_in_nodes [OF l] top_in_nodes [of b] x(1) y(1) p(1) hs(3) tl l tb by metis+
  qed
  define a where "a = tree_top l"
  define s0 where "s0 = set_parent h' y (set_right y h' (set_left p (tree_top b) s))"
  define s1 where "s1 = child_change (up k) x y (set_parent a y (set_left y a s0))"
  define s2 where "s2 = (if b = Tip then s1 else set_color (tree_top b) RB_BLACK (set_parent (tree_top b) p s1))"
  define s3 where "s3 = set_color y c (set_parent y (up k) s2)"
  have yp: "nd_parent s y = p" using y(2) j(2) by (simp add: up_append p_def)
  have col: "nd_color s1 y = d" "nd_color s2 x = c" "nd_parent (set_parent a y (set_left y a s0)) x = up k"
    "nd_right s y = tree_top b" "nd_left s0 x = a"
    using x y n q unfolding s2_def s1_def s0_def a_def by (simp_all add: rb_set_fields)
  have res: "rb_remove x s = Some (if b = Tip \<and> d = RB_BLACK then p else 0, s3)"
  proof -
    have e: "nd_left s x = a" "nd_right s x = h'" "nd_parent s x = up k" "nd_color s x = c" "a \<noteq> 0" "h' \<noteq> 0"
      "nd_left s h' \<noteq> 0" "rb_successor_loop h' (nd_left s h') s = Some (p, y)" "nd_right s y = tree_top b"
      "tree_top b = 0 \<longleftrightarrow> b = Tip"
      using x hs y tl tb l by (simp_all add: a_def)
    show ?thesis
      using n [folded a_def] col by (simp add: rb_remove_def e Let_def rb_set_fields s3_def s2_def s1_def s0_def)
  qed
  have "\<exists>s'. rb_remove x s = Some (if b = Tip \<and> d = RB_BLACK then p else 0, s') \<and>
    root_node s' = root_node (rb_replace x y m) \<and> (\<forall>z. z \<noteq> x \<longrightarrow> same_node (rb_replace x y m) s' z)"
  proof (intro exI [of _ s3] conjI allI impI res)
    let ?f = "rb_replace x y m"
    have m0: "m = set_left p (tree_top b) (if b = Tip then s else set_parent (tree_top b) p (set_color (tree_top b) RB_BLACK s))"
      using p(1,3) by (simp add: m_def child_change_def rb_set_fields p_def [symmetric])
    have m: "nd_left m x = a" "nd_right m x = h'" "nd_parent m x = up k" "nd_color m x = c"
      "root_node m = root_node s" "nd_left m = (nd_left s)(p := tree_top b)" "nd_right m = nd_right s"
      "nd_parent m = (if b = Tip then nd_parent s else (nd_parent s)(tree_top b := p))"
      "nd_color m = (if b = Tip then nd_color s else (nd_color s)(tree_top b := RB_BLACK))"
      using x(2,3,5) n hs(4) by (simp_all add: m0 rb_set_fields a_def)
    have f: "?f = child_change (up k) x y (set_parent h' y (set_parent a y
       (set_color y c (set_right y h' (set_left y a (set_parent y (up k) m))))))"
      using m n tl tb l hs by (simp add: rb_replace_def Let_def rb_set_fields a_def)
    show "root_node s3 = root_node ?f"
      using n by (simp add: f m s3_def s2_def s1_def s0_def rb_set_fields child_change_links)
    fix z assume z: "z \<noteq> x"
    show "same_node ?f s3 z" unfolding same_node_def
    proof (intro conjI)
      show "nd_parent s3 z = nd_parent ?f z" "nd_color s3 z = nd_color ?f z"
        using z n by (simp_all add: f s3_def s2_def s1_def s0_def rb_set_fields m a_def)
      show "nd_left s3 z = nd_left ?f z" "nd_right s3 z = nd_right ?f z"
        using z n q x(1) y p(1) by (simp_all add: f s3_def s2_def s1_def s0_def rb_set_fields child_change_links m a_def)
    qed
  qed
  then show ?thesis unfolding p_def .
qed

lemma same_outside_mono: "same_outside A s s' \<Longrightarrow> A \<subseteq> B \<Longrightarrow> same_outside B s s'"
  by (auto simp: same_outside_def)

lemma to_balance_gap:
  assumes "rep s' (plug k (paint RB_BLACK b))" "same_outside A s s'"
    and i: "invc (Br Tip y d b)" "invh (Br Tip y d b)" "fits k (bheight (Br Tip y d b)) d"
  shows "to_balance s (if b = Tip \<and> d = RB_BLACK then up k else 0) s' A (ctx_before k @ nodes b @ ctx_after k)"
proof (cases "b = Tip \<and> d = RB_BLACK")
  case True
  then show ?thesis using assms unfolding to_balance_def by (auto simp: nodes_plug)
next
  case False
  have "rb_inv (plug k (paint RB_BLACK b))"
  proof (cases "b = Tip")
    case True
    then show ?thesis using i(3) False by (auto simp: rb_inv_plug dest: fits_black)
  next
    case b: False
    then obtain u z e w where "b = Br u z e w" by (cases b) auto
    then show ?thesis using i by (cases d; cases e) (auto simp: rb_inv_plug)
  qed
  then show ?thesis using False assms(1,2) unfolding to_balance_def by (auto simp: nodes_plug)
qed

lemma rb_remove_two:
  assumes r: "rep s (plug k (Br l x c w))" and i: "rb_inv (plug k (Br l x c w))" and lw: "l \<noteq> Tip" "w \<noteq> Tip"
  shows "\<exists>rebalance s'. rb_remove x s = Some (rebalance, s') \<and>
    to_balance s rebalance s' (set (nodes (plug k (Br l x c w)))) (ctx_before k @ nodes l @ nodes w @ ctx_after k)"
proof -
  have rw: "rep s (plug (Right_of x c l # k) w)" using r by simp
  obtain j y d b where w: "w = plug j (Br Tip y d b)" and j: "ctx_before j = []" "j = [] \<longrightarrow> nd_left s (tree_top w) = 0"
    "j \<noteq> [] \<longrightarrow> nd_left s (tree_top w) \<noteq> 0 \<and> rb_successor_loop (tree_top w) (nd_left s (tree_top w)) s = Some (up j, y)"
    using rb_successor_correct [OF rw lw(2)] by blast
  let ?K = "j @ Right_of x c l # k" and ?K' = "j @ Right_of y c l # k" and ?A = "set (nodes (plug k (Br l x c w)))"
  define m where "m = child_change (up ?K) y (tree_top b)
    (if b = Tip then s else set_parent (tree_top b) (up ?K) (set_color (tree_top b) RB_BLACK s))"
  have nw: "nodes w = y # nodes b @ ctx_after j" by (simp add: w nodes_plug j(1))
  have rK: "rep s (plug ?K (Br Tip y d b))" using r by (simp add: w plug_append)
  have A: "nodes (plug ?K (Br Tip y d b)) = nodes (plug k (Br l x c w))" by (simp add: w plug_append)
  have "rep m (plug ?K (paint RB_BLACK b))" and sm: "same_outside ?A s m"
    using move_up_rep [OF rK, of b _ RB_BLACK] A by (simp_all add: m_def)
  then have m: "rep m (plug k (Br l x c (plug j (paint RB_BLACK b))))" by (simp add: plug_append)
  have d: "distinct (ctx_before k @ nodes l @ x # (y # nodes b @ ctx_after j) @ ctx_after k)" and y: "y \<noteq> 0"
    using r rep_at [OF rK] by (simp_all add: rep_plug w nodes_plug j(1))
  have Aset: "?A = set (ctx_before k) \<union> set (nodes l) \<union> {x, y} \<union> set (nodes b) \<union> set (ctx_after j) \<union> set (ctx_after k)"
    using nw by (auto simp: nodes_plug)
  let ?f = "rb_replace x y m"
  have f: "rep ?f (plug k (Br l y c (plug j (paint RB_BLACK b))))"
    "same_outside (insert y (set (nodes (plug k (Br l x c (plug j (paint RB_BLACK b))))))) m ?f"
    using rb_replace_rep [OF m y] d by (auto simp: nodes_plug j(1))
  have "same_outside ?A m ?f"
    by (rule same_outside_mono [OF f(2)]) (auto simp: nw nodes_plug j(1))
  then have sf: "same_outside ?A s ?f" using sm by (blast intro: same_outside_trans)
  obtain s' where s': "rb_remove x s = Some (if b = Tip \<and> d = RB_BLACK then up ?K' else 0, s')"
    "root_node s' = root_node ?f" "\<forall>z. z \<noteq> x \<longrightarrow> same_node ?f s' z"
  proof (cases "j = []")
    case True
    then have K: "up ?K = x" "up ?K' = y" by simp_all
    have "rep s (plug k (Br l x c (Br Tip y d b)))" using r w True by simp
    from remove_two_near [OF this lw(1)] show thesis using that unfolding m_def K by blast
  next
    case False
    then have K: "up ?K = up j" "up ?K' = up j" by (simp_all add: up_append)
    have h: "nd_left s (tree_top (plug j (Br Tip y d b))) \<noteq> 0"
      "rb_successor_loop (tree_top (plug j (Br Tip y d b))) (nd_left s (tree_top (plug j (Br Tip y d b)))) s = Some (up j, y)"
      using j(3) False w by blast+
    from remove_two_far [OF r [unfolded w] lw(1) j(1) False h] show thesis using that unfolding m_def K by blast
  qed
  have "rep s' (plug ?K' (paint RB_BLACK b))"
  proof -
    have "x \<notin> set (nodes (plug k (Br l y c (plug j (paint RB_BLACK b)))))" using d by (auto simp: nodes_plug j(1))
    then have "\<forall>z \<in> set (nodes (plug k (Br l y c (plug j (paint RB_BLACK b))))). same_node ?f s' z"
      using s'(3) by metis
    then show ?thesis using rep_same [OF f(1) _ s'(2)] by (simp add: plug_append)
  qed
  moreover have "same_outside ?A s s'"
  proof -
    have "x \<in> ?A" by (simp add: Aset)
    then have "same_outside ?A ?f s'" using s'(3) unfolding same_outside_def by metis
    then show ?thesis using sf by (blast intro: same_outside_trans)
  qed
  moreover have "invc (Br Tip y d b)" "invh (Br Tip y d b)" "fits ?K' (bheight (Br Tip y d b)) d"
  proof -
    have "plug k (Br l x c w) = plug ?K (Br Tip y d b)" by (simp add: w plug_append)
    then have "rb_inv (plug ?K (Br Tip y d b))" using i by simp
    then show "invc (Br Tip y d b)" "invh (Br Tip y d b)" "fits ?K' (bheight (Br Tip y d b)) d"
      unfolding rb_inv_plug fits_rename [of j x c l k _ _ y] by simp_all
  qed
  ultimately have "to_balance s (if b = Tip \<and> d = RB_BLACK then up ?K' else 0) s' ?A (ctx_before ?K' @ nodes b @ ctx_after ?K')"
    by (rule to_balance_gap)
  then show ?thesis using s'(1) by (auto simp: before_append after_append w nodes_plug j(1))
qed

lemma rb_remove_correct:
  assumes r: "rep s (plug k (Br l x c w))" and i: "rb_inv (plug k (Br l x c w))"
  shows "\<exists>rebalance s'. rb_remove x s = Some (rebalance, s') \<and>
    to_balance s rebalance s' (set (nodes (plug k (Br l x c w)))) (ctx_before k @ nodes l @ nodes w @ ctx_after k)"
proof -
  consider "l = Tip" "w = Tip" | "l \<noteq> Tip" "w = Tip" | "l = Tip" "w \<noteq> Tip" | "l \<noteq> Tip" "w \<noteq> Tip" by blast
  then show ?thesis
  proof cases
    case 1
    then show ?thesis using rb_remove_leaf r i by auto
  next
    case 2
    then show ?thesis using rb_remove_one [OF r i, of l] by simp
  next
    case 3
    then show ?thesis using rb_remove_one [OF r i, of w] by simp
  next
    case 4
    then show ?thesis using rb_remove_two [OF r i] by simp
  qed
qed

text \<open>Every node of a tree is at a place of it.\<close>

lemma node_place: "x \<in> set (nodes t) \<Longrightarrow> \<exists>k l c w. t = plug k (Br l x c w)"
proof (induction t)
  case (Br l y c w)
  consider "x = y" | "x \<in> set (nodes l)" | "x \<in> set (nodes w)" using Br.prems by auto
  then show ?case
  proof cases
    case 1
    then show ?thesis by (intro exI [of _ "[]"]) auto
  next
    case 2
    then obtain k l' d w' where "l = plug k (Br l' x d w')" using Br.IH(1) by blast
    then have "Br l y c w = plug (k @ [Left_of y c w]) (Br l' x d w')" by (simp add: plug_append)
    then show ?thesis by blast
  next
    case 3
    then obtain k l' d w' where "w = plug k (Br l' x d w')" using Br.IH(2) by blast
    then have "Br l y c w = plug (k @ [Right_of y c l]) (Br l' x d w')" by (simp add: plug_append)
    then show ?thesis by blast
  qed
qed simp

theorem rb_delete_spec:
  assumes r: "rep s t" and i: "rb_inv t" and x: "x \<in> set (nodes t)"
  shows "\<exists>s' t'. rb_delete q1 q2 q3 x s = Some s' \<and> rep s' t' \<and> rb_inv t' \<and> nodes t' = remove1 x (nodes t) \<and>
    same_outside (set (nodes t)) s s' \<and> nd_left s' x = q1 \<and> nd_right s' x = q2 \<and> nd_parent s' x = q3"
proof -
  obtain k l c w where t: "t = plug k (Br l x c w)" using node_place [OF x] by blast
  let ?xs = "ctx_before k @ nodes l @ nodes w @ ctx_after k"
  have d: "distinct (ctx_before k @ nodes l @ x # nodes w @ ctx_after k)" using r by (simp add: t rep_plug)
  obtain q s1 where s1: "rb_remove x s = Some (q, s1)" "to_balance s q s1 (set (nodes t)) ?xs"
    using rb_remove_correct r i unfolding t by blast
  have "set ?xs \<subseteq> set (nodes t)" by (auto simp: t nodes_plug)
  from to_balance_erase [OF s1(2) this] obtain s2 t' where
    s2: "(if q \<noteq> 0 then rb_erase q s1 else Some s1) = Some s2" "rep s2 t'" "rb_inv t'" "nodes t' = ?xs"
      "same_outside (set (nodes t)) s s2" by blast
  let ?s' = "set_parent x q3 (set_right x q2 (set_left x q1 s2))"
  have same: "same_node s2 ?s' z" if "z \<noteq> x" for z
    using that by (simp add: same_node_def rb_set_fields)
  have nx: "x \<notin> set (nodes t')" using s2(4) d by auto
  have "\<forall>z \<in> set (nodes t'). same_node s2 ?s' z"
  proof
    fix z assume "z \<in> set (nodes t')"
    then show "same_node s2 ?s' z" using nx by (intro same) blast
  qed
  then have "rep ?s' t'" by (rule rep_same [OF s2(2)]) (simp add: rb_set_fields)
  moreover have "same_outside (set (nodes t)) s ?s'"
    unfolding same_outside_def
  proof (intro allI impI)
    fix z assume z: "z \<notin> set (nodes t)"
    then have "same_node s s2 z" "z \<noteq> x" using s2(5) x by (auto simp: same_outside_def)
    then show "same_node s ?s' z" using same by (blast intro: same_node_trans)
  qed
  moreover have "remove1 x (nodes t) = ?xs" using d by (simp add: t nodes_plug remove1_append)
  moreover have "rb_delete q1 q2 q3 x s = Some ?s'"
    unfolding rb_delete_def using s1(1) s2(1) by simp
  ultimately show ?thesis using s2(3,4) by (auto simp: rb_set_fields)
qed

end
