(* ===== verification/Rbtree_Iter.thy ===== *)
theory Rbtree_Iter
  imports Rbtree_Remove
begin

text \<open>
  Going through and searching red-black trees: the iterators of \<^verbatim>\<open>include/titer.h\<close> as
  \<^verbatim>\<open>lib/rbtree.c\<close> instantiates them, \<^verbatim>\<open>rb_find\<close>, the trees with a cached first node, the order
  a comparison gives, and the bound of the height.
\<close>

section \<open>The iterators\<close>

partial_function (option) rb_left_far :: "nat \<Rightarrow> rb_state \<Rightarrow> nat option" where
  "rb_left_far node s = (if nd_left s node \<noteq> 0 then rb_left_far (nd_left s node) s else Some node)"

partial_function (option) rb_right_far :: "nat \<Rightarrow> rb_state \<Rightarrow> nat option" where
  "rb_right_far node s = (if nd_right s node \<noteq> 0 then rb_right_far (nd_right s node) s else Some node)"

partial_function (option) rb_left_deep :: "nat \<Rightarrow> rb_state \<Rightarrow> nat option" where
  "rb_left_deep node s =
     (if node \<noteq> 0 then
        if nd_left s node \<noteq> 0 then rb_left_deep (nd_left s node) s
        else if nd_right s node \<noteq> 0 then rb_left_deep (nd_right s node) s
        else Some node
      else Some 0)"

definition rb_first :: "rb_state \<Rightarrow> nat option" where
  "rb_first s = (if root_node s = 0 then Some 0 else rb_left_far (root_node s) s)"

definition rb_last :: "rb_state \<Rightarrow> nat option" where
  "rb_last s = (if root_node s = 0 then Some 0 else rb_right_far (root_node s) s)"

partial_function (option) rb_prev_loop :: "nat \<Rightarrow> rb_state \<Rightarrow> nat option" where
  "rb_prev_loop node s =
     (let parent = nd_parent s node in
      if parent \<noteq> 0 \<and> node \<noteq> nd_right s parent then rb_prev_loop parent s else Some parent)"

definition rb_prev :: "nat \<Rightarrow> rb_state \<Rightarrow> nat option" where
  "rb_prev node s =
     (if node = 0 then Some 0
      else if nd_left s node \<noteq> 0 then rb_right_far (nd_left s node) s
      else rb_prev_loop node s)"

partial_function (option) rb_next_loop :: "nat \<Rightarrow> rb_state \<Rightarrow> nat option" where
  "rb_next_loop node s =
     (let parent = nd_parent s node in
      if parent \<noteq> 0 \<and> node \<noteq> nd_left s parent then rb_next_loop parent s else Some parent)"

definition rb_next :: "nat \<Rightarrow> rb_state \<Rightarrow> nat option" where
  "rb_next node s =
     (if node = 0 then Some 0
      else if nd_right s node \<noteq> 0 then rb_left_far (nd_right s node) s
      else rb_next_loop node s)"

definition rb_pre_first :: "rb_state \<Rightarrow> nat" where
  "rb_pre_first s = root_node s"

partial_function (option) rb_pre_next_loop :: "nat \<Rightarrow> rb_state \<Rightarrow> nat option" where
  "rb_pre_next_loop node s =
     (let parent = nd_parent s node in
      if parent \<noteq> 0 \<and> (nd_right s parent = 0 \<or> node = nd_right s parent) then rb_pre_next_loop parent s
      else Some (if parent \<noteq> 0 then nd_right s parent else 0))"

definition rb_pre_next :: "nat \<Rightarrow> rb_state \<Rightarrow> nat option" where
  "rb_pre_next node s =
     (if node = 0 then Some 0
      else if nd_left s node \<noteq> 0 then Some (nd_left s node)
      else if nd_right s node \<noteq> 0 then Some (nd_right s node)
      else rb_pre_next_loop node s)"

definition rb_post_first :: "rb_state \<Rightarrow> nat option" where
  "rb_post_first s = (if root_node s = 0 then Some 0 else rb_left_deep (root_node s) s)"

definition rb_post_next :: "nat \<Rightarrow> rb_state \<Rightarrow> nat option" where
  "rb_post_next node s =
     (if node = 0 then Some 0
      else let parent = nd_parent s node in
        if parent \<noteq> 0 \<and> node = nd_left s parent \<and> nd_right s parent \<noteq> 0
        then rb_left_deep (nd_right s parent) s
        else Some parent)"

text \<open>The first of a list of nodes, or the null pointer.\<close>

definition head0 :: "nat list \<Rightarrow> nat" where
  "head0 xs = (case xs of [] \<Rightarrow> 0 | x # _ \<Rightarrow> x)"

definition last0 :: "nat list \<Rightarrow> nat" where
  "last0 xs = (if xs = [] then 0 else last xs)"

lemma head0_simps [simp]: "head0 [] = 0" "head0 (x # xs) = x" "head0 (xs @ ys) = (if xs = [] then head0 ys else head0 xs)"
  by (simp_all add: head0_def split: list.split)

lemma last0_simps [simp]: "last0 [] = 0" "last0 (xs @ [x]) = x" "last0 (xs @ ys) = (if ys = [] then last0 xs else last0 ys)"
  by (simp_all add: last0_def)

lemma nodes_Nil [simp]: "nodes t = [] \<longleftrightarrow> t = Tip"
  by (cases t) simp_all

section \<open>In order\<close>

lemma rb_left_far_correct:
  "rep s (plug k t) \<Longrightarrow> t \<noteq> Tip \<Longrightarrow> rb_left_far (tree_top t) s = Some (head0 (nodes t))"
proof (induction t arbitrary: k)
  case (Br l x c r)
  have l: "rep s (plug (Left_of x c r # k) l)" using Br.prems(1) by simp
  show ?case
    using Br.IH(1) [OF l] rep_at(3) [OF Br.prems(1)] rep_top [OF l]
    by (cases "l = Tip") (simp_all add: rb_left_far.simps [of x])
qed simp

lemma rb_right_far_correct:
  "rep s (plug k t) \<Longrightarrow> t \<noteq> Tip \<Longrightarrow> rb_right_far (tree_top t) s = Some (last0 (nodes t))"
proof (induction t arbitrary: k)
  case (Br l x c r)
  have r: "rep s (plug (Right_of x c l # k) r)" using Br.prems(1) by simp
  show ?case
    using Br.IH(2) [OF r] rep_at(4) [OF Br.prems(1)] rep_top [OF r]
    by (cases "r = Tip") (simp_all add: rb_right_far.simps [of x] last0_def)
qed simp

text \<open>The nodes next to a place.\<close>

lemma rep_sides:
  assumes "rep s (plug (f # k) t)" "t \<noteq> Tip"
  shows "nd_parent s (tree_top t) = fr_node f" "fr_node f \<noteq> 0" "tree_top (fr_sibling f) \<noteq> tree_top t"
    "nd_left s (fr_node f) = (case f of Left_of _ _ _ \<Rightarrow> tree_top t | Right_of _ _ _ \<Rightarrow> tree_top (fr_sibling f))"
    "nd_right s (fr_node f) = (case f of Left_of _ _ _ \<Rightarrow> tree_top (fr_sibling f) | Right_of _ _ _ \<Rightarrow> tree_top t)"
    "tree_top (fr_sibling f) = 0 \<longleftrightarrow> fr_sibling f = Tip"
    "rep s (plug k (plug [f] t))"
proof -
  obtain l x c r where t: "t = Br l x c r" using assms(2) by (cases t) auto
  show "nd_parent s (tree_top t) = fr_node f"
    using rep_at [of s "f # k" l x c r] assms(1) t by (simp add: up_Cons)
  show "fr_node f \<noteq> 0" using rep_frame [OF assms(1)] by simp
  have "tree_top t \<in> set (nodes t)" "x \<noteq> 0" using top_in_nodes [OF assms(2)] rep_at(1) [of s "f # k" l x c r] assms(1) t by auto
  then show "tree_top (fr_sibling f) \<noteq> tree_top t"
    using rep_distinct [OF assms(1)] top_in_nodes [of "fr_sibling f"] t
    by (cases f; cases "fr_sibling f = Tip") (auto simp: nodes_plug)
  show "nd_left s (fr_node f) = (case f of Left_of _ _ _ \<Rightarrow> tree_top t | Right_of _ _ _ \<Rightarrow> tree_top (fr_sibling f))"
    "nd_right s (fr_node f) = (case f of Left_of _ _ _ \<Rightarrow> tree_top (fr_sibling f) | Right_of _ _ _ \<Rightarrow> tree_top t)"
    "rep s (plug k (plug [f] t))"
    using rep_at(3,4) [of s k] assms(1) by (cases f; simp)+
  show "tree_top (fr_sibling f) = 0 \<longleftrightarrow> fr_sibling f = Tip"
  proof (cases f)
    case (Left_of p c u)
    then show ?thesis using rep_top [of s "Right_of p c t # k" u] assms(1) by simp
  next
    case (Right_of p c u)
    then show ?thesis using rep_top [of s "Left_of p c t # k" u] assms(1) by simp
  qed
qed

lemma rep_root_parent: "rep s t \<Longrightarrow> t \<noteq> Tip \<Longrightarrow> nd_parent s (tree_top t) = 0"
  by (cases t) (auto simp: rep_def)

lemma plug_one: "t \<noteq> Tip \<Longrightarrow> plug [f] t \<noteq> Tip \<and> tree_top (plug [f] t) = fr_node f"
  by (cases f) simp_all

lemma rb_next_loop_correct:
  "rep s (plug k t) \<Longrightarrow> t \<noteq> Tip \<Longrightarrow> rb_next_loop (tree_top t) s = Some (head0 (ctx_after k))"
proof (induction k arbitrary: t)
  case Nil
  then show ?case using rep_root_parent by (simp add: rb_next_loop.simps [of "tree_top t"])
next
  case (Cons f k)
  note sides = rep_sides [OF Cons.prems]
  show ?case
    using Cons.IH [OF sides(7)] plug_one [OF Cons.prems(2), of f] sides(1-6)
    by (cases f) (simp_all add: rb_next_loop.simps [of "tree_top t"])
qed

lemma rb_prev_loop_correct:
  "rep s (plug k t) \<Longrightarrow> t \<noteq> Tip \<Longrightarrow> rb_prev_loop (tree_top t) s = Some (last0 (ctx_before k))"
proof (induction k arbitrary: t)
  case Nil
  then show ?case using rep_root_parent by (simp add: rb_prev_loop.simps [of "tree_top t"])
next
  case (Cons f k)
  note sides = rep_sides [OF Cons.prems]
  show ?case
    using Cons.IH [OF sides(7)] plug_one [OF Cons.prems(2), of f] sides(1-6)
    by (cases f) (simp_all add: rb_prev_loop.simps [of "tree_top t"] last0_def)
qed

lemma rb_next_correct:
  assumes "rep s (plug k (Br l x c r))"
  shows "rb_next x s = Some (head0 (nodes r @ ctx_after k))"
proof -
  have r: "rep s (plug (Right_of x c l # k) r)" using assms by simp
  show ?thesis
    using rep_at [OF assms] rep_top [OF r] rb_left_far_correct [OF r] rb_next_loop_correct [OF assms]
    by (cases "r = Tip") (simp_all add: rb_next_def)
qed

lemma rb_prev_correct:
  assumes "rep s (plug k (Br l x c r))"
  shows "rb_prev x s = Some (last0 (ctx_before k @ nodes l))"
proof -
  have l: "rep s (plug (Left_of x c r # k) l)" using assms by simp
  show ?thesis
    using rep_at [OF assms] rep_top [OF l] rb_right_far_correct [OF l] rb_prev_loop_correct [OF assms]
    by (cases "l = Tip") (simp_all add: rb_prev_def)
qed

section \<open>Preorder and postorder\<close>

fun pre_nodes :: "rbt \<Rightarrow> nat list" where
  "pre_nodes Tip = []"
| "pre_nodes (Br l x c r) = x # pre_nodes l @ pre_nodes r"

fun post_nodes :: "rbt \<Rightarrow> nat list" where
  "post_nodes Tip = []"
| "post_nodes (Br l x c r) = post_nodes l @ post_nodes r @ [x]"

fun pre_before :: "rb_frame list \<Rightarrow> nat list" where
  "pre_before [] = []"
| "pre_before (Left_of x c r # k) = pre_before k @ [x]"
| "pre_before (Right_of x c l # k) = pre_before k @ x # pre_nodes l"

fun pre_after :: "rb_frame list \<Rightarrow> nat list" where
  "pre_after [] = []"
| "pre_after (Left_of x c r # k) = pre_nodes r @ pre_after k"
| "pre_after (Right_of x c l # k) = pre_after k"

fun post_before :: "rb_frame list \<Rightarrow> nat list" where
  "post_before [] = []"
| "post_before (Left_of x c r # k) = post_before k"
| "post_before (Right_of x c l # k) = post_before k @ post_nodes l"

fun post_after :: "rb_frame list \<Rightarrow> nat list" where
  "post_after [] = []"
| "post_after (Left_of x c r # k) = post_nodes r @ x # post_after k"
| "post_after (Right_of x c l # k) = x # post_after k"

lemma pre_nodes_plug: "pre_nodes (plug k t) = pre_before k @ pre_nodes t @ pre_after k"
  by (induction k t rule: plug.induct) simp_all

lemma post_nodes_plug: "post_nodes (plug k t) = post_before k @ post_nodes t @ post_after k"
  by (induction k t rule: plug.induct) simp_all

lemma pre_post_set: "mset (pre_nodes t) = mset (nodes t)" "mset (post_nodes t) = mset (nodes t)"
  by (induction t) simp_all

lemma pre_head: "t \<noteq> Tip \<Longrightarrow> pre_nodes t \<noteq> [] \<and> head0 (pre_nodes t) = tree_top t"
  by (cases t) simp_all

lemma post_Nil [simp]: "post_nodes t = [] \<longleftrightarrow> t = Tip"
  by (cases t) simp_all

lemma rb_left_deep_correct:
  "rep s (plug k t) \<Longrightarrow> t \<noteq> Tip \<Longrightarrow> rb_left_deep (tree_top t) s = Some (head0 (post_nodes t))"
proof (induction t arbitrary: k)
  case (Br l x c r)
  have l: "rep s (plug (Left_of x c r # k) l)" and r: "rep s (plug (Right_of x c l # k) r)" using Br.prems(1) by simp_all
  show ?case
    using Br.IH(1) [OF l] Br.IH(2) [OF r] rep_at(1,3,4) [OF Br.prems(1)] rep_top [OF l] rep_top [OF r]
    by (cases "l = Tip"; cases "r = Tip") (simp_all add: rb_left_deep.simps [of x])
qed simp

lemma rb_pre_next_loop_correct:
  "rep s (plug k t) \<Longrightarrow> t \<noteq> Tip \<Longrightarrow> rb_pre_next_loop (tree_top t) s = Some (head0 (pre_after k))"
proof (induction k arbitrary: t)
  case Nil
  then show ?case using rep_root_parent by (simp add: rb_pre_next_loop.simps [of "tree_top t"])
next
  case (Cons f k)
  note sides = rep_sides [OF Cons.prems]
  show ?case
    using Cons.IH [OF sides(7)] plug_one [OF Cons.prems(2), of f] sides(1-6) pre_head [of "fr_sibling f"]
    by (cases f; cases "fr_sibling f = Tip") (simp_all add: rb_pre_next_loop.simps [of "tree_top t"])
qed

lemma rb_pre_next_correct:
  assumes "rep s (plug k (Br l x c r))"
  shows "rb_pre_next x s = Some (head0 (pre_nodes l @ pre_nodes r @ pre_after k))"
proof -
  have l: "rep s (plug (Left_of x c r # k) l)" and r: "rep s (plug (Right_of x c l # k) r)" using assms by simp_all
  show ?thesis
    using rep_at [OF assms] rep_top [OF l] rep_top [OF r] pre_head [of l] pre_head [of r] rb_pre_next_loop_correct [OF assms]
    by (cases "l = Tip"; cases "r = Tip") (simp_all add: rb_pre_next_def)
qed

lemma rb_post_next_correct:
  assumes "rep s (plug k (Br l x c r))"
  shows "rb_post_next x s = Some (head0 (post_after k))"
proof (cases k)
  case Nil
  then show ?thesis using rep_at [OF assms] by (simp add: rb_post_next_def)
next
  case (Cons f k')
  note sides = rep_sides [OF assms [unfolded Cons]]
  show ?thesis
  proof (cases f)
    case (Left_of p d u)
    have u: "rep s (plug (Right_of p d (Br l x c r) # k') u)" using assms Cons Left_of by simp
    show ?thesis
      using rb_left_deep_correct [OF u] sides(1-6) rep_at(1) [OF assms] Cons Left_of
      by (cases "u = Tip") (simp_all add: rb_post_next_def Let_def)
  next
    case (Right_of p d u)
    then show ?thesis using sides(1-6) rep_at(1) [OF assms] Cons by (simp add: rb_post_next_def Let_def)
  qed
qed

lemma split_unique:
  "distinct (xs @ x # ys) \<Longrightarrow> xs @ x # ys = xs' @ x # ys' \<Longrightarrow> xs = xs' \<and> ys = ys'"
  by (subst (asm) append_Cons_eq_iff) auto

text \<open>Stepping over a list of nodes.\<close>

definition steps_over :: "(nat \<Rightarrow> nat option) \<Rightarrow> nat list \<Rightarrow> bool" where
  "steps_over f xs \<longleftrightarrow> (\<forall>ys x zs. xs = ys @ x # zs \<longrightarrow> f x = Some (head0 zs))"

lemma steps_overD: "steps_over f xs \<Longrightarrow> xs = ys @ x # zs \<Longrightarrow> f x = Some (head0 zs)"
  by (simp add: steps_over_def)

lemma steps_over_places:
  assumes "distinct (g t)" "\<And>x. x \<in> set (g t) \<Longrightarrow> x \<in> set (nodes t)"
    and "\<And>k l x c r. t = plug k (Br l x c r) \<Longrightarrow> \<exists>ys zs. g t = ys @ x # zs \<and> f x = Some (head0 zs)"
  shows "steps_over f (g t)"
  unfolding steps_over_def
proof (intro allI impI)
  fix ys x zs assume g: "g t = ys @ x # zs"
  then obtain k l c r where "t = plug k (Br l x c r)" using assms(2) [of x] node_place [of x t] by auto
  then obtain ys' zs' where "g t = ys' @ x # zs'" "f x = Some (head0 zs')" using assms(3) by blast
  then show "f x = Some (head0 zs)" using split_unique [of ys x zs ys' zs'] g assms(1) by auto
qed

lemma rb_first_correct: "rep s t \<Longrightarrow> rb_first s = Some (head0 (nodes t)) \<and> rb_last s = Some (last0 (nodes t))"
  using rb_left_far_correct [of s "[]" t] rb_right_far_correct [of s "[]" t] rep_top [of s "[]" t]
  by (cases "t = Tip") (auto simp: rb_first_def rb_last_def rep_def)

lemma rb_next_steps:
  assumes "rep s t"
  shows "steps_over (\<lambda>x. rb_next x s) (nodes t)"
proof (rule steps_over_places)
  fix k l x c r assume "t = plug k (Br l x c r)"
  then show "\<exists>ys zs. nodes t = ys @ x # zs \<and> rb_next x s = Some (head0 zs)"
    using rb_next_correct assms
    by (intro exI [of _ "ctx_before k @ nodes l"] exI [of _ "nodes r @ ctx_after k"]) (simp add: nodes_plug)
qed (use assms in \<open>auto simp: rep_distinct\<close>)

lemma rb_prev_steps:
  assumes "rep s t" "nodes t = ys @ x # zs"
  shows "rb_prev x s = Some (last0 ys)"
proof -
  obtain k l c r where t: "t = plug k (Br l x c r)" using node_place [of x t] assms(2) by auto
  then have "nodes t = (ctx_before k @ nodes l) @ x # nodes r @ ctx_after k" by (simp add: nodes_plug)
  then have "ys = ctx_before k @ nodes l" using split_unique [of ys x zs] rep_distinct [OF assms(1)] assms(2) by metis
  then show ?thesis using rb_prev_correct assms(1) t by simp
qed

lemma distinct_pre_post: "distinct (nodes t) \<Longrightarrow> distinct (pre_nodes t) \<and> distinct (post_nodes t)"
  using pre_post_set [of t] by (metis mset_eq_imp_distinct_iff)

lemma set_pre_post: "set (pre_nodes t) = set (nodes t)" "set (post_nodes t) = set (nodes t)"
  using pre_post_set [of t] by (metis mset_eq_setD)+

lemma rb_pre_steps:
  assumes "rep s t"
  shows "steps_over (\<lambda>x. rb_pre_next x s) (pre_nodes t)"
proof (rule steps_over_places)
  fix k l x c r assume "t = plug k (Br l x c r)"
  then show "\<exists>ys zs. pre_nodes t = ys @ x # zs \<and> rb_pre_next x s = Some (head0 zs)"
    using rb_pre_next_correct assms
    by (intro exI [of _ "pre_before k"] exI [of _ "pre_nodes l @ pre_nodes r @ pre_after k"]) (simp add: pre_nodes_plug)
qed (use assms in \<open>auto simp: rep_distinct distinct_pre_post set_pre_post\<close>)

lemma rb_post_steps:
  assumes "rep s t"
  shows "steps_over (\<lambda>x. rb_post_next x s) (post_nodes t)"
proof (rule steps_over_places)
  fix k l x c r assume "t = plug k (Br l x c r)"
  then show "\<exists>ys zs. post_nodes t = ys @ x # zs \<and> rb_post_next x s = Some (head0 zs)"
    using rb_post_next_correct assms
    by (intro exI [of _ "post_before k @ post_nodes l @ post_nodes r"] exI [of _ "post_after k"]) (simp add: post_nodes_plug)
qed (use assms in \<open>auto simp: rep_distinct distinct_pre_post set_pre_post\<close>)

section \<open>Searching\<close>

definition LONG_MIN :: int where
  "LONG_MIN = - (2 ^ 63)"

partial_function (option) rb_find_loop :: "nat \<Rightarrow> (nat \<Rightarrow> int) \<Rightarrow> rb_state \<Rightarrow> nat option" where
  "rb_find_loop node cmp s =
     (if node = 0 then Some 0
      else if cmp node = LONG_MIN then Some 0
      else if cmp node > 0 then rb_find_loop (nd_left s node) cmp s
      else if cmp node < 0 then rb_find_loop (nd_right s node) cmp s
      else Some node)"

definition rb_find :: "(nat \<Rightarrow> int) \<Rightarrow> rb_state \<Rightarrow> nat option" where
  "rb_find cmp s = rb_find_loop (root_node s) cmp s"

text \<open>The comparison with the key goes along with the order of the tree.\<close>

definition key_order :: "(nat \<Rightarrow> int) \<Rightarrow> nat list \<Rightarrow> bool" where
  "key_order cmp xs \<longleftrightarrow> sorted_wrt (\<lambda>a b. sgn (cmp a) \<le> sgn (cmp b)) xs \<and> (\<forall>x \<in> set xs. cmp x \<noteq> LONG_MIN)"

lemma key_order_mid:
  assumes "key_order cmp (xs @ x # ys)"
  shows "key_order cmp xs" "key_order cmp ys" "cmp x \<noteq> LONG_MIN"
    "cmp x > 0 \<Longrightarrow> \<forall>y \<in> set ys. cmp y \<noteq> 0" "cmp x < 0 \<Longrightarrow> \<forall>y \<in> set xs. cmp y \<noteq> 0"
  using assms unfolding key_order_def by (force simp: sorted_wrt_append)+

lemma rb_find_loop_correct:
  assumes "rep s (plug k t)" "key_order cmp (nodes t)"
  shows "\<exists>r. rb_find_loop (tree_top t) cmp s = Some r \<and> (r \<noteq> 0 \<longrightarrow> r \<in> set (nodes t) \<and> cmp r = 0) \<and>
    (r = 0 \<longrightarrow> (\<forall>x \<in> set (nodes t). cmp x \<noteq> 0))"
  using assms
proof (induction t arbitrary: k)
  case Tip
  then show ?case by (simp add: rb_find_loop.simps)
next
  case (Br l x c r)
  note at = rep_at [OF Br.prems(1)]
  note o = key_order_mid [OF Br.prems(2) [unfolded nodes.simps]]
  have l: "rep s (plug (Left_of x c r # k) l)" and r: "rep s (plug (Right_of x c l # k) r)" using Br.prems(1) by simp_all
  consider "cmp x > 0" | "cmp x < 0" | "cmp x = 0" by linarith
  then show ?case
  proof cases
    case 1
    then show ?thesis using Br.IH(1) [OF l o(1)] at(1,3) o(3,4) by (auto simp: rb_find_loop.simps [of x])
  next
    case 2
    then show ?thesis using Br.IH(2) [OF r o(2)] at(1,4) o(3,5) by (auto simp: rb_find_loop.simps [of x])
  next
    case 3
    then show ?thesis using at(1) o(3) by (auto simp: rb_find_loop.simps [of x])
  qed
qed

lemma rb_find_correct:
  assumes "rep s t" "key_order cmp (nodes t)"
  shows "\<exists>r. rb_find cmp s = Some r \<and> (r \<noteq> 0 \<longrightarrow> r \<in> set (nodes t) \<and> cmp r = 0) \<and>
    (r = 0 \<longrightarrow> (\<forall>x \<in> set (nodes t). cmp x \<noteq> 0))"
  using rb_find_loop_correct [of s "[]" t cmp] assms by (simp add: rb_find_def rep_def)

section \<open>The height\<close>

fun tree_height :: "rbt \<Rightarrow> nat" where
  "tree_height Tip = 0"
| "tree_height (Br l x c r) = max (tree_height l) (tree_height r) + 1"

lemma height_bheight: "invc t \<Longrightarrow> invh t \<Longrightarrow> tree_height t \<le> 2 * bheight t + (if color_of t = RB_BLACK then 0 else 1)"
  by (induction t) (auto split: if_splits)

lemma bheight_nodes: "invh t \<Longrightarrow> 2 ^ bheight t \<le> length (nodes t) + 1"
proof (induction t)
  case (Br l x c r)
  then have "2 ^ bheight l \<le> length (nodes l) + 1" "2 ^ bheight l \<le> length (nodes r) + 1" by auto
  then show ?case by auto
qed simp

lemma rb_inv_height:
  assumes "rb_inv t"
  shows "2 ^ ((tree_height t + 1) div 2) \<le> length (nodes t) + 1"
proof -
  have "(tree_height t + 1) div 2 \<le> bheight t" using height_bheight [of t] assms by (simp add: rb_inv_def)
  then have "(2::nat) ^ ((tree_height t + 1) div 2) \<le> 2 ^ bheight t" by (intro power_increasing) simp_all
  also have "\<dots> \<le> length (nodes t) + 1" using bheight_nodes assms by (simp add: rb_inv_def)
  finally show ?thesis .
qed

section \<open>Nodes in the order of a comparison\<close>

definition in_order :: "(nat \<Rightarrow> nat \<Rightarrow> int) \<Rightarrow> nat list \<Rightarrow> bool" where
  "in_order cmp xs \<longleftrightarrow> sorted_wrt (\<lambda>a b. \<not> cmp b a < 0) xs"

text \<open>A node goes behind all it does not come before.\<close>

definition place_node :: "(nat \<Rightarrow> nat \<Rightarrow> int) \<Rightarrow> nat \<Rightarrow> nat list \<Rightarrow> nat list" where
  "place_node cmp x xs = takeWhile (\<lambda>p. \<not> cmp x p < 0) xs @ x # dropWhile (\<lambda>p. \<not> cmp x p < 0) xs"

lemma mset_place_node: "mset (place_node cmp x xs) = add_mset x (mset xs)"
  unfolding place_node_def by (metis mset.simps(2) mset_append takeWhile_dropWhile_id union_mset_add_mset_right)

lemma set_place_node [simp]: "set (place_node cmp x xs) = insert x (set xs)"
  using mset_place_node by (metis set_mset_add_mset_insert set_mset_mset)

lemma in_order_remove: "in_order cmp xs \<Longrightarrow> in_order cmp (remove1 x xs)"
  unfolding in_order_def by (induction xs) (auto dest: set_remove1_subset [THEN subsetD])

lemma sorted_wrt_mid:
  "sorted_wrt R (xs @ ys) \<Longrightarrow> \<forall>p \<in> set xs. R p x \<Longrightarrow> \<forall>p \<in> set ys. R x p \<Longrightarrow> sorted_wrt R (xs @ x # ys)"
  by (simp add: sorted_wrt_append)

locale rb_order =
  fixes cmp :: "nat \<Rightarrow> nat \<Rightarrow> int"
  assumes before_trans: "cmp a b < 0 \<Longrightarrow> \<not> cmp c b < 0 \<Longrightarrow> cmp a c < 0"
    and before_asym: "cmp a b < 0 \<Longrightarrow> \<not> cmp b a < 0"
begin

lemma order_cut: "in_order cmp xs \<Longrightarrow> cut_at cmp x xs"
  unfolding in_order_def cut_at_def by (erule sorted_wrt_mono_rel [rotated]) (blast intro: before_trans)

lemma order_place:
  assumes "in_order cmp xs"
  shows "in_order cmp (place_node cmp x xs)"
proof -
  let ?P = "\<lambda>p. \<not> cmp x p < 0"
  let ?a = "takeWhile ?P xs" and ?b = "dropWhile ?P xs"
  have s: "sorted_wrt (\<lambda>a b. \<not> cmp b a < 0) (?a @ ?b)" using assms by (simp add: in_order_def)
  have a: "\<forall>p \<in> set ?a. \<not> cmp x p < 0" by (auto dest: set_takeWhileD)
  have b: "\<forall>p \<in> set ?b. cmp x p < 0"
  proof (cases ?b)
    case (Cons y ys)
    then have "cmp x y < 0" using hd_dropWhile [of ?P xs] by auto
    moreover have "\<forall>p \<in> set ys. \<not> cmp p y < 0" using s Cons by (simp add: sorted_wrt_append)
    ultimately have "cmp x p < 0" if "p \<in> set ys" for p using before_trans that by blast
    then show ?thesis using Cons \<open>cmp x y < 0\<close> by simp
  next
    case Nil
    show ?thesis unfolding Nil by simp
  qed
  then have "\<forall>p \<in> set ?b. \<not> cmp p x < 0" using before_asym by blast
  then show ?thesis unfolding in_order_def place_node_def by (rule sorted_wrt_mid [OF s a])
qed

lemma order_insert:
  assumes "rep s t" "rb_inv t" "x \<noteq> 0" "x \<notin> set (nodes t)" "in_order cmp (nodes t)"
  shows "\<exists>s' t'. rb_insert cmp x s = Some s' \<and> rep s' t' \<and> rb_inv t' \<and> nodes t' = place_node cmp x (nodes t) \<and>
    in_order cmp (nodes t') \<and> same_outside (insert x (set (nodes t))) s s'"
proof -
  obtain s' where s': "rb_insert cmp x s = Some s'" "balanced_as s s' (place_node cmp x (nodes t))"
    using rb_insert_correct [OF assms(1-4) order_cut [OF assms(5)]] unfolding place_node_def by blast
  then obtain t' where "rep s' t'" "rb_inv t'" "nodes t' = place_node cmp x (nodes t)"
    "same_outside (insert x (set (nodes t))) s s'" unfolding balanced_as_def by auto
  then show ?thesis using s'(1) order_place [OF assms(5)] by auto
qed

end

section \<open>Insertion without equal nodes\<close>

text \<open>Seen from the new node the tree has the nodes after which it goes, its equals, and the rest.\<close>

definition cut_sign :: "(nat \<Rightarrow> nat \<Rightarrow> int) \<Rightarrow> nat \<Rightarrow> nat list \<Rightarrow> bool" where
  "cut_sign cmp node xs \<longleftrightarrow> sorted_wrt (\<lambda>a b. sgn (cmp node b) \<le> sgn (cmp node a)) xs"

lemma cut_sign_mid:
  assumes "cut_sign cmp node (xs @ x # ys)"
  shows "cut_sign cmp node xs" "cut_sign cmp node ys"
    "cmp node x < 0 \<Longrightarrow> \<forall>y \<in> set ys. cmp node y \<noteq> 0" "cmp node x > 0 \<Longrightarrow> \<forall>y \<in> set xs. cmp node y \<noteq> 0"
  using assms unfolding cut_sign_def by (force simp: sorted_wrt_append)+

lemma cut_sign_at: "cut_sign cmp node xs \<Longrightarrow> cut_at cmp node xs"
  unfolding cut_sign_def cut_at_def by (erule sorted_wrt_mono_rel [rotated]) (auto simp: sgn_if split: if_splits)

lemma conflict_found:
  assumes "rep s (plug k t)" "t \<noteq> Tip" "cut_sign cmp node (nodes t)" "y \<in> set (nodes t)" "cmp node y = 0"
  shows "\<exists>p l. rb_parent_conflict_loop cmp node (link_of k) leftmost s = Some (p, None, l)"
  using assms
proof (induction t arbitrary: k leftmost)
  case (Br l x c r)
  note at = rep_at [OF Br.prems(1)]
  note o = cut_sign_mid [OF Br.prems(3) [unfolded nodes.simps]]
  have l: "rep s (plug (Left_of x c r # k) l)" and r: "rep s (plug (Right_of x c l # k) r)" using Br.prems(1) by simp_all
  have link: "link_get (link_of k) s = x" using link_get_hole [of s k x] Br.prems(1) by (simp add: rep_plug)
  consider "cmp node x < 0" | "cmp node x > 0" | "cmp node x = 0" by linarith
  then show ?case
  proof cases
    case 1
    then have y: "y \<in> set (nodes l)" using o(3) Br.prems(4,5) by auto
    then have "l \<noteq> Tip" by auto
    then show ?thesis using 1 Br.IH(1) [OF l _ o(1) y Br.prems(5)] at(1,3) rep_top [OF l] link
      by (subst rb_parent_conflict_loop.simps) (simp add: Let_def)
  next
    case 2
    then have y: "y \<in> set (nodes r)" using o(4) Br.prems(4,5) by auto
    then have "r \<noteq> Tip" by auto
    then show ?thesis using 2 Br.IH(2) [OF r _ o(2) y Br.prems(5)] at(1,4) rep_top [OF r] link
      by (subst rb_parent_conflict_loop.simps) (simp add: Let_def)
  next
    case 3
    then show ?thesis using link by (subst rb_parent_conflict_loop.simps) (simp add: Let_def)
  qed
qed simp

lemma conflict_none:
  assumes "rep s (plug k t)" "t \<noteq> Tip" "\<forall>y \<in> set (nodes t). cmp node y \<noteq> 0"
  shows "rb_parent_conflict_loop cmp node (link_of k) leftmost s =
    map_option (\<lambda>(p, l, b). (p, Some l, b)) (rb_parent_loop cmp node (link_of k) leftmost s)"
  using assms
proof (induction t arbitrary: k leftmost)
  case (Br l x c r)
  note at = rep_at [OF Br.prems(1)]
  have l: "rep s (plug (Left_of x c r # k) l)" and r: "rep s (plug (Right_of x c l # k) r)" using Br.prems(1) by simp_all
  have link: "link_get (link_of k) s = x" using link_get_hole [of s k x] Br.prems(1) by (simp add: rep_plug)
  have "cmp node x \<noteq> 0" using Br.prems(3) by simp
  then show ?case
    using Br.IH(1) [OF l] Br.IH(2) [OF r] Br.prems(3) at(1,3,4) rep_top [OF l] rep_top [OF r] link
    by (cases "l = Tip"; cases "r = Tip"; subst rb_parent_conflict_loop.simps; subst rb_parent_loop.simps)
      (simp_all add: Let_def)
qed simp

lemma rb_insert_conflict_correct:
  assumes "rep s t" "rb_inv t" "x \<noteq> 0" "x \<notin> set (nodes t)" "cut_sign cmp x (nodes t)"
  shows "rb_insert_conflict cmp x s =
    (if \<exists>y \<in> set (nodes t). cmp x y = 0 then Some (True, s) else map_option (Pair False) (rb_insert cmp x s))"
proof (cases "\<exists>y \<in> set (nodes t). cmp x y = 0")
  case True
  then obtain y where y: "y \<in> set (nodes t)" "cmp x y = 0" by blast
  then have "t \<noteq> Tip" "root_node s \<noteq> 0" using rep_top [of s "[]" t] assms(1) by (auto simp: rep_def)
  then show ?thesis using conflict_found [of s "[]" t cmp x y True] y assms(1,5)
    by (auto simp: rb_insert_conflict_def rb_parent_conflict_def)
next
  case False
  have "rb_parent_conflict cmp x True s = map_option (\<lambda>(p, l, b). (p, Some l, b)) (rb_parent cmp x True s)"
    using conflict_none [of s "[]" t cmp x True] assms(1) False rep_top [of s "[]" t]
    by (cases "t = Tip") (auto simp: rb_parent_conflict_def rb_parent_def rep_def)
  then have "rb_insert_conflict cmp x s = map_option (Pair False) (rb_insert cmp x s)"
    by (auto simp: rb_insert_conflict_def rb_insert_def split: option.splits)
  then show ?thesis using False by auto
qed

section \<open>Properties\<close>

text \<open>
  C9: Inserting a node ends, keeps the tree balanced and its parent pointers right, and puts the node behind
  all nodes it does not come before; no other node is touched, the height stays logarithmic, and the
  insertion that rejects equal nodes does the same unless it finds one.
\<close>

theorem rb_insert_balances:
  assumes "rep s t" "rb_inv t" "x \<noteq> 0" "x \<notin> set (nodes t)" "cut_at cmp x (nodes t)"
  shows "\<exists>s' t'. rb_insert cmp x s = Some s' \<and> rep s' t' \<and> rb_inv t' \<and> nodes t' = place_node cmp x (nodes t) \<and>
    same_outside (insert x (set (nodes t))) s s' \<and> 2 ^ ((tree_height t' + 1) div 2) \<le> length (nodes t') + 1 \<and>
    (cut_sign cmp x (nodes t) \<longrightarrow> rb_insert_conflict cmp x s =
       (if \<exists>y \<in> set (nodes t). cmp x y = 0 then Some (True, s) else Some (False, s')))"
proof -
  obtain s' where s': "rb_insert cmp x s = Some s'" "balanced_as s s' (place_node cmp x (nodes t))"
    using rb_insert_correct [OF assms] unfolding place_node_def by blast
  then obtain t' where "rep s' t'" "rb_inv t'" "nodes t' = place_node cmp x (nodes t)"
    "same_outside (insert x (set (nodes t))) s s'" unfolding balanced_as_def by auto
  then show ?thesis using s'(1) rb_insert_conflict_correct [OF assms(1-4)] rb_inv_height by auto
qed

definition demo_tree :: rb_state where
  "demo_tree = \<lparr>root_node = 2, nd_parent = (\<lambda>_. 0)(1 := 2, 3 := 2), nd_left = (\<lambda>_. 0)(2 := 1),
     nd_right = (\<lambda>_. 0)(2 := 3), nd_color = (\<lambda>_. RB_RED)(2 := RB_BLACK)\<rparr>"

lemma demo_tree_rep:
  "rep demo_tree (Br (Br Tip 1 RB_RED Tip) 2 RB_BLACK (Br Tip 3 RB_RED Tip))"
  "rb_inv (Br (Br Tip 1 RB_RED Tip) 2 RB_BLACK (Br Tip 3 RB_RED Tip))"
  by (simp_all add: rep_def demo_tree_def rb_inv_def)

theorem rb_insert_balances_witness:
  "\<exists>s' t'. rb_insert (\<lambda>a b. int a - int b) 4 demo_tree = Some s' \<and> rep s' t' \<and> rb_inv t' \<and> nodes t' = [1, 2, 3, 4] \<and>
    rb_insert_conflict (\<lambda>a b. int a - int b) 4 demo_tree = Some (False, s')"
  using rb_insert_balances [OF demo_tree_rep, of 4 "\<lambda>a b. int a - int b"]
  by (auto simp: cut_at_def cut_sign_def place_node_def)

text \<open>
  C10: Deleting a node ends, leaves a balanced tree of the other nodes in their order, touches no node outside the tree,
  and leaves the poison values in the links of the deleted node.
\<close>

theorem rb_delete_balances:
  assumes "rep s t" "rb_inv t" "x \<in> set (nodes t)"
  shows "\<exists>s' t'. rb_delete q1 q2 q3 x s = Some s' \<and> rep s' t' \<and> rb_inv t' \<and> nodes t' = remove1 x (nodes t) \<and>
    same_outside (set (nodes t)) s s' \<and> nd_left s' x = q1 \<and> nd_right s' x = q2 \<and> nd_parent s' x = q3 \<and>
    2 ^ ((tree_height t' + 1) div 2) \<le> length (nodes t') + 1"
  using rb_delete_spec [OF assms, of q1 q2 q3] rb_inv_height by blast

theorem rb_delete_balances_witness:
  "\<exists>s' t'. rb_delete 7 8 9 2 demo_tree = Some s' \<and> rep s' t' \<and> rb_inv t' \<and> nodes t' = [1, 3] \<and> nd_parent s' 2 = 9"
  using rb_delete_balances [OF demo_tree_rep, of 2 7 8 9] by auto

text \<open>
  C11: The iterators visit the nodes of a tree in order, forwards and backwards, in preorder and in
  postorder, and end after the last; the search returns a node equal to the key when there is one, and the
  null pointer when there is none.
\<close>

theorem rb_walks_and_finds:
  assumes "rep s t"
  shows "rb_first s = Some (head0 (nodes t)) \<and> steps_over (\<lambda>x. rb_next x s) (nodes t) \<and>
    rb_last s = Some (last0 (nodes t)) \<and> (\<forall>ys x zs. nodes t = ys @ x # zs \<longrightarrow> rb_prev x s = Some (last0 ys)) \<and>
    rb_pre_first s = head0 (pre_nodes t) \<and> steps_over (\<lambda>x. rb_pre_next x s) (pre_nodes t) \<and>
    rb_post_first s = Some (head0 (post_nodes t)) \<and> steps_over (\<lambda>x. rb_post_next x s) (post_nodes t) \<and>
    (key_order cmp (nodes t) \<longrightarrow> (\<exists>r. rb_find cmp s = Some r \<and> (r \<noteq> 0 \<longrightarrow> r \<in> set (nodes t) \<and> cmp r = 0) \<and>
      (r = 0 \<longrightarrow> (\<forall>x \<in> set (nodes t). cmp x \<noteq> 0))))"
proof -
  have "rb_pre_first s = head0 (pre_nodes t)" "rb_post_first s = Some (head0 (post_nodes t))"
    using assms rb_left_deep_correct [of s "[]" t] rep_top [of s "[]" t]
    by (cases t; auto simp: rb_pre_first_def rb_post_first_def rep_def)+
  then show ?thesis
    using rb_first_correct rb_next_steps rb_prev_steps rb_pre_steps rb_post_steps rb_find_correct assms by auto
qed

theorem rb_walks_and_finds_witness:
  "rb_first demo_tree = Some 1 \<and> rb_next 2 demo_tree = Some 3 \<and> rb_pre_next 1 demo_tree = Some 3 \<and>
   rb_post_next 3 demo_tree = Some 2 \<and> (\<exists>r. rb_find (\<lambda>a. int a - 3) demo_tree = Some r \<and> r \<noteq> 0)"
proof -
  have o: "key_order (\<lambda>a. int a - 3) (nodes (Br (Br Tip 1 RB_RED Tip) 2 RB_BLACK (Br Tip 3 RB_RED Tip)))"
    by (simp add: key_order_def LONG_MIN_def)
  note w = rb_walks_and_finds [OF demo_tree_rep(1), of "\<lambda>a. int a - 3"]
  from w have "rb_next 2 demo_tree = Some (head0 [3])" by (elim conjE, intro steps_overD [of _ _ "[1]"]) simp_all
  moreover from w have "rb_pre_next 1 demo_tree = Some (head0 [3])" by (elim conjE, intro steps_overD [of _ _ "[2]"]) simp_all
  moreover from w have "rb_post_next 3 demo_tree = Some (head0 [2])" by (elim conjE, intro steps_overD [of _ _ "[1]"]) simp_all
  ultimately show ?thesis using w o by auto
qed

end
