(* ===== verification/Timerqueue.thy ===== *)
theory Timerqueue
  imports Rbtree_Iter
begin

text \<open>
  Trees with a cached first node (\<^verbatim>\<open>rb_cached_*\<close> of \<^verbatim>\<open>include/rbtree.h\<close>) and the queue
  of timers on them, \<^verbatim>\<open>lib/timerqueue.c\<close>: the nodes stand in the order of their times, those of
  the same time in the order of insertion.
\<close>

section \<open>Cached trees\<close>

record rb_root_cached =
  cached_root :: rb_state
  leftmost_node :: nat

definition rb_cached_fixup :: "nat \<Rightarrow> bool \<Rightarrow> rb_root_cached \<Rightarrow> rb_root_cached option" where
  "rb_cached_fixup node leftmost cached =
     (let cached = (if leftmost then cached\<lparr>leftmost_node := node\<rparr> else cached) in
      map_option (\<lambda>s. cached\<lparr>cached_root := s\<rparr>) (rb_fixup node (cached_root cached)))"

definition rb_cached_insert_node :: "nat \<Rightarrow> rb_link \<Rightarrow> nat \<Rightarrow> bool \<Rightarrow> rb_root_cached \<Rightarrow> rb_root_cached option" where
  "rb_cached_insert_node parent link node leftmost cached =
     rb_cached_fixup node leftmost (cached\<lparr>cached_root := rb_link_node parent link node (cached_root cached)\<rparr>)"

definition rb_cached_insert :: "(nat \<Rightarrow> nat \<Rightarrow> int) \<Rightarrow> nat \<Rightarrow> rb_root_cached \<Rightarrow> rb_root_cached option" where
  "rb_cached_insert cmp node cached =
     (case rb_parent cmp node True (cached_root cached) of None \<Rightarrow> None
      | Some (parent, link, leftmost) \<Rightarrow> rb_cached_insert_node parent link node leftmost cached)"

definition rb_cached_delete :: "nat \<Rightarrow> nat \<Rightarrow> nat \<Rightarrow> nat \<Rightarrow> rb_root_cached \<Rightarrow> (nat \<times> rb_root_cached) option" where
  "rb_cached_delete POISON_RBNODE1 POISON_RBNODE2 POISON_RBNODE3 node cached =
     (case (if leftmost_node cached = node
            then map_option (\<lambda>n. (n, cached\<lparr>leftmost_node := n\<rparr>)) (rb_next node (cached_root cached))
            else Some (0, cached)) of None \<Rightarrow> None
      | Some (leftmost, cached) \<Rightarrow>
          map_option (\<lambda>s. (leftmost, cached\<lparr>cached_root := s\<rparr>))
            (rb_delete POISON_RBNODE1 POISON_RBNODE2 POISON_RBNODE3 node (cached_root cached)))"

definition rb_cached_replace :: "nat \<Rightarrow> nat \<Rightarrow> rb_root_cached \<Rightarrow> rb_root_cached" where
  "rb_cached_replace old new cached =
     (let cached = (if leftmost_node cached = old then cached\<lparr>leftmost_node := new\<rparr> else cached)
      in cached\<lparr>cached_root := rb_replace old new (cached_root cached)\<rparr>)"

text \<open>A cached tree holds a list of nodes.\<close>

definition cached_rep :: "rb_root_cached \<Rightarrow> nat list \<Rightarrow> bool" where
  "cached_rep c xs \<longleftrightarrow> (\<exists>t. rep (cached_root c) t \<and> rb_inv t \<and> nodes t = xs) \<and> leftmost_node c = head0 xs"

lemma cached_rep_nodes:
  assumes "cached_rep c xs"
  shows "distinct xs" "0 \<notin> set xs" "root_node (cached_root c) = 0 \<longleftrightarrow> xs = []"
proof -
  obtain t where t: "rep (cached_root c) t" "nodes t = xs" using assms unfolding cached_rep_def by blast
  then show "distinct xs" using rep_distinct by blast
  show "0 \<notin> set xs" using t shape_nonzero unfolding rep_def by blast
  show "root_node (cached_root c) = 0 \<longleftrightarrow> xs = []" using t rep_top [of "cached_root c" "[]" t] by (auto simp: rep_def)
qed

lemma head0_eq: "x \<noteq> 0 \<Longrightarrow> x \<notin> set xs \<Longrightarrow> head0 (xs @ x # ys) = x \<longleftrightarrow> xs = []"
  by (cases xs) auto

lemma takeWhile_prefix: "xs = ys @ zs \<Longrightarrow> \<forall>p \<in> set ys. P p \<Longrightarrow> \<forall>p \<in> set zs. \<not> P p \<Longrightarrow> takeWhile P xs = ys \<and> dropWhile P xs = zs"
  using cut_take_drop [of ys "\<lambda>p. \<not> P p" zs] by simp

lemma rb_cached_insert_correct:
  assumes "cached_rep c xs" "x \<noteq> 0" "x \<notin> set xs" "cut_at cmp x xs"
  shows "\<exists>c'. rb_cached_insert cmp x c = Some c' \<and> cached_rep c' (place_node cmp x xs) \<and>
    same_outside (insert x (set xs)) (cached_root c) (cached_root c')"
proof -
  obtain t where t: "rep (cached_root c) t" "rb_inv t" "nodes t = xs" and lm: "leftmost_node c = head0 xs"
    using assms(1) unfolding cached_rep_def by blast
  obtain k where k: "rb_parent cmp x True (cached_root c) = Some (up k, link_of k, ctx_before k = [])" "plug k Tip = t"
    "\<forall>p \<in> set (ctx_before k). \<not> cmp x p < 0" "\<forall>p \<in> set (ctx_after k). cmp x p < 0"
    using rb_parent_correct [OF t(1), of cmp x True] assms(4) t(3) by auto
  have xs: "xs = ctx_before k @ ctx_after k" using k(2) t(3) nodes_plug [of k Tip] by simp
  then have place: "place_node cmp x xs = ctx_before k @ x # ctx_after k"
    using takeWhile_prefix [OF xs, of "\<lambda>p. \<not> cmp x p < 0"] k(3,4) by (simp add: place_node_def)
  obtain s where s: "rb_insert_node (up k) (link_of k) x (cached_root c) = Some s"
    "balanced_as (cached_root c) s (ctx_before k @ x # ctx_after k)"
    using rb_insert_node_correct [OF t(1,2) k(2) [symmetric] assms(2)] t(3) assms(3) by blast
  let ?c = "\<lparr>cached_root = s, leftmost_node = (if ctx_before k = [] then x else leftmost_node c)\<rparr>"
  have "rb_cached_insert cmp x c = Some ?c"
    using k(1) s(1) by (simp add: rb_cached_insert_def rb_cached_insert_node_def rb_cached_fixup_def rb_insert_node_def Let_def)
  moreover have "cached_rep ?c (place_node cmp x xs)"
    unfolding place using s(2) lm xs unfolding cached_rep_def balanced_as_def by auto
  moreover have "set (ctx_before k @ x # ctx_after k) = insert x (set xs)" by (auto simp: xs)
  then have "same_outside (insert x (set xs)) (cached_root c) s" using s(2) by (simp add: balanced_as_def)
  ultimately show ?thesis by auto
qed

lemma rb_cached_delete_correct:
  assumes "cached_rep c xs" "x \<in> set xs"
  shows "\<exists>c'. rb_cached_delete q1 q2 q3 x c = Some (if hd xs = x then head0 (tl xs) else 0, c') \<and>
    cached_rep c' (remove1 x xs) \<and> same_outside (set xs) (cached_root c) (cached_root c')"
proof -
  obtain t where t: "rep (cached_root c) t" "rb_inv t" "nodes t = xs" and lm: "leftmost_node c = head0 xs"
    using assms(1) unfolding cached_rep_def by blast
  obtain s t' where s: "rb_delete q1 q2 q3 x (cached_root c) = Some s" "rep s t'" "rb_inv t'" "nodes t' = remove1 x xs"
    "same_outside (set xs) (cached_root c) s"
    using rb_delete_spec [OF t(1,2), of x q1 q2 q3] assms(2) t(3) by blast
  obtain y ys where xs: "xs = y # ys" using assms(2) by (cases xs) auto
  show ?thesis
  proof (cases "x = y")
    case True
    have "rb_next x (cached_root c) = Some (head0 ys)"
      using rb_next_steps [OF t(1)] unfolding steps_over_def t(3) using xs True by auto
    then have "rb_cached_delete q1 q2 q3 x c = Some (head0 ys, \<lparr>cached_root = s, leftmost_node = head0 ys\<rparr>)"
      using s(1) lm xs True by (simp add: rb_cached_delete_def)
    moreover have "cached_rep \<lparr>cached_root = s, leftmost_node = head0 ys\<rparr> (remove1 x xs)"
      using s xs True unfolding cached_rep_def by auto
    ultimately show ?thesis using s(5) xs True by auto
  next
    case False
    then have "rb_cached_delete q1 q2 q3 x c = Some (0, c\<lparr>cached_root := s\<rparr>)"
      using s(1) lm xs by (simp add: rb_cached_delete_def)
    moreover have "cached_rep (c\<lparr>cached_root := s\<rparr>) (remove1 x xs)"
      using s lm xs False unfolding cached_rep_def by auto
    ultimately show ?thesis using s(5) xs False by auto
  qed
qed

section \<open>The queue of timers\<close>

text \<open>The times of the nodes are signed numbers of 64 bits.\<close>

type_synonym tq_timers = "nat \<Rightarrow> 64 word"

definition tqueue_cmp :: "tq_timers \<Rightarrow> nat \<Rightarrow> nat \<Rightarrow> int" where
  "tqueue_cmp timer na nb =
     (if timer na = timer nb then 0 else if timer na <s timer nb then - 1 else 1)"

definition RB_EMPTY_NODE :: "nat \<Rightarrow> rb_state \<Rightarrow> bool" where
  "RB_EMPTY_NODE node s \<longleftrightarrow> nd_parent s node = node"

definition RB_CLEAR_NODE :: "nat \<Rightarrow> rb_state \<Rightarrow> rb_state" where
  "RB_CLEAR_NODE node s = set_parent node node s"

text \<open>The results: whether a warning was given, the value returned, and the queue.\<close>

definition tqueue_insert :: "tq_timers \<Rightarrow> nat \<Rightarrow> rb_root_cached \<Rightarrow> (bool \<times> bool \<times> rb_root_cached) option" where
  "tqueue_insert timer node head =
     (let warn = (\<not> RB_EMPTY_NODE node (cached_root head)) in
      map_option (\<lambda>head. (warn, leftmost_node head = node, head)) (rb_cached_insert (tqueue_cmp timer) node head))"

definition tqueue_delete :: "nat \<Rightarrow> nat \<Rightarrow> nat \<Rightarrow> nat \<Rightarrow> rb_root_cached \<Rightarrow> (bool \<times> bool \<times> rb_root_cached) option" where
  "tqueue_delete POISON_RBNODE1 POISON_RBNODE2 POISON_RBNODE3 node head =
     (let warn = RB_EMPTY_NODE node (cached_root head) in
      map_option (\<lambda>(_, head). let head = head\<lparr>cached_root := RB_CLEAR_NODE node (cached_root head)\<rparr>
          in (warn, root_node (cached_root head) = 0, head))
        (rb_cached_delete POISON_RBNODE1 POISON_RBNODE2 POISON_RBNODE3 node head))"

text \<open>The head is \<open>None\<close> where the caller passes the null pointer.\<close>

definition tqueue_first :: "rb_root_cached option \<Rightarrow> nat" where
  "tqueue_first head = (case head of None \<Rightarrow> 0 | Some head \<Rightarrow> leftmost_node head)"

definition tqueue_last :: "rb_root_cached option \<Rightarrow> nat option" where
  "tqueue_last head = (case head of None \<Rightarrow> Some 0 | Some head \<Rightarrow> rb_last (cached_root head))"

definition tqueue_next :: "nat \<Rightarrow> rb_root_cached \<Rightarrow> nat option" where
  "tqueue_next node head = (if node = 0 then Some 0 else rb_next node (cached_root head))"

definition tqueue_prev :: "nat \<Rightarrow> rb_root_cached \<Rightarrow> nat option" where
  "tqueue_prev node head = (if node = 0 then Some 0 else rb_prev node (cached_root head))"

definition tqueue_init :: "rb_root_cached \<Rightarrow> rb_root_cached" where
  "tqueue_init head = head\<lparr>cached_root := (cached_root head)\<lparr>root_node := 0\<rparr>, leftmost_node := 0\<rparr>"

definition tqueue_node_init :: "nat \<Rightarrow> rb_root_cached \<Rightarrow> rb_root_cached" where
  "tqueue_node_init node head = head\<lparr>cached_root := RB_CLEAR_NODE node (cached_root head)\<rparr>"

lemma tqueue_cmp_less: "tqueue_cmp timer a b < 0 \<longleftrightarrow> sint (timer a) < sint (timer b)"
  by (auto simp: tqueue_cmp_def word_sless_alt)

interpretation tq: rb_order "tqueue_cmp timer" for timer
  by unfold_locales (simp_all add: tqueue_cmp_less)

definition tqueue_rep :: "tq_timers \<Rightarrow> rb_root_cached \<Rightarrow> nat list \<Rightarrow> bool" where
  "tqueue_rep timer head xs \<longleftrightarrow> cached_rep head xs \<and> in_order (tqueue_cmp timer) xs"

abbreviation tq_place :: "tq_timers \<Rightarrow> nat \<Rightarrow> nat list \<Rightarrow> nat list" where
  "tq_place timer x xs \<equiv> place_node (tqueue_cmp timer) x xs"

lemma in_order_times: "in_order (tqueue_cmp timer) xs \<longleftrightarrow> sorted (map (\<lambda>x. sint (timer x)) xs)"
  by (simp add: in_order_def tqueue_cmp_less sorted_map not_less)

lemma tqueue_insert_correct:
  assumes "tqueue_rep timer head xs" "x \<noteq> 0" "x \<notin> set xs"
  shows "\<exists>head'. tqueue_insert timer x head =
      Some (\<not> RB_EMPTY_NODE x (cached_root head), \<forall>y \<in> set xs. sint (timer x) < sint (timer y), head') \<and>
    tqueue_rep timer head' (tq_place timer x xs) \<and> same_outside (insert x (set xs)) (cached_root head) (cached_root head')"
proof -
  have o: "in_order (tqueue_cmp timer) xs" and c: "cached_rep head xs" using assms(1) by (simp_all add: tqueue_rep_def)
  obtain c' where c': "rb_cached_insert (tqueue_cmp timer) x head = Some c'" "cached_rep c' (tq_place timer x xs)"
    "same_outside (insert x (set xs)) (cached_root head) (cached_root c')"
    using rb_cached_insert_correct [OF c assms(2,3) tq.order_cut [OF o]] by blast
  have "leftmost_node c' = x \<longleftrightarrow> takeWhile (\<lambda>p. \<not> tqueue_cmp timer x p < 0) xs = []"
  proof -
    have "x \<notin> set (takeWhile (\<lambda>p. \<not> tqueue_cmp timer x p < 0) xs)" using assms(3) set_takeWhileD by metis
    then show ?thesis using c'(2) head0_eq [OF assms(2)] unfolding cached_rep_def place_node_def by simp
  qed
  also have "\<dots> \<longleftrightarrow> (\<forall>y \<in> set xs. sint (timer x) < sint (timer y))"
  proof (cases xs)
    case (Cons y ys)
    then have "\<forall>z \<in> set ys. sint (timer y) \<le> sint (timer z)" using o by (simp add: in_order_times)
    then show ?thesis unfolding Cons by (auto simp: tqueue_cmp_less)
  qed simp
  finally show ?thesis using c' tq.order_place [OF o] by (auto simp: tqueue_insert_def tqueue_rep_def Let_def)
qed

lemma same_outside_set_parent: "x \<in> A \<Longrightarrow> same_outside A s (set_parent x v s)"
  by (simp add: same_outside_def same_node_def rb_set_fields)

lemma rep_set_parent: "rep s t \<Longrightarrow> x \<notin> set (nodes t) \<Longrightarrow> rep (set_parent x v s) t"
  by (rule rep_same) (auto simp: same_node_def rb_set_fields)

lemma tqueue_delete_correct:
  assumes "tqueue_rep timer head xs" "x \<in> set xs"
  shows "\<exists>head'. tqueue_delete q1 q2 q3 x head = Some (RB_EMPTY_NODE x (cached_root head), remove1 x xs = [], head') \<and>
    tqueue_rep timer head' (remove1 x xs) \<and> RB_EMPTY_NODE x (cached_root head') \<and>
    same_outside (set xs) (cached_root head) (cached_root head')"
proof -
  have o: "in_order (tqueue_cmp timer) xs" and c: "cached_rep head xs" using assms(1) by (simp_all add: tqueue_rep_def)
  obtain l c' where c': "rb_cached_delete q1 q2 q3 x head = Some (l, c')" "cached_rep c' (remove1 x xs)"
    "same_outside (set xs) (cached_root head) (cached_root c')"
    using rb_cached_delete_correct [OF c assms(2)] by blast
  let ?h = "c'\<lparr>cached_root := RB_CLEAR_NODE x (cached_root c')\<rparr>"
  have "x \<notin> set (remove1 x xs)" using cached_rep_nodes(1) [OF c] by simp
  moreover obtain t where "rep (cached_root c') t" "rb_inv t" "nodes t = remove1 x xs"
    using c'(2) unfolding cached_rep_def by blast
  ultimately have "rep (cached_root ?h) t \<and> rb_inv t \<and> nodes t = remove1 x xs"
    using rep_set_parent [of "cached_root c'" t x x] by (simp add: RB_CLEAR_NODE_def)
  then have h: "cached_rep ?h (remove1 x xs)"
    using c'(2) unfolding cached_rep_def by auto
  then have "tqueue_delete q1 q2 q3 x head = Some (RB_EMPTY_NODE x (cached_root head), remove1 x xs = [], ?h)"
    using c'(1) cached_rep_nodes(3) [OF h] by (simp add: tqueue_delete_def Let_def)
  moreover have "same_outside (set xs) (cached_root head) (cached_root ?h)"
    using c'(3) same_outside_set_parent [OF assms(2)] same_outside_trans unfolding RB_CLEAR_NODE_def by auto
  ultimately show ?thesis
    using h in_order_remove [OF o] by (auto simp: tqueue_rep_def RB_EMPTY_NODE_def RB_CLEAR_NODE_def rb_set_fields)
qed

section \<open>Sessions\<close>

text \<open>The nodes of a program: those not in the queue are initialised.\<close>

definition tq_inv :: "tq_timers \<Rightarrow> nat set \<Rightarrow> rb_root_cached \<Rightarrow> nat list \<Rightarrow> bool" where
  "tq_inv timer U head xs \<longleftrightarrow> tqueue_rep timer head xs \<and> set xs \<subseteq> U \<and> 0 \<notin> U \<and>
     (\<forall>x \<in> U - set xs. RB_EMPTY_NODE x (cached_root head))"

datatype tq_op = Tq_Insert nat | Tq_Delete nat

text \<open>The operation on the state and on the list of the nodes; the second result is whether it may be used.\<close>

definition tq_step :: "tq_timers \<Rightarrow> nat \<times> nat \<times> nat \<Rightarrow> tq_op \<Rightarrow> rb_root_cached \<Rightarrow> (bool \<times> bool \<times> rb_root_cached) option" where
  "tq_step timer poison op head =
     (case op of Tq_Insert x \<Rightarrow> tqueue_insert timer x head
      | Tq_Delete x \<Rightarrow> (case poison of (q1, q2, q3) \<Rightarrow> tqueue_delete q1 q2 q3 x head))"

fun tq_next :: "tq_timers \<Rightarrow> tq_op \<Rightarrow> nat list \<Rightarrow> bool \<times> nat list" where
  "tq_next timer (Tq_Insert x) xs = (\<forall>y \<in> set xs. sint (timer x) < sint (timer y), tq_place timer x xs)"
| "tq_next timer (Tq_Delete x) xs = (remove1 x xs = [], remove1 x xs)"

fun tq_allowed :: "nat set \<Rightarrow> tq_op \<Rightarrow> nat list \<Rightarrow> bool" where
  "tq_allowed U (Tq_Insert x) xs \<longleftrightarrow> x \<in> U \<and> x \<notin> set xs"
| "tq_allowed U (Tq_Delete x) xs \<longleftrightarrow> x \<in> set xs"

fun tq_run :: "tq_timers \<Rightarrow> nat \<times> nat \<times> nat \<Rightarrow> tq_op list \<Rightarrow> rb_root_cached \<Rightarrow> ((bool \<times> bool) list \<times> rb_root_cached) option" where
  "tq_run timer poison [] head = Some ([], head)"
| "tq_run timer poison (op # ops) head =
     (case tq_step timer poison op head of None \<Rightarrow> None
      | Some (warn, res, head) \<Rightarrow> map_option (\<lambda>(outs, head). ((warn, res) # outs, head)) (tq_run timer poison ops head))"

fun tq_spec :: "tq_timers \<Rightarrow> nat set \<Rightarrow> tq_op list \<Rightarrow> nat list \<Rightarrow> ((bool \<times> bool) list \<times> nat list) option" where
  "tq_spec timer U [] xs = Some ([], xs)"
| "tq_spec timer U (op # ops) xs =
     (if tq_allowed U op xs then
        let (res, xs) = tq_next timer op xs in
        map_option (\<lambda>(outs, xs). ((False, res) # outs, xs)) (tq_spec timer U ops xs)
      else None)"

text \<open>A program that takes the first timer out until the queue is empty.\<close>

partial_function (option) tq_drain :: "nat \<times> nat \<times> nat \<Rightarrow> rb_root_cached \<Rightarrow> (nat list \<times> rb_root_cached) option" where
  "tq_drain poison head =
     (let x = tqueue_first (Some head) in
      if x = 0 then Some ([], head)
      else case poison of (q1, q2, q3) \<Rightarrow>
        (case tqueue_delete q1 q2 q3 x head of None \<Rightarrow> None
         | Some (_, _, head) \<Rightarrow>
             Option.bind (tq_drain poison head) (\<lambda>(xs, head). Some (x # xs, head))))"

lemma rep_parent_other:
  assumes "rep s t" "x \<in> set (nodes t)"
  shows "nd_parent s x \<noteq> x"
proof -
  obtain k l c r where t: "t = plug k (Br l x c r)" using node_place [OF assms(2)] by blast
  have r: "rep s (plug k (Br l x c r))" using assms(1) t by simp
  have "x \<notin> set (ctx_before k) \<union> set (ctx_after k)" using r by (auto simp: rep_plug)
  then show ?thesis using up_ctx [OF r] rep_at(1,2) [OF r] by auto
qed

lemma tqueue_queued_nonempty: "tqueue_rep timer head xs \<Longrightarrow> x \<in> set xs \<Longrightarrow> \<not> RB_EMPTY_NODE x (cached_root head)"
  unfolding tqueue_rep_def cached_rep_def RB_EMPTY_NODE_def using rep_parent_other by blast

lemma tq_step_correct:
  assumes i: "tq_inv timer U head xs" and a: "tq_allowed U op xs"
  shows "\<exists>head'. tq_step timer poison op head = Some (False, fst (tq_next timer op xs), head') \<and>
    tq_inv timer U head' (snd (tq_next timer op xs))"
proof -
  have r: "tqueue_rep timer head xs" and U: "set xs \<subseteq> U" "0 \<notin> U" "\<forall>x \<in> U - set xs. RB_EMPTY_NODE x (cached_root head)"
    using i by (simp_all add: tq_inv_def)
  have out: "RB_EMPTY_NODE z (cached_root head')"
    if "same_outside A (cached_root head) (cached_root head')" "z \<notin> A" "RB_EMPTY_NODE z (cached_root head)" for A z head'
    using that by (auto simp: same_outside_def same_node_def RB_EMPTY_NODE_def)
  show ?thesis
  proof (cases op)
    case (Tq_Insert x)
    then have x': "x \<in> U" "x \<notin> set xs" using a by auto
    then have x: "x \<in> U" "x \<notin> set xs" "x \<noteq> 0" "RB_EMPTY_NODE x (cached_root head)" using U by (blast, blast, metis, blast)
    from tqueue_insert_correct [OF r x(3,2)] obtain head' where
      h: "tqueue_insert timer x head = Some (False, \<forall>y \<in> set xs. sint (timer x) < sint (timer y), head')"
        "tqueue_rep timer head' (tq_place timer x xs)" "same_outside (insert x (set xs)) (cached_root head) (cached_root head')"
      using x(4) by auto
    then have "tq_inv timer U head' (tq_place timer x xs)"
      using x(1) U out [OF h(3)] by (auto simp: tq_inv_def)
    then show ?thesis using h(1) Tq_Insert by (simp add: tq_step_def)
  next
    case (Tq_Delete x)
    then have x: "x \<in> set xs" using a by simp
    obtain q1 q2 q3 where p: "poison = (q1, q2, q3)" by (cases poison) auto
    have ne: "RB_EMPTY_NODE x (cached_root head) = False" using tqueue_queued_nonempty [OF r x] by simp
    from tqueue_delete_correct [OF r x, of q1 q2 q3, unfolded ne] obtain head' where
      h: "tqueue_delete q1 q2 q3 x head = Some (False, remove1 x xs = [], head')" "tqueue_rep timer head' (remove1 x xs)"
        "RB_EMPTY_NODE x (cached_root head')" "same_outside (set xs) (cached_root head) (cached_root head')"
      by blast
    have "distinct xs" using r cached_rep_nodes(1) by (auto simp: tqueue_rep_def)
    then have "set (remove1 x xs) = set xs - {x}" by simp
    then have "tq_inv timer U head' (remove1 x xs)"
      using h U out [OF h(4)] by (auto simp: tq_inv_def)
    then show ?thesis using h(1) Tq_Delete p by (simp add: tq_step_def)
  qed
qed

lemma tq_run_correct:
  assumes "tq_inv timer U head xs" "tq_spec timer U ops xs = Some (outs, ys)"
  shows "\<exists>head'. tq_run timer poison ops head = Some (outs, head') \<and> tq_inv timer U head' ys"
  using assms
proof (induction ops arbitrary: head xs outs)
  case (Cons op ops)
  have a: "tq_allowed U op xs" using Cons.prems(2) by (simp split: if_splits)
  obtain res zs where n: "tq_next timer op xs = (res, zs)" by (cases "tq_next timer op xs")
  obtain outs' where o: "tq_spec timer U ops zs = Some (outs', ys)" "outs = (False, res) # outs'"
    using Cons.prems(2) a n by auto
  obtain head' where h: "tq_step timer poison op head = Some (False, res, head')" "tq_inv timer U head' zs"
    using tq_step_correct [OF Cons.prems(1) a, of poison] n by auto
  obtain head'' where "tq_run timer poison ops head' = Some (outs', head'')" "tq_inv timer U head'' ys"
    using Cons.IH [OF h(2) o(1)] by blast
  then show ?case using h(1) o(2) by auto
qed simp

lemma tq_drain_correct:
  assumes "tq_inv timer U head xs"
  shows "\<exists>head'. tq_drain poison head = Some (xs, head') \<and> tq_inv timer U head' []"
  using assms
proof (induction xs arbitrary: head)
  case Nil
  then have "leftmost_node head = 0" by (simp add: tq_inv_def tqueue_rep_def cached_rep_def)
  then show ?case using Nil by (simp add: tq_drain.simps tqueue_first_def)
next
  case (Cons x xs)
  obtain q1 q2 q3 where p: "poison = (q1, q2, q3)" by (cases poison) auto
  have l: "leftmost_node head = x" "x \<in> U" "0 \<notin> U"
    using Cons.prems by (simp_all add: tq_inv_def tqueue_rep_def cached_rep_def)
  then have "x \<noteq> 0" by metis
  have "tq_allowed U (Tq_Delete x) (x # xs)" by simp
  from tq_step_correct [OF Cons.prems this, of poison] obtain b head' where
    h: "tqueue_delete q1 q2 q3 x head = Some (False, b, head')" "tq_inv timer U head' xs"
    using p by (auto simp: tq_step_def)
  obtain head'' where "tq_drain poison head' = Some (xs, head'')" "tq_inv timer U head'' []"
    using Cons.IH [OF h(2)] by blast
  then show ?case using h(1) l(1) \<open>x \<noteq> 0\<close> p by (subst tq_drain.simps) (simp add: tqueue_first_def)
qed

text \<open>Inserting nodes one after another sorts them, those of equal time in the order of insertion.\<close>

lemma place_filter:
  assumes "in_order (tqueue_cmp timer) xs"
  shows "filter (\<lambda>y. sint (timer y) = v) (tq_place timer x xs) =
    filter (\<lambda>y. sint (timer y) = v) (xs @ [x])"
proof (cases "sint (timer x) = v")
  case False
  have "filter P (takeWhile Q xs) @ filter P (dropWhile Q xs) = filter P xs" for P Q
    by (simp flip: filter_append)
  then show ?thesis using False by (simp add: place_node_def)
next
  case True
  have "\<forall>p \<in> set (dropWhile (\<lambda>p. \<not> tqueue_cmp timer x p < 0) xs). sint (timer p) \<noteq> v"
    using assms
  proof (induction xs)
    case (Cons y ys)
    then have "\<forall>z \<in> set ys. sint (timer y) \<le> sint (timer z)" "in_order (tqueue_cmp timer) ys" by (simp_all add: in_order_times)
    then show ?case using Cons.IH True by (auto simp: tqueue_cmp_less)
  qed simp
  then have e: "filter (\<lambda>y. sint (timer y) = v) (dropWhile (\<lambda>p. \<not> tqueue_cmp timer x p < 0) xs) = []"
    by (simp add: filter_empty_conv)
  have "filter (\<lambda>y. sint (timer y) = v) xs = filter (\<lambda>y. sint (timer y) = v) (takeWhile (\<lambda>p. \<not> tqueue_cmp timer x p < 0) xs)"
    using e by (metis append_Nil2 filter_append takeWhile_dropWhile_id)
  then show ?thesis using e True unfolding place_node_def by simp
qed

definition tq_places :: "tq_timers \<Rightarrow> nat list \<Rightarrow> nat list" where
  "tq_places timer ns = foldl (\<lambda>xs n. tq_place timer n xs) [] ns"

lemma tq_places_snoc: "tq_places timer (ns @ [n]) = tq_place timer n (tq_places timer ns)"
  by (simp add: tq_places_def)

lemma tq_places_facts:
  "in_order (tqueue_cmp timer) (tq_places timer ns) \<and> mset (tq_places timer ns) = mset ns \<and>
   (\<forall>v. filter (\<lambda>y. sint (timer y) = v) (tq_places timer ns) = filter (\<lambda>y. sint (timer y) = v) ns)"
proof (induction ns rule: rev_induct)
  case Nil
  then show ?case by (simp add: tq_places_def in_order_def)
next
  case (snoc n ns)
  then show ?case
    using tq.order_place [of timer "tq_places timer ns" n] place_filter [of timer "tq_places timer ns" _ n]
    by (simp add: tq_places_snoc mset_place_node)
qed

lemma tq_places_sort: "tq_places timer ns = sort_key (\<lambda>x. sint (timer x)) ns"
proof (rule sym, rule properties_for_sort_key)
  show "mset (tq_places timer ns) = mset ns" using tq_places_facts by blast
  show "sorted (map (\<lambda>x. sint (timer x)) (tq_places timer ns))" using tq_places_facts in_order_times by blast
  fix k assume "k \<in> set (tq_places timer ns)"
  have "filter (\<lambda>y. sint (timer y) = sint (timer k)) (tq_places timer ns) = filter (\<lambda>y. sint (timer y) = sint (timer k)) ns"
    using tq_places_facts by blast
  then show "filter (\<lambda>y. sint (timer k) = sint (timer y)) (tq_places timer ns) = filter (\<lambda>y. sint (timer k) = sint (timer y)) ns"
    by (simp add: eq_commute)
qed

lemma tq_spec_inserts:
  assumes "distinct ns" "set ns \<subseteq> U"
  shows "\<exists>outs. tq_spec timer U (map Tq_Insert (drop i ns)) (tq_places timer (take i ns)) = Some (outs, tq_places timer ns)"
proof (induction "length ns - i" arbitrary: i)
  case 0
  then show ?case by simp
next
  case (Suc m)
  then have i: "i < length ns" by simp
  then have d: "drop i ns = ns ! i # drop (Suc i) ns" "take (Suc i) ns = take i ns @ [ns ! i]"
    by (simp_all add: Cons_nth_drop_Suc take_Suc_conv_app_nth)
  have s: "set (tq_places timer (take i ns)) = set (take i ns)"
    using tq_places_facts [of timer "take i ns"] by (metis mset_eq_setD)
  have "ns ! i \<notin> set (take i ns)" using i by (auto simp: in_set_conv_nth nth_eq_iff_index_eq [OF assms(1)])
  moreover have "ns ! i \<in> U" using assms(2) i by auto
  moreover have "m = length ns - Suc i" using Suc.hyps(2) by simp
  from Suc.hyps(1) [OF this] obtain outs where
    "tq_spec timer U (map Tq_Insert (drop (Suc i) ns)) (tq_places timer (take (Suc i) ns)) = Some (outs, tq_places timer ns)" by blast
  ultimately show ?case using s d(1) by (simp add: d(2) tq_places_snoc)
qed

section \<open>Properties\<close>

text \<open>
  C12: Any allowed sequence of insertions and deletions of timers runs to its end as its abstract
  counterpart on lists: each insertion tells whether the timer is now the next to expire, each
  deletion whether the queue is empty, no call warns, and the nodes of the queue stand sorted by time.
\<close>

theorem tqueue_session:
  assumes "tq_inv timer U head xs" "tq_spec timer U ops xs = Some (outs, ys)"
  shows "\<exists>head'. tq_run timer poison ops head = Some (outs, head') \<and> tq_inv timer U head' ys \<and>
    tqueue_first (Some head') = head0 ys \<and> tqueue_last (Some head') = Some (last0 ys) \<and>
    steps_over (\<lambda>x. tqueue_next x head') ys \<and>
    (\<forall>us x vs. ys = us @ x # vs \<longrightarrow> tqueue_prev x head' = Some (last0 us)) \<and>
    sorted (map (\<lambda>x. sint (timer x)) ys)"
proof -
  obtain head' where h: "tq_run timer poison ops head = Some (outs, head')" "tq_inv timer U head' ys"
    using tq_run_correct [OF assms] by blast
  obtain t where t: "rep (cached_root head') t" "nodes t = ys" and l: "leftmost_node head' = head0 ys"
    and o: "in_order (tqueue_cmp timer) ys" using h(2) by (auto simp: tq_inv_def tqueue_rep_def cached_rep_def)
  have "tqueue_next x head' = rb_next x (cached_root head')" "tqueue_prev x head' = rb_prev x (cached_root head')" for x
    by (simp_all add: tqueue_next_def tqueue_prev_def rb_next_def rb_prev_def)
  then have "steps_over (\<lambda>x. tqueue_next x head') ys" "\<forall>us x vs. ys = us @ x # vs \<longrightarrow> tqueue_prev x head' = Some (last0 us)"
    using rb_next_steps [OF t(1)] rb_prev_steps [OF t(1)] t(2) by simp_all
  then show ?thesis
    using h l o rb_first_correct [OF t(1)] t(2)
    by (auto simp: tqueue_first_def tqueue_last_def in_order_times)
qed

definition demo_timers :: tq_timers where
  "demo_timers x = (if x = 1 then 5 else if x = 2 then 3 else 5)"

definition demo_queue :: rb_root_cached where
  "demo_queue = \<lparr>cached_root = \<lparr>root_node = 0, nd_parent = id, nd_left = (\<lambda>_. 0), nd_right = (\<lambda>_. 0),
     nd_color = (\<lambda>_. RB_RED)\<rparr>, leftmost_node = 0\<rparr>"

lemma demo_queue_inv: "tq_inv demo_timers {1, 2, 3} demo_queue []"
  by (simp add: tq_inv_def tqueue_rep_def cached_rep_def rep_def demo_queue_def rb_inv_def in_order_def
    RB_EMPTY_NODE_def exI [of _ Tip])

lemma demo_queue_spec:
  "tq_spec demo_timers {1, 2, 3} [Tq_Insert 1, Tq_Insert 2, Tq_Insert 3, Tq_Delete 2] [] =
    Some ([(False, True), (False, True), (False, False), (False, False)], [1, 3])"
  by (simp add: place_node_def tqueue_cmp_def demo_timers_def word_sless_alt)

theorem tqueue_session_witness:
  "\<exists>head'. tq_run demo_timers (7, 8, 9) [Tq_Insert 1, Tq_Insert 2, Tq_Insert 3, Tq_Delete 2] demo_queue =
    Some ([(False, True), (False, True), (False, False), (False, False)], head') \<and> tqueue_first (Some head') = 1"
  using tqueue_session [OF demo_queue_inv demo_queue_spec, of "(7, 8, 9)"] by auto

text \<open>
  C25: Timers put into an empty queue and taken out first by first come out sorted by time, and those
  of the same time in the order in which they were put in.
\<close>

theorem tqueue_expires_in_order:
  assumes "tq_inv timer U head []" "distinct ns" "set ns \<subseteq> U"
  shows "\<exists>outs head' head''. tq_run timer poison (map Tq_Insert ns) head = Some (outs, head') \<and>
    tq_drain poison head' = Some (sort_key (\<lambda>x. sint (timer x)) ns, head'') \<and>
    root_node (cached_root head'') = 0 \<and> (\<forall>x \<in> set ns. RB_EMPTY_NODE x (cached_root head''))"
proof -
  obtain outs where "tq_spec timer U (map Tq_Insert ns) [] = Some (outs, sort_key (\<lambda>x. sint (timer x)) ns)"
    using tq_spec_inserts [OF assms(2,3), of timer 0] by (auto simp: tq_places_sort)
  then obtain head' where h: "tq_run timer poison (map Tq_Insert ns) head = Some (outs, head')"
    "tq_inv timer U head' (sort_key (\<lambda>x. sint (timer x)) ns)" using tq_run_correct [OF assms(1)] by blast
  obtain head'' where d: "tq_drain poison head' = Some (sort_key (\<lambda>x. sint (timer x)) ns, head'')" "tq_inv timer U head'' []"
    using tq_drain_correct [OF h(2)] by blast
  have "root_node (cached_root head'') = 0 \<and> (\<forall>x \<in> set ns. RB_EMPTY_NODE x (cached_root head''))"
    using d(2) assms(3) cached_rep_nodes(3) [of head'' "[]"] by (auto simp: tq_inv_def tqueue_rep_def)
  then show ?thesis using h(1) d(1) by blast
qed

theorem tqueue_expires_in_order_witness:
  "\<exists>outs head' head''. tq_run demo_timers (7, 8, 9) (map Tq_Insert [1, 2, 3]) demo_queue = Some (outs, head') \<and>
    tq_drain (7, 8, 9) head' = Some ([2, 1, 3], head'')"
proof -
  have "sort_key (\<lambda>x. sint (demo_timers x)) [1, 2, 3] = [2, 1, 3]" by (simp add: demo_timers_def)
  then show ?thesis using tqueue_expires_in_order [OF demo_queue_inv, of "[1, 2, 3]" "(7, 8, 9)"] by auto
qed

end
