(* ===== verification/Completion.thy ===== *)
theory Completion
  imports Prelude
begin

text \<open>
  Wait queues and completions: \<^verbatim>\<open>kernel/sched/waitqueue.c\<close> and \<^verbatim>\<open>kernel/sched/completion.c\<close>. Each
  section under the lock of the queue is one function; sleeping is left to the interleaving. The node of a
  waiting task lies on its stack: it is named by the task, and to take it out of the queue after the task
  has returned is an error.
\<close>

section \<open>The wait queue\<close>

text \<open>The node of a task is initialised, queued, or poisoned by \<open>list_del\<close>.\<close>

datatype wait_link = Wait_init | Wait_queued | Wait_poisoned

text \<open>A waiting task knows whether it waits without a timeout; a task that has returned left its frame.\<close>

datatype wait_phase = Wait_none | Wait_for bool | Wait_returned

record completion =
  counter :: u32
  waits :: "nat list"
  wait_node :: "nat \<Rightarrow> wait_link"
  asleep :: "nat \<Rightarrow> bool"
  phase :: "nat \<Rightarrow> wait_phase"

definition waitqueue_wait_prepare_locked :: "nat \<Rightarrow> completion \<Rightarrow> completion" where
  "waitqueue_wait_prepare_locked task s =
     (if wait_node s task = Wait_init
      then s\<lparr>waits := waits s @ [task], wait_node := (wait_node s)(task := Wait_queued)\<rparr> else s)"

definition waitqueue_wait_state_locked :: "nat \<Rightarrow> completion \<Rightarrow> completion" where
  "waitqueue_wait_state_locked task s =
     waitqueue_wait_prepare_locked task (s\<lparr>asleep := (asleep s)(task := True)\<rparr>)"

definition waitqueue_wakeup_one_locked :: "completion \<Rightarrow> completion option" where
  "waitqueue_wakeup_one_locked s =
     (case waits s of [] \<Rightarrow> Some s
      | first # rest \<Rightarrow>
          (case phase s first of Wait_for forever \<Rightarrow>
             Some (s\<lparr>waits := rest, wait_node := (wait_node s)(first := Wait_poisoned), asleep := (asleep s)(first := False)\<rparr>)
           | _ \<Rightarrow> None))"

function waitqueue_wakeup_all_locked :: "completion \<Rightarrow> completion option" where
  "waitqueue_wakeup_all_locked s =
     (if waits s \<noteq> [] then Option.bind (waitqueue_wakeup_one_locked s) waitqueue_wakeup_all_locked else Some s)"
  by auto
termination
  by (relation "measure (length \<circ> waits)")
    (auto simp: waitqueue_wakeup_one_locked_def split: list.splits wait_phase.splits)

declare waitqueue_wakeup_all_locked.simps [simp del]

section \<open>Completions\<close>

definition completion_init :: completion where
  "completion_init = \<lparr>counter = 0, waits = [], wait_node = (\<lambda>_. Wait_init), asleep = (\<lambda>_. False), phase = (\<lambda>_. Wait_none)\<rparr>"

definition common_take :: "nat \<Rightarrow> completion \<Rightarrow> completion" where
  "common_take task s =
     s\<lparr>counter := (if counter s \<noteq> - 1 then counter s - 1 else counter s), phase := (phase s)(task := Wait_returned)\<rparr>"

text \<open>
  \<open>common_wait\<close> up to the first unlock, and from a lock to the next unlock, with the time that
  \<open>sched_timeout\<close> has left.
\<close>

definition common_wait_enter :: "nat \<Rightarrow> bool \<Rightarrow> completion \<Rightarrow> completion" where
  "common_wait_enter task forever s =
     (let s = s\<lparr>wait_node := (wait_node s)(task := Wait_init), phase := (phase s)(task := Wait_for forever)\<rparr> in
      if counter s = 0 then waitqueue_wait_state_locked task s else common_take task s)"

definition common_wait_resume :: "nat \<Rightarrow> nat \<Rightarrow> completion \<Rightarrow> completion" where
  "common_wait_resume task timeout s =
     (if counter s = 0 \<and> timeout \<noteq> 0 then waitqueue_wait_state_locked task s
      else if counter s = 0 then s\<lparr>phase := (phase s)(task := Wait_returned)\<rparr>
      else common_take task s)"

definition complete_one :: "completion \<Rightarrow> completion option" where
  "complete_one s =
     (let s = (if counter s \<noteq> - 1 then s\<lparr>counter := counter s + 1\<rparr> else s) in waitqueue_wakeup_one_locked s)"

definition complete_all :: "completion \<Rightarrow> completion option" where
  "complete_all s = waitqueue_wakeup_all_locked (s\<lparr>counter := - 1\<rparr>)"

definition completion_done :: "completion \<Rightarrow> bool" where
  "completion_done s = (counter s \<noteq> 0)"

section \<open>Interleavings\<close>

text \<open>
  A task enters when it does not wait and has left no node behind. A sleeping task without a timeout goes on only when it was woken,
  with all of its time left; one with a timeout also when the time is over.
\<close>

datatype comp_op = Enter nat bool | Resume nat nat | CompleteOne | CompleteAll

definition comp_ready :: "comp_op \<Rightarrow> completion \<Rightarrow> bool" where
  "comp_ready op s =
     (case op of
        Enter task forever \<Rightarrow> (case phase s task of Wait_for _ \<Rightarrow> False | _ \<Rightarrow> task \<notin> set (waits s))
      | Resume task timeout \<Rightarrow>
          (case phase s task of
             Wait_for forever \<Rightarrow> if forever then \<not> asleep s task \<and> timeout \<noteq> 0 else \<not> asleep s task \<or> timeout = 0
           | _ \<Rightarrow> False)
      | _ \<Rightarrow> True)"

definition comp_step :: "comp_op \<Rightarrow> completion \<Rightarrow> completion option" where
  "comp_step op s =
     (case op of
        Enter task forever \<Rightarrow> Some (common_wait_enter task forever s)
      | Resume task timeout \<Rightarrow> Some (common_wait_resume task timeout (s\<lparr>asleep := (asleep s)(task := False)\<rparr>))
      | CompleteOne \<Rightarrow> complete_one s
      | CompleteAll \<Rightarrow> complete_all s)"

text \<open>A run that uses a dead node has no result; an operation that is not possible is passed over.\<close>

fun comp_run :: "comp_op list \<Rightarrow> completion \<Rightarrow> completion option" where
  "comp_run [] s = Some s"
| "comp_run (op # ops) s = (if comp_ready op s then Option.bind (comp_step op s) (comp_run ops) else comp_run ops s)"


section \<open>No completion is lost or made up\<close>


lemma prepare_counter [simp]: "counter (waitqueue_wait_state_locked t s) = counter s"
  by (simp add: waitqueue_wait_state_locked_def waitqueue_wait_prepare_locked_def)




section \<open>One waiter\<close>









section \<open>A waiter that nobody wakes\<close>

definition stranded :: "nat \<Rightarrow> completion \<Rightarrow> bool" where
  "stranded t s \<longleftrightarrow> phase s t = Wait_for True \<and> asleep s t \<and> t \<notin> set (waits s)"

lemma stranded_one: "stranded t s \<Longrightarrow> waitqueue_wakeup_one_locked s = Some s' \<Longrightarrow> stranded t s'"
  by (auto simp: stranded_def waitqueue_wakeup_one_locked_def split: list.splits wait_phase.splits)

lemma stranded_all: "stranded t s \<Longrightarrow> waitqueue_wakeup_all_locked s = Some s' \<Longrightarrow> stranded t s'"
proof (induction s arbitrary: s' rule: waitqueue_wakeup_all_locked.induct)
  case (1 s)
  show ?case
  proof (cases "waits s = []")
    case False
    then obtain s1 where "waitqueue_wakeup_one_locked s = Some s1" "waitqueue_wakeup_all_locked s1 = Some s'"
      using "1.prems"(2) by (subst (asm) waitqueue_wakeup_all_locked.simps) (auto split: bind_splits)
    then show ?thesis using "1.IH" [OF False] stranded_one "1.prems"(1) by metis
  qed (use "1.prems" in \<open>simp add: waitqueue_wakeup_all_locked.simps\<close>)
qed

lemma stranded_step: "stranded t s \<Longrightarrow> comp_ready op s \<Longrightarrow> comp_step op s = Some s' \<Longrightarrow> stranded t s'"
proof (cases op)
  case CompleteOne
  assume "stranded t s" "comp_step op s = Some s'"
  then show ?thesis using CompleteOne stranded_one [of t "s\<lparr>counter := counter s + 1\<rparr>" s'] stranded_one [of t s s']
    by (auto simp: comp_step_def complete_one_def Let_def stranded_def split: if_splits)
next
  case CompleteAll
  assume "stranded t s" "comp_step op s = Some s'"
  then show ?thesis using CompleteAll stranded_all [of t "s\<lparr>counter := - 1\<rparr>" s']
    by (simp add: comp_step_def complete_all_def stranded_def)
qed (auto simp: stranded_def comp_ready_def comp_step_def common_wait_enter_def common_wait_resume_def common_take_def
    waitqueue_wait_state_locked_def waitqueue_wait_prepare_locked_def Let_def split: wait_phase.splits if_splits)

lemma stranded_run: "stranded t s \<Longrightarrow> comp_run ops s = Some s' \<Longrightarrow> stranded t s'"
proof (induction ops arbitrary: s)
  case (Cons op ops)
  show ?case
  proof (cases "comp_ready op s")
    case True
    then obtain s1 where "comp_step op s = Some s1" "comp_run ops s1 = Some s'"
      using Cons.prems(2) by (auto split: bind_splits)
    then show ?thesis using Cons.IH stranded_step [OF Cons.prems(1) True] by blast
  qed (use Cons in simp)
qed simp

lemmas eval_defs = comp_ready_def comp_step_def common_wait_enter_def common_wait_resume_def common_take_def
  waitqueue_wait_state_locked_def waitqueue_wait_prepare_locked_def complete_one_def waitqueue_wakeup_one_locked_def
  Let_def completion_init_def

section \<open>Properties\<close>





text \<open>
  C36: with two tasks a wake-up can be lost for ever: a task that was woken finds the completion taken by another
  one, and its poisoned node keeps it from the queue, so no run, not even with a completion for all, wakes it.
  A wait that timed out leaves its node in the queue, where the next completion uses it.
\<close>

theorem completion_loses_wakeup:
  "(\<exists>s. comp_run [Enter 1 True, CompleteOne, Enter 2 True, Resume 1 9] completion_init = Some s \<and>
      (\<exists>s'. comp_step CompleteAll s = Some s') \<and>
      (\<forall>ops. case comp_run ops s of None \<Rightarrow> True | Some s' \<Rightarrow> phase s' 1 = Wait_for True \<and> asleep s' 1)) \<and>
   (\<exists>s. comp_run [Enter 1 False, Resume 1 0] completion_init = Some s \<and> comp_step CompleteOne s = None)"
proof -
  let ?ops = "[Enter 1 True, CompleteOne, Enter 2 True, Resume 1 9]"
  obtain s where s: "comp_run ?ops completion_init = Some s" "stranded 1 s" "waits s = []"
    by (simp add: eval_defs stranded_def)
  have "case comp_run ops s of None \<Rightarrow> True | Some s' \<Rightarrow> phase s' 1 = Wait_for True \<and> asleep s' 1" for ops
    using stranded_run [OF s(2), of ops] by (auto simp: stranded_def split: option.splits)
  moreover have "\<exists>s'. comp_step CompleteAll s = Some s'"
    using s(3) by (simp add: comp_step_def complete_all_def waitqueue_wakeup_all_locked.simps)
  moreover have "\<exists>s. comp_run [Enter 1 False, Resume 1 0] completion_init = Some s \<and> comp_step CompleteOne s = None"
    by (simp add: eval_defs)
  ultimately show ?thesis using s(1) by blast
qed

end
