(* ===== verification/Sort.thy ===== *)
theory Sort
  imports Prelude
begin

text \<open>
  Sorting and searching of arrays: \<^verbatim>\<open>lib/sort.c\<close> and \<^verbatim>\<open>include/bsearch.h\<close>. An array is the
  list of its cells. The heap sort computes with offsets into the array, which are in bytes and 64 bits
  wide as in the code; a comparison is the function with its data applied. The paths down a heap and the
  invariants of the sorts follow the model; the loops are proved in \<^verbatim>\<open>Sort_Loops\<close>.
\<close>

section \<open>The heap sort of the code\<close>

type_synonym 'a sort_cmp = "'a \<Rightarrow> 'a \<Rightarrow> int"

definition sort_cell :: "64 word \<Rightarrow> 'a list \<Rightarrow> 64 word \<Rightarrow> 'a" where
  "sort_cell cells xs off = xs ! unat (off div cells)"

definition swap_cells :: "nat \<Rightarrow> nat \<Rightarrow> 'a list \<Rightarrow> 'a list" where
  "swap_cells i j xs = xs[i := xs ! j, j := xs ! i]"

definition sort_swap :: "64 word \<Rightarrow> 64 word \<Rightarrow> 64 word \<Rightarrow> 'a list \<Rightarrow> 'a list" where
  "sort_swap cells cela celb xs = swap_cells (unat (cela div cells)) (unat (celb div cells)) xs"

definition sort_parent :: "64 word \<Rightarrow> 32 word \<Rightarrow> 64 word \<Rightarrow> 64 word" where
  "sort_parent cells lsbit index =
     (let index = index - cells;
          index = index - and cells (- (and index (ucast lsbit)))
      in drop_bit 1 index)"

text \<open>The three loops within the main loop: down along the greater children, up again, and the exchange.\<close>

partial_function (option) qsort_down ::
  "'a sort_cmp \<Rightarrow> 64 word \<Rightarrow> 64 word \<Rightarrow> 'a list \<Rightarrow> 64 word \<Rightarrow> (64 word \<times> 64 word \<times> 64 word) option" where
  "qsort_down cmp cells bytes xs idb =
     (let idc = 2 * idb + cells; idd = idc + cells in
      if idd < bytes then
        qsort_down cmp cells bytes xs (if cmp (sort_cell cells xs idc) (sort_cell cells xs idd) \<ge> 0 then idc else idd)
      else Some (idb, idc, idd))"

partial_function (option) qsort_up ::
  "'a sort_cmp \<Rightarrow> 64 word \<Rightarrow> 32 word \<Rightarrow> 64 word \<Rightarrow> 'a list \<Rightarrow> 64 word \<Rightarrow> 64 word option" where
  "qsort_up cmp cells lsbit ida xs idb =
     (if ida \<noteq> idb \<and> cmp (sort_cell cells xs ida) (sort_cell cells xs idb) \<ge> 0
      then qsort_up cmp cells lsbit ida xs (sort_parent cells lsbit idb)
      else Some idb)"

partial_function (option) qsort_rotate ::
  "64 word \<Rightarrow> 32 word \<Rightarrow> 64 word \<Rightarrow> 64 word \<Rightarrow> 64 word \<Rightarrow> 'a list \<Rightarrow> 'a list option" where
  "qsort_rotate cells lsbit ida idc idb xs =
     (if ida \<noteq> idb then
        let idb = sort_parent cells lsbit idb in
        qsort_rotate cells lsbit ida idc idb (sort_swap cells idb idc xs)
      else Some xs)"

definition qsort_sift ::
  "'a sort_cmp \<Rightarrow> 64 word \<Rightarrow> 32 word \<Rightarrow> 64 word \<Rightarrow> 64 word \<Rightarrow> 'a list \<Rightarrow> 'a list option" where
  "qsort_sift cmp cells lsbit ida bytes xs =
     (case qsort_down cmp cells bytes xs ida of None \<Rightarrow> None
      | Some (idb, idc, idd) \<Rightarrow>
          (let idb = (if idd = bytes then idc else idb) in
           case qsort_up cmp cells lsbit ida xs idb of None \<Rightarrow> None
           | Some idb \<Rightarrow> qsort_rotate cells lsbit ida idb idb xs))"

partial_function (option) qsort_loop ::
  "'a sort_cmp \<Rightarrow> 64 word \<Rightarrow> 32 word \<Rightarrow> 64 word \<Rightarrow> 64 word \<Rightarrow> 'a list \<Rightarrow> 'a list option" where
  "qsort_loop cmp cells lsbit ida bytes xs =
     (if ida \<noteq> 0 then
        let ida = ida - cells in
        Option.bind (qsort_sift cmp cells lsbit ida bytes xs) (qsort_loop cmp cells lsbit ida bytes)
      else
        let bytes = bytes - cells in
        if bytes \<noteq> 0 then
          Option.bind (qsort_sift cmp cells lsbit ida bytes (sort_swap cells 0 bytes xs)) (qsort_loop cmp cells lsbit ida bytes)
        else Some xs)"

text \<open>A null pointer for the array is 0, for the comparison \<open>None\<close>. The result is the error code and the array.\<close>

definition qsort :: "nat \<Rightarrow> 64 word \<Rightarrow> 64 word \<Rightarrow> 'a sort_cmp option \<Rightarrow> 'a list \<Rightarrow> (errno \<times> 'a list) option" where
  "qsort base number cells cmp xs =
     (let lsbit = ucast (and cells (- cells)) :: 32 word;
          bytes = number * cells;
          ida = (number div 2) * cells
      in if base = 0 \<or> cmp = None \<or> ida = 0 then Some (EINVAL, xs)
         else map_option (Pair ENOERR) (qsort_loop (the cmp) cells lsbit ida bytes xs))"

section \<open>The bubble sort of the code\<close>

text \<open>A pass over the first cells: whether something was exchanged, and the array.\<close>

partial_function (option) bsort_pass ::
  "'a sort_cmp \<Rightarrow> 64 word \<Rightarrow> 32 word \<Rightarrow> nat \<Rightarrow> bool \<Rightarrow> 'a list \<Rightarrow> (bool \<times> 'a list) option" where
  "bsort_pass cmp number nr prev swapped xs =
     (if ucast nr < number then
        let walk = unat nr in
        if cmp (xs ! prev) (xs ! walk) > 0
        then bsort_pass cmp number (nr + 1) walk True (swap_cells walk prev xs)
        else bsort_pass cmp number (nr + 1) walk swapped xs
      else Some (swapped, xs))"

partial_function (option) bsort_loop :: "'a sort_cmp \<Rightarrow> 64 word \<Rightarrow> bool \<Rightarrow> 'a list \<Rightarrow> 'a list option" where
  "bsort_loop cmp number swapped xs =
     (if swapped then
        Option.bind (bsort_pass cmp number 1 0 False xs) (\<lambda>(swapped, xs). bsort_loop cmp (number - 1) swapped xs)
      else Some xs)"

definition bsort :: "nat \<Rightarrow> 64 word \<Rightarrow> 64 word \<Rightarrow> 'a sort_cmp option \<Rightarrow> 'a list \<Rightarrow> (errno \<times> 'a list) option" where
  "bsort base number cells cmp xs =
     (if base = 0 \<or> number < 2 \<or> cells = 0 \<or> cmp = None then Some (EINVAL, xs)
      else map_option (Pair ENOERR) (bsort_loop (the cmp) number True xs))"

section \<open>Binary search\<close>

text \<open>The index of the first cell of the rest, the number of its cells; the result is the index found.\<close>

function bsearch_loop :: "('a \<Rightarrow> int) \<Rightarrow> 'a list \<Rightarrow> nat \<Rightarrow> nat \<Rightarrow> nat option" where
  "bsearch_loop cmp xs base num =
     (if num = 0 then None
      else let pivot = base + num div 2; result = cmp (xs ! pivot) in
        if result = 0 then Some pivot
        else if result < 0 then bsearch_loop cmp xs (pivot + 1) ((num - 1) div 2)
        else bsearch_loop cmp xs base (num div 2))"
  by auto
termination by (relation "measure (\<lambda>(cmp, xs, base, num). num)") auto

definition bsearch :: "('a \<Rightarrow> int) \<Rightarrow> 'a list \<Rightarrow> nat \<Rightarrow> nat option" where
  "bsearch cmp xs num = bsearch_loop cmp xs 0 num"

declare bsearch_loop.simps [simp del]

section \<open>Swapping cells\<close>

lemma swap_length [simp]: "length (swap_cells i j xs) = length xs"
  by (simp add: swap_cells_def)

lemma swap_nth: "i < length xs \<Longrightarrow> j < length xs \<Longrightarrow>
  swap_cells i j xs ! k = (if k = i then xs ! j else if k = j then xs ! i else xs ! k)"
  by (auto simp: swap_cells_def nth_list_update)

lemma swap_mset [simp]: "i < length xs \<Longrightarrow> j < length xs \<Longrightarrow> mset (swap_cells i j xs) = mset xs"
  unfolding swap_cells_def by (rule mset_swap)

lemma swap_commute: "i < length xs \<Longrightarrow> j < length xs \<Longrightarrow> swap_cells i j xs = swap_cells j i xs"
  by (rule nth_equalityI) (auto simp: swap_nth)

lemma swap_three:
  assumes "p < length xs" "q < length xs" "r < length xs" "p \<noteq> q" "p \<noteq> r" "q \<noteq> r"
  shows "swap_cells p r (swap_cells q r xs) = swap_cells q r (swap_cells p q xs)"
  by (rule nth_equalityI) (use assms in \<open>auto simp: swap_nth\<close>)

section \<open>Paths in a heap\<close>

text \<open>Cell \<open>i\<close> has the children \<open>2 i + 1\<close> and \<open>2 i + 2\<close>. The path down along the greater children.\<close>

function heap_path :: "'a sort_cmp \<Rightarrow> nat \<Rightarrow> 'a list \<Rightarrow> nat \<Rightarrow> nat list" where
  "heap_path cmp n xs i = i #
     (if 2 * i + 2 < n then heap_path cmp n xs (if cmp (xs ! (2 * i + 1)) (xs ! (2 * i + 2)) \<ge> 0 then 2 * i + 1 else 2 * i + 2)
      else if 2 * i + 2 = n then [2 * i + 1] else [])"
  by auto
termination by (relation "measure (\<lambda>(cmp, n, xs, i). n - i)") auto

declare heap_path.simps [simp del]

text \<open>Exchanging along a path, from the top.\<close>

fun rotate_path :: "nat list \<Rightarrow> 'a list \<Rightarrow> 'a list" where
  "rotate_path (p # q # ps) xs = rotate_path (q # ps) (swap_cells p q xs)"
| "rotate_path _ xs = xs"

lemma rotate_path_length [simp]: "length (rotate_path ps xs) = length xs"
  by (induction ps xs rule: rotate_path.induct) simp_all

lemma rotate_path_mset: "\<forall>p \<in> set ps. p < length xs \<Longrightarrow> mset (rotate_path ps xs) = mset xs"
  by (induction ps xs rule: rotate_path.induct) simp_all

lemma rotate_path_outside: "\<forall>p \<in> set ps. p < length xs \<Longrightarrow> k \<notin> set ps \<Longrightarrow> rotate_path ps xs ! k = xs ! k"
  by (induction ps xs rule: rotate_path.induct) (auto simp: swap_nth)

text \<open>The code exchanges from below, always with the last cell of the path.\<close>

lemma rotate_path_top:
  assumes "distinct (p # q # ps)" "\<forall>k \<in> set (p # q # ps). k < length xs"
  shows "swap_cells p (last (q # ps)) (rotate_path (q # ps) xs) = rotate_path (p # q # ps) xs"
  using assms
proof (induction ps arbitrary: q xs)
  case (Cons r ps)
  have "swap_cells p (last (q # r # ps)) (rotate_path (q # r # ps) xs) =
      swap_cells p (last (r # ps)) (rotate_path (r # ps) (swap_cells q r xs))" by simp
  also have "\<dots> = rotate_path (p # r # ps) (swap_cells q r xs)"
    using Cons.IH [of r "swap_cells q r xs"] Cons.prems by simp
  also have "\<dots> = rotate_path (r # ps) (swap_cells q r (swap_cells p q xs))"
    using swap_three [of p xs q r] Cons.prems by simp
  finally show ?case by simp
qed simp

section \<open>Heaps\<close>

locale sort_order =
  fixes cmp :: "'a sort_cmp"
  assumes flip: "cmp x y < 0 \<longleftrightarrow> cmp y x > 0"
    and ge_trans: "cmp x y \<ge> 0 \<Longrightarrow> cmp y z \<ge> 0 \<Longrightarrow> cmp x z \<ge> 0"
begin

lemma ge_total: "\<not> cmp x y \<ge> 0 \<Longrightarrow> cmp y x \<ge> 0"
  using flip [of x y] by linarith

lemma ge_refl: "cmp x x \<ge> 0"
  using flip [of x x] by linarith

end

definition heap_from :: "'a sort_cmp \<Rightarrow> nat \<Rightarrow> nat \<Rightarrow> 'a list \<Rightarrow> bool" where
  "heap_from cmp n l xs \<longleftrightarrow>
     (\<forall>k < n. 0 < k \<longrightarrow> l \<le> (k - 1) div 2 \<longrightarrow> cmp (xs ! ((k - 1) div 2)) (xs ! k) \<ge> 0)"

text \<open>A path that takes the greater child each time and ends at a cell without children.\<close>

fun great_path :: "'a sort_cmp \<Rightarrow> nat \<Rightarrow> 'a list \<Rightarrow> nat list \<Rightarrow> bool" where
  "great_path cmp n xs (p # q # ps) \<longleftrightarrow> (q = 2 * p + 1 \<or> q = 2 * p + 2) \<and> q < n \<and>
     (\<forall>k < n. k = 2 * p + 1 \<or> k = 2 * p + 2 \<longrightarrow> cmp (xs ! q) (xs ! k) \<ge> 0) \<and> great_path cmp n xs (q # ps)"
| "great_path cmp n xs [p] \<longleftrightarrow> n \<le> 2 * p + 1"
| "great_path cmp n xs [] \<longleftrightarrow> False"

lemma great_path_increases: "great_path cmp n xs (p # ps) \<Longrightarrow> sorted_wrt (<) (p # ps) \<and> (\<forall>q \<in> set ps. q < n)"
proof (induction ps arbitrary: p)
  case (Cons q ps)
  then have "sorted_wrt (<) (q # ps)" "\<forall>r \<in> set ps. r < n" "q < n" "p < q" by auto
  then show ?case by auto
qed simp

lemma great_path_parent:
  "great_path cmp n xs ps \<Longrightarrow> Suc i < length ps \<Longrightarrow> ps ! i = (ps ! Suc i - 1) div 2 \<and> 0 < ps ! Suc i"
proof (induction cmp n xs ps arbitrary: i rule: great_path.induct)
  case (1 cmp n xs p q ps)
  then show ?case by (cases i) auto
qed simp_all

text \<open>Changes above a path do not matter to it.\<close>

lemma great_path_cong:
  "great_path cmp n xs (p # ps) \<Longrightarrow> \<forall>k < n. p < k \<longrightarrow> ys ! k = xs ! k \<Longrightarrow> great_path cmp n ys (p # ps)"
proof (induction ps arbitrary: p)
  case (Cons q ps)
  then have "great_path cmp n ys (q # ps)" by auto
  moreover have "cmp (ys ! q) (ys ! k) \<ge> 0" if "k < n" "k = 2 * p + 1 \<or> k = 2 * p + 2" for k
    using Cons.prems that by auto
  ultimately show ?case using Cons.prems(1) by auto
qed simp

context sort_order begin

lemma heap_path_great: "i < n \<Longrightarrow> great_path cmp n xs (heap_path cmp n xs i)"
proof (induction "n - i" arbitrary: i rule: less_induct)
  case less
  let ?c = "if cmp (xs ! (2 * i + 1)) (xs ! (2 * i + 2)) \<ge> 0 then 2 * i + 1 else 2 * i + 2"
  consider (two) "2 * i + 2 < n" | (one) "2 * i + 2 = n" | (none) "n < 2 * i + 2" by linarith
  then show ?case
  proof cases
    case two
    then have "great_path cmp n xs (heap_path cmp n xs ?c)" by (intro less(1)) auto
    moreover obtain ps where "heap_path cmp n xs ?c = ?c # ps" by (subst (asm) heap_path.simps) auto
    moreover have "cmp (xs ! ?c) (xs ! k) \<ge> 0" if "k = 2 * i + 1 \<or> k = 2 * i + 2" for k
      using that ge_total ge_refl by auto
    ultimately show ?thesis using two by (subst heap_path.simps) auto
  next
    case one
    then show ?thesis using ge_refl by (subst heap_path.simps) auto
  next
    case none
    then show ?thesis by (subst heap_path.simps) auto
  qed
qed

text \<open>Along a path in a heap the cells fall.\<close>

lemma great_path_falls:
  assumes "great_path cmp n xs (p # ps)" "heap_from cmp n (p + 1) xs"
  shows "sorted_wrt (\<lambda>a b. cmp (xs ! a) (xs ! b) \<ge> 0) ps"
  using assms
proof (induction ps arbitrary: p)
  case (Cons q ps)
  have h: "heap_from cmp n (q + 1) xs" using Cons.prems unfolding heap_from_def by auto
  have s: "sorted_wrt (\<lambda>a b. cmp (xs ! a) (xs ! b) \<ge> 0) ps" using Cons.IH [of q] Cons.prems(1) h by auto
  show ?case
  proof (cases ps)
    case (Cons r rs)
    have "r < n" "0 < r" "(r - 1) div 2 = q" "p < q" using Cons.prems(1) \<open>ps = r # rs\<close> by auto
    then have "cmp (xs ! q) (xs ! r) \<ge> 0" using Cons.prems(2) unfolding heap_from_def by force
    then show ?thesis using s \<open>ps = r # rs\<close> ge_trans by auto
  qed simp
qed simp

text \<open>
  Sinking a cell: the path is cut where the cell is not less than the next; the relations of the heap
  may fail only at the cell that sinks.
\<close>

lemma rotate_heap:
  assumes "great_path cmp n xs (p # qs @ rs)" "n \<le> length xs" "p < n" "l \<le> p"
    and "\<forall>q \<in> set qs. cmp (xs ! q) (xs ! p) \<ge> 0" "rs \<noteq> [] \<Longrightarrow> cmp (xs ! p) (xs ! hd rs) \<ge> 0"
    and "\<forall>k < n. 0 < k \<longrightarrow> l \<le> (k - 1) div 2 \<longrightarrow> (k - 1) div 2 \<noteq> p \<longrightarrow> cmp (xs ! ((k - 1) div 2)) (xs ! k) \<ge> 0"
    and "\<forall>k < n. 0 < k \<longrightarrow> (k - 1) div 2 = p \<longrightarrow> 0 < p \<longrightarrow> l \<le> (p - 1) div 2 \<longrightarrow> cmp (xs ! ((p - 1) div 2)) (xs ! k) \<ge> 0"
  shows "heap_from cmp n l (rotate_path (p # qs) xs)"
  using assms
proof (induction qs arbitrary: p xs)
  case Nil
  have "cmp (xs ! p) (xs ! k) \<ge> 0" if "k < n" "0 < k" "(k - 1) div 2 = p" for k
  proof -
    have k: "k = 2 * p + 1 \<or> k = 2 * p + 2" using that by auto
    show ?thesis
    proof (cases rs)
      case Nil
      then show ?thesis using Nil.prems(1) k that(1) \<open>rs = []\<close> by auto
    next
      case (Cons r rs')
      then have "cmp (xs ! r) (xs ! k) \<ge> 0" "cmp (xs ! p) (xs ! r) \<ge> 0" using Nil.prems(1,6) k that(1) by auto
      then show ?thesis using ge_trans by blast
    qed
  qed
  then show ?case using Nil.prems(7) unfolding heap_from_def by auto
next
  case (Cons q qs)
  let ?ys = "swap_cells p q xs"
  have q: "q = 2 * p + 1 \<or> q = 2 * p + 2" "q < n" "p < q" "(q - 1) div 2 = p" using Cons.prems(1) by auto
  have great: "cmp (xs ! q) (xs ! k) \<ge> 0" if "k < n" "0 < k" "(k - 1) div 2 = p" for k
  proof -
    have "k = 2 * p + 1 \<or> k = 2 * p + 2" using that by auto
    then show ?thesis using Cons.prems(1) that(1) by auto
  qed
  have ys: "?ys ! k = (if k = p then xs ! q else if k = q then xs ! p else xs ! k)" for k
    using Cons.prems(2) q by (simp add: swap_nth)
  have path: "great_path cmp n ?ys (q # qs @ rs)"
    by (rule great_path_cong [of cmp n xs]) (use Cons.prems(1) q ys in auto)
  have inc: "\<forall>r \<in> set (qs @ rs). q < r"
    using great_path_increases [of cmp n xs q "qs @ rs"] Cons.prems(1) by auto
  have a: "\<forall>r \<in> set qs. cmp (?ys ! r) (?ys ! q) \<ge> 0" using Cons.prems(5) inc q(3) by (auto simp: ys)
  have b: "rs \<noteq> [] \<Longrightarrow> cmp (?ys ! q) (?ys ! hd rs) \<ge> 0"
    using Cons.prems(6) inc q(3) by (cases rs) (auto simp: ys)
  have c: "cmp (?ys ! ((k - 1) div 2)) (?ys ! k) \<ge> 0"
    if k: "k < n" "0 < k" "l \<le> (k - 1) div 2" "(k - 1) div 2 \<noteq> q" for k
  proof -
    consider "(k - 1) div 2 = p" "k = q" | "(k - 1) div 2 = p" "k \<noteq> q" | "k = p" | "(k - 1) div 2 \<noteq> p" "k \<noteq> p" by blast
    then show ?thesis
    proof cases
      case 1
      then show ?thesis using Cons.prems(5) q(3) by (simp add: ys)
    next
      case 2
      then have "k \<noteq> p" using k(2) by auto
      then show ?thesis using 2 great [OF k(1,2)] by (simp add: ys)
    next
      case 3
      then have "(k - 1) div 2 \<noteq> p" "cmp (xs ! ((p - 1) div 2)) (xs ! q) \<ge> 0"
        using k Cons.prems(8) q by auto
      then show ?thesis using 3 k(4) q by (simp add: ys)
    next
      case 4
      then have "k \<noteq> q" using q(4) by auto
      then show ?thesis using 4 k Cons.prems(7) by (simp add: ys)
    qed
  qed
  have d: "cmp (?ys ! ((q - 1) div 2)) (?ys ! k) \<ge> 0" if k: "k < n" "0 < k" "(k - 1) div 2 = q" for k
  proof -
    have "k \<noteq> p" "k \<noteq> q" using k q by auto
    moreover have "cmp (xs ! q) (xs ! k) \<ge> 0" using Cons.prems(4,7) k q by auto
    ultimately show ?thesis using q(4) by (simp add: ys)
  qed
  have "heap_from cmp n l (rotate_path (q # qs) ?ys)"
    by (rule Cons.IH [OF path _ q(2) _ a b]) (use Cons.prems(2,4) q c d in auto)
  then show ?case by simp
qed

end

section \<open>Sinking a cell\<close>

definition keep_path :: "'a sort_cmp \<Rightarrow> 'a list \<Rightarrow> nat \<Rightarrow> nat list \<Rightarrow> nat list" where
  "keep_path cmp xs p ps = rev (dropWhile (\<lambda>q. cmp (xs ! p) (xs ! q) \<ge> 0) (rev ps))"

definition heap_sift :: "'a sort_cmp \<Rightarrow> nat \<Rightarrow> nat \<Rightarrow> 'a list \<Rightarrow> 'a list" where
  "heap_sift cmp n i xs = rotate_path (i # keep_path cmp xs i (tl (heap_path cmp n xs i))) xs"

lemma keep_path_split:
  "\<exists>rs. ps = keep_path cmp xs p ps @ rs \<and> (rs \<noteq> [] \<longrightarrow> cmp (xs ! p) (xs ! hd rs) \<ge> 0) \<and>
    (keep_path cmp xs p ps \<noteq> [] \<longrightarrow> \<not> cmp (xs ! p) (xs ! last (keep_path cmp xs p ps)) \<ge> 0)"
proof -
  let ?Q = "\<lambda>q. cmp (xs ! p) (xs ! q) \<ge> 0"
  let ?rs = "rev (takeWhile ?Q (rev ps))"
  have "rev ps = takeWhile ?Q (rev ps) @ dropWhile ?Q (rev ps)" by simp
  then have "ps = keep_path cmp xs p ps @ ?rs" unfolding keep_path_def by (metis rev_append rev_rev_ident)
  moreover have "?Q (hd ?rs)" if "?rs \<noteq> []"
    using that by (metis hd_in_set set_rev set_takeWhileD)
  moreover have "\<not> ?Q (last (keep_path cmp xs p ps))" if "keep_path cmp xs p ps \<noteq> []"
    using that hd_dropWhile [of ?Q "rev ps"] unfolding keep_path_def by (simp add: last_rev)
  ultimately show ?thesis by blast
qed

lemma heap_path_Cons: "heap_path cmp n xs i = i # tl (heap_path cmp n xs i)"
  by (subst (1 2) heap_path.simps) simp

lemma rotate_path_take:
  "\<forall>p \<in> set ps. p < n \<Longrightarrow> n \<le> length xs \<Longrightarrow> take n (rotate_path ps xs) = rotate_path ps (take n xs) \<and> drop n (rotate_path ps xs) = drop n xs"
proof (induction ps xs rule: rotate_path.induct)
  case (1 p q ps xs)
  have "take n (swap_cells p q xs) = swap_cells p q (take n xs)" "drop n (swap_cells p q xs) = drop n xs"
    using 1(2,3) by (simp_all add: swap_cells_def take_update_swap drop_update_cancel)
  then show ?case using 1 by simp
qed simp_all

text \<open>The cells of the front are permuted.\<close>

definition same_front :: "nat \<Rightarrow> 'a list \<Rightarrow> 'a list \<Rightarrow> bool" where
  "same_front n xs ys \<longleftrightarrow> mset (take n ys) = mset (take n xs) \<and> drop n ys = drop n xs \<and> length ys = length xs"

lemma same_front_trans: "same_front n xs ys \<Longrightarrow> same_front n ys zs \<Longrightarrow> same_front n xs zs"
  by (simp add: same_front_def)

lemma same_front_mset: "same_front n xs ys \<Longrightarrow> mset ys = mset xs"
  unfolding same_front_def by (metis append_take_drop_id mset_append)

lemma same_front_set:
  assumes "same_front n xs ys" "n \<le> j"
  shows "set (take j ys) = set (take j xs)"
proof -
  have "take j zs = take n zs @ take (j - n) (drop n zs)" for zs :: "'a list"
    using assms(2) take_add [of n "j - n" zs] by simp
  moreover have "set (take n ys) = set (take n xs)" using assms(1) unfolding same_front_def by (metis mset_eq_setD)
  ultimately show ?thesis using assms(1) by (metis same_front_def set_append)
qed

lemma same_front_nth: "same_front n xs ys \<Longrightarrow> n \<le> j \<Longrightarrow> j < length xs \<Longrightarrow> ys ! j = xs ! j"
  using nth_drop [of n xs "j - n"] nth_drop [of n ys "j - n"] by (simp add: same_front_def)

lemma rotate_same_front: "\<forall>p \<in> set ps. p < n \<Longrightarrow> n \<le> length xs \<Longrightarrow> same_front n xs (rotate_path ps xs)"
  unfolding same_front_def using rotate_path_take [of ps n xs] rotate_path_mset [of ps "take n xs"] by auto

lemma swap_same_front: "i < n \<Longrightarrow> j < n \<Longrightarrow> n \<le> length xs \<Longrightarrow> same_front n xs (swap_cells i j xs)"
  using rotate_same_front [of "[i, j]" n xs] by simp

context sort_order begin

lemma heap_sift_heap:
  assumes "i < n" "n \<le> length xs" "heap_from cmp n (i + 1) xs"
  shows "heap_from cmp n i (heap_sift cmp n i xs)"
proof -
  let ?ps = "tl (heap_path cmp n xs i)" and ?qs = "keep_path cmp xs i (tl (heap_path cmp n xs i))"
  obtain rs where rs: "?ps = ?qs @ rs" "rs \<noteq> [] \<longrightarrow> cmp (xs ! i) (xs ! hd rs) \<ge> 0"
    "?qs \<noteq> [] \<longrightarrow> \<not> cmp (xs ! i) (xs ! last ?qs) \<ge> 0" using keep_path_split by metis
  have g: "great_path cmp n xs (i # ?qs @ rs)"
    using heap_path_great [OF assms(1), of xs] heap_path_Cons [of cmp n xs i] rs(1) by simp
  have "sorted_wrt (\<lambda>a b. cmp (xs ! a) (xs ! b) \<ge> 0) (?qs @ rs)" by (rule great_path_falls [OF g assms(3)])
  then have s: "sorted_wrt (\<lambda>a b. cmp (xs ! a) (xs ! b) \<ge> 0) ?qs" by (simp add: sorted_wrt_append)
  have up: "\<forall>q \<in> set ?qs. cmp (xs ! q) (xs ! i) \<ge> 0"
  proof
    fix q assume q: "q \<in> set ?qs"
    then have ne: "?qs \<noteq> []" by auto
    then have "cmp (xs ! last ?qs) (xs ! i) \<ge> 0" using rs(3) ge_total by blast
    moreover have "cmp (xs ! q) (xs ! last ?qs) \<ge> 0"
    proof -
      obtain us vs where qs: "?qs = us @ q # vs" using q split_list by metis
      then have "\<forall>v \<in> set vs. cmp (xs ! q) (xs ! v) \<ge> 0" using s by (simp add: sorted_wrt_append)
      then show ?thesis using qs ge_refl by (cases "vs = []") auto
    qed
    ultimately show "cmp (xs ! q) (xs ! i) \<ge> 0" using ge_trans by blast
  qed
  show ?thesis unfolding heap_sift_def
  proof (rule rotate_heap [OF g assms(2,1) order.refl up])
    show "rs \<noteq> [] \<Longrightarrow> cmp (xs ! i) (xs ! hd rs) \<ge> 0" using rs(2) by simp
    show "\<forall>k < n. 0 < k \<longrightarrow> i \<le> (k - 1) div 2 \<longrightarrow> (k - 1) div 2 \<noteq> i \<longrightarrow> cmp (xs ! ((k - 1) div 2)) (xs ! k) \<ge> 0"
      using assms(3) unfolding heap_from_def by auto
    have "\<not> (0 < i \<and> i \<le> (i - 1) div 2)" by (cases i) auto
    then show "\<forall>k < n. 0 < k \<longrightarrow> (k - 1) div 2 = i \<longrightarrow> 0 < i \<longrightarrow> i \<le> (i - 1) div 2 \<longrightarrow> cmp (xs ! ((i - 1) div 2)) (xs ! k) \<ge> 0"
      by blast
  qed
qed

lemma heap_sift_front:
  assumes "i < n" "n \<le> length xs"
  shows "same_front n xs (heap_sift cmp n i xs)"
proof -
  let ?ps = "tl (heap_path cmp n xs i)"
  have "great_path cmp n xs (i # ?ps)" using heap_path_great [OF assms(1), of xs] heap_path_Cons [of cmp n xs i] by simp
  then have "\<forall>q \<in> set ?ps. q < n" using great_path_increases by blast
  moreover have "set (keep_path cmp xs i ?ps) \<subseteq> set ?ps" unfolding keep_path_def using set_dropWhileD by fastforce
  ultimately have "\<forall>p \<in> set (i # keep_path cmp xs i ?ps). p < n" using assms(1) by auto
  then show ?thesis unfolding heap_sift_def by (rule rotate_same_front [OF _ assms(2)])
qed

lemma heap_root:
  assumes "heap_from cmp n 0 xs" "k < n"
  shows "cmp (xs ! 0) (xs ! k) \<ge> 0"
  using assms(2)
proof (induction k rule: less_induct)
  case (less k)
  show ?case
  proof (cases "k = 0")
    case False
    then have "cmp (xs ! 0) (xs ! ((k - 1) div 2)) \<ge> 0" "cmp (xs ! ((k - 1) div 2)) (xs ! k) \<ge> 0"
      using less assms(1) unfolding heap_from_def by auto
    then show ?thesis by (rule ge_trans)
  qed (simp add: ge_refl)
qed

end

text \<open>From an index on the cells are in order and not less than all before them.\<close>

definition sorted_from :: "'a sort_cmp \<Rightarrow> nat \<Rightarrow> 'a list \<Rightarrow> bool" where
  "sorted_from cmp m xs \<longleftrightarrow> (\<forall>j. m \<le> j \<longrightarrow> j < length xs \<longrightarrow> (\<forall>v \<in> set (take j xs). cmp (xs ! j) v \<ge> 0))"

definition sort_sorted :: "'a sort_cmp \<Rightarrow> 'a list \<Rightarrow> bool" where
  "sort_sorted cmp xs \<longleftrightarrow> sorted_wrt (\<lambda>a b. cmp b a \<ge> 0) xs"

lemma sorted_from_front:
  assumes "same_front n xs ys" "n \<le> m" "sorted_from cmp m xs"
  shows "sorted_from cmp m ys"
  unfolding sorted_from_def
proof (intro allI impI)
  fix j assume j: "m \<le> j" "j < length ys"
  then have "n \<le> j" "j < length xs" using assms(1,2) by (auto simp: same_front_def)
  then show "\<forall>v \<in> set (take j ys). cmp (ys ! j) v \<ge> 0"
    using same_front_set [OF assms(1)] same_front_nth [OF assms(1)] assms(3) j(1) by (auto simp: sorted_from_def)
qed

lemma sorted_from_1: "sorted_from cmp 1 xs \<Longrightarrow> sort_sorted cmp xs"
  unfolding sort_sorted_def sorted_wrt_iff_nth_less sorted_from_def
proof (intro allI impI)
  fix i j assume h: "\<forall>j \<ge> 1. j < length xs \<longrightarrow> (\<forall>v \<in> set (take j xs). cmp (xs ! j) v \<ge> 0)" and ij: "i < j" "j < length xs"
  then have "xs ! i \<in> set (take j xs)" by (metis in_set_conv_nth length_take min_less_iff_conj nth_take order.strict_trans)
  then show "cmp (xs ! j) (xs ! i) \<ge> 0" using h ij by auto
qed

lemma sorted_from_step:
  assumes "sorted_from cmp (Suc m) xs" "\<forall>v \<in> set (take m xs). cmp (xs ! m) v \<ge> 0"
  shows "sorted_from cmp m xs"
  unfolding sorted_from_def
proof (intro allI impI)
  fix j assume "m \<le> j" "j < length xs"
  then show "\<forall>v \<in> set (take j xs). cmp (xs ! j) v \<ge> 0"
    using assms unfolding sorted_from_def by (cases "j = m") auto
qed

end
