(* ===== verification/Sort_Loops.thy ===== *)
theory Sort_Loops
  imports Sort
begin

text \<open>
  The loops of \<^verbatim>\<open>lib/sort.c\<close> and \<^verbatim>\<open>include/bsearch.h\<close>: the offsets in bytes are the cells of the paths
  of \<^verbatim>\<open>Sort\<close>, so the loops end and the sorts sort; the search finds what is there.
\<close>

section \<open>The offsets of the code\<close>

lemma odd_word_and_minus:
  fixes w :: "64 word"
  assumes "odd w"
  shows "and w (- w) = 1"
proof -
  have "even (not w)" using assms by simp
  then have "- w = or (not w) 1" by (simp add: minus_eq_not_plus_1 or_one_eq)
  then have "and w (- w) = or (and w (not w)) (and w 1)" by (simp add: bit.conj_disj_distrib)
  then show ?thesis using assms by (simp add: and_one_eq odd_iff_mod_2_eq_one)
qed

lemma push_bit_minus: "- push_bit e (w :: 64 word) = push_bit e (- w)"
  by (simp add: push_bit_eq_mult)

text \<open>The size of a cell is an odd number times a power of two.\<close>

lemma odd_part: "0 < c \<Longrightarrow> \<exists>e m. c = 2 ^ e * m \<and> odd (m :: nat)"
proof (induction c rule: less_induct)
  case (less c)
  show ?case
  proof (cases "odd c")
    case True
    then show ?thesis by (intro exI [of _ 0] exI [of _ c]) simp
  next
    case False
    then obtain d where d: "c = 2 * d" by blast
    then obtain e m where "d = 2 ^ e * m" "odd m" using less by (metis less_add_same_cancel1 mult_2 nat_0_less_mult_iff)
    then show ?thesis using d by (intro exI [of _ "Suc e"] exI [of _ m]) simp
  qed
qed

definition off :: "64 word \<Rightarrow> nat \<Rightarrow> 64 word" where
  "off cells i = of_nat (i * unat cells)"

abbreviation lsbit_of :: "64 word \<Rightarrow> 32 word" where
  "lsbit_of cells \<equiv> ucast (and cells (- cells))"

lemma off_unat: "i * unat cells < 2 ^ 64 \<Longrightarrow> unat (off cells i) = i * unat cells"
  unfolding off_def by (simp add: unat_of_nat take_bit_nat_eq_self del: of_nat_mult)

lemma off_div: "0 < unat cells \<Longrightarrow> i * unat cells < 2 ^ 64 \<Longrightarrow> unat (off cells i div cells) = i"
  unfolding unat_div off_unat by simp

lemma off_plus: "off cells i + off cells j = off cells (i + j)"
  by (simp add: off_def algebra_simps)

lemma off_1: "off cells (Suc 0) = cells" "off cells 0 = 0"
  by (simp_all add: off_def)

lemma off_parent:
  assumes "0 < i" "i * unat cells < 2 ^ 64" and cell_small: "0 < unat cells" "unat cells < 2 ^ 32"
  shows "sort_parent cells (lsbit_of cells) (off cells i) = off cells ((i - 1) div 2)"
proof -
  obtain e m where c: "unat cells = 2 ^ e * m" "odd m" using odd_part cell_small(1) by blast
  let ?w = "of_nat m :: 64 word"
  have e: "e < 32"
  proof (rule ccontr)
    assume "\<not> e < 32"
    then have "(2::nat) ^ 32 \<le> 2 ^ e" by (intro power_increasing) simp_all
    then show False using cell_small(2) c by (metis dvd_pos_nat leD le_trans mult_le_mono2 nat_mult_1_right odd_pos Suc_leI One_nat_def)
  qed
  have cw: "cells = push_bit e ?w" 
  proof -
    have "cells = of_nat (unat cells)" by simp
    then have "cells = of_nat (2 ^ e * m)" unfolding c(1) .
    then show ?thesis by (simp add: push_bit_eq_mult)
  qed
  have w: "odd ?w" using c(2) by (simp add: even_of_nat)
  have l: "and cells (- cells) = push_bit e 1"
    unfolding cw push_bit_minus push_bit_and [symmetric] odd_word_and_minus [OF w] ..
  have ll: "ucast (lsbit_of cells) = (push_bit e 1 :: 64 word)"
    unfolding l using e by (intro bit_word_eqI) (auto simp: bit_ucast_iff bit_exp_iff)
  define k where "k = i - 1"
  have k: "off cells i - cells = off cells k" "k * unat cells < 2 ^ 64"
    using assms off_plus [of cells k 1] off_1(1) [of cells] by (auto simp: k_def algebra_simps intro: le_less_trans [OF mult_le_mono1])
  have ok: "off cells k = push_bit e (of_nat k * ?w)"
    by (simp add: off_def c(1) push_bit_eq_mult algebra_simps)
  have "and (off cells k) (push_bit e 1) = push_bit e (of_bool (odd k))"
    unfolding ok push_bit_and [symmetric] using w by (simp add: and_one_eq mod_2_eq_odd even_of_nat)
  then have t: "and (off cells k) (ucast (lsbit_of cells)) = push_bit e (of_bool (odd k))" by (simp add: ll)
  have h: "and cells (- push_bit e (of_bool (odd k))) = off cells (k mod 2)"
  proof (cases "odd k")
    case True
    then have "and cells (- push_bit e (of_bool (odd k))) = push_bit e (and ?w (- 1))"
      unfolding push_bit_and cw push_bit_minus by simp
    then show ?thesis using True cw off_1(1) [of cells] by (simp add: odd_iff_mod_2_eq_one)
  qed (simp add: even_iff_mod_2_eq_zero off_1)
  have "off cells k = off cells (2 * (k div 2)) + off cells (k mod 2)" by (simp add: off_plus)
  then have "off cells k - off cells (k mod 2) = off cells (2 * (k div 2))" by simp
  note d = this
  have le: "2 * (k div 2) * unat cells \<le> k * unat cells" by (rule mult_le_mono1) simp
  then have u: "2 * (k div 2) * unat cells < 2 ^ 64" "k div 2 * unat cells < 2 ^ 64"
    using k(2) by linarith+
  have "unat (drop_bit 1 (off cells (2 * (k div 2)))) = unat (off cells (k div 2))"
    unfolding drop_bit_eq_div unat_div off_unat [OF u(1)] off_unat [OF u(2)] by (simp add: unat_div off_unat [OF u(1)] mult.assoc)
  then have "drop_bit 1 (off cells (2 * (k div 2))) = off cells (k div 2)" by (rule unsigned_word_eqI)
  with d have "drop_bit 1 (off cells k - off cells (k mod 2)) = off cells (k div 2)" by metis
  then show ?thesis unfolding sort_parent_def Let_def k t h by (simp add: k_def)
qed

section \<open>The loops of the code walk these paths\<close>

definition array_fits :: "64 word \<Rightarrow> nat \<Rightarrow> bool" where
  "array_fits cells n \<longleftrightarrow> 0 < unat cells \<and> unat cells < 2 ^ 32 \<and> 2 * n * unat cells < 2 ^ 64"

lemma array_fits_off: "array_fits cells n \<Longrightarrow> i \<le> 2 * n \<Longrightarrow> i * unat cells < 2 ^ 64"
  unfolding array_fits_def by (meson le_less_trans mult_le_mono1)

lemma fits_le: "array_fits cells m \<Longrightarrow> n \<le> m \<Longrightarrow> array_fits cells n"
  unfolding array_fits_def by (meson le_less_trans mult_le_mono1 mult_le_mono2)

lemma off_less: "array_fits cells n \<Longrightarrow> i \<le> 2 * n \<Longrightarrow> j \<le> 2 * n \<Longrightarrow> off cells i < off cells j \<longleftrightarrow> i < j"
  using array_fits_off [of cells n i] array_fits_off [of cells n j]
  by (simp add: word_less_nat_alt off_unat array_fits_def)

lemma off_eq: "array_fits cells n \<Longrightarrow> i \<le> 2 * n \<Longrightarrow> j \<le> 2 * n \<Longrightarrow> off cells i = off cells j \<longleftrightarrow> i = j"
  using off_less [of cells n i j] off_less [of cells n j i] by (metis less_irrefl linorder_neqE_nat)

lemma sort_cell_off: "array_fits cells n \<Longrightarrow> i \<le> 2 * n \<Longrightarrow> sort_cell cells xs (off cells i) = xs ! i"
  using array_fits_off [of cells n i] off_div [of cells i] by (simp add: sort_cell_def array_fits_def)

lemma sort_swap_off:
  "array_fits cells n \<Longrightarrow> i \<le> 2 * n \<Longrightarrow> j \<le> 2 * n \<Longrightarrow>
    sort_swap cells (off cells i) (off cells j) xs = swap_cells i j xs"
  using array_fits_off [of cells n i] array_fits_off [of cells n j] off_div [of cells i] off_div [of cells j]
  by (simp add: sort_swap_def array_fits_def)

lemma parent_off:
  "array_fits cells n \<Longrightarrow> 0 < i \<Longrightarrow> i \<le> 2 * n \<Longrightarrow>
    sort_parent cells (lsbit_of cells) (off cells i) = off cells ((i - 1) div 2)"
  using array_fits_off [of cells n i] off_parent [of i cells] by (simp add: array_fits_def)

lemma off_children: "2 * off cells i + cells = off cells (2 * i + 1)" "off cells (2 * i + 1) + cells = off cells (2 * i + 2)"
  by (simp_all add: off_def algebra_simps)

lemma qsort_down_path:
  assumes "array_fits cells number" "i < n" "n \<le> number"
  shows "\<exists>b < n. qsort_down cmp cells (off cells n) xs (off cells i) =
      Some (off cells b, off cells (2 * b + 1), off cells (2 * b + 2)) \<and> n \<le> 2 * b + 2 \<and>
      last (heap_path cmp n xs i) = (if 2 * b + 2 = n then 2 * b + 1 else b)"
  using assms(2)
proof (induction "n - i" arbitrary: i rule: less_induct)
  case less
  let ?c = "if cmp (xs ! (2 * i + 1)) (xs ! (2 * i + 2)) \<ge> 0 then 2 * i + 1 else 2 * i + 2"
  have le: "2 * i + 1 \<le> 2 * number" "2 * i + 2 \<le> 2 * number" "n \<le> 2 * number" using less(2) assms(3) by auto
  have c: "sort_cell cells xs (off cells (2 * i + 1)) = xs ! (2 * i + 1)"
    "sort_cell cells xs (off cells (2 * i + 2)) = xs ! (2 * i + 2)"
    "off cells (2 * i + 2) < off cells n \<longleftrightarrow> 2 * i + 2 < n"
    using sort_cell_off [OF assms(1) le(1)] sort_cell_off [OF assms(1) le(2)] off_less [OF assms(1) le(2,3)] by simp_all
  show ?case
  proof (cases "2 * i + 2 < n")
    case True
    then have "\<exists>b < n. qsort_down cmp cells (off cells n) xs (off cells ?c) =
        Some (off cells b, off cells (2 * b + 1), off cells (2 * b + 2)) \<and> n \<le> 2 * b + 2 \<and>
        last (heap_path cmp n xs ?c) = (if 2 * b + 2 = n then 2 * b + 1 else b)"
      by (intro less(1)) auto
    moreover have "qsort_down cmp cells (off cells n) xs (off cells i) = qsort_down cmp cells (off cells n) xs (off cells ?c)"
      by (subst qsort_down.simps) (simp only: c off_children Let_def if_distrib [of "off cells"] True if_True)
    moreover have "last (heap_path cmp n xs i) = last (heap_path cmp n xs ?c)"
    proof -
      have "heap_path cmp n xs ?c \<noteq> []" using heap_path_Cons [of cmp n xs ?c] by (metis list.distinct(1))
      moreover have "heap_path cmp n xs i = i # heap_path cmp n xs ?c" using True by (subst heap_path.simps) simp
      ultimately show ?thesis by simp
    qed
    ultimately show ?thesis by simp
  next
    case False
    then have "qsort_down cmp cells (off cells n) xs (off cells i) = Some (off cells i, off cells (2 * i + 1), off cells (2 * i + 2))"
      by (subst qsort_down.simps) (simp only: c off_children Let_def if_False)
    moreover have "last (heap_path cmp n xs i) = (if 2 * i + 2 = n then 2 * i + 1 else i)"
      using False by (subst heap_path.simps) auto
    ultimately show ?thesis using False less(2) by (intro exI [of _ i]) simp
  qed
qed

fun up_path :: "nat \<Rightarrow> nat list \<Rightarrow> bool" where
  "up_path p [] = True"
| "up_path p (q # qs) = (0 < q \<and> p = (q - 1) div 2 \<and> up_path q qs)"

lemma up_path_snoc: "up_path p (qs @ [q]) \<longleftrightarrow> up_path p qs \<and> 0 < q \<and> last (p # qs) = (q - 1) div 2"
  by (induction p qs rule: up_path.induct) simp_all

lemma up_path_less: "up_path p qs \<Longrightarrow> \<forall>q \<in> set qs. p < q"
proof (induction p qs rule: up_path.induct)
  case (2 p q qs)
  then have "p < q" "\<forall>r \<in> set qs. q < r" by auto
  then show ?case by auto
qed simp

lemma up_path_distinct: "up_path p qs \<Longrightarrow> distinct (p # qs)"
proof (induction p qs rule: up_path.induct)
  case (2 p q qs)
  then show ?case using up_path_less [of p "q # qs"] by auto
qed simp

lemma up_path_append: "up_path p (qs @ rs) \<Longrightarrow> up_path p qs"
  by (induction p qs rule: up_path.induct) auto

lemma great_path_up: "great_path cmp n xs (p # ps) \<Longrightarrow> up_path p ps"
  by (induction ps arbitrary: p) auto

lemma qsort_up_path:
  assumes "array_fits cells n" "up_path p qs" "\<forall>q \<in> set (p # qs). q < n"
  shows "qsort_up cmp cells (lsbit_of cells) (off cells p) xs (off cells (last (p # qs))) =
    Some (off cells (last (p # keep_path cmp xs p qs)))"
  using assms(2,3)
proof (induction qs rule: rev_induct)
  case Nil
  show ?case by (subst qsort_up.simps) (simp add: keep_path_def)
next
  case (snoc q qs)
  then have u: "up_path p qs" "0 < q" "last (p # qs) = (q - 1) div 2" "\<forall>r \<in> set (p # qs). r < n" "p < q" "q < n"
    using up_path_less [of p "qs @ [q]"] by (auto simp: up_path_snoc)
  have c: "sort_cell cells xs (off cells q) = xs ! q" "sort_cell cells xs (off cells p) = xs ! p"
      "off cells p \<noteq> off cells q"
      "sort_parent cells (lsbit_of cells) (off cells q) = off cells (last (p # qs))"
    using u sort_cell_off [OF assms(1), of _ xs] off_eq [OF assms(1)] parent_off [OF assms(1)] by auto
  have k: "keep_path cmp xs p (qs @ [q]) = (if cmp (xs ! p) (xs ! q) \<ge> 0 then keep_path cmp xs p qs else qs @ [q])"
    by (simp add: keep_path_def)
  have "qsort_up cmp cells (lsbit_of cells) (off cells p) xs (off cells q) =
      (if cmp (xs ! p) (xs ! q) \<ge> 0
       then qsort_up cmp cells (lsbit_of cells) (off cells p) xs (off cells (last (p # qs)))
       else Some (off cells q))"
    by (subst qsort_up.simps) (simp only: c if_True simp_thms)
  then show ?case using snoc.IH [OF u(1,4)] by (simp add: k)
qed

lemma qsort_rotate_path:
  assumes "array_fits cells n" "up_path p (us @ vs)" "\<forall>q \<in> set (p # us @ vs). q < n" "n \<le> length xs"
  shows "qsort_rotate cells (lsbit_of cells) (off cells p) (off cells (last (p # us @ vs))) (off cells (last (p # us)))
      (rotate_path (last (p # us) # vs) xs) = Some (rotate_path (p # us @ vs) xs)"
  using assms(2,3)
proof (induction us arbitrary: vs rule: rev_induct)
  case Nil
  show ?case by (subst qsort_rotate.simps) simp
next
  case (snoc u us)
  let ?w = "last (p # us)"
  have w: "up_path p (us @ [u])" using snoc.prems(1) up_path_append by auto
  then have u: "0 < u" "?w = (u - 1) div 2" "p < u" using up_path_less [OF w] by (auto simp: up_path_snoc)
  have d: "distinct (p # us @ u # vs)" using up_path_distinct [OF snoc.prems(1)] by simp
  have wset: "?w \<in> set (p # us)" by (rule last_in_set) simp
  have l: "last (p # us @ u # vs) = last (u # vs)" by simp
  have lset: "last (u # vs) \<in> set (u # vs)" by (rule last_in_set) simp
  have n: "u < n" "?w < n" "last (u # vs) < n" "p < n" using snoc.prems(2) wset lset by auto
  have c: "off cells p \<noteq> off cells u" "sort_parent cells (lsbit_of cells) (off cells u) = off cells ?w"
    "sort_swap cells (off cells ?w) (off cells (last (u # vs))) ys = swap_cells ?w (last (u # vs)) ys" for ys :: "'a list"
    using u n off_eq [OF assms(1)] parent_off [OF assms(1)] sort_swap_off [OF assms(1), of _ _ ys] by auto
  have r: "swap_cells ?w (last (u # vs)) (rotate_path (u # vs) xs) = rotate_path (?w # u # vs) xs"
  proof (rule rotate_path_top)
    show "distinct (?w # u # vs)" using d wset by auto
    have "\<forall>k \<in> set vs. k < n" using snoc.prems(2) by simp
    then show "\<forall>k \<in> set (?w # u # vs). k < length xs" unfolding list.set ball_simps using n(1,2) assms(4) by (auto intro: less_le_trans)
  qed
  have "qsort_rotate cells (lsbit_of cells) (off cells p) (off cells (last (u # vs))) (off cells u) (rotate_path (u # vs) xs)
      = qsort_rotate cells (lsbit_of cells) (off cells p) (off cells (last (u # vs))) (off cells ?w) (rotate_path (?w # u # vs) xs)"
    by (subst qsort_rotate.simps) (simp only: c r Let_def if_True simp_thms)
  then show ?case using snoc.IH [of "u # vs"] snoc.prems by simp
qed

context sort_order begin

lemma qsort_sift_heap_sift:
  assumes "array_fits cells number" "i < n" "n \<le> number" "n \<le> length xs"
  shows "qsort_sift cmp cells (lsbit_of cells) (off cells i) (off cells n) xs = Some (heap_sift cmp n i xs)"
proof -
  let ?ps = "tl (heap_path cmp n xs i)" and ?qs = "keep_path cmp xs i (tl (heap_path cmp n xs i))"
  have ps: "heap_path cmp n xs i = i # ?ps" by (rule heap_path_Cons)
  have g: "great_path cmp n xs (i # ?ps)" using heap_path_great [OF assms(2), of xs] ps by simp
  have up: "up_path i ?ps" and lt: "\<forall>q \<in> set (i # ?ps). q < number"
    using great_path_up [OF g] great_path_increases [OF g] assms(2,3) by auto
  obtain rs where rs: "?ps = ?qs @ rs" using keep_path_split by metis
  obtain b where b: "b < n" "qsort_down cmp cells (off cells n) xs (off cells i) =
      Some (off cells b, off cells (2 * b + 1), off cells (2 * b + 2))"
      "last (heap_path cmp n xs i) = (if 2 * b + 2 = n then 2 * b + 1 else b)"
    using qsort_down_path [OF assms(1-3)] by blast
  have e: "off cells (2 * b + 2) = off cells n \<longleftrightarrow> 2 * b + 2 = n" using b(1) assms(3) off_eq [OF assms(1)] by auto
  have l: "(if off cells (2 * b + 2) = off cells n then off cells (2 * b + 1) else off cells b) = off cells (last (i # ?ps))"
    unfolding e using b(3) ps by simp
  have u: "up_path i ?qs" using up rs up_path_append by metis
  have q: "\<forall>q \<in> set (i # ?qs). q < n"
    using great_path_increases [OF g] assms(2) rs by (metis Un_iff set_ConsD set_append)
  have r: "qsort_rotate cells (lsbit_of cells) (off cells i) (off cells (last (i # ?qs))) (off cells (last (i # ?qs))) xs
      = Some (rotate_path (i # ?qs) xs)"
    using qsort_rotate_path [OF fits_le [OF assms(1,3)], of i ?qs "[]" xs] u q assms(4) by simp
  show ?thesis
    unfolding qsort_sift_def heap_sift_def b(2) option.case prod.case Let_def l
      qsort_up_path [OF assms(1) up lt, of cmp xs] r ..
qed

end

section \<open>The heap sort sorts\<close>

lemma off_pred: "off cells (Suc i) - cells = off cells i"
  by (simp add: off_def)

lemma off_zero: "array_fits cells n \<Longrightarrow> i \<le> 2 * n \<Longrightarrow> off cells i = 0 \<longleftrightarrow> i = 0"
  using off_eq [of cells n i 0] by (simp add: off_1)

context sort_order begin

lemma swap_root:
  assumes "heap_from cmp (Suc m) 0 xs" "sorted_from cmp (Suc m) xs" "Suc m \<le> length xs"
  shows "heap_from cmp m 1 (swap_cells 0 m xs)" "sorted_from cmp m (swap_cells 0 m xs)"
proof -
  let ?ys = "swap_cells 0 m xs"
  have f: "same_front (Suc m) xs ?ys" by (rule swap_same_front) (use assms(3) in auto)
  have nth: "?ys ! k = (if k = 0 then xs ! m else if k = m then xs ! 0 else xs ! k)" for k
    using assms(3) by (subst swap_nth) auto
  show "heap_from cmp m 1 ?ys"
    unfolding heap_from_def
  proof (intro allI impI)
    fix k assume k: "k < m" "0 < k" "1 \<le> (k - 1) div 2"
    then have "(k - 1) div 2 \<noteq> 0" "(k - 1) div 2 \<noteq> m" "k \<noteq> m" "k < Suc m" by auto
    then show "cmp (?ys ! ((k - 1) div 2)) (?ys ! k) \<ge> 0"
      using assms(1) k(2) unfolding heap_from_def nth by auto
  qed
  have top: "cmp (xs ! 0) v \<ge> 0" if "v \<in> set (take (Suc m) xs)" for v
    using that heap_root [OF assms(1)] unfolding set_conv_nth by auto
  have "set (take m ?ys) \<subseteq> set (take (Suc m) ?ys)" by (rule set_take_subset_set_take) simp
  also have "\<dots> = set (take (Suc m) xs)" by (rule same_front_set [OF f order.refl])
  finally have "\<forall>v \<in> set (take m ?ys). cmp (?ys ! m) v \<ge> 0" using top by (auto simp: nth)
  then show "sorted_from cmp m ?ys"
    by (rule sorted_from_step [OF sorted_from_front [OF f order.refl assms(2)]])
qed

lemma qsort_loop_sorts:
  assumes "array_fits cells number" "m < number" "heap_from cmp (Suc m) 0 xs" "sorted_from cmp (Suc m) xs" "length xs = number"
  shows "\<exists>ys. qsort_loop cmp cells (lsbit_of cells) 0 (off cells (Suc m)) xs = Some ys \<and>
    mset ys = mset xs \<and> sort_sorted cmp ys"
  using assms(2-5)
proof (induction m arbitrary: xs)
  case 0
  have "qsort_loop cmp cells (lsbit_of cells) 0 (off cells (Suc 0)) xs = Some xs"
    by (subst qsort_loop.simps) (simp add: off_1)
  then show ?case using sorted_from_1 [of cmp xs] "0.prems"(3) by simp
next
  case (Suc m)
  let ?ys = "swap_cells 0 (Suc m) xs"
  let ?zs = "heap_sift cmp (Suc m) 0 ?ys"
  have le: "Suc m \<le> number" "Suc m \<le> 2 * number" "Suc m \<le> length ?ys" using Suc.prems(1,4) by auto
  have ys: "heap_from cmp (Suc m) 1 ?ys" "sorted_from cmp (Suc m) ?ys"
    using swap_root [OF Suc.prems(2,3)] Suc.prems(1,4) by auto
  have f: "same_front (Suc m) ?ys ?zs" by (rule heap_sift_front) (use le in auto)
  have nz: "off cells (Suc m) \<noteq> 0" using off_zero [OF assms(1) le(2)] by simp
  have swap: "sort_swap cells 0 (off cells (Suc m)) xs = ?ys"
    using sort_swap_off [OF assms(1) _ le(2), of 0 xs] by (simp add: off_1)
  have sift: "qsort_sift cmp cells (lsbit_of cells) 0 (off cells (Suc m)) ?ys = Some ?zs"
    using qsort_sift_heap_sift [OF assms(1) zero_less_Suc le(1,3)] by (simp add: off_1)
  have "qsort_loop cmp cells (lsbit_of cells) 0 (off cells (Suc (Suc m))) xs =
      qsort_loop cmp cells (lsbit_of cells) 0 (off cells (Suc m)) ?zs"
    using nz by (subst qsort_loop.simps) (simp add: off_pred swap sift)
  moreover have "\<exists>us. qsort_loop cmp cells (lsbit_of cells) 0 (off cells (Suc m)) ?zs = Some us \<and>
      mset us = mset ?zs \<and> sort_sorted cmp us"
  proof (rule Suc.IH)
    show "heap_from cmp (Suc m) 0 ?zs" by (rule heap_sift_heap) (use le ys in auto)
    show "sorted_from cmp (Suc m) ?zs" by (rule sorted_from_front [OF f order.refl ys(2)])
    show "length ?zs = number" using f Suc.prems(4) by (simp add: same_front_def)
  qed (use Suc.prems(1) in simp)
  moreover have "mset ?zs = mset xs"
    using same_front_mset [OF f] Suc.prems(1,4) by simp
  ultimately show ?case by metis
qed

lemma qsort_loop_builds:
  assumes "array_fits cells number" "2 * i \<le> number" "1 < number" "heap_from cmp number i xs" "length xs = number"
  shows "\<exists>ys. qsort_loop cmp cells (lsbit_of cells) (off cells i) (off cells number) xs = Some ys \<and>
    mset ys = mset xs \<and> sort_sorted cmp ys"
  using assms(2,4,5)
proof (induction i arbitrary: xs)
  case 0
  obtain m where m: "number = Suc m" using assms(3) by (cases number) auto
  have "sorted_from cmp number xs" using "0.prems"(3) by (simp add: sorted_from_def)
  then show ?case using qsort_loop_sorts [OF assms(1), of m xs] "0.prems" m by (simp add: off_1)
next
  case (Suc i)
  let ?ys = "heap_sift cmp number i xs"
  have i: "i < number" "Suc i \<le> 2 * number" "number \<le> length xs" using Suc.prems by auto
  have f: "same_front number xs ?ys" by (rule heap_sift_front) (use i in auto)
  have sift: "qsort_sift cmp cells (lsbit_of cells) (off cells i) (off cells number) xs = Some ?ys"
    by (rule qsort_sift_heap_sift [OF assms(1) i(1) order.refl i(3)])
  have "off cells (Suc i) \<noteq> 0" using off_zero [OF assms(1) i(2)] by simp
  then have "qsort_loop cmp cells (lsbit_of cells) (off cells (Suc i)) (off cells number) xs =
      qsort_loop cmp cells (lsbit_of cells) (off cells i) (off cells number) ?ys"
    by (subst qsort_loop.simps) (simp add: off_pred sift)
  moreover have "\<exists>us. qsort_loop cmp cells (lsbit_of cells) (off cells i) (off cells number) ?ys = Some us \<and>
      mset us = mset ?ys \<and> sort_sorted cmp us"
  proof (rule Suc.IH)
    show "heap_from cmp number i ?ys" by (rule heap_sift_heap) (use i Suc.prems(2) in auto)
    show "length ?ys = number" using f Suc.prems(3) by (simp add: same_front_def)
  qed (use Suc.prems(1) in simp)
  ultimately show ?case using same_front_mset [OF f] by metis
qed

lemma heap_from_half: "heap_from cmp n (n div 2) xs"
  unfolding heap_from_def
proof (intro allI impI)
  fix k assume k: "k < n" "0 < k" "n div 2 \<le> (k - 1) div 2"
  have False using k by presburger
  then show "cmp (xs ! ((k - 1) div 2)) (xs ! k) \<ge> 0" by blast
qed

theorem qsort_sorts:
  assumes "array_fits cells (length xs)" "1 < length xs" "base \<noteq> 0"
  shows "\<exists>ys. qsort base (of_nat (length xs)) cells (Some cmp) xs = Some (ENOERR, ys) \<and>
    mset ys = mset xs \<and> sort_sorted cmp ys"
proof -
  let ?n = "length xs"
  have n: "?n < 2 ^ 64"
    using array_fits_off [OF assms(1), of ?n] assms(1) unfolding array_fits_def
    by (metis Suc_leI le_less_trans mult_2 le_add1 mult_le_mono2 nat_mult_1_right One_nat_def)
  have u: "unat (of_nat ?n :: 64 word) = ?n" using n by (simp add: unat_of_nat take_bit_nat_eq_self)
  have b: "(of_nat ?n :: 64 word) * cells = off cells ?n" by (simp add: off_def)
  have h: "(of_nat ?n div 2 :: 64 word) = of_nat (?n div 2)"
    unfolding word_unat_eq_iff using n by (simp add: unat_div u unat_of_nat take_bit_nat_eq_self)
  have a: "(of_nat ?n div 2 :: 64 word) * cells = off cells (?n div 2)" unfolding h by (simp add: off_def)
  have nz: "off cells (?n div 2) \<noteq> 0" using off_zero [OF assms(1), of "?n div 2"] assms(2) by auto
  have "\<exists>ys. qsort_loop cmp cells (lsbit_of cells) (off cells (?n div 2)) (off cells ?n) xs = Some ys \<and>
    mset ys = mset xs \<and> sort_sorted cmp ys"
    by (rule qsort_loop_builds [OF assms(1) _ assms(2) heap_from_half refl]) simp
  then show ?thesis using nz assms(3) unfolding qsort_def Let_def a b by auto
qed

end

lemma qsort_refuses: "base = 0 \<or> cmp = None \<or> number < 2 \<or> cells = 0 \<Longrightarrow> qsort base number cells cmp xs = Some (EINVAL, xs)"
proof -
  assume h: "base = 0 \<or> cmp = None \<or> number < 2 \<or> cells = 0"
  have "number div 2 = 0" if "number < 2"
    using that by (simp add: word_unat_eq_iff unat_div word_less_nat_alt)
  then show ?thesis using h by (auto simp: qsort_def)
qed

section \<open>The bubble sort sorts\<close>

context sort_order begin

lemma not_above: "\<not> cmp x y > 0 \<Longrightarrow> cmp y x \<ge> 0"
  using flip [of y x] by linarith

lemma bsort_pass_carries:
  assumes "unat number < 2 ^ 32" "prev < unat number" "unat number \<le> length xs"
    "\<forall>v \<in> set (take prev xs). cmp (xs ! prev) v \<ge> 0"
  shows "\<exists>again ys. bsort_pass cmp number (of_nat (Suc prev)) prev swapped xs = Some (again, ys) \<and>
    same_front (unat number) xs ys \<and> (\<forall>v \<in> set (take (unat number - 1) ys). cmp (ys ! (unat number - 1)) v \<ge> 0) \<and>
    (\<not> again \<longrightarrow> ys = xs \<and> \<not> swapped \<and>
      (\<forall>j. prev \<le> j \<longrightarrow> Suc j < unat number \<longrightarrow> cmp (xs ! Suc j) (xs ! j) \<ge> 0))"
  using assms(2-4)
proof (induction "unat number - prev" arbitrary: prev swapped xs rule: less_induct)
  case less
  let ?N = "unat number" and ?nr = "of_nat (Suc prev) :: 32 word"
  have nr: "unat ?nr = Suc prev" using assms(1) less.prems(1) by (simp add: unat_of_nat take_bit_nat_eq_self del: of_nat_Suc)
  have less_iff: "(ucast ?nr :: 64 word) < number \<longleftrightarrow> Suc prev < ?N"
    unfolding word_less_nat_alt unsigned_ucast_eq using nr assms(1) less.prems(1) by (simp add: take_bit_nat_eq_self del: of_nat_Suc)
  show ?case
  proof (cases "Suc prev < ?N")
    case False
    then have N: "?N = Suc prev" using less.prems(1) by simp
    have "bsort_pass cmp number ?nr prev swapped xs = Some (swapped, xs)"
      by (subst bsort_pass.simps) (simp only: less_iff False if_False)
    then show ?thesis using N less.prems by (auto simp: same_front_def)
  next
    case True
    let ?up = "cmp (xs ! prev) (xs ! Suc prev) > 0"
    let ?ys = "if ?up then swap_cells (Suc prev) prev xs else xs"
    have step: "bsort_pass cmp number ?nr prev swapped xs =
        bsort_pass cmp number (of_nat (Suc (Suc prev))) (Suc prev) (swapped \<or> ?up) ?ys"
      by (subst bsort_pass.simps) (simp only: less_iff True if_True nr Let_def, simp add: algebra_simps)
    have l: "Suc prev < length xs" using True less.prems(2) by simp
    have f: "same_front ?N xs ?ys" "same_front (Suc (Suc prev)) xs ?ys"
      using swap_same_front [of "Suc prev" ?N prev xs] swap_same_front [of "Suc prev" "Suc (Suc prev)" prev xs]
        True less.prems(2) l by (auto simp: same_front_def)
    have carried: "\<forall>v \<in> set (take (Suc prev) ?ys). cmp (?ys ! Suc prev) v \<ge> 0"
    proof (cases ?up)
      case True
      have n: "swap_cells (Suc prev) prev xs ! Suc prev = xs ! prev" using l by (simp add: swap_nth)
      have "take (Suc prev) (swap_cells (Suc prev) prev xs) = take prev xs @ [xs ! Suc prev]"
        using l by (simp add: swap_cells_def take_Suc_conv_app_nth)
      then show ?thesis using True less.prems(3) n by auto
    next
      case False
      then have "cmp (xs ! Suc prev) (xs ! prev) \<ge> 0" by (rule not_above)
      then show ?thesis using False less.prems(3) l ge_trans by (auto simp: take_Suc_conv_app_nth)
    qed
    have "?N - Suc prev < ?N - prev" using True by simp
    from less.hyps [OF this True _ carried, of "swapped \<or> ?up"] less.prems(2) f(1)
    obtain again ys where r:
      "bsort_pass cmp number (of_nat (Suc (Suc prev))) (Suc prev) (swapped \<or> ?up) ?ys = Some (again, ys)"
      "same_front ?N ?ys ys" "\<forall>v \<in> set (take (?N - 1) ys). cmp (ys ! (?N - 1)) v \<ge> 0"
      "\<not> again \<longrightarrow> ys = ?ys \<and> \<not> (swapped \<or> ?up) \<and>
        (\<forall>j. Suc prev \<le> j \<longrightarrow> Suc j < ?N \<longrightarrow> cmp (?ys ! Suc j) (?ys ! j) \<ge> 0)"
      unfolding same_front_def by auto
    have q: "ys = xs \<and> \<not> swapped \<and> (\<forall>j. prev \<le> j \<longrightarrow> Suc j < ?N \<longrightarrow> cmp (xs ! Suc j) (xs ! j) \<ge> 0)" if "\<not> again"
    proof (intro conjI allI impI)
      note r4 = mp [OF r(4) that]
      then show "ys = xs" "\<not> swapped" by simp_all
      fix j assume j: "prev \<le> j" "Suc j < ?N"
      show "cmp (xs ! Suc j) (xs ! j) \<ge> 0"
      proof (cases "j = prev")
        case True
        then show ?thesis using r4 not_above by simp
      next
        case False
        then have "Suc prev \<le> j" using j(1) by simp
        then have "cmp (?ys ! Suc j) (?ys ! j) \<ge> 0" using r4 j(2) by blast
        moreover have "?ys = xs" using r4 by simp
        ultimately show ?thesis by simp
      qed
    qed
    have f2: "same_front ?N xs ys" by (rule same_front_trans [OF f(1) r(2)])
    show ?thesis unfolding step by (rule exI [of _ again], rule exI [of _ ys], intro conjI r(1) f2 r(3)) (rule impI, rule q)
  qed
qed

lemma neighbours_sorted:
  assumes "\<forall>j. Suc j < n \<longrightarrow> cmp (xs ! Suc j) (xs ! j) \<ge> 0" "j < n" "i \<le> j"
  shows "cmp (xs ! j) (xs ! i) \<ge> 0"
  using assms(3,2)
proof (induction j rule: dec_induct)
  case (step j)
  then show ?case using assms(1) ge_trans Suc_lessD by metis
qed (rule ge_refl)

lemma bsort_loop_sorts:
  assumes "unat number < 2 ^ 32" "0 < unat number" "unat number \<le> length xs" "sorted_from cmp (unat number) xs"
  shows "\<exists>ys. bsort_loop cmp number True xs = Some ys \<and> mset ys = mset xs \<and> sort_sorted cmp ys"
  using assms
proof (induction "unat number" arbitrary: number xs rule: less_induct)
  case less
  let ?N = "unat number"
  have "\<exists>again ys. bsort_pass cmp number (of_nat (Suc 0)) 0 False xs = Some (again, ys) \<and>
    same_front ?N xs ys \<and> (\<forall>v \<in> set (take (?N - 1) ys). cmp (ys ! (?N - 1)) v \<ge> 0) \<and>
    (\<not> again \<longrightarrow> ys = xs \<and> \<not> False \<and> (\<forall>j. 0 \<le> j \<longrightarrow> Suc j < ?N \<longrightarrow> cmp (xs ! Suc j) (xs ! j) \<ge> 0))"
    by (rule bsort_pass_carries) (use less.prems in auto)
  then obtain again ys where r: "bsort_pass cmp number 1 0 False xs = Some (again, ys)"
    "same_front ?N xs ys" "\<forall>v \<in> set (take (?N - 1) ys). cmp (ys ! (?N - 1)) v \<ge> 0"
    "\<not> again \<longrightarrow> ys = xs \<and> (\<forall>j. Suc j < ?N \<longrightarrow> cmp (xs ! Suc j) (xs ! j) \<ge> 0)" by auto
  have loop: "bsort_loop cmp number True xs = bsort_loop cmp (number - 1) again ys"
    by (subst bsort_loop.simps) (simp add: r(1))
  have s: "sorted_from cmp ?N ys" by (rule sorted_from_front [OF r(2) order.refl less.prems(4)])
  show ?case
  proof (cases again)
    case False
    have "sorted_from cmp 1 xs"
      unfolding sorted_from_def
    proof (intro allI impI ballI)
      fix j v assume j: "1 \<le> j" "j < length xs" "v \<in> set (take j xs)"
      then obtain i where i: "i < j" "v = xs ! i" unfolding in_set_conv_nth by auto
      show "cmp (xs ! j) v \<ge> 0"
      proof (cases "j < ?N")
        case True
        then show ?thesis using neighbours_sorted [of ?N xs j i] r(4) False i by simp
      next
        case False
        then show ?thesis using less.prems(4) j unfolding sorted_from_def by auto
      qed
    qed
    then have "sort_sorted cmp xs" by (rule sorted_from_1)
    moreover have "bsort_loop cmp (number - 1) again ys = Some xs"
      using False r(4) by (subst bsort_loop.simps) simp
    ultimately show ?thesis using loop by simp
  next
    case True
    have two: "1 < ?N"
    proof (rule ccontr)
      assume "\<not> 1 < ?N"
      then have "\<not> (ucast (1 :: 32 word) :: 64 word) < number" using less.prems(2) by (simp add: word_less_nat_alt)
      then have "bsort_pass cmp number 1 0 False xs = Some (False, xs)" by (subst bsort_pass.simps) simp
      then show False using r(1) True by simp
    qed
    have u: "unat (number - 1) = ?N - 1" using two by (subst unat_sub) (simp_all add: word_le_nat_alt)
    have "sorted_from cmp (unat (number - 1)) ys"
      unfolding u by (rule sorted_from_step) (use s two r(3) in auto)
    then have "\<exists>zs. bsort_loop cmp (number - 1) True ys = Some zs \<and> mset zs = mset ys \<and> sort_sorted cmp zs"
      using less.prems two r(2) by (intro less.hyps) (auto simp: u same_front_def)
    then show ?thesis using loop True same_front_mset [OF r(2)] by simp
  qed
qed

theorem bsort_sorts:
  assumes "1 < length xs" "length xs < 2 ^ 32" "base \<noteq> 0" "cells \<noteq> 0"
  shows "\<exists>ys. bsort base (of_nat (length xs)) cells (Some cmp) xs = Some (ENOERR, ys) \<and>
    mset ys = mset xs \<and> sort_sorted cmp ys"
proof -
  let ?n = "of_nat (length xs) :: 64 word"
  have u: "unat ?n = length xs" using assms(2) by (simp add: unat_of_nat take_bit_nat_eq_self)
  have "\<exists>ys. bsort_loop cmp ?n True xs = Some ys \<and> mset ys = mset xs \<and> sort_sorted cmp ys"
    by (rule bsort_loop_sorts) (use u assms in \<open>auto simp: sorted_from_def\<close>)
  then show ?thesis using assms u by (auto simp: bsort_def word_less_nat_alt)
qed

end

section \<open>Binary search finds\<close>

definition bsearch_ready :: "('a \<Rightarrow> int) \<Rightarrow> 'a list \<Rightarrow> bool" where
  "bsearch_ready cmp xs \<longleftrightarrow> sorted_wrt (\<lambda>x y. (cmp y < 0 \<longrightarrow> cmp x < 0) \<and> (cmp x > 0 \<longrightarrow> cmp y > 0)) xs"

lemma bsearch_loop_finds:
  assumes "bsearch_ready cmp xs" "base + num \<le> length xs"
    "\<forall>i < base. cmp (xs ! i) < 0" "\<forall>i. base + num \<le> i \<longrightarrow> i < length xs \<longrightarrow> cmp (xs ! i) > 0"
  shows "case bsearch_loop cmp xs base num of
      Some i \<Rightarrow> i < length xs \<and> cmp (xs ! i) = 0 | None \<Rightarrow> \<forall>x \<in> set xs. cmp x \<noteq> 0"
  using assms(2-)
proof (induction num arbitrary: base rule: less_induct)
  case (less num)
  let ?p = "base + num div 2"
  have mono: "(cmp (xs ! j) < 0 \<longrightarrow> cmp (xs ! i) < 0) \<and> (cmp (xs ! i) > 0 \<longrightarrow> cmp (xs ! j) > 0)" if "i < j" "j < length xs" for i j
    using assms(1) that unfolding bsearch_ready_def by (simp add: sorted_wrt_iff_nth_less)
  show ?case
  proof (cases "num = 0")
    case True
    then have "cmp (xs ! i) \<noteq> 0" if "i < length xs" for i
      using less.prems(2,3) that by (metis add_0_right leI less_irrefl)
    then show ?thesis using True by (subst bsearch_loop.simps) (auto simp: in_set_conv_nth)
  next
    case False
    then have p: "?p < length xs" "num div 2 < num" using less.prems(1) by auto
    consider (found) "cmp (xs ! ?p) = 0" | (right) "cmp (xs ! ?p) < 0" | (left) "cmp (xs ! ?p) > 0" by linarith
    then show ?thesis
    proof cases
      case found
      then show ?thesis using False p by (subst bsearch_loop.simps) simp
    next
      case right
      have e: "?p + 1 + (num - 1) div 2 = base + num" using False by presburger
      have "\<forall>i < ?p + 1. cmp (xs ! i) < 0" using right mono p(1) by (metis Suc_eq_plus1 less_SucE)
      then have "case bsearch_loop cmp xs (?p + 1) ((num - 1) div 2) of
          Some i \<Rightarrow> i < length xs \<and> cmp (xs ! i) = 0 | None \<Rightarrow> \<forall>x \<in> set xs. cmp x \<noteq> 0"
        using False less.prems(1,3) by (intro less.IH) (auto simp only: e)
      then show ?thesis using False right by (subst bsearch_loop.simps) simp
    next
      case left
      have "\<forall>i. ?p \<le> i \<longrightarrow> i < length xs \<longrightarrow> cmp (xs ! i) > 0" using left mono by (metis le_neq_implies_less)
      then have "case bsearch_loop cmp xs base (num div 2) of
          Some i \<Rightarrow> i < length xs \<and> cmp (xs ! i) = 0 | None \<Rightarrow> \<forall>x \<in> set xs. cmp x \<noteq> 0"
        using p less.prems(2) by (intro less.IH) auto
      then show ?thesis using False left by (subst bsearch_loop.simps) simp
    qed
  qed
qed

theorem bsearch_finds:
  assumes "bsearch_ready cmp xs"
  shows "case bsearch cmp xs (length xs) of
      Some i \<Rightarrow> i < length xs \<and> cmp (xs ! i) = 0 | None \<Rightarrow> \<forall>x \<in> set xs. cmp x \<noteq> 0"
  unfolding bsearch_def by (rule bsearch_loop_finds [OF assms]) auto

section \<open>The two sorts\<close>

text \<open>
  C14: the heap sort of an array of at least two cells ends, returns no error, and leaves the cells
  of the array in order, for every size of a cell below 4 GiB and every array that the offsets can reach.
\<close>

theorem heap_sort_sorts:
  assumes "\<forall>x y. cmp x y < 0 \<longleftrightarrow> cmp y x > 0" "\<forall>x y z. cmp x y \<ge> 0 \<longrightarrow> cmp y z \<ge> 0 \<longrightarrow> cmp x z \<ge> 0"
    "base \<noteq> 0" "1 < length xs" "0 < unat cells" "unat cells < 2 ^ 32" "2 * length xs * unat cells < 2 ^ 64"
  shows "\<exists>ys. qsort base (of_nat (length xs)) cells (Some cmp) xs = Some (ENOERR, ys) \<and>
    mset ys = mset xs \<and> (\<forall>i j. i < j \<longrightarrow> j < length ys \<longrightarrow> cmp (ys ! j) (ys ! i) \<ge> 0)"
proof -
  have o: "sort_order cmp" using assms(1,2) by unfold_locales blast+
  have f: "array_fits cells (length xs)" using assms by (simp add: array_fits_def)
  show ?thesis using sort_order.qsort_sorts [OF o f assms(4,3)] unfolding sort_sorted_def sorted_wrt_iff_nth_less .
qed

theorem heap_sort_sorts_witness:
  "\<exists>ys. qsort 8 3 24 (Some (\<lambda>x y. x - y)) [5, 9, 2 :: int] = Some (ENOERR, ys) \<and>
    mset ys = mset [5, 9, 2] \<and> (\<forall>i j. i < j \<longrightarrow> j < length ys \<longrightarrow> ys ! j - ys ! i \<ge> 0)"
  using heap_sort_sorts [of "\<lambda>x y. x - y" 8 "[5, 9, 2 :: int]" 24] by simp

lemma sort_sorted_unique:
  assumes "\<And>x y. cmp x y \<ge> 0 \<Longrightarrow> cmp y x \<ge> 0 \<Longrightarrow> x = y"
  shows "mset ys = mset xs \<Longrightarrow> sort_sorted cmp xs \<Longrightarrow> sort_sorted cmp ys \<Longrightarrow> ys = xs"
proof (induction xs arbitrary: ys)
  case (Cons x xs)
  then obtain y zs where ys: "ys = y # zs" by (cases ys) auto
  have "y = x"
  proof (rule ccontr)
    assume "y \<noteq> x"
    moreover have "set (y # zs) = set (x # xs)" using Cons.prems(1) ys by (metis mset_eq_setD)
    ultimately have "y \<in> set xs" "x \<in> set zs" by auto
    then have "cmp y x \<ge> 0" "cmp x y \<ge> 0" using Cons.prems(2,3) ys by (simp_all add: sort_sorted_def)
    then show False using assms \<open>y \<noteq> x\<close> by blast
  qed
  moreover from this have "zs = xs" using Cons ys by (intro Cons.IH) (simp_all add: sort_sorted_def)
  ultimately show ?case using ys by simp
qed simp

text \<open>
  where only equal cells compare as equal, the two sorts of the library give the same array.
\<close>

theorem bubble_sort_agrees:
  assumes "\<forall>x y. cmp x y < 0 \<longleftrightarrow> cmp y x > 0" "\<forall>x y z. cmp x y \<ge> 0 \<longrightarrow> cmp y z \<ge> 0 \<longrightarrow> cmp x z \<ge> 0"
    "\<forall>x y. cmp x y = 0 \<longrightarrow> x = y"
    "base \<noteq> 0" "1 < length xs" "length xs < 2 ^ 32" "0 < unat cells" "unat cells < 2 ^ 32" "2 * length xs * unat cells < 2 ^ 64"
  shows "bsort base (of_nat (length xs)) cells (Some cmp) xs = qsort base (of_nat (length xs)) cells (Some cmp) xs \<and>
    bsort base (of_nat (length xs)) cells (Some cmp) xs \<noteq> None"
proof -
  have o: "sort_order cmp" using assms(1,2) by unfold_locales blast+
  have f: "array_fits cells (length xs)" using assms by (simp add: array_fits_def)
  obtain ys zs where s: "qsort base (of_nat (length xs)) cells (Some cmp) xs = Some (ENOERR, ys)" "mset ys = mset xs" "sort_sorted cmp ys"
    "bsort base (of_nat (length xs)) cells (Some cmp) xs = Some (ENOERR, zs)" "mset zs = mset xs" "sort_sorted cmp zs"
    using sort_order.qsort_sorts [OF o f assms(5,4)] sort_order.bsort_sorts [OF o assms(5,6,4), of cells] assms(7) by fastforce
  have "zs = ys"
  proof (rule sort_sorted_unique)
    fix x y assume c: "cmp x y \<ge> 0" "cmp y x \<ge> 0"
    then have "cmp x y = 0" using assms(1) by (metis antisym_conv1 leD)
    then show "x = y" using assms(3) by blast
  qed (use s in simp_all)
  then show ?thesis using s by simp
qed


theorem bubble_sort_agrees_witness:
  "bsort 8 3 24 (Some (\<lambda>x y. x - y)) [5, 9, 2 :: int] = qsort 8 3 24 (Some (\<lambda>x y. x - y)) [5, 9, 2] \<and>
    bsort 8 3 24 (Some (\<lambda>x y. x - y)) [5, 9, 2 :: int] \<noteq> None"
  using bubble_sort_agrees [of "\<lambda>x y. x - y" 8 "[5, 9, 2 :: int]" 24] by (simp, metis)

end
