(* ===== verification/List_Sort.thy ===== *)
theory List_Sort
  imports Sort_Loops List_Head
begin

text \<open>
  The sorts of linked lists (\<^verbatim>\<open>lib/list-sort.c\<close>) on the pointers of \<^verbatim>\<open>List_Head\<close>: the bottom-up
  merge sort, which keeps the sorted pieces on a stack linked through \<open>prev\<close> and finds out from the bits
  of a counter which pieces to merge, and the bubble sort.
\<close>

section \<open>The sorts of linked lists\<close>

text \<open>
  A pointer to a pointer is \<open>None\<close> for the local variable and \<open>Some x\<close> for the field of node \<open>x\<close>.
  The comparison has its data applied; the null pointer is 0.
\<close>

definition tail_set :: "nat option \<Rightarrow> nat \<Rightarrow> nat \<Rightarrow> list_store \<Rightarrow> nat \<times> list_store" where
  "tail_set tail v node s = (case tail of None \<Rightarrow> (v, s) | Some x \<Rightarrow> (node, set_nxt x v s))"

partial_function (option) list_merge_loop ::
  "nat sort_cmp \<Rightarrow> nat \<Rightarrow> nat \<Rightarrow> nat option \<Rightarrow> nat \<Rightarrow> list_store \<Rightarrow> (nat \<times> list_store) option" where
  "list_merge_loop cmp a b tail node s =
     (if cmp a b \<le> 0 then
        let (node, s) = tail_set tail a node s; tail = Some a; a = nxt s a in
        if a = 0 then Some (tail_set tail b node s)
        else list_merge_loop cmp a b tail node s
      else
        let (node, s) = tail_set tail b node s; tail = Some b; b = nxt s b in
        if b = 0 then Some (tail_set tail a node s)
        else list_merge_loop cmp a b tail node s)"

definition list_merge :: "nat sort_cmp \<Rightarrow> nat \<Rightarrow> nat \<Rightarrow> list_store \<Rightarrow> (nat \<times> list_store) option" where
  "list_merge cmp a b s = list_merge_loop cmp a b None 0 s"

text \<open>The last merge, which links the nodes both ways: the last node linked, the rest and the store.\<close>

partial_function (option) list_finish_merge ::
  "nat sort_cmp \<Rightarrow> nat \<Rightarrow> nat \<Rightarrow> nat \<Rightarrow> list_store \<Rightarrow> (nat \<times> nat \<times> list_store) option" where
  "list_finish_merge cmp tail a b s =
     (if cmp a b \<le> 0 then
        let s = set_nxt tail a s; s = set_prv a tail s; tail = a; a = nxt s a in
        if a = 0 then Some (tail, b, s) else list_finish_merge cmp tail a b s
      else
        let s = set_nxt tail b s; s = set_prv b tail s; tail = b; b = nxt s b in
        if b = 0 then Some (tail, a, s) else list_finish_merge cmp tail a b s)"

text \<open>The calls of the comparison that only let the caller yield have no effect here.\<close>

partial_function (option) list_finish_rest :: "nat \<Rightarrow> nat \<Rightarrow> list_store \<Rightarrow> (nat \<times> list_store) option" where
  "list_finish_rest tail b s =
     (let s = set_prv b tail s; tail = b; b = nxt s b in
      if b \<noteq> 0 then list_finish_rest tail b s else Some (tail, s))"

definition list_finish :: "nat sort_cmp \<Rightarrow> nat \<Rightarrow> nat \<Rightarrow> nat \<Rightarrow> list_store \<Rightarrow> list_store option" where
  "list_finish cmp head a b s =
     Option.bind (list_finish_merge cmp head a b s) (\<lambda>(tail, b, s).
       map_option (\<lambda>(tail, s). set_prv head tail (set_nxt tail head s))
         (list_finish_rest tail b (set_nxt tail b s)))"

text \<open>The walk over the pending lists that the low bits of the counter ask for.\<close>

definition pending_get :: "nat option \<Rightarrow> nat \<Rightarrow> list_store \<Rightarrow> nat" where
  "pending_get tail pending s = (case tail of None \<Rightarrow> pending | Some x \<Rightarrow> prv s x)"

function pending_walk :: "64 word \<Rightarrow> nat option \<Rightarrow> nat \<Rightarrow> list_store \<Rightarrow> 64 word \<times> nat option" where
  "pending_walk bits tail pending s =
     (if and bits 1 \<noteq> 0 then pending_walk (drop_bit 1 bits) (Some (pending_get tail pending s)) pending s
      else (bits, tail))"
  by pat_completeness auto
termination
proof (relation "measure (\<lambda>(bits, tail, pending, s). unat bits)")
  fix bits :: "64 word" and tail :: "nat option" and pending :: nat and s :: list_store
  assume "and bits 1 \<noteq> 0"
  then have "unat bits \<noteq> 0" by (auto simp: unat_eq_0)
  then show "((drop_bit 1 bits, Some (pending_get tail pending s), pending, s), (bits, tail, pending, s))
      \<in> measure (\<lambda>(bits, tail, pending, s). unat bits)"
    by (simp add: drop_bit_eq_div unat_div)
qed simp

declare pending_walk.simps [simp del]

definition pending_set :: "nat option \<Rightarrow> nat \<Rightarrow> nat \<Rightarrow> list_store \<Rightarrow> nat \<times> list_store" where
  "pending_set tail v pending s = (case tail of None \<Rightarrow> (v, s) | Some x \<Rightarrow> (pending, set_prv x v s))"

definition list_qsort_merge ::
  "nat sort_cmp \<Rightarrow> nat \<Rightarrow> 32 word \<Rightarrow> list_store \<Rightarrow> (nat \<times> list_store) option" where
  "list_qsort_merge cmp pending nr s =
     (let (bits, tail) = pending_walk (ucast nr) None pending s in
      if bits \<noteq> 0 then
        let b = pending_get tail pending s; a = prv s b in
        map_option (\<lambda>(b, s). pending_set tail b pending (set_prv b (prv s a) s)) (list_merge cmp a b s)
      else Some (pending, s))"

partial_function (option) list_qsort_split ::
  "nat sort_cmp \<Rightarrow> nat \<Rightarrow> nat \<Rightarrow> 32 word \<Rightarrow> list_store \<Rightarrow> (nat \<times> list_store) option" where
  "list_qsort_split cmp pending node nr s =
     Option.bind (list_qsort_merge cmp pending nr s) (\<lambda>(pending, s).
       let s = set_prv node pending s; pending = node; node = nxt s node; s = set_nxt pending 0 s in
       if node \<noteq> 0 then list_qsort_split cmp pending node (nr + 1) s else Some (pending, s))"

partial_function (option) list_qsort_join ::
  "nat sort_cmp \<Rightarrow> nat \<Rightarrow> nat \<Rightarrow> list_store \<Rightarrow> (nat \<times> nat \<times> list_store) option" where
  "list_qsort_join cmp pending node s =
     (let following = prv s pending in
      if following = 0 then Some (pending, node, s)
      else Option.bind (list_merge cmp pending node s) (\<lambda>(node, s). list_qsort_join cmp following node s))"

definition list_qsort :: "nat \<Rightarrow> nat sort_cmp \<Rightarrow> list_store \<Rightarrow> list_store option" where
  "list_qsort head cmp s =
     (let node = nxt s head in
      if node = prv s head then Some s
      else Option.bind (list_qsort_split cmp 0 node 0 (set_nxt (prv s head) 0 s)) (\<lambda>(node, s).
        Option.bind (list_qsort_join cmp (prv s node) node s) (\<lambda>(pending, node, s).
          list_finish cmp head pending node s)))"

text \<open>The bubble sort. One pass: \<open>record\<close> is set in the first, which counts the nodes.\<close>

partial_function (option) list_bsort_pass ::
  "nat \<Rightarrow> nat sort_cmp \<Rightarrow> bool \<Rightarrow> bool \<Rightarrow> nat \<Rightarrow> nat \<Rightarrow> nat \<Rightarrow> 32 word \<Rightarrow> 32 word \<Rightarrow> bool \<Rightarrow> list_store \<Rightarrow>
    (32 word \<times> bool \<times> list_store) option" where
  "list_bsort_pass head cmp dbg recording prev walk tmp nr number swapped s =
     (if walk = head then Some (number, swapped, s)
      else if \<not> recording \<and> nr \<ge> number then Some (number, swapped, s)
      else
        let number = (if recording then number + 1 else number);
            nr = (if recording then nr else nr + 1) in
        if cmp prev walk \<le> 0
        then list_bsort_pass head cmp dbg recording walk tmp (nxt s tmp) nr number swapped s
        else
          let s = list_swap dbg walk prev s in
          list_bsort_pass head cmp dbg recording prev tmp (nxt s tmp) nr number True s)"

partial_function (option) list_bsort_loop ::
  "nat \<Rightarrow> nat sort_cmp \<Rightarrow> bool \<Rightarrow> bool \<Rightarrow> bool \<Rightarrow> 32 word \<Rightarrow> list_store \<Rightarrow> list_store option" where
  "list_bsort_loop head cmp dbg recording swapped number s =
     (if swapped then
        let walk = nxt s head; prev = walk; walk = nxt s walk in
        Option.bind (list_bsort_pass head cmp dbg recording prev walk (nxt s walk) 1 number False s)
          (\<lambda>(number, swapped, s). list_bsort_loop head cmp dbg False swapped (number - 1) s)
      else Some s)"

definition list_bsort :: "nat \<Rightarrow> nat sort_cmp \<Rightarrow> bool \<Rightarrow> list_store \<Rightarrow> list_store option" where
  "list_bsort head cmp dbg s = list_bsort_loop head cmp dbg True True 1 s"

section \<open>Stable merging\<close>

fun merge_stable :: "'a sort_cmp \<Rightarrow> 'a list \<Rightarrow> 'a list \<Rightarrow> 'a list" where
  "merge_stable cmp (x # xs) (y # ys) =
     (if cmp x y \<le> 0 then x # merge_stable cmp xs (y # ys) else y # merge_stable cmp (x # xs) ys)"
| "merge_stable cmp [] ys = ys"
| "merge_stable cmp xs [] = xs"

lemma merge_stable_mset [simp]: "mset (merge_stable cmp xs ys) = mset xs + mset ys"
  by (induction cmp xs ys rule: merge_stable.induct) auto

lemma merge_stable_set [simp]: "set (merge_stable cmp xs ys) = set xs \<union> set ys"
  by (metis merge_stable_mset set_mset_mset set_mset_union)

lemma merge_stable_nil [simp]: "merge_stable cmp xs [] = xs"
  by (cases xs) simp_all

text \<open>Sorted, and equal elements in the order they had.\<close>

definition same_class :: "'a sort_cmp \<Rightarrow> 'a \<Rightarrow> 'a list \<Rightarrow> 'a list" where
  "same_class cmp v xs = filter (\<lambda>x. cmp v x = 0) xs"

definition stable_sorted :: "'a sort_cmp \<Rightarrow> 'a list \<Rightarrow> 'a list \<Rightarrow> bool" where
  "stable_sorted cmp xs ys \<longleftrightarrow> mset ys = mset xs \<and> sort_sorted cmp ys \<and> (\<forall>v. same_class cmp v ys = same_class cmp v xs)"

lemma stable_sorted_single [simp]: "stable_sorted cmp [x] [x]"
  by (simp add: stable_sorted_def sort_sorted_def)

context sort_order begin

lemma le_ge: "cmp x y \<le> 0 \<longleftrightarrow> cmp y x \<ge> 0"
  using flip [of y x] by linarith

lemma merge_sorted:
  "sort_sorted cmp xs \<Longrightarrow> sort_sorted cmp ys \<Longrightarrow> sort_sorted cmp (merge_stable cmp xs ys)"
  unfolding sort_sorted_def
proof (induction xs arbitrary: ys)
  case (Cons x xs)
  note outer = this
  from Cons.prems(2) show ?case
  proof (induction ys)
    case (Cons y ys)
    show ?case
    proof (cases "cmp x y \<le> 0")
      case True
      then have yx: "cmp y x \<ge> 0" by (simp add: le_ge)
      have "\<forall>z \<in> set ys. cmp z x \<ge> 0" using Cons.prems yx ge_trans by auto
      then show ?thesis using True yx outer(1,2) Cons.prems by auto
    next
      case False
      then have xy: "cmp x y \<ge> 0" by simp
      have "\<forall>z \<in> set xs. cmp z y \<ge> 0" using outer(2) xy ge_trans by auto
      then show ?thesis using False xy outer(2) Cons by auto
    qed
  qed (use Cons.prems in simp)
qed simp

lemma merge_class:
  "sort_sorted cmp xs \<Longrightarrow> sort_sorted cmp ys \<Longrightarrow>
    same_class cmp v (merge_stable cmp xs ys) = same_class cmp v xs @ same_class cmp v ys"
proof (induction xs arbitrary: ys)
  case (Cons x xs)
  note outer = this
  from Cons.prems(2) show ?case
  proof (induction ys)
    case (Cons y ys)
    show ?case
    proof (cases "cmp x y \<le> 0")
      case True
      then show ?thesis using outer Cons.prems by (simp add: sort_sorted_def same_class_def)
    next
      case False
      have "cmp v z \<noteq> 0" if "cmp v y = 0" "z \<in> set (x # xs)" for z
      proof
        assume "cmp v z = 0"
        then have "cmp z v \<ge> 0" "cmp v z \<ge> 0" "cmp y v \<ge> 0" using that(1) le_ge [of v z] le_ge [of v y] by simp_all
        moreover have "cmp z x \<ge> 0" using that(2) outer(2) ge_refl by (auto simp: sort_sorted_def)
        ultimately have "cmp y x \<ge> 0" using ge_trans by blast
        then show False using False le_ge [of x y] by simp
      qed
      then have "cmp v y = 0 \<Longrightarrow> same_class cmp v (x # xs) = []" by (simp add: same_class_def filter_empty_conv)
      then show ?thesis using False Cons outer(2) by (auto simp: sort_sorted_def same_class_def)
    qed
  qed (simp add: same_class_def)
qed (simp add: same_class_def)

lemma merge_stable_sorted:
  assumes "stable_sorted cmp xs us" "stable_sorted cmp ys vs"
  shows "stable_sorted cmp (xs @ ys) (merge_stable cmp us vs)"
  using assms merge_sorted merge_class by (simp add: stable_sorted_def) (simp add: same_class_def)

end

section \<open>Chains that end with the null pointer\<close>

fun chain :: "list_store \<Rightarrow> nat \<Rightarrow> nat list \<Rightarrow> bool" where
  "chain s p [] \<longleftrightarrow> p = 0"
| "chain s p (x # xs) \<longleftrightarrow> p = x \<and> x \<noteq> 0 \<and> chain s (nxt s x) xs"

lemma chain_frame: "chain s p xs \<Longrightarrow> \<forall>x \<in> set xs. nxt t x = nxt s x \<Longrightarrow> chain t p xs"
  by (induction xs arbitrary: p) auto

lemma chain_0 [simp]: "chain s 0 xs \<longleftrightarrow> xs = []"
  by (cases xs) auto

text \<open>What a merge has done to a pointer to a pointer.\<close>

definition tail_chain :: "nat option \<Rightarrow> nat \<Rightarrow> list_store \<Rightarrow> nat list \<Rightarrow> bool" where
  "tail_chain tail node t xs = (case tail of None \<Rightarrow> chain t node xs | Some x \<Rightarrow> chain t (nxt t x) xs)"

lemma tail_set_chain:
  assumes "tail_set tail x node s = (node1, s1)" "x \<noteq> 0" "chain t (nxt t x) zs" "\<forall>p \<in> set_option tail. nxt t p = nxt s1 p"
  shows "tail_chain tail node1 t (x # zs) \<and> (tail \<noteq> None \<longrightarrow> node1 = node)"
  using assms by (cases tail) (auto simp: tail_set_def tail_chain_def)

lemma tail_set_frame:
  "tail_set tail x node s = (node1, s1) \<Longrightarrow> prv s1 = prv s \<and> (\<forall>z. z \<notin> set_option tail \<longrightarrow> nxt s1 z = nxt s z)"
  by (cases tail) (auto simp: tail_set_def)

definition merged :: "nat option \<Rightarrow> nat \<Rightarrow> list_store \<Rightarrow> nat set \<Rightarrow> nat list \<Rightarrow> nat \<times> list_store \<Rightarrow> bool" where
  "merged tail node s zs ms r \<longleftrightarrow> tail_chain tail (fst r) (snd r) ms \<and> prv (snd r) = prv s \<and>
     (tail \<noteq> None \<longrightarrow> fst r = node) \<and> (\<forall>z. z \<notin> set_option tail \<union> zs \<longrightarrow> nxt (snd r) z = nxt s z)"

lemma merged_last:
  assumes "tail_set tail x node s = (node1, s1)" "x \<noteq> 0" "chain s y ys" "x \<notin> set ys" "set_option tail \<inter> set (x # ys) = {}"
  shows "merged tail node s (insert x Z) (x # ys) (tail_set (Some x) y node1 s1)"
proof -
  have "chain (set_nxt x y s1) y ys"
    by (rule chain_frame [OF assms(3)]) (use tail_set_frame [OF assms(1)] assms(4,5) in auto)
  then have "tail_chain tail node1 (set_nxt x y s1) (x # ys) \<and> (tail \<noteq> None \<longrightarrow> node1 = node)"
    by (intro tail_set_chain [OF assms(1,2)]) (use assms(5) in auto)
  then show ?thesis using tail_set_frame [OF assms(1)] by (auto simp: merged_def tail_set_def)
qed

lemma merged_step:
  assumes "tail_set tail x node s = (node1, s1)" "x \<noteq> 0" "set_option tail \<inter> insert x Z = {}"
    "merged (Some x) node1 s1 Z ms r"
  shows "merged tail node s (insert x Z) (x # ms) r"
proof -
  have "tail_chain tail node1 (snd r) (x # ms) \<and> (tail \<noteq> None \<longrightarrow> node1 = node)"
    by (intro tail_set_chain [OF assms(1,2)]) (use assms(3,4) in \<open>auto simp: merged_def tail_chain_def\<close>)
  then show ?thesis using tail_set_frame [OF assms(1)] assms(4) by (auto simp: merged_def)
qed

lemma list_merge_loop_merges:
  assumes "chain s a (x # xs)" "chain s b (y # ys)" "distinct (x # xs @ y # ys)" "set_option tail \<inter> set (x # xs @ y # ys) = {}"
  shows "\<exists>r. list_merge_loop cmp a b tail node s = Some r \<and>
    merged tail node s (set (x # xs) \<union> set (y # ys)) (merge_stable cmp (x # xs) (y # ys)) r"
  using assms
proof (induction "length xs + length ys" arbitrary: a b tail node s x xs y ys rule: less_induct)
  case less
  have ab: "a = x" "b = y" "x \<noteq> 0" "y \<noteq> 0" using less.prems(1,2) by auto
  show ?case
  proof (cases "cmp x y \<le> 0")
    case True
    obtain node1 s1 where t: "tail_set tail x node s = (node1, s1)" by fastforce
    have f: "nxt s1 z = nxt s z" if "z \<in> set (x # xs @ y # ys)" for z
      using tail_set_frame [OF t] that less.prems(4) by blast
    show ?thesis
    proof (cases xs)
      case Nil
      have "merged tail node s (insert x (set (y # ys))) (x # y # ys) (tail_set (Some x) y node1 s1)"
        by (rule merged_last [OF t ab(3)]) (use less.prems ab in auto)
      then show ?thesis using Nil less.prems(1) True ab f [of x] t
        by (subst list_merge_loop.simps) (simp add: Let_def insert_commute)
    next
      case (Cons x' xs')
      have c: "chain s1 x' (x' # xs')" "chain s1 b (y # ys)" "nxt s1 x = x'" "x' \<noteq> 0"
        using less.prems(1) f Cons chain_frame [OF less.prems(2), of s1] chain_frame [of s x' xs s1] by auto
      obtain r where r: "list_merge_loop cmp x' b (Some x) node1 s1 = Some r"
        "merged (Some x) node1 s1 (set (x' # xs') \<union> set (y # ys)) (merge_stable cmp (x' # xs') (y # ys)) r"
        using less.hyps [OF _ c(1,2), of "Some x" node1] less.prems(3) Cons by auto
      have "merged tail node s (insert x (set (x' # xs') \<union> set (y # ys))) (x # merge_stable cmp (x' # xs') (y # ys)) r"
        by (rule merged_step [OF t ab(3) _ r(2)]) (use less.prems(4) Cons in auto)
      moreover have "insert x (set (x' # xs') \<union> set (y # ys)) = set (x # xs) \<union> set (y # ys)" using Cons by auto
      moreover have "merge_stable cmp (x # xs) (y # ys) = x # merge_stable cmp (x' # xs') (y # ys)" using True Cons by simp
      moreover have "list_merge_loop cmp a b tail node s = Some r"
        using r(1) True ab t c(3,4) by (subst list_merge_loop.simps) (simp add: Let_def)
      ultimately show ?thesis by metis
    qed
  next
    case False
    obtain node1 s1 where t: "tail_set tail y node s = (node1, s1)" by fastforce
    have f: "nxt s1 z = nxt s z" if "z \<in> set (x # xs @ y # ys)" for z
      using tail_set_frame [OF t] that less.prems(4) by blast
    show ?thesis
    proof (cases ys)
      case Nil
      have "merged tail node s (insert y (set (x # xs))) (y # x # xs) (tail_set (Some y) x node1 s1)"
        by (rule merged_last [OF t ab(4)]) (use less.prems ab in auto)
      then show ?thesis using Nil less.prems(2) False ab f [of y] t
        by (subst list_merge_loop.simps) (simp add: Let_def)
    next
      case (Cons y' ys')
      have c: "chain s1 a (x # xs)" "chain s1 y' (y' # ys')" "nxt s1 y = y'" "y' \<noteq> 0"
        using less.prems(2) f Cons chain_frame [OF less.prems(1), of s1] chain_frame [of s y' ys s1] by auto
      obtain r where r: "list_merge_loop cmp a y' (Some y) node1 s1 = Some r"
        "merged (Some y) node1 s1 (set (x # xs) \<union> set (y' # ys')) (merge_stable cmp (x # xs) (y' # ys')) r"
        using less.hyps [OF _ c(1,2), of "Some y" node1] less.prems(3) Cons by auto
      have "merged tail node s (insert y (set (x # xs) \<union> set (y' # ys'))) (y # merge_stable cmp (x # xs) (y' # ys')) r"
        by (rule merged_step [OF t ab(4) _ r(2)]) (use less.prems(4) Cons in auto)
      moreover have "insert y (set (x # xs) \<union> set (y' # ys')) = set (x # xs) \<union> set (y # ys)" using Cons by auto
      ultimately show ?thesis using r(1) False ab t c(3,4) Cons
        by (subst list_merge_loop.simps) (simp add: Let_def)
    qed
  qed
qed

lemma list_merge_merges:
  assumes "chain s a xs" "chain s b ys" "xs \<noteq> []" "ys \<noteq> []" "distinct (xs @ ys)"
  shows "\<exists>node t. list_merge cmp a b s = Some (node, t) \<and> chain t node (merge_stable cmp xs ys) \<and> prv t = prv s \<and>
    (\<forall>z. z \<notin> set xs \<union> set ys \<longrightarrow> nxt t z = nxt s z)"
proof -
  obtain x xs' y ys' where e: "xs = x # xs'" "ys = y # ys'" using assms(3,4) by (metis list.exhaust)
  have "\<exists>r. list_merge_loop cmp a b None 0 s = Some r \<and>
      merged None 0 s (set (x # xs') \<union> set (y # ys')) (merge_stable cmp (x # xs') (y # ys')) r"
    by (rule list_merge_loop_merges) (use assms e in auto)
  then show ?thesis unfolding list_merge_def e by (auto simp: merged_def tail_chain_def simp del: merge_stable.simps)
qed

section \<open>The last merge\<close>

definition finished :: "nat \<Rightarrow> list_store \<Rightarrow> nat set \<Rightarrow> nat list \<Rightarrow> nat \<times> nat \<times> list_store \<Rightarrow> bool" where
  "finished tail s Z ms r \<longleftrightarrow> (case r of (tail', b, t) \<Rightarrow>
     \<exists>zs rs. ms = zs @ rs \<and> rs \<noteq> [] \<and> chain t b rs \<and> tail' = last (tail # zs) \<and> linked t (tail # zs) \<and>
       (\<forall>z. z \<notin> insert tail Z \<longrightarrow> nxt t z = nxt s z) \<and> (\<forall>z. z \<notin> Z \<longrightarrow> prv t z = prv s z))"

lemma finished_last:
  assumes "chain s b ys" "ys \<noteq> []" "x \<notin> set ys" "tail \<notin> insert x (set ys)"
  shows "finished tail s (insert x Z) (x # ys) (x, b, set_prv x tail (set_nxt tail x s))"
proof -
  have "chain (set_prv x tail (set_nxt tail x s)) b ys"
    by (rule chain_frame [OF assms(1)]) (use assms(4) in auto)
  then show ?thesis using assms(2,4) unfolding finished_def prod.case
    by (intro exI [of _ "[x]"] exI [of _ ys]) auto
qed

lemma finished_step:
  assumes "finished x (set_prv x tail (set_nxt tail x s)) Z ms r" "x \<notin> Z" "tail \<notin> insert x Z"
  shows "finished tail s (insert x Z) (x # ms) r"
proof -
  obtain tail' b t where r: "r = (tail', b, t)" by (cases r)
  obtain zs rs where "ms = zs @ rs" "rs \<noteq> []" "chain t b rs" "tail' = last (x # zs)" "linked t (x # zs)"
    "\<forall>z. z \<notin> insert x Z \<longrightarrow> nxt t z = nxt (set_prv x tail (set_nxt tail x s)) z"
    "\<forall>z. z \<notin> Z \<longrightarrow> prv t z = prv (set_prv x tail (set_nxt tail x s)) z"
    using assms(1) by (auto simp: finished_def r)
  then show ?thesis using assms(2,3) unfolding finished_def r prod.case
    by (intro exI [of _ "x # zs"] exI [of _ rs]) auto
qed

lemma list_finish_merge_merges:
  assumes "chain s a (x # xs)" "chain s b (y # ys)" "distinct (tail # x # xs @ y # ys)"
  shows "\<exists>r. list_finish_merge cmp tail a b s = Some r \<and>
    finished tail s (set (x # xs) \<union> set (y # ys)) (merge_stable cmp (x # xs) (y # ys)) r"
  using assms
proof (induction "length xs + length ys" arbitrary: a b tail s x xs y ys rule: less_induct)
  case less
  have ab: "a = x" "b = y" using less.prems(1,2) by auto
  show ?case
  proof (cases "cmp x y \<le> 0")
    case True
    let ?s = "set_prv x tail (set_nxt tail x s)"
    have f: "nxt ?s z = nxt s z" if "z \<in> set (x # xs @ y # ys)" for z using that less.prems(3) by auto
    show ?thesis
    proof (cases xs)
      case Nil
      have "finished tail s (insert x (set (y # ys))) (x # y # ys) (x, y, ?s)"
        by (rule finished_last) (use less.prems ab in auto)
      then show ?thesis using Nil less.prems(1,3) True ab
        by (subst list_finish_merge.simps) (simp add: Let_def insert_commute)
    next
      case (Cons x' xs')
      have c: "chain ?s x' (x' # xs')" "chain ?s b (y # ys)" "nxt ?s x = x'" "x' \<noteq> 0"
        using less.prems(1) f Cons chain_frame [OF less.prems(2), of ?s] chain_frame [of s x' xs ?s] by auto
      obtain r where r: "list_finish_merge cmp x x' b ?s = Some r"
        "finished x ?s (set (x' # xs') \<union> set (y # ys)) (merge_stable cmp (x' # xs') (y # ys)) r"
        using less.hyps [OF _ c(1,2), of x] less.prems(3) Cons by auto
      have "finished tail s (insert x (set (x' # xs') \<union> set (y # ys))) (x # merge_stable cmp (x' # xs') (y # ys)) r"
        by (rule finished_step [OF r(2)]) (use less.prems(3) Cons in auto)
      moreover have "insert x (set (x' # xs') \<union> set (y # ys)) = set (x # xs) \<union> set (y # ys)" using Cons by auto
      moreover have "merge_stable cmp (x # xs) (y # ys) = x # merge_stable cmp (x' # xs') (y # ys)" using True Cons by simp
      moreover have "list_finish_merge cmp tail a b s = Some r"
        using r(1) True ab c(3,4) by (subst list_finish_merge.simps) (simp add: Let_def)
      ultimately show ?thesis by metis
    qed
  next
    case False
    let ?s = "set_prv y tail (set_nxt tail y s)"
    have f: "nxt ?s z = nxt s z" if "z \<in> set (x # xs @ y # ys)" for z using that less.prems(3) by auto
    show ?thesis
    proof (cases ys)
      case Nil
      have "finished tail s (insert y (set (x # xs))) (y # x # xs) (y, x, ?s)"
        by (rule finished_last) (use less.prems ab in auto)
      then show ?thesis using Nil less.prems(2,3) False ab
        by (subst list_finish_merge.simps) (simp add: Let_def insert_commute)
    next
      case (Cons y' ys')
      have c: "chain ?s a (x # xs)" "chain ?s y' (y' # ys')" "nxt ?s y = y'" "y' \<noteq> 0"
        using less.prems(2) f Cons chain_frame [OF less.prems(1), of ?s] chain_frame [of s y' ys ?s] by auto
      obtain r where r: "list_finish_merge cmp y a y' ?s = Some r"
        "finished y ?s (set (x # xs) \<union> set (y' # ys')) (merge_stable cmp (x # xs) (y' # ys')) r"
        using less.hyps [OF _ c(1,2), of y] less.prems(3) Cons by auto
      have "finished tail s (insert y (set (x # xs) \<union> set (y' # ys'))) (y # merge_stable cmp (x # xs) (y' # ys')) r"
        by (rule finished_step [OF r(2)]) (use less.prems(3) Cons in auto)
      moreover have "insert y (set (x # xs) \<union> set (y' # ys')) = set (x # xs) \<union> set (y # ys)" using Cons by auto
      moreover have "merge_stable cmp (x # xs) (y # ys) = y # merge_stable cmp (x # xs) (y' # ys')" using False Cons by simp
      moreover have "list_finish_merge cmp tail a b s = Some r"
        using r(1) False ab c(3,4) by (subst list_finish_merge.simps) (simp add: Let_def)
      ultimately show ?thesis by metis
    qed
  qed
qed

lemma list_finish_rest_links:
  "chain s b (x # xs) \<Longrightarrow> distinct (tail # x # xs) \<Longrightarrow> nxt s tail = b \<Longrightarrow>
    \<exists>t. list_finish_rest tail b s = Some (last (x # xs), t) \<and> linked t (tail # x # xs) \<and> nxt t = nxt s \<and>
      (\<forall>z. z \<notin> set (x # xs) \<longrightarrow> prv t z = prv s z)"
proof (induction xs arbitrary: s b tail x)
  case Nil
  then show ?case by (subst list_finish_rest.simps) (simp add: Let_def)
next
  case (Cons y ys)
  let ?s = "set_prv x tail s"
  have b: "b = x" "nxt s x = y" "y \<noteq> 0" using Cons.prems(1) by auto
  have "chain ?s y (y # ys)" using chain_frame [of s y "y # ys" ?s] Cons.prems(1) by auto
  then obtain t where t: "list_finish_rest x y ?s = Some (last (y # ys), t)" "linked t (x # y # ys)" "nxt t = nxt s"
    "\<forall>z. z \<notin> set (y # ys) \<longrightarrow> prv t z = prv ?s z"
    using Cons.IH [of ?s y y x] Cons.prems(2) b by auto
  have "list_finish_rest tail b s = Some (last (x # y # ys), t)"
    using t(1) b by (subst list_finish_rest.simps) (simp add: Let_def)
  moreover have "linked t (tail # x # y # ys)" using t(2-4) b Cons.prems(2,3) by auto
  moreover have "\<forall>z. z \<notin> set (x # y # ys) \<longrightarrow> prv t z = prv s z" using t(4) by auto
  ultimately show ?case using t(3) by blast
qed

lemma list_finish_finishes:
  assumes "chain s a xs" "chain s b ys" "xs \<noteq> []" "ys \<noteq> []" "distinct (head # xs @ ys)"
  shows "\<exists>t. list_finish cmp head a b s = Some t \<and> dlist t head (merge_stable cmp xs ys)"
proof -
  obtain x xs' y ys' where e: "xs = x # xs'" "ys = y # ys'" using assms(3,4) by (metis list.exhaust)
  let ?ms = "merge_stable cmp xs ys"
  have "\<exists>r. list_finish_merge cmp head a b s = Some r \<and> finished head s (set xs \<union> set ys) ?ms r"
    using list_finish_merge_merges [of s a x xs' b y ys' head cmp] assms unfolding e by auto
  then obtain tail r t zs rs where f: "list_finish_merge cmp head a b s = Some (tail, r, t)"
    "?ms = zs @ rs" "rs \<noteq> []" "chain t r rs" "tail = last (head # zs)" "linked t (head # zs)"
    by (auto simp: finished_def)
  have d: "distinct (head # zs @ rs)"
  proof -
    have "mset (head # zs @ rs) = mset (head # xs @ ys)" using f(2) merge_stable_mset [of cmp xs ys] by simp
    then show ?thesis using assms(5) mset_eq_imp_distinct_iff by blast
  qed
  obtain q qs where q: "rs = q # qs" using f(3) by (cases rs) auto
  let ?t = "set_nxt tail r t"
  have "tail \<in> set (head # zs)" unfolding f(5) by (rule last_in_set) simp
  then have tl: "tail \<notin> set rs" "r = q" using d f(4) q by auto
  have "\<forall>z \<in> set rs. nxt ?t z = nxt t z" using tl(1) by auto
  from chain_frame [OF f(4) this] have c: "chain ?t r (q # qs)" unfolding q .
  obtain u where u: "list_finish_rest tail r ?t = Some (last rs, u)" "linked u (tail # rs)" "nxt u = nxt ?t"
    "\<forall>z. z \<notin> set rs \<longrightarrow> prv u z = prv ?t z"
    using list_finish_rest_links [OF c, of tail] tl d q by (metis distinct.simps(2) distinct_append append_Cons set_nxt_def set_fields(1) fun_upd_same)
  let ?v = "set_prv head (last rs) (set_nxt (last rs) head u)"
  have front: "linked u (head # zs)"
  proof (rule linked_frame [OF f(6)])
    fix z assume "z \<in> set (butlast (head # zs))"
    then have "z \<noteq> tail" using distinct_butlast_last [of head zs] d f(5) by auto
    then show "nxt u z = nxt t z" using u(3) by simp
  next
    fix z assume "z \<in> set (tl (head # zs))"
    then have "z \<notin> set rs" using d by auto
    then show "prv u z = prv t z" using u(4) by simp
  qed
  have all: "linked u (head # zs @ rs)"
    using linked_join [of "head # zs" rs u] front u(2) q f(5) by auto
  have lr: "last rs \<in> set rs" using f(3) by simp
  have "linked ?v ((head # zs @ rs) @ [head])"
  proof (subst linked_join)
    have "linked ?v (head # zs @ rs)"
    proof (rule linked_frame [OF all])
      fix z assume z: "z \<in> set (butlast (head # zs @ rs))"
      have "last (head # zs @ rs) = last rs" using f(3) by simp
      then have "z \<noteq> last rs" using distinct_butlast_last [of head "zs @ rs"] d z by metis
      then show "nxt ?v z = nxt u z" by simp
    next
      fix z assume "z \<in> set (tl (head # zs @ rs))"
      then have "z \<noteq> head" using d by auto
      then show "prv ?v z = prv u z" by simp
    qed
    then show "linked ?v (head # zs @ rs) \<and> nxt ?v (last (head # zs @ rs)) = hd [head] \<and>
        prv ?v (hd [head]) = last (head # zs @ rs) \<and> linked ?v [head]" using f(3) by simp
  qed simp_all
  then have "dlist ?v head ?ms" using d f(2) by (simp add: dlist_def)
  moreover have "list_finish cmp head a b s = Some ?v" using f(1) u(1) by (simp add: list_finish_def)
  ultimately show ?thesis by blast
qed

end
