(* ===== verification/List_Sort_Stack.thy ===== *)
theory List_Sort_Stack
  imports List_Sort
begin

text \<open>
  The pending lists of the merge sort of linked lists, and the theorems about both sorts.
\<close>

section \<open>The pending lists\<close>

fun pstack :: "list_store \<Rightarrow> nat \<Rightarrow> nat list list \<Rightarrow> bool" where
  "pstack s p [] \<longleftrightarrow> p = 0"
| "pstack s p (xs # xss) \<longleftrightarrow> xs \<noteq> [] \<and> chain s p xs \<and> pstack s (prv s p) xss"

lemma chain_hd: "chain s p xs \<Longrightarrow> xs \<noteq> [] \<Longrightarrow> p = hd xs \<and> p \<noteq> 0 \<and> p \<in> set xs"
  by (cases xs) auto

lemma pstack_frame:
  "pstack s p xss \<Longrightarrow> \<forall>x \<in> set (concat xss). nxt t x = nxt s x \<and> prv t x = prv s x \<Longrightarrow> pstack t p xss"
proof (induction xss arbitrary: p)
  case (Cons xs xss)
  have "p \<in> set xs" using Cons.prems(1) chain_hd [of s p xs] by simp
  then have "prv t p = prv s p" using Cons.prems(2) by simp
  moreover have "chain t p xs" using Cons.prems by (auto intro: chain_frame [of s p xs t])
  moreover have "pstack t (prv s p) xss" using Cons.prems by (intro Cons.IH) simp_all
  ultimately show ?case using Cons.prems(1) by simp
qed simp

text \<open>The number of binary digits bounds the number of the lists.\<close>

fun digits :: "nat \<Rightarrow> nat" where
  "digits n = (if n = 0 then 0 else Suc (digits (n div 2)))"

function low_ones :: "nat \<Rightarrow> nat" where
  "low_ones n = (if odd n then Suc (low_ones (n div 2)) else 0)"
  by auto
termination by (relation "measure id") (auto simp: odd_pos)

declare digits.simps [simp del] low_ones.simps [simp del]

lemma digits_Suc: "digits (Suc n) = (if n div 2 ^ low_ones n = 0 then Suc (digits n) else digits n)"
proof (induction n rule: less_induct)
  case (less n)
  show ?case
  proof (cases "odd n")
    case True
    then have "digits (Suc n) = Suc (digits (Suc (n div 2)))" "digits n = Suc (digits (n div 2))"
      "low_ones n = Suc (low_ones (n div 2))" "n div 2 < n"
      by (simp_all add: digits.simps [of n] digits.simps [of "Suc n"] low_ones.simps [of n] odd_pos)
    then show ?thesis using less by (simp add: div_mult2_eq)
  next
    case False
    then have "low_ones n = 0" "Suc n div 2 = n div 2" by (simp_all add: low_ones.simps [of n])
    then show ?thesis by (simp add: digits.simps [of n] digits.simps [of "Suc n"] digits.simps [of 0])
  qed
qed

section \<open>Merging at a position of the stack\<close>

fun merge_at :: "'a sort_cmp \<Rightarrow> nat \<Rightarrow> 'a list list \<Rightarrow> 'a list list" where
  "merge_at cmp 0 (ys # xs # xss) = merge_stable cmp xs ys # xss"
| "merge_at cmp (Suc k) (xs # xss) = xs # merge_at cmp k xss"
| "merge_at cmp k xss = xss"

lemma merge_at_mset [simp]: "mset (concat (merge_at cmp k xss)) = mset (concat xss)"
  by (induction cmp k xss rule: merge_at.induct) auto

lemma merge_at_length: "k + 2 \<le> length xss \<Longrightarrow> length (merge_at cmp k xss) = length xss - 1"
  by (induction cmp k xss rule: merge_at.induct) auto

definition merge_low :: "'a sort_cmp \<Rightarrow> nat \<Rightarrow> 'a list list \<Rightarrow> 'a list list" where
  "merge_low cmp n xss = (if n div 2 ^ low_ones n \<noteq> 0 then merge_at cmp (low_ones n) xss else xss)"

lemma merge_low_odd: "odd n \<Longrightarrow> merge_low cmp n (xs # xss) = xs # merge_low cmp (n div 2) xss"
  by (simp add: merge_low_def low_ones.simps [of n] div_mult2_eq)

lemma merge_low_even: "even n \<Longrightarrow> 0 < n \<Longrightarrow> merge_low cmp n (ys # xs # xss) = merge_stable cmp xs ys # xss"
  by (simp add: merge_low_def low_ones.simps [of n])

lemma merge_low_mset [simp]: "mset (concat (merge_low cmp n xss)) = mset (concat xss)"
  by (simp add: merge_low_def)

lemma low_ones_digits: "n div 2 ^ low_ones n \<noteq> 0 \<Longrightarrow> low_ones n + 2 \<le> digits n"
proof (induction n rule: less_induct)
  case (less n)
  show ?case
  proof (cases "odd n")
    case True
    then have "low_ones n = Suc (low_ones (n div 2))" "digits n = Suc (digits (n div 2))" "n div 2 < n"
      by (simp_all add: digits.simps [of n] low_ones.simps [of n] odd_pos)
    then show ?thesis using less by (simp add: div_mult2_eq)
  next
    case False
    then have "low_ones n = 0" "n \<noteq> 0" "n div 2 \<noteq> 0" using less.prems by (auto simp: low_ones.simps [of n])
    then show ?thesis by (simp add: digits.simps [of n] digits.simps [of "n div 2"])
  qed
qed

lemma merge_low_length:
  assumes "digits n \<le> length xss"
  shows "length (merge_low cmp n xss) + (if n div 2 ^ low_ones n \<noteq> 0 then 1 else 0) = length xss"
    and "n div 2 ^ low_ones n \<noteq> 0 \<Longrightarrow> 2 \<le> length xss"
  using low_ones_digits [of n] assms merge_at_length [of "low_ones n" xss cmp] by (auto simp: merge_low_def)

fun stacked :: "'a sort_cmp \<Rightarrow> 'a list \<Rightarrow> 'a list list \<Rightarrow> bool" where
  "stacked cmp us [] \<longleftrightarrow> us = []"
| "stacked cmp us (xs # xss) \<longleftrightarrow> (\<exists>v u. us = v @ u \<and> stable_sorted cmp u xs \<and> stacked cmp v xss)"

context sort_order begin

lemma stacked_merge_at: "stacked cmp us xss \<Longrightarrow> stacked cmp us (merge_at cmp k xss)"
proof (induction k arbitrary: us xss)
  case 0
  show ?case
  proof (cases xss)
    case (Cons ys rest)
    show ?thesis
    proof (cases rest)
      case Nil
      then show ?thesis using 0 Cons by simp
    next
      case (Cons xs more)
      then obtain w v u where "us = (w @ v) @ u" "stable_sorted cmp u ys" "stable_sorted cmp v xs" "stacked cmp w more"
        using 0 \<open>xss = ys # rest\<close> by auto
      then have "us = w @ (v @ u)" "stable_sorted cmp (v @ u) (merge_stable cmp xs ys)" "stacked cmp w more"
        using merge_stable_sorted by simp_all
      then show ?thesis using Cons \<open>xss = ys # rest\<close> by auto
    qed
  qed (use 0 in simp)
next
  case (Suc k)
  show ?case using Suc by (cases xss) auto
qed

lemma stacked_merge_low: "stacked cmp us xss \<Longrightarrow> stacked cmp us (merge_low cmp n xss)"
  by (simp add: merge_low_def stacked_merge_at)

end

section \<open>The walk of the code merges there\<close>

definition qsort_merge_from ::
  "nat sort_cmp \<Rightarrow> 64 word \<Rightarrow> nat option \<Rightarrow> nat \<Rightarrow> list_store \<Rightarrow> (nat \<times> list_store) option" where
  "qsort_merge_from cmp bits tail pending s =
     (let (bits, tail) = pending_walk bits tail pending s in
      if bits \<noteq> 0 then
        let b = pending_get tail pending s; a = prv s b in
        map_option (\<lambda>(b, s). pending_set tail b pending (set_prv b (prv s a) s)) (list_merge cmp a b s)
      else Some (pending, s))"

lemma word_odd_unat: "and bits 1 \<noteq> 0 \<longleftrightarrow> odd (unat (bits :: 64 word))"
proof -
  have "and bits 1 \<noteq> 0 \<longleftrightarrow> bit bits 0" by (simp only: bit_iff_and_push_bit_not_eq_0 push_bit_0_id id_apply)
  also have "\<dots> \<longleftrightarrow> bit (unat bits) 0" by (simp only: bit_unsigned_iff) simp
  finally show ?thesis by (simp only: bit_0)
qed

lemma qsort_merge_odd:
  "odd (unat bits) \<Longrightarrow> qsort_merge_from cmp bits tail pending s =
    qsort_merge_from cmp (drop_bit 1 bits) (Some (pending_get tail pending s)) pending s"
  unfolding qsort_merge_from_def
  by (subst pending_walk.simps) (simp only: word_odd_unat if_True not_False_eq_True)

lemma qsort_merge_even:
  "even (unat bits) \<Longrightarrow> qsort_merge_from cmp bits tail pending s =
     (if bits \<noteq> 0 then
        let b = pending_get tail pending s; a = prv s b in
        map_option (\<lambda>(b, s). pending_set tail b pending (set_prv b (prv s a) s)) (list_merge cmp a b s)
      else Some (pending, s))"
  unfolding qsort_merge_from_def
  by (subst pending_walk.simps) (simp add: word_odd_unat)

lemma qsort_merge_from_merges:
  assumes "pstack s (pending_get tail pending s) xss" "distinct (concat xss)" "set_option tail \<inter> set (concat xss) = {}"
    "digits (unat bits) \<le> length xss"
  shows "\<exists>p t. qsort_merge_from cmp bits tail pending s = Some (p, t) \<and>
    pstack t (pending_get tail p t) (merge_low cmp (unat bits) xss) \<and> (tail \<noteq> None \<longrightarrow> p = pending) \<and>
    (\<forall>z. z \<notin> set (concat xss) \<longrightarrow> nxt t z = nxt s z) \<and>
    (\<forall>z. z \<notin> set_option tail \<union> set (concat xss) \<longrightarrow> prv t z = prv s z)"
  using assms
proof (induction xss arbitrary: bits tail)
  case Nil
  then have "bits = 0" by (subst (asm) digits.simps) (auto simp: unat_eq_0 split: if_splits)
  then show ?case using Nil by (simp add: qsort_merge_even merge_low_def)
next
  case (Cons ys xss)
  let ?P = "pending_get tail pending s"
  have P: "?P = hd ys" "?P \<in> set ys" "?P \<noteq> 0" "chain s ?P ys" "pstack s (prv s ?P) xss" "ys \<noteq> []"
    using Cons.prems(1) chain_hd [of s ?P ys] by auto
  have d: "distinct ys" "distinct (concat xss)" "set ys \<inter> set (concat xss) = {}" using Cons.prems(2) by auto
  show ?case
  proof (cases "odd (unat bits)")
    case True
    have u: "unat (drop_bit 1 bits) = unat bits div 2" by (simp add: drop_bit_eq_div unat_div)
    have dg: "digits (unat (drop_bit 1 bits)) \<le> length xss"
      unfolding u using Cons.prems(4) odd_pos [OF True] by (simp add: digits.simps [of "unat bits"])
    have "\<exists>p t. qsort_merge_from cmp (drop_bit 1 bits) (Some ?P) pending s = Some (p, t) \<and>
      pstack t (pending_get (Some ?P) p t) (merge_low cmp (unat (drop_bit 1 bits)) xss) \<and> (Some ?P \<noteq> None \<longrightarrow> p = pending) \<and>
      (\<forall>z. z \<notin> set (concat xss) \<longrightarrow> nxt t z = nxt s z) \<and>
      (\<forall>z. z \<notin> set_option (Some ?P) \<union> set (concat xss) \<longrightarrow> prv t z = prv s z)"
    proof (rule Cons.IH [OF _ d(2) _ dg])
      have "?P \<notin> set (concat xss)" using P(2) d(3) by blast
      then show "set_option (Some ?P) \<inter> set (concat xss) = {}" by simp
      show "pstack s (pending_get (Some ?P) pending s) xss" using P(5) by (simp add: pending_get_def [of "Some ?P"])
    qed
    then obtain p t where ih: "qsort_merge_from cmp (drop_bit 1 bits) (Some ?P) pending s = Some (p, t)"
      "pstack t (pending_get (Some ?P) p t) (merge_low cmp (unat (drop_bit 1 bits)) xss)" "p = pending"
      "\<forall>z. z \<notin> set (concat xss) \<longrightarrow> nxt t z = nxt s z"
      "\<forall>z. z \<notin> set_option (Some ?P) \<union> set (concat xss) \<longrightarrow> prv t z = prv s z" by blast
    have "pending_get (Some ?P) p t = prv t ?P" by (simp only: pending_get_def [of "Some ?P"] option.case)
    note t = ih(1) [folded qsort_merge_odd [OF True], unfolded ih(3)] ih(2) [unfolded this u] ih(4) ih(5) [unfolded option.set Un_insert_left Un_empty_left]
    have same: "pending_get tail pending t = ?P"
    proof (cases tail)
      case (Some a)
      have "a \<noteq> ?P" "a \<notin> set (concat xss)" using P(2) Cons.prems(3) Some by auto
      then have "prv t a = prv s a" using t(4) by blast
      then show ?thesis by (simp add: Some pending_get_def)
    qed (simp add: pending_get_def)
    have "chain t ?P ys" by (rule chain_frame [OF P(4)]) (use t(3) d(3) in blast)
    then have "pstack t (pending_get tail pending t) (merge_low cmp (unat bits) (ys # xss))"
      using t(2) P(6) True by (simp add: same merge_low_odd)
    moreover have "\<forall>z. z \<notin> set (concat (ys # xss)) \<longrightarrow> nxt t z = nxt s z" using t(3) by simp
    moreover have "\<forall>z. z \<notin> set_option tail \<union> set (concat (ys # xss)) \<longrightarrow> prv t z = prv s z"
    proof (intro allI impI)
      fix z assume z: "z \<notin> set_option tail \<union> set (concat (ys # xss))"
      then have "z \<notin> insert ?P (set (concat xss))" using P(2) by auto
      then show "prv t z = prv s z" using t(4) by blast
    qed
    ultimately show ?thesis using t(1) by blast
  next
    case False
    show ?thesis
    proof (cases "bits = 0")
      case True
      then show ?thesis using Cons.prems(1) by (simp add: qsort_merge_even merge_low_def)
    next
      case nz: False
      then have "unat bits \<noteq> 0" "even (unat bits)" using False by (simp_all add: unat_eq_0)
      then have n: "unat bits \<noteq> 0" "unat bits div 2 \<noteq> 0" by presburger+
      then have "2 \<le> digits (unat bits)" by (simp add: digits.simps [of "unat bits"] digits.simps [of "unat bits div 2"])
      then obtain xs rest where xss: "xss = xs # rest" using Cons.prems(4) by (cases xss) auto
      let ?A = "prv s ?P"
      have A: "?A \<in> set xs" "chain s ?A xs" "pstack s (prv s ?A) rest" "xs \<noteq> []"
        using P(5) chain_hd [of s ?A xs] by (auto simp: xss)
      have dd: "distinct (xs @ ys)" "(set xs \<union> set ys) \<inter> set (concat rest) = {}" using Cons.prems(2) xss by auto
      obtain b t where t: "list_merge cmp ?A ?P s = Some (b, t)" "chain t b (merge_stable cmp xs ys)" "prv t = prv s"
        "\<forall>z. z \<notin> set xs \<union> set ys \<longrightarrow> nxt t z = nxt s z"
        using list_merge_merges [OF A(2) P(4) A(4) P(6) dd(1), of cmp] by blast
      have ne: "merge_stable cmp xs ys \<noteq> []" using P(6) merge_stable_set [of cmp xs ys] by (metis Un_empty set_empty)
      then have "b \<in> set (merge_stable cmp xs ys)" using chain_hd [OF t(2)] by blast
      then have b: "b \<in> set xs \<union> set ys" by (simp only: merge_stable_set)
      let ?t = "set_prv b (prv t ?A) t"
      obtain p u where u: "pending_set tail b pending ?t = (p, u)" by fastforce
      have fields: "nxt u = nxt t" "\<forall>z. z \<notin> set_option tail \<longrightarrow> prv u z = prv ?t z"
        "pending_get tail p u = b" "tail \<noteq> None \<longrightarrow> p = pending"
        using u by (cases tail; auto simp: pending_set_def pending_get_def)+
      have bt: "b \<notin> set_option tail" using b Cons.prems(3) xss by auto
      have "chain u b (merge_stable cmp xs ys)" by (rule chain_frame [OF t(2)]) (simp add: fields(1))
      moreover have "prv u b = prv s ?A" using fields(2) bt t(3) by simp
      moreover have "pstack u (prv s ?A) rest"
      proof (rule pstack_frame [OF A(3)], intro ballI conjI)
        fix z assume z: "z \<in> set (concat rest)"
        then have "z \<notin> set xs \<union> set ys" "z \<notin> set_option tail" "z \<noteq> b" using dd(2) Cons.prems(3) xss b by auto
        then show "nxt u z = nxt s z" "prv u z = prv s z" using fields(1,2) t(3,4) by simp_all
      qed
      ultimately have "pstack u (pending_get tail p u) (merge_low cmp (unat bits) (ys # xss))"
        using False n \<open>merge_stable cmp xs ys \<noteq> []\<close> by (simp add: xss merge_low_even fields(3))
      moreover have "qsort_merge_from cmp bits tail pending s = Some (p, u)"
        using False nz t(1) u by (simp add: qsort_merge_even)
      moreover have "\<forall>z. z \<notin> set (concat (ys # xss)) \<longrightarrow> nxt u z = nxt s z" using fields(1) t(4) xss by simp
      moreover have "\<forall>z. z \<notin> set_option tail \<union> set (concat (ys # xss)) \<longrightarrow> prv u z = prv s z"
        using fields(2) t(3) b xss by auto
      ultimately show ?thesis using fields(4) by blast
    qed
  qed
qed

section \<open>Taking the list apart and joining it\<close>

lemma list_qsort_merge_merges:
  assumes "pstack s pending xss" "distinct (concat xss)" "digits (unat nr) \<le> length xss"
  shows "\<exists>p t. list_qsort_merge cmp pending nr s = Some (p, t) \<and> pstack t p (merge_low cmp (unat nr) xss) \<and>
    (\<forall>z. z \<notin> set (concat xss) \<longrightarrow> nxt t z = nxt s z)"
proof -
  have u: "unat (ucast nr :: 64 word) = unat nr"
  proof -
    have "unat nr < 2 ^ 64" using unsigned_less [of nr, where 'a = nat] by simp
    then show ?thesis unfolding unsigned_ucast_eq by (simp add: take_bit_nat_eq_self)
  qed
  have e: "list_qsort_merge cmp pending nr s = qsort_merge_from cmp (ucast nr) None pending s"
    by (simp only: list_qsort_merge_def qsort_merge_from_def)
  have "\<exists>p t. qsort_merge_from cmp (ucast nr) None pending s = Some (p, t) \<and>
    pstack t (pending_get None p t) (merge_low cmp (unat (ucast nr :: 64 word)) xss) \<and> ((None :: nat option) \<noteq> None \<longrightarrow> p = pending) \<and>
    (\<forall>z. z \<notin> set (concat xss) \<longrightarrow> nxt t z = nxt s z) \<and>
    (\<forall>z. z \<notin> set_option None \<union> set (concat xss) \<longrightarrow> prv t z = prv s z)"
    by (rule qsort_merge_from_merges) (use assms u in \<open>simp_all add: pending_get_def\<close>)
  then show ?thesis unfolding e u pending_get_def option.case by blast
qed


lemma list_qsort_split_step:
  fixes cmp :: "nat sort_cmp"
  assumes "sort_order cmp" "pstack s pending xss" "chain s node (z # zs)" "distinct (concat xss @ z # zs)"
    "digits (unat nr) \<le> length xss" "stacked cmp us xss"
  shows "\<exists>p t yss. list_qsort_merge cmp pending nr s = Some (p, t) \<and> nxt t node = nxt s node \<and>
    pstack (set_nxt node 0 (set_prv node p t)) node yss \<and> chain (set_nxt node 0 (set_prv node p t)) (nxt s node) zs \<and>
    stacked cmp (us @ [z]) yss \<and> mset (concat yss) = mset (concat xss @ [z]) \<and>
    digits (unat (nr + 1)) \<le> length yss \<and> min 2 (Suc (length xss)) \<le> length yss"
proof -
  let ?xss = "merge_low cmp (unat nr) xss"
  have node: "node = z" "node \<noteq> 0" "chain s (nxt s node) zs" "node \<notin> set (concat xss)" "node \<notin> set zs"
    using assms(3,4) by auto
  obtain p t where t: "list_qsort_merge cmp pending nr s = Some (p, t)" "pstack t p ?xss"
    "\<forall>z. z \<notin> set (concat xss) \<longrightarrow> nxt t z = nxt s z"
  proof -
    have "distinct (concat xss)" using assms(4) by simp
    from list_qsort_merge_merges [OF assms(2) this assms(5), of cmp] show ?thesis using that by blast
  qed
  let ?t = "set_nxt node 0 (set_prv node p t)"
  have sx: "set (concat ?xss) = set (concat xss)" using merge_low_mset by (rule mset_eq_setD)
  have "node \<notin> set (concat ?xss)" unfolding sx by (rule node(4))
  then have "\<forall>z \<in> set (concat ?xss). nxt ?t z = nxt t z \<and> prv ?t z = prv t z" by auto
  then have "pstack ?t p ?xss" by (rule pstack_frame [OF t(2)])
  then have "pstack ?t node ([z] # ?xss)" using node by simp
  moreover have "chain ?t (nxt s node) zs"
    by (rule chain_frame [OF node(3)]) (use t(3) assms(4) node(5) in auto)
  moreover have "stacked cmp (us @ [z]) ([z] # ?xss)"
    unfolding stacked.simps using sort_order.stacked_merge_low [OF assms(1,6), of "unat nr"]
    by (intro exI [of _ us] exI [of _ "[z]"]) simp
  moreover have "mset (concat ([z] # ?xss)) = mset (concat xss @ [z])" by simp
  moreover have "digits (unat (nr + 1)) \<le> length ([z] # ?xss)"
  proof (cases "nr + 1 = 0")
    case True
    then show ?thesis by (simp add: digits.simps [of 0])
  next
    case False
    then have "unat (nr + 1) = Suc (unat nr)" by (simp add: unatSuc add.commute)
    then show ?thesis using digits_Suc [of "unat nr"] merge_low_length(1) [OF assms(5), of cmp] assms(5)
      by (auto split: if_splits)
  qed
  moreover have "min 2 (Suc (length xss)) \<le> length ([z] # ?xss)"
    using merge_low_length(1) [OF assms(5), of cmp] merge_low_length(2) [OF assms(5)] by (auto split: if_splits)
  moreover have "nxt t node = nxt s node" using t(3) node(4) by simp
  ultimately show ?thesis using t(1) by blast
qed

lemma list_qsort_split_splits:
  fixes cmp :: "nat sort_cmp"
  assumes "sort_order cmp" "pstack s pending xss" "chain s node (z # zs)" "distinct (concat xss @ z # zs)"
    "digits (unat nr) \<le> length xss" "stacked cmp us xss"
  shows "\<exists>p t yss. list_qsort_split cmp pending node nr s = Some (p, t) \<and> pstack t p yss \<and>
    stacked cmp (us @ z # zs) yss \<and> mset (concat yss) = mset (concat xss @ z # zs) \<and>
    min 2 (length xss + length (z # zs)) \<le> length yss"
  using assms(2-)
proof (induction zs arbitrary: pending node nr s z us xss)
  case Nil
  obtain p t yss where t: "list_qsort_merge cmp pending nr s = Some (p, t)" "nxt t node = nxt s node"
    "pstack (set_nxt node 0 (set_prv node p t)) node yss" "stacked cmp (us @ [z]) yss"
    "mset (concat yss) = mset (concat xss @ [z])" "min 2 (Suc (length xss)) \<le> length yss"
    using list_qsort_split_step [OF assms(1) Nil] by blast
  have "nxt s node = 0" using Nil.prems(2) by simp
  then have "list_qsort_split cmp pending node nr s = Some (node, set_nxt node 0 (set_prv node p t))"
    using t(1,2) by (subst list_qsort_split.simps) (simp add: Let_def)
  then show ?case using t(3-) by auto
next
  case (Cons z' zs)
  obtain p t yss where t: "list_qsort_merge cmp pending nr s = Some (p, t)" "nxt t node = nxt s node"
    "pstack (set_nxt node 0 (set_prv node p t)) node yss" "chain (set_nxt node 0 (set_prv node p t)) (nxt s node) (z' # zs)"
    "stacked cmp (us @ [z]) yss" "mset (concat yss) = mset (concat xss @ [z])"
    "digits (unat (nr + 1)) \<le> length yss" "min 2 (Suc (length xss)) \<le> length yss"
    using list_qsort_split_step [OF assms(1) Cons.prems] by blast
  have nz: "nxt s node \<noteq> 0" using t(4) by auto
  have d: "distinct (concat yss @ z' # zs)"
  proof -
    have "mset (concat yss @ z' # zs) = mset (concat xss @ z # z' # zs)" using t(6) by simp
    then show ?thesis using Cons.prems(3) mset_eq_imp_distinct_iff by blast
  qed
  obtain p' t' wss where w: "list_qsort_split cmp node (nxt s node) (nr + 1) (set_nxt node 0 (set_prv node p t)) = Some (p', t')"
    "pstack t' p' wss" "stacked cmp ((us @ [z]) @ z' # zs) wss" "mset (concat wss) = mset (concat yss @ z' # zs)"
    "min 2 (length yss + length (z' # zs)) \<le> length wss"
    using Cons.IH [OF t(3,4) d t(7,5)] by blast
  have "list_qsort_split cmp pending node nr s = Some (p', t')"
    using t(1,2) w(1) nz by (subst list_qsort_split.simps) (simp add: Let_def)
  moreover have "mset (concat wss) = mset (concat xss @ z # z' # zs)" using w(4) t(6) by simp
  moreover have "min 2 (length xss + length (z # z' # zs)) \<le> length wss" using w(5) t(8) by simp
  ultimately show ?case using w(2,3) by auto
qed

lemma list_qsort_join_joins:
  fixes cmp :: "nat sort_cmp"
  assumes "sort_order cmp" "pstack s pending (xs # xss)" "chain s node ys" "ys \<noteq> []" "distinct (concat (xs # xss) @ ys)"
    "stacked cmp v (xs # xss)" "stable_sorted cmp u ys"
  shows "\<exists>p n t xs' ys' v' u'. list_qsort_join cmp pending node s = Some (p, n, t) \<and> chain t p xs' \<and> chain t n ys' \<and>
    xs' \<noteq> [] \<and> ys' \<noteq> [] \<and> mset (xs' @ ys') = mset (concat (xs # xss) @ ys) \<and>
    v @ u = v' @ u' \<and> stable_sorted cmp v' xs' \<and> stable_sorted cmp u' ys'"
  using assms(2-)
proof (induction xss arbitrary: pending xs node ys s v u)
  case Nil
  have "prv s pending = 0" using Nil.prems(1) by simp
  then have "list_qsort_join cmp pending node s = Some (pending, node, s)"
    by (subst list_qsort_join.simps) (simp add: Let_def)
  then show ?case using Nil.prems
    by (intro exI [of _ pending] exI [of _ node] exI [of _ s] exI [of _ xs] exI [of _ ys] exI [of _ v] exI [of _ u]) simp
next
  case (Cons xs2 xss)
  have p: "chain s pending xs" "xs \<noteq> []" "pstack s (prv s pending) (xs2 # xss)" using Cons.prems(1) by auto
  have nz: "prv s pending \<noteq> 0" using p(3) chain_hd by auto
  obtain n t where t: "list_merge cmp pending node s = Some (n, t)" "chain t n (merge_stable cmp xs ys)" "prv t = prv s"
    "\<forall>z. z \<notin> set xs \<union> set ys \<longrightarrow> nxt t z = nxt s z"
  proof -
    have "distinct (xs @ ys)" using Cons.prems(4) by auto
    from list_merge_merges [OF p(1) Cons.prems(2) p(2) Cons.prems(3) this, of cmp] show ?thesis using that by blast
  qed
  have st: "pstack t (prv s pending) (xs2 # xss)"
  proof (rule pstack_frame [OF p(3)], intro ballI conjI)
    fix z assume "z \<in> set (concat (xs2 # xss))"
    then have "z \<notin> set xs \<union> set ys" using Cons.prems(4) by auto
    then show "nxt t z = nxt s z" "prv t z = prv s z" using t(3,4) by simp_all
  qed
  obtain v2 u2 where v: "v = v2 @ u2" "stable_sorted cmp u2 xs" "stacked cmp v2 (xs2 # xss)" using Cons.prems(5) by auto
  have m: "stable_sorted cmp (u2 @ u) (merge_stable cmp xs ys)"
    by (rule sort_order.merge_stable_sorted [OF assms(1) v(2) Cons.prems(6)])
  have ne: "merge_stable cmp xs ys \<noteq> []" using p(2) merge_stable_set [of cmp xs ys] by (metis Un_empty set_empty)
  have d: "distinct (concat (xs2 # xss) @ merge_stable cmp xs ys)"
  proof -
    have "mset (concat (xs2 # xss) @ merge_stable cmp xs ys) = mset (concat (xs # xs2 # xss) @ ys)" by simp
    then show ?thesis using Cons.prems(4) mset_eq_imp_distinct_iff by blast
  qed
  obtain p' n' t' xs' ys' v' u' where r: "list_qsort_join cmp (prv s pending) n t = Some (p', n', t')" "chain t' p' xs'" "chain t' n' ys'"
    "xs' \<noteq> []" "ys' \<noteq> []" "mset (xs' @ ys') = mset (concat (xs2 # xss) @ merge_stable cmp xs ys)"
    "v2 @ u2 @ u = v' @ u'" "stable_sorted cmp v' xs'" "stable_sorted cmp u' ys'"
    using Cons.IH [OF st t(2) ne d v(3) m] by blast
  have "list_qsort_join cmp pending node s = Some (p', n', t')"
    using nz t(1) r(1) by (subst list_qsort_join.simps) (simp add: Let_def)
  moreover have "mset (xs' @ ys') = mset (concat (xs # xs2 # xss) @ ys)" using r(6) by simp
  moreover have "v @ u = v' @ u'" using v(1) r(7) by simp
  ultimately show ?case using r(2-5,8,9) by blast
qed

section \<open>The sorts of the code\<close>

lemma linked_chain:
  "linked s xs \<Longrightarrow> xs \<noteq> [] \<Longrightarrow> \<forall>x \<in> set (butlast xs). nxt t x = nxt s x \<Longrightarrow> nxt t (last xs) = 0 \<Longrightarrow> 0 \<notin> set xs \<Longrightarrow>
    chain t (hd xs) xs"
proof (induction s xs rule: linked.induct)
  case (1 s a b cs)
  then have "chain t b (b # cs)" by auto
  then show ?case using 1 by auto
qed auto

theorem list_qsort_sorts:
  fixes cmp :: "nat sort_cmp"
  assumes "sort_order cmp" "dlist s h xs" "0 \<notin> set xs"
  shows "\<exists>t ys. list_qsort h cmp s = Some t \<and> dlist t h ys \<and> stable_sorted cmp xs ys"
proof (cases "length xs < 2")
  case True
  then obtain x where "xs = [] \<or> xs = [x]" by (cases xs rule: rev_cases) (auto simp: less_2_cases_iff)
  then have "nxt s h = prv s h" using assms(2) by (auto simp: dlist_def)
  moreover have "stable_sorted cmp xs xs" using True by (cases xs) (auto simp: stable_sorted_def sort_sorted_def)
  ultimately show ?thesis using assms(2) by (auto simp: list_qsort_def)
next
  case False
  then obtain z zs where xs: "xs = z # zs" "zs \<noteq> []" by (cases xs) auto
  have ends: "nxt s h = z" "prv s h = last xs" "distinct (h # xs)" "linked s xs"
  proof -
    show "nxt s h = z" "distinct (h # xs)" using assms(2) xs by (auto simp: dlist_def)
    have "dlist s h (xs @ [])" using assms(2) by simp
    then show "prv s h = last xs" "linked s xs" unfolding dlist_cut using xs by auto
  qed
  have ne: "nxt s h \<noteq> prv s h" using ends xs by auto
  let ?s = "set_nxt (prv s h) 0 s"
  have c: "chain ?s z (z # zs)"
  proof -
    have "last xs \<notin> set (butlast xs)" using ends(3) xs distinct_butlast_last [of z zs] by auto
    then have "\<forall>x \<in> set (butlast xs). nxt ?s x = nxt s x" using ends(2) by auto
    then have "chain ?s (hd xs) xs" using linked_chain [OF ends(4), of ?s] ends(2) assms(3) xs(1) by simp
    then show ?thesis by (simp add: xs(1))
  qed
  obtain p t yss where a: "list_qsort_split cmp 0 z 0 ?s = Some (p, t)" "pstack t p yss" "stacked cmp xs yss"
    "mset (concat yss) = mset xs" "min 2 (length xs) \<le> length yss"
    using list_qsort_split_splits [OF assms(1), of ?s 0 "[]" z z zs 0 "[]"] c ends(3) xs
    by (auto simp: digits.simps [of 0])
  have "2 \<le> length yss" using a(5) False by simp
  then obtain ys y2 more where yss: "yss = ys # y2 # more" by (metis Suc_le_length_iff numeral_2_eq_2)
  have p: "pstack t (prv t p) (y2 # more)" "chain t p ys" "ys \<noteq> []" using a(2) yss by auto
  obtain v u where vu: "xs = v @ u" "stable_sorted cmp u ys" "stacked cmp v (y2 # more)" using a(3) yss by auto
  have m: "mset (concat (y2 # more) @ ys) = mset xs" using a(4) yss by (simp add: ac_simps)
  then have "distinct (concat (y2 # more) @ ys)" using ends(3) mset_eq_imp_distinct_iff by (metis distinct.simps(2))
  then obtain p' n' t' xs' ys' v' u' where j: "list_qsort_join cmp (prv t p) p t = Some (p', n', t')" "chain t' p' xs'" "chain t' n' ys'"
    "xs' \<noteq> []" "ys' \<noteq> []" "mset (xs' @ ys') = mset (concat (y2 # more) @ ys)" "v @ u = v' @ u'"
    "stable_sorted cmp v' xs'" "stable_sorted cmp u' ys'"
    using list_qsort_join_joins [OF assms(1) p _ vu(3,2)] by blast
  have ms: "mset (xs' @ ys') = mset xs" using j(6) m by simp
  then have "distinct (xs' @ ys')" "set (xs' @ ys') = set xs" using ends(3) mset_eq_imp_distinct_iff mset_eq_setD
    by (metis distinct.simps(2), metis)
  then have "distinct (h # xs' @ ys')" using ends(3) by auto
  then obtain w where w: "list_finish cmp h p' n' t' = Some w" "dlist w h (merge_stable cmp xs' ys')"
    using list_finish_finishes [OF j(2-5)] by blast
  have "stable_sorted cmp xs (merge_stable cmp xs' ys')"
    using sort_order.merge_stable_sorted [OF assms(1) j(8,9)] vu(1) j(7) by simp
  moreover have "list_qsort h cmp s = Some w"
    using a(1) j(1) w(1) ne ends(1) by (simp add: list_qsort_def Let_def)
  ultimately show ?thesis using w(2) by blast
qed

section \<open>The bubble sort of a list is that of the array of its nodes\<close>

lemma dlist_next:
  assumes "dlist s h zs" "k < length zs"
  shows "nxt s (zs ! k) = (zs @ [h]) ! Suc k"
proof -
  have "zs = take k zs @ zs ! k # drop (Suc k) zs" using assms(2) by (rule id_take_nth_drop)
  then have "nxt s (zs ! k) = node_after h (drop (Suc k) zs)" using assms(1) dlist_node(2) by metis
  also have "\<dots> = (zs @ [h]) ! Suc k"
  proof (cases "Suc k < length zs")
    case True
    then show ?thesis by (simp add: hd_append hd_drop_conv_nth nth_append)
  next
    case False
    then show ?thesis using assms(2) by (simp add: nth_append)
  qed
  finally show ?thesis .
qed

lemma exchange_swap:
  assumes "distinct zs" "Suc i < length zs"
  shows "map (exchange (zs ! Suc i) (zs ! i)) zs = swap_cells (Suc i) i zs"
  by (rule nth_equalityI) (use assms in \<open>auto simp: swap_nth exchange_def nth_eq_iff_index_eq\<close>)

lemma list_bsort_step:
  assumes "dlist s h zs" "no_poison h zs" "Suc i < length zs"
  shows "dlist (list_swap dbg (zs ! Suc i) (zs ! i) s) h (swap_cells (Suc i) i zs)"
proof -
  have d: "distinct zs" using assms(1) by (simp add: dlist_def)
  then have "zs ! Suc i \<noteq> zs ! i" using assms(3) by (simp add: nth_eq_iff_index_eq)
  then show ?thesis
    using dlist_swap [OF assms(1), of "zs ! Suc i" "zs ! i" dbg] assms(2,3) exchange_swap [OF d assms(3)] by simp
qed

lemma bsort_pass_step:
  assumes "unat number64 < 2 ^ 32" "i < unat number64"
  shows "bsort_pass cmp number64 (of_nat (Suc i)) i swapped zs =
    (if Suc i < unat number64 then
       if cmp (zs ! i) (zs ! Suc i) > 0
       then bsort_pass cmp number64 (of_nat (Suc (Suc i))) (Suc i) True (swap_cells (Suc i) i zs)
       else bsort_pass cmp number64 (of_nat (Suc (Suc i))) (Suc i) swapped zs
     else Some (swapped, zs))"
proof -
  let ?nr = "of_nat (Suc i) :: 32 word"
  have nr: "unat ?nr = Suc i" using assms by (simp add: unat_of_nat take_bit_nat_eq_self del: of_nat_Suc)
  have less_iff: "(ucast ?nr :: 64 word) < number64 \<longleftrightarrow> Suc i < unat number64"
    unfolding word_less_nat_alt unsigned_ucast_eq using nr assms by (simp add: take_bit_nat_eq_self del: of_nat_Suc)
  have e: "?nr + 1 = of_nat (Suc (Suc i))" by (simp add: algebra_simps)
  show ?thesis by (subst bsort_pass.simps) (simp only: less_iff nr Let_def e)
qed

text \<open>\<open>m\<close> cells are compared; the first pass goes to the end of the list and counts the nodes.\<close>

lemma list_bsort_pass_array:
  assumes "dlist s h zs" "no_poison h zs" "length zs < 2 ^ 32" "m \<le> length zs" "i < m" "unat number64 = m"
    "recording \<longrightarrow> m = length zs \<and> number = of_nat (Suc i)" "\<not> recording \<longrightarrow> unat number = m \<and> nr = of_nat (Suc i)"
  shows "\<exists>again ys t. bsort_pass cmp number64 (of_nat (Suc i)) i swapped zs = Some (again, ys) \<and>
    list_bsort_pass h cmp dbg recording (zs ! i) ((zs @ [h]) ! Suc i) (nxt s ((zs @ [h]) ! Suc i)) nr number swapped s
      = Some (of_nat m, again, t) \<and> dlist t h ys \<and> mset ys = mset zs"
  using assms(1-5,7,8)
proof (induction "m - i" arbitrary: i s zs swapped nr number rule: less_induct)
  case less
  have i: "i < length zs" using less.prems by simp
  have small: "unat number64 < 2 ^ 32" "i < unat number64" using assms(6) less.prems by auto
  let ?walk = "(zs @ [h]) ! Suc i"
  have d: "distinct zs" "h \<notin> set zs" using less.prems(1) by (auto simp: dlist_def)
  have walk: "?walk = h \<longleftrightarrow> Suc i = length zs"
    using i d(2) by (auto simp: nth_append not_less_eq dest: nth_mem)
  have word: "unat (of_nat (Suc i) :: 32 word) = Suc i" using i less.prems(3) by (simp add: unat_of_nat take_bit_nat_eq_self del: of_nat_Suc)
  have stop: "?walk = h \<or> (\<not> recording \<and> nr \<ge> number) \<longleftrightarrow> \<not> Suc i < m"
    using walk less.prems word by (auto simp: word_le_nat_alt simp del: of_nat_Suc)
  show ?case
  proof (cases "Suc i < m")
    case False
    then have m: "m = Suc i" using less.prems(5) by simp
    have "number = of_nat m"
    proof (cases recording)
      case True
      then show ?thesis using less.prems(6) unfolding m by blast
    next
      case False
      then have "unat number = m" using less.prems(7) by simp
      moreover have "of_nat (unat number) = number" by simp
      ultimately show ?thesis by metis
    qed
    moreover have "list_bsort_pass h cmp dbg recording (zs ! i) ?walk (nxt s ?walk) nr number swapped s = Some (number, swapped, s)"
      using stop False by (subst list_bsort_pass.simps) auto
    moreover have "bsort_pass cmp number64 (of_nat (Suc i)) i swapped zs = Some (swapped, zs)"
      using False assms(6) by (subst bsort_pass_step [OF small]) simp
    ultimately show ?thesis using less.prems(1) by auto
  next
    case True
    have go: "?walk \<noteq> h" "\<not> (\<not> recording \<and> nr \<ge> number)" using stop True by auto
    have w: "?walk = zs ! Suc i" "Suc i < length zs" using True less.prems(4) by (auto simp: nth_append)
    note nxt = dlist_next [OF less.prems(1) w(2)]
    let ?nr = "if recording then nr else nr + 1" and ?number = "if recording then number + 1 else number"
    have rec: "recording \<longrightarrow> m = length zs \<and> ?number = of_nat (Suc (Suc i))" "\<not> recording \<longrightarrow> unat ?number = m \<and> ?nr = of_nat (Suc (Suc i))"
      using less.prems(6,7) by (auto simp: algebra_simps)
    have dec: "m - Suc i < m - i" using True by simp
    show ?thesis
    proof (cases "cmp (zs ! i) (zs ! Suc i) \<le> 0")
      case le: True
      have "list_bsort_pass h cmp dbg recording (zs ! i) ?walk (nxt s ?walk) nr number swapped s =
          list_bsort_pass h cmp dbg recording (zs ! Suc i) ((zs @ [h]) ! Suc (Suc i)) (nxt s ((zs @ [h]) ! Suc (Suc i))) ?nr ?number swapped s"
        using go le unfolding w(1) by (subst list_bsort_pass.simps) (simp only: nxt Let_def if_False if_True)
      moreover have "bsort_pass cmp number64 (of_nat (Suc i)) i swapped zs =
          bsort_pass cmp number64 (of_nat (Suc (Suc i))) (Suc i) swapped zs"
        using True le assms(6) by (subst bsort_pass_step [OF small]) simp
      ultimately show ?thesis
        using less.hyps [OF dec less.prems(1-4) True rec, of swapped] by simp
    next
      case gt: False
      let ?s = "list_swap dbg (zs ! Suc i) (zs ! i) s" and ?zs = "swap_cells (Suc i) i zs"
      have sw: "dlist ?s h ?zs" by (rule list_bsort_step [OF less.prems(1,2) w(2)])
      have m: "mset ?zs = mset zs" using w(2) i by simp
      have np: "no_poison h ?zs" using less.prems(2) m by (metis list.set(2) mset_eq_setD)
      have l: "length ?zs < 2 ^ 32" "m \<le> length ?zs" using less.prems(3,4) by simp_all
      have n: "?zs ! Suc i = zs ! i" "(?zs @ [h]) ! Suc (Suc i) = (zs @ [h]) ! Suc (Suc i)"
        using w(2) i by (simp_all add: swap_nth nth_append)
      have rec': "recording \<longrightarrow> m = length ?zs \<and> ?number = of_nat (Suc (Suc i))" using rec(1) by simp
      have "list_bsort_pass h cmp dbg recording (zs ! i) ?walk (nxt s ?walk) nr number swapped s =
          list_bsort_pass h cmp dbg recording (?zs ! Suc i) ((?zs @ [h]) ! Suc (Suc i)) (nxt ?s ((?zs @ [h]) ! Suc (Suc i))) ?nr ?number True ?s"
        using go gt unfolding w(1) by (subst list_bsort_pass.simps) (simp only: nxt n Let_def if_False if_True)
      moreover have "bsort_pass cmp number64 (of_nat (Suc i)) i swapped zs =
          bsort_pass cmp number64 (of_nat (Suc (Suc i))) (Suc i) True ?zs"
        using True gt assms(6) by (subst bsort_pass_step [OF small]) simp
      ultimately show ?thesis
        using less.hyps [OF dec sw np l True rec' rec(2), of True] m by simp
    qed
  qed
qed

lemma list_bsort_loop_array:
  assumes "dlist s h zs" "no_poison h zs" "length zs < 2 ^ 32" "m \<le> length zs" "0 < m" "unat number64 = m"
    "recording \<longrightarrow> m = length zs \<and> number = 1" "\<not> recording \<longrightarrow> unat number = m"
  shows "\<exists>ys t. bsort_loop cmp number64 True zs = Some ys \<and> list_bsort_loop h cmp dbg recording True number s = Some t \<and> dlist t h ys"
  using assms
proof (induction m arbitrary: s zs number64 number recording)
  case (Suc m)
  have z: "nxt s h = zs ! 0" "0 < length zs" using dlist_nth_ends(1) [OF Suc.prems(1)] Suc.prems(4) by (cases zs; simp)+
  have w: "nxt s (zs ! 0) = (zs @ [h]) ! Suc 0" by (rule dlist_next [OF Suc.prems(1) z(2)])
  have rec: "recording \<longrightarrow> Suc m = length zs \<and> number = of_nat (Suc 0)" "\<not> recording \<longrightarrow> unat number = Suc m \<and> (1 :: 32 word) = of_nat (Suc 0)"
    using Suc.prems(7,8) by auto
  obtain again ys t where p: "bsort_pass cmp number64 1 0 False zs = Some (again, ys)"
    "list_bsort_pass h cmp dbg recording (zs ! 0) ((zs @ [h]) ! Suc 0) (nxt s ((zs @ [h]) ! Suc 0)) 1 number False s = Some (of_nat (Suc m), again, t)"
    "dlist t h ys" "mset ys = mset zs"
    using list_bsort_pass_array [OF Suc.prems(1-5,6) rec, of cmp False dbg] by (auto simp del: of_nat_Suc simp: of_nat_Suc [of 0])
  have a: "bsort_loop cmp number64 True zs = bsort_loop cmp (number64 - 1) again ys"
    by (subst bsort_loop.simps) (simp add: p(1))
  have l: "list_bsort_loop h cmp dbg recording True number s = list_bsort_loop h cmp dbg False again (of_nat m) t"
    by (subst list_bsort_loop.simps) (simp add: Let_def z(1) w p(2))
  show ?case
  proof (cases again)
    case False
    then show ?thesis using a l p(3) by (simp add: bsort_loop.simps [of _ _ False] list_bsort_loop.simps [of _ _ _ _ False])
  next
    case True
    have "0 < m"
    proof (rule ccontr)
      assume "\<not> 0 < m"
      then have "\<not> (ucast (1 :: 32 word) :: 64 word) < number64" using Suc.prems(6) by (simp add: word_less_nat_alt)
      then have "bsort_pass cmp number64 1 0 False zs = Some (False, zs)" by (subst bsort_pass.simps) simp
      then show False using p(1) True by simp
    qed
    moreover have u: "unat (number64 - 1) = m" using Suc.prems(6) by (subst unat_sub) (simp_all add: word_le_nat_alt)
    moreover have "length ys = length zs" using p(4) by (rule mset_eq_length)
    moreover have "no_poison h ys" using Suc.prems(2) p(4) by (metis list.set(2) mset_eq_setD)
    moreover have "unat (of_nat m :: 32 word) = m" using Suc.prems(3,4) by (simp add: unat_of_nat take_bit_nat_eq_self)
    ultimately show ?thesis
      using Suc.IH [OF p(3), of "number64 - 1" False "of_nat m"] Suc.prems(3,4) True a l by simp
  qed
qed simp

theorem list_bsort_sorts:
  fixes cmp :: "nat sort_cmp"
  assumes "sort_order cmp" "dlist s h zs" "no_poison h zs" "length zs < 2 ^ 32"
  shows "\<exists>t ys. list_bsort h cmp dbg s = Some t \<and> dlist t h ys \<and> mset ys = mset zs \<and> sort_sorted cmp ys"
proof (cases zs)
  case Nil
  then have "nxt s h = h" using assms(2) by (simp add: dlist_def)
  then have "list_bsort h cmp dbg s = Some s"
    by (simp add: list_bsort_def list_bsort_loop.simps [of _ _ _ True True] list_bsort_pass.simps list_bsort_loop.simps [of _ _ _ _ False])
  then show ?thesis using assms(2) Nil by (auto simp: sort_sorted_def)
next
  case (Cons z zs')
  let ?n = "of_nat (length zs) :: 64 word"
  have u: "unat ?n = length zs" using assms(4) by (simp add: unat_of_nat take_bit_nat_eq_self)
  obtain ys t where l: "bsort_loop cmp ?n True zs = Some ys" "list_bsort_loop h cmp dbg True True 1 s = Some t" "dlist t h ys"
    using list_bsort_loop_array [OF assms(2-4) order.refl _ u, of True 1 cmp dbg] Cons by auto
  have "\<exists>ys. bsort_loop cmp ?n True zs = Some ys \<and> mset ys = mset zs \<and> sort_sorted cmp ys"
    by (rule sort_order.bsort_loop_sorts [OF assms(1)]) (use u assms(4) Cons in \<open>auto simp: sorted_from_def\<close>)
  then show ?thesis using l by (auto simp: list_bsort_def)
qed


text \<open>
  C13: the merge sort of a linked list ends and leaves the list, with both its links, stably sorted; the
  bubble sort ends and leaves it sorted, with or without the debugging checks of the lists. The nodes
  are compared by an order, none is the null pointer or a poison value.
\<close>

theorem list_sorts_sort:
  assumes "\<forall>x y. cmp x y < 0 \<longleftrightarrow> cmp y x > 0" "\<forall>x y z. cmp x y \<ge> 0 \<longrightarrow> cmp y z \<ge> 0 \<longrightarrow> cmp x z \<ge> 0"
    "dlist s h xs" "0 \<notin> set xs" "no_poison h xs" "length xs < 2 ^ 32"
  shows "(\<exists>t ys. list_qsort h cmp s = Some t \<and> dlist t h ys \<and> mset ys = mset xs \<and>
      (\<forall>i j. i < j \<longrightarrow> j < length ys \<longrightarrow> cmp (ys ! j) (ys ! i) \<ge> 0) \<and>
      (\<forall>v. filter (\<lambda>x. cmp v x = 0) ys = filter (\<lambda>x. cmp v x = 0) xs)) \<and>
    (\<exists>t ys. list_bsort h cmp dbg s = Some t \<and> dlist t h ys \<and> mset ys = mset xs \<and>
      (\<forall>i j. i < j \<longrightarrow> j < length ys \<longrightarrow> cmp (ys ! j) (ys ! i) \<ge> 0))"
proof -
  have o: "sort_order cmp" using assms(1,2) by unfold_locales blast+
  show ?thesis
    using list_qsort_sorts [OF o assms(3,4)] list_bsort_sorts [OF o assms(3,5,6), of dbg]
    unfolding stable_sorted_def same_class_def sort_sorted_def sorted_wrt_iff_nth_less by metis
qed

theorem list_sorts_sort_witness:
  "\<exists>t ys. list_qsort 1 (\<lambda>a b. int (b mod 2) - int (a mod 2)) demo_list = Some t \<and> dlist t 1 ys \<and> mset ys = mset [2, 3, 4] \<and>
    (\<forall>i j. i < j \<longrightarrow> j < length ys \<longrightarrow> int (ys ! i mod 2) - int (ys ! j mod 2) \<ge> 0) \<and>
    (\<forall>v. filter (\<lambda>x. int (x mod 2) - int (v mod 2) = 0) ys = filter (\<lambda>x. int (x mod 2) - int (v mod 2) = 0) [2, 3, 4])"
  using list_sorts_sort [of "\<lambda>a b. int (b mod 2) - int (a mod 2)" demo_list 1 "[2, 3, 4]" True] demo_list_dlist
  by (simp add: POISON_LIST1_def POISON_LIST2_def)

end
