(* ===== verification/Boot_Tables.thy ===== *)
theory Boot_Tables
  imports Sort_Loops Bitops
begin

text \<open>
  The tables that the kernel sorts at boot and searches later: the exception table with its user, the
  trap handler of the x86 port (\<^verbatim>\<open>kernel/extable.c\<close>, \<^verbatim>\<open>arch/x86/extable.c\<close>, \<^verbatim>\<open>arch/x86/traps.c\<close>), and
  the table of bugs and warnings with its reports (\<^verbatim>\<open>kernel/crash.c\<close>, \<^verbatim>\<open>include/asm-generic/bug.h\<close>).
\<close>

section \<open>The exception table\<close>

record extable_entry =
  ext_addr :: ulong
  ext_fixup :: ulong
  ext_data :: u32

definition extable_bytes :: ulong where "extable_bytes = 24"

definition extable_search :: "ulong \<Rightarrow> extable_entry \<Rightarrow> int" where
  "extable_search addr extable = (if ext_addr extable = addr then 0 else if ext_addr extable > addr then 1 else - 1)"

definition extable_sort :: "extable_entry sort_cmp" where
  "extable_sort extablea extableb =
     (if ext_addr extablea = ext_addr extableb then 0 else if ext_addr extablea > ext_addr extableb then 1 else - 1)"

text \<open>The table lies between two addresses of the linker.\<close>

definition extable_find :: "ulong \<Rightarrow> ulong \<Rightarrow> ulong \<Rightarrow> extable_entry list \<Rightarrow> extable_entry option" where
  "extable_find start stop addr extable =
     map_option ((!) extable) (bsearch (extable_search addr) extable (unat ((stop - start) div extable_bytes)))"

definition extable_init :: "ulong \<Rightarrow> ulong \<Rightarrow> extable_entry list \<Rightarrow> (errno \<times> extable_entry list) option" where
  "extable_init start stop extable =
     qsort (unat start) ((stop - start) div extable_bytes) extable_bytes (Some extable_sort) extable"

text \<open>The registers that the handlers of the x86 port change, and whether the two warnings were printed.\<close>

record trap_regs =
  regs_ax :: ulong
  regs_cx :: ulong
  regs_dx :: ulong
  regs_ip :: ulong

record msr_once =
  once_rdmsr :: bool
  once_wrmsr :: bool

definition FIELD_GET :: "u32 \<Rightarrow> u32 \<Rightarrow> u32" where
  "FIELD_GET field reg = drop_bit (ffsuf (ucast field)) (reg AND field)"

definition EXTABLE_TYPE_MASK :: u32 where "EXTABLE_TYPE_MASK = 0x000000ff"
definition EXTABLE_FLAG_MASK :: u32 where "EXTABLE_FLAG_MASK = 0x0000f000"
definition EXTABLE_FLAG_CLEAR_AX :: u32 where "EXTABLE_FLAG_CLEAR_AX = push_bit 12 1"
definition EXTABLE_FLAG_CLEAR_DX :: u32 where "EXTABLE_FLAG_CLEAR_DX = push_bit 12 2"

definition extable_handler_generic :: "trap_regs \<Rightarrow> extable_entry \<Rightarrow> trap_regs" where
  "extable_handler_generic regs extable =
     (let flags = FIELD_GET EXTABLE_FLAG_MASK (ext_data extable);
          regs = (if flags AND EXTABLE_FLAG_CLEAR_AX \<noteq> 0 then regs\<lparr>regs_ax := 0\<rparr> else regs);
          regs = (if flags AND EXTABLE_FLAG_CLEAR_DX \<noteq> 0 then regs\<lparr>regs_dx := 0\<rparr> else regs)
      in regs\<lparr>regs_ip := ext_fixup extable\<rparr>)"

text \<open>The result has the warnings printed, true for a write.\<close>

definition extable_handler_msr ::
  "trap_regs \<Rightarrow> extable_entry \<Rightarrow> bool \<Rightarrow> bool \<Rightarrow> msr_once \<Rightarrow> trap_regs \<times> bool list \<times> msr_once" where
  "extable_handler_msr regs extable safe wrmsr once =
     (let rd = \<not> safe \<and> \<not> wrmsr \<and> \<not> once_rdmsr once;
          wr = \<not> safe \<and> wrmsr \<and> \<not> once_wrmsr once;
          once = once\<lparr>once_rdmsr := once_rdmsr once \<or> rd, once_wrmsr := once_wrmsr once \<or> wr\<rparr>;
          regs = (if \<not> wrmsr then regs\<lparr>regs_ax := 0, regs_dx := 0\<rparr> else regs)
      in (extable_handler_generic regs extable, (if rd then [False] else []) @ (if wr then [True] else []), once))"

text \<open>\<open>BUG()\<close> for an unknown type is \<open>None\<close>.\<close>

definition extable_fixup ::
  "trap_regs \<Rightarrow> extable_entry \<Rightarrow> msr_once \<Rightarrow> (trap_regs \<times> bool list \<times> msr_once) option" where
  "extable_fixup regs extable once =
     (let type = FIELD_GET EXTABLE_TYPE_MASK (ext_data extable) in
      if type = 8 then Some (extable_handler_msr regs extable False False once)
      else if type = 9 then Some (extable_handler_msr regs extable False True once)
      else if type = 10 then Some (extable_handler_msr regs extable True False once)
      else if type = 11 then Some (extable_handler_msr regs extable True True once)
      else None)"

datatype trap_end = TrapReturn bool trap_regs "bool list" msr_once | TrapBug | TrapOops

definition TRAP_UD :: nat where "TRAP_UD = 6"

definition kernel_trap ::
  "bool \<Rightarrow> bool \<Rightarrow> nat \<Rightarrow> ulong \<Rightarrow> ulong \<Rightarrow> extable_entry list \<Rightarrow> msr_once \<Rightarrow> trap_regs \<Rightarrow> trap_end" where
  "kernel_trap v8086 user vector start stop extable once regs =
     (if v8086 then TrapReturn (vector < TRAP_UD) regs [] once
      else if user then TrapReturn True regs [] once
      else case extable_find start stop (regs_ip regs) extable of
        Some entry \<Rightarrow>
          (case extable_fixup regs entry once of None \<Rightarrow> TrapBug
           | Some (regs, warned, once) \<Rightarrow> TrapReturn True regs warned once)
      | None \<Rightarrow> TrapOops)"

section \<open>The table of bugs and warnings\<close>

record crash_entry =
  crash_addr :: ulong
  crash_info :: "string option"
  crash_file :: string
  crash_flags :: ulong
  crash_line :: u32

datatype crash_type = CRASH_TYPE_NONE | CRASH_TYPE_WARN | CRASH_TYPE_BUG

datatype crash_print = CutHere | CrashInfo string | CrashAt string u32

definition crash_bytes :: ulong where "crash_bytes = 40"

definition crash_flags_test :: "nat \<Rightarrow> crash_entry \<Rightarrow> bool" where
  "crash_flags_test nr crash = (arch_bit_test [crash_flags crash] nr = Some True)"

definition crash_flags_test_set :: "nat \<Rightarrow> crash_entry \<Rightarrow> bool \<times> crash_entry" where
  "crash_flags_test_set nr crash =
     (case arch_bit_test_set [crash_flags crash] nr of
        Some (old, [flags]) \<Rightarrow> (old, crash\<lparr>crash_flags := flags\<rparr>) | _ \<Rightarrow> (False, crash))"

definition crash_test_ncut_here :: "crash_entry \<Rightarrow> bool" where "crash_test_ncut_here = crash_flags_test 0"
definition crash_test_warning :: "crash_entry \<Rightarrow> bool" where "crash_test_warning = crash_flags_test 1"
definition crash_test_once :: "crash_entry \<Rightarrow> bool" where "crash_test_once = crash_flags_test 2"
definition crash_test_done :: "crash_entry \<Rightarrow> bool" where "crash_test_done = crash_flags_test 3"
definition crash_test_set_done :: "crash_entry \<Rightarrow> bool \<times> crash_entry" where "crash_test_set_done = crash_flags_test_set 3"

definition crash_table_search :: "ulong \<Rightarrow> crash_entry \<Rightarrow> int" where
  "crash_table_search addr crash = (if crash_addr crash = addr then 0 else if crash_addr crash > addr then 1 else - 1)"

definition crash_table_sort :: "crash_entry sort_cmp" where
  "crash_table_sort crasha crashb =
     (if crash_addr crasha = crash_addr crashb then 0 else if crash_addr crasha > crash_addr crashb then 1 else - 1)"

definition crash_find :: "ulong \<Rightarrow> ulong \<Rightarrow> ulong \<Rightarrow> crash_entry list \<Rightarrow> nat option" where
  "crash_find start stop addr crashes =
     bsearch (crash_table_search addr) crashes (unat ((stop - start) div crash_bytes))"

definition crash_init :: "ulong \<Rightarrow> ulong \<Rightarrow> crash_entry list \<Rightarrow> (errno \<times> crash_entry list) option" where
  "crash_init start stop crashes =
     qsort (unat start) ((stop - start) div crash_bytes) crash_bytes (Some crash_table_sort) crashes"

definition crash_report ::
  "ulong \<Rightarrow> ulong \<Rightarrow> ulong \<Rightarrow> crash_entry list \<Rightarrow> crash_type \<times> crash_print list \<times> crash_entry list" where
  "crash_report start stop addr crashes =
     (case crash_find start stop addr crashes of None \<Rightarrow> (CRASH_TYPE_NONE, [], crashes)
      | Some walk \<Rightarrow>
          (let crash = crashes ! walk;
               type = (if crash_test_warning crash then CRASH_TYPE_WARN else CRASH_TYPE_BUG);
               (seen, crash) = (if crash_test_once crash then crash_test_set_done crash else (False, crash));
               crashes = crashes[walk := crash]
           in if seen then (type, [], crashes)
              else (type, (if crash_test_ncut_here crash then [] else [CutHere]) @
                          (case crash_info crash of None \<Rightarrow> [] | Some info \<Rightarrow> [CrashInfo info]) @
                          [CrashAt (crash_file crash) (crash_line crash)], crashes)))"

text \<open>Reports one after the other.\<close>

primrec crash_session ::
  "ulong \<Rightarrow> ulong \<Rightarrow> ulong list \<Rightarrow> crash_entry list \<Rightarrow> (ulong \<times> crash_type \<times> crash_print list) list" where
  "crash_session start stop [] crashes = []"
| "crash_session start stop (addr # addrs) crashes =
     (let (type, lines, crashes) = crash_report start stop addr crashes
      in (addr, type, lines) # crash_session start stop addrs crashes)"

interpretation ext: sort_order extable_sort
  by unfold_locales (auto simp: extable_sort_def split: if_splits)

interpretation crs: sort_order crash_table_sort
  by unfold_locales (auto simp: crash_table_sort_def split: if_splits)

section \<open>A table between two addresses\<close>

text \<open>The division of the code gives the number of the entries.\<close>

definition table_at :: "ulong \<Rightarrow> ulong \<Rightarrow> ulong \<Rightarrow> nat \<Rightarrow> bool" where
  "table_at cells start stop n \<longleftrightarrow> start \<noteq> 0 \<and> array_fits cells n \<and> stop = start + of_nat n * cells"

lemma table_number: "table_at cells start stop n \<Longrightarrow> (stop - start) div cells = of_nat n \<and> unat (of_nat n :: ulong) = n"
proof -
  assume t: "table_at cells start stop n"
  then have f: "array_fits cells n" by (simp add: table_at_def)
  have n: "n * unat cells < 2 ^ 64" "0 < unat cells" using array_fits_off [OF f, of n] f by (auto simp: array_fits_def)
  have u: "unat (of_nat n :: ulong) = n"
  proof -
    have "n \<le> n * unat cells" using n(2) by simp
    then have "n < 2 ^ 64" using n(1) by linarith
    then show ?thesis by (simp add: unat_of_nat take_bit_nat_eq_self)
  qed
  have "stop - start = off cells n" using t by (simp add: table_at_def off_def)
  moreover have "unat (off cells n div cells) = n" using n by (simp add: off_div)
  ultimately show ?thesis using u by (metis word_unat_eq_iff)
qed

text \<open>
  What the initialisation leaves: the table sorted. A table of fewer than two entries is refused
  and stays, and it is sorted.
\<close>

lemma qsort_table:
  assumes "sort_order cmp" "table_at cells start stop (length xs)"
  shows "\<exists>code ys. qsort (unat start) ((stop - start) div cells) cells (Some cmp) xs = Some (code, ys) \<and>
    mset ys = mset xs \<and> sort_sorted cmp ys"
proof (cases "1 < length xs")
  case True
  then show ?thesis
    using sort_order.qsort_sorts [OF assms(1), of cells xs "unat start"] table_number [OF assms(2)] assms(2)
    by (auto simp: table_at_def unat_eq_0)
next
  case False
  then have "of_nat (length xs) < (2 :: ulong)"
    using table_number [OF assms(2)] by (simp add: word_less_nat_alt)
  moreover have "sort_sorted cmp xs" using False unfolding sort_sorted_def by (cases xs) auto
  ultimately show ?thesis using table_number [OF assms(2)] qsort_refuses [of "unat start" "Some cmp" "of_nat (length xs)" cells xs] by auto
qed

lemma extable_ready: "sort_sorted extable_sort xs \<Longrightarrow> bsearch_ready (extable_search addr) xs"
  unfolding sort_sorted_def bsearch_ready_def
  by (erule sorted_wrt_mono_rel [rotated]) (auto simp: extable_sort_def extable_search_def split: if_splits)

lemma extable_find_iff:
  assumes "table_at extable_bytes start stop (length xs)" "sort_sorted extable_sort xs"
  shows "case extable_find start stop addr xs of
    Some e \<Rightarrow> e \<in> set xs \<and> ext_addr e = addr | None \<Rightarrow> addr \<notin> ext_addr ` set xs"
  using bsearch_finds [OF extable_ready [OF assms(2)], of addr] table_number [OF assms(1)]
  by (auto simp: extable_find_def extable_search_def split: option.splits if_splits)

definition trap_fixed :: "trap_regs \<Rightarrow> extable_entry \<Rightarrow> bool \<Rightarrow> trap_regs" where
  "trap_fixed regs e wrmsr =
     (if wrmsr then regs\<lparr>regs_ip := ext_fixup e\<rparr> else regs\<lparr>regs_ax := 0, regs_dx := 0, regs_ip := ext_fixup e\<rparr>)"

text \<open>The flags are shifted down before they are compared with masks that are not: no flag is ever seen.\<close>

lemma FIELD_GET_type: "FIELD_GET EXTABLE_TYPE_MASK x = x AND 255"
proof -
  have "ffsuf (ucast EXTABLE_TYPE_MASK) = 0" by code_simp
  then show ?thesis by (simp add: FIELD_GET_def EXTABLE_TYPE_MASK_def)
qed

lemma generic_ignores_flags: "extable_handler_generic regs e = regs\<lparr>regs_ip := ext_fixup e\<rparr>"
proof -
  have f: "ffsuf (ucast EXTABLE_FLAG_MASK) = 12" by code_simp
  have "drop_bit 12 (0xf000 :: u32) = 15" by simp
  then have d: "drop_bit 12 (x AND 0xf000) = drop_bit 12 x AND 15" for x :: u32 by (simp add: drop_bit_and)
  have "(15 :: u32) AND push_bit 12 1 = 0" "(15 :: u32) AND push_bit 12 2 = 0" by simp_all
  then have "FIELD_GET EXTABLE_FLAG_MASK (ext_data e) AND EXTABLE_FLAG_CLEAR_AX = 0"
    "FIELD_GET EXTABLE_FLAG_MASK (ext_data e) AND EXTABLE_FLAG_CLEAR_DX = 0"
    unfolding FIELD_GET_def f unfolding EXTABLE_FLAG_MASK_def EXTABLE_FLAG_CLEAR_AX_def EXTABLE_FLAG_CLEAR_DX_def d
    by (simp_all only: and.assoc, simp_all)
  then show ?thesis by (simp add: extable_handler_generic_def)
qed

lemma extable_fixup_cases:
  "extable_fixup regs e once =
    (let type = ext_data e AND 255 in
     if type \<in> {8, 9, 10, 11} then
       Some (trap_fixed regs e (type \<in> {9, 11}),
         (if type = 8 \<and> \<not> once_rdmsr once then [False] else if type = 9 \<and> \<not> once_wrmsr once then [True] else []),
         once\<lparr>once_rdmsr := once_rdmsr once \<or> type = 8, once_wrmsr := once_wrmsr once \<or> type = 9\<rparr>)
     else None)"
  unfolding extable_fixup_def extable_handler_msr_def generic_ignores_flags FIELD_GET_type trap_fixed_def Let_def
  by simp

text \<open>
  C31: after the table was sorted at boot, a fault in the kernel at an address of the table continues at its
  fix-up for the types of the code, with the warnings printed once, and any other fault is fatal.
\<close>

theorem extable_recovers:
  assumes "table_at extable_bytes start stop (length tbl)" "distinct (map ext_addr tbl)"
  shows "\<exists>code extable. extable_init start stop tbl = Some (code, extable) \<and> mset extable = mset tbl \<and>
    (\<forall>regs vector once. regs_ip regs \<notin> ext_addr ` set tbl \<longrightarrow>
      kernel_trap False False vector start stop extable once regs = TrapOops) \<and>
    (\<forall>regs vector once. \<forall>e \<in> set tbl. ext_addr e = regs_ip regs \<longrightarrow>
      kernel_trap False False vector start stop extable once regs =
        (let type = ext_data e AND 255 in
         if type \<in> {8, 9, 10, 11} then
           TrapReturn True (trap_fixed regs e (type \<in> {9, 11}))
             (if type = 8 \<and> \<not> once_rdmsr once then [False] else if type = 9 \<and> \<not> once_wrmsr once then [True] else [])
             (once\<lparr>once_rdmsr := once_rdmsr once \<or> type = 8, once_wrmsr := once_wrmsr once \<or> type = 9\<rparr>)
         else TrapBug))"
proof -
  obtain code ys where ys: "extable_init start stop tbl = Some (code, ys)" "mset ys = mset tbl" "sort_sorted extable_sort ys"
    using qsort_table [OF ext.sort_order_axioms assms(1)] unfolding extable_init_def by blast
  have t: "table_at extable_bytes start stop (length ys)" using assms(1) mset_eq_length [OF ys(2)] by simp
  have s: "set ys = set tbl" using ys(2) by (rule mset_eq_setD)
  have i: "inj_on ext_addr (set tbl)" using assms(2) by (simp add: distinct_map)
  note find = extable_find_iff [OF t ys(3), unfolded s]
  have none: "kernel_trap False False vector start stop ys once regs = TrapOops"
    if "regs_ip regs \<notin> ext_addr ` set tbl" for regs vector once
  proof -
    have "extable_find start stop (regs_ip regs) ys = None"
    proof (cases "extable_find start stop (regs_ip regs) ys")
      case (Some a)
      then have "a \<in> set tbl" "ext_addr a = regs_ip regs" using find [of "regs_ip regs"] by simp_all
      then show ?thesis using that by (metis imageI)
    qed
    then show ?thesis by (simp add: kernel_trap_def)
  qed
  have found: "kernel_trap False False vector start stop ys once regs =
      (case extable_fixup regs e once of None \<Rightarrow> TrapBug | Some (regs, warned, once) \<Rightarrow> TrapReturn True regs warned once)"
    if e: "e \<in> set tbl" "ext_addr e = regs_ip regs" for regs vector once e
  proof -
    have "extable_find start stop (regs_ip regs) ys = Some e"
    proof (cases "extable_find start stop (regs_ip regs) ys")
      case None
      then show ?thesis using find [of "regs_ip regs"] e by (simp, metis imageI)
    next
      case (Some a)
      then have "a \<in> set tbl" "ext_addr a = ext_addr e" using find [of "regs_ip regs"] e(2) by simp_all
      then show ?thesis using Some inj_onD [OF i, of a e] e(1) by simp
    qed
    then show ?thesis by (simp add: kernel_trap_def)
  qed
  show ?thesis
    by (rule exI [of _ code], rule exI [of _ ys]) (use ys none in \<open>simp add: found extable_fixup_cases Let_def\<close>)
qed

theorem extable_recovers_witness:
  "\<exists>code extable. extable_init 0x1000 0x1048 [\<lparr>ext_addr = 30, ext_fixup = 7, ext_data = 10\<rparr>,
      \<lparr>ext_addr = 10, ext_fixup = 8, ext_data = 9\<rparr>, \<lparr>ext_addr = 20, ext_fixup = 9, ext_data = 1\<rparr>] = Some (code, extable) \<and>
    kernel_trap False False 13 0x1000 0x1048 extable \<lparr>once_rdmsr = False, once_wrmsr = False\<rparr>
      \<lparr>regs_ax = 1, regs_cx = 2, regs_dx = 3, regs_ip = 10\<rparr> =
    TrapReturn True \<lparr>regs_ax = 1, regs_cx = 2, regs_dx = 3, regs_ip = 8\<rparr> [True] \<lparr>once_rdmsr = False, once_wrmsr = True\<rparr>"
proof -
  let ?t = "[\<lparr>ext_addr = 30, ext_fixup = 7, ext_data = 10\<rparr>,
      \<lparr>ext_addr = 10, ext_fixup = 8, ext_data = 9\<rparr>, \<lparr>ext_addr = 20, ext_fixup = 9, ext_data = 1\<rparr>] :: extable_entry list"
  have "table_at extable_bytes 0x1000 0x1048 (length ?t)" by (simp add: table_at_def array_fits_def extable_bytes_def)
  moreover have "distinct (map ext_addr ?t)" by simp
  ultimately show ?thesis using extable_recovers [of "0x1000" "0x1048" ?t]
    by (fastforce simp: trap_fixed_def)
qed

section \<open>Reports of bugs and warnings\<close>

lemma crash_ready: "sort_sorted crash_table_sort xs \<Longrightarrow> bsearch_ready (crash_table_search addr) xs"
  unfolding sort_sorted_def bsearch_ready_def
  by (erule sorted_wrt_mono_rel [rotated]) (auto simp: crash_table_sort_def crash_table_search_def split: if_splits)

lemma crash_sorted_addrs: "map crash_addr ys = map crash_addr xs \<Longrightarrow> sort_sorted crash_table_sort ys = sort_sorted crash_table_sort xs"
proof -
  have "sort_sorted crash_table_sort zs \<longleftrightarrow> sorted (map crash_addr zs)" for zs
    unfolding sort_sorted_def sorted_wrt_map
    by (rule arg_cong [where f = "\<lambda>r. sorted_wrt r zs"]) (auto simp: crash_table_sort_def fun_eq_iff)
  then show "map crash_addr ys = map crash_addr xs \<Longrightarrow> ?thesis" by metis
qed

definition crash_table :: "ulong \<Rightarrow> ulong \<Rightarrow> crash_entry list \<Rightarrow> bool" where
  "crash_table start stop crashes \<longleftrightarrow> table_at crash_bytes start stop (length crashes) \<and>
     sort_sorted crash_table_sort crashes \<and> distinct (map crash_addr crashes)"

lemma crash_find_iff:
  assumes "crash_table start stop crashes"
  shows "crash_find start stop addr crashes = Some i \<longleftrightarrow> i < length crashes \<and> crash_addr (crashes ! i) = addr"
proof -
  have f: "case crash_find start stop addr crashes of
      Some i \<Rightarrow> i < length crashes \<and> crash_addr (crashes ! i) = addr | None \<Rightarrow> \<forall>x \<in> set crashes. crash_addr x \<noteq> addr"
    using bsearch_finds [OF crash_ready, of crashes addr] table_number [of crash_bytes start stop "length crashes"] assms
    by (auto simp: crash_table_def crash_find_def crash_table_search_def split: option.splits if_splits)
  have inj: "i = j" if "i < length crashes" "j < length crashes" "crash_addr (crashes ! i) = crash_addr (crashes ! j)" for i j
    using assms that nth_eq_iff_index_eq [of "map crash_addr crashes" i j] by (simp add: crash_table_def)
  show ?thesis
  proof (cases "crash_find start stop addr crashes")
    case None
    then show ?thesis using f nth_mem by fastforce
  next
    case (Some j)
    then have "j < length crashes" "crash_addr (crashes ! j) = addr" using f by simp_all
    then show ?thesis using Some inj by auto
  qed
qed

lemma crash_flag_word: "nr < 64 \<Longrightarrow> crash_flags_test nr e \<longleftrightarrow> bit (crash_flags e) nr"
  by (simp add: crash_flags_test_def arch_bit_test_def word_read_def BITS_WORD_def BIT_def
      BITS_PER_LONG_def bit_iff_and_push_bit_not_eq_0)

lemma set_done: "crash_test_set_done e = (crash_test_done e, e\<lparr>crash_flags := crash_flags e OR push_bit 3 1\<rparr>)"
  by (simp add: crash_test_set_done_def crash_flags_test_set_def arch_bit_test_set_def test_update_def
      word_read_def word_update_def BITS_WORD_def BIT_def BITS_PER_LONG_def crash_test_done_def crash_flag_word
      bit_iff_and_push_bit_not_eq_0)

definition crash_type_of :: "crash_entry \<Rightarrow> crash_type" where
  "crash_type_of e = (if crash_test_warning e then CRASH_TYPE_WARN else CRASH_TYPE_BUG)"

definition crash_lines :: "crash_entry \<Rightarrow> crash_print list" where
  "crash_lines e = (if crash_test_ncut_here e then [] else [CutHere]) @
     (case crash_info e of None \<Rightarrow> [] | Some info \<Rightarrow> [CrashInfo info]) @ [CrashAt (crash_file e) (crash_line e)]"

definition crash_after :: "crash_entry \<Rightarrow> crash_entry" where
  "crash_after e = (if crash_test_once e then e\<lparr>crash_flags := crash_flags e OR push_bit 3 1\<rparr> else e)"

lemma crash_after_same:
  "crash_addr (crash_after e) = crash_addr e" "crash_type_of (crash_after e) = crash_type_of e"
  "crash_test_once (crash_after e) = crash_test_once e" "crash_lines (crash_after e) = crash_lines e"
  "crash_test_done (crash_after e) \<longleftrightarrow> crash_test_once e \<or> crash_test_done e"
  by (simp_all add: crash_after_def crash_type_of_def crash_lines_def crash_test_once_def crash_test_warning_def
      crash_test_done_def crash_test_ncut_here_def crash_flag_word bit_simps)

lemma crash_report_at:
  assumes "crash_table start stop crashes" "i < length crashes" "crashes ! i = e"
  shows "crash_report start stop (crash_addr e) crashes =
    (crash_type_of e, if crash_test_once e \<and> crash_test_done e then [] else crash_lines e, crashes[i := crash_after e])"
proof -
  have f: "crash_find start stop (crash_addr e) crashes = Some i"
    using crash_find_iff [OF assms(1)] assms(2,3) by simp
  have n: "crash_test_ncut_here (e\<lparr>crash_flags := crash_flags e OR push_bit 3 1\<rparr>) = crash_test_ncut_here e"
    by (simp add: crash_test_ncut_here_def crash_flag_word bit_simps)
  show ?thesis unfolding crash_report_def f option.case assms(3)
    using assms(3) by (simp add: set_done crash_type_of_def crash_lines_def crash_after_def n [simplified])
qed

lemma crash_report_none:
  assumes "crash_table start stop crashes" "addr \<notin> crash_addr ` set crashes"
  shows "crash_report start stop addr crashes = (CRASH_TYPE_NONE, [], crashes)"
proof -
  have "crash_find start stop addr crashes = None"
  proof (cases "crash_find start stop addr crashes")
    case (Some i)
    then have "crashes ! i \<in> set crashes" "crash_addr (crashes ! i) = addr"
      using crash_find_iff [OF assms(1), of addr i] by simp_all
    then show ?thesis using assms(2) by (metis imageI)
  qed
  then show ?thesis by (simp add: crash_report_def)
qed

lemma crash_addrs_after: "map crash_addr (crashes[i := crash_after (crashes ! i)]) = map crash_addr crashes"
proof (cases "i < length crashes")
  case True
  then show ?thesis using list_update_id [of "map crash_addr crashes" i] by (simp add: map_update crash_after_same)
qed (simp add: list_update_beyond)

lemma crash_table_after:
  "crash_table start stop crashes \<Longrightarrow> crash_table start stop (crashes[i := crash_after (crashes ! i)])"
  using crash_addrs_after [of crashes i] crash_sorted_addrs unfolding crash_table_def by (metis length_list_update)

text \<open>What the reports of one address print.\<close>

definition printed_at :: "ulong \<Rightarrow> (ulong \<times> crash_type \<times> crash_print list) list \<Rightarrow> (crash_type \<times> crash_print list) list" where
  "printed_at addr outs = map snd (filter (\<lambda>out. fst out = addr) outs)"

lemma crash_session_at:
  assumes "crash_table start stop crashes" "i < length crashes" "crashes ! i = e"
  shows "printed_at (crash_addr e) (crash_session start stop addrs crashes) =
    (let n = count_list addrs (crash_addr e); silent = (crash_type_of e, []); loud = (crash_type_of e, crash_lines e) in
     if \<not> crash_test_once e then replicate n loud
     else if crash_test_done e \<or> n = 0 then replicate n silent
     else loud # replicate (n - 1) silent)"
  using assms
proof (induction addrs arbitrary: crashes e)
  case Nil
  show ?case by (simp add: printed_at_def Let_def)
next
  case (Cons addr addrs)
  have other: "addr \<noteq> crash_addr e" if "j < length crashes" "j \<noteq> i" "crash_addr (crashes ! j) = addr" for j
    using that Cons.prems nth_eq_iff_index_eq [of "map crash_addr crashes" i j] by (auto simp: crash_table_def)
  consider (here) "addr = crash_addr e" | (there) j where "j < length crashes" "crash_addr (crashes ! j) = addr" "addr \<noteq> crash_addr e"
    | (none) "addr \<notin> crash_addr ` set crashes" "addr \<noteq> crash_addr e"
    by (metis imageE in_set_conv_nth)
  then show ?case
  proof cases
    case here
    let ?cs = "crashes[i := crash_after e]"
    have t: "crash_table start stop ?cs" using crash_table_after [OF Cons.prems(1), of i] Cons.prems(3) by simp
    have IH: "printed_at (crash_addr e) (crash_session start stop addrs ?cs) =
      (let n = count_list addrs (crash_addr e); silent = (crash_type_of e, []); loud = (crash_type_of e, crash_lines e) in
       if \<not> crash_test_once e then replicate n loud else replicate n silent)"
      using Cons.IH [OF t, of "crash_after e"] Cons.prems(2) by (simp add: crash_after_same Let_def)
    then show ?thesis using here crash_report_at [OF Cons.prems] by (simp add: printed_at_def Let_def)
  next
    case there
    then have "j \<noteq> i" using Cons.prems(3) by auto
    moreover have "crash_table start stop (crashes[j := crash_after (crashes ! j)])" by (rule crash_table_after [OF Cons.prems(1)])
    ultimately have "printed_at (crash_addr e) (crash_session start stop addrs (crashes[j := crash_after (crashes ! j)])) =
      (let n = count_list addrs (crash_addr e); silent = (crash_type_of e, []); loud = (crash_type_of e, crash_lines e) in
       if \<not> crash_test_once e then replicate n loud
       else if crash_test_done e \<or> n = 0 then replicate n silent
       else loud # replicate (n - 1) silent)"
      using Cons.IH Cons.prems(2,3) by simp
    then show ?thesis using there crash_report_at [OF Cons.prems(1) there(1) refl] by (simp add: printed_at_def)
  next
    case none
    then show ?thesis using crash_report_none [OF Cons.prems(1)] Cons.IH [OF Cons.prems] by (simp add: printed_at_def)
  qed
qed

lemma crash_session_outside:
  "crash_table start stop crashes \<Longrightarrow> addr \<notin> set (map crash_addr crashes) \<Longrightarrow>
    printed_at addr (crash_session start stop addrs crashes) = replicate (count_list addrs addr) (CRASH_TYPE_NONE, [])"
proof (induction addrs arbitrary: crashes)
  case (Cons a addrs)
  show ?case
  proof (cases "a \<in> set (map crash_addr crashes)")
    case True
    then obtain j where j: "j < length crashes" "crash_addr (crashes ! j) = a" "a \<noteq> addr"
      using Cons.prems(2) by (metis in_set_conv_nth length_map nth_map)
    have "printed_at addr (crash_session start stop addrs (crashes[j := crash_after (crashes ! j)])) =
        replicate (count_list addrs addr) (CRASH_TYPE_NONE, [])"
      by (rule Cons.IH [OF crash_table_after [OF Cons.prems(1)]], unfold crash_addrs_after, rule Cons.prems(2))
    then show ?thesis using crash_report_at [OF Cons.prems(1) j(1) refl] j by (simp add: printed_at_def)
  next
    case False
    then have "crash_report start stop a crashes = (CRASH_TYPE_NONE, [], crashes)"
      using crash_report_none [OF Cons.prems(1)] by simp
    then show ?thesis using Cons.IH [OF Cons.prems] by (simp add: printed_at_def)
  qed
qed (simp add: printed_at_def)

text \<open>
  C32: after the table was sorted at boot, every report at an address of the table gives the type of the
  entry; an entry that reports once prints its lines at the first report and never again, in whatever order
  the addresses are reported.
\<close>

theorem crash_reports:
  assumes "table_at crash_bytes start stop (length tbl)" "distinct (map crash_addr tbl)"
  shows "\<exists>code crashes. crash_init start stop tbl = Some (code, crashes) \<and> mset crashes = mset tbl \<and>
    (\<forall>addrs. \<forall>e \<in> set tbl. \<not> crash_test_done e \<longrightarrow>
      printed_at (crash_addr e) (crash_session start stop addrs crashes) =
        (let n = count_list addrs (crash_addr e); loud = (crash_type_of e, crash_lines e) in
         if \<not> crash_test_once e then replicate n loud
         else take n (loud # replicate (n - 1) (crash_type_of e, [])))) \<and>
    (\<forall>addrs addr. addr \<notin> crash_addr ` set tbl \<longrightarrow>
      printed_at addr (crash_session start stop addrs crashes) = replicate (count_list addrs addr) (CRASH_TYPE_NONE, []))"
proof -
  obtain code ys where ys: "crash_init start stop tbl = Some (code, ys)" "mset ys = mset tbl" "sort_sorted crash_table_sort ys"
    using qsort_table [OF crs.sort_order_axioms assms(1)] unfolding crash_init_def by blast
  have s: "set ys = set tbl" using ys(2) by (rule mset_eq_setD)
  have d: "distinct (map crash_addr ys)"
    using assms(2) ys(2) by (metis mset_eq_imp_distinct_iff mset_map)
  have t: "crash_table start stop ys"
    using assms(1) ys(3) d mset_eq_length [OF ys(2)] by (simp add: crash_table_def)
  have in_table: "printed_at (crash_addr e) (crash_session start stop addrs ys) =
      (let n = count_list addrs (crash_addr e); loud = (crash_type_of e, crash_lines e) in
       if \<not> crash_test_once e then replicate n loud
       else take n (loud # replicate (n - 1) (crash_type_of e, [])))"
    if e: "e \<in> set tbl" "\<not> crash_test_done e" for addrs e
  proof -
    obtain i where "i < length ys" "ys ! i = e" using e(1) s by (metis in_set_conv_nth)
    then show ?thesis using crash_session_at [OF t, of i e addrs] e(2)
      by (cases "count_list addrs (crash_addr e)") (simp_all add: Let_def)
  qed
  have sa: "set (map crash_addr ys) = crash_addr ` set tbl" using s by simp
  show ?thesis
    by (rule exI [of _ code], rule exI [of _ ys]) (use ys in_table crash_session_outside [OF t] sa in blast)
qed

theorem crash_reports_witness:
  "\<exists>code crashes.
    crash_init 0x1000 0x1050
      [\<lparr>crash_addr = 20, crash_info = None, crash_file = ''sched.c'', crash_flags = 6, crash_line = 7\<rparr>,
       \<lparr>crash_addr = 10, crash_info = None, crash_file = ''slob.c'', crash_flags = 0, crash_line = 9\<rparr>] = Some (code, crashes) \<and>
    printed_at 20 (crash_session 0x1000 0x1050 [20, 10, 5, 20] crashes) =
      [(CRASH_TYPE_WARN, [CutHere, CrashAt ''sched.c'' 7]), (CRASH_TYPE_WARN, [])] \<and>
    printed_at 5 (crash_session 0x1000 0x1050 [20, 10, 5, 20] crashes) = [(CRASH_TYPE_NONE, [])]"
proof -
  let ?e = "\<lparr>crash_addr = 20, crash_info = None, crash_file = ''sched.c'', crash_flags = 6, crash_line = 7\<rparr>"
  let ?t = "[?e, \<lparr>crash_addr = 10, crash_info = None, crash_file = ''slob.c'', crash_flags = 0, crash_line = 9\<rparr>]"
  have t: "table_at crash_bytes 0x1000 0x1050 (length ?t)" "distinct (map crash_addr ?t)"
    by (simp_all add: table_at_def array_fits_def crash_bytes_def)
  have e: "\<not> crash_test_done ?e" "crash_test_once ?e" "crash_type_of ?e = CRASH_TYPE_WARN"
    "crash_lines ?e = [CutHere, CrashAt ''sched.c'' 7]" by code_simp+
  obtain code crashes where c: "crash_init 0x1000 0x1050 ?t = Some (code, crashes)"
    "\<forall>addrs. \<forall>e \<in> set ?t. \<not> crash_test_done e \<longrightarrow>
      printed_at (crash_addr e) (crash_session 0x1000 0x1050 addrs crashes) =
        (let n = count_list addrs (crash_addr e); loud = (crash_type_of e, crash_lines e) in
         if \<not> crash_test_once e then replicate n loud
         else take n (loud # replicate (n - 1) (crash_type_of e, [])))"
    "\<forall>addrs addr. addr \<notin> crash_addr ` set ?t \<longrightarrow>
      printed_at addr (crash_session 0x1000 0x1050 addrs crashes) = replicate (count_list addrs addr) (CRASH_TYPE_NONE, [])"
    using crash_reports [OF t] by blast
  have "printed_at (crash_addr ?e) (crash_session 0x1000 0x1050 [20, 10, 5, 20] crashes) =
      [(CRASH_TYPE_WARN, [CutHere, CrashAt ''sched.c'' 7]), (CRASH_TYPE_WARN, [])]"
    using c(2) [rule_format, of ?e "[20, 10, 5, 20]"] e by (simp add: Let_def)
  moreover have "printed_at 5 (crash_session 0x1000 0x1050 [20, 10, 5, 20] crashes) = [(CRASH_TYPE_NONE, [])]"
    using c(3) [rule_format, of 5 "[20, 10, 5, 20]"] by simp
  ultimately show ?thesis using c(1) by auto
qed

end
