(* ===== verification/Errname.thy ===== *)
theory Errname
  imports Sort_Loops
begin

text \<open>
  The names of the error codes (\<^verbatim>\<open>lib/errname.c\<close>): the table in the order of the codes of
  \<^verbatim>\<open>include/lightcore/errno.h\<close> and \<^verbatim>\<open>include/state.h\<close>, searched by halves.
\<close>

section \<open>The names of the error codes\<close>

record errname_entry =
  errnum :: u32
  err_name :: "string option"
  err_info :: "string option"

definition ERRNAME :: "u32 \<Rightarrow> string \<Rightarrow> string \<Rightarrow> errname_entry" where
  "ERRNAME nr name info = \<lparr>errnum = nr, err_name = Some name, err_info = Some info\<rparr>"

text \<open>The last entry, of zeros, ends the table.\<close>

definition errname_table :: "errname_entry list" where
  "errname_table =
    [ERRNAME 0 ''ENOERR'' ''No error'',
     ERRNAME 1 ''EPERM'' ''Operation not permitted'',
     ERRNAME 2 ''ENOENT'' ''No such file or directory'',
     ERRNAME 3 ''ESRCH'' ''No such process'',
     ERRNAME 4 ''EINTR'' ''Interrupted system call'',
     ERRNAME 5 ''EIO'' ''I/O error'',
     ERRNAME 6 ''ENXIO'' ''No such device or address'',
     ERRNAME 7 ''E2BIG'' ''Argument list too long'',
     ERRNAME 8 ''ENOEXEC'' ''Exec format error'',
     ERRNAME 9 ''EBADF'' ''Bad file number'',
     ERRNAME 10 ''ECHILD'' ''No child processes'',
     ERRNAME 11 ''EAGAIN'' ''Try again'',
     ERRNAME 12 ''ENOMEM'' ''Out of memory'',
     ERRNAME 13 ''EACCES'' ''Permission denied'',
     ERRNAME 14 ''EFAULT'' ''Bad address'',
     ERRNAME 15 ''ENOTBLK'' ''Block device required'',
     ERRNAME 16 ''EBUSY'' ''Device or resource busy'',
     ERRNAME 17 ''EEXIST'' ''File exists'',
     ERRNAME 18 ''EXDEV'' ''Cross-device link'',
     ERRNAME 19 ''ENODEV'' ''No such device'',
     ERRNAME 20 ''ENOTDIR'' ''Not a directory'',
     ERRNAME 21 ''EISDIR'' ''Is a directory'',
     ERRNAME 22 ''EINVAL'' ''Invalid argument'',
     ERRNAME 23 ''ENFILE'' ''File table overflow'',
     ERRNAME 24 ''EMFILE'' ''Too many open files'',
     ERRNAME 25 ''ENOTTY'' ''Not a typewriter'',
     ERRNAME 26 ''ETXTBSY'' ''Text file busy'',
     ERRNAME 27 ''EFBIG'' ''File too large'',
     ERRNAME 28 ''ENOSPC'' ''No space left on device'',
     ERRNAME 29 ''ESPIPE'' ''Illegal seek'',
     ERRNAME 30 ''EROFS'' ''Read-only file system'',
     ERRNAME 31 ''EMLINK'' ''Too many links'',
     ERRNAME 32 ''EPIPE'' ''Broken pipe'',
     ERRNAME 33 ''EDOM'' ''Math argument out of domain of func'',
     ERRNAME 34 ''ERANGE'' ''Math result not representable'',
     ERRNAME 35 ''EDEADLK'' ''Resource deadlock would occur'',
     ERRNAME 36 ''ENAMETOOLONG'' ''File name too long'',
     ERRNAME 37 ''ENOLCK'' ''No record locks available'',
     ERRNAME 38 ''ENOSYS'' ''Invalid system call number'',
     ERRNAME 59 ''EBFONT'' ''Bad font file format'',
     ERRNAME 60 ''ENOSTR'' ''Device not a stream'',
     ERRNAME 61 ''ENODATA'' ''No data available'',
     ERRNAME 62 ''ETIME'' ''Timer expired'',
     ERRNAME 63 ''ENOSR'' ''Out of streams resources'',
     ERRNAME 64 ''ENONET'' ''Machine is not on the network'',
     ERRNAME 65 ''ENOPKG'' ''Package not installed'',
     ERRNAME 66 ''EREMOTE'' ''Object is remote'',
     ERRNAME 67 ''ENOLINK'' ''Link has been severed'',
     ERRNAME 68 ''EADV'' ''Advertise error'',
     ERRNAME 69 ''ESRMNT'' ''Srmount error'',
     ERRNAME 70 ''ECOMM'' ''Communication error on send'',
     ERRNAME 71 ''EPROTO'' ''Protocol error'',
     ERRNAME 72 ''EMULTIHOP'' ''Multihop attempted'',
     ERRNAME 73 ''EDOTDOT'' ''RFS specific error'',
     ERRNAME 74 ''EBADMSG'' ''Not a data message'',
     ERRNAME 75 ''EOVERFLOW'' ''Value too large for defined data type'',
     ERRNAME 76 ''ENOTUNIQ'' ''Name not unique on network'',
     ERRNAME 77 ''EBADFD'' ''File descriptor in bad state'',
     ERRNAME 78 ''EREMCHG'' ''Remote address changed'',
     ERRNAME 79 ''ELIBACC'' ''Can not access a needed shared library'',
     ERRNAME 80 ''ELIBBAD'' ''Accessing a corrupted shared library'',
     ERRNAME 81 ''ELIBSCN'' ''.lib section in a.out corrupted'',
     ERRNAME 82 ''ELIBMAX'' ''Attempting to link in too many shared libraries'',
     ERRNAME 83 ''ELIBEXEC'' ''Cannot exec a shared library directly'',
     ERRNAME 84 ''EILSEQ'' ''Illegal byte sequence'',
     ERRNAME 85 ''ERESTART'' ''Interrupted system call should be restarted'',
     ERRNAME 86 ''ESTRPIPE'' ''Streams pipe error'',
     ERRNAME 87 ''EUSERS'' ''Too many users'',
     ERRNAME 88 ''ENOTSOCK'' ''Socket operation on non-socket'',
     ERRNAME 89 ''EDESTADDRREQ'' ''Destination address required'',
     ERRNAME 90 ''EMSGSIZE'' ''Message too long'',
     ERRNAME 91 ''EPROTOTYPE'' ''Protocol wrong type for socket'',
     ERRNAME 92 ''ENOPROTOOPT'' ''Protocol not available'',
     ERRNAME 93 ''EPROTONOSUPPORT'' ''Protocol not supported'',
     ERRNAME 94 ''ESOCKTNOSUPPORT'' ''Socket type not supported'',
     ERRNAME 95 ''EOPNOTSUPP'' ''Operation not supported on transport endpoint'',
     ERRNAME 96 ''EPFNOSUPPORT'' ''Protocol family not supported'',
     ERRNAME 97 ''EAFNOSUPPORT'' ''Address family not supported by protocol'',
     ERRNAME 98 ''EADDRINUSE'' ''Address already in use'',
     ERRNAME 99 ''EADDRNOTAVAIL'' ''Cannot assign requested address'',
     ERRNAME 100 ''ENETDOWN'' ''Network is down'',
     ERRNAME 101 ''ENETUNREACH'' ''Network is unreachable'',
     ERRNAME 102 ''ENETRESET'' ''Network dropped connection because of reset'',
     ERRNAME 103 ''ECONNABORTED'' ''Software caused connection abort'',
     ERRNAME 104 ''ECONNRESET'' ''Connection reset by peer'',
     ERRNAME 105 ''ENOBUFS'' ''No buffer space available'',
     ERRNAME 106 ''EISCONN'' ''Transport endpoint is already connected'',
     ERRNAME 107 ''ENOTCONN'' ''Transport endpoint is not connected'',
     ERRNAME 108 ''ESHUTDOWN'' ''Cannot send after transport endpoint shutdown'',
     ERRNAME 109 ''ETOOMANYREFS'' ''Too many references: cannot splice'',
     ERRNAME 110 ''ETIMEDOUT'' ''Connection timed out'',
     ERRNAME 111 ''ECONNREFUSED'' ''Connection refused'',
     ERRNAME 112 ''EHOSTDOWN'' ''Host is down'',
     ERRNAME 113 ''EHOSTUNREACH'' ''No route to host'',
     ERRNAME 114 ''EALREADY'' ''Operation already in progress'',
     ERRNAME 115 ''EINPROGRESS'' ''Operation now in progress'',
     ERRNAME 116 ''ESTALE'' ''Stale file handle'',
     ERRNAME 117 ''EUCLEAN'' ''Structure needs cleaning'',
     ERRNAME 118 ''ENOTNAM'' ''Not a XENIX named type file'',
     ERRNAME 119 ''ENAVAIL'' ''No XENIX semaphores available'',
     ERRNAME 120 ''EISNAM'' ''Is a named type file'',
     ERRNAME 121 ''EREMOTEIO'' ''Remote I/O error'',
     ERRNAME 122 ''EDQUOT'' ''Quota exceeded'',
     ERRNAME 123 ''ENOMEDIUM'' ''No medium found'',
     ERRNAME 124 ''EMEDIUMTYPE'' ''Wrong medium type'',
     ERRNAME 125 ''ECANCELED'' ''Operation Canceled'',
     ERRNAME 126 ''ENOKEY'' ''Required key not available'',
     ERRNAME 127 ''EKEYEXPIRED'' ''Key has expired'',
     ERRNAME 128 ''EKEYREVOKED'' ''Key has been revoked'',
     ERRNAME 129 ''EKEYREJECTED'' ''Key was rejected by service'',
     ERRNAME 512 ''ERESTARTSYS'' ''restart if system call..'',
     ERRNAME 513 ''ERESTARTNOINTR'' ''restart if no interrupt..'',
     ERRNAME 514 ''ERESTARTNOHAND'' ''restart if no handler..'',
     ERRNAME 515 ''ENOIOCTLCMD'' ''No ioctl command'',
     ERRNAME 516 ''ERESTART_RESTARTBLOCK'' ''restart by calling sys_restart_syscall'',
     ERRNAME 517 ''EPROBE_DEFER'' ''Driver requests probe retry'',
     ERRNAME 518 ''EOPENSTALE'' ''open found a stale dentry'',
     ERRNAME 519 ''ENOPARAM'' ''Parameter not supported'',
     ERRNAME 521 ''EBADHANDLE'' ''Illegal NFS file handle'',
     ERRNAME 522 ''ENOTSYNC'' ''Update synchronization mismatch'',
     ERRNAME 523 ''EBADCOOKIE'' ''Cookie is stale'',
     ERRNAME 524 ''ENOTSUPP'' ''Operation is not supported'',
     ERRNAME 525 ''ETOOSMALL'' ''Buffer or request is too small'',
     ERRNAME 526 ''ESERVERFAULT'' ''An untranslatable error occurred'',
     ERRNAME 527 ''EBADTYPE'' ''Type not supported by server'',
     ERRNAME 528 ''EJUKEBOX'' ''Request initiated, but will not complete before timeout'',
     ERRNAME 529 ''EIOCBQUEUED'' ''iocb queued, will get completion event'',
     ERRNAME 530 ''ERECALLCONFLICT'' ''conflict with recalled state'',
     ERRNAME 531 ''ENOGRACE'' ''NFS file lock reclaim refused'',
     \<lparr>errnum = 0, err_name = None, err_info = None\<rparr>]"

definition errname_search :: "u32 \<Rightarrow> errname_entry \<Rightarrow> int" where
  "errname_search err entry = sint (errnum entry - err)"

definition errname_find :: "u32 \<Rightarrow> errname_entry option" where
  "errname_find error =
     (if sint error > 0 then None
      else map_option ((!) errname_table) (bsearch (errname_search (- error)) errname_table (length errname_table - 1)))"

text \<open>The name, and the information that is stored through \<open>infop\<close>.\<close>

definition errname :: "u32 \<Rightarrow> bool \<Rightarrow> string option \<times> string option" where
  "errname error infop =
     (case errname_find error of None \<Rightarrow> (None, None)
      | Some entry \<Rightarrow> (err_name entry, if infop then err_info entry else None))"

lemma errname_codes:
  "map errnum (butlast errname_table) = map of_nat ([0 ..< 39] @ [59 ..< 130] @ [512 ..< 520] @ [521 ..< 532])"
proof -
  have "map errnum (butlast errname_table) = [0, 1, 2, 3, 4, 5, 6, 7, 8, 9, 10, 11, 12, 13, 14, 15, 16, 17, 18, 19, 20, 21, 22, 23, 24, 25, 26, 27, 28, 29, 30, 31, 32, 33, 34, 35, 36, 37, 38, 59, 60, 61, 62, 63, 64, 65, 66, 67, 68, 69, 70, 71, 72, 73, 74, 75, 76, 77, 78, 79, 80, 81, 82, 83, 84, 85, 86, 87, 88, 89, 90, 91, 92, 93, 94, 95, 96, 97, 98, 99, 100, 101, 102, 103, 104, 105, 106, 107, 108, 109, 110, 111, 112, 113, 114, 115, 116, 117, 118, 119, 120, 121, 122, 123, 124, 125, 126, 127, 128, 129, 512, 513, 514, 515, 516, 517, 518, 519, 521, 522, 523, 524, 525, 526, 527, 528, 529, 530, 531]"
    by (simp only: errname_table_def ERRNAME_def butlast.simps list.simps if_False if_True errname_entry.simps simp_thms)
  then show ?thesis by (simp add: upt_conv_Cons)
qed

lemma errname_unat: "map (unat \<circ> errnum) (butlast errname_table) = [0 ..< 39] @ [59 ..< 130] @ [512 ..< 520] @ [521 ..< 532]"
proof -
  have "map unat (map (of_nat :: nat \<Rightarrow> u32) ns) = ns" if "\<forall>n \<in> set ns. n < 2 ^ 32" for ns
    using that by (induction ns) (simp_all add: unat_of_nat take_bit_nat_eq_self)
  then have "map unat (map errnum (butlast errname_table)) = [0 ..< 39] @ [59 ..< 130] @ [512 ..< 520] @ [521 ..< 532]"
    unfolding errname_codes by auto
  then show ?thesis by simp
qed

lemma bsearch_loop_take:
  "base + num \<le> n \<Longrightarrow> n \<le> length xs \<Longrightarrow> bsearch_loop cmp xs base num = bsearch_loop cmp (take n xs) base num"
proof (induction num arbitrary: base rule: less_induct)
  case (less num)
  show ?case
  proof (cases "num = 0")
    case False
    have "base + num div 2 + 1 + (num - 1) div 2 = base + num" using False by presburger
    then have "bsearch_loop cmp xs (base + num div 2 + 1) ((num - 1) div 2) = bsearch_loop cmp (take n xs) (base + num div 2 + 1) ((num - 1) div 2)"
      using less.prems False by (intro less.IH) auto
    moreover have "bsearch_loop cmp xs base (num div 2) = bsearch_loop cmp (take n xs) base (num div 2)"
      using less.prems False by (intro less.IH) auto
    moreover have "take n xs ! (base + num div 2) = xs ! (base + num div 2)" using less.prems False by (intro nth_take) linarith
    ultimately show ?thesis by (subst (1 2) bsearch_loop.simps) (simp add: Let_def)
  qed (subst (1 2) bsearch_loop.simps, simp)
qed

lemma errname_bound: "e \<in> set (butlast errname_table) \<Longrightarrow> unat (errnum e) < 2 ^ 31"
proof -
  assume "e \<in> set (butlast errname_table)"
  then have "(unat \<circ> errnum) e \<in> set (map (unat \<circ> errnum) (butlast errname_table))" unfolding set_map by (rule imageI)
  then show ?thesis unfolding errname_unat by auto
qed

lemma small_uint: "unat (w :: u32) < 2 ^ 31 \<Longrightarrow> uint w < 2147483648"
  using of_nat_less_iff [of "unat w" "2 ^ 31", where 'a = int] by simp

lemma small_sint: "uint (w :: u32) < 2147483648 \<Longrightarrow> sint w = uint w"
proof -
  assume "uint w < 2147483648"
  moreover have "- 2147483648 \<le> uint w" using uint_ge_0 [of w] by linarith
  ultimately show ?thesis unfolding sint_uint by (intro signed_take_bit_int_eq_self) simp_all
qed

text \<open>The difference of codes that are not negative does not wrap.\<close>

lemma errname_search_sign:
  assumes "unat err < 2 ^ 31" "e \<in> set (butlast errname_table)"
  shows "errname_search err e = uint (errnum e) - uint err"
proof -
  note u = small_uint [OF errname_bound [OF assms(2)]] small_uint [OF assms(1)]
  have p: "- 2147483648 \<le> uint (errnum e) - uint err" "uint (errnum e) - uint err < 2147483648"
    using u uint_ge_0 [of "errnum e"] uint_ge_0 [of err] by linarith+
  have "sint (errnum e - err) = signed_take_bit 31 (uint (errnum e) - uint err)"
    by (simp only: sint_word_ariths small_sint [OF u(1)] small_sint [OF u(2)]) simp
  also have "\<dots> = uint (errnum e) - uint err"
    using p by (intro signed_take_bit_int_eq_self) simp_all
  finally show ?thesis by (simp add: errname_search_def)
qed

lemma errname_ready: "unat err < 2 ^ 31 \<Longrightarrow> bsearch_ready (errname_search err) (butlast errname_table)"
proof -
  assume err: "unat err < 2 ^ 31"
  have "sorted_wrt (<) (map (unat \<circ> errnum) (butlast errname_table))"
    unfolding errname_unat sorted_wrt_append set_append set_upt by (simp only: sorted_wrt_upt) auto
  then have "sorted_wrt (\<lambda>x y. unat (errnum x) < unat (errnum y)) (butlast errname_table)"
    by (simp add: sorted_wrt_map)
  then show ?thesis unfolding bsearch_ready_def
    by (rule sorted_wrt_mono_rel [rotated]) (simp add: errname_search_sign [OF err] word_less_nat_alt [symmetric] word_less_alt)
qed

lemma errname_find_iff:
  assumes "unat err < 2 ^ 31"
  shows "map_option ((!) errname_table) (bsearch (errname_search err) errname_table (length errname_table - 1)) =
    map_of (map (\<lambda>e. (errnum e, e)) (butlast errname_table)) err"
proof -
  let ?t = "butlast errname_table"
  let ?f = "bsearch (errname_search err) ?t (length ?t)"
  have b: "bsearch (errname_search err) errname_table (length errname_table - 1) = ?f"
    using bsearch_loop_take [of 0 "length errname_table - 1" "length errname_table - 1" errname_table "errname_search err"]
    by (simp add: bsearch_def butlast_conv_take)
  have f: "case ?f of Some i \<Rightarrow> i < length ?t \<and> errname_search err (?t ! i) = 0 | None \<Rightarrow> \<forall>e \<in> set ?t. errname_search err e \<noteq> 0"
    by (rule bsearch_finds [OF errname_ready [OF assms]])
  have z: "errname_search err e = 0 \<longleftrightarrow> errnum e = err" if "e \<in> set ?t" for e
    using errname_search_sign [OF assms that] by (simp add: word_uint_eq_iff)
  have "distinct (map (unat \<circ> errnum) ?t)" unfolding errname_unat by simp
  then have d: "distinct (map errnum ?t)" by (metis distinct_map map_map)
  show ?thesis
  proof (cases ?f)
    case None
    then have "err \<notin> errnum ` set ?t" using f z by auto
    then have "map_of (map (\<lambda>e. (errnum e, e)) ?t) err = None" by (simp add: map_of_eq_None_iff image_image)
    then show ?thesis unfolding b None by simp
  next
    case (Some i)
    then have i: "i < length ?t" "errnum (?t ! i) = err" using f z nth_mem by auto
    then have "map_of (map (\<lambda>e. (errnum e, e)) ?t) err = Some (?t ! i)"
      using d nth_mem by (intro map_of_is_SomeI) (auto simp: comp_def)
    then show ?thesis unfolding b Some using i(1) by (simp add: nth_butlast)
  qed
qed

lemma neg_mod: "2147483648 < u \<Longrightarrow> u < 4294967296 \<Longrightarrow> (- u) mod 4294967296 < (2147483648 :: int)"
  by (simp add: zmod_zminus1_eq_if)

text \<open>
  for every code but the least of the 32-bit range, the lookup gives the name and the information of the entry
  with that code, negated, when there is one, and nothing for positive codes and codes that have no entry.
\<close>

theorem errname_names:
  assumes "error \<noteq> 0x80000000"
  shows "errname error infop =
    (if sint error > 0 then (None, None)
     else case map_of (map (\<lambda>e. (errnum e, e)) (butlast errname_table)) (- error) of None \<Rightarrow> (None, None)
       | Some e \<Rightarrow> (err_name e, if infop then err_info e else None))"
proof (cases "sint error > 0")
  case False
  have "unat (- error) < 2 ^ 31"
  proof -
    have "uint (- error) < 2147483648"
    proof (cases "uint error < 2147483648")
      case big: False
      moreover have "uint error \<noteq> 2147483648" using assms by (simp add: word_uint_eq_iff)
      ultimately have "2147483648 < uint error" by linarith
      moreover have "uint error < 4294967296" using uint_lt2p [of error] by simp
      moreover have "uint (- error) = (- uint error) mod 4294967296" by (simp add: uint_word_ariths)
      ultimately show ?thesis using neg_mod by simp
    next
      case True
      then have "uint error \<le> 0" using small_sint [OF True] False by linarith
      then have "error = 0" by (metis antisym uint_ge_0 uint_0_iff)
      then show ?thesis by simp
    qed
    then show ?thesis using nat_less_iff [of "uint (- error)" "2 ^ 31"] by simp
  qed
  then show ?thesis using False errname_find_iff by (simp add: errname_def errname_find_def)
qed (simp add: errname_def errname_find_def)


theorem errname_names_witness: "errname (- 22) True = (Some ''EINVAL'', Some ''Invalid argument'')"
proof -
  have "(- 22 :: u32) \<noteq> 0x80000000" by simp
  note e = this [THEN errname_names, of True]
  show ?thesis unfolding e by code_simp
qed

end
