(* ===== verification/Glob.thy ===== *)
theory Glob
  imports "HOL-Library.Word"
begin

text \<open>
  Matching of a string with a wildcard pattern, \<^verbatim>\<open>lib/glob.c\<close>. Both are arrays of characters that end with a zero;
  reading behind an array is a fault. The order of the characters is signed or unsigned, as the compiler
  chooses for \<open>char\<close>: it is an argument.
\<close>

section \<open>The code\<close>

abbreviation (input) chr_any :: "8 word" where "chr_any \<equiv> 0x3F"
abbreviation (input) chr_star :: "8 word" where "chr_star \<equiv> 0x2A"
abbreviation (input) chr_open :: "8 word" where "chr_open \<equiv> 0x5B"
abbreviation (input) chr_close :: "8 word" where "chr_close \<equiv> 0x5D"
abbreviation (input) chr_not :: "8 word" where "chr_not \<equiv> 0x21"
abbreviation (input) chr_dash :: "8 word" where "chr_dash \<equiv> 0x2D"
abbreviation (input) chr_escape :: "8 word" where "chr_escape \<equiv> 0x5C"

type_synonym chars = "8 word list"
type_synonym char_order = "8 word \<Rightarrow> 8 word \<Rightarrow> bool"

datatype class_end = Literal | Class bool chars

text \<open>The loop over the members of a class, with the current member \<open>tcha\<close>.\<close>

definition class_range :: "8 word \<Rightarrow> chars \<Rightarrow> (8 word \<times> chars) option" where
  "class_range tcha class =
     (case class of [] \<Rightarrow> None
      | c # rest \<Rightarrow>
          if c = chr_dash then
            (case rest of [] \<Rightarrow> None
             | d # rest' \<Rightarrow> Some (if d \<noteq> chr_close then (d, rest') else (tcha, class)))
          else Some (tcha, class))"

lemma class_range_shorter: "class_range tcha class = Some (tchb, rest) \<Longrightarrow> length rest \<le> length class"
  by (auto simp: class_range_def split: list.splits if_splits)

function class_walk :: "char_order \<Rightarrow> bool \<Rightarrow> 8 word \<Rightarrow> 8 word \<Rightarrow> chars \<Rightarrow> class_end option" where
  "class_walk le match tcha stch class =
     (if tcha = 0 then Some Literal
      else case class_range tcha class of None \<Rightarrow> None
      | Some (tchb, rest) \<Rightarrow>
          if tchb = 0 then Some Literal
          else
            let match = (match \<or> le tcha stch \<and> le stch tchb) in
            (case rest of [] \<Rightarrow> None
             | c # rest' \<Rightarrow> if c = chr_close then Some (Class match rest') else class_walk le match c stch rest'))"
  by auto
termination
  by (relation "measure (\<lambda>(le, match, tcha, stch, class). length class)") (auto dest: class_range_shorter)

declare class_walk.simps [simp del]

type_synonym glob_state = "chars \<times> chars \<times> (chars \<times> chars) option"

datatype glob_result = Return bool | Fault | Continue glob_state

definition glob_backtrack :: "8 word \<Rightarrow> (chars \<times> chars) option \<Rightarrow> glob_result" where
  "glob_backtrack stch back =
     (if stch = 0 then Return False
      else case back of None \<Rightarrow> Return False
      | Some (bglob, bstring) \<Rightarrow>
          (case bstring of [] \<Rightarrow> Fault | _ # bstring \<Rightarrow> Continue (bglob, bstring, Some (bglob, bstring))))"

definition glob_literal :: "8 word \<Rightarrow> 8 word \<Rightarrow> chars \<Rightarrow> chars \<Rightarrow> (chars \<times> chars) option \<Rightarrow> glob_result" where
  "glob_literal glch stch glob string back =
     (if glch = stch then if glch = 0 then Return True else Continue (glob, string, back)
      else glob_backtrack stch back)"

definition glob_class :: "char_order \<Rightarrow> 8 word \<Rightarrow> chars \<Rightarrow> chars \<Rightarrow> (chars \<times> chars) option \<Rightarrow> glob_result" where
  "glob_class le stch glob string back =
     (case glob of [] \<Rightarrow> Fault
      | c # rest \<Rightarrow>
          let inverted = (c = chr_not) in
          (case (if inverted then rest else glob) of [] \<Rightarrow> Fault
           | tcha # class \<Rightarrow>
               (case class_walk le False tcha stch class of None \<Rightarrow> Fault
                | Some Literal \<Rightarrow> glob_literal chr_open stch glob string back
                | Some (Class match class) \<Rightarrow>
                    if match = inverted then glob_backtrack stch back else Continue (class, string, back))))"

definition glob_step :: "char_order \<Rightarrow> glob_state \<Rightarrow> glob_result" where
  "glob_step le s =
     (case s of (globs, strings, back) \<Rightarrow>
       (case globs of [] \<Rightarrow> Fault
        | glch # glob \<Rightarrow>
            (case strings of [] \<Rightarrow> Fault
             | stch # string \<Rightarrow>
                 if glch = chr_any then if stch = 0 then Return False else Continue (glob, string, back)
                 else if glch = chr_star then
                   (case glob of [] \<Rightarrow> Fault
                    | c # _ \<Rightarrow> if c = 0 then Return True else Continue (glob, strings, Some (glob, strings)))
                 else if glch = chr_open then glob_class le stch glob string back
                 else if glch = chr_escape then
                   (case glob of [] \<Rightarrow> Fault | glch # glob \<Rightarrow> glob_literal glch stch glob string back)
                 else glob_literal glch stch glob string back)))"

definition glob_measure :: "(glob_state \<times> glob_state) set" where
  "glob_measure = measures
     [\<lambda>(glob, string, back). case back of None \<Rightarrow> length glob | Some (bglob, _) \<Rightarrow> max (length glob) (length bglob),
      \<lambda>(glob, string, back). case back of None \<Rightarrow> 0 | Some (_, bstring) \<Rightarrow> length bstring,
      \<lambda>(glob, string, back). length glob]"

lemma class_walk_shorter: "class_walk le match tcha stch class = Some (Class m rest) \<Longrightarrow> length rest < length class"
proof (induction "class" arbitrary: match tcha rule: length_induct)
  case (1 cs)
  from 1(2) show ?case
    by (auto simp: class_walk.simps [of le match tcha stch cs] Let_def split: if_splits option.splits list.splits
        dest!: class_range_shorter 1(1) [rule_format, rotated])
qed

lemma glob_step_measure: "glob_step le s = Continue s' \<Longrightarrow> (s', s) \<in> glob_measure"
  by (auto simp: glob_step_def glob_class_def glob_literal_def glob_backtrack_def glob_measure_def Let_def
      dest!: class_walk_shorter split: if_splits list.splits option.splits class_end.splits prod.splits)

function glob_loop :: "char_order \<Rightarrow> glob_state \<Rightarrow> bool option" where
  "glob_loop le s =
     (case glob_step le s of Return b \<Rightarrow> Some b | Fault \<Rightarrow> None | Continue s' \<Rightarrow> glob_loop le s')"
  by auto
termination
proof (relation "inv_image glob_measure snd")
  show "wf (inv_image glob_measure snd)" by (simp add: glob_measure_def)
qed (simp add: glob_step_measure)

declare glob_loop.simps [simp del]

definition glob_match :: "char_order \<Rightarrow> chars \<Rightarrow> chars \<Rightarrow> bool option" where
  "glob_match le glob string = glob_loop le (glob, string, None)"

section \<open>What a pattern means\<close>

text \<open>
  A pattern is a list of tokens: a star, or a set of characters that takes one. A class that is not closed is
  the bracket itself; an escape at the end of the pattern stands for the end.
\<close>

datatype token = Star | One "8 word \<Rightarrow> bool"

text \<open>The ranges of a class whose current member is \<open>c\<close>, and the pattern behind the class.\<close>

function class_ranges :: "8 word \<Rightarrow> chars \<Rightarrow> ((8 word \<times> 8 word) list \<times> chars) option" where
  "class_ranges c class =
     (case class of [] \<Rightarrow> None
      | d # p \<Rightarrow>
          if d = chr_close then Some ([(c, c)], p)
          else if d \<noteq> chr_dash then map_option (\<lambda>(rs, p). ((c, c) # rs, p)) (class_ranges d p)
          else
            (case p of [] \<Rightarrow> None
             | e # p' \<Rightarrow>
                 if e = chr_close then Some ([(c, c), (chr_dash, chr_dash)], p')
                 else
                   (case p' of [] \<Rightarrow> None
                    | f # p'' \<Rightarrow> if f = chr_close then Some ([(c, e)], p'')
                        else map_option (\<lambda>(rs, p). ((c, e) # rs, p)) (class_ranges f p''))))"
  by auto
termination by (relation "measure (\<lambda>(c, class). length class)") auto

declare class_ranges.simps [simp del]

lemma class_ranges_shorter: "class_ranges c p = Some (rs, q) \<Longrightarrow> length q < length p"
proof (induction p arbitrary: c rs rule: length_induct)
  case (1 p)
  from 1(2) show ?case
    by (auto simp: class_ranges.simps [of c p] split: if_splits list.splits dest!: 1(1) [rule_format, rotated])
qed

definition class_token :: "char_order \<Rightarrow> chars \<Rightarrow> (token \<times> chars) option" where
  "class_token le p =
     (let inverted = (p \<noteq> [] \<and> hd p = chr_not) in
      case (if inverted then tl p else p) of [] \<Rightarrow> None
      | c # class \<Rightarrow>
          map_option (\<lambda>(rs, q). (One (\<lambda>ch. (\<exists>(a, b) \<in> set rs. le a ch \<and> le ch b) \<noteq> inverted), q)) (class_ranges c class))"

lemma class_token_shorter: "class_token le p = Some (t, q) \<Longrightarrow> length q < length p"
  by (cases p) (auto simp: class_token_def Let_def split: if_splits list.splits dest!: class_ranges_shorter)

function tokens :: "char_order \<Rightarrow> chars \<Rightarrow> token list" where
  "tokens le [] = []"
| "tokens le (c # p) =
     (if c = chr_any then One (\<lambda>ch. ch \<noteq> 0) # tokens le p
      else if c = chr_star then Star # tokens le p
      else if c = chr_open then
        (case class_token le p of Some (t, q) \<Rightarrow> t # tokens le q | None \<Rightarrow> One (\<lambda>ch. ch = c) # tokens le p)
      else if c = chr_escape then
        (case p of [] \<Rightarrow> [] | d # q \<Rightarrow> One (\<lambda>ch. ch = d) # tokens le q)
      else One (\<lambda>ch. ch = c) # tokens le p)"
  by pat_completeness auto
termination
  by (relation "measure (\<lambda>(le, p). length p)") (auto dest: class_token_shorter)

fun matches :: "token list \<Rightarrow> chars \<Rightarrow> bool" where
  "matches [] s \<longleftrightarrow> s = []"
| "matches (Star # ts) s \<longleftrightarrow> (\<exists>k \<le> length s. matches ts (drop k s))"
| "matches (One f # ts) s \<longleftrightarrow> s \<noteq> [] \<and> f (hd s) \<and> matches ts (tl s)"

text \<open>No token takes the zero that ends the string.\<close>

definition ends_safely :: "token list \<Rightarrow> bool" where
  "ends_safely ts \<longleftrightarrow> (\<forall>f. One f \<in> set ts \<longrightarrow> \<not> f 0)"

section \<open>The loop decides the meaning\<close>

lemma class_walk_ranges:
  assumes "c \<noteq> 0" "0 \<notin> set p"
  shows "class_walk le match c ch (p @ 0 # x) =
    (case class_ranges c p of None \<Rightarrow> Some Literal
     | Some (rs, q) \<Rightarrow> Some (Class (match \<or> (\<exists>(a, b) \<in> set rs. le a ch \<and> le ch b)) (q @ 0 # x)))"
  using assms
proof (induction p arbitrary: c match rule: length_induct)
  case (1 p)
  note ih = 1(1) [rule_format]
  have z: "class_walk le match 0 ch cs = Some Literal" for match cs by (simp add: class_walk.simps)
  show ?case
  proof (cases p)
    case Nil
    then show ?thesis using 1(2)
      by (subst class_walk.simps, subst class_ranges.simps) (simp add: class_range_def z)
  next
    case (Cons d p')
    show ?thesis
    proof (cases "d = chr_dash")
      case False
      then show ?thesis using 1(2,3) Cons ih [of p' d "match \<or> le c ch \<and> le ch c"]
        by (subst class_walk.simps, subst class_ranges.simps)
          (auto simp: class_range_def split: option.splits)
    next
      case dash: True
      show ?thesis
      proof (cases p')
        case Nil
        then show ?thesis using dash Cons 1(2)
          by (subst class_walk.simps, subst class_ranges.simps) (simp add: class_range_def)
      next
        case p': (Cons e q)
        show ?thesis
        proof (cases "e = chr_close")
          case True
          then show ?thesis using dash Cons p' 1(2)
            by (subst class_walk.simps, subst class_ranges.simps)
              (auto simp: class_range_def class_walk.simps [of _ _ chr_dash])
        next
          case False
          show ?thesis
          proof (cases q)
            case Nil
            then show ?thesis using False dash Cons p' 1(2,3)
              by (subst class_walk.simps, subst class_ranges.simps) (simp add: class_range_def z)
          next
            case (Cons f q')
            then show ?thesis using False dash \<open>p = d # p'\<close> p' 1(2,3) ih [of q' f "match \<or> le c ch \<and> le ch e"]
              by (subst class_walk.simps, subst class_ranges.simps)
                (auto simp: class_range_def split: option.splits)
          qed
        qed
      qed
    qed
  qed
qed


lemma class_ranges_suffix: "class_ranges c p = Some (rs, q) \<Longrightarrow> set q \<subseteq> set p"
proof (induction p arbitrary: c rs rule: length_induct)
  case (1 p)
  from 1(2) show ?case
    by (auto simp: class_ranges.simps [of c p] split: if_splits list.splits dest!: 1(1) [rule_format, rotated])
qed

lemma class_token_suffix: "class_token le p = Some (t, q) \<Longrightarrow> set q \<subseteq> set p"
  by (cases p) (auto simp: class_token_def Let_def split: if_splits list.splits dest!: class_ranges_suffix)

text \<open>The states of the loop, without the ends of the arrays.\<close>

type_synonym glob_place = "chars \<times> chars \<times> (chars \<times> chars) option"

definition concrete :: "chars \<Rightarrow> chars \<Rightarrow> glob_place \<Rightarrow> glob_state" where
  "concrete x y = (\<lambda>(g, t, back). (g @ 0 # x, t @ 0 # y, map_option (\<lambda>(bg, bs). (bg @ 0 # x, bs @ 0 # y)) back))"

text \<open>
  The pattern behind the last star has taken some characters, without a star, since the string was last cut.
\<close>

definition place_ok :: "char_order \<Rightarrow> glob_place \<Rightarrow> bool" where
  "place_ok le = (\<lambda>(g, t, back). 0 \<notin> set g \<and> 0 \<notin> set t \<and> ends_safely (tokens le g) \<and>
     (case back of None \<Rightarrow> True
      | Some (bg, bs) \<Rightarrow> 0 \<notin> set bg \<and> 0 \<notin> set bs \<and> ends_safely (tokens le bg) \<and>
          (\<exists>ts. tokens le bg = ts @ tokens le g \<and> Star \<notin> set ts \<and> length ts \<le> length bs \<and> t = drop (length ts) bs)))"

definition place_matches :: "char_order \<Rightarrow> glob_place \<Rightarrow> bool" where
  "place_matches le = (\<lambda>(g, t, back). matches (tokens le g) t \<or>
     (case back of None \<Rightarrow> False
      | Some (bg, bs) \<Rightarrow> (\<exists>k \<le> length bs. 0 < k \<and> matches (tokens le bg) (drop k bs))))"

lemma matches_prefix:
  "Star \<notin> set ts \<Longrightarrow> matches (ts @ us) s \<Longrightarrow> length ts \<le> length s \<and> matches us (drop (length ts) s)"
proof (induction ts arbitrary: s)
  case (Cons t ts)
  then obtain f where "t = One f" by (cases t) auto
  with Cons.prems have "s \<noteq> []" "matches (ts @ us) (tl s)" "Star \<notin> set ts" by auto
  with Cons.IH [of "tl s"] show ?case by (cases s) auto
qed simp

definition step_agrees :: "char_order \<Rightarrow> chars \<Rightarrow> chars \<Rightarrow> bool \<Rightarrow> glob_result \<Rightarrow> bool" where
  "step_agrees le x y m r =
     (case r of Return b \<Rightarrow> b = m | Fault \<Rightarrow> False
      | Continue s \<Rightarrow> (\<exists>a. s = concrete x y a \<and> place_ok le a \<and> place_matches le a = m))"

lemma step_agrees_simps [simp]:
  "step_agrees le x y m (Return b) = (b = m)" "\<not> step_agrees le x y m Fault"
  by (simp_all add: step_agrees_def)

lemma step_agrees_continue:
  "s = concrete x y a \<Longrightarrow> place_ok le a \<Longrightarrow> place_matches le a = m \<Longrightarrow> step_agrees le x y m (Continue s)"
  by (simp only: step_agrees_def glob_result.case) blast

text \<open>A failed token leads to the same answer from the next place behind the last star.\<close>

lemma backtrack_correct:
  assumes ok: "place_ok le (g, t, back)" and fail: "\<not> matches (tokens le g) t"
  shows "step_agrees le x y (place_matches le (g, t, back))
    (glob_backtrack (hd (t @ [0])) (map_option (\<lambda>(bg, bs). (bg @ 0 # x, bs @ 0 # y)) back))"
proof (cases "back")
  case None
  then show ?thesis using fail by (simp add: glob_backtrack_def place_matches_def)
next
  case (Some b)
  obtain bg bs where b: "back = Some (bg, bs)" using Some by (cases b) simp
  from ok obtain ts where ts: "tokens le bg = ts @ tokens le g" "Star \<notin> set ts" "length ts \<le> length bs" "t = drop (length ts) bs"
    and z: "0 \<notin> set bg" "0 \<notin> set bs" "ends_safely (tokens le bg)" "0 \<notin> set t"
    by (auto simp: place_ok_def b)
  show ?thesis
  proof (cases t)
    case Nil
    have "\<not> matches (tokens le bg) (drop k bs)" if "0 < k" "k \<le> length bs" for k
      using matches_prefix [OF ts(2), of "tokens le g" "drop k bs"] ts(1,3,4) Nil that by auto
    then show ?thesis using Nil fail b by (auto simp: glob_backtrack_def place_matches_def)
  next
    case (Cons ch t')
    then obtain bc bs' where bs: "bs = bc # bs'" using ts(4) by (cases bs) auto
    have "ch \<noteq> 0" using z(4) Cons by auto
    moreover have "place_ok le (bg, bs', Some (bg, bs'))" using z by (simp add: place_ok_def bs)
    moreover have "place_matches le (bg, bs', Some (bg, bs')) = place_matches le (g, t, back)"
    proof -
      have "(\<exists>k \<le> length bs. 0 < k \<and> matches (tokens le bg) (drop k bs)) \<longleftrightarrow>
          (\<exists>k \<le> length bs'. matches (tokens le bg) (drop k bs'))" (is "?l = ?r")
      proof
        assume ?l
        then obtain k where "k \<le> length bs" "0 < k" "matches (tokens le bg) (drop k bs)" by blast
        then show ?r using bs by (intro exI [of _ "k - 1"]) (cases k, auto)
      next
        assume ?r
        then obtain k where "k \<le> length bs'" "matches (tokens le bg) (drop k bs')" by blast
        then show ?l using bs by (intro exI [of _ "Suc k"]) auto
      qed
      moreover have "(matches (tokens le bg) bs' \<or> (\<exists>k \<le> length bs'. 0 < k \<and> matches (tokens le bg) (drop k bs'))) \<longleftrightarrow>
          (\<exists>k \<le> length bs'. matches (tokens le bg) (drop k bs'))"
        by (metis drop0 gr0I le0)
      ultimately show ?thesis using fail by (simp add: place_matches_def b)
    qed
    ultimately show ?thesis
      by (auto simp: glob_backtrack_def b bs Cons concrete_def
          intro!: step_agrees_continue [of _ _ _ "(bg, bs', Some (bg, bs'))"])
  qed
qed


text \<open>A token that takes one character.\<close>

lemma one_correct:
  assumes ok: "place_ok le (g, t, back)" and t: "tokens le g = One f # tokens le g'" "0 \<notin> set g'"
    and r: "r = (if t \<noteq> [] \<and> f (hd t) then Continue (concrete x y (g', tl t, back))
      else glob_backtrack (hd (t @ [0])) (map_option (\<lambda>(bg, bs). (bg @ 0 # x, bs @ 0 # y)) back))"
  shows "step_agrees le x y (place_matches le (g, t, back)) r"
proof (cases "t \<noteq> [] \<and> f (hd t)")
  case True
  then obtain ch t' where t': "t = ch # t'" by (cases t) auto
  have "place_ok le (g', t', back)"
  proof (cases "back")
    case None
    then show ?thesis using ok t t' by (auto simp: place_ok_def ends_safely_def)
  next
    case (Some b)
    obtain bg bs where b: "back = Some (bg, bs)" using Some by (cases b) simp
    from ok obtain ts where ts: "tokens le bg = ts @ tokens le g" "Star \<notin> set ts" "length ts \<le> length bs" "t = drop (length ts) bs"
      by (auto simp: place_ok_def b)
    have "length ts < length bs" using ts(3,4) t' by (metis drop_all le_neq_implies_less list.distinct(1) order_refl)
    moreover have "t' = drop (Suc (length ts)) bs" using ts(4) t' by (metis drop_Suc list.sel(3) tl_drop)
    ultimately show ?thesis using ok t t' ts
      by (auto simp: place_ok_def b ends_safely_def intro!: exI [of _ "ts @ [One f]"])
  qed
  then show ?thesis using True r t' t by (auto simp: place_matches_def intro!: step_agrees_continue)
next
  case False
  then have "\<not> matches (tokens le g) t" using t by auto
  from backtrack_correct [OF ok this] False r show ?thesis by auto
qed

lemma glob_class_literal:
  assumes "class_token le p = None" "0 \<notin> set p"
  shows "glob_class le ch (p @ 0 # x) rest back = glob_literal chr_open ch (p @ 0 # x) rest back"
proof -
  have zero: "class_walk le False 0 ch cs = Some Literal" for cs by (simp add: class_walk.simps)
  have walk: "class_walk le False c ch (q @ 0 # x) = Some Literal"
    if "class_ranges c q = None" "c \<noteq> 0" "0 \<notin> set q" for c q
    using class_walk_ranges [OF that(2,3), of le False ch x] that(1) by simp
  show ?thesis
  proof (cases p)
    case Nil
    then show ?thesis by (simp add: glob_class_def zero)
  next
    case (Cons c q)
    show ?thesis
    proof (cases "c = chr_not")
      case True
      then show ?thesis using assms walk Cons
        by (cases q) (auto simp: glob_class_def class_token_def Let_def zero)
    next
      case False
      then have "class_walk le False c ch (q @ 0 # x) = Some Literal"
        using assms Cons by (intro walk) (auto simp: class_token_def Let_def)
      then show ?thesis using False Cons by (simp add: glob_class_def)
    qed
  qed
qed

lemma glob_class_token:
  assumes "class_token le p = Some (One f, q)" "0 \<notin> set p"
  shows "glob_class le ch (p @ 0 # x) rest back =
    (if f ch then Continue (q @ 0 # x, rest, back) else glob_backtrack ch back)"
proof -
  have walk: "class_walk le False c ch (q @ 0 # x) =
      Some (Class (\<exists>(a, b) \<in> set rs. le a ch \<and> le ch b) (r @ 0 # x))"
    if "class_ranges c q = Some (rs, r)" "c \<noteq> 0" "0 \<notin> set q" for c q rs r
    using class_walk_ranges [OF that(2,3), of le False ch x] that(1) by simp
  obtain c p' where p: "p = c # p'" using assms(1) by (cases p) (auto simp: class_token_def)
  show ?thesis
  proof (cases "c = chr_not")
    case True
    then obtain d p'' where "p' = d # p''" using assms(1) p by (cases p') (auto simp: class_token_def)
    moreover from this obtain rs where "class_ranges d p'' = Some (rs, q)"
      "f = (\<lambda>ch. \<not> (\<exists>(a, b) \<in> set rs. le a ch \<and> le ch b))"
      using True assms(1) p by (auto simp: class_token_def)
    ultimately show ?thesis using True assms(2) p walk [of d p'' rs q] by (simp add: glob_class_def)
  next
    case False
    then obtain rs where "class_ranges c p' = Some (rs, q)" "f = (\<lambda>ch. \<exists>(a, b) \<in> set rs. le a ch \<and> le ch b)"
      using assms(1) p by (auto simp: class_token_def)
    then show ?thesis using False assms(2) p walk [of c p' rs q] by (simp add: glob_class_def)
  qed
qed

text \<open>Once a later star is reached, earlier ones need not be tried again.\<close>

lemma star_matches:
  assumes ok: "place_ok le (g, t, back)" and tk: "tokens le g = Star # tokens le p"
  shows "place_matches le (p, t, Some (p, t)) = place_matches le (g, t, back)"
proof -
  have m: "matches (tokens le g) t \<longleftrightarrow> (\<exists>k \<le> length t. matches (tokens le p) (drop k t))" by (simp add: tk)
  have new: "place_matches le (p, t, Some (p, t)) = matches (tokens le g) t"
    unfolding m by (simp add: place_matches_def) (metis drop0 gr0I le0)
  have "matches (tokens le g) t"
    if b: "back = Some (bg, bs)" and k: "k \<le> length bs" "matches (tokens le bg) (drop k bs)" for bg bs k
  proof -
    from ok obtain ts where ts: "tokens le bg = ts @ tokens le g" "Star \<notin> set ts" "t = drop (length ts) bs"
      by (auto simp: place_ok_def b)
    have "matches (tokens le g) (drop (length ts) (drop k bs))" "length ts \<le> length (drop k bs)"
      using matches_prefix [OF ts(2), of "tokens le g" "drop k bs"] k(2) ts(1) by simp_all
    then obtain j where "j \<le> length (drop (length ts) (drop k bs))"
      "matches (tokens le p) (drop j (drop (length ts) (drop k bs)))" by (auto simp: tk)
    then have "matches (tokens le p) (drop (j + k) t)" "j + k \<le> length t"
      using ts(3) \<open>length ts \<le> length (drop k bs)\<close> k(1) by (simp_all add: ac_simps)
    then show ?thesis unfolding m by blast
  qed
  then show ?thesis unfolding new by (auto simp: place_matches_def split: option.splits)
qed

lemma glob_step_correct:
  assumes ok: "place_ok le (g, t, back)"
  shows "step_agrees le x y (place_matches le (g, t, back)) (glob_step le (concrete x y (g, t, back)))"
proof -
  let ?mark = "map_option (\<lambda>(bg, bs). (bg @ 0 # x, bs @ 0 # y)) back"
  obtain ch rest where split: "t @ 0 # y = ch # rest" and hd: "hd (t @ [0]) = ch" and tl: "t \<noteq> [] \<Longrightarrow> rest = tl t @ 0 # y"
    by (cases t) auto
  have z: "0 \<notin> set g" "0 \<notin> set t" "ends_safely (tokens le g)" using ok by (auto simp: place_ok_def)
  have ch: "ch = 0 \<longleftrightarrow> t = []" using z(2) hd by (cases t) auto
  have chd: "ch = hd t" if "t \<noteq> []" using that hd by (cases t) auto
  have lit: "step_agrees le x y (place_matches le (g, t, back)) (glob_literal c ch (g' @ 0 # x) rest ?mark)"
    if "tokens le g = One (\<lambda>ch. ch = c) # tokens le g'" "0 \<notin> set g'" "c \<noteq> 0" for c g'
    by (rule one_correct [OF ok that(1,2)])
      (use that(3) ch chd tl in \<open>auto simp: glob_literal_def concrete_def hd\<close>)
  have ended: "step_agrees le x y (place_matches le (g, t, back)) (glob_literal 0 ch z rest ?mark)"
    if "tokens le g = []" for z
  proof (cases "t = []")
    case True
    then show ?thesis using that ch by (simp add: glob_literal_def place_matches_def)
  next
    case False
    then have "\<not> matches (tokens le g) t" using that by simp
    from backtrack_correct [OF ok this] False ch show ?thesis by (auto simp: glob_literal_def hd)
  qed
  show ?thesis
  proof (cases g)
    case Nil
    then show ?thesis using ended [of x] split by (simp add: concrete_def glob_step_def)
  next
    case g: (Cons c p)
    have c: "c \<noteq> 0" "0 \<notin> set p" using z(1) g by auto
    consider "c = chr_any" | "c = chr_star" | "c = chr_open" | "c = chr_escape"
      | "c \<noteq> chr_any" "c \<noteq> chr_star" "c \<noteq> chr_open" "c \<noteq> chr_escape" by blast
    then show ?thesis
    proof cases
      case 1
      then have "tokens le g = One (\<lambda>ch. ch \<noteq> 0) # tokens le p" by (simp add: g)
      then show ?thesis
        by (rule one_correct [OF ok _ c(2)])
          (use 1 ch chd tl split in \<open>auto simp: concrete_def glob_step_def glob_backtrack_def hd g\<close>)
    next
      case 2
      have tk: "tokens le g = Star # tokens le p" using 2 by (simp add: g)
      show ?thesis
      proof (cases p)
        case Nil
        then have "matches (tokens le g) t" using tk by (auto intro: exI [of _ "length t"])
        then show ?thesis using 2 Nil split by (simp add: concrete_def glob_step_def g place_matches_def)
      next
        case (Cons d q)
        have "d \<noteq> 0" using c Cons by auto
        then have "glob_step le (concrete x y (g, t, back)) = Continue (concrete x y (p, t, Some (p, t)))"
          using 2 Cons split by (simp add: concrete_def glob_step_def g)
        moreover have "place_ok le (p, t, Some (p, t))" using z tk c by (auto simp: place_ok_def ends_safely_def)
        moreover have "place_matches le (p, t, Some (p, t)) = place_matches le (g, t, back)"
          using star_matches [OF ok tk] .
        ultimately show ?thesis
          by (simp only: step_agrees_continue [OF refl, of le "(p, t, Some (p, t))" "place_matches le (g, t, back)"])
      qed
    next
      case 3
      have st: "glob_step le (concrete x y (g, t, back)) = glob_class le ch (p @ 0 # x) rest ?mark"
        using 3 split by (simp add: concrete_def glob_step_def g)
      show ?thesis
      proof (cases "class_token le p")
        case None
        then have "tokens le g = One (\<lambda>ch. ch = c) # tokens le p" using 3 by (simp add: g)
        from lit [OF this c(2,1)] show ?thesis
          using 3 glob_class_literal [OF None c(2), of ch x rest ?mark] st by simp
      next
        case (Some r)
        then obtain f q where tq: "class_token le p = Some (One f, q)"
          by (auto simp: class_token_def Let_def split: list.splits)
        then have tk: "tokens le g = One f # tokens le q" using 3 by (simp add: g)
        then have "\<not> f 0" using z(3) by (auto simp: ends_safely_def)
        have "0 \<notin> set q" using class_token_suffix [OF tq] c(2) by auto
        from one_correct [OF ok tk this] \<open>\<not> f 0\<close> show ?thesis
          unfolding st glob_class_token [OF tq c(2)] using ch chd tl by (auto simp: concrete_def hd)
      qed
    next
      case 4
      show ?thesis
      proof (cases p)
        case Nil
        then have "tokens le g = []" using 4 by (simp add: g)
        from ended [OF this, of x] Nil 4 show ?thesis using split by (simp add: concrete_def glob_step_def g)
      next
        case (Cons d q)
        then have "tokens le g = One (\<lambda>ch. ch = d) # tokens le q" using 4 by (simp add: g)
        from lit [OF this] c Cons 4 show ?thesis using split by (simp add: concrete_def glob_step_def g)
      qed
    next
      case 5
      then show ?thesis using lit [of c p] c split by (simp add: concrete_def glob_step_def g)
    qed
  qed
qed


lemma wf_glob_measure: "wf glob_measure"
  by (simp add: glob_measure_def)

lemma glob_loop_correct:
  "place_ok le a \<Longrightarrow> glob_loop le (concrete x y a) = Some (place_matches le a)"
proof (induction "concrete x y a" arbitrary: a rule: wf_induct_rule [OF wf_glob_measure])
  case (1 a)
  obtain g t bk where a: "a = (g, t, bk)" by (cases a) auto
  have s: "step_agrees le x y (place_matches le a) (glob_step le (concrete x y a))"
    using glob_step_correct 1(2) a by simp
  show ?case
  proof (cases "glob_step le (concrete x y a)")
    case (Return b)
    then show ?thesis using s by (simp add: glob_loop.simps)
  next
    case Fault
    then show ?thesis using s by simp
  next
    case (Continue c)
    with s obtain a' where a': "c = concrete x y a'" "place_ok le a'" "place_matches le a' = place_matches le a"
      by (auto simp: step_agrees_def)
    have "glob_loop le c = Some (place_matches le a')"
      using 1(1) [OF glob_step_measure, of le a'] Continue a' by simp
    then show ?thesis using Continue a' by (simp add: glob_loop.simps [of le "concrete x y a"])
  qed
qed

text \<open>
  C15: The matcher always ends, and when no token of the pattern takes the terminating zero it stays inside both arrays
  and returns whether the string matches the tokens of the pattern, although it only ever backtracks to the last
  star. This holds for signed and for unsigned characters.
\<close>

theorem glob_match_correct:
  assumes "0 \<notin> set pattern" "0 \<notin> set string" "ends_safely (tokens le pattern)"
  shows "glob_match le (pattern @ 0 # x) (string @ 0 # y) = Some (matches (tokens le pattern) string)"
proof -
  have "place_ok le (pattern, string, None)" using assms by (simp add: place_ok_def)
  from glob_loop_correct [OF this, of x y] show ?thesis by (simp add: glob_match_def concrete_def place_matches_def)
qed


text \<open>The pattern \<^verbatim>\<open>a*[b-d]\<close> and the string \<^verbatim>\<open>axc\<close>.\<close>

lemma glob_example_tokens:
  "tokens (\<le>) [0x61, chr_star, chr_open, 0x62, chr_dash, 0x64, chr_close] =
    [One (\<lambda>ch. ch = 0x61), Star, One (\<lambda>ch. 0x62 \<le> ch \<and> ch \<le> 0x64)]"
  by (simp add: class_token_def class_ranges.simps)

theorem glob_match_correct_witness:
  "glob_match (\<le>) [0x61, chr_star, chr_open, 0x62, chr_dash, 0x64, chr_close, 0] [0x61, 0x78, 0x63, 0] = Some True"
proof -
  have "ends_safely (tokens (\<le>) [0x61, chr_star, chr_open, 0x62, chr_dash, 0x64, chr_close])"
    unfolding glob_example_tokens by (auto simp: ends_safely_def)
  moreover have "matches (tokens (\<le>) [0x61, chr_star, chr_open, 0x62, chr_dash, 0x64, chr_close]) [0x61, 0x78, 0x63]"
    unfolding glob_example_tokens by (auto intro!: exI [of _ 1])
  ultimately show ?thesis
    using glob_match_correct [of "[0x61, chr_star, chr_open, 0x62, chr_dash, 0x64, chr_close]" "[0x61, 0x78, 0x63]" "(\<le>)" "[]" "[]"]
    by simp
qed

text \<open>An inverted class takes the zero that ends the string: the loop reads on behind it.\<close>

lemma glob_overruns_string:
  "glob_match (\<le>) [chr_open, chr_not, 0x61, chr_close, 0] [0] = None"
  by (simp add: glob_match_def glob_loop.simps glob_step_def glob_class_def class_walk.simps class_range_def)

end
