(* ===== verification/Integer_Math.thy ===== *)
theory Integer_Math
  imports Bitops
begin

text \<open>
  The integer routines of \<^verbatim>\<open>lib/math\<close>: greatest common divisors, least common multiples, powers, square
  roots and primes. A macro of the code that makes a function for each width is one definition for words of
  any length.
\<close>

section \<open>The code\<close>

definition type_ffs :: "'a::len word \<Rightarrow> nat" where
  "type_ffs value = ffsuf (ucast value)"

definition type_fls :: "'a::len word \<Rightarrow> nat" where
  "type_fls value = flsuf (ucast value)"

partial_function (option) gcd_loop :: "'a::len word \<Rightarrow> 'a word \<Rightarrow> 'a word \<Rightarrow> 'a word option" where
  "gcd_loop mixed first second =
     (let first = drop_bit (type_ffs first) first in
      if first = 1 then Some (mixed AND (- mixed))
      else if first = second then Some (push_bit (type_ffs mixed) first)
      else
        let (first, second) = (if first < second then (second, first) else (first, second))
        in gcd_loop mixed (first - second) second)"

definition GENERIC_GCD_OPS :: "'a::len word \<Rightarrow> 'a word \<Rightarrow> 'a word option" where
  "GENERIC_GCD_OPS first second =
     (let mixed = first OR second;
          second = drop_bit (type_ffs second) second
      in if second = 1 then Some (mixed AND (- mixed)) else gcd_loop mixed first second)"

definition gcd8 :: "8 word \<Rightarrow> 8 word \<Rightarrow> 8 word option" where "gcd8 = GENERIC_GCD_OPS"
definition gcd16 :: "16 word \<Rightarrow> 16 word \<Rightarrow> 16 word option" where "gcd16 = GENERIC_GCD_OPS"
definition gcd32 :: "32 word \<Rightarrow> 32 word \<Rightarrow> 32 word option" where "gcd32 = GENERIC_GCD_OPS"
definition gcd64 :: "64 word \<Rightarrow> 64 word \<Rightarrow> 64 word option" where "gcd64 = GENERIC_GCD_OPS"

definition GENERIC_LCM_OPS :: "('a::len word \<Rightarrow> 'a word \<Rightarrow> 'a word option) \<Rightarrow> 'a word \<Rightarrow> 'a word \<Rightarrow> 'a word option" where
  "GENERIC_LCM_OPS ops first second =
     (if first = 0 \<or> second = 0 then Some 0
      else map_option (\<lambda>divisor. first div divisor * second) (ops first second))"

definition lcm8 :: "8 word \<Rightarrow> 8 word \<Rightarrow> 8 word option" where "lcm8 = GENERIC_LCM_OPS gcd8"
definition lcm16 :: "16 word \<Rightarrow> 16 word \<Rightarrow> 16 word option" where "lcm16 = GENERIC_LCM_OPS gcd16"
definition lcm32 :: "32 word \<Rightarrow> 32 word \<Rightarrow> 32 word option" where "lcm32 = GENERIC_LCM_OPS gcd32"
definition lcm64 :: "64 word \<Rightarrow> 64 word \<Rightarrow> 64 word option" where "lcm64 = GENERIC_LCM_OPS gcd64"

function pow_loop :: "'a::len word \<Rightarrow> 'a word \<Rightarrow> 32 word \<Rightarrow> 'a word" where
  "pow_loop result base exp =
     (if exp \<noteq> 0 then
        let result = (if exp AND 1 \<noteq> 0 then result * base else result)
        in pow_loop result (base * base) (drop_bit 1 exp)
      else result)"
  by auto
termination
proof (relation "measure (\<lambda>(result, base, exp). unat exp)")
  fix result base :: "'a word" and exp :: "32 word" and x
  assume "exp \<noteq> 0" "x = (if exp AND 1 \<noteq> 0 then result * base else result)"
  then have "unat exp \<noteq> 0" by (simp add: unat_eq_0)
  then show "((x, base * base, drop_bit 1 exp), (result, base, exp)) \<in> measure (\<lambda>(result, base, exp). unat exp)"
    by (simp add: drop_bit_eq_div unat_div)
qed simp

declare pow_loop.simps [simp del]

text \<open>The signed functions compute the same words.\<close>

definition GENERIC_POW_OPS :: "'a::len word \<Rightarrow> 32 word \<Rightarrow> 'a word" where
  "GENERIC_POW_OPS base exp = pow_loop 1 base exp"

definition powu8 :: "8 word \<Rightarrow> 32 word \<Rightarrow> 8 word" where "powu8 = GENERIC_POW_OPS"
definition powu16 :: "16 word \<Rightarrow> 32 word \<Rightarrow> 16 word" where "powu16 = GENERIC_POW_OPS"
definition powu32 :: "32 word \<Rightarrow> 32 word \<Rightarrow> 32 word" where "powu32 = GENERIC_POW_OPS"
definition powu64 :: "64 word \<Rightarrow> 32 word \<Rightarrow> 64 word" where "powu64 = GENERIC_POW_OPS"

lemma unat_drop_bit_div: "unat (drop_bit n w) = unat w div 2 ^ n"
  by (simp only: unat_drop_bit_eq) (simp add: drop_bit_eq_div)

function sqrt_loop :: "'a::len word \<Rightarrow> 'a word \<Rightarrow> 'a word \<Rightarrow> 'a word" where
  "sqrt_loop value result loop =
     (if loop \<noteq> 0 then
        let tmp = result + loop; result = drop_bit 1 result in
        if value \<ge> tmp then sqrt_loop (value - tmp) (result + loop) (drop_bit 2 loop)
        else sqrt_loop value result (drop_bit 2 loop)
      else result)"
  by auto
termination
proof (relation "measure (\<lambda>(value, result, loop). unat loop)")
  fix v result loop tmp result' :: "'a word"
  assume "loop \<noteq> 0"
  then have "unat loop \<noteq> 0" by (simp add: unat_eq_0)
  then have "unat (drop_bit 2 loop) < unat loop" by (simp add: unat_drop_bit_div)
  then show "((v - tmp, result' + loop, drop_bit 2 loop), (v, result, loop)) \<in> measure (\<lambda>(value, result, loop). unat loop)"
    "((v, result', drop_bit 2 loop), (v, result, loop)) \<in> measure (\<lambda>(value, result, loop). unat loop)" by simp_all
qed simp

declare sqrt_loop.simps [simp del]

definition GENERIC_SQRT_OPS :: "'a::len word \<Rightarrow> 'a word" where
  "GENERIC_SQRT_OPS value =
     (if value < 2 then value
      else sqrt_loop value 0 (ucast (BIT (unat (of_nat (type_fls value) AND NOT 1 :: ulong)))))"

definition sqrt8 :: "8 word \<Rightarrow> 8 word" where "sqrt8 = GENERIC_SQRT_OPS"
definition sqrt16 :: "16 word \<Rightarrow> 16 word" where "sqrt16 = GENERIC_SQRT_OPS"
definition sqrt32 :: "32 word \<Rightarrow> 32 word" where "sqrt32 = GENERIC_SQRT_OPS"
definition sqrt64 :: "64 word \<Rightarrow> 64 word" where "sqrt64 = GENERIC_SQRT_OPS"

text \<open>The last divisor of the walk.\<close>

function prime_walk :: "ulong \<Rightarrow> ulong \<Rightarrow> ulong" where
  "prime_walk num walk = (if walk > 1 then if num mod walk = 0 then walk else prime_walk num (walk - 1) else walk)"
  by auto
termination
proof (relation "measure (\<lambda>(num, walk). unat walk)")
  fix num walk :: ulong
  assume "walk > 1"
  then have "unat (walk - 1) < unat walk" by (simp add: unat_sub word_le_nat_alt word_less_nat_alt)
  then show "((num, walk - 1), (num, walk)) \<in> measure (\<lambda>(num, walk). unat walk)" by simp
qed simp

declare prime_walk.simps [simp del]

definition prime_check :: "ulong \<Rightarrow> bool" where
  "prime_check num = (prime_walk num (sqrt64 num) = 1)"

function prime_next :: "ulong \<Rightarrow> ulong" where
  "prime_next num = (if num < - 1 then if prime_check (num + 1) then num + 1 else prime_next (num + 1) else num)"
  by auto
termination
proof (relation "measure (\<lambda>num. unat (- 1 - num))")
  fix num :: ulong
  assume "num < - 1"
  then have "num + 1 \<noteq> 0" by (metis add_eq_0_iff2 less_irrefl)
  then have "unat (num + 1) = Suc (unat num)" by (simp add: unatSuc add.commute)
  moreover have "unat (- 1 - x) = unat (- 1 :: ulong) - unat x" for x :: ulong
    by (rule unat_sub) (rule word_n1_ge)
  moreover have "unat num < unat (- 1 :: ulong)" using \<open>num < - 1\<close> by (simp only: word_less_nat_alt)
  ultimately show "(num + 1, num) \<in> measure (\<lambda>num. unat (- 1 - num))" by (simp only: in_measure)
qed simp

declare prime_next.simps [simp del]


section \<open>Divisors\<close>

lemma type_ffs_least:
  fixes v :: "'a::len word"
  assumes "v \<noteq> 0" "LENGTH('a) \<le> 64"
  shows "bit v (type_ffs v)" and "j < type_ffs v \<Longrightarrow> \<not> bit v j"
proof -
  have b: "bit (ucast v :: ulong) j \<longleftrightarrow> bit v j" for j
    using assms(2) bit_imp_le_length [of v j] by (auto simp: bit_ucast_iff)
  have "ucast v \<noteq> (0 :: ulong)"
  proof
    assume "ucast v = (0 :: ulong)"
    then have "\<not> bit v j" for j using b [of j] by simp
    then show False using assms(1) by (simp add: bit_eq_iff)
  qed
  from ffsuf_least [OF this]
  show "bit v (type_ffs v)" and "j < type_ffs v \<Longrightarrow> \<not> bit v j" by (simp_all add: b type_ffs_def)
qed

lemma type_ffs_shift:
  fixes v :: "'a::len word"
  assumes "v \<noteq> 0" "LENGTH('a) \<le> 64"
  shows "odd (drop_bit (type_ffs v) v)" and "push_bit (type_ffs v) (drop_bit (type_ffs v) v) = v"
    and "unat v = 2 ^ type_ffs v * unat (drop_bit (type_ffs v) v)"
proof -
  show "odd (drop_bit (type_ffs v) v)" using type_ffs_least(1) [OF assms] by (simp add: bit_iff_odd_drop_bit)
  have t: "take_bit (type_ffs v) v = 0"
    using type_ffs_least(2) [OF assms] by (auto simp: bit_eq_iff bit_take_bit_iff)
  then show "push_bit (type_ffs v) (drop_bit (type_ffs v) v) = v"
    using bits_ident [of "type_ffs v" v] by simp
  have "take_bit (type_ffs v) (unat v) = 0" using t by (metis unsigned_take_bit_eq unsigned_0)
  then show "unat v = 2 ^ type_ffs v * unat (drop_bit (type_ffs v) v)"
    using bits_ident [of "type_ffs v" "unat v"] by (simp add: unat_drop_bit_eq push_bit_eq_mult mult.commute)
qed

lemma lowest_bit:
  fixes v :: "'a::len word"
  assumes "v \<noteq> 0" "LENGTH('a) \<le> 64"
  shows "v AND - v = push_bit (type_ffs v) 1"
proof -
  define w where "w = drop_bit (type_ffs v) v"
  have w: "odd w" "v = push_bit (type_ffs v) w" using type_ffs_shift [OF assms] by (simp_all add: w_def)
  have "w AND - w = 1"
  proof (rule bit_word_eqI)
    fix j assume "j < LENGTH('a)"
    then show "bit (w AND - w) j = bit 1 j"
      using odd_bit_iff_bit_pred [OF w(1), of j] w(1)
      by (auto simp: bit_and_iff bit_minus_iff bit_1_iff bit_0)
  qed
  moreover have "- v = push_bit (type_ffs v) (- w)" by (subst w(2)) (simp add: push_bit_eq_mult)
  ultimately show ?thesis by (metis push_bit_and w(2))
qed


lemma unat_push_bit_small:
  fixes w :: "'a::len word"
  assumes "2 ^ n * unat w < 2 ^ LENGTH('a)"
  shows "unat (push_bit n w) = 2 ^ n * unat w"
proof -
  have "unat (push_bit n w) = push_bit n (unat w) mod 2 ^ LENGTH('a)"
    by (simp add: unsigned_push_bit_eq take_bit_eq_mod)
  then show ?thesis using assms by (simp add: push_bit_eq_mult mult.commute)
qed

lemma odd_unat: "odd (unat (w :: 'a::len word)) \<longleftrightarrow> odd w"
  by (simp flip: bit_0 add: bit_unsigned_iff)

lemma gcd_odd_part:
  assumes "odd (q :: nat)"
  shows "gcd (2 ^ n * p) q = gcd p q"
proof -
  have "coprime (2 ^ n) q" using assms by (simp add: coprime_power_left_iff)
  then show ?thesis by (simp add: gcd_mult_left_left_cancel)
qed

lemma gcd_loop_gcd:
  fixes first second mixed :: "'a::len word"
  assumes "LENGTH('a) \<le> 64" "mixed \<noteq> 0" "first \<noteq> 0" "odd second"
    "2 ^ type_ffs mixed * gcd (unat first) (unat second) < 2 ^ LENGTH('a)"
  shows "\<exists>r. gcd_loop mixed first second = Some r \<and>
    unat r = 2 ^ type_ffs mixed * gcd (unat first) (unat second)"
  using assms(3-5)
proof (induction "unat first + unat second" arbitrary: first second rule: less_induct)
  case less
  define f where "f = drop_bit (type_ffs first) first"
  note sh = type_ffs_shift [OF less.prems(1) assms(1), folded f_def]
  have os: "odd (unat second)" using less.prems(2) by (simp add: odd_unat)
  have g: "gcd (unat first) (unat second) = gcd (unat f) (unat second)"
    using sh(3) gcd_odd_part [OF os] by metis
  have le: "unat f \<le> unat first" by (simp add: f_def unat_drop_bit_div)
  show ?case
  proof (cases "f = 1")
    case True
    then have "gcd_loop mixed first second = Some (push_bit (type_ffs mixed) 1)"
      using lowest_bit [OF assms(2,1)] by (simp add: gcd_loop.simps f_def [symmetric])
    moreover have "unat (push_bit (type_ffs mixed) (1 :: 'a word)) = 2 ^ type_ffs mixed * 1"
      using unat_push_bit_small [of "type_ffs mixed" "1 :: 'a word"] less.prems(3) True g by simp
    ultimately show ?thesis using g True by simp
  next
    case f1: False
    show ?thesis
    proof (cases "f = second")
      case True
      then have "gcd_loop mixed first second = Some (push_bit (type_ffs mixed) f)"
        using f1 by (simp add: gcd_loop.simps f_def [symmetric])
      moreover have "unat (push_bit (type_ffs mixed) f) = 2 ^ type_ffs mixed * unat f"
        using unat_push_bit_small [of "type_ffs mixed" f] less.prems(3) True g by simp
      ultimately show ?thesis using g True by simp
    next
      case False
      define a where "a = (if f < second then second else f)"
      define b where "b = (if f < second then f else second)"
      have st: "gcd_loop mixed first second = gcd_loop mixed (a - b) b"
        by (subst gcd_loop.simps) (simp add: Let_def f_def [symmetric] f1 False a_def b_def)
      have ab: "unat b < unat a" "unat a + unat b = unat f + unat second" "odd b"
        "gcd (unat a) (unat b) = gcd (unat f) (unat second)"
        using False less.prems(2) sh(1)
        by (auto simp: a_def b_def word_less_nat_alt gcd.commute not_less le_less word_unat_eq_iff)
      then have d: "unat (a - b) = unat a - unat b" by (simp add: unat_sub word_le_nat_alt)
      have g2: "gcd (unat (a - b)) (unat b) = gcd (unat first) (unat second)"
        using ab d g by (simp add: gcd_diff1_nat)
      have "b \<noteq> 0" using ab(3) by auto
      then have "unat (a - b) + unat b < unat first + unat second"
        using ab d le by (simp add: unat_gt_0 [symmetric])
      moreover have "a - b \<noteq> 0" using ab(1) by auto
      ultimately show ?thesis using less.hyps [of "a - b" b] ab(3) less.prems(3) g2 st by simp
    qed
  qed
qed


lemma GENERIC_GCD_OPS_gcd:
  fixes first second :: "'a::len word"
  assumes "LENGTH('a) \<le> 64" "first \<noteq> 0" "second \<noteq> 0"
  shows "GENERIC_GCD_OPS first second = Some (of_nat (gcd (unat first) (unat second)))"
proof -
  define mixed where "mixed = first OR second"
  define k where "k = type_ffs mixed"
  define s where "s = drop_bit (type_ffs second) second"
  have m0: "mixed \<noteq> 0" using assms(2) by (auto simp: mixed_def bit_eq_iff bit_or_iff)
  note sh = type_ffs_shift [OF assms(3,1), folded s_def]
  have os: "odd (unat s)" using sh(1) by (simp add: odd_unat)
  have clear: "\<not> bit first j" "\<not> bit second j" if "j < k" for j
    using type_ffs_least(2) [OF m0 assms(1)] that by (auto simp: k_def mixed_def bit_or_iff)
  have low: "bit first k \<or> bit second k"
    using type_ffs_least(1) [OF m0 assms(1)] by (simp add: k_def mixed_def bit_or_iff)
  have fs: "type_ffs first \<ge> k" "type_ffs second \<ge> k"
    using type_ffs_least(1) [OF assms(2,1)] type_ffs_least(1) [OF assms(3,1)] clear by (meson not_le)+
  have one: "k = type_ffs first \<or> k = type_ffs second"
    using low fs type_ffs_least(2) [OF assms(2,1), of k] type_ffs_least(2) [OF assms(3,1), of k] by (auto simp: le_less)
  define p where "p = 2 ^ (type_ffs first - k) * unat (drop_bit (type_ffs first) first)"
  define q where "q = 2 ^ (type_ffs second - k) * unat s"
  have p: "unat first = 2 ^ k * p" using type_ffs_shift(3) [OF assms(2,1)] fs(1)
    by (metis p_def le_add_diff_inverse mult.assoc power_add)
  have q: "unat second = 2 ^ k * q" using sh(3) fs(2)
    by (metis q_def le_add_diff_inverse mult.assoc power_add)
  have pq: "gcd p q = gcd p (unat s)"
  proof (cases "k = type_ffs second")
    case True then show ?thesis by (simp add: q_def)
  next
    case False
    then have "p = unat (drop_bit (type_ffs first) first)" using one by (simp add: p_def)
    then have "odd p" using type_ffs_shift(1) [OF assms(2,1)] by (simp add: odd_unat)
    then show ?thesis using gcd_odd_part [of p "type_ffs second - k" "unat s"] by (simp add: q_def gcd.commute)
  qed
  have g: "2 ^ k * gcd (unat first) (unat s) = gcd (unat first) (unat second)"
    using p q pq gcd_odd_part [OF os, of k p] by (metis gcd_mult_distrib_nat)
  have lt: "gcd (unat first) (unat second) < 2 ^ LENGTH('a)"
    using assms(2) by (intro le_less_trans [OF gcd_le1_nat unsigned_less]) (simp add: unat_eq_0)
  show ?thesis
  proof (cases "s = 1")
    case True
    have "mixed AND - mixed = of_nat (2 ^ k)"
      using lowest_bit [OF m0 assms(1)] by (simp add: k_def push_bit_eq_mult)
    moreover have "gcd (unat first) (unat second) = 2 ^ k" using g True by simp
    ultimately show ?thesis using True by (simp add: GENERIC_GCD_OPS_def Let_def s_def [symmetric] mixed_def [symmetric])
  next
    case False
    obtain r where "gcd_loop mixed first s = Some r" "unat r = 2 ^ k * gcd (unat first) (unat s)"
      using gcd_loop_gcd [OF assms(1) m0 assms(2) sh(1)] lt g by (auto simp: k_def)
    then have "GENERIC_GCD_OPS first second = Some r" "r = of_nat (gcd (unat first) (unat second))"
      using False g by (simp_all add: GENERIC_GCD_OPS_def Let_def s_def [symmetric] mixed_def [symmetric] word_unat_eq_iff
          unsigned_of_nat take_bit_eq_mod lt)
    then show ?thesis by simp
  qed
qed

text \<open>With a zero operand the loop subtracts zero from an odd number.\<close>

lemma gcd_loop_zero_diverges:
  fixes first :: "'a::len word"
  assumes "LENGTH('a) \<le> 64" "odd first" "first \<noteq> 1"
  shows "gcd_loop mixed first 0 = None"
proof -
  have "s = 0 \<longrightarrow> odd f \<longrightarrow> f = 1" if "gcd_loop m f s = Some r" for m f s r :: "'a word"
  proof (rule gcd_loop.raw_induct [where P = "\<lambda>m f s r. s = 0 \<longrightarrow> odd f \<longrightarrow> f = 1", OF _ that])
    fix loop :: "'a word \<Rightarrow> 'a word \<Rightarrow> 'a word \<Rightarrow> 'a word option" and m f s y :: "'a word"
    assume ih: "\<And>m f s y. loop m f s = Some y \<Longrightarrow> s = 0 \<longrightarrow> odd f \<longrightarrow> f = 1"
      and y: "(let first = drop_bit (type_ffs f) f in
         if first = 1 then Some (m AND - m)
         else if first = s then Some (push_bit (type_ffs m) first)
         else let (first, second) = if first < s then (s, first) else (first, s) in loop m (first - second) second) = Some y"
    show "s = 0 \<longrightarrow> odd f \<longrightarrow> f = 1"
    proof (intro impI)
      assume "s = 0" "odd f"
      then have "type_ffs f = 0" using type_ffs_least(2) [of f 0] assms(1) by (cases "f = 0") (auto simp: bit_0)
      with y \<open>s = 0\<close> \<open>odd f\<close> ih [of m f s y] show "f = 1" by (auto simp: Let_def split: if_splits)
    qed
  qed
  then show ?thesis using assms by (metis option.exhaust)
qed


lemma odd_part_power:
  fixes v :: "'a::len word"
  assumes "LENGTH('a) \<le> 64" "v \<noteq> 0"
  shows "drop_bit (type_ffs v) v = 1 \<longleftrightarrow> (\<exists>k. unat v = 2 ^ k)"
proof -
  define w where "w = drop_bit (type_ffs v) v"
  note sh = type_ffs_shift [OF assms(2,1), folded w_def]
  have "unat w = 1" if "unat v = 2 ^ k" for k
  proof -
    have "odd (unat w)" using sh(1) by (simp add: odd_unat)
    from gcd_odd_part [OF this, of k 1] have "gcd (2 ^ k) (unat w) = 1" by simp
    moreover have "unat w dvd 2 ^ k" using sh(3) that by (metis dvd_triv_right)
    ultimately show ?thesis by (metis gcd_proj2_iff normalize_nat_def id_apply)
  qed
  moreover have "unat v = 2 ^ type_ffs v" if "w = 1" using sh(3) that by simp
  ultimately show ?thesis unfolding w_def [symmetric] by (metis word_unat_eq_iff unsigned_1)
qed

lemma GENERIC_GCD_OPS_zero:
  fixes v :: "'a::len word"
  assumes "LENGTH('a) \<le> 64" "v \<noteq> 0"
  shows "GENERIC_GCD_OPS 0 v = (if \<exists>k. unat v = 2 ^ k then Some v else None)"
    and "GENERIC_GCD_OPS v 0 = (if \<exists>k. unat v = 2 ^ k then Some v else None)"
proof -
  define w where "w = drop_bit (type_ffs v) v"
  note sh = type_ffs_shift [OF assms(2,1), folded w_def]
  have w0: "w \<noteq> 0" using sh(1) by auto
  have e: "w = 1 \<longleftrightarrow> (\<exists>k. unat v = 2 ^ k)" using odd_part_power [OF assms] by (simp add: w_def)
  have v: "v AND - v = v" if "w = 1" using lowest_bit [OF assms(2,1)] sh(2) that by simp
  have d: "gcd_loop v w 0 = None" if "w \<noteq> 1" using gcd_loop_zero_diverges [OF assms(1) sh(1) that] .
  have "GENERIC_GCD_OPS 0 v = (if w = 1 then Some v else None)"
  proof (cases "w = 1")
    case True then show ?thesis using v by (simp add: GENERIC_GCD_OPS_def w_def [symmetric])
  next
    case False
    have "gcd_loop v 0 w = gcd_loop v w 0"
      using w0 by (subst gcd_loop.simps) (simp add: word_gt_0)
    then show ?thesis using False d by (simp add: GENERIC_GCD_OPS_def w_def [symmetric])
  qed
  moreover have "GENERIC_GCD_OPS v 0 = (if w = 1 then Some v else None)"
    using w0 v d by (auto simp: GENERIC_GCD_OPS_def gcd_loop.simps [of v v 0] w_def [symmetric])
  ultimately show "GENERIC_GCD_OPS 0 v = (if \<exists>k. unat v = 2 ^ k then Some v else None)"
    "GENERIC_GCD_OPS v 0 = (if \<exists>k. unat v = 2 ^ k then Some v else None)" by (simp_all add: e)
qed

text \<open>
  C33: The binary algorithm for the greatest common divisor, at any width up to 64 bits, returns the greatest common
  divisor of its operands unless exactly one of them is zero and the other is not a power of two: then it never
  returns. The least common multiple always returns, and gives the multiple as far as the width can hold it.
\<close>

theorem gcd_lcm_correct:
  fixes first second :: "'a::len word"
  assumes "LENGTH('a) \<le> 64"
  shows "GENERIC_GCD_OPS first second =
      (if (first = 0 \<or> second = 0) \<and> first \<noteq> second \<and> \<not> (\<exists>k. unat (first OR second) = 2 ^ k) then None
       else Some (of_nat (gcd (unat first) (unat second)))) \<and>
    GENERIC_LCM_OPS GENERIC_GCD_OPS first second = Some (of_nat (lcm (unat first) (unat second)))"
proof (cases "first = 0 \<or> second = 0")
  case True
  have p: "v = 2 ^ k" if "unat v = 2 ^ k" for v :: "'a word" and k
    using arg_cong [OF that, of "of_nat :: nat \<Rightarrow> 'a word"] by simp
  have "GENERIC_GCD_OPS 0 0 = Some (0 :: 'a word)" by (simp add: GENERIC_GCD_OPS_def gcd_loop.simps)
  then show ?thesis using True GENERIC_GCD_OPS_zero [OF assms, of first] GENERIC_GCD_OPS_zero [OF assms, of second]
    by (cases "first = second") (auto simp: GENERIC_LCM_OPS_def intro: p)
next
  case False
  then have g: "GENERIC_GCD_OPS first second = Some (of_nat (gcd (unat first) (unat second)))"
    using GENERIC_GCD_OPS_gcd [OF assms] by blast
  define d where "d = gcd (unat first) (unat second)"
  have d: "d \<le> unat first" "d dvd unat first" using False by (auto simp: d_def unat_eq_0 intro: gcd_le1_nat)
  then have u: "unat (of_nat d :: 'a word) = d"
    by (simp add: unsigned_of_nat take_bit_nat_eq_self le_less_trans [OF _ unsigned_less])
  have "unat (first div of_nat d) = unat first div d" by (simp only: unat_div u)
  moreover have "of_nat (unat (first div of_nat d)) = first div of_nat d" by simp
  ultimately have "first div of_nat d = of_nat (unat first div d)" by metis
  then have "first div of_nat d * second = of_nat (unat first div d * unat second)" by simp
  also have "unat first div d * unat second = lcm (unat first) (unat second)"
    using dvd_div_mult [OF d(2), of "unat second"] by (simp add: lcm_nat_def d_def)
  finally show ?thesis using False g by (simp add: GENERIC_LCM_OPS_def d_def)
qed

theorem gcd_lcm_correct_witness: "gcd32 12 18 = Some 6 \<and> gcd8 0 6 = None \<and> lcm64 4 6 = Some 12 \<and> gcd16 0 8 = Some 8"
proof (intro conjI)
  have *: "gcd 12 18 = (6 :: nat)" "lcm 4 6 = (12 :: nat)" by code_simp+
  show "gcd32 12 18 = Some 6" using gcd_lcm_correct [of "12 :: 32 word" 18] * by (simp add: gcd32_def)
  show "lcm64 4 6 = Some 12" using gcd_lcm_correct [of "4 :: 64 word" 6] * by (simp add: lcm64_def gcd64_def [abs_def])
  have "\<not> (\<exists>k. (6 :: nat) = 2 ^ k)"
  proof
    assume "\<exists>k. (6 :: nat) = 2 ^ k"
    then obtain k where "(6 :: nat) = 2 ^ k" ..
    moreover have "3 dvd (6 :: nat)" by simp
    ultimately have "3 dvd (2 :: nat) ^ k" by simp
    moreover have "gcd (2 ^ k) 3 = (1 :: nat)" using gcd_odd_part [of 3 k 1] by simp
    ultimately have "(3 :: nat) = 1" by (metis gcd_proj2_iff normalize_nat_def id_apply)
    then show False by simp
  qed
  then show "gcd8 0 6 = None" using gcd_lcm_correct [of "0 :: 8 word" 6] by (simp add: gcd8_def)
  have "(8 :: nat) = 2 ^ 3" by simp
  then have "\<exists>k. (8 :: nat) = 2 ^ k" ..
  then show "gcd16 0 8 = Some 8" using gcd_lcm_correct [of "0 :: 16 word" 8] by (simp add: gcd16_def)
qed

lemma pow_loop_power: "pow_loop result base exp = result * base ^ unat exp"
proof (induction result base exp rule: pow_loop.induct)
  case (1 result base exp)
  show ?case
  proof (cases "exp = 0")
    case True then show ?thesis by (simp add: pow_loop.simps)
  next
    case False
    have sq: "base ^ unat exp = (base * base) ^ (unat exp div 2) * base ^ (unat exp mod 2)"
      by (metis mult_div_mod_eq power2_eq_square power_add power_mult)
    have o: "exp AND 1 \<noteq> 0 \<longleftrightarrow> odd exp" by (simp add: and_one_eq mod_2_eq_odd)
    show ?thesis
    proof (cases "odd exp")
      case True
      then have "unat exp mod 2 = 1" using odd_unat [of exp] by presburger
      with sq have "base ^ unat exp = (base * base) ^ (unat exp div 2) * base" by simp
      then show ?thesis using False True o 1 [OF False refl]
        by (subst pow_loop.simps) (simp add: unat_drop_bit_div ac_simps del: One_nat_def)
    next
      case even: False
      then have "unat exp mod 2 = 0" using odd_unat [of exp] by presburger
      with sq have "base ^ unat exp = (base * base) ^ (unat exp div 2)" by simp
      then show ?thesis using False even o 1 [OF False refl]
        by (subst pow_loop.simps) (simp add: unat_drop_bit_div ac_simps del: One_nat_def)
    qed
  qed
qed

theorem pow_correct: "GENERIC_POW_OPS base exp = base ^ unat exp"
  by (simp add: GENERIC_POW_OPS_def pow_loop_power)


section \<open>Square roots and primes\<close>

text \<open>
  Before the round for bit \<open>k\<close> the upper bits of the root are \<open>r\<close>; the word \<open>result\<close> holds twice the
  product of \<open>r\<close> with that bit, and \<open>value\<close> the rest of the number without the square of \<open>r\<close>.
\<close>

lemma sqrt_loop_round:
  fixes v result loop :: "'a::len word"
  assumes "unat loop = 4 ^ k" "unat result = r * 2 ^ (k + 1)" "n = r * r + unat v"
    "n < (r + 2 ^ (k + 1)) * (r + 2 ^ (k + 1))" "r * 2 ^ (k + 1) + 4 ^ k < 2 ^ LENGTH('a)"
  obtains v' result' r' where "sqrt_loop v result loop = sqrt_loop v' result' (drop_bit 2 loop)"
    "unat result' = r' * 2 ^ k" "n = r' * r' + unat v'" "n < (r' + 2 ^ k) * (r' + 2 ^ k)" "r' = r \<or> r' = r + 2 ^ k"
proof -
  define p :: nat where "p = 2 ^ k"
  have p4: "4 ^ k = p * p" by (simp add: p_def flip: power_mult_distrib)
  define tmp where "tmp = result + loop"
  have loop0: "loop \<noteq> 0" using assms(1) by auto
  have t: "unat tmp = r * 2 * p + p * p"
    using assms(1,2,5) unat_add_lem [of result loop] by (simp add: tmp_def p4) (simp add: p_def)
  have half: "unat (drop_bit 1 result) = r * p" 
  proof -
    have "unat result = 2 * (r * p)" using assms(2) by (simp add: p_def)
    then show ?thesis by (simp add: unat_drop_bit_div del: One_nat_def)
  qed
  have sq: "(r + p) * (r + p) = r * r + (r * 2 * p + p * p)" by algebra
  show thesis
  proof (cases "tmp \<le> v")
    case True
    have "r * p + p * p < 2 ^ LENGTH('a)" using assms(5) by (simp add: p4) (simp add: p_def)
    then have "unat (drop_bit 1 result + loop) = (r + p) * p"
      using half assms(1) unat_add_lem [of "drop_bit 1 result" loop] by (simp add: p4 algebra_simps)
    moreover have "unat (v - tmp) = unat v - unat tmp" "unat tmp \<le> unat v"
      using True by (simp_all add: unat_sub word_le_nat_alt)
    then have "n = (r + p) * (r + p) + unat (v - tmp)" using assms(3) sq t by simp
    moreover have "n < (r + p + p) * (r + p + p)" using assms(4) by (simp add: p_def mult_2 add.assoc)
    moreover have "sqrt_loop v result loop = sqrt_loop (v - tmp) (drop_bit 1 result + loop) (drop_bit 2 loop)"
      using True loop0 by (subst sqrt_loop.simps) (simp add: Let_def tmp_def)
    ultimately show thesis using that [of "v - tmp" "drop_bit 1 result + loop" "r + p"] by (simp add: p_def)
  next
    case False
    then have "unat v < unat tmp" by (simp add: not_le word_less_nat_alt)
    then have "n < (r + p) * (r + p)" using assms(3) sq t by simp
    moreover have "sqrt_loop v result loop = sqrt_loop v (drop_bit 1 result) (drop_bit 2 loop)"
      using False loop0 by (subst sqrt_loop.simps) (simp add: Let_def tmp_def)
    ultimately show thesis using that [of v "drop_bit 1 result" r] half assms(3) by (simp add: p_def)
  qed
qed

lemma sqrt_loop_root:
  fixes v result loop :: "'a::len word"
  assumes "unat loop = 4 ^ k" "unat result = r * 2 ^ (k + 1)" "n = r * r + unat v"
    "n < (r + 2 ^ (k + 1)) * (r + 2 ^ (k + 1))" "r = 0 \<or> 2 ^ (k + 1) \<le> r"
    "r * 2 ^ (k + 1) + 4 ^ k < 2 ^ LENGTH('a)"
  shows "unat (sqrt_loop v result loop) * unat (sqrt_loop v result loop) \<le> n \<and>
    n < (unat (sqrt_loop v result loop) + 1) * (unat (sqrt_loop v result loop) + 1)"
  using assms
proof (induction k arbitrary: v result loop r)
  case 0
  from sqrt_loop_round [OF "0.prems"(1,2,3,4,6)] obtain v' result' r' where
    s: "sqrt_loop v result loop = sqrt_loop v' result' (drop_bit 2 loop)"
      "unat result' = r' * 2 ^ 0" "n = r' * r' + unat v'" "n < (r' + 2 ^ 0) * (r' + 2 ^ 0)" by metis
  have "unat (drop_bit 2 loop) = 0" using "0.prems"(1) by (simp add: unat_drop_bit_div)
  then have "sqrt_loop v result loop = result'" using s(1) by (simp add: unat_eq_0 sqrt_loop.simps)
  then show ?case using s by simp
next
  case (Suc k)
  from sqrt_loop_round [OF Suc.prems(1,2,3,4,6)] obtain v' result' r' where
    s: "sqrt_loop v result loop = sqrt_loop v' result' (drop_bit 2 loop)"
      "unat result' = r' * 2 ^ Suc k" "n = r' * r' + unat v'" "n < (r' + 2 ^ Suc k) * (r' + 2 ^ Suc k)"
      "r' = r \<or> r' = r + 2 ^ Suc k" by metis
  have l: "unat (drop_bit 2 loop) = 4 ^ k" using Suc.prems(1) by (simp add: unat_drop_bit_div)
  define p :: nat where "p = 2 ^ k"
  have p4: "4 ^ k = p * p" by (simp add: p_def flip: power_mult_distrib)
  have b: "r' * 2 ^ (k + 1) + 4 ^ k < 2 ^ LENGTH('a)"
  proof (cases "r = 0")
    case True
    have "(4 :: nat) ^ Suc k < 2 ^ LENGTH('a)" using Suc.prems(1) unsigned_less [of loop, where 'a = nat] by simp
    then have "(2 :: nat) ^ (2 * Suc k) < 2 ^ LENGTH('a)" by (simp add: power_mult)
    then have "2 * Suc k + 1 \<le> LENGTH('a)" by (metis power_less_imp_less_exp one_less_numeral_iff semiring_norm(76) Suc_eq_plus1 Suc_leI)
    then have "(2 :: nat) ^ (2 * Suc k + 1) \<le> 2 ^ LENGTH('a)" by (simp only: power_increasing one_le_numeral)
    then have "8 * (p * p) \<le> 2 ^ LENGTH('a)" by (simp add: power_mult p4 [symmetric])
    moreover have "r' \<le> 2 * p" using s(5) True by (auto simp: p_def)
    then have "r' * (2 * p) \<le> 2 * p * (2 * p)" by (simp add: mult_le_mono1)
    moreover have "0 < p * p" by (simp add: p_def)
    ultimately have "r' * (2 * p) + p * p < 2 ^ LENGTH('a)" by linarith
    then show ?thesis by (simp add: p4) (simp add: p_def)
  next
    case False
    then have "4 * p \<le> r" using Suc.prems(5) by (simp add: p_def)
    then have "4 * p * p \<le> r * p" by simp
    moreover have "r' * (2 * p) \<le> (r + 2 * p) * (2 * p)" using s(5) by (intro mult_le_mono1) (auto simp: p_def)
    moreover have "(r + 2 * p) * (2 * p) = 2 * (r * p) + 4 * p * p" by algebra
    moreover have "r * (4 * p) + 4 * (p * p) < 2 ^ LENGTH('a)"
      using Suc.prems(6) by (simp add: p4) (simp add: p_def)
    moreover have "r * (4 * p) = 4 * (r * p)" "4 * (p * p) = 4 * p * p" by simp_all
    moreover have "0 < p * p" by (simp add: p_def)
    ultimately have "r' * (2 * p) + p * p < 2 ^ LENGTH('a)" by linarith
    then show ?thesis by (simp add: p4) (simp add: p_def)
  qed
  have "r' = 0 \<or> 2 ^ (k + 1) \<le> r'" using s(5) Suc.prems(5) by auto
  then show ?case using Suc.IH [OF l _ s(3) _ _ b] s by simp
qed


lemma type_fls_bounds:
  fixes v :: "'a::len word"
  assumes "v \<noteq> 0" "LENGTH('a) \<le> 64"
  shows "2 ^ type_fls v \<le> unat v" and "unat v < 2 ^ (type_fls v + 1)"
proof -
  have b: "bit (ucast v :: ulong) j \<longleftrightarrow> bit v j" for j
    using assms(2) bit_imp_le_length [of v j] by (auto simp: bit_ucast_iff)
  have "ucast v \<noteq> (0 :: ulong)"
  proof
    assume "ucast v = (0 :: ulong)"
    then have "\<not> bit v j" for j using b [of j] by simp
    then show False using assms(1) by (simp add: bit_eq_iff)
  qed
  note g = flsuf_greatest [OF this]
  have "bit (unat v) (type_fls v)" using g(1) by (simp add: b type_fls_def bit_unsigned_iff)
  then have "odd (unat v div 2 ^ type_fls v)" by (rule bit_iff_odd [THEN iffD1])
  then have "unat v div 2 ^ type_fls v \<noteq> 0" by (metis even_zero)
  then show "2 ^ type_fls v \<le> unat v" by (simp add: div_eq_0_iff)
  have "n \<le> type_fls v" if "bit v n" for n
    using g(2) [of n] b [of n] that by (fastforce simp: type_fls_def not_le)
  then have "take_bit (type_fls v + 1) (unat v) = unat v"
    by (auto simp: bit_eq_iff bit_take_bit_iff bit_unsigned_iff le_imp_less_Suc)
  then show "unat v < 2 ^ (type_fls v + 1)" by (simp only: take_bit_nat_eq_self_iff)
qed

lemma unat_clear_low: "unat (w AND NOT 1 :: 'a::len word) = 2 * (unat w div 2)"
proof -
  have "push_bit n (drop_bit n w) = w AND NOT (mask n)" for n
    by (rule bit_word_eqI) (auto simp: bit_simps)
  from this [of 1] have "w AND NOT 1 = push_bit 1 (drop_bit 1 w)" by simp
  moreover have "2 * (unat w div 2) < 2 ^ LENGTH('a)"
    by (rule le_less_trans [OF _ unsigned_less [of w, where 'a = nat]]) simp
  ultimately show ?thesis using unat_push_bit_small [of 1 "drop_bit 1 w"] by (simp add: unat_drop_bit_div del: One_nat_def)
qed

lemma GENERIC_SQRT_OPS_root:
  fixes v :: "'a::len word"
  assumes "LENGTH('a) \<le> 64" "1 < LENGTH('a)"
  shows "unat (GENERIC_SQRT_OPS v) * unat (GENERIC_SQRT_OPS v) \<le> unat v \<and>
    unat v < (unat (GENERIC_SQRT_OPS v) + 1) * (unat (GENERIC_SQRT_OPS v) + 1)"
proof (cases "v < 2")
  case True
  have "(2 :: nat) ^ 1 < 2 ^ LENGTH('a)" using assms(2) by (rule power_strict_increasing) simp
  then have "unat (of_nat 2 :: 'a word) = 2" by (simp only: unsigned_of_nat take_bit_nat_eq_self power_one_right of_nat_id)
  moreover have "of_nat 2 = (2 :: 'a word)" by simp
  ultimately have "unat v < 2" using True by (metis word_less_nat_alt)
  then have "unat v = 0 \<or> unat v = 1" by auto
  then show ?thesis using True by (auto simp: GENERIC_SQRT_OPS_def)
next
  case False
  have v0: "v \<noteq> 0"
  proof
    assume "v = 0"
    then have "(2 :: 'a word) = 0" using False by (simp add: not_less word_le_0_iff)
    then have "unat (of_nat 2 :: 'a word) = 0" by (metis of_nat_numeral unsigned_0)
    moreover have "(2 :: nat) ^ 1 < 2 ^ LENGTH('a)" using assms(2) by (rule power_strict_increasing) simp
    ultimately show False by (simp only: unsigned_of_nat take_bit_nat_eq_self power_one_right of_nat_id)
  qed
  note b = type_fls_bounds [OF v0 assms(1)]
  define k where "k = type_fls v div 2"
  define loop :: "'a word" where "loop = ucast (BIT (unat (of_nat (type_fls v) AND NOT 1 :: ulong)))"
  have f: "type_fls v < LENGTH('a)"
    using le_less_trans [OF b(1) unsigned_less] by simp
  have k2: "2 * k \<le> type_fls v" by (simp add: k_def)
  have "unat (of_nat (type_fls v) AND NOT 1 :: ulong) = 2 * k"
    using f assms(1) unat_clear_low [of "of_nat (type_fls v) :: ulong"]
    by (simp only: unsigned_of_nat) (simp add: k_def take_bit_nat_eq_self)
  then have "loop = push_bit (2 * k) 1" using f k2 assms(1)
    by (intro bit_word_eqI) (auto simp: loop_def BIT_def BITS_PER_LONG_def bit_simps)
  moreover have "2 ^ (2 * k) * unat (1 :: 'a word) < 2 ^ LENGTH('a)" using f k2 by simp
  ultimately have l: "unat loop = 4 ^ k" by (simp only: unat_push_bit_small) (simp add: power_mult)
  have "unat v < 2 ^ (2 * (k + 1))"
    by (rule less_le_trans [OF b(2)]) (rule power_increasing, simp_all add: k_def)
  also have "(2 :: nat) ^ (2 * (k + 1)) = 2 ^ (k + 1) * 2 ^ (k + 1)" by (simp only: power_add mult_2)
  finally have up: "unat v < (0 + 2 ^ (k + 1)) * (0 + 2 ^ (k + 1))" by simp
  have "GENERIC_SQRT_OPS v = sqrt_loop v 0 loop" using False by (simp add: GENERIC_SQRT_OPS_def loop_def)
  moreover have "0 * 2 ^ (k + 1) + 4 ^ k < (2 :: nat) ^ LENGTH('a)"
    using unsigned_less [of loop, where 'a = nat] l by simp
  ultimately show ?thesis using sqrt_loop_root [OF l _ _ up, of 0] by simp
qed

definition is_prime :: "nat \<Rightarrow> bool" where
  "is_prime n \<longleftrightarrow> 1 < n \<and> (\<forall>d. d dvd n \<longrightarrow> d = 1 \<or> d = n)"

lemma is_prime_sqrt:
  assumes "1 < n" "r * r \<le> n" "n < (r + 1) * (r + 1)"
  shows "is_prime n \<longleftrightarrow> (\<forall>d. 1 < d \<longrightarrow> d \<le> r \<longrightarrow> \<not> d dvd n)"
proof
  assume p: "is_prime n"
  have "r < n"
  proof (rule ccontr)
    assume "\<not> r < n"
    then have "r < r * r" using assms(1) by simp
    then show False using assms(2) \<open>\<not> r < n\<close> by linarith
  qed
  then show "\<forall>d. 1 < d \<longrightarrow> d \<le> r \<longrightarrow> \<not> d dvd n" using p by (auto simp: is_prime_def)
next
  assume *: "\<forall>d. 1 < d \<longrightarrow> d \<le> r \<longrightarrow> \<not> d dvd n"
  have "d = 1 \<or> d = n" if "d dvd n" for d
  proof -
    from that obtain e where e: "n = d * e" by blast
    have "d \<le> r \<or> e \<le> r"
    proof (rule ccontr)
      assume "\<not> ?thesis"
      then have "(r + 1) * (r + 1) \<le> d * e" by (intro mult_le_mono) auto
      then show False using assms(3) e by simp
    qed
    moreover have "0 < d" "0 < e" "e dvd n" using e assms(1) by (auto intro: gr0I)
    moreover have "1 < x" if "0 < x" "x \<noteq> 1" for x :: nat using that by linarith
    ultimately have "d = 1 \<or> e = 1" using * that by blast
    then show ?thesis using e by auto
  qed
  then show "is_prime n" using assms(1) by (simp add: is_prime_def)
qed

lemma prime_walk_one:
  "prime_walk num walk = 1 \<longleftrightarrow> walk \<noteq> 0 \<and> (\<forall>d. 1 < d \<longrightarrow> d \<le> unat walk \<longrightarrow> \<not> d dvd unat num)"
proof (induction num walk rule: prime_walk.induct)
  case (1 num walk)
  consider "walk = 0" | "walk = 1" | "walk > 1" by (metis linorder_neqE word_gt_0 word_less_1 linorder_not_less)
  then show ?case
  proof cases
    case 3
    then have u: "1 < unat walk" "unat (walk - 1) = unat walk - 1" "walk - 1 \<noteq> 0"
      by (auto simp: word_less_nat_alt unat_sub word_le_nat_alt)
    have m: "num mod walk = 0 \<longleftrightarrow> unat walk dvd unat num"
      by (metis unat_eq_0 unat_mod dvd_eq_mod_eq_0)
    show ?thesis
    proof (cases "num mod walk = 0")
      case True
      then show ?thesis using 3 u m by (subst prime_walk.simps) auto
    next
      case False
      have "(1 < d \<longrightarrow> d \<le> unat walk \<longrightarrow> \<not> d dvd unat num) \<longleftrightarrow>
          (1 < d \<longrightarrow> d \<le> unat (walk - 1) \<longrightarrow> \<not> d dvd unat num)" for d
        using m False u by (cases "d = unat walk") auto
      then show ?thesis using 1 [OF 3 False] False 3 u by (subst prime_walk.simps) auto
    qed
  qed (auto simp: prime_walk.simps)
qed

lemma prime_check_prime:
  assumes "1 < num"
  shows "prime_check num \<longleftrightarrow> is_prime (unat num)"
proof -
  note r = GENERIC_SQRT_OPS_root [of num, simplified, folded sqrt64_def]
  have "sqrt64 num \<noteq> 0" using r assms by (auto simp: word_less_nat_alt)
  then show ?thesis
    using is_prime_sqrt [of "unat num" "unat (sqrt64 num)"] r assms
    by (auto simp: prime_check_def prime_walk_one word_less_nat_alt)
qed

lemma prime_next_least:
  assumes "1 \<le> num" "num < - 1"
  shows "num < prime_next num \<and> (prime_next num = - 1 \<or> is_prime (unat (prime_next num))) \<and>
    (\<forall>p. unat num < p \<longrightarrow> p < unat (prime_next num) \<longrightarrow> \<not> is_prime p)"
  using assms
proof (induction num rule: prime_next.induct)
  case (1 num)
  have "num + 1 \<noteq> 0" using 1(3) by (metis add_eq_0_iff2 less_irrefl)
  then have u: "unat (num + 1) = Suc (unat num)" by (simp add: unatSuc add.commute)
  then have lt: "num < num + 1" "1 < num + 1" using 1(2) by (auto simp: word_less_nat_alt word_le_nat_alt)
  have c: "prime_check (num + 1) \<longleftrightarrow> is_prime (Suc (unat num))" using prime_check_prime [OF lt(2)] u by simp
  show ?case
  proof (cases "prime_check (num + 1)")
    case True
    then have pn: "prime_next num = num + 1" using 1(3) by (subst prime_next.simps) simp
    show ?thesis
    proof (intro conjI allI impI)
      show "num < prime_next num" using lt pn by simp
      show "prime_next num = - 1 \<or> is_prime (unat (prime_next num))" using True c u pn by simp
      fix p assume "unat num < p" "p < unat (prime_next num)"
      then show "\<not> is_prime p" by (simp only: pn u)
    qed
  next
    case False
    then have s: "prime_next num = prime_next (num + 1)" using 1(3) by (subst prime_next.simps) simp
    show ?thesis
    proof (cases "num + 1 = - 1")
      case True
      then have pn: "prime_next num = num + 1" using s True prime_next.simps [of "- 1"] by (metis less_irrefl)
      show ?thesis
      proof (intro conjI allI impI)
        show "num < prime_next num" using lt pn by simp
        show "prime_next num = - 1 \<or> is_prime (unat (prime_next num))" using True pn by simp
        fix p assume "unat num < p" "p < unat (prime_next num)"
        then show "\<not> is_prime p" by (simp only: pn u)
      qed
    next
      case nm: False
      then have "num + 1 < - 1" by (simp add: less_le)
      with 1(1) [OF 1(3) False] lt u have
        i: "num + 1 < prime_next (num + 1)" "prime_next (num + 1) = - 1 \<or> is_prime (unat (prime_next (num + 1)))"
        "\<And>p. Suc (unat num) < p \<Longrightarrow> p < unat (prime_next (num + 1)) \<Longrightarrow> \<not> is_prime p" by auto
      have "\<not> is_prime p" if "unat num < p" "p < unat (prime_next (num + 1))" for p
        using i(3) [of p] c False that by (cases "p = Suc (unat num)") auto
      then show ?thesis using i lt(1) s by auto
    qed
  qed
qed


definition is_floor_root :: "nat \<Rightarrow> nat \<Rightarrow> bool" where
  "is_floor_root n r \<longleftrightarrow> r * r \<le> n \<and> n < (r + 1) * (r + 1)"

text \<open>
  C34: The square roots are the floors of the exact roots, the powers are the exact powers reduced to the width. For
  numbers above one the check decides primality, and the search returns the least greater prime (or the largest
  number). One counts as a prime.
\<close>

theorem roots_powers_primes:
  "is_floor_root (unat a) (unat (sqrt8 a)) \<and> is_floor_root (unat b) (unat (sqrt16 b)) \<and>
   is_floor_root (unat c) (unat (sqrt32 c)) \<and> is_floor_root (unat d) (unat (sqrt64 d)) \<and>
   powu8 a exp = a ^ unat exp \<and> powu16 b exp = b ^ unat exp \<and>
   powu32 c exp = c ^ unat exp \<and> powu64 d exp = d ^ unat exp \<and>
   (1 < num \<longrightarrow> prime_check num = is_prime (unat num)) \<and>
   (1 \<le> num \<longrightarrow> num < - 1 \<longrightarrow>
      num < prime_next num \<and> (prime_next num = - 1 \<or> is_prime (unat (prime_next num))) \<and>
      (\<forall>p. unat num < p \<longrightarrow> p < unat (prime_next num) \<longrightarrow> \<not> is_prime p)) \<and>
   prime_check 1 \<and> prime_next 0 = 1"
proof -
  have one: "sqrt64 1 = 1" "prime_walk 1 1 = 1" by (simp_all add: sqrt64_def GENERIC_SQRT_OPS_def prime_walk.simps)
  then have "prime_check 1" by (simp add: prime_check_def)
  moreover from this have "prime_next 0 = 1" by (subst prime_next.simps) (simp add: word_gt_0)
  moreover have "is_floor_root (unat a) (unat (sqrt8 a))" "is_floor_root (unat b) (unat (sqrt16 b))"
    "is_floor_root (unat c) (unat (sqrt32 c))" "is_floor_root (unat d) (unat (sqrt64 d))"
    using GENERIC_SQRT_OPS_root [of a] GENERIC_SQRT_OPS_root [of b] GENERIC_SQRT_OPS_root [of c] GENERIC_SQRT_OPS_root [of d]
    by (simp_all only: is_floor_root_def sqrt8_def sqrt16_def sqrt32_def sqrt64_def) simp_all
  moreover note prime_check_prime [of num] prime_next_least [of num]
  ultimately show ?thesis
    by (simp only: powu8_def powu16_def powu32_def powu64_def GENERIC_POW_OPS_def pow_loop_power) simp
qed

theorem roots_powers_primes_witness:
  "prime_check 7 = is_prime 7 \<and> 7 < prime_next 7"
  using roots_powers_primes [of 0 0 0 0 0 7]
  by (simp add: word_less_nat_alt unsigned_minus_1_eq_mask mask_eq_exp_minus_1)

end
