(* ===== verification/Hash.thy ===== *)
theory Hash
  imports Integer_Math
begin

text \<open>
  The block functions of SHA-256 and SHA-1, \<^verbatim>\<open>lib/crypto/sha256.c\<close> and \<^verbatim>\<open>lib/crypto/sha1.c\<close>. A message block is an array of
  bytes: a load behind its end is a fault. The work buffer of the caller is a function from indices.
\<close>

unbundle bit_operations_syntax

section \<open>The code\<close>

definition rol32 :: "u32 \<Rightarrow> nat \<Rightarrow> u32" where
  "rol32 word shift = push_bit (shift mod 32) word OR drop_bit (unat ((- of_nat shift :: u32) AND 31)) word"

definition ror32 :: "u32 \<Rightarrow> nat \<Rightarrow> u32" where
  "ror32 word shift = drop_bit (shift mod 32) word OR push_bit (unat ((- of_nat shift :: u32) AND 31)) word"

definition load_be32 :: "8 word list \<Rightarrow> nat \<Rightarrow> u32 option" where
  "load_be32 data c =
     (if 4 * c + 3 < length data then
        Some (push_bit 24 (ucast (data ! (4 * c))) OR push_bit 16 (ucast (data ! (4 * c + 1))) OR
              push_bit 8 (ucast (data ! (4 * c + 2))) OR ucast (data ! (4 * c + 3)))
      else None)"

definition sha256_k :: "u32 list" where
  "sha256_k =
    concat [
      [0x428a2f98, 0x71374491, 0xb5c0fbcf, 0xe9b5dba5],
      [0x3956c25b, 0x59f111f1, 0x923f82a4, 0xab1c5ed5],
      [0xd807aa98, 0x12835b01, 0x243185be, 0x550c7dc3],
      [0x72be5d74, 0x80deb1fe, 0x9bdc06a7, 0xc19bf174],
      [0xe49b69c1, 0xefbe4786, 0x0fc19dc6, 0x240ca1cc],
      [0x2de92c6f, 0x4a7484aa, 0x5cb0a9dc, 0x76f988da],
      [0x983e5152, 0xa831c66d, 0xb00327c8, 0xbf597fc7],
      [0xc6e00bf3, 0xd5a79147, 0x06ca6351, 0x14292967],
      [0x27b70a85, 0x2e1b2138, 0x4d2c6dfc, 0x53380d13],
      [0x650a7354, 0x766a0abb, 0x81c2c92e, 0x92722c85],
      [0xa2bfe8a1, 0xa81a664b, 0xc24b8b70, 0xc76c51a3],
      [0xd192e819, 0xd6990624, 0xf40e3585, 0x106aa070],
      [0x19a4c116, 0x1e376c08, 0x2748774c, 0x34b0bcb5],
      [0x391c0cb3, 0x4ed8aa4a, 0x5b9cca4f, 0x682e6ff3],
      [0x748f82ee, 0x78a5636f, 0x84c87814, 0x8cc70208],
      [0x90befffa, 0xa4506ceb, 0xbef9a3f7, 0xc67178f2]]"

definition SHA256_S0 :: "u32 \<Rightarrow> u32" where "SHA256_S0 x = ror32 x 7 XOR ror32 x 18 XOR drop_bit 3 x"
definition SHA256_S1 :: "u32 \<Rightarrow> u32" where "SHA256_S1 x = ror32 x 17 XOR ror32 x 19 XOR drop_bit 10 x"
definition SHA256_E0 :: "u32 \<Rightarrow> u32" where "SHA256_E0 x = ror32 x 2 XOR ror32 x 13 XOR ror32 x 22"
definition SHA256_E1 :: "u32 \<Rightarrow> u32" where "SHA256_E1 x = ror32 x 6 XOR ror32 x 11 XOR ror32 x 25"
definition SHA256_CH :: "u32 \<Rightarrow> u32 \<Rightarrow> u32 \<Rightarrow> u32" where "SHA256_CH x y z = z XOR (x AND (y XOR z))"
definition SHA256_MAJ :: "u32 \<Rightarrow> u32 \<Rightarrow> u32 \<Rightarrow> u32" where "SHA256_MAJ x y z = (x AND y) OR (z AND (x OR y))"

type_synonym sha_words = "nat \<Rightarrow> u32"
type_synonym sha_regs = "u32 \<times> u32 \<times> u32 \<times> u32 \<times> u32 \<times> u32 \<times> u32 \<times> u32"

definition SHA256_LOAD :: "8 word list \<Rightarrow> nat \<Rightarrow> sha_words \<Rightarrow> sha_words option" where
  "SHA256_LOAD d c b = map_option (\<lambda>v. b(c := v)) (load_be32 d c)"

definition SHA256_BLEND :: "nat \<Rightarrow> sha_words \<Rightarrow> sha_words" where
  "SHA256_BLEND c b = b(c := SHA256_S1 (b (c - 2)) + b (c - 7) + SHA256_S0 (b (c - 15)) + b (c - 16))"

text \<open>The new values of the fourth and the eighth register.\<close>

definition SHA256_ROUND :: "nat \<Rightarrow> sha_words \<Rightarrow> u32 \<Rightarrow> u32 \<Rightarrow> u32 \<Rightarrow> u32 \<Rightarrow> u32 \<Rightarrow> u32 \<Rightarrow> u32 \<Rightarrow> u32 \<Rightarrow> u32 \<times> u32" where
  "SHA256_ROUND c b A B C D E F G H =
     (let tmp1 = H + SHA256_E1 E + SHA256_CH E F G + sha256_k ! c + b c;
          tmp2 = SHA256_E0 A + SHA256_MAJ A B C
      in (D + tmp1, tmp1 + tmp2))"

definition sha256_rounds :: "nat \<Rightarrow> sha_words \<Rightarrow> sha_regs \<Rightarrow> sha_regs" where
  "sha256_rounds cnt b = (\<lambda>(A, B, C, D, E, F, G, H).
     let (D, H) = SHA256_ROUND (cnt + 0) b A B C D E F G H;
         (C, G) = SHA256_ROUND (cnt + 1) b H A B C D E F G;
         (B, F) = SHA256_ROUND (cnt + 2) b G H A B C D E F;
         (A, E) = SHA256_ROUND (cnt + 3) b F G H A B C D E;
         (H, D) = SHA256_ROUND (cnt + 4) b E F G H A B C D;
         (G, C) = SHA256_ROUND (cnt + 5) b D E F G H A B C;
         (F, B) = SHA256_ROUND (cnt + 6) b C D E F G H A B;
         (E, A) = SHA256_ROUND (cnt + 7) b B C D E F G H A
     in (A, B, C, D, E, F, G, H))"

text \<open>The loads in the order of the unrolled loop.\<close>

fun sha256_load :: "8 word list \<Rightarrow> nat list \<Rightarrow> sha_words \<Rightarrow> sha_words option" where
  "sha256_load data [] buff = Some buff"
| "sha256_load data (c # cs) buff = Option.bind (SHA256_LOAD data c buff) (sha256_load data cs)"

fun regs_add :: "sha_regs \<Rightarrow> sha_regs \<Rightarrow> sha_regs" where
  "regs_add (a, b, c, d, e, f, g, h) (A, B, C, D, E, F, G, H) =
     (a + A, b + B, c + C, d + D, e + E, f + F, g + G, h + H)"

definition sha256_transform :: "sha_regs \<Rightarrow> sha_words \<Rightarrow> 8 word list \<Rightarrow> (sha_regs \<times> sha_words) option" where
  "sha256_transform digest buff data =
     map_option (\<lambda>buff.
        let buff = fold SHA256_BLEND [16..<64] buff;
            regs = fold (\<lambda>k. sha256_rounds (8 * k) buff) [0..<8] digest
        in (regs_add digest regs, buff))
       (sha256_load data [0..<16] buff)"

definition sha256_init :: sha_regs where
  "sha256_init = (0x6a09e667, 0xbb67ae85, 0x3c6ef372, 0xa54ff53a, 0x510e527f, 0x9b05688c, 0x1f83d9ab, 0x5be0cd19)"

definition sha224_init :: sha_regs where
  "sha224_init = (0xc1059ed8, 0x367cd507, 0x3070dd17, 0xf70e5939, 0xffc00b31, 0x68581511, 0x64f98fa7, 0xbefa4fa4)"

text \<open>SHA-1. The sixteen words of the work buffer are used in a circle.\<close>

definition sha1_word :: "nat \<Rightarrow> sha_words \<Rightarrow> u32" where "sha1_word c b = b (c mod 16)"

definition SHA1_MIX :: "nat \<Rightarrow> sha_words \<Rightarrow> 8 word list \<Rightarrow> u32 option" where
  "SHA1_MIX c b d = Some (rol32 (sha1_word (c + 13) b XOR sha1_word (c + 8) b XOR sha1_word (c + 2) b XOR sha1_word c b) 1)"

definition SHA1_SRC :: "nat \<Rightarrow> sha_words \<Rightarrow> 8 word list \<Rightarrow> u32 option" where
  "SHA1_SRC c b d = load_be32 d c"

type_synonym sha1_regs = "u32 \<times> u32 \<times> u32 \<times> u32 \<times> u32"
type_synonym sha1_source = "nat \<Rightarrow> sha_words \<Rightarrow> 8 word list \<Rightarrow> u32 option"

definition SHA1_ROUND :: "sha1_source \<Rightarrow> u32 \<Rightarrow> (u32 \<Rightarrow> u32 \<Rightarrow> u32 \<Rightarrow> u32) \<Rightarrow> nat \<Rightarrow> 8 word list \<Rightarrow> sha_words \<times> sha1_regs \<Rightarrow>
    (sha_words \<times> sha1_regs) option" where
  "SHA1_ROUND func con exp c data = (\<lambda>(buff, A, B, C, D, E).
     map_option (\<lambda>v.
        let buff = buff(c mod 16 := v);
            E = E + (v + rol32 A 5 + exp B C D + con);
            B = ror32 B 2
        in (buff, E, A, B, C, D)) (func c buff data))"

definition SHA1_00_15 where "SHA1_00_15 = SHA1_ROUND SHA1_MIX 0x5a827999 (\<lambda>B C D. ((C XOR D) AND B) XOR D)"
definition SHA1_16_19 where "SHA1_16_19 = SHA1_ROUND SHA1_SRC 0x5a827999 (\<lambda>B C D. ((C XOR D) AND B) XOR D)"
definition SHA1_20_39 where "SHA1_20_39 = SHA1_ROUND SHA1_SRC 0x6ed9eba1 (\<lambda>B C D. B XOR C XOR D)"
definition SHA1_40_59 where "SHA1_40_59 = SHA1_ROUND SHA1_SRC 0x8f1bbcdc (\<lambda>B C D. (B AND C) + (D AND (B XOR C)))"
definition SHA1_60_79 where "SHA1_60_79 = SHA1_ROUND SHA1_SRC 0xca62c1d6 (\<lambda>B C D. B XOR C XOR D)"

fun sha1_loop :: "(nat \<Rightarrow> 8 word list \<Rightarrow> sha_words \<times> sha1_regs \<Rightarrow> (sha_words \<times> sha1_regs) option) \<Rightarrow> nat list \<Rightarrow> 8 word list \<Rightarrow>
    sha_words \<times> sha1_regs \<Rightarrow> (sha_words \<times> sha1_regs) option" where
  "sha1_loop round [] data s = Some s"
| "sha1_loop round (c # cs) data s = Option.bind (round c data s) (sha1_loop round cs data)"

definition sha1_transform :: "sha1_regs \<Rightarrow> sha_words \<Rightarrow> 8 word list \<Rightarrow> (sha1_regs \<times> sha_words) option" where
  "sha1_transform digest buff data =
     Option.bind (sha1_loop SHA1_00_15 [0..<16] data (buff, digest)) (\<lambda>s.
     Option.bind (sha1_loop SHA1_16_19 [16..<20] data s) (\<lambda>s.
     Option.bind (sha1_loop SHA1_20_39 [20..<40] data s) (\<lambda>s.
     Option.bind (sha1_loop SHA1_40_59 [40..<60] data s) (\<lambda>s.
     map_option (\<lambda>(buff, A, B, C, D, E). case digest of (a, b, c, d, e) \<Rightarrow> ((a + A, b + B, c + C, d + D, e + E), buff))
       (sha1_loop SHA1_60_79 [60..<80] data s)))))"

definition sha1_init :: sha1_regs where
  "sha1_init = (0x67452301, 0xefcdab89, 0x98badcfe, 0x10325476, 0xc3d2e1f0)"

section \<open>The standard\<close>

text \<open>FIPS 180-4: the schedule and the step on the eight working variables.\<close>

definition fips_ch :: "u32 \<Rightarrow> u32 \<Rightarrow> u32 \<Rightarrow> u32" where "fips_ch x y z = (x AND y) XOR (NOT x AND z)"
definition fips_maj :: "u32 \<Rightarrow> u32 \<Rightarrow> u32 \<Rightarrow> u32" where "fips_maj x y z = (x AND y) XOR (x AND z) XOR (y AND z)"

fun fips_schedule :: "sha_words \<Rightarrow> nat \<Rightarrow> u32" where
  "fips_schedule m t =
     (if t < 16 then m t
      else (word_rotr 17 (fips_schedule m (t - 2)) XOR word_rotr 19 (fips_schedule m (t - 2)) XOR
              drop_bit 10 (fips_schedule m (t - 2))) + fips_schedule m (t - 7) +
           (word_rotr 7 (fips_schedule m (t - 15)) XOR word_rotr 18 (fips_schedule m (t - 15)) XOR
              drop_bit 3 (fips_schedule m (t - 15))) + fips_schedule m (t - 16))"

declare fips_schedule.simps [simp del]

fun fips_step :: "u32 \<Rightarrow> u32 \<Rightarrow> sha_regs \<Rightarrow> sha_regs" where
  "fips_step k w (a, b, c, d, e, f, g, h) =
     (let t1 = h + (word_rotr 6 e XOR word_rotr 11 e XOR word_rotr 25 e) + fips_ch e f g + k + w;
          t2 = (word_rotr 2 a XOR word_rotr 13 a XOR word_rotr 22 a) + fips_maj a b c
      in (t1 + t2, a, b, c, d + t1, e, f, g))"

definition fips_compress :: "(nat \<Rightarrow> u32) \<Rightarrow> sha_regs \<Rightarrow> sha_words \<Rightarrow> sha_regs" where
  "fips_compress k regs m = regs_add regs (fold (\<lambda>t. fips_step (k t) (fips_schedule m t)) [0..<64] regs)"

definition first_primes :: "nat list" where
  "first_primes =
    [2, 3, 5, 7, 11, 13, 17, 19, 23, 29, 31, 37, 41, 43, 47, 53, 59, 61, 67, 71, 73, 79, 83, 89, 97, 101,
     103, 107, 109, 113, 127, 131, 137, 139, 149, 151, 157, 163, 167, 173, 179, 181, 191, 193, 197, 199,
     211, 223, 227, 229, 233, 239, 241, 251, 257, 263, 269, 271, 277, 281, 283, 293, 307, 311]"

text \<open>The first 32 bits of the fractional part of the cube root, or of the square root.\<close>

definition is_cube_fraction :: "nat \<Rightarrow> u32 \<Rightarrow> bool" where
  "is_cube_fraction p k \<longleftrightarrow> (\<exists>c. let r = c * 2 ^ 32 + unat k in r * r * r \<le> p * 2 ^ 96 \<and> p * 2 ^ 96 < (r + 1) * (r + 1) * (r + 1))"

definition is_square_fraction :: "nat \<Rightarrow> u32 \<Rightarrow> bool" where
  "is_square_fraction p k \<longleftrightarrow> (\<exists>c. is_floor_root (p * 2 ^ 64) (c * 2 ^ 32 + unat k))"

section \<open>The block function is the standard one\<close>

lemma ror32_rotr:
  assumes "n \<in> {2, 6, 7, 11, 13, 17, 18, 19, 22, 25}"
  shows "ror32 x n = word_rotr n x"
proof (rule bit_word_eqI)
  fix j assume "j < LENGTH(32)"
  then have j: "j < 32" by simp
  have m: "unat ((- of_nat n :: u32) AND 31) = 32 - n" "n mod 32 = n" "0 < n" "n < 32" using assms by auto
  have "bit (ror32 x n) j \<longleftrightarrow> bit x (n + j) \<or> (32 - n \<le> j \<and> bit x (j - (32 - n)))"
    using j m by (simp add: ror32_def bit_simps)
  also have "\<dots> \<longleftrightarrow> bit x ((n + j) mod 32)"
    using j m(3,4) bit_imp_le_length [of x "n + j"] by (cases "n + j < 32") (auto simp: mod_if add.commute)
  finally show "bit (ror32 x n) j = bit (word_rotr n x) j" using j by (simp add: bit_word_rotr_iff add.commute)
qed

lemma SHA256_CH_fips: "SHA256_CH x y z = fips_ch x y z"
  by (rule bit_word_eqI) (auto simp: SHA256_CH_def fips_ch_def bit_simps)

lemma SHA256_MAJ_fips: "SHA256_MAJ x y z = fips_maj x y z"
  by (rule bit_word_eqI) (auto simp: SHA256_MAJ_def fips_maj_def bit_simps)

lemma SHA256_ROUND_fips:
  "SHA256_ROUND c b A B C D E F G H = (D', H') \<Longrightarrow>
    fips_step (sha256_k ! c) (b c) (A, B, C, D, E, F, G, H) = (H', A, B, C, D', E, F, G)"
  by (simp add: SHA256_ROUND_def SHA256_CH_fips SHA256_MAJ_fips SHA256_E0_def SHA256_E1_def ror32_rotr Let_def)

lemma sha256_rounds_fips:
  "sha256_rounds cnt b regs = fold (\<lambda>t. fips_step (sha256_k ! t) (b t)) [cnt..<cnt + 8] regs"
proof -
  obtain A B C D E F G H where regs: "regs = (A, B, C, D, E, F, G, H)" by (cases regs) auto
  have u: "[cnt..<cnt + 8] = [cnt + 0, cnt + 1, cnt + 2, cnt + 3, cnt + 4, cnt + 5, cnt + 6, cnt + 7]"
    by (simp add: upt_rec)
  show ?thesis
    unfolding regs u sha256_rounds_def
    by (simp only: prod.case Let_def fold_Cons fold_Nil comp_apply id_apply split: prod.split)
      (auto dest!: SHA256_ROUND_fips)
qed


lemma fold_rounds:
  "fold (\<lambda>k. sha256_rounds (8 * k) b) [0..<n] regs = fold (\<lambda>t. fips_step (sha256_k ! t) (b t)) [0..<8 * n] regs"
proof (induction n)
  case (Suc n)
  have "[0..<8 * Suc n] = [0..<8 * n] @ [8 * n..<8 * n + 8]" using upt_add_eq_append [of 0 "8 * n" 8] by (simp add: add.commute)
  then show ?case using Suc by (simp add: sha256_rounds_fips)
qed simp

lemma SHA256_BLEND_at:
  "SHA256_BLEND c b c = (word_rotr 17 (b (c - 2)) XOR word_rotr 19 (b (c - 2)) XOR drop_bit 10 (b (c - 2))) + b (c - 7) +
     (word_rotr 7 (b (c - 15)) XOR word_rotr 18 (b (c - 15)) XOR drop_bit 3 (b (c - 15))) + b (c - 16)"
  "j \<noteq> c \<Longrightarrow> SHA256_BLEND c b j = b j"
  by (simp_all add: SHA256_BLEND_def SHA256_S0_def SHA256_S1_def ror32_rotr)

lemma fold_blend:
  assumes "\<forall>t < 16. b t = m t" "16 \<le> n"
  shows "t < n \<Longrightarrow> fold SHA256_BLEND [16..<n] b t = fips_schedule m t"
  using assms(2)
proof (induction n arbitrary: t rule: nat_induct_at_least)
  case base
  then show ?case using assms(1) by (simp add: fips_schedule.simps [of m t])
next
  case (Suc n)
  have w: "fold SHA256_BLEND [16..<n] b j = fips_schedule m j" if "j < n" for j using Suc that by blast
  show ?case
  proof (cases "t = n")
    case True
    then show ?thesis using Suc(1) w
      by (simp add: SHA256_BLEND_at fips_schedule.simps [of m n])
  next
    case False
    then show ?thesis using Suc by (simp add: SHA256_BLEND_at)
  qed
qed

lemma sha256_load_words:
  assumes "length data = 64" "n \<le> 16"
  shows "\<exists>b. sha256_load data [k..<n] buff = Some b \<and>
    (\<forall>t. b t = (if k \<le> t \<and> t < n then the (load_be32 data t) else buff t))"
  using assms(2)
proof (induction "n - k" arbitrary: k buff)
  case 0
  then show ?case by auto
next
  case (Suc d)
  then have k: "k < n" by simp
  then obtain w where w: "load_be32 data k = Some w" using assms(1) Suc.prems by (simp add: load_be32_def)
  have "d = n - Suc k" using Suc(2) by simp
  from Suc(1) [OF this Suc.prems, of "buff(k := w)"] show ?case
    using k w by (auto simp: upt_conv_Cons SHA256_LOAD_def not_less_eq_eq less_Suc_eq_le)
qed

definition block_words :: "8 word list \<Rightarrow> sha_words" where
  "block_words data t = the (load_be32 data t)"

lemma sha256_transform_fips:
  assumes "length data = 64"
  shows "\<exists>b. sha256_transform digest buff data = Some (fips_compress (\<lambda>t. sha256_k ! t) digest (block_words data), b)"
proof -
  obtain b where b: "sha256_load data [0..<16] buff = Some b" "\<forall>t < 16. b t = block_words data t"
    using sha256_load_words [OF assms order_refl, of 0 buff] by (auto simp: block_words_def)
  define w where "w = fold SHA256_BLEND [16..<64] b"
  have w: "w t = fips_schedule (block_words data) t" if "t < 64" for t
    unfolding w_def by (rule fold_blend [OF b(2) _ that]) simp
  have "fold (\<lambda>t. fips_step (sha256_k ! t) (w t)) [0..<64] digest =
      fold (\<lambda>t. fips_step (sha256_k ! t) (fips_schedule (block_words data) t)) [0..<64] digest"
    by (rule fold_cong [OF refl refl]) (simp only: set_upt atLeastLessThan_iff w)
  moreover have "fold (\<lambda>k. sha256_rounds (8 * k) w) [0..<8] digest = fold (\<lambda>t. fips_step (sha256_k ! t) (w t)) [0..<64] digest"
    using fold_rounds [of w 8 digest] by (simp only: numeral_times_numeral semiring_norm)
  ultimately show ?thesis
    by (simp only: sha256_transform_def b(1) fips_compress_def Let_def option.map w_def [symmetric]) blast
qed


section \<open>The constants\<close>

definition cube_parts :: "nat list" where
  "cube_parts = [1, 1, 1, 1, 2, 2, 2, 2, 2, 3, 3, 3, 3, 3, 3, 3, 3, 3, 4, 4, 4, 4, 4, 4, 4, 4, 4, 4, 4, 4, 5, 5, 5, 5, 5, 5, 5, 5, 5, 5, 5, 5, 5, 5, 5, 5, 5, 6, 6, 6, 6, 6, 6, 6, 6, 6, 6, 6, 6, 6, 6, 6, 6, 6]"

text \<open>The integer parts of the cube roots, found once.\<close>

lemma list_all2_cube_fractions:
  assumes "length ps = length ks" "length cs = length ks"
    "list_all (\<lambda>((p, k), c). let r = c * 2 ^ 32 + unat k in r * r * r \<le> p * 2 ^ 96 \<and> p * 2 ^ 96 < (r + 1) * (r + 1) * (r + 1))
      (zip (zip ps ks) cs)"
  shows "list_all2 is_cube_fraction ps ks"
  using assms unfolding list_all_length is_cube_fraction_def
  by (auto simp: list_all2_conv_all_nth Let_def)

lemma sha256_constants: "list_all2 is_cube_fraction first_primes sha256_k"
  by (rule list_all2_cube_fractions [of _ _ cube_parts])
    (simp_all add: first_primes_def sha256_k_def cube_parts_def)

lemma is_prime_small:
  assumes "1 < p" "p < 324" "list_all (\<lambda>d. p mod d = 0 \<longrightarrow> d = p) [2..<18]"
  shows "is_prime p"
  unfolding is_prime_def
proof (intro conjI allI impI)
  show "1 < p" by (rule assms(1))
  have small: "d = p" if "d dvd p" "2 \<le> d" "d < 18" for d
  proof -
    have "\<forall>d \<in> set [2..<18]. p mod d = 0 \<longrightarrow> d = p" by (rule assms(3) [unfolded list_all_iff])
    moreover have "d \<in> set [2..<18]" using that by (simp only: set_upt atLeastLessThan_iff)
    ultimately have "p mod d = 0 \<longrightarrow> d = p" by (rule bspec)
    then show ?thesis using that(1) by (simp only: dvd_eq_mod_eq_0)
  qed
  fix d assume "d dvd p"
  then obtain e where e: "p = d * e" by blast
  then have pos: "0 < d" "0 < e" using assms(1) by (auto intro: gr0I)
  have "d < 18 \<or> e < 18"
  proof (rule ccontr)
    assume "\<not> ?thesis"
    then have "18 * 18 \<le> d * e" by (intro mult_le_mono) auto
    then show False using assms(2) e by simp
  qed
  then show "d = 1 \<or> d = p"
  proof
    assume "d < 18"
    then show ?thesis using small [of d] \<open>d dvd p\<close> pos(1) by (cases "d = 1") auto
  next
    assume "e < 18"
    moreover have "e dvd p" using e by simp
    ultimately have "e = 1 \<or> e = p" using small [of e] pos(2) by (cases "e = 1") auto
    then show ?thesis using e pos by auto
  qed
qed

lemma first_primes_prime: "list_all is_prime first_primes \<and> sorted_wrt (<) first_primes \<and> length first_primes = 64"
proof (intro conjI)
  have "list_all (\<lambda>p. 1 < p \<and> p < 324 \<and> list_all (\<lambda>d. p mod d = 0 \<longrightarrow> d = p) [2..<18]) first_primes"
    by (simp add: first_primes_def)
  then show "list_all is_prime first_primes" using is_prime_small by (auto simp: list_all_iff)
qed (simp_all add: first_primes_def sorted_wrt2 sorted_wrt1 del: sorted_wrt.simps(2))

lemma is_square_fraction_check:
  "is_floor_root (p * 2 ^ 64) (c * 2 ^ 32 + unat k) \<Longrightarrow> is_square_fraction p k"
  unfolding is_square_fraction_def by blast

fun regs_list :: "sha_regs \<Rightarrow> u32 list" where
  "regs_list (a, b, c, d, e, f, g, h) = [a, b, c, d, e, f, g, h]"

lemma sha256_init_squares: "list_all2 is_square_fraction (take 8 first_primes) (regs_list sha256_init)"
proof -
  note c1 = is_square_fraction_check [of _ 1] and c2 = is_square_fraction_check [of _ 2]
    and c3 = is_square_fraction_check [of _ 3] and c4 = is_square_fraction_check [of _ 4]
  have "is_square_fraction 2 0x6a09e667" "is_square_fraction 3 0xbb67ae85" by (rule c1, simp add: is_floor_root_def)+
  moreover have "is_square_fraction 5 0x3c6ef372" "is_square_fraction 7 0xa54ff53a" by (rule c2, simp add: is_floor_root_def)+
  moreover have "is_square_fraction 11 0x510e527f" "is_square_fraction 13 0x9b05688c" by (rule c3, simp add: is_floor_root_def)+
  moreover have "is_square_fraction 17 0x1f83d9ab" "is_square_fraction 19 0x5be0cd19" by (rule c4, simp add: is_floor_root_def)+
  ultimately show ?thesis by (simp add: first_primes_def sha256_init_def)
qed

text \<open>
  C26: The block function of SHA-256 takes exactly one block of 64 bytes and is the compression function of the standard
  on it: the unrolled rounds with renamed registers are the steps of the standard on shifted ones, and the work buffer
  is the message schedule. The round constants and the initial digest are the fractional parts of the cube roots and
  square roots of 64 and of eight primes in order.
\<close>

theorem sha256_is_fips:
  "(length data = 64 \<longrightarrow> (\<exists>b. sha256_transform digest buff data =
      Some (fips_compress (\<lambda>t. sha256_k ! t) digest (block_words data), b))) \<and>
   list_all2 is_cube_fraction first_primes sha256_k \<and>
   list_all2 is_square_fraction (take 8 first_primes) (regs_list sha256_init) \<and>
   list_all is_prime first_primes \<and> sorted_wrt (<) first_primes \<and> length first_primes = 64"
  using sha256_transform_fips sha256_constants sha256_init_squares first_primes_prime by blast

theorem sha256_is_fips_witness:
  "\<exists>b. sha256_transform sha256_init (\<lambda>_. 0) (replicate 64 0) =
    Some (fips_compress (\<lambda>t. sha256_k ! t) sha256_init (block_words (replicate 64 0)), b)"
  using sha256_is_fips [of "replicate 64 0" sha256_init "\<lambda>_. 0"] by (simp only: length_replicate simp_thms)

section \<open>SHA-1\<close>

text \<open>
  The first sixteen rounds mix the work buffer, which nobody has filled, and the others load the words 16 to 79.
\<close>

lemma sha1_loop_cong:
  assumes "\<And>c s. c \<in> set cs \<Longrightarrow> round c data s = round c data' s"
  shows "sha1_loop round cs data s = sha1_loop round cs data' s"
  using assms by (induction cs arbitrary: s) (auto split: bind_splits)

lemma sha1_ignores_block:
  assumes "length data = length data'" "drop 64 data = drop 64 data'"
  shows "sha1_transform digest buff data = sha1_transform digest buff data'"
proof -
  have ix: "data ! i = data' ! i" if "64 \<le> i" "i < length data" for i
    using assms that nth_drop [of 64 data "i - 64"] nth_drop [of 64 data' "i - 64"] by simp
  have ld: "load_be32 data c = load_be32 data' c" if "16 \<le> c" for c
    using that ix assms(1) by (auto simp: load_be32_def)
  have mix: "sha1_loop SHA1_00_15 [0..<16] data s = sha1_loop SHA1_00_15 [0..<16] data' s" for s
    by (rule sha1_loop_cong) (simp add: SHA1_00_15_def SHA1_ROUND_def SHA1_MIX_def)
  have rest: "sha1_loop (SHA1_ROUND SHA1_SRC k f) [m..<n] data s = sha1_loop (SHA1_ROUND SHA1_SRC k f) [m..<n] data' s"
    if "16 \<le> m" for k f m n s
    by (rule sha1_loop_cong) (use that in \<open>simp add: SHA1_ROUND_def SHA1_SRC_def ld\<close>)
  show ?thesis
    unfolding sha1_transform_def mix SHA1_16_19_def SHA1_20_39_def SHA1_40_59_def SHA1_60_79_def
    by (simp only: rest order_refl numeral_le_iff semiring_norm)
qed

lemma sha1_overruns_block:
  assumes "length data = 64"
  shows "sha1_transform digest buff data = None"
proof -
  have "SHA1_16_19 16 data s = None" for s
    using assms by (cases s) (simp add: SHA1_16_19_def SHA1_ROUND_def SHA1_SRC_def load_be32_def)
  then have "sha1_loop SHA1_16_19 [16..<20] data s = None" for s by (simp add: upt_rec)
  then show ?thesis by (simp add: sha1_transform_def)
qed

end
