(* ===== verification/Cipher.thy ===== *)
theory Cipher
  imports Hash
begin

text \<open>
  The stream ciphers of \<^verbatim>\<open>lib/crypto/arc4.c\<close> and \<^verbatim>\<open>lib/crypto/chacha.c\<close>. The box of ARC4 has an entry for every byte, so it
  is a function on bytes; the block of ChaCha is an array of 16 words.
\<close>

unbundle bit_operations_syntax

section \<open>ARC4\<close>

record arc4_context =
  box :: "byte \<Rightarrow> byte"
  proa :: byte
  prob :: byte

text \<open>The body of the loop and its first run before it, for at least one byte; the next index is looked up ahead.\<close>

fun arc4_loop :: "(byte \<Rightarrow> byte) \<Rightarrow> byte \<Rightarrow> byte \<Rightarrow> byte \<Rightarrow> byte \<Rightarrow> byte list \<Rightarrow> (byte \<Rightarrow> byte) \<times> byte \<times> byte \<times> byte list" where
  "arc4_loop bx pa pb vx vy [] = (bx, pa, pb, [])"
| "arc4_loop bx pa pb vx vy (d # data) =
     (let bx = bx(pb := vx);
          vx = vx + vy;
          bx = bx(pa := vy);
          pa = pa + 1;
          tx = bx pa;
          tb = pb + tx;
          ty = bx tb;
          out = d XOR bx vx
      in if data = [] then (bx, pa, pb, [out])
         else let (bx, pa, pb, outs) = arc4_loop bx pa tb tx ty data in (bx, pa, pb, out # outs))"

definition arc4_transform :: "arc4_context \<Rightarrow> byte list \<Rightarrow> arc4_context \<times> byte list" where
  "arc4_transform ctx data =
     (if data = [] then (ctx, [])
      else
        let pa = proa ctx; pb = prob ctx;
            vx = box ctx pa;
            pb = pb + vx;
            vy = box ctx pb;
            (bx, pa, pb, outs) = arc4_loop (box ctx) pa pb vx vy data
        in (ctx\<lparr>box := bx, proa := pa, prob := pb\<rparr>, outs))"

text \<open>The index \<open>loop\<close> is used before it is set: its first value is an argument.\<close>

fun arc4_mix :: "byte list \<Rightarrow> nat list \<Rightarrow> (byte \<Rightarrow> byte) \<Rightarrow> byte \<Rightarrow> (byte \<Rightarrow> byte)" where
  "arc4_mix key [] bx loop = bx"
| "arc4_mix key (k # ks) bx loop =
     (let v = bx (of_nat k);
          loop = loop + (key ! (k mod length key) + v);
          bx = bx(of_nat k := bx loop);
          bx = bx(loop := v)
      in arc4_mix key ks bx loop)"

definition arc4_setkey :: "byte \<Rightarrow> byte list \<Rightarrow> arc4_context \<Rightarrow> arc4_context" where
  "arc4_setkey garbage key ctx =
     (if key = [] then ctx
      else ctx\<lparr>proa := 1, prob := 0, box := arc4_mix key [0..<256] (\<lambda>k. k) garbage\<rparr>)"

text \<open>The generator as it is published: the indices, the swap, and the byte of the stream.\<close>

type_synonym rc4_state = "(byte \<Rightarrow> byte) \<times> byte \<times> byte"

fun rc4_next :: "rc4_state \<Rightarrow> rc4_state" where
  "rc4_next (s, i, j) = (let i = i + 1; j = j + s i in (s(i := s j, j := s i), i, j))"

fun rc4_byte :: "rc4_state \<Rightarrow> byte" where
  "rc4_byte (s, i, j) = s (s i + s j)"

definition rc4_stream :: "rc4_state \<Rightarrow> nat \<Rightarrow> byte list" where
  "rc4_stream st n = map (\<lambda>k. rc4_byte ((rc4_next ^^ Suc k) st)) [0..<n]"

definition rc4_of :: "arc4_context \<Rightarrow> rc4_state" where
  "rc4_of ctx = (box ctx, proa ctx - 1, prob ctx)"

declare rc4_next.simps [simp del] rc4_byte.simps [simp del] arc4_loop.simps(2) [simp del]

lemma rc4_stream_0: "rc4_stream st 0 = []"
  by (simp add: rc4_stream_def)

lemma rc4_stream_Suc: "rc4_stream st (Suc n) = rc4_byte (rc4_next st) # rc4_stream (rc4_next st) n"
  by (simp add: rc4_stream_def upt_conv_Cons map_Suc_upt [symmetric] funpow_swap1 comp_def del: upt_Suc)

lemma arc4_loop_rc4:
  assumes "data \<noteq> []" "vx = bx pa" "vy = bx pb"
    "arc4_loop bx pa pb vx vy data = (bx', pa', pb', outs)"
  shows "outs = map2 (XOR) data (rc4_stream (bx, pa - 1, pb - vx) (length data)) \<and>
    (bx', pa' - 1, pb') = (rc4_next ^^ length data) (bx, pa - 1, pb - vx)"
  using assms
proof (induction data arbitrary: bx pa pb vx vy outs)
  case (Cons d data)
  define nb where "nb = bx(pb := vx, pa := vy)"
  have nb: "nb = bx(pa := bx pb, pb := bx pa)" using Cons.prems(2,3) by (auto simp: nb_def)
  have nx: "rc4_next (bx, pa - 1, pb - vx) = (nb, pa, pb)" using Cons.prems(2) by (simp add: nb rc4_next.simps Let_def)
  have ob: "rc4_byte (nb, pa, pb) = nb (vx + vy)"
    using Cons.prems(2,3) by (cases "pa = pb") (auto simp: nb rc4_byte.simps add.commute)
  have st: "arc4_loop bx pa pb vx vy (d # data) =
     (if data = [] then (nb, pa + 1, pb, [d XOR nb (vx + vy)])
      else let (b, i, j, outs) = arc4_loop nb (pa + 1) (pb + nb (pa + 1)) (nb (pa + 1)) (nb (pb + nb (pa + 1))) data
        in (b, i, j, (d XOR nb (vx + vy)) # outs))"
    by (simp only: arc4_loop.simps Let_def nb_def)
  show ?case
  proof (cases "data = []")
    case True
    then show ?thesis using Cons.prems(4) nx ob st by (auto simp: rc4_stream_Suc rc4_stream_0)
  next
    case False
    obtain outs' where o: "arc4_loop nb (pa + 1) (pb + nb (pa + 1)) (nb (pa + 1)) (nb (pb + nb (pa + 1))) data = (bx', pa', pb', outs')"
      "outs = (d XOR nb (vx + vy)) # outs'"
      using Cons.prems(4) False unfolding st by (auto simp: Let_def split: prod.splits)
    from Cons.IH [OF False refl refl o(1)] show ?thesis
      using o(2) nx ob by (simp add: rc4_stream_Suc funpow_swap1)
  qed
qed simp

lemma arc4_transform_rc4:
  "snd (arc4_transform ctx data) = map2 (XOR) data (rc4_stream (rc4_of ctx) (length data))"
  "rc4_of (fst (arc4_transform ctx data)) = (rc4_next ^^ length data) (rc4_of ctx)"
proof -
  obtain bx pa pb outs where l: "arc4_loop (box ctx) (proa ctx) (prob ctx + box ctx (proa ctx)) (box ctx (proa ctx))
      (box ctx (prob ctx + box ctx (proa ctx))) data = (bx, pa, pb, outs)"
    by (metis prod_cases4)
  have "data \<noteq> [] \<Longrightarrow> outs = map2 (XOR) data (rc4_stream (rc4_of ctx) (length data)) \<and>
      (bx, pa - 1, pb) = (rc4_next ^^ length data) (rc4_of ctx)"
    using arc4_loop_rc4 [OF _ refl refl l] by (simp add: rc4_of_def)
  then show "snd (arc4_transform ctx data) = map2 (XOR) data (rc4_stream (rc4_of ctx) (length data))"
    "rc4_of (fst (arc4_transform ctx data)) = (rc4_next ^^ length data) (rc4_of ctx)"
    by (auto simp: arc4_transform_def Let_def l rc4_of_def)
qed


lemma rc4_stream_add: "rc4_stream st (m + n) = rc4_stream st m @ rc4_stream ((rc4_next ^^ m) st) n"
  by (induction m arbitrary: st) (simp_all add: rc4_stream_0 rc4_stream_Suc funpow_swap1)

lemma length_rc4_stream [simp]: "length (rc4_stream st n) = n"
  by (simp add: rc4_stream_def)

lemma rc4_of_inject: "rc4_of c = rc4_of d \<Longrightarrow> c = d"
  by (cases c; cases d) (simp add: rc4_of_def)

lemma arc4_transform_append:
  "arc4_transform ctx (xs @ ys) =
    (let (ctx, outs) = arc4_transform ctx xs; (ctx, outs') = arc4_transform ctx ys in (ctx, outs @ outs'))"
proof -
  let ?c = "fst (arc4_transform ctx xs)"
  have "snd (arc4_transform ctx (xs @ ys)) = snd (arc4_transform ctx xs) @ snd (arc4_transform ?c ys)"
    by (simp add: arc4_transform_rc4 rc4_stream_add)
  moreover have "fst (arc4_transform ctx (xs @ ys)) = fst (arc4_transform ?c ys)"
    by (rule rc4_of_inject) (simp add: arc4_transform_rc4 add.commute [of "length xs"] funpow_add)
  ultimately show ?thesis by (simp add: Let_def case_prod_beta prod_eq_iff)
qed

lemma arc4_transform_again: "snd (arc4_transform ctx (snd (arc4_transform ctx data))) = data"
  by (rule nth_equalityI) (simp_all add: arc4_transform_rc4 xor.assoc)

lemma bij_exchange:
  assumes "bij s"
  shows "bij (s(i := s j, j := s i))"
proof -
  define t where "t = (\<lambda>x. if x = i then j else if x = j then i else x)"
  have "t \<circ> t = id" by (auto simp: t_def)
  then have "bij t" by (rule o_bij) (rule \<open>t \<circ> t = id\<close>)
  moreover have "s(i := s j, j := s i) = s \<circ> t" by (auto simp: t_def)
  ultimately show ?thesis using assms by (simp add: bij_comp)
qed

lemma rc4_next_bij: "bij (fst st) \<Longrightarrow> bij (fst ((rc4_next ^^ n) st))"
proof (induction n)
  case (Suc n)
  obtain s i j where st: "(rc4_next ^^ n) st = (s, i, j)" by (cases "(rc4_next ^^ n) st") auto
  have "fst ((rc4_next ^^ Suc n) st) = s(i + 1 := s (j + s (i + 1)), j + s (i + 1) := s (i + 1))"
    by (simp only: funpow.simps comp_apply st rc4_next.simps Let_def fst_conv)
  moreover have "bij s" using Suc st by simp
  ultimately show ?case by (simp only: bij_exchange)
qed simp

lemma arc4_mix_bij: "bij bx \<Longrightarrow> bij (arc4_mix key ks bx loop)"
proof (induction ks arbitrary: bx loop)
  case (Cons k ks)
  define j where "j = loop + (key ! (k mod length key) + bx (of_nat k))"
  have "arc4_mix key (k # ks) bx loop = arc4_mix key ks (bx(of_nat k := bx j, j := bx (of_nat k))) j"
    by (simp add: Let_def j_def)
  moreover have "bij (arc4_mix key ks (bx(of_nat k := bx j, j := bx (of_nat k))) j)"
    by (intro Cons.IH bij_exchange Cons.prems)
  ultimately show ?case by (simp only:)
qed simp

text \<open>
  C27: The cipher is the published generator: the bytes that come out are those that go in combined with its stream, in
  one call or in several; the same operation with the same state gives the bytes back; and the box stays the
  permutation that the key set up, whatever the index started from.
\<close>

theorem arc4_stream_cipher:
  "snd (arc4_transform ctx data) = map2 (XOR) data (rc4_stream (rc4_of ctx) (length data)) \<and>
   arc4_transform ctx (data @ extra) =
     (let (ctx, outs) = arc4_transform ctx data; (ctx, outs') = arc4_transform ctx extra in (ctx, outs @ outs')) \<and>
   snd (arc4_transform ctx (snd (arc4_transform ctx data))) = data \<and>
   (bij (box ctx) \<longrightarrow> bij (box (fst (arc4_transform ctx data)))) \<and>
   (key \<noteq> [] \<longrightarrow> bij (box (arc4_setkey garbage key ctx)) \<and> snd (rc4_of (arc4_setkey garbage key ctx)) = (0, 0))"
proof -
  have "bij (box (fst (arc4_transform ctx data)))" if "bij (box ctx)"
    using arc4_transform_rc4(2) [of ctx data] rc4_next_bij [of "rc4_of ctx" "length data"] that
    by (metis fst_conv rc4_of_def)
  moreover have "bij (arc4_mix key [0..<256] (\<lambda>k. k) garbage)" by (rule arc4_mix_bij) (simp add: bij_def)
  ultimately show ?thesis
    using arc4_transform_rc4(1) [of ctx data] arc4_transform_append [of ctx data extra] arc4_transform_again [of ctx data]
    by (simp only: arc4_setkey_def rc4_of_def) simp
qed

theorem arc4_stream_cipher_witness:
  "bij (box (arc4_setkey 7 [1, 2, 3] \<lparr>box = \<lambda>_. 0, proa = 0, prob = 0\<rparr>)) \<and>
   bij (box (fst (arc4_transform (arc4_setkey 7 [1, 2, 3] \<lparr>box = \<lambda>_. 0, proa = 0, prob = 0\<rparr>) [4])))"
proof -
  have "bij (box (arc4_setkey 7 [1, 2, 3] \<lparr>box = \<lambda>_. 0, proa = 0, prob = 0\<rparr>))"
    using arc4_stream_cipher [where key = "[1, 2, 3]" and garbage = 7] by blast
  then show ?thesis
    using arc4_stream_cipher [of "arc4_setkey 7 [1, 2, 3] \<lparr>box = \<lambda>_. 0, proa = 0, prob = 0\<rparr>" "[4]"] by blast
qed

section \<open>ChaCha\<close>

text \<open>A line of the round: \<open>a += b; d = rol32(d ^ a, n)\<close> on the words of the block.\<close>

definition chacha_line :: "nat \<times> nat \<times> nat \<times> nat \<Rightarrow> u32 list \<Rightarrow> u32 list" where
  "chacha_line = (\<lambda>(a, b, d, n) blk.
     let blk = blk[a := blk ! a + blk ! b] in blk[d := rol32 (blk ! d XOR blk ! a) n])"

definition chacha_lines :: "(nat \<times> nat \<times> nat \<times> nat) list" where
  "chacha_lines =
    [(0, 4, 12, 16), (1, 5, 13, 16), (2, 6, 14, 16), (3, 7, 15, 16),
     (8, 12, 4, 12), (9, 13, 5, 12), (10, 14, 6, 12), (11, 15, 7, 12),
     (0, 4, 12, 8), (1, 5, 13, 8), (2, 6, 14, 8), (3, 7, 15, 8),
     (8, 12, 4, 7), (9, 13, 5, 7), (10, 14, 6, 7), (11, 15, 7, 7),
     (0, 5, 15, 16), (1, 6, 12, 16), (2, 7, 13, 16), (3, 4, 14, 16),
     (10, 15, 5, 12), (11, 12, 6, 12), (8, 13, 7, 12), (9, 14, 4, 12),
     (0, 5, 15, 8), (1, 6, 12, 8), (2, 7, 13, 8), (3, 4, 14, 8),
     (10, 15, 5, 7), (11, 12, 6, 7), (8, 13, 7, 7), (9, 14, 4, 7)]"

fun chacha_permute :: "nat \<Rightarrow> u32 list \<Rightarrow> u32 list" where
  "chacha_permute rounds blk =
     (if 0 < rounds then chacha_permute (rounds - 2) (fold chacha_line chacha_lines blk) else blk)"

declare chacha_permute.simps [simp del]

definition le32_bytes :: "u32 \<Rightarrow> byte list" where
  "le32_bytes v = [ucast v, ucast (drop_bit 8 v), ucast (drop_bit 16 v), ucast (drop_bit 24 v)]"

text \<open>The state of the caller and the 64 bytes of the stream. The increment hits the copy.\<close>

definition chacha_block :: "u32 list \<Rightarrow> nat \<Rightarrow> u32 list \<times> byte list" where
  "chacha_block st rounds =
     (let blk = chacha_permute rounds (take 16 st);
          stream = concat (map (\<lambda>k. le32_bytes (blk ! k + st ! k)) [0..<16]);
          blk = blk[12 := blk ! 12 + 1]
      in (st, stream))"

text \<open>The two copies to the stream overlap.\<close>

definition hchacha_block :: "u32 list \<Rightarrow> byte list \<Rightarrow> nat \<Rightarrow> byte list" where
  "hchacha_block st stream rounds =
     (let blk = chacha_permute rounds (take 16 st);
          low = concat (map le32_bytes (take 4 blk));
          high = concat (map le32_bytes (take 4 (drop 12 blk)));
          stream = low @ drop 16 stream
      in take 4 stream @ high @ drop 20 stream)"

definition chacha_init_const :: "u32 list \<Rightarrow> u32 list" where
  "chacha_init_const st = st[0 := 0x61707865, 1 := 0x3320646e, 2 := 0x79622d32, 3 := 0x6b206574]"

definition load_le32 :: "byte list \<Rightarrow> nat \<Rightarrow> u32" where
  "load_le32 p k = ucast (p ! k) OR push_bit 8 (ucast (p ! (k + 1))) OR push_bit 16 (ucast (p ! (k + 2))) OR
     push_bit 24 (ucast (p ! (k + 3)))"

definition chacha_init :: "u32 list \<Rightarrow> u32 list \<Rightarrow> byte list \<Rightarrow> u32 list" where
  "chacha_init st key iv =
     (chacha_init_const st)[4 := key ! 0, 5 := key ! 1, 6 := key ! 2, 7 := key ! 3, 8 := key ! 4, 9 := key ! 5,
       10 := key ! 6, 11 := key ! 7, 12 := load_le32 iv 0, 13 := load_le32 iv 4, 14 := load_le32 iv 8,
       15 := load_le32 iv 12]"

text \<open>RFC 8439: the quarter round on four words, and the rounds on the columns and the diagonals.\<close>

definition quarter_round :: "u32 \<times> u32 \<times> u32 \<times> u32 \<Rightarrow> u32 \<times> u32 \<times> u32 \<times> u32" where
  "quarter_round = (\<lambda>(a, b, c, d).
     let a = a + b; d = word_rotl 16 (d XOR a);
         c = c + d; b = word_rotl 12 (b XOR c);
         a = a + b; d = word_rotl 8 (d XOR a);
         c = c + d; b = word_rotl 7 (b XOR c)
     in (a, b, c, d))"

definition quarter_at :: "nat \<Rightarrow> nat \<Rightarrow> nat \<Rightarrow> nat \<Rightarrow> u32 list \<Rightarrow> u32 list" where
  "quarter_at i j k l blk =
     (case quarter_round (blk ! i, blk ! j, blk ! k, blk ! l) of (a, b, c, d) \<Rightarrow> blk[i := a, j := b, k := c, l := d])"

definition inner_block :: "u32 list \<Rightarrow> u32 list" where
  "inner_block blk =
     quarter_at 3 4 9 14 (quarter_at 2 7 8 13 (quarter_at 1 6 11 12 (quarter_at 0 5 10 15
       (quarter_at 3 7 11 15 (quarter_at 2 6 10 14 (quarter_at 1 5 9 13 (quarter_at 0 4 8 12 blk)))))))"

lemma rol32_rotl:
  assumes "n \<in> {7, 8, 12, 16}"
  shows "rol32 x n = word_rotl n x"
proof (rule bit_word_eqI)
  fix j assume "j < LENGTH(32)"
  then have j: "j < 32" by simp
  have m: "unat ((- of_nat n :: u32) AND 31) = 32 - n" "n mod 32 = n" "0 < n" "n < 32" using assms by auto
  have "bit (rol32 x n) j \<longleftrightarrow> (n \<le> j \<and> bit x (j - n)) \<or> bit x (32 - n + j)"
    using j m by (simp add: rol32_def bit_simps)
  also have "\<dots> \<longleftrightarrow> bit x ((j + (32 - n)) mod 32)"
    using j m(3,4) bit_imp_le_length [of x "32 - n + j"] by (cases "n \<le> j") (auto simp: mod_if add.commute)
  finally show "bit (rol32 x n) j = bit (word_rotl n x) j"
    using j m by (simp add: bit_word_rotl_iff)
qed

lemma length_chacha_line [simp]: "length (chacha_line q blk) = length blk"
  by (cases q) (simp add: chacha_line_def Let_def)

lemma chacha_line_nth:
  assumes "a < length blk" "a \<noteq> d" "d < length blk" "p < length blk"
  shows "chacha_line (a, b, d, n) blk ! p =
    (if p = d then rol32 (blk ! d XOR (blk ! a + blk ! b)) n else if p = a then blk ! a + blk ! b else blk ! p)"
  using assms by (simp add: chacha_line_def Let_def nth_list_update)

lemma chacha_line_commute:
  assumes "a < length blk" "d < length blk" "a' < length blk" "d' < length blk" "b < length blk" "b' < length blk"
    "a \<noteq> d" "a' \<noteq> d'" "{a, d} \<inter> {a', b', d'} = {}" "{a', d'} \<inter> {a, b, d} = {}"
  shows "chacha_line (a, b, d, n) (chacha_line (a', b', d', n') blk) = chacha_line (a', b', d', n') (chacha_line (a, b, d, n) blk)"
  using assms by (intro nth_equalityI) (auto simp: chacha_line_nth)

lemma fold_partition:
  assumes "\<And>x b. x \<in> set xs \<Longrightarrow> I b \<Longrightarrow> I (f x b)" "I b"
    "\<And>x y b. x \<in> set xs \<Longrightarrow> y \<in> set xs \<Longrightarrow> P x \<Longrightarrow> \<not> P y \<Longrightarrow> I b \<Longrightarrow> f x (f y b) = f y (f x b)"
  shows "fold f xs b = fold f (filter (\<lambda>x. \<not> P x) xs) (fold f (filter P xs) b)"
  using assms
proof (induction xs arbitrary: b)
  case (Cons x xs)
  have ih: "fold f xs b = fold f (filter (\<lambda>x. \<not> P x) xs) (fold f (filter P xs) b)" if "I b" for b
    using that by (intro Cons.IH) (auto intro: Cons.prems)
  note inv = Cons.prems(1) and com = Cons.prems(3)
  have "I (f x b)" using Cons.prems(1,2) by simp
  show ?case
  proof (cases "P x")
    case True
    then show ?thesis using ih [OF \<open>I (f x b)\<close>] by simp
  next
    case False
    have "fold f ys (f x b) = f x (fold f ys b)" if "set ys \<subseteq> {y \<in> set xs. P y}" "I b" for ys b
      using that
    proof (induction ys arbitrary: b)
      case (Cons y ys)
      then have "f y (f x b) = f x (f y b)" "I (f y b)" using com [of y x b] inv [of y b] False by auto
      then show ?case using Cons by simp
    qed simp
    from this [OF _ Cons.prems(2), of "filter P xs"] show ?thesis using ih [OF \<open>I (f x b)\<close>] False by auto
  qed
qed simp

lemma quarter_at_lines:
  assumes "distinct [i, j, k, l]" "i < length blk" "j < length blk" "k < length blk" "l < length blk"
  shows "quarter_at i j k l blk = fold chacha_line [(i, j, l, 16), (k, l, j, 12), (i, j, l, 8), (k, l, j, 7)] blk"
  using assms by (simp add: quarter_at_def quarter_round_def chacha_line_def Let_def nth_list_update rol32_rotl)
    (rule nth_equalityI; auto simp: nth_list_update)


text \<open>The lines of a round, grouped by quarter.\<close>

definition line_ok :: "nat \<times> nat \<times> nat \<times> nat \<Rightarrow> bool" where
  "line_ok = (\<lambda>(a, b, d, n). a < 16 \<and> b < 16 \<and> d < 16 \<and> a \<noteq> d)"

definition line_apart :: "nat \<times> nat \<times> nat \<times> nat \<Rightarrow> nat \<times> nat \<times> nat \<times> nat \<Rightarrow> bool" where
  "line_apart = (\<lambda>(a, b, d, n) (a', b', d', n'). {a, d} \<inter> {a', b', d'} = {} \<and> {a', d'} \<inter> {a, b, d} = {})"

lemma fold_lines_partition:
  assumes "list_all line_ok ls" "list_all (\<lambda>x. list_all (\<lambda>y. P x \<longrightarrow> \<not> P y \<longrightarrow> line_apart x y) ls) ls" "length blk = 16"
  shows "fold chacha_line ls blk =
    fold chacha_line (filter (\<lambda>x. \<not> P x) ls) (fold chacha_line (filter P ls) blk)"
proof (rule fold_partition [of ls "\<lambda>b. length b = 16"])
  fix x y :: "nat \<times> nat \<times> nat \<times> nat" and b :: "u32 list"
  assume *: "x \<in> set ls" "y \<in> set ls" "P x" "\<not> P y" "length b = 16"
  then have "line_ok x" "line_ok y" "line_apart x y" using assms by (auto simp: list_all_iff)
  then show "chacha_line x (chacha_line y b) = chacha_line y (chacha_line x b)"
    using *(5) by (cases x; cases y) (auto simp: line_ok_def line_apart_def intro!: chacha_line_commute)
qed (use assms in simp_all)

lemma fold_chacha_length [simp]: "length (fold chacha_line ls blk) = length blk"
  by (induction ls arbitrary: blk) simp_all

lemma fold_lines_groups:
  fixes key :: "nat \<times> nat \<times> nat \<times> nat \<Rightarrow> nat"
  defines "part m ls \<equiv> filter (\<lambda>x. key x = m) ls"
  assumes ok: "list_all line_ok ls" and apart: "list_all (\<lambda>x. list_all (\<lambda>y. key x \<noteq> key y \<longrightarrow> line_apart x y) ls) ls"
    and four: "list_all (\<lambda>x. key x < 4) ls" and len: "length blk = 16"
  shows "fold chacha_line ls blk =
    fold chacha_line (part 3 ls) (fold chacha_line (part 2 ls) (fold chacha_line (part 1 ls) (fold chacha_line (part 0 ls) blk)))"
proof -
  define r0 where "r0 = filter (\<lambda>x. key x \<noteq> 0) ls"
  define r1 where "r1 = filter (\<lambda>x. key x \<noteq> 1) r0"
  have sub: "set r0 \<subseteq> set ls" "set r1 \<subseteq> set ls" by (auto simp: r0_def r1_def)
  have split: "fold chacha_line xs b = fold chacha_line (filter (\<lambda>x. key x \<noteq> m) xs) (fold chacha_line (part m xs) b)"
    if "set xs \<subseteq> set ls" "length b = 16" for xs m b
  proof -
    have "line_apart x y" if "x \<in> set xs" "y \<in> set xs" "key x = m" "key y \<noteq> m" for x y
      using apart that \<open>set xs \<subseteq> set ls\<close> unfolding list_all_iff by (metis subsetD)
    moreover have "list_all line_ok xs" using ok that(1) by (auto simp: list_all_iff)
    ultimately show ?thesis
      unfolding part_def by (intro fold_lines_partition that(2)) (simp_all add: list_all_iff)
  qed
  have "part 1 r0 = part 1 ls" "part 2 r1 = part 2 ls" by (auto simp: part_def r0_def r1_def intro!: filter_cong)
  moreover have "filter (\<lambda>x. key x \<noteq> 2) r1 = part 3 ls"
    unfolding part_def r0_def r1_def filter_filter
  proof (rule filter_cong [OF refl])
    fix x assume "x \<in> set ls"
    then have "key x < 4" using four by (simp add: list_all_iff)
    then show "((key x \<noteq> 0 \<and> key x \<noteq> 1) \<and> key x \<noteq> 2) = (key x = 3)" by auto
  qed
  ultimately show ?thesis
    using split [OF order_refl len, of 0] split [OF sub(1), of "fold chacha_line (part 0 ls) blk" 1]
      split [OF sub(2), of "fold chacha_line (part 1 ls) (fold chacha_line (part 0 ls) blk)" 2] len
    by (simp only: r0_def [symmetric] r1_def [symmetric] fold_chacha_length)
qed

lemma chacha_lines_inner_block:
  assumes "length blk = 16"
  shows "fold chacha_line chacha_lines blk = inner_block blk"
proof -
  define ls1 where "ls1 = take 16 chacha_lines"
  define ls2 where "ls2 = drop 16 chacha_lines"
  have q: "fold chacha_line [(i, j, l, 16), (k, l, j, 12), (i, j, l, 8), (k, l, j, 7)] b = quarter_at i j k l b"
    if "distinct [i, j, k, l]" "i < 16" "j < 16" "k < 16" "l < 16" "length b = 16" for i j k l b
    using that by (intro quarter_at_lines [symmetric]) simp_all
  let ?k1 = "\<lambda>x. fst x mod 4" and ?k2 = "\<lambda>x. (if fst x < 8 then fst x else fst x - 2) mod 4"
  have e1: "ls1 = [(0, 4, 12, 16), (1, 5, 13, 16), (2, 6, 14, 16), (3, 7, 15, 16),
     (8, 12, 4, 12), (9, 13, 5, 12), (10, 14, 6, 12), (11, 15, 7, 12),
     (0, 4, 12, 8), (1, 5, 13, 8), (2, 6, 14, 8), (3, 7, 15, 8),
     (8, 12, 4, 7), (9, 13, 5, 7), (10, 14, 6, 7), (11, 15, 7, 7)]" by (simp add: ls1_def chacha_lines_def)
  have e2: "ls2 = [(0, 5, 15, 16), (1, 6, 12, 16), (2, 7, 13, 16), (3, 4, 14, 16),
     (10, 15, 5, 12), (11, 12, 6, 12), (8, 13, 7, 12), (9, 14, 4, 12),
     (0, 5, 15, 8), (1, 6, 12, 8), (2, 7, 13, 8), (3, 4, 14, 8),
     (10, 15, 5, 7), (11, 12, 6, 7), (8, 13, 7, 7), (9, 14, 4, 7)]" by (simp add: ls2_def chacha_lines_def)
  have ok: "list_all line_ok ls1" "list_all line_ok ls2" by (simp_all add: e1 e2 line_ok_def)
  have lt: "list_all (\<lambda>x. ?k1 x < 4) ls1" "list_all (\<lambda>x. ?k2 x < 4) ls2" by (simp_all add: list_all_iff)
  have ap1: "list_all (\<lambda>x. list_all (\<lambda>y. ?k1 x \<noteq> ?k1 y \<longrightarrow> line_apart x y) ls1) ls1" by (simp add: e1 line_apart_def)
  have ap2: "list_all (\<lambda>x. list_all (\<lambda>y. ?k2 x \<noteq> ?k2 y \<longrightarrow> line_apart x y) ls2) ls2" by (simp add: e2 line_apart_def)
  define c where "c = quarter_at 3 7 11 15 (quarter_at 2 6 10 14 (quarter_at 1 5 9 13 (quarter_at 0 4 8 12 blk)))"
  have lq: "length (quarter_at i j k l b) = length b" for i j k l b by (simp add: quarter_at_def split: prod.split)
  have "fold chacha_line ls1 blk = c"
    unfolding fold_lines_groups [OF ok(1) ap1 lt(1) assms] c_def
    by (simp add: e1 q lq assms del: fold.simps)
  moreover have "fold chacha_line ls2 c = inner_block blk"
    unfolding inner_block_def c_def [symmetric]
    by (subst fold_lines_groups [OF ok(2) ap2 lt(2)]) (simp_all add: e2 q lq assms c_def del: fold.simps)
  moreover have "fold chacha_line chacha_lines blk = fold chacha_line ls2 (fold chacha_line ls1 blk)"
    by (metis append_take_drop_id comp_apply fold_append ls1_def ls2_def)
  ultimately show ?thesis by simp
qed


lemma chacha_permute_inner_block:
  "length blk = 16 \<Longrightarrow> chacha_permute rounds blk = (inner_block ^^ ((rounds + 1) div 2)) blk \<and> length (chacha_permute rounds blk) = 16"
proof (induction rounds blk rule: chacha_permute.induct)
  case (1 rounds blk)
  show ?case
  proof (cases "0 < rounds")
    case False
    then show ?thesis using 1(2) by (simp add: chacha_permute.simps)
  next
    case True
    have l: "length (inner_block blk) = 16" using chacha_lines_inner_block [OF 1(2)] fold_chacha_length 1(2) by metis
    have st: "chacha_permute rounds blk = chacha_permute (rounds - 2) (inner_block blk)"
      using True chacha_lines_inner_block [OF 1(2)] by (simp add: chacha_permute.simps [of rounds])
    have n: "(rounds + 1) div 2 = Suc ((rounds - 2 + 1) div 2)" using True by (cases "rounds = 1") auto
    have "chacha_permute (rounds - 2) (inner_block blk) = (inner_block ^^ ((rounds - 2 + 1) div 2)) (inner_block blk)"
      "length (chacha_permute (rounds - 2) (inner_block blk)) = 16"
      using 1(1) [OF True, unfolded chacha_lines_inner_block [OF 1(2)], OF l] by blast+
    then show ?thesis unfolding st n by (simp only: funpow_Suc_right comp_apply)
  qed
qed

text \<open>Every line can be undone, so different blocks stay different.\<close>

lemma chacha_line_inject:
  assumes "length x = 16" "length y = 16" "a < 16" "b < 16" "d < 16" "distinct [a, b, d]" "n \<in> {7, 8, 12, 16}"
    "chacha_line (a, b, d, n) x = chacha_line (a, b, d, n) y"
  shows "x = y"
proof (rule nth_equalityI)
  show "length x = length y" using assms by simp
  note at = chacha_line_nth [of a x d _ b n] chacha_line_nth [of a y d _ b n]
  have eq: "chacha_line (a, b, d, n) x ! p = chacha_line (a, b, d, n) y ! p" for p using assms(8) by simp
  have xb: "x ! b = y ! b" using eq [of b] at [of b] assms by simp
  have xa: "x ! a = y ! a" using eq [of a] at [of a] xb assms by simp
  have "word_rotl n (x ! d XOR (x ! a + x ! b)) = word_rotl n (y ! d XOR (y ! a + y ! b))"
    using eq [of d] at [of d] assms by (simp add: rol32_rotl)
  then have "x ! d XOR (x ! a + x ! b) = y ! d XOR (y ! a + y ! b)" by (metis word_rot_lr)
  from arg_cong [OF this, of "\<lambda>w. w XOR (x ! a + x ! b)"]
  have xd: "x ! d = y ! d" using xa xb by (simp add: xor.assoc)
  fix p assume "p < length x"
  then show "x ! p = y ! p" using eq [of p] at [of p] xa xd assms by (auto split: if_splits)
qed


lemma fold_lines_inject:
  assumes "list_all (\<lambda>(a, b, d, n). a < 16 \<and> b < 16 \<and> d < 16 \<and> distinct [a, b, d] \<and> n \<in> {7, 8, 12, 16}) ls"
    "length x = 16" "length y = 16" "fold chacha_line ls x = fold chacha_line ls y"
  shows "x = y"
  using assms
proof (induction ls arbitrary: x y)
  case (Cons l ls)
  obtain a b d n where l: "l = (a, b, d, n)" by (cases l)
  have "list_all (\<lambda>(a, b, d, n). a < 16 \<and> b < 16 \<and> d < 16 \<and> distinct [a, b, d] \<and> n \<in> {7, 8, 12, 16}) ls"
    using Cons.prems(1) by simp
  from Cons.IH [OF this, of "chacha_line l x" "chacha_line l y"]
  have "chacha_line (a, b, d, n) x = chacha_line (a, b, d, n) y" using Cons.prems(2-4) l by simp
  then show ?case using chacha_line_inject [OF Cons.prems(2,3), of a b d n] Cons.prems(1) l by simp
qed simp

lemma inner_block_inject:
  assumes "length x = 16" "length y = 16" "inner_block x = inner_block y"
  shows "x = y"
proof (rule fold_lines_inject)
  show "fold chacha_line chacha_lines x = fold chacha_line chacha_lines y"
    using assms by (simp add: chacha_lines_inner_block)
qed (simp_all add: assms(1,2) chacha_lines_def)

lemma inner_block_power:
  assumes "length x = 16" "length y = 16"
  shows "length ((inner_block ^^ n) x) = 16 \<and> ((inner_block ^^ n) x = (inner_block ^^ n) y \<longrightarrow> x = y)"
proof (induction n)
  case (Suc n)
  have len: "length (inner_block z) = 16" if "length z = 16" for z
    using chacha_lines_inner_block [OF that] fold_chacha_length that by metis
  have "length ((inner_block ^^ n) y) = 16" for n
    by (induction n) (simp_all add: assms len)
  then show ?case using Suc inner_block_inject len by simp
qed (simp add: assms)

lemma chacha_permute_inject:
  "length x = 16 \<Longrightarrow> length y = 16 \<Longrightarrow> chacha_permute rounds x = chacha_permute rounds y \<Longrightarrow> x = y"
  using chacha_permute_inner_block inner_block_power by metis

text \<open>The test vector of RFC 8439 for the quarter round.\<close>

lemma quarter_round_vector:
  "quarter_round (0x11111111, 0x01020304, 0x9b8d6f43, 0x01234567) = (0xea2a92f4, 0xcb1cf8ce, 0x4581472e, 0x5881c4bb)"
  by code_simp

text \<open>
  C28: The interleaved lines of the permutation are the quarter rounds of the standard, and different blocks have different
  images. A block of the stream is the sum of the permuted and the original words. But the counter that
  the function increments is its own copy: the state stays as it was, so the following block of the stream repeats the last one.
\<close>

theorem chacha_rounds_and_counter:
  assumes "length st = 16" "length other = 16"
  shows "chacha_permute rounds st = (inner_block ^^ ((rounds + 1) div 2)) st \<and>
    (chacha_permute rounds st = chacha_permute rounds other \<longrightarrow> st = other) \<and>
    snd (chacha_block st rounds) =
      concat (map2 (\<lambda>x y. le32_bytes (x + y)) ((inner_block ^^ ((rounds + 1) div 2)) st) st) \<and>
    chacha_block (fst (chacha_block st rounds)) rounds = chacha_block st rounds"
proof -
  have p: "chacha_permute rounds st = (inner_block ^^ ((rounds + 1) div 2)) st" "length (chacha_permute rounds st) = 16"
    using chacha_permute_inner_block [OF assms(1)] by blast+
  have "map (\<lambda>k. f (xs ! k) (ys ! k)) [0..<length xs] = map2 f xs ys"
    if "length xs = length ys" for f :: "u32 \<Rightarrow> u32 \<Rightarrow> byte list" and xs ys
    using that by (intro nth_equalityI) simp_all
  from this [of "chacha_permute rounds st" st "\<lambda>x y. le32_bytes (x + y)"]
  have "map (\<lambda>k. le32_bytes (chacha_permute rounds st ! k + st ! k)) [0..<16] =
      map2 (\<lambda>x y. le32_bytes (x + y)) (chacha_permute rounds st) st" by (simp only: p(2) assms)
  then have "snd (chacha_block st rounds) = concat (map2 (\<lambda>x y. le32_bytes (x + y)) (chacha_permute rounds st) st)"
    using assms by (simp only: chacha_block_def Let_def snd_conv take_all order_refl)
  moreover have "fst (chacha_block st rounds) = st" by (simp add: chacha_block_def Let_def)
  moreover note chacha_permute_inject [OF assms, of rounds]
  ultimately show ?thesis unfolding p(1) [symmetric] by metis
qed

theorem chacha_rounds_and_counter_witness:
  "chacha_permute 20 (replicate 16 1) = (inner_block ^^ 10) (replicate 16 1) \<and>
   chacha_permute 20 (replicate 16 1) \<noteq> chacha_permute 20 (replicate 16 2)"
proof -
  have "replicate 16 1 \<noteq> (replicate 16 2 :: u32 list)" by simp
  moreover note t = chacha_rounds_and_counter [where st = "replicate 16 1" and other = "replicate 16 2" and rounds = 20, OF length_replicate length_replicate]
  ultimately have "chacha_permute 20 (replicate 16 1) \<noteq> chacha_permute 20 (replicate 16 2)" by blast
  moreover have "(20 + 1) div 2 = (10 :: nat)" by simp
  then have "chacha_permute 20 (replicate 16 1) = (inner_block ^^ 10) (replicate 16 1)" using t [THEN conjunct1] by (simp only:)
  ultimately show ?thesis by blast
qed

end
