(* ===== verification/Spec2Isabelle.thy ===== *)
theory Spec2Isabelle
  imports Kmalloc Crc Codec Bitrev Kfifo Semaphore Mutex Sched_Class Timerqueue
    Completion Sort_Loops List_Sort_Stack Boot_Tables Errname Glob Cipher
begin

text \<open>
  A model of the core of the Lightcore kernel with the theorems that make it correct.

  \<^bold>\<open>The program.\<close> Lightcore is a small kernel in C. Its own logic lies in \<^verbatim>\<open>mm\<close> (physical pages,
  small objects), \<^verbatim>\<open>kernel\<close> (scheduling classes, locks) and in the containers and codecs of
  \<^verbatim>\<open>lib\<close> and \<^verbatim>\<open>include\<close> that everything else is built on. The page allocator keeps its free
  blocks on intrusive lists; the small-object allocator takes pages from it and links its partly
  used pages on such lists; the scheduler classes keep one list for each priority and a bitmap of
  the priorities in use; the locks queue waiting tasks on lists; timers stand in a red-black tree.

  \<^bold>\<open>The theories.\<close>

  \<^item> \<^verbatim>\<open>Prelude\<close>: aligned blocks of numbers, \<^verbatim>\<open>include/align.h\<close>, error codes, fact collections.

  \<^item> \<^verbatim>\<open>List_Head\<close>: \<^verbatim>\<open>include/list.h\<close> and \<^verbatim>\<open>lib/list-debug.c\<close>. A store of pointers by node; every
  operation is its sequence of field writes, and each is shown to do what the operation on lists does.

  \<^item> \<^verbatim>\<open>Page_Alloc\<close>: \<^verbatim>\<open>mm/page.c\<close>, \<^verbatim>\<open>mm/region.c\<close>. The page array and the free
  lists of the regions. Invariant: the free lists hold exactly the free blocks, aligned and
  disjoint. The boot adds the pages that the memory model, flat or sparse, has a descriptor for. Allocation and release are sound, complete and lose no page, in every history.

  \<^item> \<^verbatim>\<open>Slob\<close>, \<^verbatim>\<open>Kmalloc\<close>: \<^verbatim>\<open>mm/kmalloc/slob.c\<close>. \<^verbatim>\<open>Slob\<close> has the nodes within one page and their
  splitting and merging; \<^verbatim>\<open>Kmalloc\<close> the allocator seen by its clients, for which the pages come
  through a locale that the page allocator interprets. Blocks never overlap, are aligned, are
  returned completely, and \<^verbatim>\<open>krealloc\<close> keeps the contents. The histories use caches of objects
  smaller than a page: the links of a larger object lie in a union with those of a free page, which the
  model keeps apart, and \<^verbatim>\<open>slob_free\<close> does not unlink them.

  \<^item> \<^verbatim>\<open>Ring\<close>, \<^verbatim>\<open>Kfifo\<close>: \<^verbatim>\<open>lib/kfifo.c\<close>, \<^verbatim>\<open>include/kfifo.h\<close>. The buffer with indices that wrap at 64
  bits is a bounded queue (a locale), for any mixture of reads and writes; a record put into an empty buffer comes back whole.

  \<^item> \<^verbatim>\<open>Bitops\<close>, \<^verbatim>\<open>Bitmap\<close>, \<^verbatim>\<open>Bitrev\<close>: \<^verbatim>\<open>include/bitops.h\<close>, \<^verbatim>\<open>lib/bitops.c\<close>, \<^verbatim>\<open>lib/bitmap.c\<close>,
  \<^verbatim>\<open>include/bitrev.h\<close>, \<^verbatim>\<open>include/popcount.h\<close>. Words of 64 bits; searches, iteration and the logic of
  bitmaps against sets of bit numbers, with the branches for bit counts the compiler knows; counts and
  reversals against their definition by bits. Bit counts go up to \<open>2 ^ 32 - 64\<close>, where the
  \<^verbatim>\<open>unsigned int\<close> positions of the code do not wrap.

  \<^item> \<^verbatim>\<open>Crc_Tables\<close>, \<^verbatim>\<open>Crc_Register\<close>, \<^verbatim>\<open>Crc\<close>: the eleven checks of \<^verbatim>\<open>include/crypto/crc*-table.h\<close>. Each
  equals the shift register of its polynomial and detects any error within a byte.

  \<^item> \<^verbatim>\<open>Codec\<close>: \<^verbatim>\<open>lib/crypto/base64.c\<close>, \<^verbatim>\<open>base32.c\<close>, \<^verbatim>\<open>ascii85.c\<close>. Decoding inverts encoding; lengths and
  error codes.

  \<^item> \<^verbatim>\<open>Semaphore\<close>, \<^verbatim>\<open>Mutex\<close>: \<^verbatim>\<open>kernel/lock\<close>. Sections under a spin lock, or single atomic operations,
  are the steps of any number of tasks; conservation, exclusion, no lost wake-up.

  \<^item> \<^verbatim>\<open>Completion\<close>: \<^verbatim>\<open>kernel/sched/completion.c\<close>, \<^verbatim>\<open>kernel/sched/waitqueue.c\<close>. Every section under the lock of the
  wait queue is one step of any of the tasks. No completion is lost or made up, and one waiter is always woken;
  with two waiters the model shows a wake-up that is lost and a node that stays queued after a timeout.

  \<^item> \<^verbatim>\<open>Sched_Class\<close>: \<^verbatim>\<open>kernel/sched/fifo.c\<close>, \<^verbatim>\<open>kernel/sched/rr.c\<close>. One locale is the contract of a class; both
  classes interpret it. The most urgent task is picked, equal ones take turns.

  \<^item> \<^verbatim>\<open>Rbtree\<close>, \<^verbatim>\<open>Rbtree_Insert\<close>, \<^verbatim>\<open>Rbtree_Remove\<close>, \<^verbatim>\<open>Rbtree_Iter\<close>: \<^verbatim>\<open>lib/rbtree.c\<close>,
  \<^verbatim>\<open>include/rbtree.h\<close>, \<^verbatim>\<open>include/titer.h\<close>. Nodes with parent pointers in a store represent an abstract tree; a
  place in it is a path of frames. Rotations, insertion and removal keep colors and black heights;
  iterators and search follow the order.

  \<^item> \<^verbatim>\<open>Timerqueue\<close>: \<^verbatim>\<open>lib/timerqueue.c\<close> on the trees with a cached first node. A session of the queue
  refines a sorted list; timers come out by time, equal ones in order of insertion.

  \<^item> \<^verbatim>\<open>Sort\<close>, \<^verbatim>\<open>Sort_Loops\<close>: \<^verbatim>\<open>lib/sort.c\<close>, \<^verbatim>\<open>include/bsearch.h\<close>. The bottom-up heap sort with its byte
  offsets in 64 bits, the bubble sort and the binary search. The order of the client is a locale; sorting ends
  with an ordered permutation.

  \<^item> \<^verbatim>\<open>List_Sort\<close>, \<^verbatim>\<open>List_Sort_Stack\<close>: \<^verbatim>\<open>lib/list-sort.c\<close> on the pointers of \<^verbatim>\<open>List_Head\<close>. The merge sort
  keeps a stack of sorted runs whose sizes follow the bits of a counter; it is stable and restores the back links.

  \<^item> \<^verbatim>\<open>Boot_Tables\<close>: \<^verbatim>\<open>kernel/extable.c\<close>, \<^verbatim>\<open>kernel/crash.c\<close> with the fix-ups of \<^verbatim>\<open>arch/x86/extable.c\<close>. Both tables
  are sorted at boot by the heap sort and searched by the binary search, whose contracts are interpreted here.

  \<^item> \<^verbatim>\<open>Errname\<close>: \<^verbatim>\<open>lib/errname.c\<close>, the table of error names and its lookup.

  \<^item> \<^verbatim>\<open>Integer_Math\<close>: \<^verbatim>\<open>gcd.c\<close>, \<^verbatim>\<open>lcm.c\<close>, \<^verbatim>\<open>pow.c\<close>, \<^verbatim>\<open>sqrt.c\<close>, \<^verbatim>\<open>prime.c\<close> of \<^verbatim>\<open>lib/math\<close>. Binary greatest common
  divisors, with the operands for which they never return, powers, floors of square roots, and primes.

  \<^item> \<^verbatim>\<open>Glob\<close>: \<^verbatim>\<open>lib/glob.c\<close>. The matcher as a step function with a measure; it decides the meaning of the pattern
  although it remembers only the last star.

  \<^item> \<^verbatim>\<open>Hash\<close>, \<^verbatim>\<open>Cipher\<close>: \<^verbatim>\<open>lib/crypto/sha256.c\<close>, \<^verbatim>\<open>sha1.c\<close>, \<^verbatim>\<open>arc4.c\<close>, \<^verbatim>\<open>chacha.c\<close> against the published
  algorithms. SHA-256, ARC4 and the permutation of ChaCha agree with them; SHA-1 reads behind its block,
  and ChaCha does not advance its counter.

  \<^bold>\<open>Conventions.\<close> Pointers are numbers with 0 as null, or addresses as words where arithmetic on them
  matters. Loops that might not end are \<^verbatim>\<open>partial_function\<close>s with \<open>None\<close> for running forever; the properties
  show that they return. No fuel is used: the other loops are recursive on a number that falls, such as the
  bits still to search or the orders still to merge. Error codes are values.
  Faults (an access through a list head that was never initialised, an index out of a table) are \<open>None\<close>.

  \<^bold>\<open>Not modelled.\<close> Drivers, architectures, boot loaders, the device model and the console are register accesses
  and glue without logic that can be stated apart from the hardware; \<^verbatim>\<open>lib/acpica\<close>, \<^verbatim>\<open>lib/fdt\<close>,
  \<^verbatim>\<open>lib/compress\<close> are third-party code and \<^verbatim>\<open>lib/font\<close> is data. Spin locks and preemption are the
  atomicity of the steps. The instrumentation of bit operations and the debug variants of the trees are left
  out. The scheduler core switches stacks in architecture code, so only its classes and queues are here. The
  page tables, the memory areas on top of them, the file systems and the shell rest on that code or on
  input and output. The containers and the parsers of \<^verbatim>\<open>lib\<close> that the manifest lists as not
  modelled have no client in the modelled part.
\<close>

end
